(* ===== verification/Prelude.thy ===== *)
theory Prelude
  imports Main "HOL-Library.Word" "HOL-Library.Char_ord"
begin

text \<open>
  Shared vocabulary of the development: the machine types of the C code on its LP64 targets,
  C strings and bytes, the decimal printing done by \<open>snprintf\<close>, and the list and word lemmas
  that several components use.

  Conventions of the whole development. A C function that returns \<open>bool\<close> and writes its
  result through an out pointer is a function into \<open>option\<close>: \<open>false\<close> is \<open>None\<close>, and the
  value written on success is inside \<open>Some\<close>. A pointer argument that may be \<open>NULL\<close> as a
  matter of input (a text to parse) is an \<open>option\<close>; objects that the caller owns (out
  parameters, state structures) are values, so the guards against \<open>NULL\<close> for those have no
  counterpart.
\<close>

unbundle bit_operations_syntax

type_synonym u8 = "8 word"
type_synonym u32 = "32 word"
type_synonym u64 = "64 word"
type_synonym size_t = "64 word"
type_synonym uintmax_t = "64 word"
type_synonym bytes = "8 word list"

text \<open>A \<open>const char*\<close> that may be \<open>NULL\<close>; the list is the text before its NUL byte.\<close>

type_synonym cstr = "string option"

abbreviation SIZE_MAX :: size_t where
  "SIZE_MAX \<equiv> - 1"

abbreviation UINTMAX_MAX :: uintmax_t where
  "UINTMAX_MAX \<equiv> - 1"

named_theorems unat_bounds \<open>facts that bound the natural value of a machine word\<close>

section \<open>Words\<close>

lemma unat_lt2p: "unat (w :: 'a::len word) < 2 ^ LENGTH('a)"
  by (rule unsigned_less)

lemma unat_minus_one_word: "unat (- 1 :: 'a::len word) = 2 ^ LENGTH('a) - 1"
  by (simp add: unsigned_minus_1_eq_mask mask_eq_exp_minus_1)

lemma unat_max_word64 [simp]: "unat (- 1 :: 64 word) = 2 ^ 64 - 1"
  by (simp add: unat_minus_one_word)

lemma unat_less_2p64 [unat_bounds]: "unat (w :: 64 word) < 2 ^ 64"
  using unat_lt2p [of w] by simp

lemma unat_less_2p8 [unat_bounds]: "unat (w :: 8 word) < 256"
  using unat_lt2p [of w] by simp

lemma unat_of_nat_64 [simp]: "n < 2 ^ 64 \<Longrightarrow> unat (of_nat n :: 64 word) = n"
  by (simp add: unat_of_nat take_bit_nat_eq_self_iff)

lemma unat_eq_iff: "a = b \<longleftrightarrow> unat a = unat b" for a b :: "'a::len word"
  by (simp add: word_unat_eq_iff)

lemma unat_add_exact:
  fixes a b :: "'a::len word"
  assumes "unat a + unat b < 2 ^ LENGTH('a)"
  shows "unat (a + b) = unat a + unat b"
  using assms by (simp add: unat_word_ariths)

lemma unat_mult_exact:
  fixes a b :: "'a::len word"
  assumes "unat a * unat b < 2 ^ LENGTH('a)"
  shows "unat (a * b) = unat a * unat b"
  using assms by (simp add: unat_word_ariths)

lemma unat_sub_exact:
  fixes a b :: "'a::len word"
  assumes "b \<le> a"
  shows "unat (a - b) = unat a - unat b"
  using assms by (simp add: unat_sub_if' word_le_nat_alt)

lemma unat_max_minus: "unat (- 1 - w :: 'a::len word) = 2 ^ LENGTH('a) - 1 - unat w"
  by (simp add: unat_sub_exact unat_minus_one_word)

lemma checked_add_guard:
  fixes a b :: "'a::len word"
  shows "a > - 1 - b \<longleftrightarrow> 2 ^ LENGTH('a) \<le> unat a + unat b"
proof -
  have "a > - 1 - b \<longleftrightarrow> 2 ^ LENGTH('a) - 1 - unat b < unat a"
    by (simp only: word_less_nat_alt unat_max_minus)
  then show ?thesis using unat_lt2p [of b] by linarith
qed

text \<open>Flags: a value without bits outside a mask is at most the mask.\<close>

lemma within_mask_le:
  fixes p m :: "'a::len word"
  assumes "p AND NOT m = 0"
  shows "p \<le> m"
proof -
  have "bit p n \<longleftrightarrow> bit (p AND m) n" if "n < LENGTH('a)" for n
  proof -
    have "\<not> bit (p AND NOT m) n" using assms by simp
    then show ?thesis using that by (auto simp: bit_and_iff bit_not_iff)
  qed
  then have "p = p AND m" by (rule bit_word_eqI)
  then show ?thesis by (metis word_and_le1)
qed

text \<open>Equality of bytes, bit by bit.\<close>

lemma u8_masks: "(0x03 :: u8) = mask 2" "(0x0f :: u8) = mask 4" "(0x3f :: u8) = mask 6"
  by (simp_all add: mask_eq_exp_minus_1)

lemma u8_bit_beyond [simp]: "8 \<le> n \<Longrightarrow> \<not> bit (w :: u8) n"
  by (auto dest: bit_imp_le_length)

lemma u8_eqI:
  fixes v w :: u8
  assumes "bit v 0 = bit w 0" "bit v 1 = bit w 1" "bit v 2 = bit w 2" "bit v 3 = bit w 3"
    "bit v 4 = bit w 4" "bit v 5 = bit w 5" "bit v 6 = bit w 6" "bit v 7 = bit w 7"
  shows "v = w"
proof (rule bit_word_eqI)
  fix n assume "n < LENGTH(8)"
  then consider "n = 0" | "n = 1" | "n = 2" | "n = 3" | "n = 4" | "n = 5" | "n = 6" | "n = 7"
    by fastforce
  then show "bit v n = bit w n" using assms by cases simp_all
qed

text \<open>A signed 64-bit value read from the unsigned value of its bits.\<close>

lemma sint_uint_64: "sint (w :: 64 word) = (if uint w < 2 ^ 63 then uint w else uint w - 2 ^ 64)"
proof -
  have lt: "uint w < 2 ^ 64" using uint_lt2p [of w] by simp
  have "uint w div 2 ^ 63 = (if uint w < 2 ^ 63 then 0 else 1)"
  proof (cases "uint w < 2 ^ 63")
    case False
    with lt have "uint w div 2 ^ 63 = 1"
      by (intro int_div_pos_eq [where r = "uint w - 2 ^ 63"]) simp_all
    with False show ?thesis by simp
  qed simp
  then have "bit (uint w) 63 \<longleftrightarrow> \<not> uint w < 2 ^ 63"
    unfolding bit_iff_odd by simp
  moreover have "sint w = uint w - 2 ^ 64 * of_bool (bit (uint w) 63)"
    using lt by (simp add: sint_uint signed_take_bit_eq_take_bit_minus take_bit_int_eq_self_iff)
  ultimately show ?thesis by simp
qed

lemma sint_eq_iff: "a = b \<longleftrightarrow> sint a = sint b" for a b :: "'a::len word"
  by (rule word_eq_iff_signed)

lemma uint_neg_64: "uint (- p :: 64 word) = (if p = 0 then 0 else 2 ^ 64 - uint p)"
  using uint_sub_if' [of 0 p] uint_ge_0 [of p] by (auto simp: word_uint_eq_iff)

lemma sint_neg_64: "uint (p :: 64 word) \<le> 2 ^ 63 \<Longrightarrow> sint (- p) = - uint p"
  unfolding sint_uint_64 uint_neg_64 by auto

text \<open>Rounding up to a whole number of units, as the quotient and as the next multiple.\<close>

definition ceil_div :: "nat \<Rightarrow> nat \<Rightarrow> nat" where
  "ceil_div v a = (v + a - 1) div a"

lemma ceil_div_alt: "0 < a \<Longrightarrow> ceil_div v a = v div a + (if v mod a = 0 then 0 else 1)"
proof -
  assume a: "0 < a"
  have "v + a - 1 = v div a * a + (v mod a + a - 1)"
    using a div_mult_mod_eq [of v a] by linarith
  then have "ceil_div v a = v div a + (v mod a + a - 1) div a"
    using a by (simp only: ceil_div_def div_mult_self3)
  moreover have "(v mod a + a - 1) div a = (if v mod a = 0 then 0 else 1)"
  proof (cases "v mod a = 0")
    case True
    then show ?thesis using a by simp
  next
    case False
    then have "v mod a + a - 1 = (v mod a - 1) + a" by simp
    moreover have "v mod a - 1 < a" using a mod_less_divisor [of a v] by linarith
    ultimately have "(v mod a + a - 1) div a = (v mod a - 1) div a + 1"
      using a by (simp only: div_add_self2)
    with \<open>v mod a - 1 < a\<close> False show ?thesis by simp
  qed
  ultimately show ?thesis by simp
qed

lemma ceil_div_ge: "0 < a \<Longrightarrow> v \<le> ceil_div v a * a"
proof -
  assume a: "0 < a"
  have "v \<le> v div a * a + a"
    using div_mult_mod_eq [of v a] mod_less_divisor [OF a, of v] by linarith
  moreover have "v = v div a * a" if "v mod a = 0"
    using div_mult_mod_eq [of v a] that by linarith
  ultimately show ?thesis using a by (auto simp: ceil_div_alt)
qed

lemma ceil_div_least: "0 < a \<Longrightarrow> v \<le> k * a \<Longrightarrow> ceil_div v a \<le> k"
proof -
  assume a: "0 < a" and le: "v \<le> k * a"
  have "ceil_div v a < Suc k"
    using a le unfolding ceil_div_def by (simp add: div_less_iff_less_mult)
  then show ?thesis by simp
qed

section \<open>Characters and decimal text\<close>

definition is_digit :: "char \<Rightarrow> bool" where
  "is_digit c \<longleftrightarrow> CHR ''0'' \<le> c \<and> c \<le> CHR ''9''"

definition digit_value :: "char \<Rightarrow> nat" where
  "digit_value c = of_char c - of_char CHR ''0''"

definition digit_char :: "nat \<Rightarrow> char" where
  "digit_char d = char_of (48 + d)"

lemma is_digit_code: "is_digit c \<longleftrightarrow> 48 \<le> (of_char c :: nat) \<and> (of_char c :: nat) \<le> 57"
  by (simp add: is_digit_def less_eq_char_def)

lemma digit_value_bound: "is_digit c \<Longrightarrow> digit_value c \<le> 9"
  unfolding is_digit_code digit_value_def by (auto simp: of_char_def)

lemma digit_char_simps [simp]:
  "d < 10 \<Longrightarrow> is_digit (digit_char d)"
  "d < 10 \<Longrightarrow> digit_value (digit_char d) = d"
  by (simp_all add: is_digit_code digit_value_def digit_char_def)

lemma digit_char_literals:
  "digit_char 0 = CHR ''0''" "digit_char (Suc 0) = CHR ''1''" "digit_char 1 = CHR ''1''" "digit_char 2 = CHR ''2''"
  "digit_char 3 = CHR ''3''" "digit_char 4 = CHR ''4''" "digit_char 5 = CHR ''5''"
  "digit_char 6 = CHR ''6''" "digit_char 7 = CHR ''7''" "digit_char 8 = CHR ''8''"
  "digit_char 9 = CHR ''9''"
  by code_simp+

text \<open>\<open>isspace\<close> in the C locale.\<close>

definition c_isspace :: "char \<Rightarrow> bool" where
  "c_isspace c \<longleftrightarrow> c = CHR '' '' \<or> (of_char c :: nat) \<in> {9..13}"

text \<open>The text that \<open>%PRIuMAX\<close> (and \<open>%d\<close> of a non-negative value) prints.\<close>

fun dec_of_nat :: "nat \<Rightarrow> string" where
  "dec_of_nat n = (if n < 10 then [digit_char n] else dec_of_nat (n div 10) @ [digit_char (n mod 10)])"

declare dec_of_nat.simps [simp del]

text \<open>The value of a digit string, most significant digit first.\<close>

definition dec_value :: "string \<Rightarrow> nat" where
  "dec_value s = foldl (\<lambda>v c. v * 10 + digit_value c) 0 s"

lemma dec_value_simps [simp]:
  "dec_value [] = 0"
  "dec_value (s @ [c]) = dec_value s * 10 + digit_value c"
  by (simp_all add: dec_value_def)

lemma dec_of_nat_nonempty [simp]: "dec_of_nat n \<noteq> []"
  by (subst dec_of_nat.simps) simp

lemma dec_of_nat_digits: "list_all is_digit (dec_of_nat n)"
proof (induction n rule: dec_of_nat.induct)
  case (1 n)
  then show ?case by (subst dec_of_nat.simps) (simp add: list_all_iff)
qed

lemma dec_value_dec_of_nat [simp]: "dec_value (dec_of_nat n) = n"
proof (induction n rule: dec_of_nat.induct)
  case (1 n)
  show ?case
  proof (cases "n < 10")
    case True
    then show ?thesis
      using dec_value_simps(2) [of "[]" "digit_char n"] by (subst dec_of_nat.simps) simp
  next
    case False
    with 1 show ?thesis by (subst dec_of_nat.simps) simp
  qed
qed

lemma foldl_dec_value:
  "foldl (\<lambda>v c. v * 10 + digit_value c) a s = a * 10 ^ length s + dec_value s"
proof (induction s rule: rev_induct)
  case Nil
  then show ?case by simp
next
  case (snoc c s)
  then show ?case by (simp add: algebra_simps)
qed

lemma dec_value_Cons: "dec_value (c # s) = digit_value c * 10 ^ length s + dec_value s"
  using foldl_dec_value [of "digit_value c" s] by (simp add: dec_value_def)

text \<open>
  \<open>snprintf (buffer, size, ...)\<close> stores the text cut to \<open>size - 1\<close> bytes and a NUL; with
  size 0 it stores nothing.
\<close>

definition snprintf_store :: "nat \<Rightarrow> string \<Rightarrow> string" where
  "snprintf_store n s = take (n - 1) s"

section \<open>Lists\<close>

lemma take_length_le: "length xs \<le> n \<Longrightarrow> take n xs = xs"
  by simp

lemma takeWhile_append_dropWhile_len:
  "drop (length (takeWhile P xs)) xs = dropWhile P xs"
  by (simp add: dropWhile_eq_drop)

lemma take_length_takeWhile [simp]: "take (length (takeWhile P xs)) xs = takeWhile P xs"
  by (metis takeWhile_dropWhile_id append_eq_conv_conj)

section \<open>Sequences of fallible operations\<close>

text \<open>One operation after the other on a state, up to the first that fails.\<close>

fun run_all :: "('i \<Rightarrow> 's \<Rightarrow> 's option) \<Rightarrow> 'i list \<Rightarrow> 's \<Rightarrow> 's option" where
  "run_all f [] s = Some s"
| "run_all f (x # xs) s = (case f x s of None \<Rightarrow> None | Some s1 \<Rightarrow> run_all f xs s1)"

section \<open>Arrays and the allocator\<close>

text \<open>
  An allocated array is the list of its cells. \<open>realloc\<close> keeps the cells that fit; those it adds are
  \<open>junk\<close>. \<open>avail n\<close> says whether the allocator serves a request of \<open>n\<close> cells at that moment, so a
  theorem that leaves \<open>avail\<close> open covers every pattern of allocation failures.
\<close>

definition realloc_array :: "(nat \<Rightarrow> bool) \<Rightarrow> 'a \<Rightarrow> 'a list \<Rightarrow> nat \<Rightarrow> 'a list option" where
  "realloc_array avail junk xs n =
     (if avail n then Some (take n xs @ replicate (n - length xs) junk) else None)"

text \<open>\<open>memmove (xs, xs + from, n)\<close> and \<open>memcpy (xs + pos, src, length src)\<close>.\<close>

definition memmove_front :: "nat \<Rightarrow> nat \<Rightarrow> 'a list \<Rightarrow> 'a list" where
  "memmove_front from n xs = take n (drop from xs) @ drop n xs"

definition memcpy_at :: "'a list \<Rightarrow> nat \<Rightarrow> 'a list \<Rightarrow> 'a list" where
  "memcpy_at xs pos src = take pos xs @ src @ drop (pos + length src) xs"

text \<open>\<open>SIZE_MAX\<close> where a \<open>size_t\<close> is modelled as a natural number.\<close>

abbreviation size_max :: nat where
  "size_max \<equiv> 2 ^ 64 - 1"

lemma realloc_arrayE:
  assumes "realloc_array avail junk xs n = Some ys"
  obtains "avail n" and "ys = take n xs @ replicate (n - length xs) junk" and "length ys = n"
  using assms by (auto simp: realloc_array_def split: if_splits)

lemma length_memmove_front [simp]:
  "from + n \<le> length xs \<Longrightarrow> length (memmove_front from n xs) = length xs"
  by (simp add: memmove_front_def)

lemma take_memmove_front [simp]:
  "from + n \<le> length xs \<Longrightarrow> take n (memmove_front from n xs) = take n (drop from xs)"
  by (simp add: memmove_front_def)

lemma length_memcpy_at [simp]:
  "pos + length src \<le> length xs \<Longrightarrow> length (memcpy_at xs pos src) = length xs"
  by (simp add: memcpy_at_def)

lemma take_memcpy_at [simp]:
  "pos + length src \<le> length xs \<Longrightarrow> take (pos + length src) (memcpy_at xs pos src) = take pos xs @ src"
  by (simp add: memcpy_at_def)

lemma take_less_memcpy_at [simp]:
  "n \<le> pos \<Longrightarrow> pos + length src \<le> length xs \<Longrightarrow> take n (memcpy_at xs pos src) = take n xs"
  by (simp add: memcpy_at_def)

end
