(* ===== verification/CheckedMath.thy ===== *)
theory CheckedMath
  imports Prelude
begin

text \<open>
  The overflow-checked arithmetic of \<open>src/src/lib/checked_math.h\<close>, on \<open>size_t\<close> and on
  \<open>uintmax_t\<close>, and the conversions to \<open>time_t\<close>. The interface that the rest of the program
  relies on, an addition and a multiplication that succeed exactly when the mathematical
  result fits, is the locale \<open>checked_arith\<close>; it is interpreted on both families.
\<close>

section \<open>The operations\<close>

definition bx_checked_size_add :: "size_t \<Rightarrow> size_t \<Rightarrow> size_t option" where
  "bx_checked_size_add left right =
     (if left > SIZE_MAX - right then None else Some (left + right))"

definition bx_checked_size_mul :: "size_t \<Rightarrow> size_t \<Rightarrow> size_t option" where
  "bx_checked_size_mul left right =
     (if left \<noteq> 0 \<and> right > SIZE_MAX div left then None else Some (left * right))"

definition bx_checked_size_round_up :: "size_t \<Rightarrow> size_t \<Rightarrow> size_t option" where
  "bx_checked_size_round_up value align =
     (if align = 0 then None
      else let remainder = value mod align in
        if remainder = 0 then Some value
        else bx_checked_size_add value (align - remainder))"

definition bx_checked_size_offset_add :: "size_t \<Rightarrow> size_t \<Rightarrow> size_t option" where
  "bx_checked_size_offset_add base offset = bx_checked_size_add base offset"

definition bx_checked_size_range_end :: "size_t \<Rightarrow> size_t \<Rightarrow> size_t option" where
  "bx_checked_size_range_end offset len = bx_checked_size_offset_add offset len"

definition bx_checked_size_range_within :: "size_t \<Rightarrow> size_t \<Rightarrow> size_t \<Rightarrow> size_t option" where
  "bx_checked_size_range_within total_len offset len =
     (case bx_checked_size_range_end offset len of
        None \<Rightarrow> None
      | Some end_pos \<Rightarrow> if end_pos > total_len then None else Some end_pos)"

definition bx_checked_uintmax_add :: "uintmax_t \<Rightarrow> uintmax_t \<Rightarrow> uintmax_t option" where
  "bx_checked_uintmax_add left right =
     (if left > UINTMAX_MAX - right then None else Some (left + right))"

definition bx_checked_uintmax_mul :: "uintmax_t \<Rightarrow> uintmax_t \<Rightarrow> uintmax_t option" where
  "bx_checked_uintmax_mul left right =
     (if left \<noteq> 0 \<and> right > UINTMAX_MAX div left then None else Some (left * right))"

definition bx_checked_uintmax_round_up :: "uintmax_t \<Rightarrow> uintmax_t \<Rightarrow> uintmax_t option" where
  "bx_checked_uintmax_round_up value align =
     (if align = 0 then None
      else let remainder = value mod align in
        if remainder = 0 then Some value
        else bx_checked_uintmax_add value (align - remainder))"

definition bx_checked_uintmax_blocks_to_bytes :: "uintmax_t \<Rightarrow> uintmax_t \<Rightarrow> uintmax_t option" where
  "bx_checked_uintmax_blocks_to_bytes blocks block_size =
     (if block_size = 0 then None else bx_checked_uintmax_mul blocks block_size)"

definition bx_checked_uintmax_bytes_to_blocks_ceil :: "uintmax_t \<Rightarrow> uintmax_t \<Rightarrow> uintmax_t option" where
  "bx_checked_uintmax_bytes_to_blocks_ceil bytes block_size =
     (if block_size = 0 then None
      else let blocks = bytes div block_size in
        if bytes mod block_size = 0 then Some blocks
        else bx_checked_uintmax_add blocks 1)"

text \<open>
  The target's \<open>time_t\<close> is a signed 64-bit integer, and \<open>CHAR_BIT\<close> is 8. A \<open>time_t\<close> or
  \<open>intmax_t\<close> value is held as the word of its bits and read with \<open>sint\<close>.
\<close>

definition bx_checked_time_t_is_signed :: bool where
  "bx_checked_time_t_is_signed \<longleftrightarrow> (- 1 :: 64 word) <s 0"

definition bx_checked_time_t_bits :: nat where
  "bx_checked_time_t_bits = 8 * 8"

definition bx_checked_uintmax_bits :: nat where
  "bx_checked_uintmax_bits = 8 * 8"

definition bx_checked_time_t_unsigned_max :: uintmax_t where
  "bx_checked_time_t_unsigned_max =
     (let bits = bx_checked_time_t_bits in
      if bits \<ge> bx_checked_uintmax_bits then UINTMAX_MAX
      else if bits = 0 then 0
      else push_bit bits 1 - 1)"

definition bx_checked_time_t_signed_positive_max :: uintmax_t where
  "bx_checked_time_t_signed_positive_max =
     (let bits = bx_checked_time_t_bits in
      if bits \<le> 1 then 0
      else let value_bits = bits - 1 in
        if value_bits \<ge> bx_checked_uintmax_bits then UINTMAX_MAX
        else push_bit value_bits 1 - 1)"

definition bx_checked_time_t_signed_negative_magnitude_max :: uintmax_t where
  "bx_checked_time_t_signed_negative_magnitude_max =
     (let bits = bx_checked_time_t_bits in
      if bits \<le> 1 then 0
      else let value_bits = bits - 1 in
        if value_bits \<ge> bx_checked_uintmax_bits then UINTMAX_MAX
        else push_bit value_bits 1)"

definition bx_checked_uintmax_to_time_t :: "uintmax_t \<Rightarrow> 64 word option" where
  "bx_checked_uintmax_to_time_t value =
     (let max_value = (if bx_checked_time_t_is_signed then bx_checked_time_t_signed_positive_max
                       else bx_checked_time_t_unsigned_max) in
      if value > max_value then None
      else let converted = value in
        if converted \<noteq> value then None else Some converted)"

definition bx_checked_intmax_to_time_t :: "64 word \<Rightarrow> 64 word option" where
  "bx_checked_intmax_to_time_t value =
     (if 0 \<le>s value then bx_checked_uintmax_to_time_t value
      else if \<not> bx_checked_time_t_is_signed then None
      else let magnitude = - (value + 1) + 1 in
        if magnitude > bx_checked_time_t_signed_negative_magnitude_max then None
        else let converted = value in
          if converted \<noteq> value then None else Some converted)"

section \<open>The contract of checked arithmetic\<close>

text \<open>
  What the clients of the header rely on: the sum or product, when and only when it is exact.
\<close>

locale checked_arith =
  fixes add :: "'a::len word \<Rightarrow> 'a word \<Rightarrow> 'a word option"
    and mul :: "'a word \<Rightarrow> 'a word \<Rightarrow> 'a word option"
  assumes add_exact: "add a b = Some c \<longleftrightarrow> unat c = unat a + unat b"
    and mul_exact: "mul a b = Some c \<longleftrightarrow> unat c = unat a * unat b"
begin

lemma add_overflow: "add a b = None \<longleftrightarrow> 2 ^ LENGTH('a) \<le> unat a + unat b"
proof
  assume none: "add a b = None"
  show "2 ^ LENGTH('a) \<le> unat a + unat b"
  proof (rule ccontr)
    assume "\<not> 2 ^ LENGTH('a) \<le> unat a + unat b"
    then have "unat (a + b) = unat a + unat b" by (simp add: unat_add_exact)
    with none show False using add_exact [of a b "a + b"] by simp
  qed
next
  assume big: "2 ^ LENGTH('a) \<le> unat a + unat b"
  show "add a b = None"
  proof (cases "add a b")
    case (Some c)
    with big show ?thesis using add_exact [of a b c] unat_lt2p [of c] by simp
  qed
qed

lemma mul_overflow: "mul a b = None \<longleftrightarrow> 2 ^ LENGTH('a) \<le> unat a * unat b"
proof
  assume none: "mul a b = None"
  show "2 ^ LENGTH('a) \<le> unat a * unat b"
  proof (rule ccontr)
    assume "\<not> 2 ^ LENGTH('a) \<le> unat a * unat b"
    then have "unat (a * b) = unat a * unat b" by (simp add: unat_mult_exact)
    with none show False using mul_exact [of a b "a * b"] by simp
  qed
next
  assume big: "2 ^ LENGTH('a) \<le> unat a * unat b"
  show "mul a b = None"
  proof (cases "mul a b")
    case (Some c)
    with big show ?thesis using mul_exact [of a b c] unat_lt2p [of c] by simp
  qed
qed

lemma add_total: "add a b = (if unat a + unat b < 2 ^ LENGTH('a) then Some (a + b) else None)"
  by (auto simp: add_exact unat_add_exact add_overflow)

lemma mul_total: "mul a b = (if unat a * unat b < 2 ^ LENGTH('a) then Some (a * b) else None)"
  by (auto simp: mul_exact unat_mult_exact mul_overflow)

text \<open>Adding what is missing to the next multiple gives the least multiple above.\<close>

lemma round_up_exact:
  assumes "align \<noteq> 0" and "v mod align \<noteq> 0"
  shows "add v (align - v mod align) = Some c \<longleftrightarrow> unat c = ceil_div (unat v) (unat align) * unat align"
proof -
  have pos: "0 < unat align" using assms(1) by (simp add: unat_gt_0)
  have rem: "unat (v mod align) = unat v mod unat align" by (simp add: unat_mod)
  have nz: "unat v mod unat align \<noteq> 0" using assms(2) by (simp add: unat_eq_iff rem)
  have lt: "unat v mod unat align < unat align" using pos by simp
  have le: "v mod align \<le> align" using lt by (simp add: word_le_nat_alt rem)
  have "unat v + (unat align - unat v mod unat align) = unat v div unat align * unat align + unat align"
    using lt div_mult_mod_eq [of "unat v" "unat align"] by linarith
  then have "unat v + unat (align - v mod align) = ceil_div (unat v) (unat align) * unat align"
    using nz pos by (simp add: ceil_div_alt unat_sub_exact [OF le] rem algebra_simps)
  then show ?thesis by (simp add: add_exact)
qed

lemma no_round_up:
  assumes "align \<noteq> 0" and "v mod align = 0"
  shows "ceil_div (unat v) (unat align) * unat align = unat v"
proof -
  have "unat v mod unat align = 0" using assms(2) by (simp add: unat_eq_iff unat_mod)
  moreover have "0 < unat align" using assms(1) by (simp add: unat_gt_0)
  ultimately show ?thesis using div_mult_mod_eq [of "unat v" "unat align"] by (simp add: ceil_div_alt)
qed

end

lemma checked_mul_guard:
  fixes a b :: "'a::len word"
  assumes "a \<noteq> 0"
  shows "b > - 1 div a \<longleftrightarrow> 2 ^ LENGTH('a) \<le> unat a * unat b"
proof -
  have pos: "0 < unat a" using assms by (simp add: unat_gt_0)
  have one: "(1::nat) \<le> 2 ^ LENGTH('a)" by simp
  have "b > - 1 div a \<longleftrightarrow> (2 ^ LENGTH('a) - 1) div unat a < unat b"
    by (simp add: word_less_nat_alt unat_div unat_minus_one_word)
  also have "\<dots> \<longleftrightarrow> 2 ^ LENGTH('a) - 1 < unat b * unat a"
    using pos by (simp add: div_less_iff_less_mult)
  also have "\<dots> \<longleftrightarrow> 2 ^ LENGTH('a) \<le> unat a * unat b"
    using one by (simp only: mult.commute [of "unat b"]) linarith
  finally show ?thesis .
qed

lemma guarded_add_exact:
  fixes a b c :: "'a::len word"
  shows "(if a > - 1 - b then None else Some (a + b)) = Some c \<longleftrightarrow> unat c = unat a + unat b"
proof (cases "2 ^ LENGTH('a) \<le> unat a + unat b")
  case True
  then have "unat c \<noteq> unat a + unat b" using unat_lt2p [of c] by linarith
  with True show ?thesis by (simp add: checked_add_guard)
next
  case False
  then show ?thesis by (auto simp: checked_add_guard unat_eq_iff unat_add_exact)
qed

lemma guarded_mul_exact:
  fixes a b c :: "'a::len word"
  shows "(if a \<noteq> 0 \<and> b > - 1 div a then None else Some (a * b)) = Some c
     \<longleftrightarrow> unat c = unat a * unat b"
proof (cases "2 ^ LENGTH('a) \<le> unat a * unat b")
  case True
  then have "unat c \<noteq> unat a * unat b" using unat_lt2p [of c] by linarith
  moreover have "a \<noteq> 0" using True by auto
  ultimately show ?thesis using True by (simp add: checked_mul_guard)
next
  case False
  then have "\<not> (a \<noteq> 0 \<and> b > - 1 div a)" by (auto simp: checked_mul_guard)
  then show ?thesis using False by (auto simp: unat_eq_iff unat_mult_exact)
qed

interpretation size_arith: checked_arith bx_checked_size_add bx_checked_size_mul
  by unfold_locales
    (simp_all add: bx_checked_size_add_def bx_checked_size_mul_def
      guarded_add_exact guarded_mul_exact del: word_gt_0)

interpretation uintmax_arith: checked_arith bx_checked_uintmax_add bx_checked_uintmax_mul
  by unfold_locales
    (simp_all add: bx_checked_uintmax_add_def bx_checked_uintmax_mul_def
      guarded_add_exact guarded_mul_exact del: word_gt_0)

section \<open>What the operations compute\<close>

lemma size_round_up_iff:
  "bx_checked_size_round_up value align = Some c \<longleftrightarrow>
     align \<noteq> 0 \<and> unat c = ceil_div (unat value) (unat align) * unat align"
proof (cases "align \<noteq> 0 \<and> value mod align \<noteq> 0")
  case True
  then show ?thesis
    by (simp add: bx_checked_size_round_up_def Let_def size_arith.round_up_exact)
next
  case False
  then show ?thesis
    by (auto simp: bx_checked_size_round_up_def Let_def size_arith.no_round_up unat_eq_iff)
qed

text \<open>
  Rounding up to a block boundary returns exactly the least multiple of the alignment that
  is not below the value, and fails exactly when the alignment is 0 or that multiple does not
  fit in the machine integer.
\<close>

lemma checked_uintmax_round_up_exact:
  "bx_checked_uintmax_round_up value align = Some c \<longleftrightarrow>
     align \<noteq> 0 \<and> unat c = ceil_div (unat value) (unat align) * unat align"
proof (cases "align \<noteq> 0 \<and> value mod align \<noteq> 0")
  case True
  then show ?thesis
    by (simp add: bx_checked_uintmax_round_up_def Let_def uintmax_arith.round_up_exact)
next
  case False
  then show ?thesis
    by (auto simp: bx_checked_uintmax_round_up_def Let_def uintmax_arith.no_round_up unat_eq_iff)
qed

lemma uintmax_blocks_to_bytes_exact:
  "bx_checked_uintmax_blocks_to_bytes blocks bs = Some c \<longleftrightarrow> bs \<noteq> 0 \<and> unat c = unat blocks * unat bs"
  by (simp add: bx_checked_uintmax_blocks_to_bytes_def uintmax_arith.mul_exact)

text \<open>The increment of the rounded quotient cannot overflow: a remainder needs a divisor above 1.\<close>

lemma uintmax_bytes_to_blocks_total:
  "bx_checked_uintmax_bytes_to_blocks_ceil bytes bs =
     (if bs = 0 then None else Some (of_nat (ceil_div (unat bytes) (unat bs))))"
proof (cases "bs = 0")
  case True
  then show ?thesis by (simp add: bx_checked_uintmax_bytes_to_blocks_ceil_def)
next
  case False
  let ?q = "unat bytes div unat bs"
  have pos: "0 < unat bs" using False by (simp add: unat_gt_0)
  have q: "unat (bytes div bs) = ?q" by (simp add: unat_div)
  have r: "bytes mod bs = 0 \<longleftrightarrow> unat bytes mod unat bs = 0"
    by (simp add: unat_eq_iff unat_mod)
  have fits: "?q + 1 < 2 ^ 64" if "unat bytes mod unat bs \<noteq> 0"
  proof -
    have "unat bs \<noteq> 1" using that by auto
    then have "2 \<le> unat bs" using pos by simp
    then have "?q \<le> unat bytes div 2" by (simp add: div_le_mono2)
    then show ?thesis using unat_lt2p [of bytes] by simp
  qed
  have word: "of_nat (?q + k) = bytes div bs + of_nat k" for k
    by (simp flip: q)
  show ?thesis
  proof (cases "bytes mod bs = 0")
    case True
    then show ?thesis
      using False r word [of 0] pos
      by (simp add: bx_checked_uintmax_bytes_to_blocks_ceil_def ceil_div_alt)
  next
    case nz: False
    then have "bx_checked_uintmax_add (bytes div bs) 1 = Some (bytes div bs + 1)"
      using fits r by (simp add: uintmax_arith.add_total q)
    then show ?thesis
      using False nz r word [of 1] pos
      by (simp add: bx_checked_uintmax_bytes_to_blocks_ceil_def ceil_div_alt)
  qed
qed

lemma size_range_within_exact:
  "bx_checked_size_range_within n off len = Some e \<longleftrightarrow>
     unat e = unat off + unat len \<and> unat off + unat len \<le> unat n"
proof (cases "bx_checked_size_add off len")
  case None
  then show ?thesis
    using unat_lt2p [of e] size_arith.add_overflow [of off len]
    by (auto simp: bx_checked_size_range_within_def bx_checked_size_range_end_def
        bx_checked_size_offset_add_def)
next
  case (Some f)
  then have "unat f = unat off + unat len" by (simp add: size_arith.add_exact)
  with Some show ?thesis
    by (auto simp: bx_checked_size_range_within_def bx_checked_size_range_end_def
        bx_checked_size_offset_add_def word_less_nat_alt unat_eq_iff)
qed

section \<open>Conversions to time_t\<close>

lemma time_t_limits:
  "bx_checked_time_t_is_signed"
  "unat bx_checked_time_t_signed_positive_max = 2 ^ 63 - 1"
  "unat bx_checked_time_t_signed_negative_magnitude_max = 2 ^ 63"
  by (simp_all add: bx_checked_time_t_is_signed_def bx_checked_time_t_signed_positive_max_def
      bx_checked_time_t_signed_negative_magnitude_max_def bx_checked_time_t_bits_def
      bx_checked_uintmax_bits_def word_sless_alt Let_def)

text \<open>A value that is stored converts to itself; one above the signed range is refused.\<close>

lemma uintmax_to_time_t_exact:
  "bx_checked_uintmax_to_time_t value = (if unat value < 2 ^ 63 then Some value else None)"
  using time_t_limits
  by (auto simp: bx_checked_uintmax_to_time_t_def Let_def word_less_nat_alt)

lemma sint_nonneg_unat: "0 \<le>s (w :: 64 word) \<longleftrightarrow> unat w < 2 ^ 63"
proof -
  have "0 \<le>s w \<longleftrightarrow> \<not> bit w 63" 
    using bit_last_iff [of w] by (simp add: word_sle_eq not_less)
  also have "\<dots> \<longleftrightarrow> unat w div 2 ^ 63 = 0"
  proof -
    have "unat w div 2 ^ 63 < 2" using unat_lt2p [of w] by (simp add: div_less_iff_less_mult)
    then have "odd (unat w div 2 ^ 63) \<longleftrightarrow> unat w div 2 ^ 63 \<noteq> 0"
      by (cases "unat w div 2 ^ 63 = 0") (auto simp: less_2_cases_iff)
    moreover have "bit w 63 \<longleftrightarrow> odd (unat w div 2 ^ 63)"
      using bit_unsigned_iff [where ?'a = nat, of w 63] by (simp add: bit_iff_odd [of "unat w"])
    ultimately show ?thesis by simp
  qed
  finally show ?thesis by (simp add: div_eq_0_iff)
qed

lemma intmax_to_time_t_total: "bx_checked_intmax_to_time_t value = Some value"
proof (cases "0 \<le>s value")
  case True
  then show ?thesis
    by (simp add: bx_checked_intmax_to_time_t_def uintmax_to_time_t_exact sint_nonneg_unat)
next
  case False
  then have big: "2 ^ 63 \<le> unat value" by (simp add: sint_nonneg_unat)
  have "unat (- (value + 1) + 1) = unat (- value)" by simp
  also have "\<dots> = 2 ^ 64 - unat value"
    using big unat_sub_if' [of 0 "value"] by (simp add: word_size)
  also have "\<dots> \<le> 2 ^ 63" using big by simp
  finally have "\<not> - (value + 1) + 1 > bx_checked_time_t_signed_negative_magnitude_max"
    using time_t_limits(3) by (simp add: word_less_nat_alt)
  with False show ?thesis
    using time_t_limits(1) by (simp add: bx_checked_intmax_to_time_t_def Let_def)
qed

end
