(* ===== verification/SizeParse.thy ===== *)
theory SizeParse
  imports CheckedMath
begin

text \<open>
  The integer half of \<open>src/src/lib/size_parse.c\<close>: decimal and suffixed size operands, the
  suffix table, \<open>dd\<close>'s \<open>x\<close>-separated products, and the human-readable size formatter used by
  \<open>ls\<close> and \<open>du\<close>. The functions on \<open>double\<close> are not modelled. A text argument is a \<open>cstr\<close>,
  which is \<open>None\<close> for \<open>NULL\<close>.
\<close>

section \<open>Decimal operands\<close>

text \<open>\<open>ch - '0'\<close>, the digit that is accumulated.\<close>

definition digit_word :: "char \<Rightarrow> uintmax_t" where
  "digit_word ch = of_char ch - of_char CHR ''0''"

fun size_parse_uint_loop :: "uintmax_t \<Rightarrow> string \<Rightarrow> uintmax_t option" where
  "size_parse_uint_loop value_acc [] = Some value_acc"
| "size_parse_uint_loop value_acc (ch # rest) =
     (if ch < CHR ''0'' \<or> ch > CHR ''9'' then None
      else let digit = digit_word ch in
        if value_acc > (UINTMAX_MAX - digit) div 10 then None
        else size_parse_uint_loop (value_acc * 10 + digit) rest)"

definition bx_size_parse_uint :: "cstr \<Rightarrow> uintmax_t option" where
  "bx_size_parse_uint text =
     (case text of
        None \<Rightarrow> None
      | Some s \<Rightarrow> if s = [] then None else size_parse_uint_loop 0 s)"

text \<open>
  The sign handling shared by the two signed parsers, with the magnitude parser they differ in.
  The result is the \<open>intmax_t\<close> as its 64 bits; \<open>INTMAX_MIN\<close> is \<open>push_bit 63 1\<close>.
\<close>

definition size_split_sign :: "string \<Rightarrow> bool \<times> string" where
  "size_split_sign s =
     (case s of
        [] \<Rightarrow> (False, s)
      | c # rest \<Rightarrow> if c = CHR ''-'' then (True, rest)
                    else if c = CHR ''+'' then (False, rest) else (False, s))"

definition size_apply_sign :: "bool \<Rightarrow> uintmax_t \<Rightarrow> 64 word option" where
  "size_apply_sign negative parsed =
     (let intmax_max = push_bit 63 1 - 1; negative_limit = intmax_max + 1 in
      if negative then
        if parsed > negative_limit then None
        else if parsed = negative_limit then Some (push_bit 63 1)
        else Some (- parsed)
      else if parsed > intmax_max then None
      else Some parsed)"

definition bx_size_parse_signed_count :: "cstr \<Rightarrow> 64 word option" where
  "bx_size_parse_signed_count text =
     (case text of
        None \<Rightarrow> None
      | Some s \<Rightarrow>
          if s = [] then None
          else case size_split_sign s of (negative, magnitude) \<Rightarrow>
            if magnitude = [] then None
            else case bx_size_parse_uint (Some magnitude) of
                None \<Rightarrow> None
              | Some parsed \<Rightarrow> size_apply_sign negative parsed)"

section \<open>Powers and suffixes\<close>

datatype bx_size_suffix_parse_result =
    BX_SIZE_SUFFIX_PARSE_OK uintmax_t
  | BX_SIZE_SUFFIX_PARSE_INVALID
  | BX_SIZE_SUFFIX_PARSE_TOO_LARGE

fun size_pow_loop :: "nat \<Rightarrow> uintmax_t \<Rightarrow> uintmax_t \<Rightarrow> uintmax_t option" where
  "size_pow_loop 0 base value_acc = Some value_acc"
| "size_pow_loop (Suc n) base value_acc =
     (case bx_checked_uintmax_mul value_acc base of
        None \<Rightarrow> None
      | Some next_value \<Rightarrow> size_pow_loop n base next_value)"

definition bx_size_pow_result :: "uintmax_t \<Rightarrow> nat \<Rightarrow> bx_size_suffix_parse_result" where
  "bx_size_pow_result base power_n =
     (case size_pow_loop power_n base 1 of
        None \<Rightarrow> BX_SIZE_SUFFIX_PARSE_TOO_LARGE
      | Some v \<Rightarrow> BX_SIZE_SUFFIX_PARSE_OK v)"

definition bx_size_divide_by_power_floor :: "uintmax_t \<Rightarrow> uintmax_t \<Rightarrow> nat \<Rightarrow> uintmax_t option" where
  "bx_size_divide_by_power_floor v base power_n =
     (if base < 2 then None
      else case bx_size_pow_result base power_n of
          BX_SIZE_SUFFIX_PARSE_OK divisor \<Rightarrow> if divisor = 0 then None else Some (v div divisor)
        | _ \<Rightarrow> None)"

definition bx_size_multiply_by_power_uint :: "uintmax_t \<Rightarrow> uintmax_t \<Rightarrow> nat \<Rightarrow> uintmax_t option" where
  "bx_size_multiply_by_power_uint v base power_n =
     (if base < 2 then None
      else case bx_size_pow_result base power_n of
          BX_SIZE_SUFFIX_PARSE_OK multiplier \<Rightarrow> bx_checked_uintmax_mul v multiplier
        | _ \<Rightarrow> None)"

text \<open>\<open>strchr\<close> over the prefix letters, as the index of the first hit.\<close>

fun index_of :: "char \<Rightarrow> string \<Rightarrow> nat option" where
  "index_of c [] = None"
| "index_of c (d # ds) = (if d = c then Some 0 else map_option Suc (index_of c ds))"

text \<open>\<open>None\<close> as the argument stands for the NUL byte that ends the text.\<close>

definition bx_size_suffix_prefix_power :: "char option \<Rightarrow> nat option" where
  "bx_size_suffix_prefix_power suffix =
     (if suffix = Some CHR ''k'' \<or> suffix = Some CHR ''K'' then Some 1
      else case suffix of
          None \<Rightarrow> None
        | Some c \<Rightarrow> map_option (\<lambda>i. i + 2) (index_of c ''MGTPEZYRQ''))"

datatype bx_size_unit_label_style =
    BX_SIZE_UNIT_LABEL_SI_LOWER_K
  | BX_SIZE_UNIT_LABEL_SI_UPPER_K
  | BX_SIZE_UNIT_LABEL_IEC_PREFIX
  | BX_SIZE_UNIT_LABEL_IEC_I_SUFFIX

definition si_units :: "string list" where
  "si_units = ['''', ''k'', ''M'', ''G'', ''T'', ''P'', ''E'', ''Z'', ''Y'', ''R'', ''Q'']"

definition iec_units :: "string list" where
  "iec_units = ['''', ''K'', ''M'', ''G'', ''T'', ''P'', ''E'', ''Z'', ''Y'', ''R'', ''Q'']"

definition iec_i_units :: "string list" where
  "iec_i_units = ['''', ''Ki'', ''Mi'', ''Gi'', ''Ti'', ''Pi'', ''Ei'', ''Zi'', ''Yi'', ''Ri'', ''Qi'']"

definition bx_size_unit_label :: "bx_size_unit_label_style \<Rightarrow> nat \<Rightarrow> string option" where
  "bx_size_unit_label style power_n =
     (if power_n \<ge> length si_units then None
      else case style of
          BX_SIZE_UNIT_LABEL_SI_LOWER_K \<Rightarrow> Some (si_units ! power_n)
        | BX_SIZE_UNIT_LABEL_SI_UPPER_K \<Rightarrow> Some (iec_units ! power_n)
        | BX_SIZE_UNIT_LABEL_IEC_PREFIX \<Rightarrow> Some (iec_units ! power_n)
        | BX_SIZE_UNIT_LABEL_IEC_I_SUFFIX \<Rightarrow> Some (iec_i_units ! power_n))"

definition bx_size_unit_label_base_uintmax :: "bx_size_unit_label_style \<Rightarrow> uintmax_t" where
  "bx_size_unit_label_base_uintmax style =
     (case style of
        BX_SIZE_UNIT_LABEL_SI_LOWER_K \<Rightarrow> 1000
      | BX_SIZE_UNIT_LABEL_SI_UPPER_K \<Rightarrow> 1000
      | BX_SIZE_UNIT_LABEL_IEC_PREFIX \<Rightarrow> 1024
      | BX_SIZE_UNIT_LABEL_IEC_I_SUFFIX \<Rightarrow> 1024)"

definition bx_size_suffix_multiplier_result :: "cstr \<Rightarrow> bx_size_suffix_parse_result" where
  "bx_size_suffix_multiplier_result suffix =
     (case suffix of
        None \<Rightarrow> BX_SIZE_SUFFIX_PARSE_INVALID
      | Some s0 \<Rightarrow>
         (let s = (case s0 of [] \<Rightarrow> s0 | c # rest \<Rightarrow> if c = CHR ''x'' then rest else s0) in
          if s = [] \<or> s = ''c'' \<or> s = ''B'' then BX_SIZE_SUFFIX_PARSE_OK 1
          else if s = ''w'' then BX_SIZE_SUFFIX_PARSE_OK 2
          else if s = ''b'' then BX_SIZE_SUFFIX_PARSE_OK 512
          else case bx_size_suffix_prefix_power (Some (hd s)) of
              None \<Rightarrow> BX_SIZE_SUFFIX_PARSE_INVALID
            | Some power_n \<Rightarrow>
                if tl s = [] then bx_size_pow_result 1024 power_n
                else if tl s = ''B'' then bx_size_pow_result 1000 power_n
                else if tl s = ''iB'' then bx_size_pow_result 1024 power_n
                else BX_SIZE_SUFFIX_PARSE_INVALID))"

definition bx_size_suffix_multiplier :: "cstr \<Rightarrow> uintmax_t option" where
  "bx_size_suffix_multiplier suffix =
     (case bx_size_suffix_multiplier_result suffix of
        BX_SIZE_SUFFIX_PARSE_OK m \<Rightarrow> Some m
      | _ \<Rightarrow> None)"

section \<open>Suffixed operands\<close>

text \<open>The \<open>len\<close> bytes at \<open>text\<close> are the list \<open>s\<close>; the two local buffers hold 64 and 5 bytes.\<close>

definition bx_size_parse_scaled_uint_len :: "string \<Rightarrow> uintmax_t option" where
  "bx_size_parse_scaled_uint_len s =
     (if s = [] then None
      else let pos = length (takeWhile is_digit s) in
        if pos = 0 then None
        else if pos \<ge> 64 then None
        else let digits = take pos s; suffix_len = length s - pos in
          if suffix_len \<ge> 5 then None
          else let suffix = drop pos s in
            case bx_size_parse_uint (Some digits) of
              None \<Rightarrow> None
            | Some v \<Rightarrow>
               (case bx_size_suffix_multiplier (Some suffix) of
                  None \<Rightarrow> None
                | Some multiplier \<Rightarrow> bx_checked_uintmax_mul v multiplier))"

definition bx_size_parse_scaled_uint :: "cstr \<Rightarrow> uintmax_t option" where
  "bx_size_parse_scaled_uint text =
     (case text of None \<Rightarrow> None | Some s \<Rightarrow> bx_size_parse_scaled_uint_len s)"

definition bx_size_parse_scaled_count :: "cstr \<Rightarrow> 64 word option" where
  "bx_size_parse_scaled_count text =
     (case text of
        None \<Rightarrow> None
      | Some s \<Rightarrow>
          if s = [] then None
          else case size_split_sign s of (negative, magnitude) \<Rightarrow>
            if magnitude = [] then None
            else case bx_size_parse_scaled_uint (Some magnitude) of
                None \<Rightarrow> None
              | Some scaled \<Rightarrow> size_apply_sign negative scaled)"

definition bx_size_parse_block_size :: "cstr \<Rightarrow> uintmax_t option" where
  "bx_size_parse_block_size text =
     (case text of
        None \<Rightarrow> None
      | Some s \<Rightarrow>
          if s = [] then None
          else case bx_size_parse_scaled_uint (Some s) of
              None \<Rightarrow> None
            | Some v \<Rightarrow> if v = 0 then None else Some v)"

definition bx_size_parse_factor :: "string \<Rightarrow> uintmax_t option" where
  "bx_size_parse_factor s = bx_size_parse_scaled_uint_len s"

definition bx_dd_parse_u64 :: "cstr \<Rightarrow> uintmax_t option" where
  "bx_dd_parse_u64 text =
     (case text of
        None \<Rightarrow> None
      | Some s \<Rightarrow> if s = [] then None else if hd s = CHR ''-'' then None else bx_size_parse_factor s)"

text \<open>
  The loop of \<open>bx_dd_parse_size\<close>: \<open>fac\<close> is the text from \<open>factor_start\<close> to \<open>p\<close>, the last
  argument the text at \<open>p\<close>. A separator is an \<open>x\<close> that a digit follows.
\<close>

fun dd_parse_size_loop :: "uintmax_t \<Rightarrow> string \<Rightarrow> string \<Rightarrow> uintmax_t option" where
  "dd_parse_size_loop acc fac [] =
     (case bx_size_parse_factor fac of
        None \<Rightarrow> None
      | Some factor \<Rightarrow> bx_checked_uintmax_mul acc factor)"
| "dd_parse_size_loop acc fac (c # rest) =
     (if c = CHR ''x'' \<and> rest \<noteq> [] \<and> is_digit (hd rest) then
        case bx_size_parse_factor fac of
          None \<Rightarrow> None
        | Some factor \<Rightarrow>
           (case bx_checked_uintmax_mul acc factor of
              None \<Rightarrow> None
            | Some acc' \<Rightarrow> dd_parse_size_loop acc' [] rest)
      else dd_parse_size_loop acc (fac @ [c]) rest)"

definition bx_dd_parse_size :: "cstr \<Rightarrow> uintmax_t option" where
  "bx_dd_parse_size text =
     (case text of
        None \<Rightarrow> None
      | Some s \<Rightarrow>
          if s = [] then None else if hd s = CHR ''-'' then None else dd_parse_size_loop 1 [] s)"

section \<open>Human-readable sizes\<close>

definition bx_size_saturating_mul :: "uintmax_t \<Rightarrow> uintmax_t \<Rightarrow> uintmax_t" where
  "bx_size_saturating_mul lhs rhs =
     (if lhs \<noteq> 0 \<and> rhs > UINTMAX_MAX div lhs then UINTMAX_MAX else lhs * rhs)"

definition bx_size_ceil_div :: "uintmax_t \<Rightarrow> uintmax_t \<Rightarrow> uintmax_t" where
  "bx_size_ceil_div v divisor =
     (if divisor = 0 then v else v div divisor + (if v mod divisor \<noteq> 0 then 1 else 0))"

definition bx_size_block_count_ceil :: "uintmax_t \<Rightarrow> uintmax_t \<Rightarrow> uintmax_t option" where
  "bx_size_block_count_ceil bytes block_size = bx_checked_uintmax_bytes_to_blocks_ceil bytes block_size"

text \<open>
  The search for the unit: \<open>left\<close> counts the suffixes not yet tried. The result is the unit and
  how many suffixes were passed.
\<close>

fun human_unit_loop :: "uintmax_t \<Rightarrow> uintmax_t \<Rightarrow> nat \<Rightarrow> uintmax_t \<Rightarrow> nat \<Rightarrow> uintmax_t \<times> nat" where
  "human_unit_loop v base 0 unit_size idx = (unit_size, idx)"
| "human_unit_loop v base (Suc left) unit_size idx =
     (if unit_size > UINTMAX_MAX div base then (unit_size, idx)
      else let next_unit = unit_size * base in
        if v < next_unit then (unit_size, idx)
        else human_unit_loop v base left next_unit (Suc idx))"

definition dec_of_word :: "uintmax_t \<Rightarrow> string" where
  "dec_of_word w = dec_of_nat (unat w)"

text \<open>The text handed to \<open>snprintf\<close>, before it is cut to the buffer.\<close>

definition human_ceil_text :: "uintmax_t \<Rightarrow> uintmax_t \<Rightarrow> string \<Rightarrow> string" where
  "human_ceil_text v base suffixes =
     (if base < 2 \<or> suffixes = [] \<or> v < base then dec_of_word v
      else case human_unit_loop v base (length suffixes) 1 0 of (unit_size, idx) \<Rightarrow>
        if idx = 0 then dec_of_word v
        else let tenths = bx_size_ceil_div (bx_size_saturating_mul v 10) unit_size in
          if tenths < 100 then
            dec_of_word (tenths div 10) @ ''.'' @ dec_of_word (tenths mod 10) @ [suffixes ! (idx - 1)]
          else dec_of_word (bx_size_ceil_div v unit_size) @ [suffixes ! (idx - 1)])"

text \<open>The text left in a buffer of the given size; \<open>None\<close> when nothing is written.\<close>

definition bx_size_format_human_ceil ::
  "uintmax_t \<Rightarrow> uintmax_t \<Rightarrow> cstr \<Rightarrow> nat \<Rightarrow> string option" where
  "bx_size_format_human_ceil v base suffixes buffer_size =
     (if buffer_size = 0 then None
      else Some (snprintf_store buffer_size
        (human_ceil_text v base (case suffixes of None \<Rightarrow> [] | Some s \<Rightarrow> s))))"

section \<open>Correctness of the decimal parsers\<close>

lemma unat_digit_word:
  assumes "is_digit c"
  shows "unat (digit_word c) = digit_value c"
proof -
  have c: "unat (of_char c :: 64 word) = of_char c"
  proof -
    have "(of_char c :: 64 word) = of_nat (of_char c)" by (simp add: of_char_def)
    moreover have "(of_char c :: nat) < 2 ^ 64" using assms by (simp add: is_digit_code)
    ultimately show ?thesis by simp
  qed
  have "(of_char CHR ''0'' :: 64 word) \<le> of_char c"
    using assms by (simp add: word_le_nat_alt c is_digit_code)
  then show ?thesis by (simp add: digit_word_def unat_sub_exact c digit_value_def)
qed

lemma digit_guard:
  assumes "is_digit c"
  shows "v > (UINTMAX_MAX - digit_word c) div 10 \<longleftrightarrow> 2 ^ 64 \<le> unat v * 10 + digit_value c"
proof -
  have "v > (UINTMAX_MAX - digit_word c) div 10 \<longleftrightarrow> (2 ^ 64 - 1 - digit_value c) div 10 < unat v"
    using unat_digit_word [OF assms]
    by (simp only: word_less_nat_alt unat_div unat_max_minus) simp
  also have "\<dots> \<longleftrightarrow> 2 ^ 64 - 1 - digit_value c < unat v * 10"
    by (simp add: div_less_iff_less_mult)
  also have "\<dots> \<longleftrightarrow> 2 ^ 64 \<le> unat v * 10 + digit_value c"
    using digit_value_bound [OF assms] by auto
  finally show ?thesis .
qed

lemma digit_step:
  fixes v :: uintmax_t
  assumes "is_digit c" and "unat v * 10 + digit_value c < 2 ^ 64"
  shows "unat (v * 10 + digit_word c) = unat v * 10 + digit_value c"
proof -
  have "unat (v * 10) = unat v * 10"
    using assms(2) unat_mult_exact [of v "10 :: 64 word"] by simp
  with assms show ?thesis by (simp add: unat_add_exact unat_digit_word)
qed

lemma size_parse_uint_loop_exact:
  "size_parse_uint_loop a s = Some v \<longleftrightarrow>
     list_all is_digit s \<and> unat v = unat a * 10 ^ length s + dec_value s"
proof (induction s arbitrary: a)
  case Nil
  then show ?case by (auto simp: unat_eq_iff)
next
  case (Cons c s)
  show ?case
  proof (cases "is_digit c")
    case False
    then show ?thesis by (auto simp: is_digit_def not_le)
  next
    case d: True
    then have guard: "\<not> (c < CHR ''0'' \<or> c > CHR ''9'')" by (simp add: is_digit_def not_less)
    let ?n = "unat a * 10 + digit_value c"
    have val: "?n * 10 ^ length s + dec_value s = unat a * 10 ^ length (c # s) + dec_value (c # s)"
      by (simp add: dec_value_Cons algebra_simps)
    show ?thesis
    proof (cases "2 ^ 64 \<le> ?n")
      case True
      have "2 ^ 64 * 1 \<le> ?n * 10 ^ length s" using True by (intro mult_le_mono) simp_all
      then have "unat v \<noteq> ?n * 10 ^ length s + dec_value s" using unat_lt2p [of v] by simp
      with True d show ?thesis
        by (simp add: guard Let_def digit_guard val del: not_less)
    next
      case False
      then have small: "?n < 2 ^ 64" by simp
      show ?thesis
        using False d
        by (simp add: guard Let_def digit_guard Cons.IH digit_step [OF d small] val
            del: not_less not_le)
    qed
  qed
qed

lemma parse_uint_iff:
  "bx_size_parse_uint (Some s) = Some v \<longleftrightarrow>
     s \<noteq> [] \<and> list_all is_digit s \<and> unat v = dec_value s"
  by (simp add: bx_size_parse_uint_def size_parse_uint_loop_exact)

lemma size_pow_loop_exact:
  "size_pow_loop n b a = Some v \<longleftrightarrow> unat v = unat a * unat b ^ n"
proof (induction n arbitrary: a)
  case 0
  then show ?case by (auto simp: unat_eq_iff)
next
  case (Suc n)
  show ?case
  proof (cases "bx_checked_uintmax_mul a b")
    case None
    then have big: "2 ^ 64 \<le> unat a * unat b" by (simp add: uintmax_arith.mul_overflow)
    then have "unat b \<noteq> 0" by (intro notI) simp
    then have "2 ^ 64 * 1 \<le> (unat a * unat b) * unat b ^ n" using big by (intro mult_le_mono) simp_all
    then have "unat v \<noteq> unat a * unat b ^ Suc n"
      using unat_lt2p [of v] by (simp add: mult.assoc)
    with None show ?thesis by simp
  next
    case (Some c)
    then have "unat c = unat a * unat b" by (simp add: uintmax_arith.mul_exact)
    with Some show ?thesis by (simp add: Suc.IH mult.assoc)
  qed
qed

lemma bx_size_pow_result_exact:
  "bx_size_pow_result b n = BX_SIZE_SUFFIX_PARSE_OK v \<longleftrightarrow> unat v = unat b ^ n"
proof -
  have "bx_size_pow_result b n = BX_SIZE_SUFFIX_PARSE_OK v \<longleftrightarrow> size_pow_loop n b 1 = Some v"
    by (auto simp: bx_size_pow_result_def split: option.splits)
  then show ?thesis by (simp add: size_pow_loop_exact)
qed

lemma size_apply_sign_cases:
  "size_apply_sign True p = (if uint p \<le> 2 ^ 63 then Some (- p) else None)"
  "size_apply_sign False p = (if uint p < 2 ^ 63 then Some p else None)"
  by (auto simp: size_apply_sign_def Let_def word_less_def word_uint_eq_iff uint_neg_64)

lemma size_apply_sign_exact:
  "size_apply_sign neg p = Some w \<longleftrightarrow> sint w = (if neg then - uint p else uint p)"
proof (cases neg)
  case True
  show ?thesis
  proof (cases "uint p \<le> 2 ^ 63")
    case le: True
    then show ?thesis
      using True sint_neg_64 [OF le] sint_eq_iff [of w "- p"]
      by (auto simp: size_apply_sign_cases)
  next
    case gt: False
    then have "sint w \<noteq> - uint p" using sint_ge [of w] by simp
    with gt True show ?thesis by (simp add: size_apply_sign_cases)
  qed
next
  case False
  show ?thesis
  proof (cases "uint p < 2 ^ 63")
    case lt: True
    then have "sint p = uint p" by (simp add: sint_uint_64)
    with lt False show ?thesis
      by (auto simp: size_apply_sign_cases sint_eq_iff [of p w])
  next
    case ge: False
    then have "sint w \<noteq> uint p" using sint_lt [of w] by simp
    with ge False show ?thesis by (simp add: size_apply_sign_cases)
  qed
qed

text \<open>
  \<open>bx_size_parse_uint\<close> accepts exactly the non-empty texts of decimal digits whose value fits
  in \<open>uintmax_t\<close>, and returns that value; everything else, including one unit past the limit,
  is refused.
\<close>

lemma size_parse_uint_exact:
  "bx_size_parse_uint text = Some v \<longleftrightarrow>
     (\<exists>s. text = Some s \<and> s \<noteq> [] \<and> list_all is_digit s \<and> unat v = dec_value s)"
  by (cases "text") (simp_all add: parse_uint_iff bx_size_parse_uint_def [of None])

text \<open>Parsing the decimal text of a \<open>uintmax_t\<close> gives the value back.\<close>

lemma size_parse_uint_roundtrip: "bx_size_parse_uint (Some (dec_of_word w)) = Some w"
  by (simp add: parse_uint_iff dec_of_word_def dec_of_nat_digits)

text \<open>
  A signed count is accepted exactly when, after one optional sign, its decimal magnitude is
  well formed and the signed value lies in the \<open>intmax_t\<close> range; the result is that value
  (\<open>INTMAX_MIN\<close>, whose magnitude has no positive counterpart, included).
\<close>

lemma size_parse_signed_count_exact:
  "bx_size_parse_signed_count (Some s) = Some w \<longleftrightarrow>
     (case size_split_sign s of (neg, m) \<Rightarrow>
        m \<noteq> [] \<and> list_all is_digit m \<and>
        sint w = (if neg then - int (dec_value m) else int (dec_value m)))"
proof (cases "s = []")
  case True
  then show ?thesis by (simp add: bx_size_parse_signed_count_def size_split_sign_def)
next
  case nonempty: False
  obtain neg m where sm: "size_split_sign s = (neg, m)" by fastforce
  show ?thesis
  proof (cases "bx_size_parse_uint (Some m)")
    case (Some p)
    then have p: "m \<noteq> []" "list_all is_digit m" "unat p = dec_value m"
      by (simp_all add: parse_uint_iff)
    then have "uint p = int (dec_value m)" by (simp add: uint_nat del: of_nat_unat)
    with Some p nonempty sm show ?thesis
      by (simp add: bx_size_parse_signed_count_def size_apply_sign_exact)
  next
    case None
    have "sint w \<noteq> (if neg then - int (dec_value m) else int (dec_value m))"
      if "m \<noteq> []" and "list_all is_digit m"
    proof -
      have "2 ^ 64 \<le> dec_value m"
      proof (rule ccontr)
        assume "\<not> 2 ^ 64 \<le> dec_value m"
        then have "unat (of_nat (dec_value m) :: 64 word) = dec_value m" by simp
        with that None parse_uint_iff [of m "of_nat (dec_value m)"] show False by simp
      qed
      then have big: "2 ^ 64 \<le> int (dec_value m)" by simp
      then show ?thesis using sint_lt [of w] sint_ge [of w] by simp
    qed
    with None nonempty sm show ?thesis
      by (auto simp: bx_size_parse_signed_count_def)
  qed
qed

lemma size_parse_signed_count_limits:
  "bx_size_parse_signed_count (Some ''-9223372036854775808'') = Some (push_bit 63 1)"
  "bx_size_parse_signed_count (Some ''9223372036854775808'') = None"
  "bx_size_parse_signed_count (Some ''-9223372036854775809'') = None"
  by code_simp+

section \<open>Correctness of the suffixed parsers\<close>

text \<open>
  The grammar of the suffixes over the natural numbers: an optional \<open>x\<close>, then nothing or a
  unit, with no bound on the scale.
\<close>

definition suffix_scale :: "string \<Rightarrow> nat option" where
  "suffix_scale s0 =
     (let s = (if s0 \<noteq> [] \<and> hd s0 = CHR ''x'' then tl s0 else s0) in
      if s \<in> {[], ''c'', ''B''} then Some 1
      else if s = ''w'' then Some 2
      else if s = ''b'' then Some 512
      else case bx_size_suffix_prefix_power (Some (hd s)) of
          None \<Rightarrow> None
        | Some p \<Rightarrow> if tl s \<in> {[], ''iB''} then Some (1024 ^ p)
                    else if tl s = ''B'' then Some (1000 ^ p) else None)"

lemma suffix_scale_pos: "suffix_scale s = Some m \<Longrightarrow> 0 < m"
  by (auto simp: suffix_scale_def Let_def split: if_splits option.splits)

lemma size_suffix_multiplier_exact:
  "bx_size_suffix_multiplier (Some s) = Some v \<longleftrightarrow> suffix_scale s = Some (unat v)"
proof -
  let ?s = "if s \<noteq> [] \<and> hd s = CHR ''x'' then tl s else s"
  have skip: "(case s of [] \<Rightarrow> s | c # rest \<Rightarrow> if c = CHR ''x'' then rest else s) = ?s"
    by (cases s) simp_all
  have ok: "bx_size_suffix_multiplier (Some s) = Some v \<longleftrightarrow>
      bx_size_suffix_multiplier_result (Some s) = BX_SIZE_SUFFIX_PARSE_OK v"
    by (auto simp: bx_size_suffix_multiplier_def split: bx_size_suffix_parse_result.splits)
  show ?thesis
    unfolding ok bx_size_suffix_multiplier_result_def suffix_scale_def
    by (simp add: skip Let_def bx_size_pow_result_exact unat_eq_iff eq_commute [of _ "unat v"]
        split: option.splits)
qed

lemma size_scaled_len_exact:
  "bx_size_parse_scaled_uint_len s = Some v \<longleftrightarrow>
     (let ds = takeWhile is_digit s; suf = dropWhile is_digit s in
        ds \<noteq> [] \<and> length ds < 64 \<and> length suf < 5 \<and>
        (\<exists>m. suffix_scale suf = Some m \<and> m < 2 ^ 64 \<and> unat v = dec_value ds * m))"
    (is "?l \<longleftrightarrow> ?r")
proof -
  define ds where "ds = takeWhile is_digit s"
  define suf where "suf = dropWhile is_digit s"
  have s: "s = ds @ suf" by (simp add: ds_def suf_def)
  have digs: "list_all is_digit ds" by (auto simp: ds_def list_all_iff dest: set_takeWhileD)
  have tk: "take (length ds) s = ds" "drop (length ds) s = suf" "length s - length ds = length suf"
    by (simp_all add: s)
  have l: "?l \<longleftrightarrow> ds \<noteq> [] \<and> length ds < 64 \<and> length suf < 5 \<and>
      (\<exists>d m. bx_size_parse_uint (Some ds) = Some d \<and> bx_size_suffix_multiplier (Some suf) = Some m
         \<and> bx_checked_uintmax_mul d m = Some v)"
    unfolding bx_size_parse_scaled_uint_len_def Let_def ds_def [symmetric] tk
    by (auto simp: s split: option.splits)
  also have "\<dots> \<longleftrightarrow> ds \<noteq> [] \<and> length ds < 64 \<and> length suf < 5 \<and>
      (\<exists>(d :: uintmax_t) (m :: uintmax_t). unat d = dec_value ds \<and> suffix_scale suf = Some (unat m) \<and> unat v = unat d * unat m)"
    using digs
    by (cases "ds = []") (simp_all add: parse_uint_iff size_suffix_multiplier_exact uintmax_arith.mul_exact)
  also have "(\<exists>(d :: uintmax_t) (m :: uintmax_t). unat d = dec_value ds \<and> suffix_scale suf = Some (unat m) \<and> unat v = unat d * unat m)
      \<longleftrightarrow> (\<exists>m. suffix_scale suf = Some m \<and> m < 2 ^ 64 \<and> unat v = dec_value ds * m)"
    (is "?a \<longleftrightarrow> ?b")
  proof
    assume ?a
    then show ?b using unat_less_2p64 by metis
  next
    assume ?b
    then obtain m where m: "suffix_scale suf = Some m" "m < 2 ^ 64" "unat v = dec_value ds * m" by blast
    then have "dec_value ds \<le> unat v" using suffix_scale_pos [of suf m] by simp
    then have "dec_value ds < 2 ^ 64" using unat_less_2p64 [of v] by linarith
    then have "unat (of_nat (dec_value ds) :: 64 word) = dec_value ds" "unat (of_nat m :: 64 word) = m"
      using m(2) by simp_all
    with m show ?a by metis
  qed
  finally show ?thesis by (simp add: Let_def ds_def suf_def)
qed

text \<open>
  A suffixed size is accepted exactly when it is a non-empty run of fewer than 64 digits
  followed by a suffix of the grammar shorter than 5 bytes, the scale of the suffix fits in
  \<open>uintmax_t\<close>, and so does the product, which is the result. A scale that does not fit is refused
  even for a zero count.
\<close>

lemma size_parse_scaled_uint_exact:
  "bx_size_parse_scaled_uint (Some s) = Some v \<longleftrightarrow>
     (let ds = takeWhile is_digit s; suf = dropWhile is_digit s in
        ds \<noteq> [] \<and> length ds < 64 \<and> length suf < 5 \<and>
        (\<exists>m. suffix_scale suf = Some m \<and> m < 2 ^ 64 \<and> unat v = dec_value ds * m))"
  by (simp add: bx_size_parse_scaled_uint_def size_scaled_len_exact)

section \<open>Products of dd operands\<close>

text \<open>The factors of an operand: the text cut at every \<open>x\<close> that a digit follows.\<close>

fun dd_factors :: "string \<Rightarrow> string \<Rightarrow> string list" where
  "dd_factors fac [] = [fac]"
| "dd_factors fac (c # rest) =
     (if c = CHR ''x'' \<and> rest \<noteq> [] \<and> is_digit (hd rest) then fac # dd_factors [] rest
      else dd_factors (fac @ [c]) rest)"

fun join_x :: "string list \<Rightarrow> string" where
  "join_x [] = []"
| "join_x [f] = f"
| "join_x (f # fs) = f @ CHR ''x'' # join_x fs"

lemma dd_factors_nonempty: "dd_factors fac s \<noteq> []"
  by (induction fac s rule: dd_factors.induct) simp_all

lemma join_x_Cons: "fs \<noteq> [] \<Longrightarrow> join_x (f # fs) = f @ CHR ''x'' # join_x fs"
  by (cases fs) simp_all

lemma dd_factors_join: "join_x (dd_factors fac s) = fac @ s"
  by (induction fac s rule: dd_factors.induct) (simp_all add: join_x_Cons dd_factors_nonempty)

definition products_fit :: "nat \<Rightarrow> nat list \<Rightarrow> bool" where
  "products_fit a fs \<longleftrightarrow> list_all (\<lambda>k. a * prod_list (take k fs) < 2 ^ 64) [0..<Suc (length fs)]"

lemma products_fit_Cons:
  "products_fit a (f # fs) \<longleftrightarrow> a < 2 ^ 64 \<and> products_fit (a * f) fs"
proof -
  have "[0..<Suc (length (f # fs))] = 0 # [Suc 0..<Suc (length (f # fs))]"
    by (rule upt_conv_Cons) simp
  then have "[0..<Suc (length (f # fs))] = 0 # map Suc [0..<Suc (length fs)]"
    by (simp only: map_Suc_upt length_Cons)
  then show ?thesis
    by (simp add: products_fit_def list.pred_map comp_def mult.assoc del: upt_Suc)
qed

lemma products_fit_Nil: "products_fit a [] \<longleftrightarrow> a < 2 ^ 64"
  by (simp add: products_fit_def)

lemma dd_parse_size_loop_exact:
  "dd_parse_size_loop a fac s = Some v \<longleftrightarrow>
     (\<exists>vs. map bx_size_parse_factor (dd_factors fac s) = map Some vs \<and>
        products_fit (unat a) (map unat vs) \<and> unat v = unat a * prod_list (map unat vs))"
proof (induction a fac s rule: dd_parse_size_loop.induct)
  case (1 a fac)
  have "(\<exists>vs. map bx_size_parse_factor (dd_factors fac []) = map Some vs \<and> P vs) \<longleftrightarrow>
      (\<exists>f. bx_size_parse_factor fac = Some f \<and> P [f])" for P
    by (auto simp: Cons_eq_map_conv)
  then show ?case
    using unat_less_2p64 [of v] unat_less_2p64 [of a]
    by (auto simp: uintmax_arith.mul_exact products_fit_Cons products_fit_Nil split: option.splits)
next
  case (2 a fac c rest)
  show ?case
  proof (cases "c = CHR ''x'' \<and> rest \<noteq> [] \<and> is_digit (hd rest)")
    case False
    with 2(2) [OF False] show ?thesis by (simp only: dd_parse_size_loop.simps dd_factors.simps if_False)
  next
    case sep: True
    show ?thesis
    proof (cases "bx_size_parse_factor fac")
      case None
      with sep show ?thesis by (auto simp: map_eq_Cons_conv Cons_eq_map_conv)
    next
      case (Some f)
      have split: "(\<exists>vs. map bx_size_parse_factor (dd_factors fac (c # rest)) = map Some vs \<and> P vs) \<longleftrightarrow>
          (\<exists>vs. map bx_size_parse_factor (dd_factors [] rest) = map Some vs \<and> P (f # vs))" for P
        using sep Some by (auto simp: Cons_eq_map_conv)
      show ?thesis
      proof (cases "bx_checked_uintmax_mul a f")
        case None
        have "\<not> products_fit (unat a * unat f) xs" for xs
          using None by (cases xs) (simp_all add: products_fit_Cons products_fit_Nil uintmax_arith.mul_overflow not_less)
        with None sep Some show ?thesis unfolding split by (simp add: products_fit_Cons)
      next
        case (Some b)
        then have b: "unat b = unat a * unat f" by (simp add: uintmax_arith.mul_exact)
        have "dd_parse_size_loop a fac (c # rest) = dd_parse_size_loop b [] rest"
          using sep Some \<open>bx_size_parse_factor fac = Some f\<close> by simp
        then show ?thesis
          using 2(1) [OF sep \<open>bx_size_parse_factor fac = Some f\<close> Some] unat_less_2p64 [of a]
          unfolding split by (simp add: products_fit_Cons b mult.assoc)
      qed
    qed
  qed
qed

text \<open>
  \<open>dd\<close>'s product operands: the text is cut at every \<open>x\<close> that a digit follows, each factor is
  a suffixed size of its own, and the result is the product of the factors, refused when any
  running product from the left does not fit.
\<close>

lemma dd_parse_size_exact:
  "bx_dd_parse_size (Some s) = Some v \<longleftrightarrow>
     s \<noteq> [] \<and> hd s \<noteq> CHR ''-'' \<and>
     (\<exists>vs. map bx_size_parse_scaled_uint_len (dd_factors [] s) = map Some vs \<and>
        products_fit 1 (map unat vs) \<and> unat v = prod_list (map unat vs))"
proof -
  have "bx_size_parse_factor = bx_size_parse_scaled_uint_len"
    by (rule ext) (simp add: bx_size_parse_factor_def)
  with dd_parse_size_loop_exact [of 1 "[]" s v] show ?thesis
    by (auto simp: bx_dd_parse_size_def)
qed

lemma dd_parse_size_example: "bx_dd_parse_size (Some ''2x3kBx-1'') = None"
  "bx_dd_parse_size (Some ''2x3kBx10'') = Some 60000"
  by code_simp+

section \<open>Correctness of the human-readable formatter\<close>

lemma human_unit_loop_spec:
  assumes "2 \<le> unat base" and "unat u = unat base ^ i" and "unat u \<le> unat v"
    and "human_unit_loop v base left u i = (u', i')"
  shows "unat u' = unat base ^ i' \<and> unat u' \<le> unat v \<and> i \<le> i' \<and> i' \<le> i + left \<and>
    (i' = i + left \<or> unat v < unat base ^ Suc i')"
  using assms(2-4)
proof (induction left arbitrary: u i)
  case 0
  then show ?case by simp
next
  case (Suc left)
  have pos: "base \<noteq> 0" using assms(1) by auto
  have pow: "unat base * unat u = unat base ^ Suc i" using Suc.prems(1) by simp
  show ?case
  proof (cases "2 ^ 64 \<le> unat base * unat u")
    case True
    then have "human_unit_loop v base (Suc left) u i = (u, i)"
      using checked_mul_guard [OF pos, of u] by simp
    moreover have "unat v < unat base ^ Suc i"
      using True pow unat_less_2p64 [of v] by (simp del: power_Suc)
    ultimately show ?thesis using Suc.prems by simp
  next
    case False
    then have nx: "unat (u * base) = unat base ^ Suc i"
      using pow by (simp add: unat_mult_exact mult.commute del: power_Suc)
    show ?thesis
    proof (cases "v < u * base")
      case True
      then have "human_unit_loop v base (Suc left) u i = (u, i)" by (simp add: Let_def)
      with True nx Suc.prems show ?thesis by (simp add: word_less_nat_alt del: power_Suc)
    next
      case ge: False
      then have "human_unit_loop v base (Suc left) u i = human_unit_loop v base left (u * base) (Suc i)"
        using False checked_mul_guard [OF pos, of u] by (simp add: Let_def)
      moreover have "unat (u * base) \<le> unat v" using ge by (simp add: word_le_nat_alt not_less)
      ultimately show ?thesis using Suc.IH [OF nx] Suc.prems(3) by auto
    qed
  qed
qed

lemma size_ceil_div_exact:
  assumes "d \<noteq> 0"
  shows "unat (bx_size_ceil_div v d) = ceil_div (unat v) (unat d)"
proof -
  have pos: "0 < unat d" using assms by (simp add: unat_gt_0)
  have "bx_size_ceil_div v d = of_nat (ceil_div (unat v) (unat d))"
    using assms pos unat_eq_iff [of "v mod d" 0]
    by (simp add: bx_size_ceil_div_def ceil_div_alt unat_mod word_arith_nat_div)
  moreover have "ceil_div (unat v) (unat d) \<le> unat v"
    using pos by (intro ceil_div_least) simp_all
  then have "ceil_div (unat v) (unat d) < 2 ^ 64" using unat_less_2p64 [of v] by linarith
  ultimately show ?thesis by simp
qed

lemma size_saturating_mul_exact:
  "unat (bx_size_saturating_mul a b) = min (2 ^ 64 - 1) (unat a * unat b)"
proof (cases "2 ^ 64 \<le> unat a * unat b")
  case True
  then have "a \<noteq> 0" by auto
  with True show ?thesis by (simp add: bx_size_saturating_mul_def checked_mul_guard)
next
  case False
  then show ?thesis
    by (cases "a = 0") (simp_all add: bx_size_saturating_mul_def checked_mul_guard unat_mult_exact)
qed

definition human_shown :: "nat \<Rightarrow> nat \<Rightarrow> char \<Rightarrow> string" where
  "human_shown v u c =
     (let tenths = ceil_div (v * 10) u in
      if tenths < 100 then dec_of_nat (tenths div 10) @ ''.'' @ dec_of_nat (tenths mod 10) @ [c]
      else dec_of_nat (ceil_div v u) @ [c])"

text \<open>
  For a value of at least one unit and below a tenth of the \<open>uintmax_t\<close> range, the formatter
  picks the largest unit of the suffix list that does not exceed the value and shows the exact
  ceiling in that unit, with one decimal below ten units and none above, so the size shown never
  understates the value.
\<close>

lemma size_format_human_ceil_exact:
  assumes "2 \<le> unat base" and "suffixes \<noteq> []" and "unat base \<le> unat v" and "unat v * 10 < 2 ^ 64"
    and "0 < n"
  shows "\<exists>i. 1 \<le> i \<and> i \<le> length suffixes \<and> unat base ^ i \<le> unat v \<and>
    (i = length suffixes \<or> unat v < unat base ^ Suc i) \<and>
    bx_size_format_human_ceil v base (Some suffixes) n =
      Some (snprintf_store n (human_shown (unat v) (unat base ^ i) (suffixes ! (i - 1))))"
proof -
  obtain u i where loop: "human_unit_loop v base (length suffixes) 1 0 = (u, i)" by fastforce
  have spec: "unat u = unat base ^ i \<and> unat u \<le> unat v \<and> i \<le> length suffixes \<and>
      (i = length suffixes \<or> unat v < unat base ^ Suc i)"
    using human_unit_loop_spec [OF assms(1) _ _ loop] assms(1,3) by simp
  have i: "i \<noteq> 0"
  proof
    assume "i = 0"
    with spec assms(2) have "unat v < unat base" by simp
    with assms(3) show False by simp
  qed
  have u: "u \<noteq> 0" using spec assms(1) by (auto simp: unat_eq_iff)
  define t where "t = bx_size_ceil_div (bx_size_saturating_mul v 10) u"
  have t: "unat t = ceil_div (unat v * 10) (unat u)"
    using assms(4) by (simp add: t_def size_ceil_div_exact [OF u] size_saturating_mul_exact)
  have c: "unat (bx_size_ceil_div v u) = ceil_div (unat v) (unat u)" by (rule size_ceil_div_exact [OF u])
  have guard: "\<not> (base < 2 \<or> suffixes = [] \<or> v < base)"
    using assms(1-3) by (simp add: word_less_nat_alt)
  have "human_ceil_text v base suffixes = human_shown (unat v) (unat u) (suffixes ! (i - 1))"
    unfolding human_ceil_text_def if_not_P [OF guard] loop
    using i by (simp add: Let_def t_def [symmetric] human_shown_def dec_of_word_def c t
        word_less_nat_alt unat_div unat_mod)
  then have "bx_size_format_human_ceil v base (Some suffixes) n =
      Some (snprintf_store n (human_shown (unat v) (unat base ^ i) (suffixes ! (i - 1))))"
    using assms(5) spec by (simp add: bx_size_format_human_ceil_def)
  with spec i show ?thesis by (intro exI [of _ i]) auto
qed

theorem size_format_human_ceil_exact_witness:
  "\<exists>i. 1 \<le> i \<and> i \<le> length ''KMG'' \<and> unat (1024 :: 64 word) ^ i \<le> unat (1536000 :: 64 word) \<and>
    (i = length ''KMG'' \<or> unat (1536000 :: 64 word) < unat (1024 :: 64 word) ^ Suc i) \<and>
    bx_size_format_human_ceil 1536000 1024 (Some ''KMG'') 32 =
      Some (snprintf_store 32 (human_shown (unat (1536000 :: 64 word)) (unat (1024 :: 64 word) ^ i)
        (''KMG'' ! (i - 1))))"
  by (rule size_format_human_ceil_exact) simp_all

lemma size_format_human_ceil_example:
  "bx_size_format_human_ceil 1536000 1024 (Some ''KMG'') 32 = Some ''1.5M''"
  by code_simp

lemma human_shown_not_below:
  assumes "0 < u"
  shows "v \<le> ceil_div v u * u" and "v * 10 \<le> ceil_div (v * 10) u * u"
  using assms by (simp_all add: ceil_div_ge)

text \<open>
  Once ten times the value does not fit in \<open>uintmax_t\<close>, the saturated product makes the
  formatter show the same text for every value, 1.6E in powers of 1024, although a value in this
  range can be ten times larger: \<open>ls -h\<close> and \<open>du -h\<close> understate sizes from 1.6 EiB on.
\<close>

lemma size_format_human_ceil_saturates:
  assumes "2 ^ 64 \<le> unat v * 10"
  shows "bx_size_format_human_ceil v 1024 (Some ''KMGTPEZYRQ'') 32 = Some ''1.6E''"
proof -
  have v: "unat v < 2 ^ 64" "1844674407370955162 \<le> unat v"
    using unat_less_2p64 [of v] assms by simp_all
  have ge: "\<not> v < 1024" "\<not> v < 1048576" "\<not> v < 1073741824" "\<not> v < 1099511627776"
    "\<not> v < 1125899906842624" "\<not> v < 1152921504606846976"
    using v(2) by (simp_all add: word_less_nat_alt)
  have loop: "human_unit_loop v 1024 (length ''KMGTPEZYRQ'') 1 0 = (1152921504606846976, 6)"
    by (simp add: ge)
  have "bx_size_saturating_mul v 10 = - 1"
    using assms unat_eq_iff [of "bx_size_saturating_mul v 10" "- 1"]
    by (simp add: size_saturating_mul_exact)
  then show ?thesis
    using ge(1) loop
    by (simp add: bx_size_format_human_ceil_def human_ceil_text_def bx_size_ceil_div_def
        dec_of_word_def dec_of_nat.simps digit_char_literals snprintf_store_def)
qed
lemma size_format_human_ceil_saturates_witness:
  "2 ^ 64 \<le> unat (9223372036854775807 :: 64 word) * 10 \<and>
   bx_size_format_human_ceil 9223372036854775807 1024 (Some ''KMGTPEZYRQ'') 32 = Some ''1.6E''"
  using size_format_human_ceil_saturates [of 9223372036854775807] by simp

end
