(* ===== verification/Base64.thy ===== *)
theory Base64
  imports Prelude
begin

text \<open>
  The codec of \<open>src/src/lib/base64.c\<close>, with the portable stand-ins of \<open>base64_arm64.c\<close> that
  builds without NEON use. An output buffer is the list of bytes written to it.
\<close>

section \<open>Encoding\<close>

definition bx_base64_alphabet :: string where
  "bx_base64_alphabet =
     ''ABCDEFGHIJKLMNOPQRSTUVWXYZabcdefghijklmnopqrstuvwxyz0123456789+/''"

definition bx_base64_encoded_size :: "size_t \<Rightarrow> size_t" where
  "bx_base64_encoded_size input_len =
     (if input_len > SIZE_MAX - 2 then SIZE_MAX
      else let groups = (input_len + 2) div 3 in
        if groups > SIZE_MAX div 4 then SIZE_MAX else groups * 4)"

text \<open>The builds without NEON consume nothing on the vector path.\<close>

definition bx_base64_arm64_encode_blocks :: "bytes \<Rightarrow> nat \<times> string" where
  "bx_base64_arm64_encode_blocks input = (0, [])"

definition bx_base64_arm64_decode_64 :: "string \<Rightarrow> bytes option" where
  "bx_base64_arm64_decode_64 input = None"

definition base64_char :: "u8 \<Rightarrow> char" where
  "base64_char i = bx_base64_alphabet ! unat i"

fun base64_encode_loop :: "bytes \<Rightarrow> string" where
  "base64_encode_loop (a # b # c # rest) =
     base64_char (drop_bit 2 a)
     # base64_char (push_bit 4 (a AND 0x03) OR drop_bit 4 b)
     # base64_char (push_bit 2 (b AND 0x0f) OR drop_bit 6 c)
     # base64_char (c AND 0x3f)
     # base64_encode_loop rest"
| "base64_encode_loop _ = []"

definition bx_base64_encode_complete :: "bytes \<Rightarrow> string" where
  "bx_base64_encode_complete input =
     (let complete_len = length input - length input mod 3 in
      case bx_base64_arm64_encode_blocks (take complete_len input) of
        (consumed, out) \<Rightarrow> out @ base64_encode_loop (drop consumed (take complete_len input)))"

definition bx_base64_encode :: "bytes \<Rightarrow> string" where
  "bx_base64_encode input =
     (let complete_len = length input - length input mod 3;
          out = bx_base64_encode_complete input;
          tail_len = length input - complete_len in
      if tail_len = 1 then
        let a = input ! complete_len in
          out @ [base64_char (drop_bit 2 a), base64_char (push_bit 4 (a AND 0x03)), CHR ''='', CHR ''='']
      else if tail_len = 2 then
        let a = input ! complete_len; b = input ! (complete_len + 1) in
          out @ [base64_char (drop_bit 2 a), base64_char (push_bit 4 (a AND 0x03) OR drop_bit 4 b),
                 base64_char (push_bit 2 (b AND 0x0f)), CHR ''='']
      else out)"

section \<open>Decoding\<close>

definition bx_base64_decode_value :: "char \<Rightarrow> int" where
  "bx_base64_decode_value ch =
     (if ch \<ge> CHR ''A'' \<and> ch \<le> CHR ''Z'' then of_char ch - of_char CHR ''A''
      else if ch \<ge> CHR ''a'' \<and> ch \<le> CHR ''z'' then of_char ch - of_char CHR ''a'' + 26
      else if ch \<ge> CHR ''0'' \<and> ch \<le> CHR ''9'' then of_char ch - of_char CHR ''0'' + 52
      else if ch = CHR ''+'' then 62
      else if ch = CHR ''/'' then 63
      else -1)"

definition base64_byte1 :: "int \<Rightarrow> int \<Rightarrow> u8" where
  "base64_byte1 a b = word_of_int (push_bit 2 a OR drop_bit 4 b)"

definition base64_byte2 :: "int \<Rightarrow> int \<Rightarrow> u8" where
  "base64_byte2 b c = word_of_int (push_bit 4 b OR drop_bit 2 c)"

definition base64_byte3 :: "int \<Rightarrow> int \<Rightarrow> u8" where
  "base64_byte3 c d = word_of_int (push_bit 6 c OR d)"

definition bx_base64_decode_quad :: "char \<Rightarrow> char \<Rightarrow> char \<Rightarrow> char \<Rightarrow> bytes option" where
  "bx_base64_decode_quad q0 q1 q2 q3 =
     (let a = bx_base64_decode_value q0; b = bx_base64_decode_value q1;
          c = bx_base64_decode_value q2; d = bx_base64_decode_value q3 in
      if a < 0 \<or> b < 0 \<or> c < 0 \<or> d < 0 then None
      else Some [base64_byte1 a b, base64_byte2 b c, base64_byte3 c d])"

text \<open>The two loops of \<open>bx_base64_decode_blocks\<close>: how many bytes were consumed, and the output.\<close>

function base64_decode_wide :: "string \<Rightarrow> nat \<times> bytes" where
  "base64_decode_wide input =
     (if length input < 64 then (0, [])
      else case bx_base64_arm64_decode_64 (take 64 input) of
          None \<Rightarrow> (0, [])
        | Some out \<Rightarrow> (case base64_decode_wide (drop 64 input) of (n, more) \<Rightarrow> (64 + n, out @ more)))"
  by pat_completeness auto
termination by (relation "measure length") auto

declare base64_decode_wide.simps [simp del]

fun base64_decode_quads :: "string \<Rightarrow> nat \<times> bytes" where
  "base64_decode_quads (q0 # q1 # q2 # q3 # rest) =
     (case bx_base64_decode_quad q0 q1 q2 q3 of
        None \<Rightarrow> (0, [])
      | Some out \<Rightarrow> (case base64_decode_quads rest of (n, more) \<Rightarrow> (4 + n, out @ more)))"
| "base64_decode_quads _ = (0, [])"

definition bx_base64_decode_blocks :: "string \<Rightarrow> nat \<times> bytes" where
  "bx_base64_decode_blocks input =
     (case base64_decode_wide input of (n, out) \<Rightarrow>
        case base64_decode_quads (drop n input) of (m, more) \<Rightarrow> (n + m, out @ more))"

definition bx_base64_decode_exact :: "string \<Rightarrow> bytes option" where
  "bx_base64_decode_exact input =
     (let input_len = length input in
      if input_len = 0 then Some []
      else if input_len mod 4 \<noteq> 0 then None
      else let padding = (if input ! (input_len - 1) = CHR ''='' then 1 else 0)
                       + (if input_len \<ge> 2 \<and> input ! (input_len - 2) = CHR ''='' then 1 else (0::nat));
               prefix_len = input_len - 4 in
        case bx_base64_decode_blocks (take prefix_len input) of (consumed, out) \<Rightarrow>
          if consumed \<noteq> prefix_len then None
          else let q = drop prefix_len input;
                   a = bx_base64_decode_value (q ! 0);
                   b = bx_base64_decode_value (q ! 1);
                   c = (if q ! 2 = CHR ''='' then 0 else bx_base64_decode_value (q ! 2));
                   d = (if q ! 3 = CHR ''='' then 0 else bx_base64_decode_value (q ! 3)) in
            if a < 0 \<or> b < 0 \<or> c < 0 \<or> d < 0
               \<or> (q ! 2 = CHR ''='' \<and> q ! 3 \<noteq> CHR ''='')
               \<or> (q ! 2 = CHR ''='' \<and> padding \<noteq> 2)
               \<or> (q ! 3 = CHR ''='' \<and> padding = 0) then None
            else Some (out @ [base64_byte1 a b]
                 @ (if padding < 2 then [base64_byte2 b c] else [])
                 @ (if padding = 0 then [base64_byte3 c d] else [])))"

section \<open>The alphabet\<close>

lemma base64_decode_value_char: "i < 64 \<Longrightarrow> bx_base64_decode_value (bx_base64_alphabet ! i) = int i"
proof -
  have "list_all (\<lambda>i. bx_base64_decode_value (bx_base64_alphabet ! i) = int i) [0..<64]"
    by code_simp
  then show "i < 64 \<Longrightarrow> bx_base64_decode_value (bx_base64_alphabet ! i) = int i"
    by (simp add: list_all_iff)
qed

lemma decode_value_base64_char [simp]:
  "unat w < 64 \<Longrightarrow> bx_base64_decode_value (base64_char w) = uint w"
  by (simp add: base64_char_def base64_decode_value_char)

lemma base64_char_not_pad: "unat w < 64 \<Longrightarrow> base64_char w \<noteq> CHR ''=''"
proof
  assume "unat w < 64" and "base64_char w = CHR ''=''"
  then have "bx_base64_decode_value CHR ''='' = uint w" by (metis decode_value_base64_char)
  moreover have "bx_base64_decode_value CHR ''='' = -1" by code_simp
  ultimately show False using uint_ge_0 [of w] by linarith
qed

text \<open>The four indices built from three bytes are below 64, and the three bytes come back.\<close>

lemma less_64_if_high_bits: "\<not> bit w 6 \<Longrightarrow> \<not> bit w 7 \<Longrightarrow> unat (w :: u8) < 64"
proof -
  assume "\<not> bit w 6" and "\<not> bit w 7"
  then have "take_bit 6 w = w" by (intro u8_eqI) (simp_all add: bit_take_bit_iff)
  then have "unat w = take_bit 6 (unat w)" by (metis unsigned_take_bit_eq)
  then show ?thesis using take_bit_nat_less_exp [of 6 "unat w"] by simp
qed

lemma base64_index_bounds:
  fixes a b c :: u8
  shows "unat (drop_bit 2 a) < 64"
    and "unat (push_bit 4 (a AND 0x03) OR drop_bit 4 b) < 64"
    and "unat (push_bit 2 (b AND 0x0f) OR drop_bit 6 c) < 64"
    and "unat (c AND 0x3f) < 64"
    and "unat (push_bit 4 (a AND 0x03)) < 64"
    and "unat (push_bit 2 (b AND 0x0f)) < 64"
  unfolding u8_masks
  by (rule less_64_if_high_bits; simp add: bit_simps)+

lemma base64_bytes_back:
  fixes a b c :: u8
  shows "base64_byte1 (uint (drop_bit 2 a)) (uint (push_bit 4 (a AND 0x03) OR drop_bit 4 b)) = a"
    and "base64_byte2 (uint (push_bit 4 (a AND 0x03) OR drop_bit 4 b))
      (uint (push_bit 2 (b AND 0x0f) OR drop_bit 6 c)) = b"
    and "base64_byte3 (uint (push_bit 2 (b AND 0x0f) OR drop_bit 6 c)) (uint (c AND 0x3f)) = c"
    and "base64_byte1 (uint (drop_bit 2 a)) (uint (push_bit 4 (a AND 0x03))) = a"
    and "base64_byte2 (uint (push_bit 4 (a AND 0x03) OR drop_bit 4 b)) (uint (push_bit 2 (b AND 0x0f))) = b"
  unfolding u8_masks base64_byte1_def base64_byte2_def base64_byte3_def
  by (rule u8_eqI; simp add: bit_simps)+

section \<open>Round trip\<close>

text \<open>The encoder as one recursion over groups of three bytes.\<close>

fun base64_text :: "bytes \<Rightarrow> string" where
  "base64_text [] = []"
| "base64_text [a] =
     [base64_char (drop_bit 2 a), base64_char (push_bit 4 (a AND 0x03)), CHR ''='', CHR ''='']"
| "base64_text [a, b] =
     [base64_char (drop_bit 2 a), base64_char (push_bit 4 (a AND 0x03) OR drop_bit 4 b),
      base64_char (push_bit 2 (b AND 0x0f)), CHR ''='']"
| "base64_text (a # b # c # rest) =
     base64_char (drop_bit 2 a)
     # base64_char (push_bit 4 (a AND 0x03) OR drop_bit 4 b)
     # base64_char (push_bit 2 (b AND 0x0f) OR drop_bit 6 c)
     # base64_char (c AND 0x3f)
     # base64_text rest"

lemma mod_Suc3 [simp]: "Suc (Suc (Suc n)) mod 3 = n mod 3"
proof -
  have "Suc (Suc (Suc n)) = n + 3" by simp
  then show ?thesis by (simp only: mod_add_self2)
qed

lemma ceil_div_Suc3: "ceil_div (Suc (Suc (Suc n))) 3 = Suc (ceil_div n 3)"
proof -
  have "Suc (Suc (Suc n)) = n + 3" by simp
  then show ?thesis by (simp only: ceil_div_alt) simp
qed

lemma length_base64_text: "length (base64_text xs) = 4 * ceil_div (length xs) 3"
  by (induction xs rule: base64_text.induct) (simp_all add: ceil_div_Suc3, simp_all add: ceil_div_def)

lemma base64_text_append3:
  "length xs mod 3 = 0 \<Longrightarrow> base64_text (xs @ ys) = base64_text xs @ base64_text ys"
  by (induction xs rule: base64_text.induct) simp_all

lemma encode_loop_text: "length xs mod 3 = 0 \<Longrightarrow> base64_encode_loop xs = base64_text xs"
  by (induction xs rule: base64_text.induct) simp_all

lemma encode_split:
  assumes "length p mod 3 = 0" and "length t < 3"
  shows "bx_base64_encode (p @ t) = base64_encode_loop p @ base64_text t"
proof -
  have rem: "length (p @ t) mod 3 = length t" using assms by (simp add: mod_add_left_eq [symmetric])
  then have len: "length (p @ t) - length (p @ t) mod 3 = length p" by simp
  consider "t = []" | a where "t = [a]" | a b where "t = [a, b]"
    using assms(2) by (cases t; cases "tl t"; cases "tl (tl t)") auto
  then show ?thesis
    by cases (unfold bx_base64_encode_def bx_base64_encode_complete_def Let_def len,
      simp_all add: bx_base64_arm64_encode_blocks_def nth_append)
qed

lemma bytes_split:
  obtains p t where "xs = p @ t" and "length p mod 3 = 0" and "length t < (3::nat)"
proof
  let ?k = "length xs div 3 * 3"
  have le: "?k \<le> length xs" by simp
  show "xs = take ?k xs @ drop ?k xs" by simp
  show "length (take ?k xs) mod 3 = 0" using le by (simp add: min_absorb2)
  show "length (drop ?k xs) < 3" using mod_less_divisor [of 3 "length xs"] by (simp add: minus_div_mult_eq_mod)
qed

lemma bx_base64_encode_text: "bx_base64_encode xs = base64_text xs"
proof -
  obtain p t where "xs = p @ t" and "length p mod 3 = 0" and "length t < 3" by (rule bytes_split)
  then show ?thesis by (simp add: encode_split encode_loop_text base64_text_append3)
qed

lemma decode_quads_text:
  "length xs mod 3 = 0 \<Longrightarrow> base64_decode_quads (base64_text xs) = (length (base64_text xs), xs)"
  by (induction xs rule: base64_text.induct)
    (simp_all add: bx_base64_decode_quad_def base64_index_bounds base64_bytes_back Let_def
      not_less del: push_bit_and)

lemma base64_decode_wide_none: "base64_decode_wide s = (0, [])"
  by (subst base64_decode_wide.simps) (simp add: bx_base64_arm64_decode_64_def)

lemma base64_decode_blocks_quads: "bx_base64_decode_blocks s = base64_decode_quads s"
  by (simp add: bx_base64_decode_blocks_def base64_decode_wide_none)

text \<open>What \<open>bx_base64_decode_exact\<close> does with its last four characters.\<close>

definition base64_decode_last :: "char \<Rightarrow> char \<Rightarrow> char \<Rightarrow> char \<Rightarrow> bytes option" where
  "base64_decode_last q0 q1 q2 q3 =
     (let a = bx_base64_decode_value q0; b = bx_base64_decode_value q1;
          c = bx_base64_decode_value q2; d = bx_base64_decode_value q3 in
      if a < 0 \<or> b < 0 then None
      else if q2 = CHR ''='' then (if q3 = CHR ''='' then Some [base64_byte1 a b] else None)
      else if c < 0 then None
      else if q3 = CHR ''='' then Some [base64_byte1 a b, base64_byte2 b c]
      else if d < 0 then None
      else Some [base64_byte1 a b, base64_byte2 b c, base64_byte3 c d])"

lemma decode_exact_split:
  assumes "length p mod 4 = 0"
  shows "bx_base64_decode_exact (p @ [q0, q1, q2, q3]) =
    (case base64_decode_quads p of (n, out) \<Rightarrow>
       if n \<noteq> length p then None else map_option (\<lambda>l. out @ l) (base64_decode_last q0 q1 q2 q3))"
proof -
  have idx: "(p @ [q0, q1, q2, q3]) ! Suc (Suc (Suc (length p))) = q3"
    "(p @ [q0, q1, q2, q3]) ! Suc (Suc (length p)) = q2"
    by (simp_all add: nth_append)
  have mod4: "(length p + 4) mod 4 = 0" using assms by simp
  obtain n out where d: "base64_decode_quads p = (n, out)" by fastforce
  show ?thesis
    using assms
    by (auto simp: bx_base64_decode_exact_def base64_decode_blocks_quads d Let_def idx
        base64_decode_last_def mod_Suc numeral_2_eq_2 numeral_3_eq_3)
qed

lemma bytes_split_last:
  assumes "xs \<noteq> []"
  obtains p t where "xs = p @ t" and "length p mod 3 = 0" and "length t = 1 \<or> length t = 2 \<or> length t = (3::nat)"
proof -
  define k where "k = (length xs - 1) div 3 * 3"
  have n: "length xs - 1 = k + (length xs - 1) mod 3" by (simp add: k_def)
  have "(length xs - 1) mod 3 < 3" by simp
  then have "length xs = k + 1 \<or> length xs = k + 2 \<or> length xs = k + 3"
  proof -
    have "0 < length xs" using assms by simp
    with n \<open>(length xs - 1) mod 3 < 3\<close> show ?thesis by linarith
  qed
  moreover have "k mod 3 = 0" by (simp add: k_def)
  ultimately show thesis
    by (intro that [of "take k xs" "drop k xs"]) (auto simp: min_def)
qed

text \<open>
  C4: decoding an encoded buffer gives the buffer back, for every input, with or without padding.
\<close>

theorem base64_roundtrip: "bx_base64_decode_exact (bx_base64_encode xs) = Some xs"
proof (cases "xs = []")
  case True
  then show ?thesis by (simp add: bx_base64_encode_text bx_base64_decode_exact_def)
next
  case False
  then obtain p t where xs: "xs = p @ t" and p: "length p mod 3 = 0"
    and t: "length t = 1 \<or> length t = 2 \<or> length t = 3" by (rule bytes_split_last)
  have p4: "length (base64_text p) mod 4 = 0" by (simp add: length_base64_text)
  note rules = bx_base64_encode_text base64_text_append3 [OF p] decode_exact_split [OF p4]
    decode_quads_text [OF p] base64_decode_last_def base64_index_bounds base64_bytes_back
    base64_char_not_pad Let_def
  from t consider a where "t = [a]" | a b where "t = [a, b]" | a b c where "t = [a, b, c]"
    by (auto simp: length_Suc_conv numeral_2_eq_2 numeral_3_eq_3)
  then show ?thesis
    by cases (simp_all add: xs rules del: push_bit_and)
qed

text \<open>
  The size computed for the output buffer is the exact length of the encoding, and saturates
  at \<open>SIZE_MAX\<close> when that length does not fit.
\<close>

lemma base64_encoded_size_exact:
  "unat (bx_base64_encoded_size n) =
     (let m = 4 * ceil_div (unat n) 3 in if m < 2 ^ 64 then m else 2 ^ 64 - 1)"
proof -
  have n: "unat n < 2 ^ 64" by (rule unat_less_2p64)
  have guard: "n > SIZE_MAX - 2 \<longleftrightarrow> 2 ^ 64 \<le> unat n + 2"
    using checked_add_guard [of 2 n] by simp
  show ?thesis
  proof (cases "2 ^ 64 \<le> unat n + 2")
    case True
    then have "2 ^ 64 \<le> 4 * ceil_div (unat n) 3" by (simp add: ceil_div_def)
    with True guard show ?thesis by (simp add: bx_base64_encoded_size_def Let_def)
  next
    case False
    define g where "g = (n + 2) div 3"
    have g: "unat g = ceil_div (unat n) 3"
      using False by (simp add: g_def unat_div unat_add_exact ceil_div_def)
    have "g > SIZE_MAX div 4 \<longleftrightarrow> 2 ^ 64 \<le> 4 * unat g"
      by (simp add: word_less_nat_alt unat_div) linarith
    with False guard g show ?thesis
      by (simp add: bx_base64_encoded_size_def Let_def g_def [symmetric] mult.commute
          unat_mult_exact)
  qed
qed

lemma base64_encode_fits:
  assumes "4 * ceil_div (length xs) 3 < 2 ^ 64"
  shows "length (bx_base64_encode xs) = unat (bx_base64_encoded_size (of_nat (length xs)))"
proof -
  have "length xs \<le> 4 * ceil_div (length xs) 3"
    using ceil_div_ge [of 3 "length xs"] by simp
  then have "unat (of_nat (length xs) :: 64 word) = length xs" using assms by simp
  with assms show ?thesis
    by (simp add: base64_encoded_size_exact Let_def bx_base64_encode_text length_base64_text)
qed

section \<open>Strictness\<close>

lemma list_of_length4:
  assumes "length xs = 4"
  obtains a b c d where "xs = [a, b, c, d]"
proof -
  from assms have "length xs = Suc (Suc (Suc (Suc 0)))" by simp
  then show thesis unfolding length_Suc_conv length_0_conv using that by blast
qed

lemma decode_quads_sound:
  assumes "base64_decode_quads s = (length s, out)"
  shows "list_all (\<lambda>c. 0 \<le> bx_base64_decode_value c) s \<and> 4 * length out = 3 * length s"
  using assms
proof (induction s arbitrary: out rule: base64_decode_quads.induct)
  case (1 q0 q1 q2 q3 rest)
  obtain n more where r: "base64_decode_quads rest = (n, more)" by fastforce
  from "1.prems" obtain blk where blk: "bx_base64_decode_quad q0 q1 q2 q3 = Some blk"
    by (auto split: option.splits)
  with "1.prems" r have "n = length rest" and out: "out = blk @ more" by simp_all
  with "1.IH" [OF blk, of more] r have "list_all (\<lambda>c. 0 \<le> bx_base64_decode_value c) rest"
    "4 * length more = 3 * length rest" by simp_all
  with blk out show ?case
    by (auto simp: bx_base64_decode_quad_def Let_def not_less split: if_splits)
qed simp_all

lemma decode_last_sound:
  assumes "base64_decode_last q0 q1 q2 q3 = Some l"
  shows "0 \<le> bx_base64_decode_value q0" and "0 \<le> bx_base64_decode_value q1"
    and "(q2 = CHR ''='' \<and> q3 = CHR ''='' \<and> length l = 1) \<or>
      (0 \<le> bx_base64_decode_value q2 \<and> q3 = CHR ''='' \<and> length l = 2) \<or>
      (0 \<le> bx_base64_decode_value q2 \<and> 0 \<le> bx_base64_decode_value q3 \<and> length l = 3)"
proof -
  define a b c d where "a = bx_base64_decode_value q0" and "b = bx_base64_decode_value q1"
    and "c = bx_base64_decode_value q2" and "d = bx_base64_decode_value q3"
  have l: "(if a < 0 \<or> b < 0 then None
      else if q2 = CHR ''='' then (if q3 = CHR ''='' then Some [base64_byte1 a b] else None)
      else if c < 0 then None
      else if q3 = CHR ''='' then Some [base64_byte1 a b, base64_byte2 b c]
      else if d < 0 then None
      else Some [base64_byte1 a b, base64_byte2 b c, base64_byte3 c d]) = Some l"
    using assms by (simp only: base64_decode_last_def Let_def a_def b_def c_def d_def)
  then show "0 \<le> a" and "0 \<le> b" by (simp_all split: if_split_asm)
  from l show "(q2 = CHR ''='' \<and> q3 = CHR ''='' \<and> length l = 1) \<or>
      (0 \<le> c \<and> q3 = CHR ''='' \<and> length l = 2) \<or> (0 \<le> c \<and> 0 \<le> d \<and> length l = 3)"
    by (cases "q2 = CHR ''=''"; cases "q3 = CHR ''=''") (auto split: if_split_asm)
qed

text \<open>
  An accepted text is a whole number of quads, made of alphabet characters followed by at
  most two padding characters, and the output has exactly three bytes per quad less the padding.
\<close>

lemma base64_decode_exact_strict:
  assumes "bx_base64_decode_exact s = Some out"
  shows "\<exists>body pad. s = body @ replicate pad CHR ''='' \<and> pad \<le> 2 \<and>
    list_all (\<lambda>c. 0 \<le> bx_base64_decode_value c) body \<and> length s mod 4 = 0 \<and>
    4 * (length out + pad) = 3 * length s"
proof (cases "s = []")
  case True
  with assms show ?thesis by (auto simp: bx_base64_decode_exact_def intro: exI [of _ 0])
next
  case False
  have "bx_base64_decode_exact s = None" if "length s mod 4 \<noteq> 0"
    using that False by (simp add: bx_base64_decode_exact_def Let_def)
  with assms have mod4: "4 dvd length s" by (auto simp: mod_eq_0_iff_dvd)
  define p where "p = take (length s - 4) s"
  have "4 \<le> length s" using mod4 False by (intro dvd_imp_le) simp_all
  then have len: "length p = length s - 4" and "length (drop (length s - 4) s) = 4"
    by (simp_all add: p_def)
  have "(length s - 4) mod 4 = 0"
    using mod4 dvd_diff_nat [of 4 "length s" 4] by (simp only: mod_eq_0_iff_dvd dvd_refl)
  then have p4: "length p mod 4 = 0" using len by metis
  have "length (drop (length s - 4) s) = 4" by fact
  then obtain q0 q1 q2 q3 where "drop (length s - 4) s = [q0, q1, q2, q3]"
    by (rule list_of_length4)
  then have s: "s = p @ [q0, q1, q2, q3]" unfolding p_def by (metis append_take_drop_id)
  obtain n pre where d: "base64_decode_quads p = (n, pre)" by fastforce
  have split: "(if n \<noteq> length p then None
      else map_option (\<lambda>l. pre @ l) (base64_decode_last q0 q1 q2 q3)) = Some out"
    using assms decode_exact_split [OF p4, of q0 q1 q2 q3] by (simp only: s d prod.case)
  then have n: "n = length p" by (simp split: if_split_asm)
  with split obtain l where l: "base64_decode_last q0 q1 q2 q3 = Some l" and out: "out = pre @ l"
    by auto
  have pre: "base64_decode_quads p = (length p, pre)" using d n by simp
  note body = decode_quads_sound [OF pre]
  note last = decode_last_sound(1,2) [OF l]
  from decode_last_sound(3) [OF l] consider "q2 = CHR ''=''" "q3 = CHR ''=''" "length l = 1"
    | "q3 = CHR ''=''" "0 \<le> bx_base64_decode_value q2" "length l = 2"
    | "0 \<le> bx_base64_decode_value q2" "0 \<le> bx_base64_decode_value q3" "length l = 3"
    by blast
  then show ?thesis
  proof cases
    case 1
    then show ?thesis using s body last out p4
      by (intro exI [of _ "p @ [q0, q1]"] exI [of _ 2]) (simp add: numeral_2_eq_2)
  next
    case 2
    then show ?thesis using s body last out p4
      by (intro exI [of _ "p @ [q0, q1, q2]"] exI [of _ 1]) simp
  next
    case 3
    then show ?thesis using s body last out p4
      by (intro exI [of _ "p @ [q0, q1, q2, q3]"] exI [of _ 0]) simp
  qed
qed

theorem base64_decode_exact_strict_witness:
  "\<exists>body pad. ''YngtMQ=='' = body @ replicate pad CHR ''='' \<and> pad \<le> 2 \<and>
    list_all (\<lambda>c. 0 \<le> bx_base64_decode_value c) body \<and> length ''YngtMQ=='' mod 4 = 0 \<and>
    4 * (length (map of_nat [98, 120, 45, 49] :: bytes) + pad) = 3 * length ''YngtMQ==''"
proof (rule base64_decode_exact_strict)
  show "bx_base64_decode_exact ''YngtMQ=='' = Some (map of_nat [98, 120, 45, 49])"
    by code_simp
qed

end
