(* ===== verification/BlockDigest.thy ===== *)
theory BlockDigest
  imports Prelude
begin

text \<open>
  What the four block digests of \<open>src/src/crypto\<close> have in common: bytes are collected in a
  buffer of one block, every full block goes through the compression function, and the final
  padding makes the total a whole number of blocks. The locale \<open>block_digest\<close> states this
  contract of an \<open>update\<close> operation and derives from it that the chunking of the input does not
  matter; each algorithm's theory interprets it on its own context.
\<close>

section \<open>Absorbing whole blocks\<close>

text \<open>The reference: feed whole blocks to the compression function, return the bytes left over.\<close>

function absorb :: "nat \<Rightarrow> ('s \<Rightarrow> bytes \<Rightarrow> 's) \<Rightarrow> 's \<Rightarrow> bytes \<Rightarrow> 's \<times> bytes" where
  "absorb n tr s data =
     (if n = 0 \<or> length data < n then (s, data) else absorb n tr (tr s (take n data)) (drop n data))"
  by pat_completeness auto
termination by (relation "measure (\<lambda>(n, tr, s, data). length data)") auto

declare absorb.simps [simp del]

lemma absorb_zero [simp]: "absorb 0 tr s data = (s, data)"
  by (subst absorb.simps) simp

lemma absorb_short: "length data < n \<Longrightarrow> absorb n tr s data = (s, data)"
  by (subst absorb.simps) simp

lemma absorb_block: "0 < n \<Longrightarrow> length b = n \<Longrightarrow> absorb n tr s (b @ data) = absorb n tr (tr s b) data"
  by (subst absorb.simps) simp

lemma absorb_rest_short: "0 < n \<Longrightarrow> length (snd (absorb n tr s data)) < n"
proof (induction n tr s data rule: absorb.induct)
  case (1 n tr s data)
  then show ?case by (cases "length data < n") (simp_all add: absorb.simps [of n tr s data])
qed

lemma absorb_append:
  assumes "0 < n"
  shows "absorb n tr s (x @ y) = (case absorb n tr s x of (s', r) \<Rightarrow> absorb n tr s' (r @ y))"
proof (induction n tr s x rule: absorb.induct)
  case (1 n tr s data)
  show ?case
  proof (cases "n = 0 \<or> length data < n")
    case True
    then show ?thesis
      by (cases "n = 0") (simp_all add: absorb.simps [of n tr s data])
  next
    case False
    then have "absorb n tr s (data @ y) = absorb n tr (tr s (take n data)) (drop n data @ y)"
      using absorb_block [of n "take n data" tr s "drop n data @ y"]
      by (simp add: append_assoc [symmetric] del: append_assoc)
    with 1 False show ?thesis by (simp add: absorb.simps [of n tr s data])
  qed
qed

lemma absorb_whole:
  assumes "0 < n" and "n dvd length data"
  shows "snd (absorb n tr s data) = []"
  using assms
proof (induction n tr s data rule: absorb.induct)
  case (1 n tr s data)
  show ?case
  proof (cases "length data < n")
    case True
    with "1.prems" have "data = []" by (auto dest: dvd_imp_le)
    with "1.prems" show ?thesis by (simp add: absorb.simps)
  next
    case False
    with "1.prems" have "n dvd length (drop n data)" by (simp add: dvd_diff_nat)
    with "1.IH" "1.prems" False show ?thesis by (simp add: absorb.simps [of n tr s data])
  qed
qed

text \<open>The variant that counts the blocks first, as the SHA-1 and SHA-256 code does.\<close>

fun absorb_count :: "nat \<Rightarrow> ('s \<Rightarrow> bytes \<Rightarrow> 's) \<Rightarrow> nat \<Rightarrow> 's \<Rightarrow> bytes \<Rightarrow> 's" where
  "absorb_count n tr 0 s data = s"
| "absorb_count n tr (Suc k) s data = absorb_count n tr k (tr s (take n data)) (drop n data)"

lemma absorb_count_eq:
  "0 < n \<Longrightarrow> absorb n tr s data =
     (absorb_count n tr (length data div n) s data, drop (length data div n * n) data)"
proof (induction n tr s data rule: absorb.induct)
  case (1 n tr s data)
  show ?case
  proof (cases "length data < n")
    case True
    then show ?thesis by (simp add: absorb_short)
  next
    case False
    then have "length data div n = Suc ((length data - n) div n)"
      using "1.prems" by (simp add: le_div_geq)
    with 1 False show ?thesis by (simp add: absorb.simps [of n tr s data] add.commute)
  qed
qed

section \<open>The buffered update\<close>

text \<open>One call of an update function on the compression state and the buffered bytes.\<close>

definition stream_update ::
  "nat \<Rightarrow> ('s \<Rightarrow> bytes \<Rightarrow> 's) \<Rightarrow> 's \<times> bytes \<Rightarrow> bytes \<Rightarrow> 's \<times> bytes" where
  "stream_update n tr v data = absorb n tr (fst v) (snd v @ data)"

text \<open>
  The shape all four update functions share: top up a non-empty buffer, flush it when full,
  absorb the whole blocks that follow, keep the rest.
\<close>

definition buffered_update ::
  "nat \<Rightarrow> ('s \<Rightarrow> bytes \<Rightarrow> 's) \<Rightarrow> 's \<Rightarrow> bytes \<Rightarrow> bytes \<Rightarrow> 's \<times> bytes" where
  "buffered_update n tr s buf data =
     (let k = min (n - length buf) (length data);
          filled = buf @ take k data;
          (s1, buf1, data1) =
            (if 0 < length buf then
               if length filled = n then (tr s filled, [], drop k data) else (s, filled, drop k data)
             else (s, buf, data));
          (s2, rest) = absorb n tr s1 data1
      in (s2, if 0 < length rest then rest else buf1))"

lemma buffered_update_stream:
  assumes "length buf < n"
  shows "buffered_update n tr s buf data = stream_update n tr (s, buf) data"
proof (cases "buf = []")
  case True
  have "snd (absorb n tr s data) = [] \<Longrightarrow> absorb n tr s data = (fst (absorb n tr s data), [])"
    by (metis prod.collapse)
  with True show ?thesis
    by (auto simp: buffered_update_def stream_update_def Let_def split: prod.splits)
next
  case buf: False
  show ?thesis
  proof (cases "n - length buf \<le> length data")
    case True
    define b where "b = buf @ take (n - length buf) data"
    have b: "length b = n" and split: "buf @ data = b @ drop (n - length buf) data"
      using assms True by (simp_all add: b_def)
    have "0 < n" using assms by simp
    then have "stream_update n tr (s, buf) data = absorb n tr (tr s b) (drop (n - length buf) data)"
      using absorb_block [OF _ b] by (simp add: stream_update_def split)
    moreover have k: "min (n - length buf) (length data) = n - length buf" using True by simp
    have "buffered_update n tr s buf data = absorb n tr (tr s b) (drop (n - length buf) data)"
      using buf b unfolding buffered_update_def Let_def k b_def [symmetric]
      by (auto split: prod.splits)
    ultimately show ?thesis by simp
  next
    case False
    then have short: "length (buf @ data) < n" using assms by simp
    have "0 < n" using assms by simp
    with short buf False show ?thesis
      by (simp add: buffered_update_def stream_update_def absorb_short Let_def)
  qed
qed

section \<open>Padding\<close>

text \<open>The padding bytes of a block size, a length-field size and a message length.\<close>

definition md_pad_len :: "nat \<Rightarrow> nat \<Rightarrow> nat \<Rightarrow> nat" where
  "md_pad_len block tail fill = (if fill < block - tail then block - tail - fill else block + (block - tail) - fill)"

definition md_padding :: "nat \<Rightarrow> nat \<Rightarrow> nat \<Rightarrow> bytes" where
  "md_padding block tail fill = take (md_pad_len block tail fill) (0x80 # replicate (block - 1) 0)"

lemma md_padding_length:
  assumes "fill < block" and "tail < block"
  shows "length (md_padding block tail fill) = md_pad_len block tail fill"
    and "0 < md_pad_len block tail fill" and "md_pad_len block tail fill \<le> block"
  using assms by (auto simp: md_padding_def md_pad_len_def)

lemma md_padding_whole:
  assumes "0 < tail" and "tail < block"
  shows "block dvd n + md_pad_len block tail (n mod block) + tail"
proof -
  let ?f = "n mod block"
  have f: "?f < block" using assms by simp
  then have "?f + md_pad_len block tail ?f + tail = block \<or>
      ?f + md_pad_len block tail ?f + tail = 2 * block"
  proof (cases "?f < block - tail")
    case True
    then have "md_pad_len block tail ?f = block - tail - ?f" by (simp add: md_pad_len_def)
    with True assms show ?thesis by linarith
  next
    case False
    then have "md_pad_len block tail ?f = block + (block - tail) - ?f" by (simp add: md_pad_len_def)
    with False f assms show ?thesis by linarith
  qed
  then have "block dvd ?f + md_pad_len block tail ?f + tail" by auto
  moreover have "n + md_pad_len block tail ?f + tail =
      n div block * block + (?f + md_pad_len block tail ?f + tail)"
    using div_mult_mod_eq [of n block] by linarith
  ultimately show ?thesis by (metis dvd_add dvd_triv_right)
qed

section \<open>The contract of an incremental digest\<close>

text \<open>
  \<open>view\<close> is the compression state and the buffered bytes of a context, \<open>count\<close> its message
  length counter, \<open>limit\<close> the longest input one call can take.
\<close>

locale block_digest =
  fixes block :: nat and transform :: "'s \<Rightarrow> bytes \<Rightarrow> 's"
    and update :: "'ctx \<Rightarrow> bytes \<Rightarrow> 'ctx"
    and view :: "'ctx \<Rightarrow> 's \<times> bytes" and count :: "'ctx \<Rightarrow> 'c::len word" and limit :: nat
  assumes block_pos: "0 < block"
    and update_view: "length (snd (view c)) < block \<Longrightarrow>
      view (update c d) = stream_update block transform (view c) d"
    and update_count: "length d < limit \<Longrightarrow> count (update c d) = count c + of_nat (length d)"
    and view_count_inj: "view c = view c' \<Longrightarrow> count c = count c' \<Longrightarrow> c = c'"
begin

lemma update_buffer_bound:
  "length (snd (view c)) < block \<Longrightarrow> length (snd (view (update c d))) < block"
  by (simp add: update_view stream_update_def absorb_rest_short block_pos)

lemma update_view_append:
  assumes "length (snd (view c)) < block"
  shows "view (update (update c x) y) = view (update c (x @ y))"
proof -
  have "view (update (update c x) y) =
      stream_update block transform (stream_update block transform (view c) x) y"
    using update_buffer_bound [OF assms, of x] by (simp add: update_view assms)
  also have "\<dots> = stream_update block transform (view c) (x @ y)"
    using absorb_append [OF block_pos, of transform "fst (view c)" "snd (view c) @ x" y]
    by (simp add: stream_update_def split: prod.splits)
  finally show ?thesis by (simp add: update_view assms)
qed

lemma update_append:
  assumes "length (snd (view c)) < block" and "length (x @ y) < limit"
  shows "update (update c x) y = update c (x @ y)"
  using assms by (intro view_count_inj update_view_append) (simp_all add: update_count add.assoc)

lemma updates_concat:
  assumes "length (snd (view c)) < block" and "length (concat chunks) < limit"
    and "chunks \<noteq> []"
  shows "foldl update c chunks = update c (concat chunks)"
  using assms
proof (induction chunks arbitrary: c)
  case (Cons x xs)
  show ?case
  proof (cases "xs = []")
    case False
    have "foldl update c (x # xs) = update (update c x) (concat xs)"
      using Cons.IH [OF update_buffer_bound [OF Cons.prems(1), of x]] Cons.prems False by simp
    also have "\<dots> = update c (concat (x # xs))"
      using Cons.prems by (simp add: update_append)
    finally show ?thesis .
  qed simp
qed simp

text \<open>Blocks end to end: a padded message leaves the buffer empty.\<close>

lemma update_whole:
  assumes "view c = (s, [])" and "block dvd length d"
  shows "view (update c d) = (fst (absorb block transform s d), [])"
proof -
  have "snd (absorb block transform s d) = []" by (rule absorb_whole [OF block_pos assms(2)])
  then show ?thesis
    using assms(1) block_pos by (simp add: update_view stream_update_def) (metis prod.collapse)
qed

lemma fill_after_update:
  assumes "view c = (s, [])"
  shows "length (snd (view (update c d))) = length d mod block"
  using assms block_pos
  by (simp add: update_view stream_update_def absorb_count_eq minus_div_mult_eq_mod)

text \<open>The final padding: the digest state is the reference run over the padded message.\<close>

lemma padded_view:
  assumes "view c = (s, [])" and "0 < tail" and "tail < block" and "length lenf = tail"
  shows "view (update (update (update c d)
      (md_padding block tail (length (snd (view (update c d)))))) lenf) =
    (fst (absorb block transform s (d @ md_padding block tail (length d mod block) @ lenf)), [])"
proof -
  let ?pad = "md_padding block tail (length d mod block)"
  have short: "length (snd (view c)) < block" using assms(1) block_pos by simp
  have "length ?pad = md_pad_len block tail (length d mod block)"
    using block_pos assms(3) by (intro md_padding_length) simp_all
  then have "block dvd length (d @ ?pad @ lenf)"
    using md_padding_whole [OF assms(2,3), of "length d"] assms(4) by (simp add: add.assoc)
  then have whole: "view (update c (d @ ?pad @ lenf)) =
      (fst (absorb block transform s (d @ ?pad @ lenf)), [])"
    by (rule update_whole [OF assms(1)])
  have "view (update (update (update c d) ?pad) lenf) = view (update (update c d) (?pad @ lenf))"
    by (intro update_view_append update_buffer_bound short)
  also have "\<dots> = view (update c (d @ ?pad @ lenf))"
    by (rule update_view_append [OF short])
  finally show ?thesis by (simp add: whole fill_after_update [OF assms(1)])
qed

end

end
