(* ===== verification/Md5.thy ===== *)
theory Md5
  imports BlockDigest
begin

text \<open>
  MD5, \<open>src/src/crypto/md5.c\<close>. The four chaining words of the context are the tuple
  \<open>md5_h\<close>; \<open>md5_buffer\<close> holds the first \<open>buffer_len\<close> bytes of the C buffer, the bytes
  beyond them are never read.
\<close>

type_synonym md5_state = "u32 \<times> u32 \<times> u32 \<times> u32"

record bx_md5_ctx =
  md5_h :: md5_state
  md5_total_len :: u64
  md5_buffer :: bytes

definition bx_md5_rotl32 :: "u32 \<Rightarrow> nat \<Rightarrow> u32" where
  "bx_md5_rotl32 x shift = push_bit shift x OR drop_bit (32 - shift) x"

definition bx_md5_load_le32 :: "bytes \<Rightarrow> u32" where
  "bx_md5_load_le32 b =
     ucast (b ! 0) OR push_bit 8 (ucast (b ! 1)) OR push_bit 16 (ucast (b ! 2)) OR push_bit 24 (ucast (b ! 3))"

definition bx_md5_store_le32 :: "u32 \<Rightarrow> bytes" where
  "bx_md5_store_le32 x = [ucast x, ucast (drop_bit 8 x), ucast (drop_bit 16 x), ucast (drop_bit 24 x)]"

definition md5_k :: "u32 list" where
  "md5_k = [
     0xD76AA478, 0xE8C7B756, 0x242070DB, 0xC1BDCEEE, 0xF57C0FAF, 0x4787C62A, 0xA8304613, 0xFD469501,
     0x698098D8, 0x8B44F7AF, 0xFFFF5BB1, 0x895CD7BE, 0x6B901122, 0xFD987193, 0xA679438E, 0x49B40821,
     0xF61E2562, 0xC040B340, 0x265E5A51, 0xE9B6C7AA, 0xD62F105D, 0x02441453, 0xD8A1E681, 0xE7D3FBC8,
     0x21E1CDE6, 0xC33707D6, 0xF4D50D87, 0x455A14ED, 0xA9E3E905, 0xFCEFA3F8, 0x676F02D9, 0x8D2A4C8A,
     0xFFFA3942, 0x8771F681, 0x6D9D6122, 0xFDE5380C, 0xA4BEEA44, 0x4BDECFA9, 0xF6BB4B60, 0xBEBFBC70,
     0x289B7EC6, 0xEAA127FA, 0xD4EF3085, 0x04881D05, 0xD9D4D039, 0xE6DB99E5, 0x1FA27CF8, 0xC4AC5665,
     0xF4292244, 0x432AFF97, 0xAB9423A7, 0xFC93A039, 0x655B59C3, 0x8F0CCC92, 0xFFEFF47D, 0x85845DD1,
     0x6FA87E4F, 0xFE2CE6E0, 0xA3014314, 0x4E0811A1, 0xF7537E82, 0xBD3AF235, 0x2AD7D2BB, 0xEB86D391]"

definition md5_s :: "nat list" where
  "md5_s = [
     7, 12, 17, 22, 7, 12, 17, 22, 7, 12, 17, 22, 7, 12, 17, 22,
     5, 9, 14, 20, 5, 9, 14, 20, 5, 9, 14, 20, 5, 9, 14, 20,
     4, 11, 16, 23, 4, 11, 16, 23, 4, 11, 16, 23, 4, 11, 16, 23,
     6, 10, 15, 21, 6, 10, 15, 21, 6, 10, 15, 21, 6, 10, 15, 21]"

text \<open>One of the 64 rounds.\<close>

definition md5_round :: "u32 list \<Rightarrow> md5_state \<Rightarrow> nat \<Rightarrow> md5_state" where
  "md5_round w st i =
     (case st of (a, b, c, d) \<Rightarrow>
      let (f, g) =
        (if i < 16 then ((b AND c) OR (NOT b AND d), i)
         else if i < 32 then ((d AND b) OR (NOT d AND c), (5 * i + 1) mod 16)
         else if i < 48 then (b XOR c XOR d, (3 * i + 5) mod 16)
         else (c XOR (b OR NOT d), (7 * i) mod 16))
      in (d, b + bx_md5_rotl32 (a + f + md5_k ! i + w ! g) (md5_s ! i), b, c))"

definition bx_md5_transform :: "md5_state \<Rightarrow> bytes \<Rightarrow> md5_state" where
  "bx_md5_transform st block =
     (let w = map (\<lambda>i. bx_md5_load_le32 (drop (i * 4) block)) [0..<16] in
      case (st, foldl (md5_round w) st [0..<64]) of
        ((a0, b0, c0, d0), (a, b, c, d)) \<Rightarrow> (a0 + a, b0 + b, c0 + c, d0 + d))"

definition md5_iv :: md5_state where
  "md5_iv = (0x67452301, 0xefcdab89, 0x98badcfe, 0x10325476)"

definition bx_md5_init :: bx_md5_ctx where
  "bx_md5_init = \<lparr>md5_h = md5_iv, md5_total_len = 0, md5_buffer = []\<rparr>"

definition bx_md5_update :: "bx_md5_ctx \<Rightarrow> bytes \<Rightarrow> bx_md5_ctx" where
  "bx_md5_update ctx data =
     (let total' = md5_total_len ctx + of_nat (length data);
          k = min (64 - length (md5_buffer ctx)) (length data);
          filled = md5_buffer ctx @ take k data;
          (h1, buf1, data1) =
            (if 0 < length (md5_buffer ctx) then
               if length filled = 64 then (bx_md5_transform (md5_h ctx) filled, [], drop k data)
               else (md5_h ctx, filled, drop k data)
             else (md5_h ctx, md5_buffer ctx, data));
          (h2, rest) = absorb 64 bx_md5_transform h1 data1
      in \<lparr>md5_h = h2, md5_total_len = total', md5_buffer = (if 0 < length rest then rest else buf1)\<rparr>)"

definition bx_md5_final :: "bx_md5_ctx \<Rightarrow> bytes" where
  "bx_md5_final ctx =
     (let total_bits = md5_total_len ctx * 8;
          pad = 0x80 # replicate 63 0;
          length_le = map (\<lambda>i. ucast (drop_bit (i * 8) total_bits)) [0..<8];
          fill = length (md5_buffer ctx);
          pad_len = (if fill < 56 then 56 - fill else 64 + 56 - fill);
          ctx1 = bx_md5_update (bx_md5_update ctx (take pad_len pad)) length_le
      in case md5_h ctx1 of (a, b, c, d) \<Rightarrow>
        bx_md5_store_le32 a @ bx_md5_store_le32 b @ bx_md5_store_le32 c @ bx_md5_store_le32 d)"

section \<open>MD5 as an incremental digest\<close>

definition md5_view :: "bx_md5_ctx \<Rightarrow> md5_state \<times> bytes" where
  "md5_view c = (md5_h c, md5_buffer c)"

lemma md5_update_buffered:
  "md5_view (bx_md5_update c d) = buffered_update 64 bx_md5_transform (md5_h c) (md5_buffer c) d"
  by (auto simp: bx_md5_update_def buffered_update_def md5_view_def Let_def split: prod.splits)

interpretation md5: block_digest 64 bx_md5_transform bx_md5_update md5_view md5_total_len "2 ^ 64"
proof unfold_locales
  show "(0::nat) < 64" by simp
next
  fix c d assume "length (snd (md5_view c)) < 64"
  then show "md5_view (bx_md5_update c d) = stream_update 64 bx_md5_transform (md5_view c) d"
    unfolding md5_update_buffered by (simp add: buffered_update_stream md5_view_def)
next
  fix c d show "md5_total_len (bx_md5_update c d) = md5_total_len c + of_nat (length d)"
    by (simp add: bx_md5_update_def Let_def split: prod.splits)
next
  fix c c' :: bx_md5_ctx
  assume "md5_view c = md5_view c'" and "md5_total_len c = md5_total_len c'"
  then show "c = c'" by (simp add: md5_view_def)
qed

text \<open>
  MD5 over a stream does not depend on how the input is cut: two updates equal one update with
  the concatenation, from every context the code can reach (a buffer below one block).
\<close>

lemma md5_update_append:
  assumes "length (md5_buffer c) < 64" and "length (x @ y) < 2 ^ 64"
  shows "bx_md5_update (bx_md5_update c x) y = bx_md5_update c (x @ y)"
  using assms by (intro md5.update_append) (simp_all add: md5_view_def)

lemma md5_update_append_witness:
  "bx_md5_update (bx_md5_update bx_md5_init [1, 2]) [3] = bx_md5_update bx_md5_init [1, 2, 3]"
  using md5_update_append [of bx_md5_init "[1, 2]" "[3]"] by (simp add: bx_md5_init_def)

text \<open>The message length in bits, least significant byte first, as the last eight bytes.\<close>

definition md5_length_field :: "nat \<Rightarrow> bytes" where
  "md5_length_field n = map (\<lambda>i. ucast (drop_bit (i * 8) (of_nat n * 8 :: u64))) [0..<8]"

definition md5_output :: "md5_state \<Rightarrow> bytes" where
  "md5_output st = (case st of (a, b, c, d) \<Rightarrow> concat (map bx_md5_store_le32 [a, b, c, d]))"

text \<open>
  The MD5 of a message is the compression function run over the whole blocks of the message
  followed by one 0x80 byte, the zero padding to 56 modulo 64, and the 64-bit little-endian bit
  length.
\<close>

lemma md5_digest_reference:
  "bx_md5_final (bx_md5_update bx_md5_init msg) =
     md5_output (fst (absorb 64 bx_md5_transform md5_iv
       (msg @ md_padding 64 8 (length msg mod 64) @ md5_length_field (length msg))))"
proof -
  let ?c = "bx_md5_update bx_md5_init msg"
  have init: "md5_view bx_md5_init = (md5_iv, [])" by (simp add: md5_view_def bx_md5_init_def)
  have total: "md5_total_len ?c = of_nat (length msg)"
    by (simp add: bx_md5_update_def bx_md5_init_def Let_def split: prod.splits)
  have fin: "bx_md5_final ?c = md5_output (fst (md5_view (bx_md5_update (bx_md5_update ?c
      (md_padding 64 8 (length (snd (md5_view ?c))))) (md5_length_field (length msg)))))"
    by (simp add: bx_md5_final_def md5_view_def md_padding_def md_pad_len_def
        md5_length_field_def md5_output_def total Let_def split: prod.splits)
  show ?thesis
    unfolding fin by (subst md5.padded_view [OF init]) (simp_all add: md5_length_field_def)
qed

end
