(* ===== verification/Sha1.thy ===== *)
theory Sha1
  imports BlockDigest
begin

text \<open>
  SHA-1, \<open>src/src/crypto/sha1.c\<close>, with the generic block loop that runs when the AArch64
  instructions are absent. The five chaining words are the tuple \<open>sha1_h\<close>.
\<close>

type_synonym sha1_state = "u32 \<times> u32 \<times> u32 \<times> u32 \<times> u32"

record bx_sha1_ctx =
  sha1_h :: sha1_state
  sha1_total_len :: u64
  sha1_buffer :: bytes

definition bx_sha1_rotl32 :: "u32 \<Rightarrow> nat \<Rightarrow> u32" where
  "bx_sha1_rotl32 x shift = push_bit shift x OR drop_bit (32 - shift) x"

definition bx_sha1_load_be32 :: "bytes \<Rightarrow> u32" where
  "bx_sha1_load_be32 b =
     push_bit 24 (ucast (b ! 0)) OR push_bit 16 (ucast (b ! 1)) OR push_bit 8 (ucast (b ! 2)) OR ucast (b ! 3)"

definition bx_sha1_store_be32 :: "u32 \<Rightarrow> bytes" where
  "bx_sha1_store_be32 x = [ucast (drop_bit 24 x), ucast (drop_bit 16 x), ucast (drop_bit 8 x), ucast x]"

definition sha1_schedule :: "bytes \<Rightarrow> u32 list" where
  "sha1_schedule block =
     foldl (\<lambda>w i. w @ [bx_sha1_rotl32 (w ! (i - 3) XOR w ! (i - 8) XOR w ! (i - 14) XOR w ! (i - 16)) 1])
       (map (\<lambda>i. bx_sha1_load_be32 (drop (i * 4) block)) [0..<16]) [16..<80]"

definition sha1_round :: "u32 list \<Rightarrow> sha1_state \<Rightarrow> nat \<Rightarrow> sha1_state" where
  "sha1_round w st i =
     (case st of (a, b, c, d, e) \<Rightarrow>
      let (f, k) =
        (if i < 20 then ((b AND c) OR (NOT b AND d), 0x5A827999)
         else if i < 40 then (b XOR c XOR d, 0x6ED9EBA1)
         else if i < 60 then ((b AND c) OR (b AND d) OR (c AND d), 0x8F1BBCDC)
         else (b XOR c XOR d, 0xCA62C1D6))
      in (bx_sha1_rotl32 a 5 + f + e + k + w ! i, a, bx_sha1_rotl32 b 30, c, d))"

definition bx_sha1_transform :: "sha1_state \<Rightarrow> bytes \<Rightarrow> sha1_state" where
  "bx_sha1_transform st block =
     (let w = sha1_schedule block in
      case (st, foldl (sha1_round w) st [0..<80]) of
        ((h0, h1, h2, h3, h4), (a, b, c, d, e)) \<Rightarrow> (h0 + a, h1 + b, h2 + c, h3 + d, h4 + e))"

definition sha1_iv :: sha1_state where
  "sha1_iv = (0x67452301, 0xEFCDAB89, 0x98BADCFE, 0x10325476, 0xC3D2E1F0)"

definition bx_sha1_init :: bx_sha1_ctx where
  "bx_sha1_init = \<lparr>sha1_h = sha1_iv, sha1_total_len = 0, sha1_buffer = []\<rparr>"

definition bx_sha1_update :: "bx_sha1_ctx \<Rightarrow> bytes \<Rightarrow> bx_sha1_ctx" where
  "bx_sha1_update ctx data =
     (let total' = sha1_total_len ctx + of_nat (length data);
          k = min (64 - length (sha1_buffer ctx)) (length data);
          filled = sha1_buffer ctx @ take k data;
          (h1, buf1, data1) =
            (if 0 < length (sha1_buffer ctx) then
               if length filled = 64 then (bx_sha1_transform (sha1_h ctx) filled, [], drop k data)
               else (sha1_h ctx, filled, drop k data)
             else (sha1_h ctx, sha1_buffer ctx, data));
          block_count = length data1 div 64;
          h2 = (if 0 < block_count then absorb_count 64 bx_sha1_transform block_count h1 data1 else h1);
          rest = (if 0 < block_count then drop (block_count * 64) data1 else data1)
      in \<lparr>sha1_h = h2, sha1_total_len = total', sha1_buffer = (if 0 < length rest then rest else buf1)\<rparr>)"

definition bx_sha1_final :: "bx_sha1_ctx \<Rightarrow> bytes" where
  "bx_sha1_final ctx =
     (let total_bits = sha1_total_len ctx * 8;
          pad = 0x80 # replicate 63 0;
          length_be = map (\<lambda>i. ucast (drop_bit ((7 - i) * 8) total_bits)) [0..<8];
          fill = length (sha1_buffer ctx);
          pad_len = (if fill < 56 then 56 - fill else 64 + 56 - fill);
          ctx1 = bx_sha1_update (bx_sha1_update ctx (take pad_len pad)) length_be
      in case sha1_h ctx1 of (h0, h1, h2, h3, h4) \<Rightarrow>
        bx_sha1_store_be32 h0 @ bx_sha1_store_be32 h1 @ bx_sha1_store_be32 h2 @ bx_sha1_store_be32 h3
        @ bx_sha1_store_be32 h4)"

section \<open>SHA-1 as an incremental digest\<close>

definition sha1_view :: "bx_sha1_ctx \<Rightarrow> sha1_state \<times> bytes" where
  "sha1_view c = (sha1_h c, sha1_buffer c)"

lemma sha1_update_buffered:
  "sha1_view (bx_sha1_update c d) = buffered_update 64 bx_sha1_transform (sha1_h c) (sha1_buffer c) d"
proof -
  have count: "absorb 64 bx_sha1_transform h x =
      ((if 0 < length x div 64 then absorb_count 64 bx_sha1_transform (length x div 64) h x else h),
       (if 0 < length x div 64 then drop (length x div 64 * 64) x else x))" for h x
    by (auto simp: absorb_count_eq)
  show ?thesis
    unfolding bx_sha1_update_def buffered_update_def sha1_view_def count
    by (simp only: Let_def split: prod.splits) auto
qed

interpretation sha1: block_digest 64 bx_sha1_transform bx_sha1_update sha1_view sha1_total_len "2 ^ 64"
proof unfold_locales
  show "(0::nat) < 64" by simp
next
  fix c d assume "length (snd (sha1_view c)) < 64"
  then show "sha1_view (bx_sha1_update c d) = stream_update 64 bx_sha1_transform (sha1_view c) d"
    unfolding sha1_update_buffered by (simp add: buffered_update_stream sha1_view_def)
next
  fix c d show "sha1_total_len (bx_sha1_update c d) = sha1_total_len c + of_nat (length d)"
    by (simp add: bx_sha1_update_def Let_def split: prod.splits)
next
  fix c c' :: bx_sha1_ctx
  assume "sha1_view c = sha1_view c'" and "sha1_total_len c = sha1_total_len c'"
  then show "c = c'" by (simp add: sha1_view_def)
qed

text \<open>The message length in bits, most significant byte first.\<close>

definition sha1_length_field :: "nat \<Rightarrow> bytes" where
  "sha1_length_field n = map (\<lambda>i. ucast (drop_bit ((7 - i) * 8) (of_nat n * 8 :: u64))) [0..<8]"

definition sha1_output :: "sha1_state \<Rightarrow> bytes" where
  "sha1_output st = (case st of (h0, h1, h2, h3, h4) \<Rightarrow> concat (map bx_sha1_store_be32 [h0, h1, h2, h3, h4]))"

text \<open>
  The SHA-1 of a message, fed in any non-empty sequence of pieces, is the compression function
  run over the message padded with 0x80, zeros to 56 modulo 64, and the 64-bit big-endian bit
  length.
\<close>

lemma sha1_digest_reference:
  assumes "chunks \<noteq> []" and "length (concat chunks) < 2 ^ 64"
  shows "bx_sha1_final (foldl bx_sha1_update bx_sha1_init chunks) =
    (let msg = concat chunks in sha1_output (fst (absorb 64 bx_sha1_transform sha1_iv
       (msg @ md_padding 64 8 (length msg mod 64) @ sha1_length_field (length msg)))))"
proof -
  let ?msg = "concat chunks"
  let ?c = "bx_sha1_update bx_sha1_init ?msg"
  have init: "sha1_view bx_sha1_init = (sha1_iv, [])" by (simp add: sha1_view_def bx_sha1_init_def)
  have whole: "foldl bx_sha1_update bx_sha1_init chunks = ?c"
    using assms by (intro sha1.updates_concat) (simp_all add: init)
  have total: "sha1_total_len ?c = of_nat (length ?msg)"
    by (simp add: bx_sha1_update_def bx_sha1_init_def Let_def split: prod.splits)
  have fin: "bx_sha1_final ?c = sha1_output (fst (sha1_view (bx_sha1_update (bx_sha1_update ?c
      (md_padding 64 8 (length (snd (sha1_view ?c))))) (sha1_length_field (length ?msg)))))"
    by (simp add: bx_sha1_final_def sha1_view_def md_padding_def md_pad_len_def
        sha1_length_field_def sha1_output_def total Let_def split: prod.splits)
  show ?thesis
    unfolding whole fin Let_def
    by (subst sha1.padded_view [OF init]) (simp_all add: sha1_length_field_def)
qed

theorem sha1_digest_reference_witness:
  "bx_sha1_final (foldl bx_sha1_update bx_sha1_init [[0x61], [0x62, 0x63]]) =
    (let msg = concat [[0x61], [0x62, 0x63]] in sha1_output (fst (absorb 64 bx_sha1_transform sha1_iv
       (msg @ md_padding 64 8 (length msg mod 64) @ sha1_length_field (length msg)))))"
  by (rule sha1_digest_reference) simp_all

end
