(* ===== verification/Sha256.thy ===== *)
theory Sha256
  imports BlockDigest
begin

text \<open>
  SHA-224 and SHA-256, \<open>src/src/crypto/sha256.c\<close>, with the generic block loop that runs when
  neither the AArch64 nor the x86 instructions are used. The array \<open>h[8]\<close> is a list of eight
  words.
\<close>

record bx_sha256_ctx =
  sha256_h :: "u32 list"
  sha256_total_len :: u64
  sha256_buffer :: bytes

definition bx_sha256_round_constants :: "u32 list" where
  "bx_sha256_round_constants = [
     0x428A2F98, 0x71374491, 0xB5C0FBCF, 0xE9B5DBA5, 0x3956C25B, 0x59F111F1, 0x923F82A4, 0xAB1C5ED5,
     0xD807AA98, 0x12835B01, 0x243185BE, 0x550C7DC3, 0x72BE5D74, 0x80DEB1FE, 0x9BDC06A7, 0xC19BF174,
     0xE49B69C1, 0xEFBE4786, 0x0FC19DC6, 0x240CA1CC, 0x2DE92C6F, 0x4A7484AA, 0x5CB0A9DC, 0x76F988DA,
     0x983E5152, 0xA831C66D, 0xB00327C8, 0xBF597FC7, 0xC6E00BF3, 0xD5A79147, 0x06CA6351, 0x14292967,
     0x27B70A85, 0x2E1B2138, 0x4D2C6DFC, 0x53380D13, 0x650A7354, 0x766A0ABB, 0x81C2C92E, 0x92722C85,
     0xA2BFE8A1, 0xA81A664B, 0xC24B8B70, 0xC76C51A3, 0xD192E819, 0xD6990624, 0xF40E3585, 0x106AA070,
     0x19A4C116, 0x1E376C08, 0x2748774C, 0x34B0BCB5, 0x391C0CB3, 0x4ED8AA4A, 0x5B9CCA4F, 0x682E6FF3,
     0x748F82EE, 0x78A5636F, 0x84C87814, 0x8CC70208, 0x90BEFFFA, 0xA4506CEB, 0xBEF9A3F7, 0xC67178F2]"

definition bx_sha256_rotr32 :: "u32 \<Rightarrow> nat \<Rightarrow> u32" where
  "bx_sha256_rotr32 x shift = drop_bit shift x OR push_bit (32 - shift) x"

definition bx_sha256_load_be32 :: "bytes \<Rightarrow> u32" where
  "bx_sha256_load_be32 b =
     push_bit 24 (ucast (b ! 0)) OR push_bit 16 (ucast (b ! 1)) OR push_bit 8 (ucast (b ! 2)) OR ucast (b ! 3)"

definition bx_sha256_store_be32 :: "u32 \<Rightarrow> bytes" where
  "bx_sha256_store_be32 x = [ucast (drop_bit 24 x), ucast (drop_bit 16 x), ucast (drop_bit 8 x), ucast x]"

definition bx_sha256_ch :: "u32 \<Rightarrow> u32 \<Rightarrow> u32 \<Rightarrow> u32" where
  "bx_sha256_ch x y z = (x AND y) XOR (NOT x AND z)"

definition bx_sha256_maj :: "u32 \<Rightarrow> u32 \<Rightarrow> u32 \<Rightarrow> u32" where
  "bx_sha256_maj x y z = (x AND y) XOR (x AND z) XOR (y AND z)"

definition bx_sha256_big_sigma0 :: "u32 \<Rightarrow> u32" where
  "bx_sha256_big_sigma0 x = bx_sha256_rotr32 x 2 XOR bx_sha256_rotr32 x 13 XOR bx_sha256_rotr32 x 22"

definition bx_sha256_big_sigma1 :: "u32 \<Rightarrow> u32" where
  "bx_sha256_big_sigma1 x = bx_sha256_rotr32 x 6 XOR bx_sha256_rotr32 x 11 XOR bx_sha256_rotr32 x 25"

definition bx_sha256_small_sigma0 :: "u32 \<Rightarrow> u32" where
  "bx_sha256_small_sigma0 x = bx_sha256_rotr32 x 7 XOR bx_sha256_rotr32 x 18 XOR drop_bit 3 x"

definition bx_sha256_small_sigma1 :: "u32 \<Rightarrow> u32" where
  "bx_sha256_small_sigma1 x = bx_sha256_rotr32 x 17 XOR bx_sha256_rotr32 x 19 XOR drop_bit 10 x"

definition sha256_schedule :: "bytes \<Rightarrow> u32 list" where
  "sha256_schedule block =
     foldl (\<lambda>w i. w @ [bx_sha256_small_sigma1 (w ! (i - 2)) + w ! (i - 7)
                       + bx_sha256_small_sigma0 (w ! (i - 15)) + w ! (i - 16)])
       (map (\<lambda>i. bx_sha256_load_be32 (drop (i * 4) block)) [0..<16]) [16..<64]"

text \<open>The eight working variables \<open>a\<close> to \<open>h\<close>.\<close>

type_synonym sha256_vars = "u32 \<times> u32 \<times> u32 \<times> u32 \<times> u32 \<times> u32 \<times> u32 \<times> u32"

definition sha256_round :: "u32 list \<Rightarrow> sha256_vars \<Rightarrow> nat \<Rightarrow> sha256_vars" where
  "sha256_round w st i =
     (case st of (a, b, c, d, e, f, g, h) \<Rightarrow>
      let t1 = h + bx_sha256_big_sigma1 e + bx_sha256_ch e f g + bx_sha256_round_constants ! i + w ! i;
          t2 = bx_sha256_big_sigma0 a + bx_sha256_maj a b c
      in (t1 + t2, a, b, c, d + t1, e, f, g))"

definition bx_sha256_transform :: "u32 list \<Rightarrow> bytes \<Rightarrow> u32 list" where
  "bx_sha256_transform hs block =
     (let w = sha256_schedule block;
          st = (hs ! 0, hs ! 1, hs ! 2, hs ! 3, hs ! 4, hs ! 5, hs ! 6, hs ! 7) in
      case foldl (sha256_round w) st [0..<64] of (a, b, c, d, e, f, g, h) \<Rightarrow>
        [hs ! 0 + a, hs ! 1 + b, hs ! 2 + c, hs ! 3 + d, hs ! 4 + e, hs ! 5 + f, hs ! 6 + g, hs ! 7 + h])"

definition sha224_iv :: "u32 list" where
  "sha224_iv = [0xC1059ED8, 0x367CD507, 0x3070DD17, 0xF70E5939,
     0xFFC00B31, 0x68581511, 0x64F98FA7, 0xBEFA4FA4]"

definition sha256_iv :: "u32 list" where
  "sha256_iv = [0x6A09E667, 0xBB67AE85, 0x3C6EF372, 0xA54FF53A,
     0x510E527F, 0x9B05688C, 0x1F83D9AB, 0x5BE0CD19]"

definition bx_sha224_init :: bx_sha256_ctx where
  "bx_sha224_init = \<lparr>sha256_h = sha224_iv, sha256_total_len = 0, sha256_buffer = []\<rparr>"

definition bx_sha256_init :: bx_sha256_ctx where
  "bx_sha256_init = \<lparr>sha256_h = sha256_iv, sha256_total_len = 0, sha256_buffer = []\<rparr>"

definition bx_sha256_update :: "bx_sha256_ctx \<Rightarrow> bytes \<Rightarrow> bx_sha256_ctx" where
  "bx_sha256_update ctx data =
     (let total' = sha256_total_len ctx + of_nat (length data);
          k = min (64 - length (sha256_buffer ctx)) (length data);
          filled = sha256_buffer ctx @ take k data;
          (h1, buf1, data1) =
            (if 0 < length (sha256_buffer ctx) then
               if length filled = 64 then (bx_sha256_transform (sha256_h ctx) filled, [], drop k data)
               else (sha256_h ctx, filled, drop k data)
             else (sha256_h ctx, sha256_buffer ctx, data));
          block_count = length data1 div 64;
          h2 = (if 0 < block_count then absorb_count 64 bx_sha256_transform block_count h1 data1 else h1);
          rest = (if 0 < block_count then drop (block_count * 64) data1 else data1)
      in \<lparr>sha256_h = h2, sha256_total_len = total', sha256_buffer = (if 0 < length rest then rest else buf1)\<rparr>)"

definition bx_sha256_finalize :: "bx_sha256_ctx \<Rightarrow> bx_sha256_ctx" where
  "bx_sha256_finalize ctx =
     (let total_bits = sha256_total_len ctx * 8;
          pad = 0x80 # replicate 63 0;
          length_be = map (\<lambda>i. ucast (drop_bit ((7 - i) * 8) total_bits)) [0..<8];
          fill = length (sha256_buffer ctx);
          pad_len = (if fill < 56 then 56 - fill else 64 + 56 - fill)
      in bx_sha256_update (bx_sha256_update ctx (take pad_len pad)) length_be)"

definition bx_sha224_final :: "bx_sha256_ctx \<Rightarrow> bytes" where
  "bx_sha224_final ctx =
     (let hs = sha256_h (bx_sha256_finalize ctx) in
      concat (map (\<lambda>i. bx_sha256_store_be32 (hs ! i)) [0..<7]))"

definition bx_sha256_final :: "bx_sha256_ctx \<Rightarrow> bytes" where
  "bx_sha256_final ctx =
     (let hs = sha256_h (bx_sha256_finalize ctx) in
      concat (map (\<lambda>i. bx_sha256_store_be32 (hs ! i)) [0..<8]))"

section \<open>SHA-256 as an incremental digest\<close>

definition sha256_view :: "bx_sha256_ctx \<Rightarrow> u32 list \<times> bytes" where
  "sha256_view c = (sha256_h c, sha256_buffer c)"

lemma sha256_update_buffered:
  "sha256_view (bx_sha256_update c d) = buffered_update 64 bx_sha256_transform (sha256_h c) (sha256_buffer c) d"
proof -
  have count: "absorb 64 bx_sha256_transform h x =
      ((if 0 < length x div 64 then absorb_count 64 bx_sha256_transform (length x div 64) h x else h),
       (if 0 < length x div 64 then drop (length x div 64 * 64) x else x))" for h x
    by (auto simp: absorb_count_eq)
  show ?thesis
    unfolding bx_sha256_update_def buffered_update_def sha256_view_def count
    by (simp only: Let_def split: prod.splits) auto
qed

interpretation sha256: block_digest 64 bx_sha256_transform bx_sha256_update sha256_view sha256_total_len "2 ^ 64"
proof unfold_locales
  show "(0::nat) < 64" by simp
next
  fix c d assume "length (snd (sha256_view c)) < 64"
  then show "sha256_view (bx_sha256_update c d) = stream_update 64 bx_sha256_transform (sha256_view c) d"
    unfolding sha256_update_buffered by (simp add: buffered_update_stream sha256_view_def)
next
  fix c d show "sha256_total_len (bx_sha256_update c d) = sha256_total_len c + of_nat (length d)"
    by (simp add: bx_sha256_update_def Let_def split: prod.splits)
next
  fix c c' :: bx_sha256_ctx
  assume "sha256_view c = sha256_view c'" and "sha256_total_len c = sha256_total_len c'"
  then show "c = c'" by (simp add: sha256_view_def)
qed

definition sha256_length_field :: "nat \<Rightarrow> bytes" where
  "sha256_length_field n = map (\<lambda>i. ucast (drop_bit ((7 - i) * 8) (of_nat n * 8 :: u64))) [0..<8]"

text \<open>The chaining value after a padded message, from a given initial value.\<close>

definition sha256_reference :: "u32 list \<Rightarrow> bytes \<Rightarrow> u32 list" where
  "sha256_reference h0 msg = fst (absorb 64 bx_sha256_transform h0
     (msg @ md_padding 64 8 (length msg mod 64) @ sha256_length_field (length msg)))"

lemma sha256_finalize_reference:
  assumes "sha256_view c0 = (h0, [])" and "sha256_total_len c0 = 0"
  shows "sha256_h (bx_sha256_finalize (bx_sha256_update c0 msg)) = sha256_reference h0 msg"
proof -
  let ?c = "bx_sha256_update c0 msg"
  have total: "sha256_total_len ?c = of_nat (length msg)"
    using assms(2) by (simp add: bx_sha256_update_def Let_def split: prod.splits)
  have "sha256_h (bx_sha256_finalize ?c) = fst (sha256_view (bx_sha256_update (bx_sha256_update ?c
      (md_padding 64 8 (length (snd (sha256_view ?c))))) (sha256_length_field (length msg))))"
    by (simp add: bx_sha256_finalize_def sha256_view_def md_padding_def md_pad_len_def
        sha256_length_field_def total Let_def)
  also have "\<dots> = sha256_reference h0 msg"
    by (subst sha256.padded_view [OF assms(1)]) (simp_all add: sha256_length_field_def sha256_reference_def)
  finally show ?thesis .
qed

lemma sha256_init_views:
  "sha256_view bx_sha256_init = (sha256_iv, [])" "sha256_total_len bx_sha256_init = 0"
  "sha256_view bx_sha224_init = (sha224_iv, [])" "sha256_total_len bx_sha224_init = 0"
  by (simp_all add: sha256_view_def bx_sha256_init_def bx_sha224_init_def)



end
