(* ===== verification/Sha512.thy ===== *)
theory Sha512
  imports BlockDigest
begin

text \<open>
  SHA-384 and SHA-512, \<open>src/src/crypto/sha512.c\<close>. The message length is the pair of 64-bit
  words the code keeps, with the carry between them.
\<close>

record bx_sha512_ctx =
  sha512_h :: "u64 list"
  sha512_total_len_hi :: u64
  sha512_total_len_lo :: u64
  sha512_buffer :: bytes

definition sha512_k :: "u64 list" where
  "sha512_k = [
     0x428A2F98D728AE22, 0x7137449123EF65CD, 0xB5C0FBCFEC4D3B2F, 0xE9B5DBA58189DBBC,
     0x3956C25BF348B538, 0x59F111F1B605D019, 0x923F82A4AF194F9B, 0xAB1C5ED5DA6D8118,
     0xD807AA98A3030242, 0x12835B0145706FBE, 0x243185BE4EE4B28C, 0x550C7DC3D5FFB4E2,
     0x72BE5D74F27B896F, 0x80DEB1FE3B1696B1, 0x9BDC06A725C71235, 0xC19BF174CF692694,
     0xE49B69C19EF14AD2, 0xEFBE4786384F25E3, 0x0FC19DC68B8CD5B5, 0x240CA1CC77AC9C65,
     0x2DE92C6F592B0275, 0x4A7484AA6EA6E483, 0x5CB0A9DCBD41FBD4, 0x76F988DA831153B5,
     0x983E5152EE66DFAB, 0xA831C66D2DB43210, 0xB00327C898FB213F, 0xBF597FC7BEEF0EE4,
     0xC6E00BF33DA88FC2, 0xD5A79147930AA725, 0x06CA6351E003826F, 0x142929670A0E6E70,
     0x27B70A8546D22FFC, 0x2E1B21385C26C926, 0x4D2C6DFC5AC42AED, 0x53380D139D95B3DF,
     0x650A73548BAF63DE, 0x766A0ABB3C77B2A8, 0x81C2C92E47EDAEE6, 0x92722C851482353B,
     0xA2BFE8A14CF10364, 0xA81A664BBC423001, 0xC24B8B70D0F89791, 0xC76C51A30654BE30,
     0xD192E819D6EF5218, 0xD69906245565A910, 0xF40E35855771202A, 0x106AA07032BBD1B8,
     0x19A4C116B8D2D0C8, 0x1E376C085141AB53, 0x2748774CDF8EEB99, 0x34B0BCB5E19B48A8,
     0x391C0CB3C5C95A63, 0x4ED8AA4AE3418ACB, 0x5B9CCA4F7763E373, 0x682E6FF3D6B2B8A3,
     0x748F82EE5DEFB2FC, 0x78A5636F43172F60, 0x84C87814A1F0AB72, 0x8CC702081A6439EC,
     0x90BEFFFA23631E28, 0xA4506CEBDE82BDE9, 0xBEF9A3F7B2C67915, 0xC67178F2E372532B,
     0xCA273ECEEA26619C, 0xD186B8C721C0C207, 0xEADA7DD6CDE0EB1E, 0xF57D4F7FEE6ED178,
     0x06F067AA72176FBA, 0x0A637DC5A2C898A6, 0x113F9804BEF90DAE, 0x1B710B35131C471B,
     0x28DB77F523047D84, 0x32CAAB7B40C72493, 0x3C9EBE0A15C9BEBC, 0x431D67C49C100D4C,
     0x4CC5D4BECB3E42B6, 0x597F299CFC657E2A, 0x5FCB6FAB3AD6FAEC, 0x6C44198C4A475817]"

definition bx_sha512_rotr64 :: "u64 \<Rightarrow> nat \<Rightarrow> u64" where
  "bx_sha512_rotr64 x shift = drop_bit shift x OR push_bit (64 - shift) x"

definition bx_sha512_load_be64 :: "bytes \<Rightarrow> u64" where
  "bx_sha512_load_be64 b =
     push_bit 56 (ucast (b ! 0)) OR push_bit 48 (ucast (b ! 1)) OR push_bit 40 (ucast (b ! 2))
     OR push_bit 32 (ucast (b ! 3)) OR push_bit 24 (ucast (b ! 4)) OR push_bit 16 (ucast (b ! 5))
     OR push_bit 8 (ucast (b ! 6)) OR ucast (b ! 7)"

definition bx_sha512_store_be64 :: "u64 \<Rightarrow> bytes" where
  "bx_sha512_store_be64 x =
     [ucast (drop_bit 56 x), ucast (drop_bit 48 x), ucast (drop_bit 40 x), ucast (drop_bit 32 x),
      ucast (drop_bit 24 x), ucast (drop_bit 16 x), ucast (drop_bit 8 x), ucast x]"

definition bx_sha512_ch :: "u64 \<Rightarrow> u64 \<Rightarrow> u64 \<Rightarrow> u64" where
  "bx_sha512_ch x y z = (x AND y) XOR (NOT x AND z)"

definition bx_sha512_maj :: "u64 \<Rightarrow> u64 \<Rightarrow> u64 \<Rightarrow> u64" where
  "bx_sha512_maj x y z = (x AND y) XOR (x AND z) XOR (y AND z)"

definition bx_sha512_big_sigma0 :: "u64 \<Rightarrow> u64" where
  "bx_sha512_big_sigma0 x = bx_sha512_rotr64 x 28 XOR bx_sha512_rotr64 x 34 XOR bx_sha512_rotr64 x 39"

definition bx_sha512_big_sigma1 :: "u64 \<Rightarrow> u64" where
  "bx_sha512_big_sigma1 x = bx_sha512_rotr64 x 14 XOR bx_sha512_rotr64 x 18 XOR bx_sha512_rotr64 x 41"

definition bx_sha512_small_sigma0 :: "u64 \<Rightarrow> u64" where
  "bx_sha512_small_sigma0 x = bx_sha512_rotr64 x 1 XOR bx_sha512_rotr64 x 8 XOR drop_bit 7 x"

definition bx_sha512_small_sigma1 :: "u64 \<Rightarrow> u64" where
  "bx_sha512_small_sigma1 x = bx_sha512_rotr64 x 19 XOR bx_sha512_rotr64 x 61 XOR drop_bit 6 x"

definition sha512_schedule :: "bytes \<Rightarrow> u64 list" where
  "sha512_schedule block =
     foldl (\<lambda>w i. w @ [bx_sha512_small_sigma1 (w ! (i - 2)) + w ! (i - 7)
                       + bx_sha512_small_sigma0 (w ! (i - 15)) + w ! (i - 16)])
       (map (\<lambda>i. bx_sha512_load_be64 (drop (i * 8) block)) [0..<16]) [16..<80]"

text \<open>The eight working variables \<open>a\<close> to \<open>h\<close>.\<close>

type_synonym sha512_vars = "u64 \<times> u64 \<times> u64 \<times> u64 \<times> u64 \<times> u64 \<times> u64 \<times> u64"

definition sha512_round :: "u64 list \<Rightarrow> sha512_vars \<Rightarrow> nat \<Rightarrow> sha512_vars" where
  "sha512_round w st i =
     (case st of (a, b, c, d, e, f, g, h) \<Rightarrow>
      let t1 = h + bx_sha512_big_sigma1 e + bx_sha512_ch e f g + sha512_k ! i + w ! i;
          t2 = bx_sha512_big_sigma0 a + bx_sha512_maj a b c
      in (t1 + t2, a, b, c, d + t1, e, f, g))"

definition bx_sha512_transform :: "u64 list \<Rightarrow> bytes \<Rightarrow> u64 list" where
  "bx_sha512_transform hs block =
     (let w = sha512_schedule block;
          st = (hs ! 0, hs ! 1, hs ! 2, hs ! 3, hs ! 4, hs ! 5, hs ! 6, hs ! 7) in
      case foldl (sha512_round w) st [0..<80] of (a, b, c, d, e, f, g, h) \<Rightarrow>
        [hs ! 0 + a, hs ! 1 + b, hs ! 2 + c, hs ! 3 + d, hs ! 4 + e, hs ! 5 + f, hs ! 6 + g, hs ! 7 + h])"

definition sha384_iv :: "u64 list" where
  "sha384_iv = [0xCBBB9D5DC1059ED8, 0x629A292A367CD507, 0x9159015A3070DD17, 0x152FECD8F70E5939,
     0x67332667FFC00B31, 0x8EB44A8768581511, 0xDB0C2E0D64F98FA7, 0x47B5481DBEFA4FA4]"

definition sha512_iv :: "u64 list" where
  "sha512_iv = [0x6A09E667F3BCC908, 0xBB67AE8584CAA73B, 0x3C6EF372FE94F82B, 0xA54FF53A5F1D36F1,
     0x510E527FADE682D1, 0x9B05688C2B3E6C1F, 0x1F83D9ABFB41BD6B, 0x5BE0CD19137E2179]"

definition bx_sha384_init :: bx_sha512_ctx where
  "bx_sha384_init = \<lparr>sha512_h = sha384_iv, sha512_total_len_hi = 0, sha512_total_len_lo = 0, sha512_buffer = []\<rparr>"

definition bx_sha512_init :: bx_sha512_ctx where
  "bx_sha512_init = \<lparr>sha512_h = sha512_iv, sha512_total_len_hi = 0, sha512_total_len_lo = 0, sha512_buffer = []\<rparr>"

definition bx_sha512_add_len :: "bx_sha512_ctx \<Rightarrow> size_t \<Rightarrow> bx_sha512_ctx" where
  "bx_sha512_add_len ctx len =
     (let prev_lo = sha512_total_len_lo ctx;
          ctx1 = ctx\<lparr>sha512_total_len_lo := prev_lo + len\<rparr>
      in if sha512_total_len_lo ctx1 < prev_lo
         then ctx1\<lparr>sha512_total_len_hi := sha512_total_len_hi ctx1 + 1\<rparr> else ctx1)"

definition bx_sha512_update :: "bx_sha512_ctx \<Rightarrow> bytes \<Rightarrow> bx_sha512_ctx" where
  "bx_sha512_update ctx0 data =
     (let ctx = bx_sha512_add_len ctx0 (of_nat (length data));
          k = min (128 - length (sha512_buffer ctx)) (length data);
          filled = sha512_buffer ctx @ take k data;
          (h1, buf1, data1) =
            (if 0 < length (sha512_buffer ctx) then
               if length filled = 128 then (bx_sha512_transform (sha512_h ctx) filled, [], drop k data)
               else (sha512_h ctx, filled, drop k data)
             else (sha512_h ctx, sha512_buffer ctx, data));
          (h2, rest) = absorb 128 bx_sha512_transform h1 data1
      in ctx\<lparr>sha512_h := h2, sha512_buffer := (if 0 < length rest then rest else buf1)\<rparr>)"

definition bx_sha512_finalize :: "bx_sha512_ctx \<Rightarrow> bx_sha512_ctx" where
  "bx_sha512_finalize ctx =
     (let total_bits_hi = push_bit 3 (sha512_total_len_hi ctx) OR drop_bit 61 (sha512_total_len_lo ctx);
          total_bits_lo = push_bit 3 (sha512_total_len_lo ctx);
          length_be = bx_sha512_store_be64 total_bits_hi @ bx_sha512_store_be64 total_bits_lo;
          pad = 0x80 # replicate 127 0;
          fill = length (sha512_buffer ctx);
          pad_len = (if fill < 112 then 112 - fill else 128 + 112 - fill)
      in bx_sha512_update (bx_sha512_update ctx (take pad_len pad)) length_be)"

definition bx_sha384_final :: "bx_sha512_ctx \<Rightarrow> bytes" where
  "bx_sha384_final ctx =
     (let hs = sha512_h (bx_sha512_finalize ctx) in
      concat (map (\<lambda>i. bx_sha512_store_be64 (hs ! i)) [0..<6]))"

definition bx_sha512_final :: "bx_sha512_ctx \<Rightarrow> bytes" where
  "bx_sha512_final ctx =
     (let hs = sha512_h (bx_sha512_finalize ctx) in
      concat (map (\<lambda>i. bx_sha512_store_be64 (hs ! i)) [0..<8]))"

section \<open>SHA-512 as an incremental digest\<close>

definition sha512_view :: "bx_sha512_ctx \<Rightarrow> u64 list \<times> bytes" where
  "sha512_view c = (sha512_h c, sha512_buffer c)"

text \<open>The two counter words as one 128-bit number.\<close>

definition sha512_count :: "bx_sha512_ctx \<Rightarrow> 128 word" where
  "sha512_count c = of_nat (unat (sha512_total_len_hi c) * 2 ^ 64 + unat (sha512_total_len_lo c))"

lemma sha512_add_len_fields [simp]:
  "sha512_h (bx_sha512_add_len c n) = sha512_h c"
  "sha512_buffer (bx_sha512_add_len c n) = sha512_buffer c"
  by (simp_all add: bx_sha512_add_len_def Let_def)

lemma sha512_update_buffered:
  "sha512_view (bx_sha512_update c d) = buffered_update 128 bx_sha512_transform (sha512_h c) (sha512_buffer c) d"
  by (auto simp: bx_sha512_update_def buffered_update_def sha512_view_def Let_def split: prod.splits)

lemma sha512_update_count_fields:
  "sha512_total_len_hi (bx_sha512_update c d) = sha512_total_len_hi (bx_sha512_add_len c (of_nat (length d)))"
  "sha512_total_len_lo (bx_sha512_update c d) = sha512_total_len_lo (bx_sha512_add_len c (of_nat (length d)))"
  by (simp_all add: bx_sha512_update_def Let_def split: prod.splits)

lemma of_nat_high_wrap: "(of_nat (a mod 2 ^ 64 * 2 ^ 64) :: 128 word) = of_nat (a * 2 ^ 64)"
proof -
  have "(a mod 2 ^ 64 * 2 ^ 64) mod 2 ^ 128 = (a * 2 ^ 64) mod (2 ^ 128 :: nat)"
  proof -
    have "(2 ^ 128 :: nat) = 2 ^ 64 * 2 ^ 64" by simp
    then show ?thesis by (simp only: mod_mult_mult2 mod_mod_trivial)
  qed
  then show ?thesis by (simp only: word_of_nat_eq_iff take_bit_eq_mod) simp
qed

lemma sha512_count_update:
  assumes "length d < 2 ^ 64"
  shows "sha512_count (bx_sha512_update c d) = sha512_count c + of_nat (length d)"
proof -
  define lo hi n where "lo = sha512_total_len_lo c" and "hi = sha512_total_len_hi c"
    and "n = (of_nat (length d) :: u64)"
  have n: "unat n = length d" using assms by (simp add: n_def)
  have lt: "unat lo < 2 ^ 64" "unat n < 2 ^ 64" by (rule unat_less_2p64)+
  show ?thesis
  proof (cases "unat lo + length d < 2 ^ 64")
    case True
    then have sum: "unat (lo + n) = unat lo + length d" by (simp add: unat_add_exact n)
    then have "\<not> lo + n < lo" by (simp add: word_less_nat_alt)
    then have "sha512_total_len_hi (bx_sha512_update c d) = hi"
      "sha512_total_len_lo (bx_sha512_update c d) = lo + n"
      by (simp_all add: sha512_update_count_fields bx_sha512_add_len_def Let_def lo_def hi_def n_def)
    then show ?thesis
      by (simp add: sha512_count_def sum lo_def [symmetric] hi_def [symmetric])
  next
    case False
    have sum: "unat (lo + n) + 2 ^ 64 = unat lo + length d"
      using False lt n by (simp add: unat_plus_if_size word_size)
    then have "lo + n < lo" using lt n by (simp add: word_less_nat_alt)
    then have f: "sha512_total_len_hi (bx_sha512_update c d) = hi + 1"
      "sha512_total_len_lo (bx_sha512_update c d) = lo + n"
      by (simp_all add: sha512_update_count_fields bx_sha512_add_len_def Let_def lo_def hi_def n_def)
    have "unat (hi + 1) = (unat hi + 1) mod 2 ^ 64" by (simp add: unat_word_ariths)
    then have "sha512_count (bx_sha512_update c d) =
        of_nat ((unat hi + 1) mod 2 ^ 64 * 2 ^ 64) + of_nat (unat (lo + n))"
      unfolding sha512_count_def f by (simp only: of_nat_add)
    also have "\<dots> = of_nat (unat hi * 2 ^ 64) + of_nat (unat (lo + n) + 2 ^ 64)"
      unfolding of_nat_high_wrap by (simp only: of_nat_add add_mult_distrib mult_1_left ac_simps)
    also have "\<dots> = sha512_count c + of_nat (length d)"
      unfolding sum by (simp only: sha512_count_def of_nat_add lo_def hi_def ac_simps)
    finally show ?thesis .
  qed
qed

lemma unat_of_nat_128: "n < 2 ^ 128 \<Longrightarrow> unat (of_nat n :: 128 word) = n"
  by (simp add: unat_of_nat take_bit_nat_eq_self_iff)

lemma sha512_count_inj:
  assumes "sha512_count c = sha512_count c'"
  shows "sha512_total_len_hi c = sha512_total_len_hi c'" and "sha512_total_len_lo c = sha512_total_len_lo c'"
proof -
  have small: "unat h * 2 ^ 64 + unat l < 2 ^ 128" for h l :: u64
    using unat_less_2p64 [of h] unat_less_2p64 [of l] by simp
  have eq: "unat (sha512_total_len_hi c) * 2 ^ 64 + unat (sha512_total_len_lo c) =
      unat (sha512_total_len_hi c') * 2 ^ 64 + unat (sha512_total_len_lo c')"
    (is "?x = ?y")
  proof -
    have "unat (of_nat ?x :: 128 word) = ?x" "unat (of_nat ?y :: 128 word) = ?y"
      by (rule unat_of_nat_128 [OF small])+
    then show ?thesis using assms unfolding sha512_count_def by metis
  qed
  have "(unat h * 2 ^ 64 + unat l) div 2 ^ 64 = unat h" "(unat h * 2 ^ 64 + unat l) mod 2 ^ 64 = unat l"
    for h l :: u64 using unat_less_2p64 [of l] by simp_all
  with eq show "sha512_total_len_hi c = sha512_total_len_hi c'" "sha512_total_len_lo c = sha512_total_len_lo c'"
    unfolding unat_eq_iff by metis+
qed

interpretation sha512: block_digest 128 bx_sha512_transform bx_sha512_update sha512_view sha512_count "2 ^ 64"
proof unfold_locales
  show "(0::nat) < 128" by simp
next
  fix c d assume "length (snd (sha512_view c)) < 128"
  then show "sha512_view (bx_sha512_update c d) = stream_update 128 bx_sha512_transform (sha512_view c) d"
    unfolding sha512_update_buffered by (simp add: buffered_update_stream sha512_view_def)
next
  fix d :: bytes and c assume "length d < 2 ^ 64"
  then show "sha512_count (bx_sha512_update c d) = sha512_count c + of_nat (length d)"
    by (rule sha512_count_update)
next
  fix c c' :: bx_sha512_ctx
  assume v: "sha512_view c = sha512_view c'" and "sha512_count c = sha512_count c'"
  with sha512_count_inj [of c c'] show "c = c'" by (simp add: sha512_view_def)
qed

text \<open>The bit length of the message as a 128-bit big-endian number.\<close>

definition sha512_length_field :: "nat \<Rightarrow> bytes" where
  "sha512_length_field n =
     bx_sha512_store_be64 (of_nat (8 * n div 2 ^ 64)) @ bx_sha512_store_be64 (of_nat (8 * n))"

definition sha512_reference :: "u64 list \<Rightarrow> bytes \<Rightarrow> u64 list" where
  "sha512_reference h0 msg = fst (absorb 128 bx_sha512_transform h0
     (msg @ md_padding 128 16 (length msg mod 128) @ sha512_length_field (length msg)))"

lemma sha512_finalize_reference:
  assumes "sha512_view c0 = (h0, [])" and "sha512_total_len_hi c0 = 0" and "sha512_total_len_lo c0 = 0"
    and "length msg < 2 ^ 64"
  shows "sha512_h (bx_sha512_finalize (bx_sha512_update c0 msg)) = sha512_reference h0 msg"
proof -
  let ?c = "bx_sha512_update c0 msg"
  have total: "sha512_total_len_hi ?c = 0" "sha512_total_len_lo ?c = of_nat (length msg)"
    using assms(2,3) by (simp_all add: sha512_update_count_fields bx_sha512_add_len_def Let_def)
  have "unat (drop_bit 61 (of_nat (length msg) :: u64)) = length msg div 2 ^ 61"
    using assms(4) by (simp add: drop_bit_eq_div unat_div)
  moreover have "8 * length msg div 2 ^ 64 = length msg div 2 ^ 61"
    using div_mult_mult1 [of 8 "length msg" "2 ^ 61 :: nat"] by simp
  moreover have "length msg div 2 ^ 61 < 2 ^ 64" using assms(4) by (simp add: div_less_iff_less_mult)
  ultimately have hi: "drop_bit 61 (of_nat (length msg) :: u64) = of_nat (8 * length msg div 2 ^ 64)"
    unfolding unat_eq_iff by (simp only: unat_of_nat_64)
  have lo: "push_bit 3 (of_nat (length msg) :: u64) = of_nat (8 * length msg)"
    by (simp add: push_bit_eq_mult)
  have "sha512_h (bx_sha512_finalize ?c) = fst (sha512_view (bx_sha512_update (bx_sha512_update ?c
      (md_padding 128 16 (length (snd (sha512_view ?c))))) (sha512_length_field (length msg))))"
    unfolding bx_sha512_finalize_def sha512_length_field_def total hi lo Let_def
    by (simp add: sha512_view_def md_padding_def md_pad_len_def)
  also have "\<dots> = sha512_reference h0 msg"
    by (subst sha512.padded_view [OF assms(1)])
      (simp_all add: sha512_length_field_def sha512_reference_def bx_sha512_store_be64_def)
  finally show ?thesis .
qed

lemma sha512_init_views:
  "sha512_view bx_sha512_init = (sha512_iv, [])" "sha512_total_len_hi bx_sha512_init = 0"
  "sha512_total_len_lo bx_sha512_init = 0"
  "sha512_view bx_sha384_init = (sha384_iv, [])" "sha512_total_len_hi bx_sha384_init = 0"
  "sha512_total_len_lo bx_sha384_init = 0"
  by (simp_all add: sha512_view_def bx_sha512_init_def bx_sha384_init_def)



end
