(* ===== verification/Crc32b.thy ===== *)
theory Crc32b
  imports Prelude
begin

text \<open>
  The CRC-32 of \<open>src/src/crypto/crc32b.c\<close>: the 256-entry table and the byte-wise update, shown
  equal to the bit-by-bit division. The AArch64 shortcut is absent from other builds.
\<close>

definition crc32b_bit_step :: "u32 \<Rightarrow> u32" where
  "crc32b_bit_step crc = drop_bit 1 crc XOR (if crc AND 1 \<noteq> 0 then 0xedb88320 else 0)"

definition bx_crc32b_make_table :: "u32 list" where
  "bx_crc32b_make_table = map (\<lambda>i. (crc32b_bit_step ^^ 8) (of_nat i)) [0..<256]"

definition bx_crc32b_init :: u32 where
  "bx_crc32b_init = - 1"

definition bx_crc32b_update :: "u32 \<Rightarrow> bytes \<Rightarrow> u32" where
  "bx_crc32b_update crc data =
     foldl (\<lambda>crc b. bx_crc32b_make_table ! unat ((crc XOR ucast b) AND 0xff) XOR drop_bit 8 crc) crc data"

definition bx_crc32b_final :: "u32 \<Rightarrow> u32" where
  "bx_crc32b_final crc = crc XOR - 1"

lemma bit_step_bits: "crc AND 1 \<noteq> 0 \<longleftrightarrow> bit (crc :: u32) 0"
  by (simp add: and_one_eq odd_iff_mod_2_eq_one bit_0)

lemma crc32b_step_linear: "crc32b_bit_step (x XOR y) = crc32b_bit_step x XOR crc32b_bit_step y"
  unfolding crc32b_bit_step_def bit_step_bits
  by (auto simp: bit_simps drop_bit_xor xor.assoc xor.left_commute)

lemma crc32b_steps_linear:
  "(crc32b_bit_step ^^ n) (x XOR y) = (crc32b_bit_step ^^ n) x XOR (crc32b_bit_step ^^ n) y"
  by (induction n) (simp_all add: crc32b_step_linear)

text \<open>While the low bits are zero the division only shifts.\<close>

lemma crc32b_steps_shift:
  assumes "take_bit 8 x = 0" and "n \<le> 8"
  shows "(crc32b_bit_step ^^ n) x = drop_bit n x"
  using assms(2)
proof (induction n)
  case (Suc n)
  have "\<not> bit x n"
  proof
    assume "bit x n"
    then have "bit (take_bit 8 x) n" using Suc.prems by (simp add: bit_take_bit_iff)
    with assms(1) show False by simp
  qed
  then have "crc32b_bit_step (drop_bit n x) = drop_bit (Suc n) x"
    unfolding crc32b_bit_step_def bit_step_bits by (simp add: bit_drop_bit_eq drop_bit_drop_bit)
  with Suc show ?case by simp
qed simp

lemma crc32b_split: "(crc32b_bit_step ^^ 8) x = (crc32b_bit_step ^^ 8) (x AND 0xff) XOR drop_bit 8 x"
proof -
  have ff: "(0xff :: u32) = mask 8" by (simp add: mask_eq_exp_minus_1)
  define hi where "hi = push_bit 8 (drop_bit 8 x)"
  have low: "x AND 0xff = take_bit 8 x" by (simp add: ff take_bit_eq_mask)
  have x: "x = take_bit 8 x XOR hi"
    by (rule bit_word_eqI) (auto simp: hi_def bit_simps)
  have "take_bit 8 hi = 0" by (simp add: hi_def take_bit_push_bit)
  then have "(crc32b_bit_step ^^ 8) hi = drop_bit 8 hi" by (rule crc32b_steps_shift) simp
  also have "\<dots> = drop_bit 8 x"
    unfolding hi_def by (rule bit_word_eqI) (auto simp: bit_simps dest: bit_imp_le_length)
  finally show ?thesis
    by (subst x) (simp only: crc32b_steps_linear low)
qed

lemma crc32b_table_entry:
  "unat w < 256 \<Longrightarrow> bx_crc32b_make_table ! unat w = (crc32b_bit_step ^^ 8) (w :: u32)"
  unfolding bx_crc32b_make_table_def by (subst nth_map) simp_all

text \<open>
  C3: the table-driven update is the bit-by-bit polynomial division: each byte is added to the low
  end of the register, which then takes eight shift-and-subtract steps.
\<close>

theorem crc32b_update_bitwise:
  "bx_crc32b_update crc data = foldl (\<lambda>crc b. (crc32b_bit_step ^^ 8) (crc XOR ucast b)) crc data"
proof -
  have "bx_crc32b_make_table ! unat ((crc XOR ucast b) AND 0xff) XOR drop_bit 8 crc =
      (crc32b_bit_step ^^ 8) (crc XOR ucast b)" for crc :: u32 and b :: u8
  proof -
    let ?x = "crc XOR ucast b"
    have ff: "(0xff :: u32) = mask 8" by (simp add: mask_eq_exp_minus_1)
    have "unat (take_bit 8 ?x) < 256"
      using take_bit_nat_less_exp [of 8 "unat ?x"] by (simp only: unsigned_take_bit_eq) simp
    then have "unat (?x AND 0xff) < 256" by (simp add: ff take_bit_eq_mask)
    then have "bx_crc32b_make_table ! unat (?x AND 0xff) = (crc32b_bit_step ^^ 8) (?x AND 0xff)"
      by (rule crc32b_table_entry)
    moreover have "drop_bit 8 ?x = drop_bit 8 crc"
      by (rule bit_word_eqI) (auto simp: bit_simps dest: bit_imp_le_length)
    ultimately show ?thesis using crc32b_split [of ?x] by simp
  qed
  then show ?thesis by (simp add: bx_crc32b_update_def)
qed

lemma crc32b_update_append:
  "bx_crc32b_update (bx_crc32b_update crc x) y = bx_crc32b_update crc (x @ y)"
  by (simp add: bx_crc32b_update_def)

end
