(* ===== verification/DigestUtil.thy ===== *)
theory DigestUtil
  imports Md5 Sha1 Sha256 Sha512
begin

text \<open>
  \<open>src/src/crypto/digest_util.c\<close>: hashing a descriptor in a read loop, and the hexadecimal
  lines of checksum files. What \<open>read\<close> returns is the environment of the loop: a list of
  results, one per call.
\<close>

section \<open>Hashing a descriptor\<close>

datatype read_result =
    Read_Data bytes \<comment> \<open>the bytes read; none at end of file\<close>
  | Read_Interrupted \<comment> \<open>-1 with \<open>EINTR\<close>\<close>
  | Read_Failed \<comment> \<open>-1 with any other error\<close>

text \<open>What the loop does with the results so far: it finished, it failed, or it still waits.\<close>

datatype digest_outcome = Digest_Done bytes | Digest_Error | Digest_Waiting

fun digest_fd_loop ::
  "('ctx \<Rightarrow> bytes \<Rightarrow> 'ctx) \<Rightarrow> ('ctx \<Rightarrow> bytes) \<Rightarrow> 'ctx \<Rightarrow> read_result list \<Rightarrow> digest_outcome" where
  "digest_fd_loop update_fn final_fn ctx [] = Digest_Waiting"
| "digest_fd_loop update_fn final_fn ctx (Read_Data buf # rs) =
     (if length buf = 0 then Digest_Done (final_fn ctx)
      else digest_fd_loop update_fn final_fn (update_fn ctx buf) rs)"
| "digest_fd_loop update_fn final_fn ctx (Read_Interrupted # rs) = digest_fd_loop update_fn final_fn ctx rs"
| "digest_fd_loop update_fn final_fn ctx (Read_Failed # rs) = Digest_Error"

definition bx_digest_fd ::
  "'ctx \<Rightarrow> ('ctx \<Rightarrow> bytes \<Rightarrow> 'ctx) \<Rightarrow> ('ctx \<Rightarrow> bytes) \<Rightarrow> read_result list \<Rightarrow> digest_outcome" where
  "bx_digest_fd init_ctx update_fn final_fn reads = digest_fd_loop update_fn final_fn init_ctx reads"

text \<open>
  \<open>open_read path\<close> is what opening the file gives: \<open>None\<close> when it fails, else the results its
  descriptor will return; \<open>stdin_reads\<close> are those of standard input.
\<close>

definition bx_digest_file ::
  "(string \<Rightarrow> read_result list option) \<Rightarrow> read_result list \<Rightarrow> 'ctx \<Rightarrow> ('ctx \<Rightarrow> bytes \<Rightarrow> 'ctx) \<Rightarrow>
   ('ctx \<Rightarrow> bytes) \<Rightarrow> string \<Rightarrow> digest_outcome" where
  "bx_digest_file open_read stdin_reads init_ctx update_fn final_fn path =
     (if path = ''-'' then bx_digest_fd init_ctx update_fn final_fn stdin_reads
      else case open_read path of
          None \<Rightarrow> Digest_Error
        | Some reads \<Rightarrow> bx_digest_fd init_ctx update_fn final_fn reads)"

text \<open>The data chunks of a list of read results, in order.\<close>

fun read_chunks :: "read_result list \<Rightarrow> bytes list" where
  "read_chunks [] = []"
| "read_chunks (Read_Data buf # rs) = buf # read_chunks rs"
| "read_chunks (_ # rs) = read_chunks rs"

definition data_or_interrupt :: "read_result \<Rightarrow> bool" where
  "data_or_interrupt r = (case r of Read_Data buf \<Rightarrow> buf \<noteq> [] | Read_Interrupted \<Rightarrow> True | Read_Failed \<Rightarrow> False)"

lemma digest_fd_loop_chunks:
  "list_all data_or_interrupt rs \<Longrightarrow>
     digest_fd_loop u f c (rs @ Read_Data [] # rest) = Digest_Done (f (foldl u c (read_chunks rs)))"
proof (induction rs arbitrary: c)
  case (Cons r rs)
  then show ?case by (cases r) (simp_all add: data_or_interrupt_def)
qed simp

text \<open>
  The SHA-256 of a descriptor is that of its content: however \<open>read\<close> cuts the content into
  short reads, and however often it is interrupted in between, the loop ends at end of file with
  the digest of the concatenated data.
\<close>

lemma digest_fd_sha256:
  assumes "list_all data_or_interrupt rs" and "read_chunks rs \<noteq> []"
    and "length (concat (read_chunks rs)) < 2 ^ 64"
  shows "bx_digest_fd bx_sha256_init bx_sha256_update bx_sha256_final (rs @ Read_Data [] # rest) =
    Digest_Done (bx_sha256_final (bx_sha256_update bx_sha256_init (concat (read_chunks rs))))"
proof -
  have "foldl bx_sha256_update bx_sha256_init (read_chunks rs) =
      bx_sha256_update bx_sha256_init (concat (read_chunks rs))"
    using assms(2,3) by (intro sha256.updates_concat) (simp_all add: sha256_init_views)
  with assms(1) show ?thesis by (simp add: bx_digest_fd_def digest_fd_loop_chunks)
qed

theorem digest_fd_sha256_witness:
  "bx_digest_fd bx_sha256_init bx_sha256_update bx_sha256_final
     ([Read_Data [0x61], Read_Interrupted, Read_Data [0x62, 0x63]] @ Read_Data [] # []) =
   Digest_Done (bx_sha256_final (bx_sha256_update bx_sha256_init
     (concat (read_chunks [Read_Data [0x61], Read_Interrupted, Read_Data [0x62, 0x63]]))))"
  by (rule digest_fd_sha256) (simp_all add: data_or_interrupt_def)

lemma digest_fd_error:
  "list_all data_or_interrupt rs \<Longrightarrow> bx_digest_fd c u f (rs @ Read_Failed # rest) = Digest_Error"
proof (induction rs arbitrary: c)
  case (Cons r rs)
  then show ?case by (cases r) (simp_all add: data_or_interrupt_def bx_digest_fd_def)
qed (simp add: bx_digest_fd_def)

section \<open>Hexadecimal\<close>

definition bx_digest_hex_value :: "char \<Rightarrow> int" where
  "bx_digest_hex_value ch =
     (if ch \<ge> CHR ''0'' \<and> ch \<le> CHR ''9'' then of_char ch - of_char CHR ''0''
      else if ch \<ge> CHR ''a'' \<and> ch \<le> CHR ''f'' then of_char ch - of_char CHR ''a'' + 10
      else if ch \<ge> CHR ''A'' \<and> ch \<le> CHR ''F'' then of_char ch - of_char CHR ''A'' + 10
      else -1)"

definition hex_digit :: "u8 \<Rightarrow> char" where
  "hex_digit i = ''0123456789abcdef'' ! unat i"

fun bx_hex_encode_lower :: "bytes \<Rightarrow> string" where
  "bx_hex_encode_lower [] = []"
| "bx_hex_encode_lower (b # bs) = hex_digit (drop_bit 4 b) # hex_digit (b AND 0x0f) # bx_hex_encode_lower bs"

section \<open>Checksum lines\<close>

record bx_checksum_record =
  cr_digest :: bytes
  cr_binary_mode :: bool
  cr_filename :: string

definition hex_byte :: "int \<Rightarrow> int \<Rightarrow> u8" where
  "hex_byte hi lo = word_of_int (push_bit 4 hi OR lo)"

text \<open>The loop over the digest: \<open>n\<close> bytes from the text, two characters each.\<close>

fun parse_check_digest :: "nat \<Rightarrow> string \<Rightarrow> bytes option" where
  "parse_check_digest 0 line = Some []"
| "parse_check_digest (Suc n) line =
     (let hi = bx_digest_hex_value (line ! 0); lo = bx_digest_hex_value (line ! 1) in
      if hi < 0 \<or> lo < 0 then None
      else case parse_check_digest n (drop 2 line) of
          None \<Rightarrow> None
        | Some ds \<Rightarrow> Some (hex_byte hi lo # ds))"

definition bx_parse_check_line :: "string \<Rightarrow> nat \<Rightarrow> bx_checksum_record option" where
  "bx_parse_check_line line digest_len =
     (let hex_len = digest_len * 2 in
      if digest_len = 0 \<or> digest_len > 64 then None
      else if length line < hex_len + 2 then None
      else case parse_check_digest digest_len line of
          None \<Rightarrow> None
        | Some ds \<Rightarrow>
            if line ! hex_len \<noteq> CHR '' '' then None
            else if line ! (hex_len + 1) = CHR ''*'' then
              (let name = drop (hex_len + 2) line in
               if name = [] then None
               else Some \<lparr>cr_digest = ds, cr_binary_mode = True, cr_filename = name\<rparr>)
            else if line ! (hex_len + 1) = CHR '' '' then
              (let name = drop (hex_len + 2) line in
               if name = [] then None
               else Some \<lparr>cr_digest = ds, cr_binary_mode = False, cr_filename = name\<rparr>)
            else None)"

lemma length_hex_encode [simp]: "length (bx_hex_encode_lower ds) = 2 * length ds"
  by (induction ds rule: bx_hex_encode_lower.induct) simp_all

lemma hex_value_digit: "i < 16 \<Longrightarrow> bx_digest_hex_value (''0123456789abcdef'' ! i) = int i"
proof -
  have "list_all (\<lambda>i. bx_digest_hex_value (''0123456789abcdef'' ! i) = int i) [0..<16]"
    by code_simp
  then show "i < 16 \<Longrightarrow> bx_digest_hex_value (''0123456789abcdef'' ! i) = int i"
    by (simp add: list_all_iff)
qed

lemma nibble_bounds: "unat (drop_bit 4 b) < 16" "unat (b AND 0x0f) < 16" for b :: u8
proof -
  have "unat b < 256" by (rule unat_less_2p8)
  then show "unat (drop_bit 4 b) < 16" by (simp add: drop_bit_eq_div unat_div)
  have "(b AND 0x0f) \<le> 0x0f" by (rule word_and_le1)
  then show "unat (b AND 0x0f) < 16" by (simp add: word_le_nat_alt)
qed

lemma hex_value_nibbles [simp]:
  "bx_digest_hex_value (hex_digit (drop_bit 4 b)) = uint (drop_bit 4 b)"
  "bx_digest_hex_value (hex_digit (b AND 0x0f)) = uint (b AND 0x0f)"
  unfolding hex_digit_def by (simp_all only: hex_value_digit nibble_bounds of_nat_unat)

lemma hex_byte_nibbles [simp]: "hex_byte (uint (drop_bit 4 b)) (uint (b AND 0x0f)) = b"
  unfolding hex_byte_def u8_masks by (rule u8_eqI; simp add: bit_simps)

lemma parse_check_digest_encode:
  "parse_check_digest (length ds) (bx_hex_encode_lower ds @ rest) = Some ds"
  by (induction ds rule: bx_hex_encode_lower.induct) (simp_all add: Let_def not_less)

text \<open>
  A checksum line written from a digest of 1 to 64 bytes, either separator and a non-empty file
  name parses back to exactly these three parts.
\<close>

lemma parse_check_line_roundtrip:
  assumes "ds \<noteq> []" and "length ds \<le> 64" and "name \<noteq> []"
  shows "bx_parse_check_line
      (bx_hex_encode_lower ds @ CHR '' '' # (if binary then CHR ''*'' else CHR '' '') # name) (length ds) =
    Some \<lparr>cr_digest = ds, cr_binary_mode = binary, cr_filename = name\<rparr>"
  using assms
  by (simp add: bx_parse_check_line_def parse_check_digest_encode nth_append Let_def mult.commute)

theorem parse_check_line_roundtrip_witness:
  "bx_parse_check_line
      (bx_hex_encode_lower [0xd4, 0x1d] @ CHR '' '' # (if True then CHR ''*'' else CHR '' '') # ''a.txt'')
      (length [0xd4 :: u8, 0x1d]) =
    Some \<lparr>cr_digest = [0xd4, 0x1d], cr_binary_mode = True, cr_filename = ''a.txt''\<rparr>"
  by (rule parse_check_line_roundtrip) simp_all

end
