(* ===== verification/ContextRoll.thy ===== *)
theory ContextRoll
  imports Prelude
begin

text \<open>
  \<open>src/src/search/context_roll.c\<close>: the buffer that holds the last \<open>max_records\<close> lines before a
  match (the context of \<open>-B\<close>). The texts live in one byte array and the entries in another; both
  are consumed from the front and compacted or grown when the tail is reached. A \<open>size_t\<close> is a
  natural number here: the invariant \<open>roll_inv\<close>, which every operation keeps, bounds all indices by
  capacities that are at most \<open>SIZE_MAX\<close> bytes, and the additions that could pass it are the ones
  the code guards.
\<close>

section \<open>The buffer and its operations\<close>

record context_record =
  rec_text :: bytes
  rec_len :: nat
  rec_byte_offset :: nat
  rec_line_number :: nat

record context_entry =
  byte_index :: nat
  entry_len :: nat
  entry_byte_offset :: nat
  entry_line_number :: nat

record context_roll =
  roll_bytes :: bytes
  bytes_front :: nat
  bytes_len :: nat
  bytes_cap :: nat
  roll_entries :: "context_entry list"
  entries_front :: nat
  entries_len :: nat
  entries_cap :: nat

abbreviation INITIAL_BYTE_CAP :: nat where
  "INITIAL_BYTE_CAP \<equiv> 4096"

abbreviation INITIAL_ENTRY_CAP :: nat where
  "INITIAL_ENTRY_CAP \<equiv> 8"

text \<open>\<open>sizeof (struct bx_search_context_entry)\<close>: four \<open>size_t\<close>.\<close>

abbreviation ENTRY_SIZE :: nat where
  "ENTRY_SIZE \<equiv> 32"

definition active_bytes :: "context_roll \<Rightarrow> nat" where
  "active_bytes roll = (if bytes_len roll < bytes_front roll then 0 else bytes_len roll - bytes_front roll)"

definition active_entries :: "context_roll \<Rightarrow> nat" where
  "active_entries roll =
     (if entries_len roll < entries_front roll then 0 else entries_len roll - entries_front roll)"

definition roll_clear :: "context_roll \<Rightarrow> context_roll" where
  "roll_clear roll = roll\<lparr>bytes_front := 0, bytes_len := 0, entries_front := 0, entries_len := 0\<rparr>"

text \<open>The structure zeroed by \<open>memset\<close>, which is also how every user starts.\<close>

definition roll_zero :: context_roll where
  "roll_zero = \<lparr>roll_bytes = [], bytes_front = 0, bytes_len = 0, bytes_cap = 0,
     roll_entries = [], entries_front = 0, entries_len = 0, entries_cap = 0\<rparr>"

definition roll_dispose :: "context_roll \<Rightarrow> context_roll" where
  "roll_dispose roll = roll_zero"

definition roll_count :: "context_roll \<Rightarrow> nat" where
  "roll_count roll = active_entries roll"

definition roll_pop_front :: "context_roll \<Rightarrow> context_roll" where
  "roll_pop_front roll =
     (if active_entries roll = 0 then roll
      else
        let entry = roll_entries roll ! entries_front roll;
            roll1 = roll\<lparr>entries_front := entries_front roll + 1,
                         bytes_front := byte_index entry + entry_len entry\<rparr>
        in if entries_front roll1 = entries_len roll1 then roll_clear roll1 else roll1)"

text \<open>
  The doubling loop. Both callers start from a positive capacity; the test for 0 only makes the
  recursion total.
\<close>

function double_target :: "nat \<Rightarrow> nat \<Rightarrow> nat" where
  "double_target needed target =
     (if target < needed \<and> target \<noteq> 0 then
        if target > size_max div 2 then needed else double_target needed (target * 2)
      else target)"
  by pat_completeness auto
termination by (relation "measure (\<lambda>(needed, target). needed - target)") auto

declare double_target.simps [simp del]

definition shift_entry :: "nat \<Rightarrow> context_entry \<Rightarrow> context_entry" where
  "shift_entry k entry = entry\<lparr>byte_index := byte_index entry - k\<rparr>"

definition compact_bytes :: "context_roll \<Rightarrow> context_roll" where
  "compact_bytes roll =
     (if bytes_front roll = 0 then roll
      else
        let active = active_bytes roll;
            moved = (if active > 0 then memmove_front (bytes_front roll) active (roll_bytes roll)
                     else roll_bytes roll);
            entries = take (entries_front roll) (roll_entries roll) @
              map (shift_entry (bytes_front roll))
                (take (entries_len roll - entries_front roll) (drop (entries_front roll) (roll_entries roll))) @
              drop (entries_len roll) (roll_entries roll)
        in roll\<lparr>roll_bytes := moved, roll_entries := entries, bytes_front := 0, bytes_len := active\<rparr>)"

definition reserve_bytes :: "(nat \<Rightarrow> bool) \<Rightarrow> u8 \<Rightarrow> context_roll \<Rightarrow> nat \<Rightarrow> bool \<times> context_roll" where
  "reserve_bytes avail junk roll append_len =
     (if append_len \<le> bytes_cap roll - bytes_len roll then (True, roll)
      else
        let active = active_bytes roll in
        if append_len > size_max - active then (False, roll)
        else
          let needed = active + append_len in
          if bytes_front roll > 0 \<and> needed \<le> bytes_cap roll div 2 then (True, compact_bytes roll)
          else
            let roll1 = compact_bytes roll;
                target1 = double_target needed INITIAL_BYTE_CAP;
                target = (if needed \<le> size_max div 2 \<and> target1 < needed * 2 then needed * 2 else target1)
            in case realloc_array avail junk (roll_bytes roll1) target of
                None \<Rightarrow> (False, roll1)
              | Some grown \<Rightarrow> (True, roll1\<lparr>roll_bytes := grown, bytes_cap := target\<rparr>))"

definition compact_entries :: "context_roll \<Rightarrow> context_roll" where
  "compact_entries roll =
     (if entries_front roll = 0 then roll
      else
        let active = active_entries roll;
            moved = (if active > 0 then memmove_front (entries_front roll) active (roll_entries roll)
                     else roll_entries roll)
        in roll\<lparr>roll_entries := moved, entries_front := 0, entries_len := active\<rparr>)"

definition reserve_entry :: "(nat \<Rightarrow> bool) \<Rightarrow> context_entry \<Rightarrow> context_roll \<Rightarrow> bool \<times> context_roll" where
  "reserve_entry avail junk roll =
     (if entries_len roll < entries_cap roll then (True, roll)
      else
        let active = active_entries roll; needed = active + 1 in
        if entries_front roll > 0 \<and> needed \<le> entries_cap roll div 2 then (True, compact_entries roll)
        else
          let roll1 = compact_entries roll; target = double_target needed INITIAL_ENTRY_CAP in
          if target > size_max div ENTRY_SIZE then (False, roll1)
          else case realloc_array (\<lambda>n. avail (n * ENTRY_SIZE)) junk (roll_entries roll1) target of
              None \<Rightarrow> (False, roll1)
            | Some grown \<Rightarrow> (True, roll1\<lparr>roll_entries := grown, entries_cap := target\<rparr>))"

text \<open>The eviction loop of \<open>push\<close>; it runs with \<open>max_records > 0\<close> only.\<close>

function evict_for :: "nat \<Rightarrow> context_roll \<Rightarrow> context_roll" where
  "evict_for max_records roll =
     (if active_entries roll \<ge> max_records \<and> active_entries roll \<noteq> 0
      then evict_for max_records (roll_pop_front roll) else roll)"
  by pat_completeness auto
termination
  by (relation "measure (\<lambda>(m, roll). active_entries roll)")
    (auto simp: roll_pop_front_def roll_clear_def active_entries_def Let_def split: if_splits)

declare evict_for.simps [simp del]

text \<open>Junk cells of fresh memory: one byte and one entry.\<close>

record roll_alloc =
  avail :: "nat \<Rightarrow> bool"
  junk_byte :: u8
  junk_entry :: context_entry

definition roll_push ::
  "roll_alloc \<Rightarrow> context_roll \<Rightarrow> bytes \<Rightarrow> nat \<Rightarrow> nat \<Rightarrow> nat \<Rightarrow> bool \<times> context_roll" where
  "roll_push mem roll txt byte_offset line_number max_records =
     (if max_records = 0 then (True, roll_clear roll)
      else
        let len = length txt; roll1 = evict_for max_records roll in
        case reserve_entry (avail mem) (junk_entry mem) roll1 of (ok2, roll2) \<Rightarrow>
        if \<not> ok2 then (False, roll2)
        else case reserve_bytes (avail mem) (junk_byte mem) roll2 len of (ok3, roll3) \<Rightarrow>
        if \<not> ok3 then (False, roll3)
        else
          let entry = \<lparr>byte_index = bytes_len roll3, entry_len = len,
                entry_byte_offset = byte_offset, entry_line_number = line_number\<rparr>
          in (True, roll3\<lparr>
                roll_entries := (roll_entries roll3)[entries_len roll3 := entry],
                entries_len := entries_len roll3 + 1,
                roll_bytes := (if len > 0 then memcpy_at (roll_bytes roll3) (bytes_len roll3) txt
                               else roll_bytes roll3),
                bytes_len := bytes_len roll3 + len\<rparr>))"

definition roll_get :: "context_roll \<Rightarrow> nat \<Rightarrow> context_record option" where
  "roll_get roll index =
     (if index \<ge> active_entries roll then None
      else
        let entry = roll_entries roll ! (entries_front roll + index) in
        Some \<lparr>rec_text = (if entry_len entry > 0
                         then take (entry_len entry) (drop (byte_index entry) (roll_bytes roll)) else []),
              rec_len = entry_len entry, rec_byte_offset = entry_byte_offset entry,
              rec_line_number = entry_line_number entry\<rparr>)"

section \<open>What the buffer holds\<close>

text \<open>The entries in use, the bytes in use, and the records they describe, oldest first.\<close>

definition roll_active :: "context_roll \<Rightarrow> context_entry list" where
  "roll_active roll = take (entries_len roll - entries_front roll) (drop (entries_front roll) (roll_entries roll))"

definition roll_region :: "context_roll \<Rightarrow> bytes" where
  "roll_region roll = take (bytes_len roll - bytes_front roll) (drop (bytes_front roll) (roll_bytes roll))"

fun cut_records :: "context_entry list \<Rightarrow> bytes \<Rightarrow> context_record list" where
  "cut_records [] bs = []"
| "cut_records (e # es) bs =
     \<lparr>rec_text = take (entry_len e) bs, rec_len = entry_len e, rec_byte_offset = entry_byte_offset e,
      rec_line_number = entry_line_number e\<rparr> # cut_records es (drop (entry_len e) bs)"

definition roll_view :: "context_roll \<Rightarrow> context_record list" where
  "roll_view roll = cut_records (roll_active roll) (roll_region roll)"

text \<open>The entries lie end to end from \<open>p\<close> to \<open>q\<close>.\<close>

fun chained :: "nat \<Rightarrow> context_entry list \<Rightarrow> nat \<Rightarrow> bool" where
  "chained p [] q \<longleftrightarrow> p = q"
| "chained p (e # es) q \<longleftrightarrow> byte_index e = p \<and> chained (p + entry_len e) es q"

definition roll_inv :: "context_roll \<Rightarrow> bool" where
  "roll_inv roll \<longleftrightarrow>
     bytes_front roll \<le> bytes_len roll \<and> bytes_len roll \<le> bytes_cap roll \<and>
     length (roll_bytes roll) = bytes_cap roll \<and> bytes_cap roll \<le> size_max \<and>
     entries_front roll \<le> entries_len roll \<and> entries_len roll \<le> entries_cap roll \<and>
     length (roll_entries roll) = entries_cap roll \<and> entries_cap roll * ENTRY_SIZE \<le> size_max \<and>
     chained (bytes_front roll) (roll_active roll) (bytes_len roll)"

lemmas roll_view_defs = roll_view_def roll_active_def roll_region_def

lemma active_entries_eq: "roll_inv r \<Longrightarrow> active_entries r = entries_len r - entries_front r"
  and active_bytes_eq: "roll_inv r \<Longrightarrow> active_bytes r = bytes_len r - bytes_front r"
  by (auto simp: active_entries_def active_bytes_def roll_inv_def)

lemma length_roll_active: "roll_inv r \<Longrightarrow> length (roll_active r) = active_entries r"
  by (auto simp: roll_active_def active_entries_eq roll_inv_def)

lemma length_cut_records [simp]: "length (cut_records es bs) = length es"
  by (induction es arbitrary: bs) simp_all

lemma length_roll_view: "roll_inv r \<Longrightarrow> length (roll_view r) = active_entries r"
  by (simp add: roll_view_def length_roll_active)

lemma chained_append: "chained p (xs @ ys) q \<longleftrightarrow> (\<exists>m. chained p xs m \<and> chained m ys q)"
  by (induction xs arbitrary: p) auto

lemma chained_mono: "chained p es q \<Longrightarrow> p \<le> q"
  by (induction es arbitrary: p) fastforce+

lemma chained_sum: "chained p es q \<Longrightarrow> q = p + sum_list (map entry_len es)"
proof (induction es arbitrary: p)
  case (Cons e es)
  from Cons.prems show ?case by (auto dest: Cons.IH)
qed simp

lemma cut_records_append:
  "sum_list (map entry_len es) \<le> length bs \<Longrightarrow>
     cut_records (es @ es') (bs @ bs') =
     cut_records es bs @ cut_records es' (drop (sum_list (map entry_len es)) bs @ bs')"
  by (induction es arbitrary: bs) (simp_all add: add.commute)

lemma shift_entry_simps [simp]:
  "byte_index (shift_entry k e) = byte_index e - k" "entry_len (shift_entry k e) = entry_len e"
  "entry_byte_offset (shift_entry k e) = entry_byte_offset e"
  "entry_line_number (shift_entry k e) = entry_line_number e"
  by (simp_all add: shift_entry_def)

lemma chained_shift:
  "k \<le> p \<Longrightarrow> chained p es q \<Longrightarrow> chained (p - k) (map (shift_entry k) es) (q - k)"
proof (induction es arbitrary: p)
  case (Cons e es)
  then have "chained (p + entry_len e - k) (map (shift_entry k) es) (q - k)"
    by (intro Cons.IH) auto
  then show ?case using Cons.prems by simp
qed simp

lemma cut_records_shift [simp]: "cut_records (map (shift_entry k) es) bs = cut_records es bs"
  by (induction es arbitrary: bs) simp_all

section \<open>The steps keep the invariant and the view\<close>

lemma roll_clear_ok:
  assumes "roll_inv r"
  shows "roll_inv (roll_clear r)" and "roll_view (roll_clear r) = []" and "active_entries (roll_clear r) = 0"
  using assms by (simp_all add: roll_inv_def roll_clear_def roll_view_defs active_entries_def)

lemma roll_active_Cons:
  assumes "roll_inv r" and "active_entries r \<noteq> 0"
  shows "roll_active r = roll_entries r ! entries_front r #
    take (entries_len r - Suc (entries_front r)) (drop (Suc (entries_front r)) (roll_entries r))"
proof -
  have "entries_front r < entries_len r" and "entries_front r < length (roll_entries r)"
    using assms by (auto simp: active_entries_def roll_inv_def split: if_splits)
  then show ?thesis
    unfolding roll_active_def
    by (metis Cons_nth_drop_Suc Suc_diff_Suc take_Suc_Cons)
qed

lemma roll_pop_front_ok:
  assumes inv: "roll_inv r" and ne: "active_entries r \<noteq> 0"
  shows "roll_inv (roll_pop_front r)" and "roll_view (roll_pop_front r) = tl (roll_view r)"
    and "active_entries (roll_pop_front r) = active_entries r - 1"
proof -
  let ?e = "roll_entries r ! entries_front r"
  let ?r1 = "r\<lparr>entries_front := entries_front r + 1, bytes_front := byte_index ?e + entry_len ?e\<rparr>"
  note act = roll_active_Cons [OF inv ne]
  have lt: "entries_front r < entries_len r"
    using ne by (auto simp: active_entries_def split: if_splits)
  have tl: "roll_active ?r1 = tl (roll_active r)"
    unfolding act by (simp add: roll_active_def)
  have ch: "byte_index ?e = bytes_front r"
    "chained (bytes_front r + entry_len ?e) (tl (roll_active r)) (bytes_len r)"
    using inv unfolding roll_inv_def act by simp_all
  have le: "bytes_front r + entry_len ?e \<le> bytes_len r"
    using chained_mono [OF ch(2)] .
  have inv1: "roll_inv ?r1"
    using inv ch le lt tl unfolding roll_inv_def by simp
  have region: "roll_region ?r1 = drop (entry_len ?e) (roll_region r)"
    using ch by (simp add: roll_region_def drop_take ac_simps)
  have view1: "roll_view ?r1 = tl (roll_view r)"
    unfolding roll_view_def tl region by (simp add: act)
  have cnt: "active_entries ?r1 = active_entries r - 1"
    using inv1 inv by (simp add: active_entries_eq)
  have pop: "roll_pop_front r = (if entries_front r + 1 = entries_len r then roll_clear ?r1 else ?r1)"
    using ne by (simp add: roll_pop_front_def Let_def)
  have nil: "tl (roll_view r) = []" "active_entries r - 1 = 0" if "entries_front r + 1 = entries_len r"
  proof -
    show "active_entries r - 1 = 0" using that by (simp add: active_entries_eq inv)
    then show "tl (roll_view r) = []"
      using length_roll_view [OF inv1] view1 cnt by (metis length_0_conv)
  qed
  show "roll_inv (roll_pop_front r)"
    using inv1 pop roll_clear_ok(1) by auto
  show "roll_view (roll_pop_front r) = tl (roll_view r)"
    using pop view1 nil roll_clear_ok(2) [OF inv1] by metis
  show "active_entries (roll_pop_front r) = active_entries r - 1"
    using pop cnt nil roll_clear_ok(3) [OF inv1] by metis
qed

lemma evict_for_ok:
  assumes "roll_inv r" and "0 < m"
  shows "roll_inv (evict_for m r) \<and> active_entries (evict_for m r) < m \<and>
    roll_view (evict_for m r) = drop (length (roll_view r) - (m - 1)) (roll_view r)"
  using assms
proof (induction m r rule: evict_for.induct)
  case (1 m r)
  show ?case
  proof (cases "m \<le> active_entries r")
    case True
    with 1 have ne: "active_entries r \<noteq> 0" by simp
    note pop = roll_pop_front_ok [OF \<open>roll_inv r\<close> ne]
    have IH: "roll_inv (evict_for m (roll_pop_front r)) \<and> active_entries (evict_for m (roll_pop_front r)) < m \<and>
      roll_view (evict_for m (roll_pop_front r)) =
        drop (length (roll_view (roll_pop_front r)) - (m - 1)) (roll_view (roll_pop_front r))"
      using 1 True ne pop(1) by blast
    moreover have "evict_for m r = evict_for m (roll_pop_front r)"
      using True ne by (subst evict_for.simps) simp
    moreover have "drop (length (tl v) - (m - 1)) (tl v) = drop (length v - (m - 1)) v"
      if "m \<le> length v" for v :: "context_record list"
      using that \<open>0 < m\<close> by (cases v) (auto simp: Suc_diff_le)
    ultimately show ?thesis
      using pop True length_roll_view [OF \<open>roll_inv r\<close>] by metis
  next
    case False
    then have "evict_for m r = r" by (subst evict_for.simps) simp
    with False 1 show ?thesis by (simp add: length_roll_view)
  qed
qed

lemma double_target_bounds:
  assumes "0 < t" and "t \<le> size_max" and "needed \<le> size_max"
  shows "needed \<le> double_target needed t \<and> double_target needed t \<le> size_max"
  using assms
proof (induction needed t rule: double_target.induct)
  case (1 needed t)
  show ?case
  proof (cases "t < needed \<and> \<not> t > size_max div 2")
    case True
    with 1 have "needed \<le> double_target needed (t * 2) \<and> double_target needed (t * 2) \<le> size_max"
      by (intro "1.IH") auto
    moreover have "double_target needed t = double_target needed (t * 2)"
      using True \<open>0 < t\<close> by (subst double_target.simps) simp
    ultimately show ?thesis by simp
  next
    case False
    with 1 show ?thesis by (subst (1 2) double_target.simps) auto
  qed
qed

lemma compact_entries_ok:
  assumes inv: "roll_inv r"
  shows "roll_inv (compact_entries r)" and "roll_view (compact_entries r) = roll_view r"
    and "active_entries (compact_entries r) = active_entries r"
    and "entries_len (compact_entries r) = active_entries r" and "entries_cap (compact_entries r) = entries_cap r"
proof -
  let ?n = "entries_len r - entries_front r"
  have n: "active_entries r = ?n" by (rule active_entries_eq [OF inv])
  have le: "entries_front r + ?n \<le> length (roll_entries r)"
    using inv by (auto simp: roll_inv_def)
  have act: "roll_active (compact_entries r) = roll_active r"
    using le by (auto simp: compact_entries_def roll_active_def n Let_def)
  have reg: "roll_region (compact_entries r) = roll_region r"
    by (simp add: compact_entries_def roll_region_def Let_def)
  show "roll_view (compact_entries r) = roll_view r"
    by (simp add: roll_view_def act reg)
  show len: "entries_len (compact_entries r) = active_entries r"
    and cap: "entries_cap (compact_entries r) = entries_cap r"
    by (simp_all add: compact_entries_def n Let_def)
  show inv': "roll_inv (compact_entries r)"
    using inv le act len unfolding roll_inv_def by (auto simp: compact_entries_def n Let_def split: if_splits)
  show "active_entries (compact_entries r) = active_entries r"
    using length_roll_active [OF inv'] length_roll_active [OF inv] act by simp
qed

lemma compact_bytes_ok:
  assumes inv: "roll_inv r"
  shows "roll_inv (compact_bytes r)" and "roll_view (compact_bytes r) = roll_view r"
    and "entries_len (compact_bytes r) = entries_len r" and "entries_front (compact_bytes r) = entries_front r"
    and "entries_cap (compact_bytes r) = entries_cap r"
    and "bytes_len (compact_bytes r) = active_bytes r" and "bytes_cap (compact_bytes r) = bytes_cap r"
proof -
  let ?n = "bytes_len r - bytes_front r" and ?k = "bytes_front r"
  have n: "active_bytes r = ?n" by (rule active_bytes_eq [OF inv])
  have le: "bytes_front r + ?n \<le> length (roll_bytes r)" and fle: "entries_front r \<le> length (roll_entries r)"
    using inv by (auto simp: roll_inv_def)
  have elen: "length (roll_active r) = entries_len r - entries_front r"
    using length_roll_active [OF inv] active_entries_eq [OF inv] by simp
  show lens: "entries_len (compact_bytes r) = entries_len r" "entries_front (compact_bytes r) = entries_front r"
    "entries_cap (compact_bytes r) = entries_cap r" "bytes_len (compact_bytes r) = active_bytes r"
    "bytes_cap (compact_bytes r) = bytes_cap r"
    by (simp_all add: compact_bytes_def n Let_def)
  have act: "roll_active (compact_bytes r) = (if ?k = 0 then roll_active r else map (shift_entry ?k) (roll_active r))"
    using elen fle by (simp add: compact_bytes_def roll_active_def n Let_def)
  have reg: "roll_region (compact_bytes r) = roll_region r"
    using le by (simp add: compact_bytes_def roll_region_def n Let_def)
  show "roll_view (compact_bytes r) = roll_view r"
    by (simp add: roll_view_def act reg)
  have ch: "chained 0 (roll_active (compact_bytes r)) ?n"
    using inv chained_shift [of ?k ?k "roll_active r" "bytes_len r"] unfolding act roll_inv_def by auto
  have front: "bytes_front (compact_bytes r) = 0" by (simp add: compact_bytes_def Let_def)
  have lb: "length (roll_bytes (compact_bytes r)) = bytes_cap r"
    using le inv by (simp add: compact_bytes_def n Let_def roll_inv_def)
  have "entries_front r \<le> entries_len r" "entries_len r \<le> length (roll_entries r)"
    using inv by (auto simp: roll_inv_def)
  then have "length (roll_entries (compact_bytes r)) = entries_cap r"
    using inv by (auto simp: compact_bytes_def Let_def roll_inv_def)
  then show "roll_inv (compact_bytes r)"
    using inv ch lens lb front unfolding roll_inv_def n by auto
qed

lemma cong_take_drop: "take m xs = take m ys \<Longrightarrow> take (m - k) (drop k xs) = take (m - k) (drop k ys)"
  by (metis drop_take)

lemma grow_entries_ok:
  assumes inv: "roll_inv r" and len: "entries_len r \<le> m" and m: "m * ENTRY_SIZE \<le> size_max"
    and ys: "realloc_array f junk (roll_entries r) m = Some ys"
  shows "roll_inv (r\<lparr>roll_entries := ys, entries_cap := m\<rparr>)"
    and "roll_view (r\<lparr>roll_entries := ys, entries_cap := m\<rparr>) = roll_view r"
proof -
  from ys have ys: "ys = take m (roll_entries r) @ replicate (m - length (roll_entries r)) junk"
    and lys: "length ys = m" by (auto elim: realloc_arrayE)
  have "entries_len r \<le> length (roll_entries r)" using inv by (simp add: roll_inv_def)
  then have "take (entries_len r) ys = take (entries_len r) (roll_entries r)"
    using len by (simp add: ys min_absorb1)
  then have act: "roll_active (r\<lparr>roll_entries := ys, entries_cap := m\<rparr>) = roll_active r"
    unfolding roll_active_def by (simp, rule cong_take_drop)
  show "roll_inv (r\<lparr>roll_entries := ys, entries_cap := m\<rparr>)"
    using inv lys len m act unfolding roll_inv_def by simp
  show "roll_view (r\<lparr>roll_entries := ys, entries_cap := m\<rparr>) = roll_view r"
    using act by (simp add: roll_view_def roll_region_def)
qed

lemma grow_bytes_ok:
  assumes inv: "roll_inv r" and len: "bytes_len r \<le> m" and m: "m \<le> size_max"
    and ys: "realloc_array f junk (roll_bytes r) m = Some ys"
  shows "roll_inv (r\<lparr>roll_bytes := ys, bytes_cap := m\<rparr>)"
    and "roll_view (r\<lparr>roll_bytes := ys, bytes_cap := m\<rparr>) = roll_view r"
proof -
  from ys have ys: "ys = take m (roll_bytes r) @ replicate (m - length (roll_bytes r)) junk"
    and lys: "length ys = m" by (auto elim: realloc_arrayE)
  have "bytes_len r \<le> length (roll_bytes r)" using inv by (simp add: roll_inv_def)
  then have "take (bytes_len r) ys = take (bytes_len r) (roll_bytes r)"
    using len by (simp add: ys min_absorb1)
  then have reg: "roll_region (r\<lparr>roll_bytes := ys, bytes_cap := m\<rparr>) = roll_region r"
    unfolding roll_region_def by (simp, rule cong_take_drop)
  have act: "roll_active (r\<lparr>roll_bytes := ys, bytes_cap := m\<rparr>) = roll_active r"
    by (simp add: roll_active_def)
  show "roll_inv (r\<lparr>roll_bytes := ys, bytes_cap := m\<rparr>)"
    using inv lys len m act unfolding roll_inv_def by simp
  show "roll_view (r\<lparr>roll_bytes := ys, bytes_cap := m\<rparr>) = roll_view r"
    using act reg by (simp add: roll_view_def)
qed

lemma reserve_entry_ok:
  assumes inv: "roll_inv r" and res: "reserve_entry f junk r = (ok, r')"
  shows "roll_inv r' \<and> roll_view r' = roll_view r \<and> active_entries r' = active_entries r \<and>
    (ok \<longrightarrow> entries_len r' < entries_cap r')"
proof (cases "entries_len r < entries_cap r")
  case True
  with res inv show ?thesis by (auto simp: reserve_entry_def)
next
  case full: False
  note c = compact_entries_ok [OF inv]
  let ?a = "active_entries r"
  let ?c = "compact_entries r"
  let ?m = "double_target (?a + 1) INITIAL_ENTRY_CAP"
  have small: "?a \<le> entries_cap r" "entries_cap r * ENTRY_SIZE \<le> size_max"
    using inv by (auto simp: active_entries_def roll_inv_def)
  have dt: "?a + 1 \<le> ?m"
    using double_target_bounds [of INITIAL_ENTRY_CAP "?a + 1"] small by simp
  show ?thesis
  proof (cases "entries_front r > 0 \<and> ?a + 1 \<le> entries_cap r div 2")
    case True
    with res full have "ok" and "r' = ?c" by (simp_all add: reserve_entry_def Let_def)
    with c True show ?thesis by auto
  next
    case grow: False
    show ?thesis
    proof (cases "?m \<le> size_max div ENTRY_SIZE \<and>
        realloc_array (\<lambda>n. f (n * ENTRY_SIZE)) junk (roll_entries ?c) ?m \<noteq> None")
      case True
      then obtain ys where ys: "realloc_array (\<lambda>n. f (n * ENTRY_SIZE)) junk (roll_entries ?c) ?m = Some ys"
        by blast
      with True res full grow have r': "ok" "r' = ?c\<lparr>roll_entries := ys, entries_cap := ?m\<rparr>"
        by (auto simp: reserve_entry_def Let_def split: if_splits)
      have "?m * ENTRY_SIZE \<le> size_max" "entries_len ?c \<le> ?m" using True dt c by auto
      note g = grow_entries_ok [OF c(1) this(2,1) ys]
      have "active_entries r' = active_entries ?c" by (simp add: r' active_entries_def)
      with c(3) have "active_entries r' = ?a" by simp
      then show ?thesis using g c dt r' by simp
    next
      case False
      with res full grow have "\<not> ok" and "r' = ?c"
        by (auto simp: reserve_entry_def Let_def split: if_splits option.splits)
      with c show ?thesis by simp
    qed
  qed
qed

lemma reserve_bytes_ok:
  assumes inv: "roll_inv r" and res: "reserve_bytes f junk r n = (ok, r')"
  shows "roll_inv r' \<and> roll_view r' = roll_view r \<and> active_entries r' = active_entries r \<and>
    entries_len r' = entries_len r \<and> entries_cap r' = entries_cap r \<and>
    (ok \<longrightarrow> bytes_len r' + n \<le> bytes_cap r')"
proof (cases "n \<le> bytes_cap r - bytes_len r")
  case True
  have "bytes_len r \<le> bytes_cap r" using inv by (simp add: roll_inv_def)
  with True res inv show ?thesis by (auto simp: reserve_bytes_def)
next
  case full: False
  note c = compact_bytes_ok [OF inv]
  let ?a = "active_bytes r"
  let ?c = "compact_bytes r"
  let ?t = "double_target (?a + n) INITIAL_BYTE_CAP"
  let ?m = "if ?a + n \<le> size_max div 2 \<and> ?t < (?a + n) * 2 then (?a + n) * 2 else ?t"
  have act: "active_entries ?c = active_entries r"
    using c by (simp add: active_entries_def)
  show ?thesis
  proof (cases "n > size_max - ?a")
    case True
    with res full have "\<not> ok" and "r' = r" by (simp_all add: reserve_bytes_def Let_def)
    with inv show ?thesis by simp
  next
    case False
    moreover have "?a \<le> size_max" using inv by (auto simp: active_bytes_def roll_inv_def)
    ultimately have fits: "?a + n \<le> size_max" by linarith
    have t: "?a + n \<le> ?t" "?t \<le> size_max"
      using double_target_bounds [of INITIAL_BYTE_CAP "?a + n"] fits by auto
    then have m: "?a + n \<le> ?m" "?m \<le> size_max" by auto
    show ?thesis
    proof (cases "bytes_front r > 0 \<and> ?a + n \<le> bytes_cap r div 2")
      case True
      with res full False have "ok" and "r' = ?c" by (simp_all add: reserve_bytes_def Let_def)
      with c True act show ?thesis by auto
    next
      case grow: False
      show ?thesis
      proof (cases "realloc_array f junk (roll_bytes ?c) ?m")
        case (Some ys)
        with False res full grow have r': "ok" "r' = ?c\<lparr>roll_bytes := ys, bytes_cap := ?m\<rparr>"
          by (simp_all add: reserve_bytes_def Let_def split: if_splits)
        have "bytes_len ?c \<le> ?m" using m c by linarith
        note g = grow_bytes_ok [OF c(1) this m(2) Some]
        have "active_entries r' = active_entries ?c" by (simp add: r' active_entries_def)
        with act have "active_entries r' = active_entries r" by simp
        then show ?thesis using g c m r' by (simp split del: if_split)
      next
        case None
        with False res full grow have "\<not> ok" and "r' = ?c"
          by (simp_all add: reserve_bytes_def Let_def split: if_splits)
        with c act show ?thesis by simp
      qed
    qed
  qed
qed

lemma roll_append_ok:
  assumes inv: "roll_inv r" and el: "entries_len r < entries_cap r" and bl: "bytes_len r + length txt \<le> bytes_cap r"
    and e: "byte_index e = bytes_len r" "entry_len e = length txt"
    and r': "r' = r\<lparr>roll_entries := (roll_entries r)[entries_len r := e], entries_len := entries_len r + 1,
      roll_bytes := (if length txt > 0 then memcpy_at (roll_bytes r) (bytes_len r) txt else roll_bytes r),
      bytes_len := bytes_len r + length txt\<rparr>"
  shows "roll_inv r'" and "roll_view r' = roll_view r @
    [\<lparr>rec_text = txt, rec_len = length txt, rec_byte_offset = entry_byte_offset e,
      rec_line_number = entry_line_number e\<rparr>]"
proof -
  have len: "length (roll_bytes r) = bytes_cap r" "length (roll_entries r) = entries_cap r"
    "bytes_front r \<le> bytes_len r" "entries_front r \<le> entries_len r"
    using inv by (auto simp: roll_inv_def)
  have "drop (entries_front r) (take (Suc (entries_len r)) ((roll_entries r)[entries_len r := e])) =
      drop (entries_front r) (take (entries_len r) (roll_entries r)) @ [e]"
    using el len by (simp add: take_Suc_conv_app_nth)
  then have act: "roll_active r' = roll_active r @ [e]"
    by (simp add: roll_active_def r' drop_take)
  have mem: "take (bytes_len r + length txt) (roll_bytes r') = take (bytes_len r) (roll_bytes r) @ txt"
    using bl len by (simp add: r')
  have reg: "roll_region r' = roll_region r @ txt"
    using arg_cong [OF mem, of "drop (bytes_front r)"] len bl by (simp add: roll_region_def r' drop_take)
  have ch: "chained (bytes_front r) (roll_active r) (bytes_len r)" using inv by (simp add: roll_inv_def)
  then have sum: "sum_list (map entry_len (roll_active r)) = length (roll_region r)"
    using chained_sum [OF ch] len inv by (auto simp: roll_region_def roll_inv_def)
  have "chained (bytes_front r) (roll_active r') (bytes_len r + length txt)"
    using ch e by (auto simp: act chained_append)
  moreover have "length (roll_bytes r') = bytes_cap r"
    using len bl by (simp add: r')
  ultimately show "roll_inv r'"
    using inv el bl unfolding roll_inv_def by (simp add: r')
  show "roll_view r' = roll_view r @
    [\<lparr>rec_text = txt, rec_len = length txt, rec_byte_offset = entry_byte_offset e,
      rec_line_number = entry_line_number e\<rparr>]"
    unfolding roll_view_def act reg by (simp add: cut_records_append sum e)
qed

section \<open>The buffer is a window on the pushed records\<close>

text \<open>The last \<open>n\<close> elements of a list.\<close>

definition window :: "nat \<Rightarrow> 'a list \<Rightarrow> 'a list" where
  "window n xs = drop (length xs - n) xs"

lemma window_simps [simp]: "window 0 xs = []" "window n [] = []"
  by (simp_all add: window_def)

lemma length_window [simp]: "length (window n xs) = min n (length xs)"
  by (simp add: window_def)

lemma window_snoc: "0 < n \<Longrightarrow> window n (xs @ [x]) = window (n - 1) xs @ [x]"
  by (cases n) (auto simp: window_def Suc_diff_le)

lemma window_append: "window n (window n xs @ ys) = window n (xs @ ys)"
proof (cases "length xs \<le> n")
  case False
  have "drop (n + length ys - n) (drop (length xs - n) xs @ ys) = drop (length xs + length ys - n) (xs @ ys)"
    using False by (simp add: add.commute)
  then show ?thesis using False by (simp add: window_def min_def)
qed (simp add: window_def)

definition push_record :: "bytes \<Rightarrow> nat \<Rightarrow> nat \<Rightarrow> context_record" where
  "push_record txt off ln =
     \<lparr>rec_text = txt, rec_len = length txt, rec_byte_offset = off, rec_line_number = ln\<rparr>"

lemma roll_push_cases:
  assumes inv: "roll_inv r" and push: "roll_push mem r txt off ln m = (ok, r')"
  shows "roll_inv r' \<and> roll_view r' =
    (if ok then window m (roll_view r @ [push_record txt off ln]) else window (m - 1) (roll_view r))"
proof (cases "m = 0")
  case True
  with push inv show ?thesis by (auto simp: roll_push_def roll_clear_ok)
next
  case False
  then have pos: "0 < m" by simp
  let ?r1 = "evict_for m r"
  obtain ok2 r2 where res2: "reserve_entry (avail mem) (junk_entry mem) ?r1 = (ok2, r2)"
    by (cases "reserve_entry (avail mem) (junk_entry mem) ?r1")
  obtain ok3 r3 where res3: "reserve_bytes (avail mem) (junk_byte mem) r2 (length txt) = (ok3, r3)"
    by (cases "reserve_bytes (avail mem) (junk_byte mem) r2 (length txt)")
  have v1: "roll_inv ?r1" "roll_view ?r1 = window (m - 1) (roll_view r)"
    using evict_for_ok [OF inv pos] by (simp_all add: window_def)
  note o2 = reserve_entry_ok [OF v1(1) res2]
  then have inv2: "roll_inv r2" by simp
  note o3 = reserve_bytes_ok [OF inv2 res3]
  show ?thesis
  proof (cases "ok2 \<and> ok3")
    case True
    let ?e = "\<lparr>byte_index = bytes_len r3, entry_len = length txt, entry_byte_offset = off, entry_line_number = ln\<rparr>"
    from push False True res2 res3 have "ok" and
      "r' = r3\<lparr>roll_entries := (roll_entries r3)[entries_len r3 := ?e], entries_len := entries_len r3 + 1,
        roll_bytes := (if length txt > 0 then memcpy_at (roll_bytes r3) (bytes_len r3) txt else roll_bytes r3),
        bytes_len := bytes_len r3 + length txt\<rparr>"
      by (simp_all add: roll_push_def Let_def)
    moreover have "entries_len r3 < entries_cap r3" "bytes_len r3 + length txt \<le> bytes_cap r3"
      using o2 o3 True by auto
    ultimately have "roll_inv r'" "roll_view r' = roll_view r3 @ [push_record txt off ln]"
      using roll_append_ok [of r3 "txt" ?e r'] o3 by (simp_all add: push_record_def)
    then show ?thesis using v1 o2 o3 pos \<open>ok\<close> by (simp add: window_snoc)
  next
    case notok: False
    with push False res2 res3 have "\<not> ok" and "r' = (if ok2 then r3 else r2)"
      by (auto simp: roll_push_def Let_def split: if_splits)
    then show ?thesis using v1 o2 o3 by simp
  qed
qed

text \<open>
  C5: a push keeps the buffer well formed, whatever the allocator does. When it succeeds the buffer
  holds the last \<open>max_records\<close> of the previous records followed by the new one (none for 0); when
  it fails only the eviction for the new record has happened.
\<close>

theorem roll_push_window:
  assumes "roll_inv r" and "roll_push mem r txt off ln m = (ok, r')"
  shows "roll_inv r' \<and> roll_view r' =
    (if ok then window m (roll_view r @ [push_record txt off ln]) else window (m - 1) (roll_view r))"
  using assms by (rule roll_push_cases)

lemma roll_zero_ok: "roll_inv roll_zero" "roll_view roll_zero = []"
  by (simp_all add: roll_zero_def roll_inv_def roll_view_defs)

text \<open>An allocator that serves everything, and one that serves requests below 200 bytes only.\<close>

definition generous_alloc :: roll_alloc where
  "generous_alloc = \<lparr>avail = \<lambda>n. True, junk_byte = 0,
     junk_entry = \<lparr>byte_index = 0, entry_len = 0, entry_byte_offset = 0, entry_line_number = 0\<rparr>\<rparr>"

definition failing_alloc :: roll_alloc where
  "failing_alloc = generous_alloc\<lparr>avail := \<lambda>n. n < 200\<rparr>"

theorem roll_push_window_witness:
  "roll_inv (snd (roll_push failing_alloc roll_zero [1, 2, 3] 7 1 2)) \<and>
   roll_view (snd (roll_push failing_alloc roll_zero [1, 2, 3] 7 1 2)) =
    (if fst (roll_push failing_alloc roll_zero [1, 2, 3] 7 1 2)
     then window 2 (roll_view roll_zero @ [push_record [1, 2, 3] 7 1])
     else window (2 - 1) (roll_view roll_zero))"
  by (rule roll_push_window [OF roll_zero_ok(1)]) simp

section \<open>A sequence of pushes\<close>

text \<open>The contract of a bounded window: a push that succeeds keeps the last \<open>limit\<close> records.\<close>

locale bounded_window =
  fixes inv :: "'s \<Rightarrow> bool"
    and view :: "'s \<Rightarrow> 'r list"
    and rec_of :: "'i \<Rightarrow> 'r"
    and push :: "'i \<Rightarrow> 's \<Rightarrow> 's option"
    and limit :: nat
  assumes push_ok:
    "inv s \<Longrightarrow> push x s = Some s' \<Longrightarrow> inv s' \<and> view s' = window limit (view s @ [rec_of x])"
begin

lemma pushes_view:
  assumes "inv s" and "run_all push xs s = Some s'" and "view s = window limit ys"
  shows "inv s' \<and> view s' = window limit (ys @ map rec_of xs)"
  using assms
proof (induction xs arbitrary: s ys)
  case (Cons x xs)
  then obtain s1 where s1: "push x s = Some s1" "run_all push xs s1 = Some s'"
    by (auto split: option.splits)
  with push_ok Cons.prems have "inv s1" "view s1 = window limit (ys @ [rec_of x])"
    by (auto simp: window_append)
  from Cons.IH [OF this(1) s1(2) this(2)] show ?case by simp
qed simp

end

text \<open>The push of one line: its text, offset and line number, and the allocator at that moment.\<close>

definition push_line ::
  "nat \<Rightarrow> roll_alloc \<times> bytes \<times> nat \<times> nat \<Rightarrow> context_roll \<Rightarrow> context_roll option" where
  "push_line m l r = (case l of (mem, tx, off, ln) \<Rightarrow>
     (case roll_push mem r tx off ln m of (ok, r') \<Rightarrow> if ok then Some r' else None))"

definition line_record :: "roll_alloc \<times> bytes \<times> nat \<times> nat \<Rightarrow> context_record" where
  "line_record l = (case l of (mem, tx, off, ln) \<Rightarrow> push_record tx off ln)"

interpretation roll: bounded_window roll_inv roll_view line_record "push_line m" m for m
  by unfold_locales
    (auto simp: push_line_def line_record_def dest: roll_push_cases split: prod.splits if_splits)

text \<open>
  After the lines of a file have been pushed one by one into an empty buffer, it holds the last
  \<open>max_records\<close> of them, in order: the context that a match on the next line is shown with.
\<close>

lemma roll_push_lines:
  assumes "run_all (push_line m) ls roll_zero = Some r"
  shows "roll_inv r \<and> roll_view r = window m (map line_record ls)"
  using roll.pushes_view [OF roll_zero_ok(1) assms, of "[]"] by (simp add: roll_zero_ok)

text \<open>
  Reading: index \<open>i\<close> is the \<open>i\<close>-th held record, oldest first, and an index that is not
  below the count is refused.
\<close>

lemma roll_get_view:
  assumes "roll_inv r"
  shows "roll_get r i = (if i < roll_count r then Some (roll_view r ! i) else None) \<and>
    roll_count r = length (roll_view r)"
proof -
  have nth: "i < length es \<Longrightarrow> chained p es q \<Longrightarrow> q \<le> length bs \<Longrightarrow>
      cut_records es (take (q - p) (drop p bs)) ! i =
      \<lparr>rec_text = take (entry_len (es ! i)) (drop (byte_index (es ! i)) bs), rec_len = entry_len (es ! i),
       rec_byte_offset = entry_byte_offset (es ! i), rec_line_number = entry_line_number (es ! i)\<rparr>"
    for es p q bs
  proof (induction es arbitrary: p i)
    case (Cons e es)
    then have "p + entry_len e \<le> q" using chained_mono by auto
    with Cons show ?case by (cases i) (auto simp: drop_take ac_simps)
  qed simp
  have len: "roll_count r = length (roll_view r)"
    by (simp add: roll_count_def length_roll_view [OF assms])
  moreover have "roll_get r i = Some (roll_view r ! i)" if i: "i < active_entries r"
  proof -
    have "roll_entries r ! (entries_front r + i) = roll_active r ! i"
      using i assms by (auto simp: roll_active_def active_entries_eq roll_inv_def)
    moreover have "i < length (roll_active r)" using i by (simp add: length_roll_active assms)
    moreover have "chained (bytes_front r) (roll_active r) (bytes_len r)" "bytes_len r \<le> length (roll_bytes r)"
      using assms by (auto simp: roll_inv_def)
    ultimately show ?thesis
      using i by (simp add: roll_get_def Let_def roll_view_def roll_region_def nth)
  qed
  ultimately show ?thesis by (simp add: roll_count_def roll_get_def)
qed

theorem roll_get_view_witness:
  "roll_get roll_zero 0 = (if 0 < roll_count roll_zero then Some (roll_view roll_zero ! 0) else None) \<and>
    roll_count roll_zero = length (roll_view roll_zero)"
  by (rule roll_get_view [OF roll_zero_ok(1)])

section \<open>A push succeeds when memory does\<close>

lemma double_target_upper: "0 < t \<Longrightarrow> double_target needed t \<le> max t (2 * needed)"
proof (induction needed t rule: double_target.induct)
  case (1 needed t)
  show ?case
  proof (cases "t < needed \<and> \<not> t > size_max div 2")
    case True
    with 1 have "double_target needed (t * 2) \<le> max (t * 2) (2 * needed)" by auto
    moreover have "double_target needed t = double_target needed (t * 2)"
      using True 1 by (subst double_target.simps) simp
    ultimately show ?thesis using True by simp
  next
    case False
    then show ?thesis by (subst double_target.simps) auto
  qed
qed

lemma rec_lens_active: "roll_inv r \<Longrightarrow> sum_list (map rec_len (roll_view r)) = active_bytes r"
proof -
  assume inv: "roll_inv r"
  then have "chained (bytes_front r) (roll_active r) (bytes_len r)" by (simp add: roll_inv_def)
  moreover have "map rec_len (cut_records es bs) = map entry_len es" for es bs
    by (induction es arbitrary: bs) simp_all
  ultimately show ?thesis using chained_sum by (fastforce simp: roll_view_def active_bytes_eq inv)
qed

lemma reserve_entry_succeeds:
  assumes "roll_inv r" and "active_entries r < 2 ^ 57"
  shows "fst (reserve_entry (\<lambda>n. True) junk r)"
proof -
  have "double_target (Suc (active_entries r)) INITIAL_ENTRY_CAP \<le> size_max div ENTRY_SIZE"
    using double_target_upper [of INITIAL_ENTRY_CAP "Suc (active_entries r)"] assms by auto
  then show ?thesis by (auto simp: reserve_entry_def Let_def realloc_array_def)
qed

lemma reserve_bytes_succeeds:
  assumes "active_bytes r + n \<le> size_max"
  shows "fst (reserve_bytes (\<lambda>n. True) junk r n)"
proof -
  have "\<not> n > size_max - active_bytes r" using assms by linarith
  then show ?thesis by (auto simp: reserve_bytes_def Let_def realloc_array_def)
qed

lemma roll_push_if_memory:
  assumes "roll_inv r" and "avail mem = (\<lambda>n. True)" and "m \<le> 2 ^ 57"
    and "sum_list (map rec_len (roll_view r)) + length txt \<le> size_max"
  shows "fst (roll_push mem r txt off ln m)"
proof (cases "m = 0")
  case False
  then have m: "0 < m" by simp
  let ?r1 = "evict_for m r"
  obtain ok2 r2 where r2: "reserve_entry (avail mem) (junk_entry mem) ?r1 = (ok2, r2)"
    by (cases "reserve_entry (avail mem) (junk_entry mem) ?r1")
  have v1: "roll_inv ?r1" "active_entries ?r1 < m"
    "roll_view ?r1 = drop (length (roll_view r) - (m - 1)) (roll_view r)"
    using evict_for_ok [OF assms(1) m] by simp_all
  have "fst (reserve_entry (avail mem) (junk_entry mem) ?r1)"
    unfolding assms(2) using v1 assms(3) by (intro reserve_entry_succeeds) auto
  then have ok2 by (simp add: r2)
  note o2 = reserve_entry_ok [OF v1(1) r2]
  have "sum_list (map rec_len (drop k xs)) \<le> sum_list (map rec_len xs)" for k and xs :: "context_record list"
    by (metis append_take_drop_id le_add2 map_append sum_list.append)
  then have "active_bytes r2 + length txt \<le> size_max"
    using rec_lens_active [of r2] o2 v1(3) assms(4) by (metis add_le_mono1 le_trans)
  then have "fst (reserve_bytes (avail mem) (junk_byte mem) r2 (length txt))"
    unfolding assms(2) by (rule reserve_bytes_succeeds)
  with \<open>ok2\<close> m show ?thesis
    by (auto simp: roll_push_def Let_def r2 split: prod.splits)
qed (simp add: roll_push_def)

text \<open>
  A push fails for want of memory only: with an allocator that serves its requests it
  succeeds, as long as the held texts and the new one fit an object and \<open>max_records\<close> is below
  \<open>2 ^ 57\<close> (a table of entries that an object can hold).
\<close>

lemma roll_push_succeeds:
  assumes "roll_inv r" and "avail mem = (\<lambda>n. True)" and "m \<le> 2 ^ 57"
    and "sum_list (map rec_len (roll_view r)) + length txt \<le> size_max"
  shows "fst (roll_push mem r txt off ln m)"
  using assms by (rule roll_push_if_memory)

theorem roll_push_succeeds_witness: "fst (roll_push generous_alloc roll_zero [1, 2] 0 1 3)"
  by (rule roll_push_succeeds) (simp_all add: roll_zero_ok generous_alloc_def)

theorem roll_push_lines_witness:
  "roll_inv (snd (roll_push generous_alloc roll_zero [1] 0 1 1)) \<and>
   roll_view (snd (roll_push generous_alloc roll_zero [1] 0 1 1)) =
     window 1 (map line_record [(generous_alloc, [1], 0, 1)])"
proof (rule roll_push_lines)
  have "fst (roll_push generous_alloc roll_zero [1] 0 1 1)"
    by (rule roll_push_if_memory) (simp_all add: roll_zero_ok generous_alloc_def)
  then show "run_all (push_line 1) [(generous_alloc, [1], 0, 1)] roll_zero =
      Some (snd (roll_push generous_alloc roll_zero [1] 0 1 1))"
    by (cases "roll_push generous_alloc roll_zero [1] 0 1 1") (simp add: push_line_def)
qed

end
