(* ===== verification/InodeLedger.thy ===== *)
theory InodeLedger
  imports Prelude
begin

text \<open>
  \<open>src/src/lib/inode_ledger.c\<close>: an open-addressing hash table from the identity of a file (device,
  inode, file type) to the sequence number at which it was produced and the one it originates
  from. A slot whose type is 0 is free; nothing is ever deleted. The probing loop would not end in
  a full table, so it is a partial function into \<open>option\<close>, and the theorems show that it returns.
  \<open>xmalloc\<close> ends the process when it fails, so the model has no branch for that.
\<close>

section \<open>The table and its operations\<close>

record inode_slot =
  slot_dev :: u64
  slot_ino :: u64
  slot_type :: u32
  slot_sequence :: u64
  slot_origin :: u64

record inode_ledger =
  ledger_slots :: "inode_slot list"
  ledger_len :: nat
  ledger_cap :: nat

text \<open>What the code uses of \<open>struct stat\<close>.\<close>

record file_stat =
  st_dev :: u64
  st_ino :: u64
  st_mode :: u32

abbreviation S_IFMT :: u32 where
  "S_IFMT \<equiv> 0xF000"

datatype inode_error = Inode_EINVAL | Inode_E2BIG

definition bx_inode_hash :: "u64 \<Rightarrow> u64 \<Rightarrow> u64" where
  "bx_inode_hash dev ino =
     (let v1 = ino XOR (dev * 0x9E3779B97F4A7C15);
          v2 = (v1 XOR drop_bit 30 v1) * 0xBF58476D1CE4E5B9;
          v3 = (v2 XOR drop_bit 27 v2) * 0x94D049BB133111EB
      in v3 XOR drop_bit 31 v3)"

partial_function (option) inode_probe :: "inode_ledger \<Rightarrow> file_stat \<Rightarrow> nat \<Rightarrow> nat option" where
  "inode_probe ledger status index =
     (let slot = ledger_slots ledger ! index in
      if slot_type slot \<noteq> 0 \<and>
         (slot_dev slot \<noteq> st_dev status \<or> slot_ino slot \<noteq> st_ino status \<or>
          slot_type slot \<noteq> st_mode status AND S_IFMT)
      then inode_probe ledger status ((index + 1) AND (ledger_cap ledger - 1))
      else Some index)"

definition bx_inode_slot :: "inode_ledger \<Rightarrow> file_stat \<Rightarrow> nat option" where
  "bx_inode_slot ledger status =
     inode_probe ledger status
       (unat (bx_inode_hash (st_dev status) (st_ino status)) AND (ledger_cap ledger - 1))"

text \<open>
  The lookup: \<open>None\<close> when the probing does not return, else the sequence and origin that are
  written for the caller, or nothing.
\<close>

definition bx_inode_ledger_lookup :: "inode_ledger \<Rightarrow> file_stat \<Rightarrow> (u64 \<times> u64) option option" where
  "bx_inode_ledger_lookup ledger status =
     (if ledger_cap ledger = 0 then Some None
      else case bx_inode_slot ledger status of
          None \<Rightarrow> None
        | Some i \<Rightarrow>
            let slot = ledger_slots ledger ! i in
            if slot_type slot = 0 then Some None else Some (Some (slot_sequence slot, slot_origin slot)))"

definition free_slot :: inode_slot where
  "free_slot = \<lparr>slot_dev = 0, slot_ino = 0, slot_type = 0, slot_sequence = 0, slot_origin = 0\<rparr>"

text \<open>The rehashing loop over the old slots.\<close>

fun inode_rehash :: "inode_slot list \<Rightarrow> inode_ledger \<Rightarrow> inode_ledger option" where
  "inode_rehash [] ledger = Some ledger"
| "inode_rehash (slot # olds) ledger =
     (if slot_type slot \<noteq> 0 then
        case bx_inode_slot ledger
            \<lparr>st_dev = slot_dev slot, st_ino = slot_ino slot, st_mode = slot_type slot\<rparr> of
          None \<Rightarrow> None
        | Some i \<Rightarrow> inode_rehash olds (ledger\<lparr>ledger_slots := (ledger_slots ledger)[i := slot]\<rparr>)
      else inode_rehash olds ledger)"

text \<open>\<open>sizeof (struct bx_inode_ledger_slot)\<close>.\<close>

abbreviation SLOT_SIZE :: nat where
  "SLOT_SIZE \<equiv> 40"

definition inode_grow :: "inode_ledger \<Rightarrow> inode_ledger option" where
  "inode_grow ledger =
     (let cap' = (if ledger_cap ledger \<noteq> 0 then ledger_cap ledger * 2 else 16) in
      inode_rehash (ledger_slots ledger)
        (ledger\<lparr>ledger_cap := cap', ledger_slots := replicate cap' free_slot\<rparr>))"

definition inode_store :: "inode_ledger \<Rightarrow> file_stat \<Rightarrow> u64 \<Rightarrow> u64 \<Rightarrow> inode_ledger option" where
  "inode_store ledger status sequence origin =
     (case bx_inode_slot ledger status of
        None \<Rightarrow> None
      | Some i \<Rightarrow> Some (ledger\<lparr>
          ledger_slots := (ledger_slots ledger)[i := \<lparr>slot_dev = st_dev status, slot_ino = st_ino status,
            slot_type = st_mode status AND S_IFMT, slot_sequence = sequence, slot_origin = origin\<rparr>],
          ledger_len := ledger_len ledger + 1\<rparr>))"

definition inode_update :: "inode_ledger \<Rightarrow> file_stat \<Rightarrow> u64 \<Rightarrow> u64 \<Rightarrow> inode_ledger option" where
  "inode_update ledger status sequence origin =
     (case bx_inode_slot ledger status of
        None \<Rightarrow> None
      | Some i \<Rightarrow> Some (ledger\<lparr>ledger_slots := (ledger_slots ledger)
          [i := (ledger_slots ledger ! i)\<lparr>slot_sequence := sequence, slot_origin := origin\<rparr>]\<rparr>))"

definition bx_inode_ledger_record ::
  "inode_ledger \<Rightarrow> file_stat \<Rightarrow> u64 \<Rightarrow> u64 \<Rightarrow> nat \<Rightarrow> (inode_error + inode_ledger) option" where
  "bx_inode_ledger_record ledger status sequence origin limit =
     (if st_mode status AND S_IFMT = 0 \<or> origin > sequence then Some (Inl Inode_EINVAL)
      else case bx_inode_ledger_lookup ledger status of
          None \<Rightarrow> None
        | Some (Some _) \<Rightarrow> map_option Inr (inode_update ledger status sequence origin)
        | Some None \<Rightarrow>
            if ledger_len ledger \<ge> limit then Some (Inl Inode_E2BIG)
            else if ledger_cap ledger = 0 \<or> ledger_len ledger \<ge> ledger_cap ledger div 2 then
              if ledger_cap ledger > size_max div 2 div SLOT_SIZE then Some (Inl Inode_E2BIG)
              else case inode_grow ledger of
                  None \<Rightarrow> None
                | Some ledger1 \<Rightarrow> map_option Inr (inode_store ledger1 status sequence origin)
            else map_option Inr (inode_store ledger status sequence origin))"

definition inode_ledger_zero :: inode_ledger where
  "inode_ledger_zero = \<lparr>ledger_slots = [], ledger_len = 0, ledger_cap = 0\<rparr>"

definition bx_inode_ledger_free :: "inode_ledger \<Rightarrow> inode_ledger" where
  "bx_inode_ledger_free ledger = inode_ledger_zero"

section \<open>The table as a map\<close>

type_synonym inode_key = "u64 \<times> u64 \<times> u32"

definition slot_key :: "inode_slot \<Rightarrow> inode_key" where
  "slot_key s = (slot_dev s, slot_ino s, slot_type s)"

definition stat_key :: "file_stat \<Rightarrow> inode_key" where
  "stat_key st = (st_dev st, st_ino st, st_mode st AND S_IFMT)"

definition slot_holds :: "inode_key \<Rightarrow> inode_slot \<Rightarrow> bool" where
  "slot_holds key s \<longleftrightarrow> slot_type s \<noteq> 0 \<and> slot_key s = key"

definition ledger_map :: "inode_ledger \<Rightarrow> inode_key \<Rightarrow> (u64 \<times> u64) option" where
  "ledger_map l key =
     map_option (\<lambda>s. (slot_sequence s, slot_origin s)) (List.find (slot_holds key) (ledger_slots l))"

text \<open>
  The \<open>d\<close>-th place of a key's probe sequence, and where the probing stops. A well-formed table
  has every key at the end of a run of places taken by other keys.
\<close>

definition probe_place :: "nat \<Rightarrow> inode_key \<Rightarrow> nat \<Rightarrow> nat" where
  "probe_place cap key d = (unat (bx_inode_hash (fst key) (fst (snd key))) + d) mod cap"

definition probe_stop :: "inode_slot list \<Rightarrow> inode_key \<Rightarrow> nat \<Rightarrow> bool" where
  "probe_stop slots key i \<longleftrightarrow> slot_type (slots ! i) = 0 \<or> slot_key (slots ! i) = key"

definition slot_placed :: "inode_slot list \<Rightarrow> nat \<Rightarrow> bool" where
  "slot_placed slots j \<longleftrightarrow> slot_type (slots ! j) AND S_IFMT = slot_type (slots ! j) \<and>
     (\<exists>d. j = probe_place (length slots) (slot_key (slots ! j)) d \<and>
       (\<forall>d' < d. \<not> probe_stop slots (slot_key (slots ! j)) (probe_place (length slots) (slot_key (slots ! j)) d')))"

definition table_ok :: "inode_slot list \<Rightarrow> bool" where
  "table_ok slots \<longleftrightarrow> (\<exists>k. length slots = 2 ^ k) \<and>
     (\<forall>j < length slots. slot_type (slots ! j) \<noteq> 0 \<longrightarrow> slot_placed slots j)"

definition taken :: "inode_slot list \<Rightarrow> nat" where
  "taken slots = length (filter (\<lambda>s. slot_type s \<noteq> 0) slots)"

definition inode_inv :: "inode_ledger \<Rightarrow> bool" where
  "inode_inv l \<longleftrightarrow> length (ledger_slots l) = ledger_cap l \<and> taken (ledger_slots l) = ledger_len l \<and>
     (if ledger_cap l = 0 then ledger_len l = 0
      else table_ok (ledger_slots l) \<and> ledger_len l * 2 \<le> ledger_cap l \<and> 16 \<le> ledger_cap l)"

lemma and_cap_minus_one: "n AND (2 ^ k - 1) = n mod 2 ^ k" for n :: nat
  by (simp only: mask_eq_exp_minus_1 [symmetric] take_bit_eq_mask [symmetric] take_bit_eq_mod)

lemma inode_probe_finds:
  assumes len: "ledger_cap l = 2 ^ k"
    and stop: "probe_stop (ledger_slots l) (stat_key st) (probe_place (ledger_cap l) (stat_key st) d)"
    and run: "\<And>d'. d' < d \<Longrightarrow> \<not> probe_stop (ledger_slots l) (stat_key st) (probe_place (ledger_cap l) (stat_key st) d')"
  shows "bx_inode_slot l st = Some (probe_place (ledger_cap l) (stat_key st) d)"
proof -
  let ?p = "probe_place (ledger_cap l) (stat_key st)"
  have step: "inode_probe l st (?p e) =
      (if probe_stop (ledger_slots l) (stat_key st) (?p e) then Some (?p e) else inode_probe l st (?p (Suc e)))" for e
  proof -
    have "(?p e + 1) AND (ledger_cap l - 1) = ?p (Suc e)"
      unfolding len and_cap_minus_one probe_place_def by (simp add: mod_Suc_eq)
    then show ?thesis
      by (subst inode_probe.simps) (auto simp: probe_stop_def slot_key_def stat_key_def Let_def)
  qed
  have "inode_probe l st (?p (d - e)) = Some (?p d)" if "e \<le> d" for e
    using that
  proof (induction e)
    case 0
    then show ?case using stop by (subst step) simp
  next
    case (Suc e)
    then have "inode_probe l st (?p (Suc (d - Suc e))) = Some (?p d)"
      by (simp add: Suc_diff_Suc)
    then show ?case using run [of "d - Suc e"] Suc.prems by (subst step) simp
  qed
  from this [of d] have "inode_probe l st (?p 0) = Some (?p d)" by simp
  then show ?thesis
    by (simp add: bx_inode_slot_def len and_cap_minus_one [unfolded One_nat_def] probe_place_def stat_key_def)
qed

lemma probe_place_onto:
  assumes "j < cap"
  obtains d where "probe_place cap key d = j"
proof
  let ?h = "unat (bx_inode_hash (fst key) (fst (snd key)))"
  have "probe_place cap key (cap - ?h mod cap + j) = (?h mod cap + (cap - ?h mod cap + j)) mod cap"
    unfolding probe_place_def by (simp add: mod_add_left_eq)
  also have "?h mod cap + (cap - ?h mod cap + j) = cap + j"
    using assms mod_less_divisor [of cap ?h] by linarith
  finally show "probe_place cap key (cap - ?h mod cap + j) = j" using assms by simp
qed

text \<open>With a free slot somewhere the probing returns the first place that stops it.\<close>

lemma inode_slot_total:
  assumes len: "ledger_cap l = 2 ^ k" "length (ledger_slots l) = ledger_cap l"
    and free: "j < ledger_cap l" "slot_type (ledger_slots l ! j) = 0"
  obtains d where "bx_inode_slot l st = Some (probe_place (ledger_cap l) (stat_key st) d)"
    and "probe_stop (ledger_slots l) (stat_key st) (probe_place (ledger_cap l) (stat_key st) d)"
    and "\<And>d'. d' < d \<Longrightarrow> \<not> probe_stop (ledger_slots l) (stat_key st) (probe_place (ledger_cap l) (stat_key st) d')"
    and "probe_place (ledger_cap l) (stat_key st) d < ledger_cap l"
proof -
  let ?Q = "\<lambda>d. probe_stop (ledger_slots l) (stat_key st) (probe_place (ledger_cap l) (stat_key st) d)"
  obtain d0 where "probe_place (ledger_cap l) (stat_key st) d0 = j"
    using probe_place_onto [OF free(1)] .
  then have ex: "?Q d0" using free(2) by (simp add: probe_stop_def)
  define d where "d = (LEAST d. ?Q d)"
  have stop: "?Q d" unfolding d_def by (rule LeastI [of ?Q, OF ex])
  have run: "\<not> ?Q d'" if "d' < d" for d' using not_less_Least [of d' ?Q] that by (simp add: d_def)
  have "probe_place (ledger_cap l) (stat_key st) d < ledger_cap l"
    using free(1) by (simp add: probe_place_def)
  with that [OF inode_probe_finds [OF len(1) stop run] stop run] show thesis by blast
qed

lemma probe_stop_update [simp]: "p \<noteq> j \<Longrightarrow> probe_stop (slots[j := s]) key p = probe_stop slots key p"
  by (simp add: probe_stop_def)

lemma slot_placed_unique:
  assumes "slot_placed slots i" and "slot_placed slots j" and "slot_key (slots ! i) = slot_key (slots ! j)"
  shows "i = j"
proof -
  let ?key = "slot_key (slots ! i)"
  let ?p = "probe_place (length slots) ?key"
  obtain d where d: "i = ?p d" "\<forall>d' < d. \<not> probe_stop slots ?key (?p d')"
    using assms(1) by (auto simp: slot_placed_def)
  obtain e where e: "j = ?p e" "\<forall>d' < e. \<not> probe_stop slots ?key (?p d')"
    using assms(2,3) by (auto simp: slot_placed_def)
  have "probe_stop slots ?key (?p d)" "probe_stop slots ?key (?p e)"
    using assms(3) d e by (simp_all add: probe_stop_def)
  then have "\<not> d < e" and "\<not> e < d" using d e by blast+
  then show ?thesis using d e by simp
qed

lemma table_placed: "table_ok slots \<Longrightarrow> j < length slots \<Longrightarrow> slot_holds key (slots ! j) \<Longrightarrow> slot_placed slots j"
  by (simp add: table_ok_def slot_holds_def)

lemma holds_unique:
  "table_ok slots \<Longrightarrow> i < length slots \<Longrightarrow> j < length slots \<Longrightarrow>
     slot_holds key (slots ! i) \<Longrightarrow> slot_holds key (slots ! j) \<Longrightarrow> i = j"
  by (rule slot_placed_unique [of slots]) (auto intro: table_placed simp: slot_holds_def)

lemma ledger_map_Some:
  assumes "table_ok (ledger_slots l)"
  shows "ledger_map l key = Some v \<longleftrightarrow> (\<exists>j < length (ledger_slots l). slot_holds key (ledger_slots l ! j) \<and>
    v = (slot_sequence (ledger_slots l ! j), slot_origin (ledger_slots l ! j)))"
proof -
  let ?n = "length (ledger_slots l)" and ?s = "\<lambda>j. ledger_slots l ! j"
  have "List.find (slot_holds key) (ledger_slots l) = Some (?s j)" if "j < ?n" "slot_holds key (?s j)" for j
  proof -
    have "\<not> slot_holds key (?s i)" if "i < j" for i
      using holds_unique [OF assms _ \<open>j < ?n\<close> _ \<open>slot_holds key (?s j)\<close>, of i] that \<open>j < ?n\<close> by auto
    then show ?thesis using that unfolding find_Some_iff by (intro exI [of _ j]) blast
  qed
  note find = this
  have "\<exists>j < ?n. slot_holds key (?s j) \<and> s = ?s j" if "List.find (slot_holds key) (ledger_slots l) = Some s" for s
    using that by (auto simp: find_Some_iff)
  note found = this
  show ?thesis
  proof
    assume "ledger_map l key = Some v"
    then obtain s where "List.find (slot_holds key) (ledger_slots l) = Some s" "v = (slot_sequence s, slot_origin s)"
      by (auto simp: ledger_map_def)
    then show "\<exists>j < ?n. slot_holds key (?s j) \<and> v = (slot_sequence (?s j), slot_origin (?s j))"
      using found by metis
  next
    assume "\<exists>j < ?n. slot_holds key (?s j) \<and> v = (slot_sequence (?s j), slot_origin (?s j))"
    then show "ledger_map l key = Some v" using find by (auto simp: ledger_map_def)
  qed
qed

lemma ledger_map_None:
  "ledger_map l key = None \<longleftrightarrow> (\<forall>j < length (ledger_slots l). \<not> slot_holds key (ledger_slots l ! j))"
  by (auto simp: ledger_map_def find_None_iff in_set_conv_nth)

text \<open>A key that is in the table is where the probing ends.\<close>

lemma inode_slot_present:
  assumes ok: "table_ok (ledger_slots l)" and len: "length (ledger_slots l) = ledger_cap l"
    and j: "j < ledger_cap l" "slot_holds (stat_key st) (ledger_slots l ! j)"
  shows "bx_inode_slot l st = Some j"
proof -
  obtain k where k: "ledger_cap l = 2 ^ k" using ok len by (auto simp: table_ok_def)
  have key: "slot_key (ledger_slots l ! j) = stat_key st" using j by (simp add: slot_holds_def)
  from table_placed [OF ok _ j(2)] j(1) len obtain d where
    d: "j = probe_place (ledger_cap l) (stat_key st) d"
      "\<And>d'. d' < d \<Longrightarrow> \<not> probe_stop (ledger_slots l) (stat_key st) (probe_place (ledger_cap l) (stat_key st) d')"
    by (auto simp: slot_placed_def key)
  show ?thesis unfolding d(1)
    by (rule inode_probe_finds [OF k _ d(2)]) (simp_all add: probe_stop_def key d(1) [symmetric])
qed

section \<open>Writing a slot\<close>

lemma nth_update_cases: "j < length xs \<Longrightarrow> xs[j := x] ! i = (if i = j then x else xs ! i)"
  by simp

lemma table_store:
  assumes ok: "table_ok slots" and j: "j < length slots" "slot_type (slots ! j) = 0"
    and place: "j = probe_place (length slots) (slot_key s) d"
    and run: "\<And>d'. d' < d \<Longrightarrow> \<not> probe_stop slots (slot_key s) (probe_place (length slots) (slot_key s) d')"
    and s: "slot_type s \<noteq> 0" "slot_type s AND S_IFMT = slot_type s"
  shows "table_ok (slots[j := s])" and "taken (slots[j := s]) = taken slots + 1"
proof -
  have off: "probe_place (length slots) key d' \<noteq> j"
    if "\<not> probe_stop slots key (probe_place (length slots) key d')" for key d'
    using that j(2) by (auto simp: probe_stop_def)
  have "slot_placed (slots[j := s]) i" if i: "i < length slots" "slot_type (slots[j := s] ! i) \<noteq> 0" for i
  proof (cases "i = j")
    case True
    then show ?thesis
      using j(1) place run s off [of "slot_key s"] unfolding slot_placed_def by (intro conjI exI [of _ d]) auto
  next
    case False
    then have "slot_placed slots i" using ok i by (simp add: table_ok_def)
    then show ?thesis using False off unfolding slot_placed_def by fastforce
  qed
  then show "table_ok (slots[j := s])" using ok by (simp add: table_ok_def)
  have "slots = take j slots @ slots ! j # drop (Suc j) slots" using j(1) by (rule id_take_nth_drop)
  then have "taken slots = taken (take j slots @ slots ! j # drop (Suc j) slots)" by (rule arg_cong)
  then show "taken (slots[j := s]) = taken slots + 1"
    using j s by (simp add: upd_conv_take_nth_drop taken_def)
qed

lemma table_overwrite:
  assumes ok: "table_ok slots" and j: "j < length slots" "slot_type (slots ! j) \<noteq> 0"
    and key: "slot_key s = slot_key (slots ! j)"
  shows "table_ok (slots[j := s])" and "taken (slots[j := s]) = taken slots"
proof -
  have ty: "slot_type s = slot_type (slots ! j)" using key by (simp add: slot_key_def)
  have k: "slot_key (slots[j := s] ! i) = slot_key (slots ! i)" "slot_type (slots[j := s] ! i) = slot_type (slots ! i)" for i
    using key ty j(1) by (auto simp: nth_update_cases)
  then have "probe_stop (slots[j := s]) = probe_stop slots" by (intro ext) (simp add: probe_stop_def)
  then have "slot_placed (slots[j := s]) = slot_placed slots"
    by (intro ext) (simp add: slot_placed_def k)
  then show "table_ok (slots[j := s])" using ok by (simp add: table_ok_def k)
  have "slots = take j slots @ slots ! j # drop (Suc j) slots" using j(1) by (rule id_take_nth_drop)
  then have "taken slots = taken (take j slots @ slots ! j # drop (Suc j) slots)" by (rule arg_cong)
  then show "taken (slots[j := s]) = taken slots"
    using j ty by (simp add: upd_conv_take_nth_drop taken_def)
qed

lemma ledger_map_write:
  assumes ok: "table_ok (ledger_slots l)" "table_ok ((ledger_slots l)[j := s])"
    and j: "j < length (ledger_slots l)" "slot_type s \<noteq> 0"
    and old: "slot_type (ledger_slots l ! j) = 0 \<or> slot_key (ledger_slots l ! j) = slot_key s"
    and l': "ledger_slots l' = (ledger_slots l)[j := s]"
  shows "ledger_map l' = (ledger_map l)(slot_key s \<mapsto> (slot_sequence s, slot_origin s))"
proof
  fix key
  have ok': "table_ok (ledger_slots l')" using ok(2) l' by simp
  show "ledger_map l' key = ((ledger_map l)(slot_key s \<mapsto> (slot_sequence s, slot_origin s))) key"
  proof (cases "key = slot_key s")
    case True
    then have "ledger_map l' key = Some (slot_sequence s, slot_origin s)"
      using j by (auto simp: ledger_map_Some [OF ok'] l' slot_holds_def intro!: exI [of _ j])
    then show ?thesis using True by simp
  next
    case False
    then have "slot_holds key (ledger_slots l' ! i) = slot_holds key (ledger_slots l ! i)" for i
      using old j by (auto simp: l' nth_update_cases slot_holds_def)
    moreover have "slot_holds key (ledger_slots l ! i) \<Longrightarrow> ledger_slots l' ! i = ledger_slots l ! i" for i
      using old j False by (auto simp: l' nth_update_cases slot_holds_def)
    ultimately have "ledger_map l' key = Some v \<longleftrightarrow> ledger_map l key = Some v" for v
      unfolding ledger_map_Some [OF ok'] ledger_map_Some [OF ok(1)] by (auto simp: l')
    then show ?thesis using False by (metis fun_upd_apply option.exhaust)
  qed
qed

section \<open>The operations on a well-formed table\<close>

lemma taken_free: "taken slots < length slots \<Longrightarrow> \<exists>j < length slots. slot_type (slots ! j) = 0"
proof (rule ccontr)
  assume lt: "taken slots < length slots" and "\<not> (\<exists>j < length slots. slot_type (slots ! j) = 0)"
  then have "filter (\<lambda>s. slot_type s \<noteq> 0) slots = slots"
    by (auto simp: filter_id_conv in_set_conv_nth)
  with lt show False by (simp add: taken_def)
qed

definition table_inv :: "inode_ledger \<Rightarrow> bool" where
  "table_inv l \<longleftrightarrow> length (ledger_slots l) = ledger_cap l \<and> table_ok (ledger_slots l)"

lemma inode_slot_absent:
  assumes inv: "table_inv l" and room: "taken (ledger_slots l) < ledger_cap l"
    and absent: "ledger_map l (stat_key st) = None"
  obtains j d where "bx_inode_slot l st = Some j" and "j < ledger_cap l" and "slot_type (ledger_slots l ! j) = 0"
    and "j = probe_place (ledger_cap l) (stat_key st) d"
    and "\<And>d'. d' < d \<Longrightarrow> \<not> probe_stop (ledger_slots l) (stat_key st) (probe_place (ledger_cap l) (stat_key st) d')"
proof -
  have len: "length (ledger_slots l) = ledger_cap l" and ok: "table_ok (ledger_slots l)"
    using inv by (auto simp: table_inv_def)
  obtain k where k: "ledger_cap l = 2 ^ k" using ok len by (auto simp: table_ok_def)
  obtain j where j: "j < ledger_cap l" "slot_type (ledger_slots l ! j) = 0"
    using taken_free room len by metis
  show thesis
  proof (rule inode_slot_total [OF k len j, of st])
    fix d
    let ?p = "probe_place (ledger_cap l) (stat_key st)"
    assume p: "bx_inode_slot l st = Some (?p d)" "probe_stop (ledger_slots l) (stat_key st) (?p d)"
      "\<And>d'. d' < d \<Longrightarrow> \<not> probe_stop (ledger_slots l) (stat_key st) (?p d')" "?p d < ledger_cap l"
    have "slot_type (ledger_slots l ! ?p d) = 0"
      using p absent len by (auto simp: ledger_map_None probe_stop_def slot_holds_def)
    with that p show thesis by blast
  qed
qed

lemma inode_lookup_map:
  assumes "inode_inv l"
  shows "bx_inode_ledger_lookup l st = Some (ledger_map l (stat_key st))"
proof (cases "ledger_cap l = 0")
  case True
  then have "ledger_slots l = []" using assms by (simp add: inode_inv_def)
  with True show ?thesis by (simp add: bx_inode_ledger_lookup_def ledger_map_def)
next
  case False
  with assms have inv: "table_inv l" and room: "taken (ledger_slots l) < ledger_cap l"
    by (auto simp: inode_inv_def table_inv_def)
  then have len: "length (ledger_slots l) = ledger_cap l" and ok: "table_ok (ledger_slots l)"
    by (auto simp: table_inv_def)
  show ?thesis
  proof (cases "ledger_map l (stat_key st)")
    case None
    from inode_slot_absent [OF inv room None] obtain j where
      "bx_inode_slot l st = Some j" "slot_type (ledger_slots l ! j) = 0" by metis
    then show ?thesis using False None by (simp add: bx_inode_ledger_lookup_def)
  next
    case (Some v)
    then obtain j where j: "j < ledger_cap l" "slot_holds (stat_key st) (ledger_slots l ! j)"
      "v = (slot_sequence (ledger_slots l ! j), slot_origin (ledger_slots l ! j))"
      using len by (auto simp: ledger_map_Some [OF ok])
    from inode_slot_present [OF ok len j(1,2)] show ?thesis
      using j False Some by (simp add: bx_inode_ledger_lookup_def slot_holds_def Let_def)
  qed
qed

lemma inode_write_absent:
  assumes inv: "table_inv l" and room: "taken (ledger_slots l) < ledger_cap l"
    and absent: "ledger_map l (stat_key st) = None"
    and s: "slot_key s = stat_key st" "slot_type s \<noteq> 0"
  obtains j where "bx_inode_slot l st = Some j" and "table_inv (l\<lparr>ledger_slots := (ledger_slots l)[j := s]\<rparr>)"
    and "taken ((ledger_slots l)[j := s]) = taken (ledger_slots l) + 1"
    and "\<And>l'. ledger_slots l' = (ledger_slots l)[j := s] \<Longrightarrow>
      ledger_map l' = (ledger_map l)(stat_key st \<mapsto> (slot_sequence s, slot_origin s))"
proof -
  have len: "length (ledger_slots l) = ledger_cap l" and ok: "table_ok (ledger_slots l)"
    using inv by (auto simp: table_inv_def)
  have masked: "slot_type s AND S_IFMT = slot_type s"
    using s(1) by (auto simp: slot_key_def stat_key_def and.assoc)
  obtain j d where j: "bx_inode_slot l st = Some j" "j < length (ledger_slots l)" "slot_type (ledger_slots l ! j) = 0"
    "j = probe_place (length (ledger_slots l)) (slot_key s) d"
    "\<And>d'. d' < d \<Longrightarrow> \<not> probe_stop (ledger_slots l) (slot_key s) (probe_place (length (ledger_slots l)) (slot_key s) d')"
    using inode_slot_absent [OF inv room absent] unfolding s(1) len by blast
  note st = table_store [OF ok j(2,3,4,5) s(2) masked]
  show thesis
    using that [OF j(1) _ st(2)] st(1) ledger_map_write [OF ok st(1) j(2) s(2)] j(3) len s(1)
    by (simp add: table_inv_def)
qed

lemma inode_rehash_map:
  assumes "table_inv l" and "taken (ledger_slots l) + taken olds < ledger_cap l"
    and "sorted_wrt (\<lambda>s t. slot_type s \<noteq> 0 \<longrightarrow> \<not> slot_holds (slot_key s) t) olds"
    and "\<forall>s \<in> set olds. slot_type s \<noteq> 0 \<longrightarrow> slot_type s AND S_IFMT = slot_type s \<and> ledger_map l (slot_key s) = None"
  shows "\<exists>l'. inode_rehash olds l = Some l' \<and> table_inv l' \<and> ledger_len l' = ledger_len l \<and>
    ledger_cap l' = ledger_cap l \<and> taken (ledger_slots l') = taken (ledger_slots l) + taken olds \<and>
    (\<forall>key. ledger_map l' key = (case List.find (slot_holds key) olds of
       Some s \<Rightarrow> Some (slot_sequence s, slot_origin s) | None \<Rightarrow> ledger_map l key))"
  using assms
proof (induction olds arbitrary: l)
  case Nil
  then show ?case by (simp add: taken_def)
next
  case (Cons s olds)
  show ?case
  proof (cases "slot_type s = 0")
    case True
    then have "\<not> slot_holds key s" for key by (simp add: slot_holds_def)
    with True Cons show ?thesis by (auto simp: taken_def)
  next
    case False
    let ?st = "\<lparr>st_dev = slot_dev s, st_ino = slot_ino s, st_mode = slot_type s\<rparr>"
    have key: "slot_key s = stat_key ?st" and absent: "ledger_map l (stat_key ?st) = None"
      using Cons.prems(4) False by (auto simp: slot_key_def stat_key_def)
    have cnt: "taken (s # olds) = Suc (taken olds)" using False by (simp add: taken_def)
    have room: "taken (ledger_slots l) < ledger_cap l" using Cons.prems(2) by simp
    obtain j where j: "bx_inode_slot l ?st = Some j" "table_inv (l\<lparr>ledger_slots := (ledger_slots l)[j := s]\<rparr>)"
      "taken ((ledger_slots l)[j := s]) = taken (ledger_slots l) + 1"
      "\<And>l'. ledger_slots l' = (ledger_slots l)[j := s] \<Longrightarrow>
        ledger_map l' = (ledger_map l)(stat_key ?st \<mapsto> (slot_sequence s, slot_origin s))"
      using inode_write_absent [OF Cons.prems(1) room absent key False] by blast
    let ?l1 = "l\<lparr>ledger_slots := (ledger_slots l)[j := s]\<rparr>"
    have m1: "ledger_map ?l1 = (ledger_map l)(slot_key s \<mapsto> (slot_sequence s, slot_origin s))"
      using j(4) [of ?l1] key by simp
    have other: "\<forall>t \<in> set olds. \<not> slot_holds (slot_key s) t" using Cons.prems(3) False by simp
    then have none: "List.find (slot_holds (slot_key s)) olds = None" by (simp add: find_None_iff)
    obtain l' where l': "inode_rehash olds ?l1 = Some l'" "table_inv l'" "ledger_len l' = ledger_len ?l1"
      "ledger_cap l' = ledger_cap ?l1" "taken (ledger_slots l') = taken (ledger_slots ?l1) + taken olds"
      "\<And>key. ledger_map l' key = (case List.find (slot_holds key) olds of
         Some s \<Rightarrow> Some (slot_sequence s, slot_origin s) | None \<Rightarrow> ledger_map ?l1 key)"
    proof (atomize_elim, rule Cons.IH [OF j(2)])
      show "taken (ledger_slots ?l1) + taken olds < ledger_cap ?l1" using Cons.prems(2) j(3) cnt by simp
      show "sorted_wrt (\<lambda>s t. slot_type s \<noteq> 0 \<longrightarrow> \<not> slot_holds (slot_key s) t) olds" using Cons.prems(3) by simp
      show "\<forall>s \<in> set olds. slot_type s \<noteq> 0 \<longrightarrow>
          slot_type s AND S_IFMT = slot_type s \<and> ledger_map ?l1 (slot_key s) = None"
        using Cons.prems(4) other unfolding m1 by (auto simp: slot_holds_def)
    qed
    have find: "List.find (slot_holds key) (s # olds) =
        (if key = slot_key s then Some s else List.find (slot_holds key) olds)" for key
      using False by (auto simp: slot_holds_def)
    have "ledger_map l' key = (case List.find (slot_holds key) (s # olds) of
        Some s \<Rightarrow> Some (slot_sequence s, slot_origin s) | None \<Rightarrow> ledger_map l key)" for key
      unfolding find l'(6) m1 using none by (simp split: option.split)
    moreover have "inode_rehash (s # olds) l = inode_rehash olds ?l1"
      using False j(1) by simp
    ultimately show ?thesis using l' j(3) cnt by (intro exI [of _ l']) simp
  qed
qed

lemma table_ok_distinct:
  assumes "table_ok slots"
  shows "sorted_wrt (\<lambda>s t. slot_type s \<noteq> 0 \<longrightarrow> \<not> slot_holds (slot_key s) t) slots"
  unfolding sorted_wrt_iff_nth_less
proof (intro allI impI notI)
  fix i j assume ij: "i < j" "j < length slots" "slot_type (slots ! i) \<noteq> 0"
    "slot_holds (slot_key (slots ! i)) (slots ! j)"
  then have "slot_holds (slot_key (slots ! i)) (slots ! i)" by (simp add: slot_holds_def)
  with holds_unique [OF assms _ ij(2) this ij(4)] ij show False by simp
qed

lemma table_ok_empty: "n = 2 ^ k \<Longrightarrow> table_ok (replicate n free_slot)"
  by (auto simp: table_ok_def free_slot_def)

lemma inode_grow_map:
  assumes inv: "inode_inv l"
  shows "\<exists>l'. inode_grow l = Some l' \<and> table_inv l' \<and> ledger_map l' = ledger_map l \<and>
    ledger_len l' = ledger_len l \<and> taken (ledger_slots l') = ledger_len l \<and>
    ledger_cap l' = (if ledger_cap l = 0 then 16 else ledger_cap l * 2)"
proof -
  define cap' where "cap' = (if ledger_cap l = 0 then 16 else ledger_cap l * 2)"
  let ?l0 = "l\<lparr>ledger_cap := cap', ledger_slots := replicate cap' free_slot\<rparr>"
  have empty: "\<not> slot_holds key free_slot" for key by (simp add: slot_holds_def free_slot_def)
  then have m0: "ledger_map ?l0 key = None" for key
    by (auto simp: ledger_map_None)
  have t0: "taken (replicate cap' free_slot) = 0" by (simp add: taken_def free_slot_def)
  have "\<exists>k. cap' = 2 ^ k"
  proof (cases "ledger_cap l = 0")
    case True
    then have "cap' = 2 ^ 4" by (simp add: cap'_def)
    then show ?thesis by blast
  next
    case False
    then have "table_ok (ledger_slots l)" using inv by (simp add: inode_inv_def)
    then obtain k where "length (ledger_slots l) = 2 ^ k" unfolding table_ok_def by blast
    then have "ledger_cap l = 2 ^ k" using inv by (simp add: inode_inv_def)
    then have "cap' = 2 ^ Suc k" by (simp add: cap'_def)
    then show ?thesis by blast
  qed
  then have inv0: "table_inv ?l0" using table_ok_empty by (auto simp: table_inv_def)
  have tab: "ledger_slots l = [] \<or> table_ok (ledger_slots l)"
    using inv unfolding inode_inv_def by (metis length_0_conv)
  then have sorted: "sorted_wrt (\<lambda>s t. slot_type s \<noteq> 0 \<longrightarrow> \<not> slot_holds (slot_key s) t) (ledger_slots l)"
    using table_ok_distinct by auto
  have olds: "\<forall>s \<in> set (ledger_slots l). slot_type s \<noteq> 0 \<longrightarrow>
      slot_type s AND S_IFMT = slot_type s \<and> ledger_map ?l0 (slot_key s) = None"
    using tab m0 by (auto simp: table_ok_def slot_placed_def in_set_conv_nth)
  have room: "taken (ledger_slots ?l0) + taken (ledger_slots l) < ledger_cap ?l0"
    using inv t0 by (auto simp: cap'_def inode_inv_def split: if_splits)
  obtain l' where l': "inode_rehash (ledger_slots l) ?l0 = Some l'" "table_inv l'" "ledger_len l' = ledger_len ?l0"
    "ledger_cap l' = ledger_cap ?l0" "taken (ledger_slots l') = taken (ledger_slots ?l0) + taken (ledger_slots l)"
    "\<And>key. ledger_map l' key = (case List.find (slot_holds key) (ledger_slots l) of
       Some s \<Rightarrow> Some (slot_sequence s, slot_origin s) | None \<Rightarrow> ledger_map ?l0 key)"
    using inode_rehash_map [OF inv0 room sorted olds] by blast
  have "ledger_map l' = ledger_map l"
    unfolding l'(6) [abs_def] m0 by (rule ext) (simp add: ledger_map_def split: option.split)
  moreover have "inode_grow l = Some l'"
    using l'(1) unfolding inode_grow_def cap'_def by (simp add: Let_def split: if_splits)
  ultimately show ?thesis using l' t0 inv by (auto simp: cap'_def inode_inv_def)
qed

lemma inode_store_map:
  assumes inv: "table_inv l" and len: "taken (ledger_slots l) = ledger_len l" "ledger_len l * 2 + 2 \<le> ledger_cap l"
    and cap: "16 \<le> ledger_cap l"
    and absent: "ledger_map l (stat_key st) = None" and ty: "st_mode st AND S_IFMT \<noteq> 0"
  shows "\<exists>l'. inode_store l st sq og = Some l' \<and> inode_inv l' \<and>
    ledger_map l' = (ledger_map l)(stat_key st \<mapsto> (sq, og)) \<and> ledger_len l' = ledger_len l + 1"
proof -
  let ?s = "\<lparr>slot_dev = st_dev st, slot_ino = st_ino st, slot_type = st_mode st AND S_IFMT,
    slot_sequence = sq, slot_origin = og\<rparr>"
  have room: "taken (ledger_slots l) < ledger_cap l" using len by simp
  have s: "slot_key ?s = stat_key st" "slot_type ?s \<noteq> 0" using ty by (simp_all add: slot_key_def stat_key_def)
  obtain j where j: "bx_inode_slot l st = Some j" "table_inv (l\<lparr>ledger_slots := (ledger_slots l)[j := ?s]\<rparr>)"
    "taken ((ledger_slots l)[j := ?s]) = taken (ledger_slots l) + 1"
    "\<And>l'. ledger_slots l' = (ledger_slots l)[j := ?s] \<Longrightarrow>
      ledger_map l' = (ledger_map l)(stat_key st \<mapsto> (slot_sequence ?s, slot_origin ?s))"
    using inode_write_absent [OF inv room absent s] by blast
  let ?l' = "l\<lparr>ledger_slots := (ledger_slots l)[j := ?s], ledger_len := ledger_len l + 1\<rparr>"
  have "inode_inv ?l'" using j(2,3) len cap by (auto simp: inode_inv_def table_inv_def)
  moreover have "ledger_map ?l' = (ledger_map l)(stat_key st \<mapsto> (sq, og))" using j(4) [of ?l'] by simp
  ultimately show ?thesis by (simp add: inode_store_def j(1))
qed

lemma inode_update_map:
  assumes inv: "inode_inv l" and present: "ledger_map l (stat_key st) \<noteq> None"
  shows "\<exists>l'. inode_update l st sq og = Some l' \<and> inode_inv l' \<and>
    ledger_map l' = (ledger_map l)(stat_key st \<mapsto> (sq, og)) \<and> ledger_len l' = ledger_len l"
proof -
  have "ledger_slots l \<noteq> []" using present by (auto simp: ledger_map_def)
  then have "ledger_cap l \<noteq> 0" using inv unfolding inode_inv_def by (metis length_0_conv)
  then have ok: "table_ok (ledger_slots l)" and len: "length (ledger_slots l) = ledger_cap l"
    using inv by (auto simp: inode_inv_def)
  obtain j where j: "j < ledger_cap l" "slot_holds (stat_key st) (ledger_slots l ! j)"
    using present len by (auto simp: ledger_map_None)
  let ?s = "(ledger_slots l ! j)\<lparr>slot_sequence := sq, slot_origin := og\<rparr>"
  have s: "slot_key ?s = slot_key (ledger_slots l ! j)" "slot_type (ledger_slots l ! j) \<noteq> 0"
    and key: "slot_key ?s = stat_key st" "slot_type ?s \<noteq> 0"
    using j(2) by (auto simp: slot_key_def slot_holds_def)
  have jl: "j < length (ledger_slots l)" using j len by simp
  note tab = table_overwrite [OF ok jl s(2,1)]
  let ?l' = "l\<lparr>ledger_slots := (ledger_slots l)[j := ?s]\<rparr>"
  have "inode_inv ?l'" using inv tab len by (auto simp: inode_inv_def)
  moreover have "ledger_map ?l' = (ledger_map l)(stat_key st \<mapsto> (sq, og))"
    using ledger_map_write [OF ok tab(1) jl key(2), of ?l'] s key by simp
  ultimately show ?thesis
    by (simp add: inode_update_def inode_slot_present [OF ok len j])
qed

lemma inode_record_map:
  assumes inv: "inode_inv l"
  shows "if st_mode st AND S_IFMT = 0 \<or> og > sq then bx_inode_ledger_record l st sq og limit = Some (Inl Inode_EINVAL)
    else if ledger_map l (stat_key st) = None \<and> (limit \<le> ledger_len l \<or>
        ((ledger_cap l = 0 \<or> ledger_cap l div 2 \<le> ledger_len l) \<and> size_max div 2 div SLOT_SIZE < ledger_cap l))
      then bx_inode_ledger_record l st sq og limit = Some (Inl Inode_E2BIG)
    else \<exists>l'. bx_inode_ledger_record l st sq og limit = Some (Inr l') \<and> inode_inv l' \<and>
      ledger_map l' = (ledger_map l)(stat_key st \<mapsto> (sq, og)) \<and>
      ledger_len l' = ledger_len l + (if ledger_map l (stat_key st) = None then 1 else 0)"
proof (cases "st_mode st AND S_IFMT = 0 \<or> og > sq")
  case True
  then show ?thesis by (simp add: bx_inode_ledger_record_def)
next
  case False
  then have ty: "st_mode st AND S_IFMT \<noteq> 0" by simp
  note lookup = inode_lookup_map [OF inv, of st]
  show ?thesis
  proof (cases "ledger_map l (stat_key st)")
    case (Some v)
    with inode_update_map [OF inv, of st sq og] False show ?thesis
      by (auto simp: bx_inode_ledger_record_def lookup)
  next
    case absent: None
    show ?thesis
    proof (cases "ledger_cap l = 0 \<or> ledger_cap l div 2 \<le> ledger_len l")
      case grow: True
      obtain l1 where l1: "inode_grow l = Some l1" "table_inv l1" "ledger_map l1 = ledger_map l"
        "ledger_len l1 = ledger_len l" "taken (ledger_slots l1) = ledger_len l"
        "ledger_cap l1 = (if ledger_cap l = 0 then 16 else ledger_cap l * 2)"
        using inode_grow_map [OF inv] by blast
      have "16 \<le> ledger_cap l1" "ledger_len l1 * 2 + 2 \<le> ledger_cap l1"
        using inv by (auto simp: l1 inode_inv_def split: if_splits)
      with inode_store_map [OF l1(2), of st sq og] l1 absent ty
      obtain l' where "inode_store l1 st sq og = Some l'" "inode_inv l'"
        "ledger_map l' = (ledger_map l)(stat_key st \<mapsto> (sq, og))" "ledger_len l' = ledger_len l + 1"
        by auto
      with False absent grow l1(1) show ?thesis by (auto simp: bx_inode_ledger_record_def lookup)
    next
      case nogrow: False
      then have "table_inv l" "taken (ledger_slots l) = ledger_len l" "ledger_len l * 2 + 2 \<le> ledger_cap l"
        "16 \<le> ledger_cap l"
        using inv by (auto simp: inode_inv_def table_inv_def)
      from inode_store_map [OF this absent ty, of sq og] False absent nogrow show ?thesis
        by (auto simp: bx_inode_ledger_record_def lookup)
    qed
  qed
qed

section \<open>The table refines a map\<close>

text \<open>
  What the users of the ledger rely on (the copy and archive writers, which record each file they
  have produced and look up its hard links): recording updates one key of a map, and the lookup
  reads it.
\<close>

locale identity_map =
  fixes inv :: "'s \<Rightarrow> bool"
    and abs_map :: "'s \<Rightarrow> 'k \<Rightarrow> 'v option"
    and key_of :: "'q \<Rightarrow> 'k"
    and lookup :: "'s \<Rightarrow> 'q \<Rightarrow> 'v option option"
    and record_op :: "'q \<times> 'v \<Rightarrow> 's \<Rightarrow> 's option"
  assumes lookup_ok: "inv s \<Longrightarrow> lookup s q = Some (abs_map s (key_of q))"
    and record_ok: "inv s \<Longrightarrow> record_op (q, v) s = Some s' \<Longrightarrow>
      inv s' \<and> abs_map s' = (abs_map s)(key_of q \<mapsto> v)"
begin

lemma records_map:
  "inv s \<Longrightarrow> run_all record_op qvs s = Some s' \<Longrightarrow>
     inv s' \<and> abs_map s' = abs_map s ++ map_of (rev (map (\<lambda>(q, v). (key_of q, v)) qvs))"
proof (induction qvs arbitrary: s)
  case (Cons qv qvs)
  obtain q v where qv: "qv = (q, v)" by (cases qv)
  with Cons.prems obtain s1 where s1: "record_op (q, v) s = Some s1" "run_all record_op qvs s1 = Some s'"
    by (auto split: option.splits)
  from Cons.IH [OF _ s1(2)] record_ok [OF Cons.prems(1) s1(1)] show ?case
    by (auto simp: qv map_add_def fun_eq_iff split: option.split)
qed simp

lemma lookup_after_records:
  "inv s \<Longrightarrow> run_all record_op qvs s = Some s' \<Longrightarrow>
     lookup s' q = Some ((abs_map s ++ map_of (rev (map (\<lambda>(q, v). (key_of q, v)) qvs))) (key_of q))"
  using records_map lookup_ok by metis

end

text \<open>The successful case of the record operation, at a given limit.\<close>

definition inode_record_ok :: "nat \<Rightarrow> file_stat \<times> u64 \<times> u64 \<Rightarrow> inode_ledger \<Rightarrow> inode_ledger option" where
  "inode_record_ok limit qv l = (case qv of (st, sq, og) \<Rightarrow>
     (case bx_inode_ledger_record l st sq og limit of Some (Inr l') \<Rightarrow> Some l' | _ \<Rightarrow> None))"

interpretation inode: identity_map inode_inv ledger_map stat_key bx_inode_ledger_lookup
  "inode_record_ok limit" for limit
proof unfold_locales
  fix l l' :: inode_ledger and st :: file_stat and v :: "u64 \<times> u64"
  assume inv: "inode_inv l"
  show "bx_inode_ledger_lookup l st = Some (ledger_map l (stat_key st))" by (rule inode_lookup_map [OF inv])
  assume "inode_record_ok limit (st, v) l = Some l'"
  then have "bx_inode_ledger_record l st (fst v) (snd v) limit = Some (Inr l')"
    by (auto simp: inode_record_ok_def split: prod.splits option.splits sum.splits)
  then show "inode_inv l' \<and> ledger_map l' = (ledger_map l)(stat_key st \<mapsto> v)"
    using inode_record_map [OF inv, of st "fst v" "snd v" limit] by (auto split: if_splits)
qed

lemma inode_zero_ok: "inode_inv inode_ledger_zero" "ledger_map inode_ledger_zero = (\<lambda>key. None)"
  by (auto simp: inode_inv_def inode_ledger_zero_def ledger_map_def taken_def)

text \<open>
  C6: recording always returns. It is refused with \<open>EINVAL\<close> for a file without a type or an origin
  after the sequence number, and with \<open>E2BIG\<close> for a new identity when the limit is reached or the
  table cannot double; otherwise exactly this identity is mapped to the new pair, whatever growth
  and rehashing it takes, and only a new identity counts towards the limit.
\<close>

theorem inode_ledger_record_refines:
  assumes "inode_inv l"
  shows "if st_mode st AND S_IFMT = 0 \<or> og > sq then bx_inode_ledger_record l st sq og limit = Some (Inl Inode_EINVAL)
    else if ledger_map l (stat_key st) = None \<and> (limit \<le> ledger_len l \<or>
        ((ledger_cap l = 0 \<or> ledger_cap l div 2 \<le> ledger_len l) \<and> size_max div 2 div SLOT_SIZE < ledger_cap l))
      then bx_inode_ledger_record l st sq og limit = Some (Inl Inode_E2BIG)
    else \<exists>l'. bx_inode_ledger_record l st sq og limit = Some (Inr l') \<and> inode_inv l' \<and>
      ledger_map l' = (ledger_map l)(stat_key st \<mapsto> (sq, og)) \<and>
      ledger_len l' = ledger_len l + (if ledger_map l (stat_key st) = None then 1 else 0)"
  using assms by (rule inode_record_map)

text \<open>
  After any sequence of successful recordings into an empty ledger, a lookup returns and gives
  the pair recorded last for that identity, or nothing when it was never recorded.
\<close>

lemma inode_ledger_last_record:
  assumes "run_all (inode_record_ok limit) recs inode_ledger_zero = Some l"
  shows "bx_inode_ledger_lookup l st = Some (map_of (rev (map (\<lambda>(q, v). (stat_key q, v)) recs)) (stat_key st))"
  using inode.lookup_after_records [OF inode_zero_ok(1) assms, of st] by (simp add: inode_zero_ok(2) map_add_def split: option.split)

definition sample_stat :: file_stat where
  "sample_stat = \<lparr>st_dev = 1, st_ino = 42, st_mode = 0x81A4\<rparr>"

theorem inode_ledger_record_refines_witness:
  "if st_mode sample_stat AND S_IFMT = 0 \<or> (3 :: u64) > 7
    then bx_inode_ledger_record inode_ledger_zero sample_stat 7 3 5 = Some (Inl Inode_EINVAL)
    else if ledger_map inode_ledger_zero (stat_key sample_stat) = None \<and> (5 \<le> ledger_len inode_ledger_zero \<or>
        ((ledger_cap inode_ledger_zero = 0 \<or> ledger_cap inode_ledger_zero div 2 \<le> ledger_len inode_ledger_zero) \<and>
          size_max div 2 div SLOT_SIZE < ledger_cap inode_ledger_zero))
      then bx_inode_ledger_record inode_ledger_zero sample_stat 7 3 5 = Some (Inl Inode_E2BIG)
    else \<exists>l'. bx_inode_ledger_record inode_ledger_zero sample_stat 7 3 5 = Some (Inr l') \<and> inode_inv l' \<and>
      ledger_map l' = (ledger_map inode_ledger_zero)(stat_key sample_stat \<mapsto> (7, 3)) \<and>
      ledger_len l' = ledger_len inode_ledger_zero +
        (if ledger_map inode_ledger_zero (stat_key sample_stat) = None then 1 else 0)"
  by (rule inode_ledger_record_refines [OF inode_zero_ok(1)])

theorem inode_ledger_last_record_witness:
  "bx_inode_ledger_lookup (the (run_all (inode_record_ok 5) [(sample_stat, 7, 3)] inode_ledger_zero)) sample_stat =
    Some (map_of (rev (map (\<lambda>(q, v). (stat_key q, v)) [(sample_stat, 7, 3)])) (stat_key sample_stat))"
proof (rule inode_ledger_last_record)
  have "\<exists>l. run_all (inode_record_ok 5) [(sample_stat, 7, 3)] inode_ledger_zero = Some l"
    using inode_record_map [OF inode_zero_ok(1), of sample_stat 7 3 5]
    by (auto simp: inode_record_ok_def inode_zero_ok(2) sample_stat_def inode_ledger_zero_def)
  then show "run_all (inode_record_ok 5) [(sample_stat, 7, 3)] inode_ledger_zero =
      Some (the (run_all (inode_record_ok 5) [(sample_stat, 7, 3)] inode_ledger_zero))" by auto
qed

end
