(* ===== verification/CancelState.thy ===== *)
theory CancelState
  imports Prelude
begin

text \<open>
  \<open>src/src/lib/cancel_state.c\<close>: the phases of a cancellation, one bit each in an atomic word. Every
  operation is one atomic access, so a run of several threads is a list of operations in the order
  in which the accesses take effect. The enumeration is its integer values, since a caller may pass
  any combination of bits.
\<close>

section \<open>Phases and operations\<close>

abbreviation CANCEL_REQUESTED :: u32 where "CANCEL_REQUESTED \<equiv> 0x01"
abbreviation CANCEL_OBSERVED :: u32 where "CANCEL_OBSERVED \<equiv> 0x02"
abbreviation CANCEL_DRAINING :: u32 where "CANCEL_DRAINING \<equiv> 0x04"
abbreviation CANCEL_KILLED :: u32 where "CANCEL_KILLED \<equiv> 0x08"
abbreviation CANCEL_JOINED :: u32 where "CANCEL_JOINED \<equiv> 0x10"
abbreviation CANCEL_PUBLISHED :: u32 where "CANCEL_PUBLISHED \<equiv> 0x20"

definition CANCEL_ALL_PHASES :: u32 where
  "CANCEL_ALL_PHASES = CANCEL_REQUESTED OR CANCEL_OBSERVED OR CANCEL_DRAINING OR CANCEL_KILLED OR
     CANCEL_JOINED OR CANCEL_PUBLISHED"

record bx_cancel_state =
  phases :: u32

definition bx_cancel_state_phase_valid :: "u32 \<Rightarrow> bool" where
  "bx_cancel_state_phase_valid phase \<longleftrightarrow>
     phase \<noteq> 0 \<and> phase AND NOT CANCEL_ALL_PHASES = 0 \<and> phase AND (phase - 1) = 0"

definition bx_cancel_state_init :: bx_cancel_state where
  "bx_cancel_state_init = \<lparr>phases = 0\<rparr>"

definition bx_cancel_state_snapshot :: "bx_cancel_state \<Rightarrow> u32" where
  "bx_cancel_state_snapshot st = phases st"

definition bx_cancel_state_has_phase :: "bx_cancel_state \<Rightarrow> u32 \<Rightarrow> bool" where
  "bx_cancel_state_has_phase st phase \<longleftrightarrow>
     (if \<not> bx_cancel_state_phase_valid phase then False
      else bx_cancel_state_snapshot st AND phase \<noteq> 0)"

definition bx_cancel_state_mark_phase :: "bx_cancel_state \<Rightarrow> u32 \<Rightarrow> bool \<times> bx_cancel_state" where
  "bx_cancel_state_mark_phase st phase =
     (if \<not> bx_cancel_state_phase_valid phase then (False, st)
      else let previous = phases st in (previous AND phase = 0, st\<lparr>phases := previous OR phase\<rparr>))"

definition bx_cancel_state_requested :: "bx_cancel_state \<Rightarrow> bool" where
  "bx_cancel_state_requested st \<longleftrightarrow> phases st AND CANCEL_REQUESTED \<noteq> 0"

definition bx_cancel_state_mark_requested :: "bx_cancel_state \<Rightarrow> bool \<times> bx_cancel_state" where
  "bx_cancel_state_mark_requested st = bx_cancel_state_mark_phase st CANCEL_REQUESTED"

definition bx_cancel_state_request :: "bx_cancel_state \<Rightarrow> bool \<times> bx_cancel_state" where
  "bx_cancel_state_request st = bx_cancel_state_mark_requested st"

definition bx_cancel_state_observed :: "bx_cancel_state \<Rightarrow> bool" where
  "bx_cancel_state_observed st = bx_cancel_state_has_phase st CANCEL_OBSERVED"

definition bx_cancel_state_mark_observed :: "bx_cancel_state \<Rightarrow> bool \<times> bx_cancel_state" where
  "bx_cancel_state_mark_observed st = bx_cancel_state_mark_phase st CANCEL_OBSERVED"

definition bx_cancel_state_draining :: "bx_cancel_state \<Rightarrow> bool" where
  "bx_cancel_state_draining st = bx_cancel_state_has_phase st CANCEL_DRAINING"

definition bx_cancel_state_mark_draining :: "bx_cancel_state \<Rightarrow> bool \<times> bx_cancel_state" where
  "bx_cancel_state_mark_draining st = bx_cancel_state_mark_phase st CANCEL_DRAINING"

definition bx_cancel_state_killed :: "bx_cancel_state \<Rightarrow> bool" where
  "bx_cancel_state_killed st = bx_cancel_state_has_phase st CANCEL_KILLED"

definition bx_cancel_state_mark_killed :: "bx_cancel_state \<Rightarrow> bool \<times> bx_cancel_state" where
  "bx_cancel_state_mark_killed st = bx_cancel_state_mark_phase st CANCEL_KILLED"

definition bx_cancel_state_joined :: "bx_cancel_state \<Rightarrow> bool" where
  "bx_cancel_state_joined st = bx_cancel_state_has_phase st CANCEL_JOINED"

definition bx_cancel_state_mark_joined :: "bx_cancel_state \<Rightarrow> bool \<times> bx_cancel_state" where
  "bx_cancel_state_mark_joined st = bx_cancel_state_mark_phase st CANCEL_JOINED"

definition bx_cancel_state_published :: "bx_cancel_state \<Rightarrow> bool" where
  "bx_cancel_state_published st = bx_cancel_state_has_phase st CANCEL_PUBLISHED"

definition bx_cancel_state_mark_published :: "bx_cancel_state \<Rightarrow> bool \<times> bx_cancel_state" where
  "bx_cancel_state_mark_published st = bx_cancel_state_mark_phase st CANCEL_PUBLISHED"

section \<open>Exactly one caller wins each phase\<close>

text \<open>A valid phase is one of the six bits.\<close>

lemma phase_valid_bits:
  "bx_cancel_state_phase_valid p \<longleftrightarrow> p \<in> {0x01, 0x02, 0x04, 0x08, 0x10, 0x20}"
proof
  assume valid: "bx_cancel_state_phase_valid p"
  have all: "CANCEL_ALL_PHASES = 63" by (simp add: CANCEL_ALL_PHASES_def)
  have "p AND NOT CANCEL_ALL_PHASES = 0" using valid by (simp add: bx_cancel_state_phase_valid_def)
  then have "p \<le> CANCEL_ALL_PHASES" by (rule within_mask_le)
  then have "unat p < 64" by (simp add: all word_le_nat_alt)
  moreover have "\<forall>n \<in> set [0..<64]. bx_cancel_state_phase_valid (of_nat n) \<longrightarrow>
      of_nat n \<in> {0x01, 0x02, 0x04, 0x08, 0x10, 0x20 :: u32}"
    by code_simp
  ultimately show "p \<in> {0x01, 0x02, 0x04, 0x08, 0x10, 0x20}"
    using valid by (auto dest!: bspec [of _ _ "unat p"])
next
  assume "p \<in> {0x01, 0x02, 0x04, 0x08, 0x10, 0x20}"
  then show "bx_cancel_state_phase_valid p"
    by (auto simp: bx_cancel_state_phase_valid_def CANCEL_ALL_PHASES_def)
qed


text \<open>Two valid phases share no bit unless they are the same.\<close>

lemma phase_valid_disjoint:
  "bx_cancel_state_phase_valid p \<Longrightarrow> bx_cancel_state_phase_valid q \<Longrightarrow> p \<noteq> q \<Longrightarrow> p AND q = 0"
  by (auto simp: phase_valid_bits)

lemma phase_valid_nonzero: "bx_cancel_state_phase_valid p \<Longrightarrow> p \<noteq> 0"
  by (simp add: bx_cancel_state_phase_valid_def)

text \<open>The answers of a sequence of marking calls, and the state after it.\<close>

fun mark_all :: "u32 list \<Rightarrow> bx_cancel_state \<Rightarrow> bool list \<times> bx_cancel_state" where
  "mark_all [] st = ([], st)"
| "mark_all (p # ps) st =
     (case bx_cancel_state_mark_phase st p of (won, st1) \<Rightarrow>
      case mark_all ps st1 of (wons, st2) \<Rightarrow> (won # wons, st2))"

lemma has_phase_mark:
  assumes "bx_cancel_state_phase_valid q"
  shows "bx_cancel_state_has_phase (snd (bx_cancel_state_mark_phase st p)) q \<longleftrightarrow>
    p = q \<or> bx_cancel_state_has_phase st q"
proof (cases "bx_cancel_state_phase_valid p")
  case True
  have "(phases st OR p) AND q = (phases st AND q) OR (p AND q)" by (simp add: word_ao_dist)
  then show ?thesis
    using assms True phase_valid_disjoint [OF True assms] phase_valid_nonzero [OF assms]
    by (cases "p = q")
      (auto simp: bx_cancel_state_has_phase_def bx_cancel_state_mark_phase_def bx_cancel_state_snapshot_def Let_def)
next
  case False
  then show ?thesis using assms by (auto simp: bx_cancel_state_mark_phase_def)
qed

lemma mark_wins: "fst (bx_cancel_state_mark_phase st p) \<longleftrightarrow>
    bx_cancel_state_phase_valid p \<and> \<not> bx_cancel_state_has_phase st p"
  by (simp add: bx_cancel_state_mark_phase_def bx_cancel_state_has_phase_def bx_cancel_state_snapshot_def Let_def)

lemma mark_all_from:
  "length (fst (mark_all ps st)) = length ps \<and>
   (\<forall>i < length ps. fst (mark_all ps st) ! i \<longleftrightarrow>
      bx_cancel_state_phase_valid (ps ! i) \<and> \<not> bx_cancel_state_has_phase st (ps ! i) \<and> ps ! i \<notin> set (take i ps)) \<and>
   (\<forall>q. bx_cancel_state_has_phase (snd (mark_all ps st)) q \<longleftrightarrow>
      bx_cancel_state_phase_valid q \<and> (q \<in> set ps \<or> bx_cancel_state_has_phase st q))"
proof (induction ps arbitrary: st)
  case Nil
  then show ?case by (auto simp: bx_cancel_state_has_phase_def)
next
  case (Cons p ps)
  obtain won st1 where m: "bx_cancel_state_mark_phase st p = (won, st1)"
    by (cases "bx_cancel_state_mark_phase st p")
  obtain wons st2 where ms: "mark_all ps st1 = (wons, st2)" by (cases "mark_all ps st1")
  have won: "won \<longleftrightarrow> bx_cancel_state_phase_valid p \<and> \<not> bx_cancel_state_has_phase st p"
    using mark_wins [of st p] m by simp
  have has1: "bx_cancel_state_phase_valid q \<Longrightarrow>
      bx_cancel_state_has_phase st1 q \<longleftrightarrow> p = q \<or> bx_cancel_state_has_phase st q" for q
    using has_phase_mark [of q st p] m by simp
  have IH: "length wons = length ps"
    "\<forall>i < length ps. wons ! i \<longleftrightarrow> bx_cancel_state_phase_valid (ps ! i) \<and>
       \<not> bx_cancel_state_has_phase st1 (ps ! i) \<and> ps ! i \<notin> set (take i ps)"
    "\<forall>q. bx_cancel_state_has_phase st2 q \<longleftrightarrow> bx_cancel_state_phase_valid q \<and>
       (q \<in> set ps \<or> bx_cancel_state_has_phase st1 q)"
    using Cons.IH [of st1] ms by auto
  have "(won # wons) ! i \<longleftrightarrow> bx_cancel_state_phase_valid ((p # ps) ! i) \<and>
      \<not> bx_cancel_state_has_phase st ((p # ps) ! i) \<and> (p # ps) ! i \<notin> set (take i (p # ps))"
    if "i < length (p # ps)" for i
    using that won IH(2) has1 by (cases i) auto
  moreover have "bx_cancel_state_has_phase st2 q \<longleftrightarrow> bx_cancel_state_phase_valid q \<and>
      (q \<in> set (p # ps) \<or> bx_cancel_state_has_phase st q)" for q
    using IH(3) has1 by auto
  ultimately show ?case using m ms IH(1) by simp
qed

text \<open>
  However the marking calls of several threads interleave, each valid phase is won by exactly
  the first call that names it, calls with anything but one of the six phases never win and change
  nothing, and afterwards precisely the phases named are set.
\<close>

lemma cancel_mark_first_wins:
  "fst (mark_all ps bx_cancel_state_init) =
     map (\<lambda>i. bx_cancel_state_phase_valid (ps ! i) \<and> ps ! i \<notin> set (take i ps)) [0..<length ps] \<and>
   bx_cancel_state_has_phase (snd (mark_all ps bx_cancel_state_init)) q =
     (bx_cancel_state_phase_valid q \<and> q \<in> set ps)"
proof -
  have "\<not> bx_cancel_state_has_phase bx_cancel_state_init q" for q
    by (simp add: bx_cancel_state_has_phase_def bx_cancel_state_init_def bx_cancel_state_snapshot_def)
  then show ?thesis using mark_all_from [of ps bx_cancel_state_init] by (auto intro: nth_equalityI)
qed

text \<open>The query and marking operations of each phase in terms of the general ones.\<close>

lemmas cancel_query_defs = bx_cancel_state_observed_def bx_cancel_state_draining_def
  bx_cancel_state_killed_def bx_cancel_state_joined_def bx_cancel_state_published_def

lemmas cancel_mark_defs = bx_cancel_state_mark_observed_def bx_cancel_state_mark_draining_def
  bx_cancel_state_mark_killed_def bx_cancel_state_mark_joined_def bx_cancel_state_mark_published_def
  bx_cancel_state_mark_requested_def bx_cancel_state_request_def

lemma requested_has_phase: "bx_cancel_state_requested st = bx_cancel_state_has_phase st CANCEL_REQUESTED"
  by (simp add: bx_cancel_state_requested_def bx_cancel_state_has_phase_def bx_cancel_state_snapshot_def
      phase_valid_bits)

end
