(* ===== verification/OrderedPublication.thy ===== *)
theory OrderedPublication
  imports CancelState
begin

text \<open>
  \<open>src/src/lib/ordered_publication.c\<close>: packets are numbered when they are handed to workers, come
  back in any order, and are published by the owner in the order of their numbers, with a bound on
  how many are under way. Every section that holds the lock is one function on the state; the
  callbacks and the waiting run without it. The step relation lets the workers deliver packets
  between any two sections of the owner. Sequence numbers count from 0 in 64 bits and are naturals
  here. The callbacks \<open>publish\<close> and \<open>dispose\<close> belong to the caller: publishing may succeed or
  fail, and the model records that it was called.
\<close>

section \<open>The state and its locked sections\<close>

record 'p packet =
  pkt_seq :: nat
  pkt_body :: 'p

record 'p op_state =
  op_cancel :: "bx_cancel_state option" \<comment> \<open>\<open>None\<close> for a null pointer\<close>
  pending_head :: "'p packet list"
  max_inflight :: nat
  inflight :: nat
  next_submit_seq :: nat
  next_publish_seq :: nat

definition op_init :: "bx_cancel_state option \<Rightarrow> nat \<Rightarrow> 'p op_state option" where
  "op_init cancel max_inf =
     (if max_inf = 0 then None
      else Some \<lparr>op_cancel = cancel, pending_head = [], max_inflight = max_inf, inflight = 0,
             next_submit_seq = 0, next_publish_seq = 0\<rparr>)"

fun insert_pending :: "'p packet list \<Rightarrow> 'p packet \<Rightarrow> 'p packet list" where
  "insert_pending [] packet = [packet]"
| "insert_pending (q # qs) packet =
     (if pkt_seq q < pkt_seq packet then q # insert_pending qs packet else packet # q # qs)"

text \<open>First locked section of \<open>flush_ready\<close>: take the packet whose turn it is.\<close>

definition flush_take :: "'p op_state \<Rightarrow> 'p packet option \<times> 'p op_state" where
  "flush_take st =
     (case pending_head st of
        packet # rest \<Rightarrow>
          if pkt_seq packet = next_publish_seq st
          then (Some packet, st\<lparr>pending_head := rest, next_publish_seq := next_publish_seq st + 1\<rparr>)
          else (None, st)
      | [] \<Rightarrow> (None, st))"

text \<open>What a failed publish does to the shared cancellation state.\<close>

definition flush_cancel :: "'p op_state \<Rightarrow> 'p op_state" where
  "flush_cancel st =
     (case op_cancel st of
        None \<Rightarrow> st
      | Some c \<Rightarrow> st\<lparr>op_cancel := Some (snd (bx_cancel_state_mark_draining
          (snd (bx_cancel_state_mark_observed (snd (bx_cancel_state_request c))))))\<rparr>)"

text \<open>Second locked section of \<open>flush_ready\<close>.\<close>

definition flush_finish :: "'p op_state \<Rightarrow> 'p op_state" where
  "flush_finish st = (if inflight st > 0 then st\<lparr>inflight := inflight st - 1\<rparr> else st)"

definition must_wait :: "'p op_state \<Rightarrow> bool" where
  "must_wait st \<longleftrightarrow>
     (case pending_head st of [] \<Rightarrow> True | packet # _ \<Rightarrow> pkt_seq packet \<noteq> next_publish_seq st) \<and> inflight st > 0"

definition reserve_try :: "'p op_state \<Rightarrow> nat option \<times> 'p op_state" where
  "reserve_try st =
     (if inflight st < max_inflight st
      then (Some (next_submit_seq st), st\<lparr>next_submit_seq := next_submit_seq st + 1, inflight := inflight st + 1\<rparr>)
      else (None, st))"

definition release_slot :: "'p op_state \<Rightarrow> 'p op_state" where
  "release_slot st = (if inflight st > 0 then st\<lparr>inflight := inflight st - 1\<rparr> else st)"

definition publish_packet :: "'p op_state \<Rightarrow> 'p packet \<Rightarrow> 'p op_state" where
  "publish_packet st packet = st\<lparr>pending_head := insert_pending (pending_head st) packet\<rparr>"

definition drain_done :: "'p op_state \<Rightarrow> bool" where
  "drain_done st \<longleftrightarrow> inflight st = 0"

text \<open>Cleanup: the packets handed to \<open>dispose\<close>, and the zeroed state.\<close>

definition op_cleanup :: "'p op_state \<Rightarrow> 'p packet list \<times> 'p op_state" where
  "op_cleanup st = (pending_head st,
     \<lparr>op_cancel = None, pending_head = [], max_inflight = 0, inflight = 0, next_submit_seq = 0, next_publish_seq = 0\<rparr>)"

section \<open>Owner and workers\<close>

text \<open>
  Where the owner is inside \<open>reserve_slot\<close> or \<open>drain\<close>. Both are the loop flush, check under the
  lock, wait; \<open>flush_ready\<close> is itself the loop take, publish, finish.
\<close>

datatype op_call = Reserve | Drain

datatype 'p op_owner =
    Owner_Returned op_call bool \<comment> \<open>outside the helper; the last call and its result\<close>
  | Owner_Flush op_call \<comment> \<open>before the first locked section of \<open>flush_ready\<close>\<close>
  | Owner_Publish op_call "'p packet" \<comment> \<open>before the callback\<close>
  | Owner_Finish op_call bool \<comment> \<open>before the second locked section; whether publishing succeeded\<close>
  | Owner_Check op_call \<comment> \<open>\<open>flush_ready\<close> returned true\<close>
  | Owner_Wait op_call

text \<open>
  The whole system: the state, the owner, the numbers that workers hold, those given up by
  \<open>release_slot\<close>, and the numbers passed to the publish callback so far.
\<close>

record 'p op_system =
  sys_state :: "'p op_state"
  sys_owner :: "'p op_owner"
  sys_working :: "nat set"
  sys_released :: "nat set"
  sys_log :: "nat list"

inductive op_step :: "'p op_system \<Rightarrow> 'p op_system \<Rightarrow> bool" where
  step_call: "sys_owner s = Owner_Returned c0 r \<Longrightarrow> op_step s (s\<lparr>sys_owner := Owner_Flush c\<rparr>)"
| step_take: "sys_owner s = Owner_Flush c \<Longrightarrow> flush_take (sys_state s) = (Some p, st) \<Longrightarrow>
    op_step s (s\<lparr>sys_state := st, sys_owner := Owner_Publish c p\<rparr>)"
| step_empty: "sys_owner s = Owner_Flush c \<Longrightarrow> flush_take (sys_state s) = (None, st) \<Longrightarrow>
    op_step s (s\<lparr>sys_state := st, sys_owner := Owner_Check c\<rparr>)"
| step_publish: "sys_owner s = Owner_Publish c p \<Longrightarrow>
    op_step s (s\<lparr>sys_owner := Owner_Finish c True, sys_log := sys_log s @ [pkt_seq p]\<rparr>)"
| step_publish_fail: "sys_owner s = Owner_Publish c p \<Longrightarrow>
    op_step s (s\<lparr>sys_state := flush_cancel (sys_state s), sys_owner := Owner_Finish c False,
      sys_log := sys_log s @ [pkt_seq p]\<rparr>)"
| step_finish: "sys_owner s = Owner_Finish c ok \<Longrightarrow>
    op_step s (s\<lparr>sys_state := flush_finish (sys_state s),
      sys_owner := (if ok then Owner_Flush c else Owner_Returned c False)\<rparr>)"
| step_reserved: "sys_owner s = Owner_Check Reserve \<Longrightarrow> reserve_try (sys_state s) = (Some sq, st) \<Longrightarrow>
    op_step s (s\<lparr>sys_state := st, sys_owner := Owner_Returned Reserve True,
      sys_working := insert sq (sys_working s)\<rparr>)"
| step_full: "sys_owner s = Owner_Check Reserve \<Longrightarrow> reserve_try (sys_state s) = (None, st) \<Longrightarrow>
    op_step s (s\<lparr>sys_state := st, sys_owner := Owner_Wait Reserve\<rparr>)"
| step_drained: "sys_owner s = Owner_Check Drain \<Longrightarrow> drain_done (sys_state s) \<Longrightarrow>
    op_step s (s\<lparr>sys_owner := Owner_Returned Drain True\<rparr>)"
| step_undrained: "sys_owner s = Owner_Check Drain \<Longrightarrow> \<not> drain_done (sys_state s) \<Longrightarrow>
    op_step s (s\<lparr>sys_owner := Owner_Wait Drain\<rparr>)"
| step_wake: "sys_owner s = Owner_Wait c \<Longrightarrow> \<not> must_wait (sys_state s) \<Longrightarrow>
    op_step s (s\<lparr>sys_owner := Owner_Flush c\<rparr>)"
| step_release: "sys_owner s = Owner_Returned c0 r \<Longrightarrow> sq \<in> sys_working s \<Longrightarrow>
    op_step s (s\<lparr>sys_state := release_slot (sys_state s), sys_working := sys_working s - {sq},
      sys_released := insert sq (sys_released s)\<rparr>)"
| step_deliver: "pkt_seq p \<in> sys_working s \<Longrightarrow>
    op_step s (s\<lparr>sys_state := publish_packet (sys_state s) p, sys_working := sys_working s - {pkt_seq p}\<rparr>)"

inductive_cases op_step_cases: "op_step s s'"

definition op_start :: "'p op_state \<Rightarrow> 'p op_system" where
  "op_start st = \<lparr>sys_state = st, sys_owner = Owner_Returned Drain True, sys_working = {}, sys_released = {},
     sys_log = []\<rparr>"

definition op_reachable :: "nat \<Rightarrow> 'p op_system \<Rightarrow> bool" where
  "op_reachable max_inf s \<longleftrightarrow>
     (\<exists>cancel st. op_init cancel max_inf = Some st \<and> op_step\<^sup>*\<^sup>* (op_start st) s)"

section \<open>Invariant\<close>

definition pending_seqs :: "'p op_state \<Rightarrow> nat set" where
  "pending_seqs st = pkt_seq ` set (pending_head st)"

text \<open>One packet is in the owner's hands between the two locked sections.\<close>

definition owner_holds :: "'p op_owner \<Rightarrow> nat" where
  "owner_holds ow = (case ow of Owner_Publish _ _ \<Rightarrow> 1 | Owner_Finish _ _ \<Rightarrow> 1 | _ \<Rightarrow> 0)"

definition op_counts :: "nat \<Rightarrow> 'p op_system \<Rightarrow> bool" where
  "op_counts max_inf s \<longleftrightarrow> (let st = sys_state s in
     max_inflight st = max_inf \<and> inflight st \<le> max_inf \<and> finite (sys_working s) \<and>
     inflight st = card (sys_working s) + length (pending_head st) + owner_holds (sys_owner s))"

definition op_window :: "'p op_system \<Rightarrow> bool" where
  "op_window s \<longleftrightarrow> (let st = sys_state s in
     sorted_wrt (<) (map pkt_seq (pending_head st)) \<and>
     sys_working s \<inter> pending_seqs st = {} \<and> sys_working s \<inter> sys_released s = {} \<and>
     pending_seqs st \<inter> sys_released s = {} \<and>
     sys_working s \<union> pending_seqs st \<union> sys_released s = {next_publish_seq st..<next_submit_seq st} \<and>
     next_publish_seq st \<le> next_submit_seq st)"

definition op_logged :: "'p op_system \<Rightarrow> bool" where
  "op_logged s \<longleftrightarrow> (case sys_owner s of
        Owner_Publish c p \<Rightarrow> sys_log s = [0..<pkt_seq p] \<and> next_publish_seq (sys_state s) = Suc (pkt_seq p)
      | Owner_Returned Drain True \<Rightarrow> inflight (sys_state s) = 0 \<and> sys_log s = [0..<next_publish_seq (sys_state s)]
      | _ \<Rightarrow> sys_log s = [0..<next_publish_seq (sys_state s)])"

definition op_inv :: "nat \<Rightarrow> 'p op_system \<Rightarrow> bool" where
  "op_inv max_inf s \<longleftrightarrow> op_counts max_inf s \<and> op_window s \<and> op_logged s"

lemmas op_inv_defs = op_inv_def op_counts_def op_window_def op_logged_def Let_def

lemma set_insert_pending [simp]: "set (insert_pending qs p) = insert p (set qs)"
  by (induction qs) auto

lemma length_insert_pending [simp]: "length (insert_pending qs p) = Suc (length qs)"
  by (induction qs) auto

lemma sorted_insert_pending:
  "sorted_wrt (<) (map pkt_seq qs) \<Longrightarrow> pkt_seq p \<notin> pkt_seq ` set qs \<Longrightarrow>
     sorted_wrt (<) (map pkt_seq (insert_pending qs p))"
  by (induction qs) auto

lemma pending_seqs_publish [simp]:
  "pending_seqs (publish_packet st p) = insert (pkt_seq p) (pending_seqs st)"
  by (simp add: pending_seqs_def publish_packet_def)

lemma flush_takeE:
  assumes "flush_take st = (Some p, st')"
  obtains rest where "pending_head st = p # rest" and "pkt_seq p = next_publish_seq st"
    and "st' = st\<lparr>pending_head := rest, next_publish_seq := next_publish_seq st + 1\<rparr>"
  using assms by (auto simp: flush_take_def split: list.splits if_splits)

lemma flush_take_None: "flush_take st = (None, st') \<Longrightarrow> st' = st"
  by (auto simp: flush_take_def split: list.splits if_splits)

lemma flush_cancel_simps [simp]:
  "pending_head (flush_cancel st) = pending_head st" "max_inflight (flush_cancel st) = max_inflight st"
  "inflight (flush_cancel st) = inflight st" "next_submit_seq (flush_cancel st) = next_submit_seq st"
  "next_publish_seq (flush_cancel st) = next_publish_seq st" "pending_seqs (flush_cancel st) = pending_seqs st"
  by (simp_all add: flush_cancel_def pending_seqs_def split: option.split)

lemma flush_finish_simps [simp]:
  "pending_head (flush_finish st) = pending_head st" "max_inflight (flush_finish st) = max_inflight st"
  "inflight (flush_finish st) = inflight st - 1" "next_submit_seq (flush_finish st) = next_submit_seq st"
  "next_publish_seq (flush_finish st) = next_publish_seq st" "pending_seqs (flush_finish st) = pending_seqs st"
  by (simp_all add: flush_finish_def pending_seqs_def)

lemma release_slot_simps [simp]:
  "pending_head (release_slot st) = pending_head st" "max_inflight (release_slot st) = max_inflight st"
  "inflight (release_slot st) = inflight st - 1" "next_submit_seq (release_slot st) = next_submit_seq st"
  "next_publish_seq (release_slot st) = next_publish_seq st" "pending_seqs (release_slot st) = pending_seqs st"
  by (simp_all add: release_slot_def pending_seqs_def)

lemma publish_packet_simps [simp]:
  "max_inflight (publish_packet st p) = max_inflight st" "inflight (publish_packet st p) = inflight st"
  "next_submit_seq (publish_packet st p) = next_submit_seq st"
  "next_publish_seq (publish_packet st p) = next_publish_seq st"
  "pending_head (publish_packet st p) = insert_pending (pending_head st) p"
  by (simp_all add: publish_packet_def)

lemma op_inv_take:
  assumes inv: "op_inv m s" and ow: "sys_owner s = Owner_Flush c" and take: "flush_take (sys_state s) = (Some p, st)"
  shows "op_inv m (s\<lparr>sys_state := st, sys_owner := Owner_Publish c p\<rparr>)"
proof -
  from take obtain rest where r: "pending_head (sys_state s) = p # rest"
    "pkt_seq p = next_publish_seq (sys_state s)"
    "st = (sys_state s)\<lparr>pending_head := rest, next_publish_seq := next_publish_seq (sys_state s) + 1\<rparr>"
    by (rule flush_takeE)
  let ?n = "next_publish_seq (sys_state s)"
  have later: "\<forall>q \<in> pkt_seq ` set rest. ?n < q"
    using inv r by (auto simp: op_inv_defs)
  have un: "sys_working s \<union> insert ?n (pkt_seq ` set rest) \<union> sys_released s = {?n..<next_submit_seq (sys_state s)}"
    and disj: "?n \<notin> sys_working s" "?n \<notin> sys_released s"
    using inv r by (auto simp: op_inv_defs pending_seqs_def)
  have mem: "?n \<in> {?n..<next_submit_seq (sys_state s)}" using un by blast
  have "sys_working s \<union> pkt_seq ` set rest \<union> sys_released s =
      (sys_working s \<union> insert ?n (pkt_seq ` set rest) \<union> sys_released s) - {?n}"
    using disj later by auto
  also have "\<dots> = {Suc ?n..<next_submit_seq (sys_state s)}"
    unfolding un by auto
  finally show ?thesis
    using inv ow r mem by (auto simp: op_inv_defs pending_seqs_def owner_holds_def)
qed

lemma op_inv_deliver:
  assumes inv: "op_inv m s" and w: "pkt_seq p \<in> sys_working s"
  shows "op_inv m (s\<lparr>sys_state := publish_packet (sys_state s) p, sys_working := sys_working s - {pkt_seq p}\<rparr>)"
proof -
  have new: "pkt_seq p \<notin> pkt_seq ` set (pending_head (sys_state s))"
    using inv w by (auto simp: op_inv_defs pending_seqs_def)
  have card: "card (sys_working s) = Suc (card (sys_working s - {pkt_seq p}))"
    using inv w by (intro card.remove) (auto simp: op_inv_def op_counts_def Let_def)
  have pos: "inflight (sys_state s) \<noteq> 0" using inv card by (simp add: op_inv_defs)
  have un: "(sys_working s - {pkt_seq p}) \<union> insert (pkt_seq p) (pending_seqs (sys_state s)) \<union> sys_released s =
      sys_working s \<union> pending_seqs (sys_state s) \<union> sys_released s"
    using w by auto
  let ?s' = "s\<lparr>sys_state := publish_packet (sys_state s) p, sys_working := sys_working s - {pkt_seq p}\<rparr>"
  have "op_counts m ?s'" using inv card unfolding op_inv_defs by simp
  moreover have "op_window ?s'"
  proof -
    have W: "op_window s" using inv by (simp add: op_inv_def)
    then have "(sys_working s - {pkt_seq p}) \<inter> insert (pkt_seq p) (pending_seqs (sys_state s)) = {}"
      "(sys_working s - {pkt_seq p}) \<inter> sys_released s = {}"
      "insert (pkt_seq p) (pending_seqs (sys_state s)) \<inter> sys_released s = {}"
      using w by (auto simp: op_window_def Let_def)
    then show ?thesis
      using W un sorted_insert_pending [OF _ new] by (simp only: op_window_def Let_def) simp
  qed
  moreover have "op_logged ?s'"
    using inv pos unfolding op_inv_def op_logged_def by (auto split: op_owner.splits op_call.splits bool.splits)
  ultimately show ?thesis by (simp add: op_inv_def)
qed

lemma op_inv_step: "op_inv m s \<Longrightarrow> op_step s s' \<Longrightarrow> op_inv m s'"
proof (erule op_step_cases)
  fix c p st assume "op_inv m s" "s' = s\<lparr>sys_state := st, sys_owner := Owner_Publish c p\<rparr>"
    "sys_owner s = Owner_Flush c" "flush_take (sys_state s) = (Some p, st)"
  then show "op_inv m s'" by (simp add: op_inv_take)
next
  fix p assume "op_inv m s" "pkt_seq p \<in> sys_working s"
    "s' = s\<lparr>sys_state := publish_packet (sys_state s) p, sys_working := sys_working s - {pkt_seq p}\<rparr>"
  then show "op_inv m s'" by (simp add: op_inv_deliver)
next
  fix c0 r sq assume inv: "op_inv m s" and s': "s' = s\<lparr>sys_state := release_slot (sys_state s),
      sys_working := sys_working s - {sq}, sys_released := insert sq (sys_released s)\<rparr>"
    and ow: "sys_owner s = Owner_Returned c0 r" and sq: "sq \<in> sys_working s"
  have card: "card (sys_working s) = Suc (card (sys_working s - {sq}))"
    using inv sq by (intro card.remove) (auto simp: op_inv_def op_counts_def Let_def)
  have un: "(sys_working s - {sq}) \<union> pending_seqs (sys_state s) \<union> insert sq (sys_released s) =
      sys_working s \<union> pending_seqs (sys_state s) \<union> sys_released s"
    using sq by auto
  have "op_counts m s'" using inv ow card unfolding op_inv_defs s' by (simp add: owner_holds_def)
  moreover have "op_window s'"
  proof -
    have W: "op_window s" using inv by (simp add: op_inv_def)
    then have "(sys_working s - {sq}) \<inter> pending_seqs (sys_state s) = {}"
      "(sys_working s - {sq}) \<inter> insert sq (sys_released s) = {}"
      "pending_seqs (sys_state s) \<inter> insert sq (sys_released s) = {}"
      using sq by (auto simp: op_window_def Let_def)
    then show ?thesis
      using W un by (simp only: op_window_def Let_def s') simp
  qed
  moreover have "op_logged s'"
    using inv ow card unfolding op_inv_defs s' by (auto simp: owner_holds_def split: op_call.splits bool.splits)
  ultimately show "op_inv m s'" by (simp add: op_inv_def)
next
  fix sq st assume inv: "op_inv m s" and s': "s' = s\<lparr>sys_state := st, sys_owner := Owner_Returned Reserve True,
      sys_working := insert sq (sys_working s)\<rparr>"
    and ow: "sys_owner s = Owner_Check Reserve" and tried: "reserve_try (sys_state s) = (Some sq, st)"
  let ?st = "sys_state s"
  have st: "inflight ?st < max_inflight ?st" "sq = next_submit_seq ?st"
    "st = ?st\<lparr>next_submit_seq := next_submit_seq ?st + 1, inflight := inflight ?st + 1\<rparr>"
    using tried by (auto simp: reserve_try_def split: if_splits)
  have un: "sys_working s \<union> pending_seqs ?st \<union> sys_released s = {next_publish_seq ?st..<next_submit_seq ?st}"
    and le: "next_publish_seq ?st \<le> next_submit_seq ?st"
    using inv by (simp_all add: op_inv_defs)
  have "sq \<notin> sys_working s \<union> pending_seqs ?st \<union> sys_released s" unfolding un st by simp
  then have fresh: "sq \<notin> sys_working s" "sq \<notin> pending_seqs ?st" "sq \<notin> sys_released s" by simp_all
  have "finite (sys_working s)" using inv by (simp add: op_inv_defs)
  then have card: "card (insert sq (sys_working s)) = Suc (card (sys_working s))" using fresh by simp
  have un': "insert sq (sys_working s) \<union> pending_seqs ?st \<union> sys_released s =
      {next_publish_seq ?st..<Suc (next_submit_seq ?st)}"
    using un le unfolding st(2) by (auto simp: atLeastLessThanSuc)
  have "pending_seqs st = pending_seqs ?st" by (simp add: st(3) pending_seqs_def)
  then show "op_inv m s'"
    using inv ow fresh card un' le st(1) unfolding op_inv_defs s'
    by (simp add: st(3) owner_holds_def)
next
  fix sq st assume "op_inv m s" "s' = s\<lparr>sys_state := st, sys_owner := Owner_Wait Reserve\<rparr>"
    "sys_owner s = Owner_Check Reserve" "reserve_try (sys_state s) = (None, st)"
  then show "op_inv m s'" by (auto simp: op_inv_defs reserve_try_def owner_holds_def split: if_splits)
next
  fix c st assume "op_inv m s" "s' = s\<lparr>sys_state := st, sys_owner := Owner_Check c\<rparr>"
    "sys_owner s = Owner_Flush c" "flush_take (sys_state s) = (None, st)"
  then show "op_inv m s'" by (auto dest!: flush_take_None simp: op_inv_defs owner_holds_def)
qed (auto simp: op_inv_defs owner_holds_def drain_done_def split: op_call.splits bool.splits)

lemma op_reachable_inv: "op_reachable m s \<Longrightarrow> op_inv m s"
proof -
  assume "op_reachable m s"
  then obtain cancel st where init: "op_init cancel m = Some st" and run: "op_step\<^sup>*\<^sup>* (op_start st) s"
    by (auto simp: op_reachable_def)
  from init have "op_inv m (op_start st)"
    by (auto simp: op_init_def op_inv_defs op_start_def pending_seqs_def owner_holds_def split: if_splits)
  with run show ?thesis
    by (induction rule: rtranclp_induct) (auto intro: op_inv_step)
qed

lemma op_reachable_step: "op_reachable m s \<Longrightarrow> op_step s s' \<Longrightarrow> op_reachable m s'"
  unfolding op_reachable_def by (meson rtranclp.rtrancl_into_rtrancl)

section \<open>Order, completeness and progress\<close>

text \<open>
  C7: whatever the order in which workers deliver, the numbers passed to the publish callback are
  0, 1, 2 and so on without gap or repetition, and no more than \<open>max_inflight\<close> packets are ever
  reserved and not finished.
\<close>

theorem op_publishes_in_order:
  assumes "op_reachable m s"
  shows "\<exists>n \<le> next_submit_seq (sys_state s). sys_log s = [0..<n] \<and> inflight (sys_state s) \<le> m"
proof -
  have inv: "op_inv m s" by (rule op_reachable_inv [OF assms])
  have "\<exists>n \<le> next_publish_seq (sys_state s). sys_log s = [0..<n]"
  proof (cases "\<exists>c p. sys_owner s = Owner_Publish c p")
    case True
    then obtain c p where "sys_owner s = Owner_Publish c p" by blast
    with inv show ?thesis by (auto simp: op_inv_def op_logged_def intro: exI [of _ "pkt_seq p"])
  next
    case False
    with inv have "sys_log s = [0..<next_publish_seq (sys_state s)]"
      by (auto simp: op_inv_def op_logged_def split: op_owner.splits op_call.splits bool.splits)
    then show ?thesis by blast
  qed
  moreover have "next_publish_seq (sys_state s) \<le> next_submit_seq (sys_state s)" "inflight (sys_state s) \<le> m"
    using inv by (simp_all add: op_inv_defs)
  ultimately show ?thesis by (meson order_trans)
qed

text \<open>
  When \<open>drain\<close> returns true and no slot was given up, every reserved number has been passed to
  the publish callback, in order, and nothing is left pending.
\<close>

lemma op_drain_complete:
  assumes "op_reachable m s" and "sys_owner s = Owner_Returned Drain True" and "sys_released s = {}"
  shows "sys_log s = [0..<next_submit_seq (sys_state s)] \<and> pending_head (sys_state s) = []"
proof -
  have inv: "op_inv m s" by (rule op_reachable_inv [OF assms(1)])
  then have zero: "card (sys_working s) + length (pending_head (sys_state s)) = 0"
    "finite (sys_working s)" "sys_log s = [0..<next_publish_seq (sys_state s)]"
    using assms(2) by (auto simp: op_inv_defs owner_holds_def)
  moreover from this have "pending_head (sys_state s) = []" "sys_working s = {}" by simp_all
  moreover from this have "{next_publish_seq (sys_state s)..<next_submit_seq (sys_state s)} = {}"
    "next_publish_seq (sys_state s) \<le> next_submit_seq (sys_state s)"
    using inv assms(3) by (auto simp: op_inv_defs pending_seqs_def)
  ultimately show ?thesis by simp
qed

text \<open>
  The owner never waits in vain: while it must wait and no slot was given up, a worker holds
  precisely the number whose turn it is, and the delivery of that packet lets the owner go on.
\<close>

lemma op_wait_progress:
  assumes "op_reachable m s" and "sys_owner s = Owner_Wait c" and "must_wait (sys_state s)" and "sys_released s = {}"
  shows "next_publish_seq (sys_state s) \<in> sys_working s \<and>
    \<not> must_wait (publish_packet (sys_state s) \<lparr>pkt_seq = next_publish_seq (sys_state s), pkt_body = b\<rparr>)"
proof -
  let ?st = "sys_state s" and ?n = "next_publish_seq (sys_state s)"
  have inv: "op_inv m s" by (rule op_reachable_inv [OF assms(1)])
  have idle: "owner_holds (sys_owner s) = 0"
    using assms(2) by (simp add: owner_holds_def)
  have un: "sys_working s \<union> pending_seqs ?st = {?n..<next_submit_seq ?st}"
    and fin: "finite (sys_working s)"
    and cnt: "0 < card (sys_working s) + length (pending_head ?st)"
    and sorted: "sorted_wrt (<) (map pkt_seq (pending_head ?st))"
    using inv assms(3,4) idle by (auto simp: op_inv_defs must_wait_def)
  have "sys_working s \<union> pending_seqs ?st \<noteq> {}" using cnt fin by (auto simp: pending_seqs_def)
  then have mem: "?n \<in> {?n..<next_submit_seq ?st}" unfolding un by simp
  have ge: "?n \<le> pkt_seq q" if "q \<in> set (pending_head ?st)" for q
  proof -
    have "pkt_seq q \<in> {?n..<next_submit_seq ?st}" using that un by (auto simp: pending_seqs_def)
    then show ?thesis by simp
  qed
  have "?n \<notin> pending_seqs ?st"
  proof (cases "pending_head ?st")
    case (Cons q qs)
    then have "?n < pkt_seq q" using assms(3) ge [of q] by (auto simp: must_wait_def)
    then show ?thesis using Cons sorted by (auto simp: pending_seqs_def)
  qed (simp add: pending_seqs_def)
  with mem un have "?n \<in> sys_working s" by blast
  moreover have "\<exists>rest. insert_pending (pending_head ?st) \<lparr>pkt_seq = ?n, pkt_body = b\<rparr> =
      \<lparr>pkt_seq = ?n, pkt_body = b\<rparr> # rest"
    using ge by (cases "pending_head ?st") force+
  ultimately show ?thesis by (auto simp: must_wait_def)
qed

text \<open>
  A failed publish is visible to every thread: cancellation is requested, observed and draining
  in the shared state, whatever it was before.
\<close>

lemma op_failure_cancels:
  assumes "op_cancel st = Some c"
  shows "\<exists>c'. op_cancel (flush_cancel st) = Some c' \<and> bx_cancel_state_requested c' \<and>
    bx_cancel_state_observed c' \<and> bx_cancel_state_draining c'"
  using assms
  by (simp add: flush_cancel_def requested_has_phase cancel_query_defs cancel_mark_defs has_phase_mark phase_valid_bits)

section \<open>A run with one slot\<close>

text \<open>The owner reserves the only slot and drains before the worker has delivered.\<close>

definition one_slot :: "nat \<Rightarrow> nat \<Rightarrow> nat op_state" where
  "one_slot k n = \<lparr>op_cancel = None, pending_head = [], max_inflight = 1, inflight = k, next_submit_seq = n,
     next_publish_seq = 0\<rparr>"

definition one_slot_sys :: "nat \<Rightarrow> nat set \<Rightarrow> nat op_owner \<Rightarrow> nat op_system" where
  "one_slot_sys n w ow = \<lparr>sys_state = one_slot n n, sys_owner = ow, sys_working = w, sys_released = {}, sys_log = []\<rparr>"

lemma one_slot_start: "op_reachable 1 (one_slot_sys 0 {} (Owner_Returned Drain True))"
proof -
  have "op_init None 1 = Some (one_slot 0 0)" by (simp add: op_init_def one_slot_def)
  moreover have "one_slot_sys 0 {} (Owner_Returned Drain True) = op_start (one_slot 0 0)"
    by (simp add: one_slot_sys_def op_start_def)
  ultimately show ?thesis unfolding op_reachable_def by auto
qed

lemma one_slot_call:
  "op_step (one_slot_sys n w (Owner_Returned c0 r)) (one_slot_sys n w (Owner_Flush c))"
  "op_step (one_slot_sys n w (Owner_Flush c)) (one_slot_sys n w (Owner_Check c))"
  using step_call [of "one_slot_sys n w (Owner_Returned c0 r)" c0 r c]
    step_empty [of "one_slot_sys n w (Owner_Flush c)" c "one_slot n n"]
  by (simp_all add: one_slot_sys_def one_slot_def flush_take_def)

lemma one_slot_reserve:
  "op_step (one_slot_sys 0 {} (Owner_Check Reserve)) (one_slot_sys 1 {0} (Owner_Returned Reserve True))"
  using step_reserved [of "one_slot_sys 0 {} (Owner_Check Reserve)" 0 "one_slot 1 1"]
  by (simp add: one_slot_sys_def one_slot_def reserve_try_def)

lemma one_slot_undrained:
  "op_step (one_slot_sys 1 {0} (Owner_Check Drain)) (one_slot_sys 1 {0} (Owner_Wait Drain))"
  using step_undrained [of "one_slot_sys 1 {0} (Owner_Check Drain)"]
  by (simp add: one_slot_sys_def one_slot_def drain_done_def)

lemma one_slot_waiting: "op_reachable 1 (one_slot_sys 1 {0} (Owner_Wait Drain))"
  by (rule op_reachable_step [OF _ one_slot_undrained], rule op_reachable_step [OF _ one_slot_call(2)],
      rule op_reachable_step [OF _ one_slot_call(1)], rule op_reachable_step [OF _ one_slot_reserve],
      rule op_reachable_step [OF _ one_slot_call(2)], rule op_reachable_step [OF _ one_slot_call(1)],
      rule one_slot_start)

theorem op_publishes_in_order_witness:
  "\<exists>n. n \<le> next_submit_seq (one_slot 1 1) \<and> sys_log (one_slot_sys 1 {0} (Owner_Wait Drain)) = [0..<n] \<and>
    inflight (one_slot 1 1) \<le> 1"
  using op_publishes_in_order [OF one_slot_waiting] by (simp add: one_slot_sys_def)

theorem op_drain_complete_witness:
  "sys_log (one_slot_sys 0 {} (Owner_Returned Drain True)) =
     [0..<next_submit_seq (sys_state (one_slot_sys 0 {} (Owner_Returned Drain True)))] \<and>
   pending_head (sys_state (one_slot_sys 0 {} (Owner_Returned Drain True))) = []"
  by (rule op_drain_complete [OF one_slot_start]) (simp_all add: one_slot_sys_def)

theorem op_wait_progress_witness:
  "next_publish_seq (one_slot 1 1) \<in> {0} \<and>
   \<not> must_wait (publish_packet (one_slot 1 1) \<lparr>pkt_seq = next_publish_seq (one_slot 1 1), pkt_body = 5\<rparr>)"
  using op_wait_progress [OF one_slot_waiting, of Drain 5]
  by (simp add: one_slot_sys_def one_slot_def must_wait_def)

lemma op_failure_cancels_witness:
  "\<exists>c'. op_cancel (flush_cancel ((one_slot 1 1)\<lparr>op_cancel := Some bx_cancel_state_init\<rparr>)) = Some c' \<and>
    bx_cancel_state_requested c' \<and> bx_cancel_state_observed c' \<and> bx_cancel_state_draining c'"
  by (rule op_failure_cancels [of _ bx_cancel_state_init]) simp

end
