(* ===== verification/Backpressure.thy ===== *)
theory Backpressure
  imports Prelude
begin

text \<open>
  \<open>src/src/lib/backpressure_limit.c\<close>: the table of the seven resource limits, whose kinds are one
  bit each, and the rule that decides whether an amount may be added under a limit. Of the table
  rows the kind, the name and the default are kept; the three remaining columns are documentation.
\<close>

abbreviation LIMIT_PENDING_DIRS :: u32 where "LIMIT_PENDING_DIRS \<equiv> 0x01"
abbreviation LIMIT_PENDING_FILES :: u32 where "LIMIT_PENDING_FILES \<equiv> 0x02"
abbreviation LIMIT_PENDING_ARCHIVE_MEMBERS :: u32 where "LIMIT_PENDING_ARCHIVE_MEMBERS \<equiv> 0x04"
abbreviation LIMIT_PENDING_OUTPUT_BYTES :: u32 where "LIMIT_PENDING_OUTPUT_BYTES \<equiv> 0x08"
abbreviation LIMIT_OPEN_FDS :: u32 where "LIMIT_OPEN_FDS \<equiv> 0x10"
abbreviation LIMIT_MMAP_BYTES :: u32 where "LIMIT_MMAP_BYTES \<equiv> 0x20"
abbreviation LIMIT_CHILD_PROCESSES :: u32 where "LIMIT_CHILD_PROCESSES \<equiv> 0x40"

definition BACKPRESSURE_LIMIT_ALL :: u32 where
  "BACKPRESSURE_LIMIT_ALL = LIMIT_PENDING_DIRS OR LIMIT_PENDING_FILES OR LIMIT_PENDING_ARCHIVE_MEMBERS OR
     LIMIT_PENDING_OUTPUT_BYTES OR LIMIT_OPEN_FDS OR LIMIT_MMAP_BYTES OR LIMIT_CHILD_PROCESSES"

record backpressure_limit =
  limit_kind :: u32
  limit_name :: string
  default_limit :: nat

definition bx_backpressure_limits :: "backpressure_limit list" where
  "bx_backpressure_limits = [
     \<lparr>limit_kind = LIMIT_PENDING_DIRS, limit_name = ''pending dirs'', default_limit = 4096\<rparr>,
     \<lparr>limit_kind = LIMIT_PENDING_FILES, limit_name = ''pending files'', default_limit = 16384\<rparr>,
     \<lparr>limit_kind = LIMIT_PENDING_ARCHIVE_MEMBERS, limit_name = ''pending archive members'', default_limit = 1024\<rparr>,
     \<lparr>limit_kind = LIMIT_PENDING_OUTPUT_BYTES, limit_name = ''pending output bytes'', default_limit = 16 * 1024 * 1024\<rparr>,
     \<lparr>limit_kind = LIMIT_OPEN_FDS, limit_name = ''open fds'', default_limit = 256\<rparr>,
     \<lparr>limit_kind = LIMIT_MMAP_BYTES, limit_name = ''mmap bytes'', default_limit = 256 * 1024 * 1024\<rparr>,
     \<lparr>limit_kind = LIMIT_CHILD_PROCESSES, limit_name = ''child processes'', default_limit = 256\<rparr>]"

definition bx_backpressure_limit_count :: nat where
  "bx_backpressure_limit_count = length bx_backpressure_limits"

definition bx_backpressure_limit_at :: "nat \<Rightarrow> backpressure_limit option" where
  "bx_backpressure_limit_at index =
     (if index \<ge> bx_backpressure_limit_count then None else Some (bx_backpressure_limits ! index))"

definition bx_backpressure_limit_kind_valid :: "u32 \<Rightarrow> bool" where
  "bx_backpressure_limit_kind_valid kind \<longleftrightarrow>
     kind \<noteq> 0 \<and> kind AND NOT BACKPRESSURE_LIMIT_ALL = 0 \<and> kind AND (kind - 1) = 0"

definition bx_backpressure_limit_for_kind :: "u32 \<Rightarrow> backpressure_limit option" where
  "bx_backpressure_limit_for_kind kind =
     (if \<not> bx_backpressure_limit_kind_valid kind then None
      else List.find (\<lambda>l. limit_kind l = kind) bx_backpressure_limits)"

definition bx_backpressure_limit_mask_valid :: "u32 \<Rightarrow> bool" where
  "bx_backpressure_limit_mask_valid m \<longleftrightarrow> m \<noteq> 0 \<and> m AND NOT BACKPRESSURE_LIMIT_ALL = 0"

definition bx_backpressure_limit_default :: "u32 \<Rightarrow> nat" where
  "bx_backpressure_limit_default kind =
     (case bx_backpressure_limit_for_kind kind of None \<Rightarrow> 0 | Some l \<Rightarrow> default_limit l)"

definition bx_backpressure_limit_can_add :: "nat \<Rightarrow> nat \<Rightarrow> nat \<Rightarrow> bool" where
  "bx_backpressure_limit_can_add current amount limit =
     (if limit = 0 \<or> amount = 0 then True
      else if amount > limit then current = 0
      else current \<le> limit - amount)"

text \<open>The kinds in the table are exactly the valid ones, each with one row.\<close>

lemma limit_kind_rows:
  "limit_kind ` set bx_backpressure_limits = {0x01, 0x02, 0x04, 0x08, 0x10, 0x20, 0x40}"
  by (simp add: bx_backpressure_limits_def)

lemma limit_kind_valid_rows:
  "bx_backpressure_limit_kind_valid kind \<longleftrightarrow> kind \<in> limit_kind ` set bx_backpressure_limits"
  unfolding limit_kind_rows
proof
  assume valid: "bx_backpressure_limit_kind_valid kind"
  have all: "BACKPRESSURE_LIMIT_ALL = 127" by (simp add: BACKPRESSURE_LIMIT_ALL_def)
  have "kind AND NOT BACKPRESSURE_LIMIT_ALL = 0" using valid by (simp add: bx_backpressure_limit_kind_valid_def)
  then have "unat kind < 128" using within_mask_le [of kind BACKPRESSURE_LIMIT_ALL] by (simp add: all word_le_nat_alt)
  moreover have "\<forall>n \<in> set [0..<128]. bx_backpressure_limit_kind_valid (of_nat n) \<longrightarrow>
      of_nat n \<in> {0x01, 0x02, 0x04, 0x08, 0x10, 0x20, 0x40 :: u32}"
    by code_simp
  ultimately show "kind \<in> {0x01, 0x02, 0x04, 0x08, 0x10, 0x20, 0x40}"
    using valid by (auto dest!: bspec [of _ _ "unat kind"])
next
  assume "kind \<in> {0x01, 0x02, 0x04, 0x08, 0x10, 0x20, 0x40}"
  then show "bx_backpressure_limit_kind_valid kind"
    by (auto simp: bx_backpressure_limit_kind_valid_def BACKPRESSURE_LIMIT_ALL_def)
qed

text \<open>
  Every valid kind has a row of its own kind with a positive default, and nothing else has one.
\<close>

lemma backpressure_table_total:
  "bx_backpressure_limit_kind_valid kind = (0 < bx_backpressure_limit_default kind) \<and>
   map_option limit_kind (bx_backpressure_limit_for_kind kind) =
     (if bx_backpressure_limit_kind_valid kind then Some kind else None)"
proof (cases "bx_backpressure_limit_kind_valid kind")
  case True
  then have "kind \<in> limit_kind ` set bx_backpressure_limits" by (simp add: limit_kind_valid_rows)
  with True show ?thesis
    by (auto simp: bx_backpressure_limits_def bx_backpressure_limit_default_def bx_backpressure_limit_for_kind_def)
next
  case False
  then show ?thesis by (simp add: bx_backpressure_limit_default_def bx_backpressure_limit_for_kind_def)
qed

end
