(* ===== verification/OutputSink.thy ===== *)
theory OutputSink
  imports Backpressure
begin

text \<open>
  \<open>src/src/lib/output_sink.c\<close>, on the byte budget of theory Backpressure: producers submit
  numbered records, an emitter thread writes them out in the order of their numbers, and both a
  record count and a byte budget hold the producers back. Every section that holds the lock is one
  function on the state; waiting on a condition variable is the absence of a step until the guard
  holds. Sequence numbers and sizes are naturals: the counts are bounded by the invariant, and a
  64-bit number of records is not reached.
\<close>

section \<open>The sink and its locked sections\<close>

record 'r sink_node =
  node_record :: 'r
  node_seq :: nat
  node_size :: nat

record 'r output_sink =
  max_pending :: nat
  max_pending_bytes :: nat
  ordered :: bool
  sink_head :: "'r sink_node list"
  skipped_seqs :: "nat list"
  skipped_cap :: nat
  pending :: nat
  pending_bytes :: nat
  next_seq :: nat
  sink_closed :: bool

definition sink_has_byte_capacity :: "'r output_sink \<Rightarrow> 'r sink_node \<Rightarrow> bool" where
  "sink_has_byte_capacity sink node =
     (if max_pending_bytes sink = 0 then True
      else bx_backpressure_limit_can_add (pending_bytes sink) (node_size node) (max_pending_bytes sink))"

text \<open>The walk past the nodes up to the same number, from the second node on.\<close>

fun sink_insert_after :: "'r sink_node list \<Rightarrow> 'r sink_node \<Rightarrow> 'r sink_node list" where
  "sink_insert_after [] node = [node]"
| "sink_insert_after (it # its) node =
     (if node_seq it \<le> node_seq node then it # sink_insert_after its node else node # it # its)"

definition sink_insert_node :: "'r output_sink \<Rightarrow> 'r sink_node \<Rightarrow> 'r output_sink" where
  "sink_insert_node sink node = sink\<lparr>sink_head :=
     (case sink_head sink of
        [] \<Rightarrow> [node]
      | first # rest \<Rightarrow>
          if \<not> ordered sink \<or> node_seq node < node_seq first then node # first # rest
          else first # sink_insert_after rest node)\<rparr>"

fun consume_skipped :: "nat \<Rightarrow> nat list \<Rightarrow> nat \<times> nat list" where
  "consume_skipped next [] = (next, [])"
| "consume_skipped next (k # ks) = (if k = next then consume_skipped (next + 1) ks else (next, k # ks))"

definition sink_consume_skipped :: "'r output_sink \<Rightarrow> 'r output_sink" where
  "sink_consume_skipped sink =
     (case consume_skipped (next_seq sink) (skipped_seqs sink) of
        (next, ks) \<Rightarrow> sink\<lparr>next_seq := next, skipped_seqs := ks\<rparr>)"

definition sink_take_ready_node :: "'r output_sink \<Rightarrow> 'r sink_node option \<times> 'r output_sink" where
  "sink_take_ready_node sink =
     (case sink_head sink of
        [] \<Rightarrow> (None, sink)
      | node # rest \<Rightarrow>
          if ordered sink \<and> node_seq node \<noteq> next_seq sink \<and> \<not> sink_closed sink then (None, sink)
          else
            let sink1 = sink\<lparr>sink_head := rest, pending := pending sink - 1,
                  pending_bytes := (if node_size node \<le> pending_bytes sink
                                    then pending_bytes sink - node_size node else 0)\<rparr>
            in (Some node,
                if ordered sink \<and> node_seq node = next_seq sink
                then sink_consume_skipped (sink1\<lparr>next_seq := next_seq sink + 1\<rparr>) else sink1))"

text \<open>The emitter stops waiting for a node when this holds.\<close>

definition sink_finished :: "'r output_sink \<Rightarrow> bool" where
  "sink_finished sink \<longleftrightarrow> sink_closed sink \<and> pending sink = 0"

definition sink_init :: "nat \<Rightarrow> nat \<Rightarrow> bool \<Rightarrow> bool \<Rightarrow> nat \<Rightarrow> 'r output_sink option" where
  "sink_init max_pend max_bytes has_record_size is_ordered first_seq =
     (if max_pend = 0 then None
      else if max_bytes > 0 \<and> \<not> has_record_size then None
      else Some \<lparr>max_pending = max_pend, max_pending_bytes = max_bytes, ordered = is_ordered, sink_head = [],
             skipped_seqs = [], skipped_cap = 0, pending = 0, pending_bytes = 0, next_seq = first_seq,
             sink_closed = False\<rparr>)"

definition sink_node_of :: "'r output_sink \<Rightarrow> ('r \<Rightarrow> nat) \<Rightarrow> ('r \<Rightarrow> nat) \<Rightarrow> 'r \<Rightarrow> 'r sink_node" where
  "sink_node_of sink record_seq record_size rec =
     \<lparr>node_record = rec, node_seq = record_seq rec,
      node_size = (if max_pending_bytes sink > 0 then record_size rec else 0)\<rparr>"

text \<open>The condition under which \<open>submit\<close> waits.\<close>

definition submit_waits :: "'r output_sink \<Rightarrow> 'r sink_node \<Rightarrow> bool" where
  "submit_waits sink node \<longleftrightarrow> \<not> sink_closed sink \<and>
     (pending sink \<ge> max_pending sink \<or> \<not> sink_has_byte_capacity sink node)"

text \<open>After the wait: refused when closed, else inserted.\<close>

definition sink_submit :: "'r output_sink \<Rightarrow> 'r sink_node \<Rightarrow> bool \<times> 'r output_sink" where
  "sink_submit sink node =
     (if sink_closed sink then (False, sink)
      else let sink1 = sink_insert_node sink node in
        (True, sink1\<lparr>pending := pending sink1 + 1, pending_bytes := pending_bytes sink1 + node_size node\<rparr>))"

text \<open>Inserting into the sorted array of skipped numbers; a number already there changes nothing.\<close>

fun skip_pos :: "nat list \<Rightarrow> nat \<Rightarrow> nat" where
  "skip_pos [] sq = 0"
| "skip_pos (k # ks) sq = (if k < sq then skip_pos ks sq + 1 else 0)"

definition sink_skip_seq :: "(nat \<Rightarrow> bool) \<Rightarrow> 'r output_sink \<Rightarrow> nat \<Rightarrow> bool \<times> 'r output_sink" where
  "sink_skip_seq avail sink sq =
     (if \<not> ordered sink then (True, sink)
      else if sq < next_seq sink then (True, sink)
      else
        let ks = skipped_seqs sink; pos = skip_pos ks sq in
        if pos < length ks \<and> ks ! pos = sq then (True, sink)
        else
          let full = (length ks = skipped_cap sink);
              new_cap = (if skipped_cap sink = 0 then 32 else skipped_cap sink * 2)
          in if full \<and> \<not> avail (new_cap * 8) then (False, sink)
             else (True, sink_consume_skipped (sink\<lparr>
                 skipped_cap := (if full then new_cap else skipped_cap sink),
                 skipped_seqs := take pos ks @ sq # drop pos ks\<rparr>)))"

definition sink_close :: "'r output_sink \<Rightarrow> 'r output_sink" where
  "sink_close sink = sink\<lparr>sink_closed := True\<rparr>"

text \<open>Disposal, after the emitter has been joined: the records handed to \<open>dispose_record\<close>.\<close>

definition sink_dispose :: "'r output_sink \<Rightarrow> 'r list" where
  "sink_dispose sink = map node_record (sink_head sink)"

section \<open>Producers and the emitter\<close>

datatype 'r emitter = Emitter_Waiting | Emitter_Holding "'r sink_node" | Emitter_Stopped

text \<open>
  \<open>sys_log\<close> is what has been emitted; \<open>sys_submitted\<close> and \<open>sys_skipped\<close> are the numbers used so
  far. The producers keep the contract that a number is submitted or skipped at most once and is
  not below the first.
\<close>

record 'r sink_system =
  sys_sink :: "'r output_sink"
  sys_emitter :: "'r emitter"
  sys_log :: "'r sink_node list"
  sys_submitted :: "nat set"
  sys_skipped :: "nat set"

inductive sink_step :: "nat \<Rightarrow> 'r sink_system \<Rightarrow> 'r sink_system \<Rightarrow> bool" for first where
  step_submit: "\<not> submit_waits (sys_sink s) node \<Longrightarrow> sink_submit (sys_sink s) node = (True, sink) \<Longrightarrow>
    first \<le> node_seq node \<Longrightarrow> node_seq node \<notin> sys_submitted s \<union> sys_skipped s \<Longrightarrow>
    sink_step first s (s\<lparr>sys_sink := sink, sys_submitted := insert (node_seq node) (sys_submitted s)\<rparr>)"
| step_skip: "sink_skip_seq avail (sys_sink s) sq = (True, sink) \<Longrightarrow>
    first \<le> sq \<Longrightarrow> sq \<notin> sys_submitted s \<Longrightarrow>
    sink_step first s (s\<lparr>sys_sink := sink, sys_skipped := insert sq (sys_skipped s)\<rparr>)"
| step_close: "sink_step first s (s\<lparr>sys_sink := sink_close (sys_sink s)\<rparr>)"
| step_take: "sys_emitter s = Emitter_Waiting \<Longrightarrow> sink_take_ready_node (sys_sink s) = (Some node, sink) \<Longrightarrow>
    sink_step first s (s\<lparr>sys_sink := sink, sys_emitter := Emitter_Holding node\<rparr>)"
| step_emit: "sys_emitter s = Emitter_Holding node \<Longrightarrow>
    sink_step first s (s\<lparr>sys_emitter := Emitter_Waiting, sys_log := sys_log s @ [node]\<rparr>)"
| step_stop: "sys_emitter s = Emitter_Waiting \<Longrightarrow> sink_take_ready_node (sys_sink s) = (None, sink) \<Longrightarrow>
    sink_finished sink \<Longrightarrow> sink_step first s (s\<lparr>sys_emitter := Emitter_Stopped\<rparr>)"

inductive_cases sink_step_cases: "sink_step first s s'"

definition sink_start :: "'r output_sink \<Rightarrow> 'r sink_system" where
  "sink_start sink = \<lparr>sys_sink = sink, sys_emitter = Emitter_Waiting, sys_log = [], sys_submitted = {}, sys_skipped = {}\<rparr>"

definition sink_reachable :: "nat \<Rightarrow> nat \<Rightarrow> nat \<Rightarrow> 'r sink_system \<Rightarrow> bool" where
  "sink_reachable m mb first s \<longleftrightarrow>
     (\<exists>sink. sink_init m mb True True first = Some sink \<and> (sink_step first)\<^sup>*\<^sup>* (sink_start sink) s)"

section \<open>The sorted lists\<close>

lemma set_sink_insert_after [simp]: "set (sink_insert_after its n) = insert n (set its)"
  by (induction its) auto

lemma sorted_sink_insert_after:
  "sorted_wrt (<) (map node_seq its) \<Longrightarrow> node_seq n \<notin> node_seq ` set its \<Longrightarrow>
     sorted_wrt (<) (map node_seq (sink_insert_after its n))"
  by (induction its) auto

lemma length_sink_insert_after [simp]: "length (sink_insert_after its n) = Suc (length its)"
  by (induction its) auto

lemma sum_sink_insert_after [simp]:
  "sum_list (map node_size (sink_insert_after its n)) = node_size n + sum_list (map node_size its)"
  by (induction its) auto

lemma sink_insert_node_head:
  assumes "ordered sink" and "sorted_wrt (<) (map node_seq (sink_head sink))"
    and "node_seq n \<notin> node_seq ` set (sink_head sink)"
  shows "sorted_wrt (<) (map node_seq (sink_head (sink_insert_node sink n)))"
    and "set (sink_head (sink_insert_node sink n)) = insert n (set (sink_head sink))"
    and "length (sink_head (sink_insert_node sink n)) = Suc (length (sink_head sink))"
    and "sum_list (map node_size (sink_head (sink_insert_node sink n))) =
      node_size n + sum_list (map node_size (sink_head sink))"
proof -
  show "sorted_wrt (<) (map node_seq (sink_head (sink_insert_node sink n)))"
  proof (cases "sink_head sink")
    case (Cons f rest)
    with assms show ?thesis
      using sorted_sink_insert_after [of rest n] by (auto simp: sink_insert_node_def)
  qed (simp add: sink_insert_node_def)
qed (auto simp: sink_insert_node_def split: list.split)

lemma sink_insert_node_simps [simp]:
  "max_pending (sink_insert_node sink n) = max_pending sink"
  "max_pending_bytes (sink_insert_node sink n) = max_pending_bytes sink"
  "ordered (sink_insert_node sink n) = ordered sink" "skipped_seqs (sink_insert_node sink n) = skipped_seqs sink"
  "pending (sink_insert_node sink n) = pending sink" "pending_bytes (sink_insert_node sink n) = pending_bytes sink"
  "next_seq (sink_insert_node sink n) = next_seq sink" "sink_closed (sink_insert_node sink n) = sink_closed sink"
  by (simp_all add: sink_insert_node_def)

lemma sink_consume_skipped_simps [simp]:
  "max_pending (sink_consume_skipped sink) = max_pending sink"
  "max_pending_bytes (sink_consume_skipped sink) = max_pending_bytes sink"
  "ordered (sink_consume_skipped sink) = ordered sink" "sink_head (sink_consume_skipped sink) = sink_head sink"
  "pending (sink_consume_skipped sink) = pending sink" "pending_bytes (sink_consume_skipped sink) = pending_bytes sink"
  "sink_closed (sink_consume_skipped sink) = sink_closed sink"
  by (simp_all add: sink_consume_skipped_def split: prod.split)

lemma consume_skipped_ok:
  "sorted_wrt (<) ks \<Longrightarrow> \<forall>k \<in> set ks. next \<le> k \<Longrightarrow> consume_skipped next ks = (next', ks') \<Longrightarrow>
     next \<le> next' \<and> {next..<next'} \<subseteq> set ks \<and> sorted_wrt (<) ks' \<and>
     set ks' = {k \<in> set ks. next' \<le> k} \<and> next' \<notin> set ks'"
proof (induction "next" ks rule: consume_skipped.induct)
  case (2 "next" k ks)
  show ?case
  proof (cases "k = next")
    case True
    with 2 have "next + 1 \<le> next' \<and> {next + 1..<next'} \<subseteq> set ks \<and> sorted_wrt (<) ks' \<and>
        set ks' = {k \<in> set ks. next' \<le> k} \<and> next' \<notin> set ks'"
      by (intro "2.IH") auto
    moreover have "{next..<next'} \<subseteq> insert next {next + 1..<next'}" by auto
    ultimately show ?thesis using True by auto
  next
    case False
    with 2 show ?thesis by (auto simp: less_le_not_le)
  qed
qed auto

lemma skip_pos_takeWhile: "skip_pos ks sq = length (takeWhile (\<lambda>k. k < sq) ks)"
  by (induction ks) auto

lemma skip_insert:
  assumes "sorted_wrt (<) ks" and p: "p = skip_pos ks sq"
  shows "(p < length ks \<and> ks ! p = sq) = (sq \<in> set ks)"
    and "sq \<notin> set ks \<Longrightarrow> sorted_wrt (<) (take p ks @ sq # drop p ks)"
    and "set (take p ks @ sq # drop p ks) = insert sq (set ks)"
proof -
  have "(skip_pos ks sq < length ks \<and> ks ! skip_pos ks sq = sq) = (sq \<in> set ks)" using assms(1)
    by (induction ks) auto
  then show "(p < length ks \<and> ks ! p = sq) = (sq \<in> set ks)" by (simp add: p)
  have "sq \<notin> set ks \<Longrightarrow> sorted_wrt (<) (take (skip_pos ks sq) ks @ sq # drop (skip_pos ks sq) ks)" using assms(1)
    by (induction ks) (auto dest: in_set_takeD in_set_dropD)
  then show "sq \<notin> set ks \<Longrightarrow> sorted_wrt (<) (take p ks @ sq # drop p ks)" by (simp add: p)
  show "set (take p ks @ sq # drop p ks) = insert sq (set ks)"
    by (metis Un_insert_right append_take_drop_id list.simps(15) set_append)
qed

section \<open>Invariant\<close>

definition sink_out :: "'r sink_system \<Rightarrow> 'r sink_node list" where
  "sink_out s = sys_log s @ (case sys_emitter s of Emitter_Holding n \<Rightarrow> [n] | _ \<Rightarrow> [])"

definition sink_counts :: "nat \<Rightarrow> nat \<Rightarrow> 'r output_sink \<Rightarrow> bool" where
  "sink_counts m mb k \<longleftrightarrow> max_pending k = m \<and> max_pending_bytes k = mb \<and> ordered k \<and>
     pending k = length (sink_head k) \<and> pending k \<le> m \<and>
     pending_bytes k = sum_list (map node_size (sink_head k)) \<and>
     (mb = 0 \<or> pending_bytes k \<le> mb \<or> (\<exists>n \<in> set (sink_head k). node_size n = pending_bytes k))"

definition sink_skips :: "nat set \<Rightarrow> 'r output_sink \<Rightarrow> bool" where
  "sink_skips skipped k \<longleftrightarrow> sorted_wrt (<) (skipped_seqs k) \<and>
     set (skipped_seqs k) = {sq \<in> skipped. next_seq k \<le> sq} \<and> next_seq k \<notin> skipped"

definition sink_order :: "nat \<Rightarrow> 'r sink_system \<Rightarrow> bool" where
  "sink_order first s \<longleftrightarrow> (let k = sys_sink s in
     sorted_wrt (<) (map node_seq (sink_out s @ sink_head k)) \<and>
     node_seq ` set (sink_out s @ sink_head k) = sys_submitted s \<and>
     sys_submitted s \<inter> sys_skipped s = {} \<and>
     {first..<next_seq k} \<subseteq> sys_submitted s \<union> sys_skipped s \<and> first \<le> next_seq k \<and>
     (\<forall>n \<in> set (sink_head k). next_seq k \<le> node_seq n) \<and>
     (sink_closed k \<or> (\<forall>n \<in> set (sink_out s). node_seq n < next_seq k)) \<and>
     (sys_emitter s = Emitter_Stopped \<longrightarrow> sink_closed k \<and> sink_head k = []))"

definition sink_inv :: "nat \<Rightarrow> nat \<Rightarrow> nat \<Rightarrow> 'r sink_system \<Rightarrow> bool" where
  "sink_inv m mb first s \<longleftrightarrow>
     sink_counts m mb (sys_sink s) \<and> sink_skips (sys_skipped s) (sys_sink s) \<and> sink_order first s"

lemma sink_consume_ok:
  assumes "sorted_wrt (<) (skipped_seqs k)" and "set (skipped_seqs k) = {sq \<in> skipped. next_seq k \<le> sq}"
  shows "sink_skips skipped (sink_consume_skipped k)" and "next_seq k \<le> next_seq (sink_consume_skipped k)"
    and "{next_seq k..<next_seq (sink_consume_skipped k)} \<subseteq> skipped"
proof -
  obtain n' ks' where c: "consume_skipped (next_seq k) (skipped_seqs k) = (n', ks')"
    by (cases "consume_skipped (next_seq k) (skipped_seqs k)")
  have "\<forall>sq \<in> set (skipped_seqs k). next_seq k \<le> sq" using assms(2) by simp
  from consume_skipped_ok [OF assms(1) this c]
  have r: "next_seq k \<le> n'" "{next_seq k..<n'} \<subseteq> set (skipped_seqs k)" "sorted_wrt (<) ks'"
    "set ks' = {sq \<in> set (skipped_seqs k). n' \<le> sq}" "n' \<notin> set ks'" by auto
  have eq: "sink_consume_skipped k = k\<lparr>next_seq := n', skipped_seqs := ks'\<rparr>"
    by (simp add: sink_consume_skipped_def c)
  show "sink_skips skipped (sink_consume_skipped k)" using r assms(2) by (auto simp: sink_skips_def eq)
  show "next_seq k \<le> next_seq (sink_consume_skipped k)" using r by (simp add: eq)
  show "{next_seq k..<next_seq (sink_consume_skipped k)} \<subseteq> skipped" using r(2) assms(2) by (auto simp: eq)
qed

section \<open>Every step keeps the invariant\<close>

lemma sink_takeE:
  assumes "sink_take_ready_node k = (Some node, k')" and "ordered k"
  obtains rest k1 where "sink_head k = node # rest" and "node_seq node = next_seq k \<or> sink_closed k"
    and "k1 = k\<lparr>sink_head := rest, pending := pending k - 1,
          pending_bytes := (if node_size node \<le> pending_bytes k then pending_bytes k - node_size node else 0)\<rparr>"
    and "k' = (if node_seq node = next_seq k then sink_consume_skipped (k1\<lparr>next_seq := next_seq k + 1\<rparr>) else k1)"
  using assms by (auto simp: sink_take_ready_node_def Let_def split: list.splits if_splits)

lemma sink_counts_take:
  assumes c: "sink_counts m mb k" and take: "sink_take_ready_node k = (Some node, k')"
  shows "sink_counts m mb k'"
proof -
  have "ordered k" using c by (simp add: sink_counts_def)
  with take obtain rest k1 where t: "sink_head k = node # rest"
    "k1 = k\<lparr>sink_head := rest, pending := pending k - 1,
        pending_bytes := (if node_size node \<le> pending_bytes k then pending_bytes k - node_size node else 0)\<rparr>"
    "k' = (if node_seq node = next_seq k then sink_consume_skipped (k1\<lparr>next_seq := next_seq k + 1\<rparr>) else k1)"
    by (rule sink_takeE) blast
  have bytes: "pending_bytes k = node_size node + sum_list (map node_size rest)"
    using c t(1) by (simp add: sink_counts_def)
  have "node_size n \<le> sum_list (map node_size rest)" if "n \<in> set rest" for n
    using that by (simp add: member_le_sum_list)
  then have over: "sum_list (map node_size rest) \<le> mb \<or>
      (\<exists>n \<in> set rest. node_size n = sum_list (map node_size rest))" if "mb \<noteq> 0"
    using c t(1) bytes that by (fastforce simp: sink_counts_def)
  show ?thesis using c t bytes over by (auto simp: sink_counts_def)
qed

lemma sink_skips_take:
  assumes sk: "sink_skips skipped k" and ord: "ordered k" and take: "sink_take_ready_node k = (Some node, k')"
    and new: "node_seq node \<notin> skipped"
  shows "sink_skips skipped k'"
    and "if node_seq node = next_seq k then Suc (next_seq k) \<le> next_seq k' \<and> {Suc (next_seq k)..<next_seq k'} \<subseteq> skipped
      else next_seq k' = next_seq k"
proof -
  from take ord obtain rest k1 where t:
    "k1 = k\<lparr>sink_head := rest, pending := pending k - 1,
        pending_bytes := (if node_size node \<le> pending_bytes k then pending_bytes k - node_size node else 0)\<rparr>"
    "k' = (if node_seq node = next_seq k then sink_consume_skipped (k1\<lparr>next_seq := next_seq k + 1\<rparr>) else k1)"
    by (rule sink_takeE) blast
  let ?k2 = "k1\<lparr>next_seq := next_seq k + 1\<rparr>"
  have s1: "sink_skips skipped k1" using sk by (auto simp: t(1) sink_skips_def)
  have s2: "sorted_wrt (<) (skipped_seqs ?k2)" "set (skipped_seqs ?k2) = {sq \<in> skipped. next_seq ?k2 \<le> sq}"
    if "node_seq node = next_seq k"
  proof -
    show "sorted_wrt (<) (skipped_seqs ?k2)" using sk by (simp add: t(1) sink_skips_def)
    have "{sq \<in> skipped. next_seq k \<le> sq} = {sq \<in> skipped. Suc (next_seq k) \<le> sq}"
      using new that by (metis Suc_leD Suc_leI le_neq_implies_less)
    then have "set (skipped_seqs k) = {sq \<in> skipped. Suc (next_seq k) \<le> sq}"
      using sk by (simp add: sink_skips_def)
    then show "set (skipped_seqs ?k2) = {sq \<in> skipped. next_seq ?k2 \<le> sq}" by (simp add: t(1))
  qed
  show "sink_skips skipped k'" using s1 sink_consume_ok(1) [OF s2] t(2) by simp
  show "if node_seq node = next_seq k then Suc (next_seq k) \<le> next_seq k' \<and> {Suc (next_seq k)..<next_seq k'} \<subseteq> skipped
      else next_seq k' = next_seq k"
    using sink_consume_ok(2,3) [OF s2] t by simp
qed

lemma sink_inv_take:
  assumes inv: "sink_inv m mb first s" and ow: "sys_emitter s = Emitter_Waiting"
    and take: "sink_take_ready_node (sys_sink s) = (Some node, k')"
  shows "sink_inv m mb first (s\<lparr>sys_sink := k', sys_emitter := Emitter_Holding node\<rparr>)"
proof -
  let ?k = "sys_sink s" and ?s' = "s\<lparr>sys_sink := k', sys_emitter := Emitter_Holding node\<rparr>"
  have ord: "ordered ?k" and C: "sink_counts m mb ?k" and S: "sink_skips (sys_skipped s) ?k"
    and O: "sink_order first s"
    using inv by (auto simp: sink_inv_def sink_counts_def)
  from take ord obtain rest k1 where t: "sink_head ?k = node # rest"
    "node_seq node = next_seq ?k \<or> sink_closed ?k"
    "k1 = ?k\<lparr>sink_head := rest, pending := pending ?k - 1,
        pending_bytes := (if node_size node \<le> pending_bytes ?k then pending_bytes ?k - node_size node else 0)\<rparr>"
    "k' = (if node_seq node = next_seq ?k then sink_consume_skipped (k1\<lparr>next_seq := next_seq ?k + 1\<rparr>) else k1)"
    by (rule sink_takeE)
  have head': "sink_head k' = rest" "sink_closed k' = sink_closed ?k" using t by simp_all
  have out: "sink_out ?s' @ sink_head k' = sink_out s @ sink_head ?k"
    "sink_out ?s' = sink_out s @ [node]"
    by (simp_all add: sink_out_def ow head' t(1))
  have o: "sorted_wrt (<) (map node_seq (sink_out s @ sink_head ?k))"
    "node_seq ` set (sink_out s @ sink_head ?k) = sys_submitted s" "sys_submitted s \<inter> sys_skipped s = {}"
    "{first..<next_seq ?k} \<subseteq> sys_submitted s \<union> sys_skipped s" "first \<le> next_seq ?k"
    "\<And>n. n \<in> set (sink_head ?k) \<Longrightarrow> next_seq ?k \<le> node_seq n"
    "sink_closed ?k \<or> (\<forall>n \<in> set (sink_out s). node_seq n < next_seq ?k)"
    using O by (auto simp: sink_order_def Let_def)
  have sub: "node_seq node \<in> sys_submitted s" "\<And>n. n \<in> set rest \<Longrightarrow> node_seq n \<in> sys_submitted s"
    using o(2) t(1) by auto
  then have new: "node_seq node \<notin> sys_skipped s" using o(3) by auto
  note S' = sink_skips_take [OF S ord take new]
  have nx: "next_seq ?k \<le> next_seq k'" using S'(2) by (auto split: if_splits)
  have cover: "{first..<next_seq k'} \<subseteq> sys_submitted s \<union> sys_skipped s"
  proof (cases "node_seq node = next_seq ?k")
    case True
    have "{first..<next_seq k'} \<subseteq> {first..<next_seq ?k} \<union> {next_seq ?k} \<union> {Suc (next_seq ?k)..<next_seq k'}" by auto
    then show ?thesis using S'(2) True o(4) sub(1) by auto
  next
    case False
    then show ?thesis using S'(2) o(4) by simp
  qed
  have low: "next_seq k' \<le> node_seq n" if n: "n \<in> set rest" for n
  proof (rule ccontr)
    assume "\<not> next_seq k' \<le> node_seq n"
    moreover have "node_seq node < node_seq n" using o(1) t(1) n by (auto simp: sorted_wrt_append)
    moreover have "next_seq ?k \<le> node_seq n" using o(6) n t(1) by simp
    ultimately have "node_seq n \<in> sys_skipped s" using S'(2) by (auto split: if_splits)
    then show False using sub(2) [OF n] o(3) by auto
  qed
  have high: "sink_closed k' \<or> (\<forall>n \<in> set (sink_out ?s'). node_seq n < next_seq k')"
  proof (cases "sink_closed ?k")
    case False
    then have "node_seq node = next_seq ?k" using t(2) by simp
    then have "Suc (next_seq ?k) \<le> next_seq k'" using S'(2) by simp
    then show ?thesis using False o(7) out(2) \<open>node_seq node = next_seq ?k\<close> by auto
  qed (simp add: head')
  have "sorted_wrt (<) (map node_seq (sink_out ?s' @ sink_head k'))"
    "node_seq ` set (sink_out ?s' @ sink_head k') = sys_submitted s"
    unfolding out(1) by (rule o(1), rule o(2))
  then have "sink_order first ?s'"
    using o(3,5) cover low high nx head' by (simp add: sink_order_def Let_def)
  then show ?thesis using S'(1) sink_counts_take [OF C take] by (simp add: sink_inv_def)
qed


lemma sink_inv_submit:
  assumes inv: "sink_inv m mb first s" and wait: "\<not> submit_waits (sys_sink s) node"
    and sub: "sink_submit (sys_sink s) node = (True, k')"
    and new: "first \<le> node_seq node" "node_seq node \<notin> sys_submitted s \<union> sys_skipped s"
  shows "sink_inv m mb first (s\<lparr>sys_sink := k', sys_submitted := insert (node_seq node) (sys_submitted s)\<rparr>)"
proof -
  let ?k = "sys_sink s" and ?s' = "s\<lparr>sys_sink := k', sys_submitted := insert (node_seq node) (sys_submitted s)\<rparr>"
  have C: "sink_counts m mb ?k" and S: "sink_skips (sys_skipped s) ?k" and O: "sink_order first s"
    using inv by (auto simp: sink_inv_def)
  have open_k: "\<not> sink_closed ?k" and k': "k' = (sink_insert_node ?k node)
      \<lparr>pending := pending ?k + 1, pending_bytes := pending_bytes ?k + node_size node\<rparr>"
    using sub by (auto simp: sink_submit_def Let_def split: if_splits)
  have o: "sorted_wrt (<) (map node_seq (sink_out s @ sink_head ?k))"
    "node_seq ` set (sink_out s @ sink_head ?k) = sys_submitted s" "sys_submitted s \<inter> sys_skipped s = {}"
    "{first..<next_seq ?k} \<subseteq> sys_submitted s \<union> sys_skipped s" "first \<le> next_seq ?k"
    "\<forall>n \<in> set (sink_head ?k). next_seq ?k \<le> node_seq n"
    "\<forall>n \<in> set (sink_out s). node_seq n < next_seq ?k" "sys_emitter s \<noteq> Emitter_Stopped"
    using O open_k by (auto simp: sink_order_def Let_def)
  have fresh: "node_seq node \<notin> node_seq ` set (sink_head ?k)" using new(2) o(2) by auto
  have ord: "ordered ?k" and srt: "sorted_wrt (<) (map node_seq (sink_head ?k))"
    using C o(1) by (simp_all add: sink_counts_def sorted_wrt_append)
  note h = sink_insert_node_head [OF ord srt fresh]
  have head: "sink_head k' = sink_head (sink_insert_node ?k node)" by (simp add: k')
  have ge: "next_seq ?k \<le> node_seq node"
  proof (rule ccontr)
    assume "\<not> next_seq ?k \<le> node_seq node"
    then have "node_seq node \<in> {first..<next_seq ?k}" using new(1) by simp
    with o(4) new(2) show False by blast
  qed
  have cap: "pending ?k < m" "sink_has_byte_capacity ?k node"
    using wait open_k C by (auto simp: submit_waits_def sink_counts_def)
  have sum0: "pending_bytes ?k = 0 \<Longrightarrow> n \<in> set (sink_head ?k) \<Longrightarrow> node_size n = 0" for n
    using C member_le_sum_list [of "node_size n" "map node_size (sink_head ?k)"] by (auto simp: sink_counts_def)
  have "sink_counts m mb k'"
    using C cap h(2,3,4) unfolding sink_counts_def head
    by (auto simp: k' sink_has_byte_capacity_def bx_backpressure_limit_can_add_def split: if_splits)
  moreover have "sink_skips (sys_skipped s) k'" using S by (simp add: k' sink_skips_def)
  moreover have "sink_order first ?s'"
  proof -
    have "sorted_wrt (<) (map node_seq (sink_out s @ sink_head k'))"
      using o(1,7) h(1,2) ge unfolding head by (auto simp: sorted_wrt_append)
    moreover have "node_seq ` set (sink_out s @ sink_head k') = insert (node_seq node) (sys_submitted s)"
      unfolding head o(2) [symmetric] set_append h(2) by auto
    moreover have "sink_out ?s' = sink_out s" by (simp add: sink_out_def)
    moreover have "\<forall>n \<in> set (sink_head k'). next_seq ?k \<le> node_seq n" using o(6) ge h(2) head by auto
    moreover have "next_seq k' = next_seq ?k" by (simp add: k')
    ultimately show ?thesis using o(3-5,7,8) new(2) by (auto simp: sink_order_def Let_def)
  qed
  ultimately show ?thesis by (simp add: sink_inv_def)
qed

lemma sink_skipE:
  assumes "sink_skip_seq avail k sq = (True, k')" and "ordered k" and "sorted_wrt (<) (skipped_seqs k)"
  obtains "k' = k" and "sq < next_seq k \<or> sq \<in> set (skipped_seqs k)"
  | k1 where "k' = sink_consume_skipped k1" and "next_seq k \<le> sq" and "sorted_wrt (<) (skipped_seqs k1)"
    and "set (skipped_seqs k1) = insert sq (set (skipped_seqs k))"
    and "\<exists>cap ks. k1 = k\<lparr>skipped_cap := cap, skipped_seqs := ks\<rparr>"
proof -
  note ins = skip_insert [OF assms(3) refl, of sq]
  let ?ks = "skipped_seqs k" and ?p = "skip_pos (skipped_seqs k) sq"
  let ?k1 = "k\<lparr>skipped_cap := (if length ?ks = skipped_cap k
      then (if skipped_cap k = 0 then 32 else skipped_cap k * 2) else skipped_cap k),
      skipped_seqs := take ?p ?ks @ sq # drop ?p ?ks\<rparr>"
  show thesis
  proof (cases "sq < next_seq k \<or> sq \<in> set ?ks")
    case True
    then have "k' = k" using assms(1,2) ins(1) by (auto simp: sink_skip_seq_def Let_def split: if_splits)
    with that(1) True show thesis by blast
  next
    case False
    then have n: "\<not> sq < next_seq k" "sq \<notin> set ?ks" by simp_all
    have "k' = sink_consume_skipped ?k1"
    proof (cases "length ?ks = skipped_cap k \<and> \<not> avail ((if skipped_cap k = 0 then 32 else skipped_cap k * 2) * 8)")
      case True
      then show ?thesis using assms(1,2) ins(1) False by (simp add: sink_skip_seq_def Let_def)
    next
      case fits: False
      have "sink_skip_seq avail k sq = (True, sink_consume_skipped ?k1)"
        unfolding sink_skip_seq_def Let_def ins(1) using fits n assms(2) by (simp only: if_False if_not_P simp_thms)
      then show ?thesis using assms(1) by simp
    qed
    with that(2) [of ?k1] False ins(2,3) show thesis by auto
  qed
qed

lemma sink_inv_skip:
  assumes inv: "sink_inv m mb first s" and skip: "sink_skip_seq avail (sys_sink s) sq = (True, k')"
    and sq: "first \<le> sq" "sq \<notin> sys_submitted s"
  shows "sink_inv m mb first (s\<lparr>sys_sink := k', sys_skipped := insert sq (sys_skipped s)\<rparr>)"
proof -
  let ?k = "sys_sink s" and ?s' = "s\<lparr>sys_sink := k', sys_skipped := insert sq (sys_skipped s)\<rparr>"
  have C: "sink_counts m mb ?k" and S: "sink_skips (sys_skipped s) ?k" and O: "sink_order first s"
    using inv by (auto simp: sink_inv_def)
  have out: "sink_out ?s' = sink_out s" by (simp add: sink_out_def)
  have ord: "ordered ?k" and srt: "sorted_wrt (<) (skipped_seqs ?k)"
    using C S by (simp_all add: sink_counts_def sink_skips_def)
  from skip ord srt show ?thesis
  proof (cases rule: sink_skipE)
    case 1
    then have sk: "sq < next_seq ?k \<or> sq \<in> sys_skipped s \<and> next_seq ?k \<le> sq"
      using S unfolding sink_skips_def by blast
    then have "{x \<in> insert sq (sys_skipped s). next_seq ?k \<le> x} = {x \<in> sys_skipped s. next_seq ?k \<le> x}"
      by auto
    moreover have "next_seq ?k \<notin> insert sq (sys_skipped s)" using sk S by (auto simp: sink_skips_def)
    ultimately have "sink_skips (insert sq (sys_skipped s)) k'" using S by (simp add: sink_skips_def 1(1))
    moreover have "sink_order first ?s'" using O sq(2) 1 out by (auto simp: sink_order_def Let_def)
    ultimately show ?thesis using C 1 by (simp add: sink_inv_def)
  next
    case (2 k1)
    have k1: "next_seq k1 = next_seq ?k" "sink_head k1 = sink_head ?k" "sink_closed k1 = sink_closed ?k"
      "max_pending k1 = max_pending ?k" "max_pending_bytes k1 = max_pending_bytes ?k" "ordered k1 = ordered ?k"
      "pending k1 = pending ?k" "pending_bytes k1 = pending_bytes ?k"
      using 2(5) by auto
    have "set (skipped_seqs ?k) = {x \<in> sys_skipped s. next_seq ?k \<le> x}" using S by (simp add: sink_skips_def)
    then have "set (skipped_seqs k1) = {x \<in> insert sq (sys_skipped s). next_seq k1 \<le> x}"
      unfolding 2(4) k1 using 2(2) by auto
    note c = sink_consume_ok [OF 2(3) this, folded 2(1)]
    have "sink_counts m mb k'" using C by (auto simp: 2(1) sink_counts_def k1)
    moreover have "sink_order first ?s'"
    proof -
      have head: "sink_head k' = sink_head ?k" "sink_closed k' = sink_closed ?k" by (simp_all add: 2(1) k1)
      have "{first..<next_seq k'} \<subseteq> {first..<next_seq ?k} \<union> {next_seq ?k..<next_seq k'}" by auto
      also have "\<dots> \<subseteq> sys_submitted s \<union> insert sq (sys_skipped s)"
        using c(3) O by (auto simp: sink_order_def Let_def k1)
      finally have cover: "{first..<next_seq k'} \<subseteq> sys_submitted s \<union> insert sq (sys_skipped s)" .
      have low: "next_seq k' \<le> node_seq n" if n: "n \<in> set (sink_head ?k)" for n
      proof (rule ccontr)
        assume "\<not> next_seq k' \<le> node_seq n"
        moreover have "next_seq ?k \<le> node_seq n" using n O by (simp add: sink_order_def Let_def)
        ultimately have "node_seq n \<in> {next_seq k1..<next_seq k'}" by (simp add: k1)
        with c(3) have "node_seq n \<in> insert sq (sys_skipped s)" by blast
        moreover have "node_seq n \<in> sys_submitted s" using n O by (auto simp: sink_order_def Let_def)
        ultimately show False using sq(2) O by (auto simp: sink_order_def Let_def)
      qed
      show ?thesis
        using O c(2) cover low sq(2) unfolding sink_order_def Let_def
        by (auto simp: out head k1)
    qed
    ultimately show ?thesis using c(1) by (simp add: sink_inv_def)
  qed
qed

lemma sink_inv_step: "sink_inv m mb first s \<Longrightarrow> sink_step first s s' \<Longrightarrow> sink_inv m mb first s'"
proof (erule sink_step_cases)
  fix node k' assume "sink_inv m mb first s" "\<not> submit_waits (sys_sink s) node"
    "sink_submit (sys_sink s) node = (True, k')" "first \<le> node_seq node"
    "node_seq node \<notin> sys_submitted s" "node_seq node \<notin> sys_skipped s"
    "s' = s\<lparr>sys_sink := k', sys_submitted := insert (node_seq node) (sys_submitted s)\<rparr>"
  then show "sink_inv m mb first s'" by (simp add: sink_inv_submit)
next
  fix avail sq k' assume "sink_inv m mb first s" "sink_skip_seq avail (sys_sink s) sq = (True, k')"
    "first \<le> sq" "sq \<notin> sys_submitted s" "s' = s\<lparr>sys_sink := k', sys_skipped := insert sq (sys_skipped s)\<rparr>"
  then show "sink_inv m mb first s'" by (simp add: sink_inv_skip)
next
  fix node k' assume "sink_inv m mb first s" "sys_emitter s = Emitter_Waiting"
    "sink_take_ready_node (sys_sink s) = (Some node, k')"
    "s' = s\<lparr>sys_sink := k', sys_emitter := Emitter_Holding node\<rparr>"
  then show "sink_inv m mb first s'" by (simp add: sink_inv_take)
next
  fix k' assume inv: "sink_inv m mb first s" and "sys_emitter s = Emitter_Waiting"
    and "sink_take_ready_node (sys_sink s) = (None, k')" "sink_finished k'"
    and s': "s' = s\<lparr>sys_emitter := Emitter_Stopped\<rparr>"
  then have "sink_finished (sys_sink s)"
    by (auto simp: sink_take_ready_node_def Let_def split: list.splits if_splits)
  then have "sink_closed (sys_sink s)" "sink_head (sys_sink s) = []"
    using inv by (auto simp: sink_inv_def sink_counts_def sink_finished_def)
  moreover have "sink_out s' = sink_out s" using \<open>sys_emitter s = Emitter_Waiting\<close> by (simp add: s' sink_out_def)
  ultimately show "sink_inv m mb first s'" using inv unfolding sink_inv_def s' by (simp add: sink_order_def Let_def)
next
  assume inv: "sink_inv m mb first s" and s': "s' = s\<lparr>sys_sink := sink_close (sys_sink s)\<rparr>"
  have "sink_out s' = sink_out s" by (simp add: s' sink_out_def)
  then show "sink_inv m mb first s'" using inv unfolding sink_inv_def s'
    by (auto simp: sink_counts_def sink_skips_def sink_order_def sink_close_def Let_def)
next
  fix node assume inv: "sink_inv m mb first s" and em: "sys_emitter s = Emitter_Holding node"
    and s': "s' = s\<lparr>sys_emitter := Emitter_Waiting, sys_log := sys_log s @ [node]\<rparr>"
  have "sink_out s' = sink_out s" by (simp add: s' em sink_out_def)
  then show "sink_inv m mb first s'" using inv unfolding sink_inv_def s' by (simp add: sink_order_def Let_def)
qed


lemma sink_reachable_inv: "sink_reachable m mb first s \<Longrightarrow> sink_inv m mb first s"
proof -
  assume "sink_reachable m mb first s"
  then obtain sink where init: "sink_init m mb True True first = Some sink"
    and run: "(sink_step first)\<^sup>*\<^sup>* (sink_start sink) s"
    by (auto simp: sink_reachable_def)
  from init have "sink_inv m mb first (sink_start sink)"
    by (auto simp: sink_init_def sink_inv_def sink_counts_def sink_skips_def sink_order_def sink_start_def
        sink_out_def split: if_splits)
  with run show ?thesis
    by (induction rule: rtranclp_induct) (auto intro: sink_inv_step)
qed

lemma sink_reachable_step: "sink_reachable m mb first s \<Longrightarrow> sink_step first s s' \<Longrightarrow> sink_reachable m mb first s'"
  unfolding sink_reachable_def by (meson rtranclp.rtrancl_into_rtrancl)

section \<open>Order, completeness, bounds, progress\<close>

text \<open>
  C8: an ordered sink emits records in strictly increasing order of their numbers, whatever the
  order of the submissions and skips, and after closing as well; it emits only submitted records.
\<close>

theorem sink_emits_in_order:
  assumes "sink_reachable m mb first s"
  shows "sorted_wrt (<) (map node_seq (sys_log s)) \<and> node_seq ` set (sys_log s) \<subseteq> sys_submitted s"
  using sink_reachable_inv [OF assms]
  by (auto simp: sink_inv_def sink_order_def sink_out_def sorted_wrt_append Let_def)

text \<open>
  When the emitter has stopped, every submitted record has been emitted exactly once, in the
  order of the numbers; gaps that were neither submitted nor skipped do not hold anything back then.
\<close>

lemma sink_stops_complete:
  assumes "sink_reachable m mb first s" and "sys_emitter s = Emitter_Stopped"
  shows "map node_seq (sys_log s) = sorted_list_of_set (sys_submitted s)"
proof -
  have inv: "sink_order first s" using sink_reachable_inv [OF assms(1)] by (simp add: sink_inv_def)
  then have "sorted_wrt (<) (map node_seq (sys_log s))" "set (map node_seq (sys_log s)) = sys_submitted s"
    using assms(2) by (auto simp: sink_order_def sink_out_def Let_def)
  then show ?thesis
    by (metis sorted_list_of_set.idem_if_sorted_distinct strict_sorted_iff)
qed

text \<open>
  Backpressure: there are never more than \<open>max_pending\<close> records in the sink, and with a byte
  budget their sizes exceed it only when a single record larger than the budget accounts for all
  of them.
\<close>

lemma sink_bounded:
  assumes "sink_reachable m mb first s"
  shows "length (sink_head (sys_sink s)) \<le> m \<and>
    (mb = 0 \<or> sum_list (map node_size (sink_head (sys_sink s))) \<le> mb \<or>
     (\<exists>n \<in> set (sink_head (sys_sink s)). node_size n = sum_list (map node_size (sink_head (sys_sink s)))))"
proof -
  have "sink_counts m mb (sys_sink s)" using sink_reachable_inv [OF assms] by (simp add: sink_inv_def)
  then show ?thesis unfolding sink_counts_def by metis
qed

text \<open>
  C9: the emitter is never stuck with work at hand: while it waits, if the record whose turn it is
  has been submitted, or the sink is closed, it can take a record or stop.
\<close>

theorem sink_emitter_progress:
  assumes "sink_reachable m mb first s" and "sys_emitter s = Emitter_Waiting"
    and "next_seq (sys_sink s) \<in> sys_submitted s \<or> sink_closed (sys_sink s)"
  shows "fst (sink_take_ready_node (sys_sink s)) \<noteq> None \<or> sink_finished (sys_sink s)"
proof (cases "sink_closed (sys_sink s)")
  case True
  have "sink_counts m mb (sys_sink s)" using sink_reachable_inv [OF assms(1)] by (simp add: sink_inv_def)
  with True show ?thesis
    by (auto simp: sink_take_ready_node_def sink_finished_def sink_counts_def Let_def split: list.split)
next
  case False
  let ?k = "sys_sink s"
  have O: "sink_order first s" using sink_reachable_inv [OF assms(1)] by (simp add: sink_inv_def)
  with False assms(3) have "next_seq ?k \<in> node_seq ` set (sink_head ?k)"
    by (force simp: sink_order_def Let_def)
  moreover have "sorted_wrt (<) (map node_seq (sink_head ?k))" "\<forall>n \<in> set (sink_head ?k). next_seq ?k \<le> node_seq n"
    using O by (auto simp: sink_order_def sorted_wrt_append Let_def)
  ultimately obtain n rest where "sink_head ?k = n # rest" "node_seq n = next_seq ?k"
  proof (cases "sink_head ?k")
    case (Cons n rest)
    assume *: "next_seq ?k \<in> node_seq ` set (sink_head ?k)" "sorted_wrt (<) (map node_seq (sink_head ?k))"
      "\<forall>n \<in> set (sink_head ?k). next_seq ?k \<le> node_seq n"
    then have "next_seq ?k \<in> node_seq ` set rest \<Longrightarrow> node_seq n < next_seq ?k" by (auto simp: Cons)
    with * have "node_seq n = next_seq ?k" by (auto simp: Cons)
    with that Cons show thesis by blast
  qed simp
  then show ?thesis by (simp add: sink_take_ready_node_def Let_def)
qed

section \<open>A run\<close>

text \<open>Records 1 and 0 are submitted in this order, emitted in the other, and the sink is closed.\<close>

definition demo_node :: "nat \<Rightarrow> nat sink_node" where
  "demo_node i = \<lparr>node_record = 70 + i, node_seq = i, node_size = 3\<rparr>"

definition demo_sys ::
  "nat list \<Rightarrow> nat \<Rightarrow> bool \<Rightarrow> nat emitter \<Rightarrow> nat list \<Rightarrow> nat set \<Rightarrow> nat sink_system" where
  "demo_sys h nx cl em lg sub = \<lparr>
     sys_sink = \<lparr>max_pending = 2, max_pending_bytes = 10, ordered = True, sink_head = map demo_node h,
       skipped_seqs = [], skipped_cap = 0, pending = length h, pending_bytes = 3 * length h, next_seq = nx,
       sink_closed = cl\<rparr>,
     sys_emitter = em, sys_log = map demo_node lg, sys_submitted = sub, sys_skipped = {}\<rparr>"

lemmas demo_defs = demo_sys_def demo_node_def submit_waits_def sink_has_byte_capacity_def
  bx_backpressure_limit_can_add_def sink_submit_def sink_insert_node_def sink_take_ready_node_def
  sink_consume_skipped_def sink_finished_def sink_close_def Let_def

lemma demo_start: "sink_reachable 2 10 0 (demo_sys [] 0 False Emitter_Waiting [] {})"
  unfolding sink_reachable_def by (auto simp: sink_init_def sink_start_def demo_sys_def)

lemma demo_submit:
  "sink_step 0 (demo_sys [] 0 False Emitter_Waiting [] {}) (demo_sys [1] 0 False Emitter_Waiting [] {1})"
  "sink_step 0 (demo_sys [1] 0 False Emitter_Waiting [] {1}) (demo_sys [0, 1] 0 False Emitter_Waiting [] {0, 1})"
  using step_submit [of "demo_sys [] 0 False Emitter_Waiting [] {}" "demo_node 1"]
    step_submit [of "demo_sys [1] 0 False Emitter_Waiting [] {1}" "demo_node 0"]
  by (simp_all add: demo_defs)

lemma demo_take:
  "sink_step 0 (demo_sys [0, 1] 0 False Emitter_Waiting [] {0, 1})
     (demo_sys [1] 1 False (Emitter_Holding (demo_node 0)) [] {0, 1})"
  "sink_step 0 (demo_sys [1] 1 False Emitter_Waiting [0] {0, 1})
     (demo_sys [] 2 False (Emitter_Holding (demo_node 1)) [0] {0, 1})"
  using step_take [of "demo_sys [0, 1] 0 False Emitter_Waiting [] {0, 1}" "demo_node 0"]
    step_take [of "demo_sys [1] 1 False Emitter_Waiting [0] {0, 1}" "demo_node 1"]
  by (simp_all add: demo_defs)

lemma demo_emit:
  "sink_step 0 (demo_sys h nx cl (Emitter_Holding (demo_node i)) lg sub) (demo_sys h nx cl Emitter_Waiting (lg @ [i]) sub)"
  using step_emit [of "demo_sys h nx cl (Emitter_Holding (demo_node i)) lg sub" "demo_node i"]
  by (simp add: demo_sys_def)

lemma demo_close:
  "sink_step 0 (demo_sys h nx cl em lg sub) (demo_sys h nx True em lg sub)"
  "sink_step 0 (demo_sys [] nx True Emitter_Waiting lg sub) (demo_sys [] nx True Emitter_Stopped lg sub)"
  using step_close [of 0 "demo_sys h nx cl em lg sub"] step_stop [of "demo_sys [] nx True Emitter_Waiting lg sub"]
  by (simp_all add: demo_defs)

lemma demo_full: "sink_reachable 2 10 0 (demo_sys [0, 1] 0 False Emitter_Waiting [] {0, 1})"
  by (rule sink_reachable_step [OF sink_reachable_step [OF demo_start demo_submit(1)] demo_submit(2)])

lemma demo_stopped: "sink_reachable 2 10 0 (demo_sys [] 2 True Emitter_Stopped [0, 1] {0, 1})"
proof -
  have "sink_reachable 2 10 0 (demo_sys [1] 1 False Emitter_Waiting [0] {0, 1})"
    using sink_reachable_step [OF sink_reachable_step [OF demo_full demo_take(1)] demo_emit] by simp
  from sink_reachable_step [OF sink_reachable_step [OF this demo_take(2)] demo_emit]
  have "sink_reachable 2 10 0 (demo_sys [] 2 False Emitter_Waiting [0, 1] {0, 1})" by simp
  from sink_reachable_step [OF sink_reachable_step [OF this demo_close(1)] demo_close(2)] show ?thesis .
qed

theorem sink_emits_in_order_witness:
  "sorted_wrt (<) (map node_seq (sys_log (demo_sys [] 2 True Emitter_Stopped [0, 1] {0, 1}))) \<and>
   node_seq ` set (sys_log (demo_sys [] 2 True Emitter_Stopped [0, 1] {0, 1}))
     \<subseteq> sys_submitted (demo_sys [] 2 True Emitter_Stopped [0, 1] {0, 1})"
  by (rule sink_emits_in_order [OF demo_stopped])

theorem sink_stops_complete_witness:
  "map node_seq (sys_log (demo_sys [] 2 True Emitter_Stopped [0, 1] {0, 1})) =
     sorted_list_of_set (sys_submitted (demo_sys [] 2 True Emitter_Stopped [0, 1] {0, 1}))"
  by (rule sink_stops_complete [OF demo_stopped]) (simp add: demo_sys_def)

theorem sink_bounded_witness:
  "length (sink_head (sys_sink (demo_sys [0, 1] 0 False Emitter_Waiting [] {0, 1}))) \<le> 2"
  using sink_bounded [OF demo_full] by blast

theorem sink_emitter_progress_witness:
  "fst (sink_take_ready_node (sys_sink (demo_sys [0, 1] 0 False Emitter_Waiting [] {0, 1}))) \<noteq> None"
  using sink_emitter_progress [OF demo_full] by (simp add: demo_sys_def sink_finished_def)

section \<open>What the bound costs\<close>

text \<open>
  A sink that is full of later records waits for one that can no longer be submitted: producers
  must keep the numbers in use within \<open>max_pending\<close>, or close the sink. With room for one record,
  submitting number 1 first leaves neither a step for number 0 nor one for the emitter.
\<close>

lemma sink_full_of_later:
  fixes k :: "'r output_sink"
  assumes "pending k = max_pending k" and "\<not> sink_closed k" and "ordered k"
    and "sink_head k = n # rest" and "node_seq n \<noteq> next_seq k"
  shows "submit_waits k node" and "fst (sink_take_ready_node k) = None"
  using assms by (simp_all add: submit_waits_def sink_take_ready_node_def)

end
