(* ===== verification/FdTransaction.thy ===== *)
theory FdTransaction
  imports Prelude
begin

text \<open>
  \<open>src/src/lib/fd_transaction.c\<close>: the stack of descriptor transactions behind the redirections of the
  shell. A transaction saves the descriptors it is going to change as private duplicates with high
  numbers, and either puts them back or keeps the changes. The kernel is a table from numbers to
  open files with a limit, and the five calls that the code makes on it (\<open>F_DUPFD_CLOEXEC\<close>,
  \<open>dup2\<close>, \<open>F_GETFD\<close>, \<open>F_SETFD\<close>, \<open>close\<close>) do what POSIX says; they are not interrupted by signals, so
  the retry after \<open>EINTR\<close> has no branch. The chain of active transactions is a list with the
  innermost one first, and a transaction object is named by its depth in the chain.
\<close>

section \<open>The descriptor table of the kernel\<close>

record kfile =
  kf_desc :: nat \<comment> \<open>the open file description\<close>
  kf_cloexec :: bool \<comment> \<open>the only descriptor flag there is\<close>

record kernel =
  kfds :: "int \<Rightarrow> kfile option"
  klimit :: int

datatype fd_errno = FD_EINVAL | FD_ENOMEM | FD_EMFILE | FD_EBADF

abbreviation INT_MAX :: int where
  "INT_MAX \<equiv> 2147483647"

definition bx_fd_dup_cloexec_min :: "kernel \<Rightarrow> int \<Rightarrow> int \<Rightarrow> fd_errno + int \<times> kernel" where
  "bx_fd_dup_cloexec_min k oldfd minimum =
     (case kfds k oldfd of
        None \<Rightarrow> Inl FD_EBADF
      | Some f \<Rightarrow>
          if minimum < 0 \<or> minimum \<ge> klimit k then Inl FD_EINVAL
          else case List.find (\<lambda>fd. kfds k fd = None) [minimum..klimit k - 1] of
              None \<Rightarrow> Inl FD_EMFILE
            | Some d \<Rightarrow> Inr (d, k\<lparr>kfds := (kfds k)(d \<mapsto> f\<lparr>kf_cloexec := True\<rparr>)\<rparr>))"

definition bx_fd_dup2_exact :: "kernel \<Rightarrow> int \<Rightarrow> int \<Rightarrow> fd_errno + kernel" where
  "bx_fd_dup2_exact k oldfd newfd =
     (case kfds k oldfd of
        None \<Rightarrow> Inl FD_EBADF
      | Some f \<Rightarrow>
          if newfd < 0 \<or> newfd \<ge> klimit k then Inl FD_EBADF
          else if newfd = oldfd then Inr k
          else Inr (k\<lparr>kfds := (kfds k)(newfd \<mapsto> f\<lparr>kf_cloexec := False\<rparr>)\<rparr>))"

definition k_close :: "kernel \<Rightarrow> int \<Rightarrow> kernel" where
  "k_close k fd = k\<lparr>kfds := (kfds k)(fd := None)\<rparr>"

definition k_setfd :: "kernel \<Rightarrow> int \<Rightarrow> bool \<Rightarrow> fd_errno + kernel" where
  "k_setfd k fd flag =
     (case kfds k fd of None \<Rightarrow> Inl FD_EBADF | Some f \<Rightarrow> Inr (k\<lparr>kfds := (kfds k)(fd \<mapsto> f\<lparr>kf_cloexec := flag\<rparr>)\<rparr>))"

section \<open>Transactions\<close>

record fd_entry =
  target_fd :: int
  saved_fd :: int \<comment> \<open>-1 when the target was closed\<close>
  target_flags :: bool

type_synonym fd_ref = "int \<times> bool" \<comment> \<open>the number, and whether it has been saved\<close>

record fd_txn =
  txn_refs :: "fd_ref list"
  entry_start :: nat
  next_backup_fd :: int

record fd_stack =
  entries :: "fd_entry list"
  entry_capacity :: nat
  frames :: "fd_txn list"

text \<open>The binary search: the loop with its two variables, and the check of the place it ends at.\<close>

function find_ref_loop :: "fd_ref list \<Rightarrow> int \<Rightarrow> nat \<Rightarrow> nat \<Rightarrow> nat" where
  "find_ref_loop refs fd first count =
     (if count \<noteq> 0 then
        let step = count div 2; index = first + step; candidate = fst (refs ! index) in
        if candidate < fd then find_ref_loop refs fd (index + 1) (count - (step + 1))
        else find_ref_loop refs fd first step
      else first)"
  by pat_completeness auto
termination by (relation "measure (\<lambda>(refs, fd, first, count). count)") auto

declare find_ref_loop.simps [simp del]

definition find_ref :: "fd_ref list \<Rightarrow> int \<Rightarrow> nat option" where
  "find_ref refs fd =
     (let first = find_ref_loop refs fd 0 (length refs) in
      if first = length refs \<or> fst (refs ! first) \<noteq> fd then None else Some first)"

text \<open>The private duplicate: retried with a higher minimum while the number is in use as a name.\<close>

function dup_private :: "kernel \<Rightarrow> fd_ref list list \<Rightarrow> int \<Rightarrow> int \<Rightarrow> (fd_errno + int) \<times> kernel \<times> int" where
  "dup_private k chain source_fd next =
     (case bx_fd_dup_cloexec_min k source_fd next of
        Inl err \<Rightarrow> (Inl err, k, next)
      | Inr (duplicate, k1) \<Rightarrow>
          let collision = (\<exists>refs \<in> set chain. find_ref refs duplicate \<noteq> None) in
          if duplicate = INT_MAX then
            (if \<not> collision then (Inr duplicate, k1, INT_MAX)
             else (Inl FD_EMFILE, k_close k1 duplicate, INT_MAX))
          else if \<not> collision then (Inr duplicate, k1, duplicate + 1)
          else dup_private (k_close k1 duplicate) chain source_fd (duplicate + 1))"
  by pat_completeness auto

lemma find_upto:
  assumes "List.find P [a..b] = Some d"
  shows "P d \<and> a \<le> d \<and> d \<le> b \<and> (\<forall>x. a \<le> x \<and> x < d \<longrightarrow> \<not> P x)"
proof -
  obtain i where i: "i < length [a..b]" "P ([a..b] ! i)" "d = [a..b] ! i" "\<forall>j < i. \<not> P ([a..b] ! j)"
    using assms by (auto simp: find_Some_iff)
  then have d: "d = a + int i" by (simp add: nth_upto)
  have "\<not> P x" if "a \<le> x" "x < d" for x
  proof -
    have "nat (x - a) < i" and "[a..b] ! nat (x - a) = x" using that d i(1) by (simp_all add: nth_upto)
    with i(4) show ?thesis by metis
  qed
  moreover have "d \<le> b" using d i(1) by simp
  ultimately show ?thesis using i d by auto
qed

lemma dup_min_Inr:
  assumes "bx_fd_dup_cloexec_min k src m = Inr (d, k1)"
  obtains f where "kfds k src = Some f" and "0 \<le> m" and "m \<le> d" and "d < klimit k" and "kfds k d = None"
    and "k1 = k\<lparr>kfds := (kfds k)(d \<mapsto> f\<lparr>kf_cloexec := True\<rparr>)\<rparr>"
  using assms by (auto simp: bx_fd_dup_cloexec_min_def split: option.splits if_splits dest!: find_upto)

termination dup_private
proof (relation "measure (\<lambda>(k, chain, src, next). nat (klimit k - next))", goal_cases)
  case (2 k chain src "next" x d k1 collision)
  then have "bx_fd_dup_cloexec_min k src next = Inr (d, k1)" by simp
  then obtain f where "next \<le> d" "d < klimit k" "k1 = k\<lparr>kfds := (kfds k)(d \<mapsto> f\<lparr>kf_cloexec := True\<rparr>)\<rparr>"
    by (rule dup_min_Inr)
  then show ?case by (simp add: k_close_def)
qed simp

declare dup_private.simps [simp del]

text \<open>Room for one more entry; \<open>sizeof (struct bx_fd_transaction_entry)\<close> is 12.\<close>

definition entries_reserve :: "(nat \<Rightarrow> bool) \<Rightarrow> fd_stack \<Rightarrow> fd_errno + fd_stack" where
  "entries_reserve avail st =
     (if length (entries st) \<noteq> entry_capacity st then Inr st
      else
        let capacity = (if entry_capacity st = 0 then 4 else entry_capacity st * 2) in
        if capacity > size_max div 12 then Inl FD_ENOMEM
        else if \<not> avail (capacity * 12) then Inl FD_ENOMEM
        else Inr (st\<lparr>entry_capacity := capacity\<rparr>))"

definition fd_stack_init :: fd_stack where
  "fd_stack_init = \<lparr>entries = [], entry_capacity = 0, frames = []\<rparr>"

definition close_backups :: "fd_entry list \<Rightarrow> kernel \<Rightarrow> kernel" where
  "close_backups es k = fold (\<lambda>e k. if saved_fd e \<ge> 0 then k_close k (saved_fd e) else k) es k"

definition fd_stack_discard :: "fd_stack \<Rightarrow> kernel \<Rightarrow> fd_stack \<times> kernel" where
  "fd_stack_discard st k = (fd_stack_init, close_backups (entries st) k)"

text \<open>The end of the innermost transaction, common to rollback and commit.\<close>

definition txn_finish :: "fd_stack \<Rightarrow> fd_stack" where
  "txn_finish st =
     (case frames st of
        [] \<Rightarrow> st
      | txn # rest \<Rightarrow> st\<lparr>entries := take (entry_start txn) (entries st), frames := rest\<rparr>)"

text \<open>
  Moving the backups whose number the new transaction names. The result tells whether all could be
  moved; the entries moved before a failure stay moved.
\<close>

fun relocate :: "kernel \<Rightarrow> fd_ref list \<Rightarrow> fd_ref list list \<Rightarrow> int \<Rightarrow> fd_entry list \<Rightarrow>
    fd_errno option \<times> fd_entry list \<times> kernel \<times> int" where
  "relocate k refs chain next [] = (None, [], k, next)"
| "relocate k refs chain next (e # es) =
     (if saved_fd e < 0 \<or> find_ref refs (saved_fd e) = None then
        (case relocate k refs chain next es of (err, es', k', next') \<Rightarrow> (err, e # es', k', next'))
      else case dup_private k (refs # chain) (saved_fd e) next of
          (Inl err, k1, next1) \<Rightarrow> (Some err, e # es, k1, next1)
        | (Inr duplicate, k1, next1) \<Rightarrow>
            (case relocate (k_close k1 (saved_fd e)) refs chain next1 es of
               (err, es', k', next') \<Rightarrow> (err, e\<lparr>saved_fd := duplicate\<rparr> # es', k', next')))"

definition unique_refs :: "int list \<Rightarrow> fd_ref list" where
  "unique_refs fds = map (\<lambda>fd. (fd, False)) (remdups_adj (sort fds))"

section \<open>The checked invariants\<close>

definition references_invariant :: "fd_txn \<Rightarrow> bool" where
  "references_invariant txn \<longleftrightarrow>
     (\<forall>i < length (txn_refs txn). 0 \<le> fst (txn_refs txn ! i) \<and>
        (i \<noteq> 0 \<longrightarrow> fst (txn_refs txn ! (i - 1)) < fst (txn_refs txn ! i))) \<and>
     10 \<le> next_backup_fd txn"

definition backup_invariant :: "kernel \<Rightarrow> fd_stack \<Rightarrow> nat \<Rightarrow> bool" where
  "backup_invariant k st entry_index \<longleftrightarrow> (let e = entries st ! entry_index in
     0 \<le> target_fd e \<and> saved_fd e \<noteq> target_fd e \<and>
     (0 \<le> saved_fd e \<longrightarrow> (case kfds k (saved_fd e) of None \<Rightarrow> False | Some f \<Rightarrow> kf_cloexec f)) \<and>
     (\<forall>i < entry_index. let e' = entries st ! i in
        \<not> (0 \<le> saved_fd e \<and> saved_fd e' = saved_fd e) \<and>
        \<not> (target_fd e' = saved_fd e \<or> 0 \<le> saved_fd e' \<and> saved_fd e' = target_fd e)) \<and>
     (\<forall>txn \<in> set (frames st). 0 \<le> saved_fd e \<longrightarrow> find_ref (txn_refs txn) (saved_fd e) = None))"

fun frames_invariant :: "kernel \<Rightarrow> fd_stack \<Rightarrow> fd_txn list \<Rightarrow> nat \<Rightarrow> bool" where
  "frames_invariant k st [] frame_end \<longleftrightarrow> frame_end = 0"
| "frames_invariant k st (txn # rest) frame_end \<longleftrightarrow>
     entry_start txn \<le> frame_end \<and> references_invariant txn \<and>
     (\<forall>i \<in> {entry_start txn..<frame_end}.
        (case find_ref (txn_refs txn) (target_fd (entries st ! i)) of
           None \<Rightarrow> False | Some r \<Rightarrow> snd (txn_refs txn ! r)) \<and>
        backup_invariant k st i \<and>
        (\<forall>j \<in> {entry_start txn..<i}. target_fd (entries st ! j) \<noteq> target_fd (entries st ! i))) \<and>
     (\<forall>i < length (txn_refs txn). snd (txn_refs txn ! i) =
        (\<exists>j \<in> {entry_start txn..<frame_end}. target_fd (entries st ! j) = fst (txn_refs txn ! i))) \<and>
     frames_invariant k st rest (entry_start txn)"

definition stack_invariants :: "kernel \<Rightarrow> fd_stack \<Rightarrow> bool" where
  "stack_invariants k st \<longleftrightarrow> length (entries st) \<le> entry_capacity st \<and>
     (if frames st = [] then entries st = [] else frames_invariant k st (frames st) (length (entries st)))"

section \<open>The operations\<close>

text \<open>
  The results are the error, if any, and the new stack and kernel. \<open>sizeof (struct
  bx_fd_transaction_ref)\<close> is 8. An operation on a transaction names it by its depth; only the
  innermost one is accepted.
\<close>

definition fd_begin :: "(nat \<Rightarrow> bool) \<Rightarrow> kernel \<Rightarrow> fd_stack \<Rightarrow> int list \<Rightarrow> fd_errno option \<times> fd_stack \<times> kernel" where
  "fd_begin avail k st fds =
     (if \<not> stack_invariants k st then (Some FD_EINVAL, st, k)
      else if length fds > size_max div 8 then (Some FD_ENOMEM, st, k)
      else if fds \<noteq> [] \<and> \<not> avail (length fds * 8) then (Some FD_ENOMEM, st, k)
      else if \<exists>fd \<in> set fds. fd < 0 then (Some FD_EINVAL, st, k)
      else
        let refs = unique_refs fds in
        case relocate k refs (map txn_refs (frames st)) 10 (entries st) of
          (Some err, es, k', next) \<Rightarrow> (Some err, st\<lparr>entries := es\<rparr>, k')
        | (None, es, k', next) \<Rightarrow>
            (None, st\<lparr>entries := es, frames :=
               \<lparr>txn_refs = refs, entry_start = length (entries st), next_backup_fd = next\<rparr> # frames st\<rparr>, k'))"

fun insert_ref :: "fd_ref list \<Rightarrow> int \<Rightarrow> fd_ref list" where
  "insert_ref [] fd = [(fd, False)]"
| "insert_ref (r # rs) fd = (if fst r < fd then r # insert_ref rs fd else (fd, False) # r # rs)"

text \<open>The search for the backup with the new number; at most one entry has it.\<close>

fun move_backup :: "kernel \<Rightarrow> fd_ref list list \<Rightarrow> int \<Rightarrow> int \<Rightarrow> fd_entry list \<Rightarrow>
    fd_errno option \<times> fd_entry list \<times> kernel \<times> int" where
  "move_backup k chain next fd [] = (None, [], k, next)"
| "move_backup k chain next fd (e # es) =
     (if saved_fd e \<noteq> fd then
        (case move_backup k chain next fd es of (err, es', k', next') \<Rightarrow> (err, e # es', k', next'))
      else case dup_private k chain fd next of
          (Inl err, k1, next1) \<Rightarrow> (Some err, e # es, k1, next1)
        | (Inr duplicate, k1, next1) \<Rightarrow> (None, e\<lparr>saved_fd := duplicate\<rparr> # es, k_close k1 fd, next1))"

definition fd_add_reference ::
  "(nat \<Rightarrow> bool) \<Rightarrow> kernel \<Rightarrow> fd_stack \<Rightarrow> nat \<Rightarrow> int \<Rightarrow> fd_errno option \<times> fd_stack \<times> kernel" where
  "fd_add_reference avail k st depth fd =
     (case frames st of
        [] \<Rightarrow> (Some FD_EINVAL, st, k)
      | txn # rest \<Rightarrow>
          if depth \<noteq> length (frames st) \<or> fd < 0 then (Some FD_EINVAL, st, k)
          else if find_ref (txn_refs txn) fd \<noteq> None then (None, st, k)
          else if length (txn_refs txn) \<ge> size_max div 8 then (Some FD_ENOMEM, st, k)
          else if \<not> avail ((length (txn_refs txn) + 1) * 8) then (Some FD_ENOMEM, st, k)
          else
            let refs = insert_ref (txn_refs txn) fd in
            case move_backup k (refs # map txn_refs rest) (next_backup_fd txn) fd (entries st) of
              (Some err, es, k', next) \<Rightarrow> (Some err, st\<lparr>entries := es\<rparr>, k')
            | (None, es, k', next) \<Rightarrow>
                (None, st\<lparr>entries := es, frames := txn\<lparr>txn_refs := refs, next_backup_fd := next\<rparr> # rest\<rparr>, k'))"

definition fd_save ::
  "(nat \<Rightarrow> bool) \<Rightarrow> kernel \<Rightarrow> fd_stack \<Rightarrow> nat \<Rightarrow> int \<Rightarrow> fd_errno option \<times> fd_stack \<times> kernel" where
  "fd_save avail k st depth target =
     (case frames st of
        [] \<Rightarrow> (Some FD_EINVAL, st, k)
      | txn # rest \<Rightarrow>
          if depth \<noteq> length (frames st) then (Some FD_EINVAL, st, k)
          else case find_ref (txn_refs txn) target of
              None \<Rightarrow> (Some FD_EINVAL, st, k)
            | Some r \<Rightarrow>
                if snd (txn_refs txn ! r) then (None, st, k)
                else case entries_reserve avail st of
                    Inl err \<Rightarrow> (Some err, st, k)
                  | Inr st1 \<Rightarrow>
                      let marked = (txn_refs txn)[r := (target, True)] in
                      case kfds k target of
                        None \<Rightarrow> (None, st1\<lparr>
                          entries := entries st1 @ [\<lparr>target_fd = target, saved_fd = -1, target_flags = False\<rparr>],
                          frames := txn\<lparr>txn_refs := marked\<rparr> # rest\<rparr>, k)
                      | Some f \<Rightarrow>
                          (case dup_private k (map txn_refs (frames st)) target (next_backup_fd txn) of
                             (Inl err, k1, next) \<Rightarrow>
                               (Some err, st1\<lparr>frames := txn\<lparr>next_backup_fd := next\<rparr> # rest\<rparr>, k1)
                           | (Inr saved, k1, next) \<Rightarrow> (None, st1\<lparr>
                               entries := entries st1 @
                                 [\<lparr>target_fd = target, saved_fd = saved, target_flags = kf_cloexec f\<rparr>],
                               frames := txn\<lparr>txn_refs := marked, next_backup_fd := next\<rparr> # rest\<rparr>, k1)))"

text \<open>The entries of the transaction, the last one first, with the first error so far.\<close>

fun rollback_entries :: "fd_entry list \<Rightarrow> fd_errno option \<Rightarrow> kernel \<Rightarrow> fd_errno option \<times> kernel" where
  "rollback_entries [] err k = (err, k)"
| "rollback_entries (e # es) err k =
     (if saved_fd e < 0 then rollback_entries es err (k_close k (target_fd e))
      else case bx_fd_dup2_exact k (saved_fd e) (target_fd e) of
          Inl er \<Rightarrow> rollback_entries es (if err = None then Some er else err) (k_close k (saved_fd e))
        | Inr k1 \<Rightarrow>
            (case k_setfd k1 (target_fd e) (target_flags e) of
               Inl er \<Rightarrow> rollback_entries es (if err = None then Some er else err) (k_close k1 (saved_fd e))
             | Inr k2 \<Rightarrow> rollback_entries es err (k_close k2 (saved_fd e))))"

definition fd_rollback :: "kernel \<Rightarrow> fd_stack \<Rightarrow> nat \<Rightarrow> fd_errno option \<times> fd_stack \<times> kernel" where
  "fd_rollback k st depth =
     (case frames st of
        [] \<Rightarrow> (Some FD_EINVAL, st, k)
      | txn # rest \<Rightarrow>
          if depth \<noteq> length (frames st) then (Some FD_EINVAL, st, k)
          else case rollback_entries (rev (drop (entry_start txn) (entries st))) None k of
              (err, k') \<Rightarrow> (err, txn_finish st, k'))"

definition fd_commit :: "kernel \<Rightarrow> fd_stack \<Rightarrow> nat \<Rightarrow> fd_errno option \<times> fd_stack \<times> kernel" where
  "fd_commit k st depth =
     (case frames st of
        [] \<Rightarrow> (Some FD_EINVAL, st, k)
      | txn # rest \<Rightarrow>
          if depth \<noteq> length (frames st) then (Some FD_EINVAL, st, k)
          else (None, txn_finish st, close_backups (drop (entry_start txn) (entries st)) k))"

lemma length_takeWhile_eqI:
  "i < length xs \<Longrightarrow> \<not> P (xs ! i) \<Longrightarrow> (\<And>j. j < i \<Longrightarrow> P (xs ! j)) \<Longrightarrow> length (takeWhile P xs) = i"
  by (metis length_takeWhile_less_P_nth linorder_neqE_nat nth_length_takeWhile order.strict_trans takeWhile_nth set_takeWhileD nth_mem)

section \<open>The binary search\<close>

definition ref_fds :: "fd_ref list \<Rightarrow> int set" where
  "ref_fds refs = fst ` set refs"

abbreviation sorted_refs :: "fd_ref list \<Rightarrow> bool" where
  "sorted_refs refs \<equiv> sorted_wrt (<) (map fst refs)"

lemma sorted_refs_less: "sorted_refs refs \<Longrightarrow> i < j \<Longrightarrow> j < length refs \<Longrightarrow> fst (refs ! i) < fst (refs ! j)"
  by (simp add: sorted_wrt_iff_nth_less)

lemma find_ref_loop_bounds:
  assumes "sorted_refs refs" and "first + count \<le> length refs"
    and "\<forall>i < first. fst (refs ! i) < fd" and "\<forall>i. first + count \<le> i \<and> i < length refs \<longrightarrow> fd \<le> fst (refs ! i)"
  shows "find_ref_loop refs fd first count \<le> length refs \<and>
    (\<forall>i < find_ref_loop refs fd first count. fst (refs ! i) < fd) \<and>
    (\<forall>i. find_ref_loop refs fd first count \<le> i \<and> i < length refs \<longrightarrow> fd \<le> fst (refs ! i))"
  using assms
proof (induction refs fd first count rule: find_ref_loop.induct)
  case (1 refs fd first count)
  let ?step = "count div 2" and ?index = "first + count div 2"
  show ?case
  proof (cases "count = 0")
    case True
    then have "find_ref_loop refs fd first count = first" by (subst find_ref_loop.simps) simp
    then show ?thesis using True "1.prems" by simp
  next
    case False
    then have idx: "?index < first + count" by simp
    show ?thesis
    proof (cases "fst (refs ! ?index) < fd")
      case True
      have "\<forall>i < ?index + 1. fst (refs ! i) < fd"
      proof (intro allI impI)
        fix i assume "i < ?index + 1"
        then have "i = ?index \<or> fst (refs ! i) < fst (refs ! ?index)"
          using sorted_refs_less [OF "1.prems"(1), of i ?index] idx "1.prems"(2) by linarith
        with True show "fst (refs ! i) < fd" by auto
      qed
      moreover have "?index + 1 + (count - (?step + 1)) = first + count" using False by simp
      moreover have "find_ref_loop refs fd first count = find_ref_loop refs fd (?index + 1) (count - (?step + 1))"
        using False True by (subst find_ref_loop.simps) (simp add: Let_def)
      ultimately show ?thesis using "1.IH"(1) [OF _ refl refl refl True] "1.prems" False by simp
    next
      case ge: False
      have "\<forall>i. first + ?step \<le> i \<and> i < length refs \<longrightarrow> fd \<le> fst (refs ! i)"
      proof (intro allI impI)
        fix i assume "first + ?step \<le> i \<and> i < length refs"
        then have "i = ?index \<or> fst (refs ! ?index) < fst (refs ! i)"
          using sorted_refs_less [OF "1.prems"(1), of ?index i] by linarith
        with ge show "fd \<le> fst (refs ! i)" by auto
      qed
      moreover have "find_ref_loop refs fd first count = find_ref_loop refs fd first ?step"
        using False ge by (subst find_ref_loop.simps) (simp add: Let_def)
      moreover have "first + ?step \<le> length refs" using "1.prems"(2) by simp
      ultimately show ?thesis
        using "1.IH"(2) [OF False refl refl refl ge "1.prems"(1) _ "1.prems"(3)] by metis
    qed
  qed
qed

lemma find_ref_Some:
  assumes "sorted_refs refs"
  shows "find_ref refs fd = Some i \<longleftrightarrow> i < length refs \<and> fst (refs ! i) = fd"
proof -
  let ?r = "find_ref_loop refs fd 0 (length refs)"
  have b: "?r \<le> length refs" "\<forall>i < ?r. fst (refs ! i) < fd"
    "\<forall>i. ?r \<le> i \<and> i < length refs \<longrightarrow> fd \<le> fst (refs ! i)"
    using find_ref_loop_bounds [OF assms, of 0 "length refs" fd] by auto
  have "i = ?r" if "i < length refs" "fst (refs ! i) = fd"
  proof -
    have "\<not> i < ?r" using b(2) that by auto
    moreover have "\<not> ?r < i"
    proof
      assume "?r < i"
      then have "fst (refs ! ?r) < fd" using sorted_refs_less [OF assms, of ?r i] that by simp
      moreover have "fd \<le> fst (refs ! ?r)" using b(3) \<open>?r < i\<close> that(1) by auto
      ultimately show False by simp
    qed
    ultimately show ?thesis by simp
  qed
  then show ?thesis using b(1) by (auto simp: find_ref_def Let_def)
qed

lemma find_ref_None: "sorted_refs refs \<Longrightarrow> find_ref refs fd = None \<longleftrightarrow> fd \<notin> ref_fds refs"
proof -
  assume "sorted_refs refs"
  then have "(\<exists>i. find_ref refs fd = Some i) \<longleftrightarrow> (\<exists>i < length refs. fst (refs ! i) = fd)"
    by (auto simp: find_ref_Some)
  also have "\<dots> \<longleftrightarrow> fd \<in> ref_fds refs" by (force simp: ref_fds_def in_set_conv_nth)
  finally show ?thesis by auto
qed

text \<open>
  The binary search over the sorted references of a transaction finds a number exactly when it
  is among them, and then its place.
\<close>

lemma find_ref_exact:
  assumes "sorted_wrt (<) (map fst refs)"
  shows "find_ref refs fd =
    (if fd \<in> fst ` set refs then Some (length (takeWhile (\<lambda>r. fst r < fd) refs)) else None)"
proof (cases "find_ref refs fd")
  case None
  then show ?thesis using find_ref_None [OF assms, of fd] by (simp add: ref_fds_def)
next
  case (Some i)
  then have i: "i < length refs" "fst (refs ! i) = fd" by (simp_all add: find_ref_Some [OF assms])
  then have "length (takeWhile (\<lambda>r. fst r < fd) refs) = i"
    using sorted_refs_less [OF assms] by (intro length_takeWhile_eqI) auto
  moreover have "fd \<in> fst ` set refs" using i nth_mem by blast
  ultimately show ?thesis using Some by simp
qed

section \<open>The private duplicate\<close>

lemma k_close_free: "kfds k d = None \<Longrightarrow> k_close (k\<lparr>kfds := (kfds k)(d \<mapsto> f)\<rparr>) d = k"
  by (simp add: k_close_def fun_upd_idem)

lemma dup_private_ok:
  assumes "dup_private k chain src next = (res, k', next')" and "\<forall>refs \<in> set chain. sorted_refs refs"
  shows "next \<le> next' \<and>
    (case res of
       Inl err \<Rightarrow> k' = k
     | Inr d \<Rightarrow> (\<exists>f. kfds k src = Some f \<and> next \<le> d \<and> d < klimit k \<and> kfds k d = None \<and>
         k' = k\<lparr>kfds := (kfds k)(d \<mapsto> f\<lparr>kf_cloexec := True\<rparr>)\<rparr> \<and> (\<forall>refs \<in> set chain. d \<notin> ref_fds refs)))"
  using assms
proof (induction k chain src "next" rule: dup_private.induct)
  case (1 k chain src "next")
  show ?case
  proof (cases "bx_fd_dup_cloexec_min k src next")
    case (Inl err)
    then show ?thesis using "1.prems" by (subst (asm) dup_private.simps) auto
  next
    case (Inr p)
    obtain d k1 where p: "p = (d, k1)" by (cases p)
    from Inr obtain f where f: "kfds k src = Some f" "next \<le> d" "d < klimit k" "kfds k d = None"
      "k1 = k\<lparr>kfds := (kfds k)(d \<mapsto> f\<lparr>kf_cloexec := True\<rparr>)\<rparr>"
      unfolding p by (rule dup_min_Inr)
    have closed: "k_close k1 d = k" using f by (simp add: k_close_free)
    define C where "C \<longleftrightarrow> (\<exists>refs \<in> set chain. find_ref refs d \<noteq> None)"
    have coll: "C \<longleftrightarrow> (\<exists>refs \<in> set chain. d \<in> ref_fds refs)"
    proof -
      have "(find_ref refs d \<noteq> None) = (d \<in> ref_fds refs)" if "refs \<in> set chain" for refs
        using find_ref_None [of refs d] "1.prems"(2) that by simp
      then show ?thesis unfolding C_def by (rule bex_cong [OF refl])
    qed
    have eq: "dup_private k chain src next =
        (if d = INT_MAX then (if \<not> C then (Inr d, k1, INT_MAX) else (Inl FD_EMFILE, k, INT_MAX))
         else if \<not> C then (Inr d, k1, d + 1) else dup_private k chain src (d + 1))"
      unfolding C_def using closed by (subst dup_private.simps) (auto simp: Inr p Let_def)
    show ?thesis
    proof (cases "C \<and> d \<noteq> INT_MAX")
      case True
      then have "dup_private k chain src (d + 1) = (res, k', next')" using eq "1.prems"(1) by simp
      then have "d + 1 \<le> next' \<and> (case res of Inl err \<Rightarrow> k' = k
          | Inr x \<Rightarrow> (\<exists>f. kfds k src = Some f \<and> d + 1 \<le> x \<and> x < klimit k \<and> kfds k x = None \<and>
              k' = k\<lparr>kfds := (kfds k)(x \<mapsto> f\<lparr>kf_cloexec := True\<rparr>)\<rparr> \<and> (\<forall>refs \<in> set chain. x \<notin> ref_fds refs)))"
        using "1.IH" [OF Inr p [symmetric] refl] True "1.prems"(2) unfolding C_def closed by simp
      then show ?thesis using f(2) by (cases res) force+
    next
      case False
      then consider "\<not> C" "res = Inr d" "k' = k1" "next \<le> next'" | "C" "res = Inl FD_EMFILE" "k' = k" "next \<le> next'"
        using eq "1.prems"(1) f(2) by (cases C; cases "d = INT_MAX") auto
      then show ?thesis
      proof cases
        case 1
        then show ?thesis using f coll by auto
      next
        case 2
        then show ?thesis by simp
      qed
    qed
  qed
qed

section \<open>Backups: invariant, visible descriptors, snapshots\<close>

text \<open>The numbers that hold backups, and what the backups must satisfy.\<close>

definition saved_list :: "fd_entry list \<Rightarrow> int list" where
  "saved_list es = filter (\<lambda>b. 0 \<le> b) (map saved_fd es)"

definition kernel_ok :: "kernel \<Rightarrow> bool" where
  "kernel_ok k \<longleftrightarrow> (\<forall>fd. kfds k fd \<noteq> None \<longrightarrow> 0 \<le> fd \<and> fd < klimit k)"

definition backups_ok :: "kernel \<Rightarrow> fd_ref list list \<Rightarrow> fd_entry list \<Rightarrow> bool" where
  "backups_ok k chain es \<longleftrightarrow> distinct (saved_list es) \<and>
     (\<forall>b \<in> set (saved_list es). (\<exists>f. kfds k b = Some f \<and> kf_cloexec f) \<and> (\<forall>refs \<in> set chain. b \<notin> ref_fds refs)) \<and>
     (\<forall>e \<in> set es. 0 \<le> saved_fd e \<longrightarrow> target_fd e < klimit k)"

text \<open>
  What the user of the shell sees: the table without the backups. What an entry stands for: the
  state of its target when it was saved.
\<close>

definition visible :: "kernel \<Rightarrow> fd_entry list \<Rightarrow> int \<Rightarrow> kfile option" where
  "visible k es = (\<lambda>fd. if fd \<in> set (saved_list es) then None else kfds k fd)"

definition snapshot :: "kernel \<Rightarrow> fd_entry \<Rightarrow> int \<times> kfile option" where
  "snapshot k e = (target_fd e,
     if saved_fd e < 0 then None else map_option (\<lambda>f. f\<lparr>kf_cloexec := target_flags e\<rparr>) (kfds k (saved_fd e)))"

lemma saved_list_simps [simp]:
  "saved_list [] = []" "saved_list (xs @ ys) = saved_list xs @ saved_list ys"
  "saved_list (e # es) = (if 0 \<le> saved_fd e then saved_fd e # saved_list es else saved_list es)"
  by (simp_all add: saved_list_def)

lemma saved_list_mem: "e \<in> set es \<Longrightarrow> 0 \<le> saved_fd e \<Longrightarrow> saved_fd e \<in> set (saved_list es)"
  by (auto simp: saved_list_def)

lemma saved_list_nonneg: "b \<in> set (saved_list es) \<Longrightarrow> 0 \<le> b"
  by (simp add: saved_list_def)

text \<open>Moving one backup to a free number changes neither.\<close>

lemma move_one:
  assumes B: "backups_ok k chain (a @ e # b)" and K: "kernel_ok k"
    and s: "0 \<le> saved_fd e" "kfds k (saved_fd e) = Some f"
    and d: "kfds k d = None" "0 \<le> d" "d < klimit k" "\<forall>refs \<in> set chain. d \<notin> ref_fds refs"
    and k2: "k2 = k_close (k\<lparr>kfds := (kfds k)(d \<mapsto> f\<lparr>kf_cloexec := True\<rparr>)\<rparr>) (saved_fd e)"
  defines "e2 \<equiv> e\<lparr>saved_fd := d\<rparr>"
  shows "backups_ok k2 chain (a @ e2 # b)" and "kernel_ok k2" and "klimit k2 = klimit k"
    and "visible k2 (a @ e2 # b) = visible k (a @ e # b)"
    and "map (snapshot k2) (a @ e2 # b) = map (snapshot k) (a @ e # b)"
proof -
  have other: "x \<noteq> d \<and> x \<noteq> saved_fd e" if "x \<in> set (saved_list a) \<union> set (saved_list b)" for x
  proof -
    have "x \<in> set (saved_list (a @ e # b))" using that by auto
    with B have "\<exists>g. kfds k x = Some g" unfolding backups_ok_def by blast
    then obtain g where "kfds k x = Some g" ..
    moreover have "x \<noteq> saved_fd e" using that B s(1) by (auto simp: backups_ok_def)
    ultimately show ?thesis using d(1) by auto
  qed
  have fds: "kfds k2 = (kfds k)(d \<mapsto> f\<lparr>kf_cloexec := True\<rparr>, saved_fd e := None)"
    and lim: "klimit k2 = klimit k" by (simp_all add: k2 k_close_def)
  show "klimit k2 = klimit k" by (rule lim)
  have ne: "d \<noteq> saved_fd e" using s(2) d(1) by auto
  show "backups_ok k2 chain (a @ e2 # b)"
    using B s d ne other by (auto simp: backups_ok_def fds lim e2_def)
  show "kernel_ok k2" using K d by (auto simp: kernel_ok_def fds lim)
  show "visible k2 (a @ e2 # b) = visible k (a @ e # b)"
    using s d ne other by (auto simp: visible_def fds e2_def fun_eq_iff)
  have same: "snapshot k2 x = snapshot k x" if "x \<in> set a \<union> set b" for x
  proof (cases "0 \<le> saved_fd x")
    case True
    then have "saved_fd x \<in> set (saved_list a) \<union> set (saved_list b)" using that saved_list_mem by auto
    then show ?thesis using other by (simp add: snapshot_def fds)
  qed (simp add: snapshot_def)
  moreover have "snapshot k2 e2 = snapshot k e"
    using s d(2) ne by (simp add: snapshot_def fds e2_def)
  ultimately show "map (snapshot k2) (a @ e2 # b) = map (snapshot k) (a @ e # b)" by simp
qed

lemma dup_move:
  assumes dup: "dup_private k chain' (saved_fd e) next = (Inr d, k1, next')"
    and sorted: "\<forall>refs \<in> set chain'. sorted_refs refs" and sub: "(\<Union>r \<in> set chain. ref_fds r) \<subseteq> (\<Union>r \<in> set chain'. ref_fds r)"
    and B: "backups_ok k chain (a @ e # b)" and K: "kernel_ok k" and s: "0 \<le> saved_fd e" and "next": "0 \<le> next"
  shows "backups_ok (k_close k1 (saved_fd e)) chain (a @ e\<lparr>saved_fd := d\<rparr> # b)"
    and "kernel_ok (k_close k1 (saved_fd e))" and "klimit (k_close k1 (saved_fd e)) = klimit k"
    and "visible (k_close k1 (saved_fd e)) (a @ e\<lparr>saved_fd := d\<rparr> # b) = visible k (a @ e # b)"
    and "map (snapshot (k_close k1 (saved_fd e))) (a @ e\<lparr>saved_fd := d\<rparr> # b) = map (snapshot k) (a @ e # b)"
    and "next \<le> next'" and "0 \<le> d" and "\<forall>refs \<in> set chain'. d \<notin> ref_fds refs"
proof -
  from dup_private_ok [OF dup sorted] obtain f where f: "next \<le> next'" "kfds k (saved_fd e) = Some f" "next \<le> d"
    "d < klimit k" "kfds k d = None" "k1 = k\<lparr>kfds := (kfds k)(d \<mapsto> f\<lparr>kf_cloexec := True\<rparr>)\<rparr>"
    "\<forall>refs \<in> set chain'. d \<notin> ref_fds refs" by auto
  from f(3) "next" show d0: "0 \<le> d" by simp
  show "next \<le> next'" "\<forall>refs \<in> set chain'. d \<notin> ref_fds refs" by (rule f(1), rule f(7))
  from f(7) sub have "\<forall>refs \<in> set chain. d \<notin> ref_fds refs" by auto
  note m = move_one [OF B K s f(2,5) d0 f(4) this, of "k_close k1 (saved_fd e)", unfolded f(6), OF refl, folded f(6)]
  show "backups_ok (k_close k1 (saved_fd e)) chain (a @ e\<lparr>saved_fd := d\<rparr> # b)" by (rule m(1))
  show "kernel_ok (k_close k1 (saved_fd e))" by (rule m(2))
  show "klimit (k_close k1 (saved_fd e)) = klimit k" by (rule m(3))
  show "visible (k_close k1 (saved_fd e)) (a @ e\<lparr>saved_fd := d\<rparr> # b) = visible k (a @ e # b)" by (rule m(4))
  show "map (snapshot (k_close k1 (saved_fd e))) (a @ e\<lparr>saved_fd := d\<rparr> # b) = map (snapshot k) (a @ e # b)"
    by (rule m(5))
qed

text \<open>Moving all backups that a list of references names.\<close>

lemma relocate_ok:
  assumes "relocate k refs chain next es = (err, es', k', next')"
    and "\<forall>r \<in> set (refs # chain). sorted_refs r" and "backups_ok k chain (pre @ es)" and "kernel_ok k" and "0 \<le> next"
    and "\<forall>b \<in> set (saved_list pre). b \<notin> ref_fds refs"
  shows "backups_ok k' chain (pre @ es') \<and> kernel_ok k' \<and> klimit k' = klimit k \<and>
    visible k' (pre @ es') = visible k (pre @ es) \<and> map (snapshot k') (pre @ es') = map (snapshot k) (pre @ es) \<and>
    map target_fd es' = map target_fd es \<and> next \<le> next' \<and>
    (err = None \<longrightarrow> (\<forall>b \<in> set (saved_list (pre @ es')). b \<notin> ref_fds refs))"
  using assms
proof (induction es arbitrary: k "next" pre es' k' next' err)
  case Nil
  then show ?case by simp
next
  case (Cons e es)
  show ?case
  proof (cases "saved_fd e < 0 \<or> find_ref refs (saved_fd e) = None")
    case True
    from True Cons.prems(1) obtain es1 where r: "relocate k refs chain next es = (err, es1, k', next')" "es' = e # es1"
      by (auto split: prod.splits)
    have "\<forall>b \<in> set (saved_list (pre @ [e])). b \<notin> ref_fds refs"
      using True Cons.prems(2,6) by (auto simp: find_ref_None)
    with Cons.IH [OF r(1) Cons.prems(2), of "pre @ [e]"] Cons.prems show ?thesis by (simp add: r(2))
  next
    case False
    then have s: "0 \<le> saved_fd e" by simp
    show ?thesis
    proof (cases "dup_private k (refs # chain) (saved_fd e) next")
      case (fields res k1 next1)
      show ?thesis
      proof (cases res)
        case (Inl er)
        with False Cons.prems(1) fields have "err = Some er" "es' = e # es" "k' = k1" "next' = next1" by auto
        moreover from dup_private_ok [OF fields Cons.prems(2)] Inl have "k1 = k" "next \<le> next1" by auto
        ultimately show ?thesis using Cons.prems by simp
      next
        case (Inr d)
        let ?k2 = "k_close k1 (saved_fd e)" and ?e2 = "e\<lparr>saved_fd := d\<rparr>"
        from False Cons.prems(1) fields Inr obtain es1 where
          r: "relocate ?k2 refs chain next1 es = (err, es1, k', next')" "es' = ?e2 # es1"
          by (auto split: prod.splits)
        have "(\<Union>r \<in> set chain. ref_fds r) \<subseteq> (\<Union>r \<in> set (refs # chain). ref_fds r)" by auto
        note m = dup_move [OF fields [unfolded Inr] Cons.prems(2) this Cons.prems(3,4) s Cons.prems(5)]
        have "\<forall>b \<in> set (saved_list (pre @ [?e2])). b \<notin> ref_fds refs" using m(8) Cons.prems(6) by simp
        moreover have "0 \<le> next1" using m(6) Cons.prems(5) by simp
        ultimately have "backups_ok k' chain ((pre @ [?e2]) @ es1) \<and> kernel_ok k' \<and> klimit k' = klimit ?k2 \<and>
          visible k' ((pre @ [?e2]) @ es1) = visible ?k2 ((pre @ [?e2]) @ es) \<and>
          map (snapshot k') ((pre @ [?e2]) @ es1) = map (snapshot ?k2) ((pre @ [?e2]) @ es) \<and>
          map target_fd es1 = map target_fd es \<and> next1 \<le> next' \<and>
          (err = None \<longrightarrow> (\<forall>b \<in> set (saved_list ((pre @ [?e2]) @ es1)). b \<notin> ref_fds refs))"
          using m(1,2) by (intro Cons.IH [OF r(1) Cons.prems(2)]) simp_all
        then show ?thesis using m(3-6) r(2) by simp
      qed
    qed
  qed
qed

section \<open>The invariant of the stack\<close>

definition txn_ok :: "fd_txn \<Rightarrow> int list \<Rightarrow> bool" where
  "txn_ok txn targets \<longleftrightarrow> sorted_refs (txn_refs txn) \<and> (\<forall>fd \<in> ref_fds (txn_refs txn). 0 \<le> fd) \<and>
     10 \<le> next_backup_fd txn \<and> distinct targets \<and> {fd. (fd, True) \<in> set (txn_refs txn)} = set targets"

fun frames_ok :: "fd_txn list \<Rightarrow> int list \<Rightarrow> bool" where
  "frames_ok [] ts \<longleftrightarrow> ts = []"
| "frames_ok (txn # rest) ts \<longleftrightarrow> entry_start txn \<le> length ts \<and> txn_ok txn (drop (entry_start txn) ts) \<and>
     frames_ok rest (take (entry_start txn) ts)"

definition fd_inv :: "kernel \<Rightarrow> fd_stack \<Rightarrow> bool" where
  "fd_inv k st \<longleftrightarrow> kernel_ok k \<and> frames_ok (frames st) (map target_fd (entries st)) \<and>
     backups_ok k (map txn_refs (frames st)) (entries st) \<and> length (entries st) \<le> entry_capacity st"

lemma frames_ok_sorted: "frames_ok fr ts \<Longrightarrow> \<forall>refs \<in> set (map txn_refs fr). sorted_refs refs"
  by (induction fr ts rule: frames_ok.induct) (auto simp: txn_ok_def)

lemma frames_ok_targets:
  "frames_ok fr ts \<Longrightarrow> t \<in> set ts \<Longrightarrow> 0 \<le> t \<and> (\<exists>refs \<in> set (map txn_refs fr). t \<in> ref_fds refs)"
proof (induction fr ts rule: frames_ok.induct)
  case (2 txn rest ts)
  have "set ts = set (take (entry_start txn) ts) \<union> set (drop (entry_start txn) ts)"
    by (metis append_take_drop_id set_append)
  with 2(3) consider "t \<in> set (take (entry_start txn) ts)" | "t \<in> set (drop (entry_start txn) ts)" by auto
  then show ?case
  proof cases
    case 1
    with 2 show ?thesis by simp
  next
    case d: 2
    with 2(2) have "(t, True) \<in> set (txn_refs txn)" by (auto simp: txn_ok_def)
    then have "t \<in> ref_fds (txn_refs txn)" by (force simp: ref_fds_def)
    with 2(2) show ?thesis by (auto simp: txn_ok_def)
  qed
qed simp

text \<open>The assertion that the code makes on every entry, frame and reference follows.\<close>

lemma backup_invariant_ok:
  assumes inv: "fd_inv k st" and i: "i < length (entries st)"
  shows "backup_invariant k st i"
proof -
  let ?es = "entries st" and ?chain = "map txn_refs (frames st)"
  have B: "backups_ok k ?chain ?es" and F: "frames_ok (frames st) (map target_fd ?es)"
    using inv by (simp_all add: fd_inv_def)
  have tgt: "0 \<le> target_fd e \<and> (\<exists>refs \<in> set ?chain. target_fd e \<in> ref_fds refs)" if "e \<in> set ?es" for e
    using frames_ok_targets [OF F, of "target_fd e"] that by simp
  have sav: "saved_fd e \<in> set (saved_list ?es)" if "e \<in> set ?es" "0 \<le> saved_fd e" for e
    using saved_list_mem that by blast
  have notin: "saved_fd e \<notin> ref_fds refs" if "e \<in> set ?es" "0 \<le> saved_fd e" "refs \<in> set ?chain" for e refs
    using B sav [OF that(1,2)] that(3) unfolding backups_ok_def by blast
  have apart: "target_fd e' \<noteq> saved_fd e" if "e \<in> set ?es" "e' \<in> set ?es" for e e'
    using tgt [OF that(2)] tgt [OF that(1)] notin [OF that(1)] by auto
  have e: "?es ! i \<in> set ?es" using i by simp
  have live: "case kfds k (saved_fd (?es ! i)) of None \<Rightarrow> False | Some f \<Rightarrow> kf_cloexec f" if "0 \<le> saved_fd (?es ! i)"
    using B sav [OF e that] unfolding backups_ok_def by (auto split: option.splits)
  have once: "saved_fd (?es ! j) \<noteq> saved_fd (?es ! i)" if "j < i" "0 \<le> saved_fd (?es ! i)" for j
  proof
    assume eq: "saved_fd (?es ! j) = saved_fd (?es ! i)"
    have "?es ! j \<in> set (take i ?es)" using that i by (simp add: in_set_conv_nth) (metis nth_take)
    moreover have "?es = take i ?es @ ?es ! i # drop (Suc i) ?es" using i by (rule id_take_nth_drop)
    then have "saved_list ?es = saved_list (take i ?es) @ saved_fd (?es ! i) # saved_list (drop (Suc i) ?es)"
      using that(2) saved_list_simps(2,3) by metis
    then have "saved_fd (?es ! i) \<notin> set (saved_list (take i ?es))"
      using B by (simp add: backups_ok_def)
    ultimately show False using saved_list_mem [of "?es ! j" "take i ?es"] eq that(2) by simp
  qed
  have names: "find_ref (txn_refs txn) (saved_fd (?es ! i)) = None"
    if "txn \<in> set (frames st)" "0 \<le> saved_fd (?es ! i)" for txn
    using that frames_ok_sorted [OF F] notin [OF e that(2)] by (simp add: find_ref_None)
  have nb: "?es ! j \<in> set ?es" if "j < i" for j using that i by simp
  show ?thesis unfolding backup_invariant_def Let_def
    using tgt [OF e] apart [OF e e] live once names apart [OF e nb] apart [OF nb e] by metis
qed

lemma frames_invariant_ok:
  assumes inv: "fd_inv k st"
  shows "frames_ok fr (take n (map target_fd (entries st))) \<Longrightarrow> n \<le> length (entries st) \<Longrightarrow> frames_invariant k st fr n"
proof (induction fr arbitrary: n)
  case Nil
  then show ?case by auto
next
  case (Cons txn rest)
  let ?ts = "map target_fd (entries st)" and ?s = "entry_start txn" and ?refs = "txn_refs txn"
  have s: "?s \<le> n" and ok: "txn_ok txn (drop ?s (take n ?ts))" using Cons.prems by simp_all
  have sorted: "sorted_refs ?refs" using ok by (simp add: txn_ok_def)
  have tset: "set (drop ?s (take n ?ts)) = (\<lambda>j. target_fd (entries st ! j)) ` {?s..<n}"
  proof -
    have "drop ?s (take n ?ts) = map (\<lambda>j. target_fd (entries st ! j)) [?s..<n]"
      using Cons.prems(2) s by (intro nth_equalityI) simp_all
    then show ?thesis by simp
  qed
  have refs: "references_invariant txn"
    unfolding references_invariant_def
  proof (intro conjI allI impI)
    fix i assume i: "i < length ?refs"
    then have "fst (?refs ! i) \<in> ref_fds ?refs" by (simp add: ref_fds_def)
    then show "0 \<le> fst (?refs ! i)" using ok unfolding txn_ok_def by blast
    show "fst (?refs ! (i - 1)) < fst (?refs ! i)" if "i \<noteq> 0"
      using sorted_refs_less [OF sorted, of "i - 1" i] i that by simp
  qed (use ok in \<open>simp add: txn_ok_def\<close>)
  have snd_iff: "snd (?refs ! i) \<longleftrightarrow> (fst (?refs ! i), True) \<in> set ?refs" if "i < length ?refs" for i
  proof
    assume "snd (?refs ! i)"
    then show "(fst (?refs ! i), True) \<in> set ?refs" using that by (metis (full_types) nth_mem prod.collapse)
  next
    assume "(fst (?refs ! i), True) \<in> set ?refs"
    then obtain j where j: "j < length ?refs" "?refs ! j = (fst (?refs ! i), True)" by (auto simp: in_set_conv_nth)
    then have "\<not> i < j" "\<not> j < i"
      using sorted_refs_less [OF sorted, of i j] sorted_refs_less [OF sorted, of j i] that by auto
    then show "snd (?refs ! i)" using j by (metis linorder_neqE_nat snd_conv)
  qed
  have found: "case find_ref ?refs (target_fd (entries st ! i)) of None \<Rightarrow> False | Some r \<Rightarrow> snd (?refs ! r)"
    if "i \<in> {?s..<n}" for i
  proof -
    have "target_fd (entries st ! i) \<in> set (drop ?s (take n ?ts))" unfolding tset using that by (rule imageI)
    then have T: "(target_fd (entries st ! i), True) \<in> set ?refs" using ok unfolding txn_ok_def by blast
    then obtain j where "j < length ?refs" "?refs ! j = (target_fd (entries st ! i), True)" by (auto simp: in_set_conv_nth)
    then have "find_ref ?refs (target_fd (entries st ! i)) = Some j" "snd (?refs ! j)" by (simp_all add: find_ref_Some [OF sorted])
    then show ?thesis by simp
  qed
  have dist: "target_fd (entries st ! j) \<noteq> target_fd (entries st ! i)" if "i \<in> {?s..<n}" "j \<in> {?s..<i}" for i j
  proof -
    have "drop ?s (take n ?ts) ! (j - ?s) \<noteq> drop ?s (take n ?ts) ! (i - ?s)"
      using ok that Cons.prems(2) unfolding txn_ok_def
      by (subst nth_eq_iff_index_eq) auto
    then show ?thesis using that Cons.prems(2) by simp
  qed
  have marks: "snd (?refs ! i) = (\<exists>j \<in> {?s..<n}. target_fd (entries st ! j) = fst (?refs ! i))" if "i < length ?refs" for i
  proof -
    have "snd (?refs ! i) \<longleftrightarrow> fst (?refs ! i) \<in> set (drop ?s (take n ?ts))"
      using ok snd_iff [OF that] unfolding txn_ok_def by auto
    also have "\<dots> \<longleftrightarrow> (\<exists>j \<in> {?s..<n}. target_fd (entries st ! j) = fst (?refs ! i))"
      unfolding tset image_iff by metis
    finally show ?thesis .
  qed
  have "frames_invariant k st rest ?s"
    using Cons.prems s by (intro Cons.IH) (simp_all add: min_def split: if_splits)
  then show ?case
    using s refs found dist marks backup_invariant_ok [OF inv] Cons.prems(2) by simp
qed

text \<open>
  Whenever the invariant of the development holds, the check that the code itself makes of its
  stack before it opens a transaction succeeds: references sorted, every saved reference with
  exactly one entry, every backup open, close-on-exec, unshared and named by no transaction.
\<close>

lemma fd_inv_stack_invariants:
  assumes "fd_inv k st"
  shows "stack_invariants k st"
proof -
  have F: "frames_ok (frames st) (map target_fd (entries st))" and len: "length (entries st) \<le> entry_capacity st"
    using assms by (simp_all add: fd_inv_def)
  have "frames_invariant k st (frames st) (length (entries st))"
    using frames_invariant_ok [OF assms, of "frames st" "length (entries st)"] F by simp
  moreover have "entries st = []" if "frames st = []" using F that by simp
  ultimately show ?thesis using len by (auto simp: stack_invariants_def)
qed

end
