(* ===== verification/FdRefinement.thy ===== *)
theory FdRefinement
  imports FdTransaction
begin

text \<open>
  The contract of \<open>src/src/lib/fd_transaction.c\<close>: what a transaction means for the shell that uses
  it. The abstract state is the table of descriptors without the private backups, and for each
  active transaction the set of numbers it may save with the values saved so far. Every operation
  of FdTransaction keeps the invariant of the stack and is, seen from outside, the abstract one.
\<close>

section \<open>The abstract transactions\<close>

record spec_frame =
  allowed :: "int set"
  saves :: "(int \<times> kfile option) list"

record spec_state =
  table :: "int \<Rightarrow> kfile option"
  active :: "spec_frame list"

definition spec_begin :: "int list \<Rightarrow> spec_state \<Rightarrow> spec_state" where
  "spec_begin fds s = s\<lparr>active := \<lparr>allowed = set fds, saves = []\<rparr> # active s\<rparr>"

definition spec_add :: "int \<Rightarrow> spec_state \<Rightarrow> spec_state" where
  "spec_add fd s = (case active s of [] \<Rightarrow> s | f # fs \<Rightarrow> s\<lparr>active := f\<lparr>allowed := insert fd (allowed f)\<rparr> # fs\<rparr>)"

definition spec_save :: "int \<Rightarrow> spec_state \<Rightarrow> spec_state" where
  "spec_save fd s = (case active s of [] \<Rightarrow> s
     | f # fs \<Rightarrow> if fd \<in> fst ` set (saves f) then s
                else s\<lparr>active := f\<lparr>saves := saves f @ [(fd, table s fd)]\<rparr> # fs\<rparr>)"

definition restore :: "(int \<times> kfile option) list \<Rightarrow> (int \<Rightarrow> kfile option) \<Rightarrow> int \<Rightarrow> kfile option" where
  "restore vs m = (\<lambda>fd. case map_of vs fd of None \<Rightarrow> m fd | Some v \<Rightarrow> v)"

definition spec_rollback :: "spec_state \<Rightarrow> spec_state" where
  "spec_rollback s = (case active s of [] \<Rightarrow> s | f # fs \<Rightarrow> \<lparr>table = restore (saves f) (table s), active = fs\<rparr>)"

definition spec_commit :: "spec_state \<Rightarrow> spec_state" where
  "spec_commit s = (case active s of [] \<Rightarrow> s | f # fs \<Rightarrow> s\<lparr>active := fs\<rparr>)"

fun frames_abs :: "fd_txn list \<Rightarrow> (int \<times> kfile option) list \<Rightarrow> spec_frame list" where
  "frames_abs [] vs = []"
| "frames_abs (txn # rest) vs =
     \<lparr>allowed = ref_fds (txn_refs txn), saves = drop (entry_start txn) vs\<rparr> # frames_abs rest (take (entry_start txn) vs)"

definition fd_abs :: "kernel \<Rightarrow> fd_stack \<Rightarrow> spec_state" where
  "fd_abs k st = \<lparr>table = visible k (entries st), active = frames_abs (frames st) (map (snapshot k) (entries st))\<rparr>"

section \<open>Lemmas on the parts\<close>

lemma fst_snapshot [simp]: "fst (snapshot k e) = target_fd e"
  by (simp add: snapshot_def)

lemma fst_o_snapshot [simp]: "fst \<circ> snapshot k = target_fd"
  by (simp add: fun_eq_iff)

lemma fd_inv_backups: "fd_inv k st \<Longrightarrow> backups_ok k (map txn_refs (frames st)) (entries st)"
  by (simp add: fd_inv_def)

lemma fd_inv_frames: "fd_inv k st \<Longrightarrow> frames_ok (frames st) (map target_fd (entries st))"
  by (simp add: fd_inv_def)

lemma unique_refs_ok:
  "sorted_refs (unique_refs fds)" "ref_fds (unique_refs fds) = set fds" "(fd, True) \<notin> set (unique_refs fds)"
proof -
  have "sorted xs \<Longrightarrow> sorted_wrt (<) (remdups_adj xs)" for xs :: "int list"
    by (induction xs rule: remdups_adj.induct) (auto simp: less_le)
  then have "sorted_wrt (<) (remdups_adj (sort fds))" by simp
  then show "sorted_refs (unique_refs fds)" by (simp add: unique_refs_def comp_def)
  show "ref_fds (unique_refs fds) = set fds" by (force simp: ref_fds_def unique_refs_def)
  show "(fd, True) \<notin> set (unique_refs fds)" by (auto simp: unique_refs_def)
qed

lemma insert_ref_ok:
  assumes "sorted_refs refs" and "fd \<notin> ref_fds refs"
  shows "sorted_refs (insert_ref refs fd) \<and> set (insert_ref refs fd) = insert (fd, False) (set refs)"
  using assms
proof (induction refs)
  case (Cons r rs)
  have "fst r \<noteq> fd" using Cons.prems(2) by (auto simp: ref_fds_def)
  with Cons show ?case by (auto simp: ref_fds_def)
qed simp

lemma move_backup_ok:
  assumes "move_backup k chain' next fd es = (err, es', k', next')"
    and "\<forall>r \<in> set chain'. sorted_refs r" and "(\<Union>r \<in> set chain. ref_fds r) \<subseteq> (\<Union>r \<in> set chain'. ref_fds r)"
    and "backups_ok k chain (pre @ es)" and "kernel_ok k" and "0 \<le> next" and "0 \<le> fd"
    and "\<exists>refs \<in> set chain'. fd \<in> ref_fds refs" and "fd \<notin> set (saved_list pre)"
  shows "backups_ok k' chain (pre @ es') \<and> kernel_ok k' \<and> klimit k' = klimit k \<and>
    visible k' (pre @ es') = visible k (pre @ es) \<and> map (snapshot k') (pre @ es') = map (snapshot k) (pre @ es) \<and>
    map target_fd es' = map target_fd es \<and> next \<le> next' \<and>
    (err = None \<longrightarrow> fd \<notin> set (saved_list (pre @ es')))"
  using assms
proof (induction es arbitrary: pre es' k' next' err)
  case Nil
  then show ?case by simp
next
  case (Cons e es)
  show ?case
  proof (cases "saved_fd e = fd")
    case False
    with Cons.prems(1) obtain es1 where r: "move_backup k chain' next fd es = (err, es1, k', next')" "es' = e # es1"
      by (auto split: prod.splits)
    have "fd \<notin> set (saved_list (pre @ [e]))" using False Cons.prems(9) by simp
    with Cons.IH [OF r(1) Cons.prems(2,3), of "pre @ [e]"] Cons.prems show ?thesis by (simp add: r(2))
  next
    case True
    then have s: "0 \<le> saved_fd e" using Cons.prems(7) by simp
    show ?thesis
    proof (cases "dup_private k chain' (saved_fd e) next")
      case (fields res k1 next1)
      show ?thesis
      proof (cases res)
        case (Inl er)
        with True Cons.prems(1) fields have "err = Some er" "es' = e # es" "k' = k1" "next' = next1" by auto
        moreover from dup_private_ok [OF fields Cons.prems(2)] Inl have "k1 = k" "next \<le> next1" by auto
        ultimately show ?thesis using Cons.prems by simp
      next
        case (Inr d)
        with True Cons.prems(1) fields have r: "err = None" "es' = e\<lparr>saved_fd := d\<rparr> # es" "k' = k_close k1 (saved_fd e)"
          "next' = next1" by auto
        note m = dup_move [OF fields [unfolded Inr] Cons.prems(2,3,4,5) s Cons.prems(6)]
        have "fd \<notin> set (saved_list es)" using Cons.prems(4) True s by (auto simp: backups_ok_def)
        moreover have "d \<noteq> fd" using m(8) Cons.prems(8) by auto
        ultimately have "fd \<notin> set (saved_list (pre @ es'))" using Cons.prems(9) r(2) by auto
        then show ?thesis using m(1-6) r by simp
      qed
    qed
  qed
qed

text \<open>A reference that no backup uses can be added to the chain.\<close>

lemma backups_ok_add_ref:
  "backups_ok k chain es \<Longrightarrow> \<forall>b \<in> set (saved_list es). b \<notin> ref_fds refs \<Longrightarrow> backups_ok k (refs # chain) es"
  by (simp add: backups_ok_def)

lemma frames_ok_same_targets:
  "fd_inv k st \<Longrightarrow> map target_fd es = map target_fd (entries st) \<Longrightarrow> length es = length (entries st)"
  by (metis length_map)

text \<open>
  Opening a transaction keeps the invariant; when it succeeds it is the abstract opening, with
  the table as it was although backups may have moved, and when it fails nothing can be seen of it.
\<close>

lemma fd_begin_refines:
  assumes inv: "fd_inv k st" and run: "fd_begin avail k st fds = (err, st', k')"
  shows "fd_inv k' st' \<and> fd_abs k' st' = (if err = None then spec_begin fds (fd_abs k st) else fd_abs k st)"
proof (cases "\<exists>er. err = Some er \<and> st' = st \<and> k' = k")
  case True
  then show ?thesis using inv by auto
next
  case False
  let ?refs = "unique_refs fds" and ?chain = "map txn_refs (frames st)"
  obtain er es k2 "next" where rel: "relocate k ?refs ?chain 10 (entries st) = (er, es, k2, next)"
    by (cases "relocate k ?refs ?chain 10 (entries st)")
  from run False have nonneg: "\<forall>fd \<in> set fds. 0 \<le> fd" by (auto simp: fd_begin_def split: if_splits)
  from run False rel have r: "err = er" "k' = k2"
    "st' = (if er = None then st\<lparr>entries := es, frames :=
       \<lparr>txn_refs = ?refs, entry_start = length (entries st), next_backup_fd = next\<rparr> # frames st\<rparr> else st\<lparr>entries := es\<rparr>)"
    by (auto simp: fd_begin_def Let_def split: if_splits option.splits)
  have sorted: "\<forall>r \<in> set (?refs # ?chain). sorted_refs r"
    using frames_ok_sorted [OF fd_inv_frames [OF inv]] unique_refs_ok(1) [of fds] by (simp del: set_map)
  have m: "backups_ok k2 ?chain es" "kernel_ok k2" "visible k2 es = visible k (entries st)"
    "map (snapshot k2) es = map (snapshot k) (entries st)" "map target_fd es = map target_fd (entries st)" "10 \<le> next"
    "er = None \<Longrightarrow> \<forall>b \<in> set (saved_list es). b \<notin> ref_fds ?refs"
    using relocate_ok [OF rel sorted, of "[]"] inv by (simp_all add: fd_inv_def)
  have len: "length es = length (entries st)" using m(5) by (metis length_map)
  show ?thesis
  proof (cases er)
    case None
    have "txn_ok \<lparr>txn_refs = ?refs, entry_start = length (entries st), next_backup_fd = next\<rparr> []"
      using nonneg m(6) unique_refs_ok(1,2) [of fds] unique_refs_ok(3) [of _ fds] by (simp add: txn_ok_def)
    then have "fd_inv k' st'" using inv None m r len backups_ok_add_ref [OF m(1) m(7)]
      by (simp add: fd_inv_def)
    moreover have "fd_abs k' st' = spec_begin fds (fd_abs k st)"
      using None r m(3,4) len unique_refs_ok(2) [of fds] by (simp add: fd_abs_def spec_begin_def)
    ultimately show ?thesis using None r by simp
  next
    case (Some e)
    then show ?thesis using inv m r len by (simp add: fd_inv_def fd_abs_def)
  qed
qed

text \<open>
  Adding a reference to the innermost transaction moves away a backup that has the number,
  keeps the invariant, and changes nothing that can be seen but the set of numbers of the
  transaction; when it fails nothing can be seen of it.
\<close>

lemma fd_add_reference_refines:
  assumes inv: "fd_inv k st" and run: "fd_add_reference avail k st depth fd = (err, st', k')"
  shows "fd_inv k' st' \<and> fd_abs k' st' = (if err = None then spec_add fd (fd_abs k st) else fd_abs k st)"
proof (cases "\<exists>er. err = Some er \<and> st' = st \<and> k' = k")
  case True
  then show ?thesis using inv by auto
next
  case False
  with run obtain txn rest where fr: "frames st = txn # rest" by (auto simp: fd_add_reference_def split: list.splits)
  let ?refs = "txn_refs txn" and ?new = "insert_ref (txn_refs txn) fd"
  let ?chain = "map txn_refs (frames st)" and ?chain' = "?new # map txn_refs rest"
  have F: "frames_ok (txn # rest) (map target_fd (entries st))" using fd_inv_frames [OF inv] fr by simp
  have sorted: "\<forall>r \<in> set ?chain. sorted_refs r" using frames_ok_sorted [OF fd_inv_frames [OF inv]] .
  have sref: "sorted_refs ?refs" using sorted fr by simp
  show ?thesis
  proof (cases "find_ref ?refs fd = None")
    case present: False
    with run False fr have r: "err = None" "st' = st" "k' = k" by (auto simp: fd_add_reference_def split: if_splits)
    have "fd \<in> ref_fds ?refs" using present find_ref_None [OF sref, of fd] by simp
    then have "insert fd (ref_fds ?refs) = ref_fds ?refs" by blast
    then have "fd_abs k st = spec_add fd (fd_abs k st)" by (simp add: fd_abs_def spec_add_def fr)
    then show ?thesis using r inv by simp
  next
    case absent: True
    then have notin: "fd \<notin> ref_fds ?refs" using find_ref_None [OF sref, of fd] by simp
    obtain er es k2 "next" where mv: "move_backup k ?chain' (next_backup_fd txn) fd (entries st) = (er, es, k2, next)"
      by (cases "move_backup k ?chain' (next_backup_fd txn) fd (entries st)")
    from run False fr absent have fd0: "0 \<le> fd" by (auto simp: fd_add_reference_def split: if_splits)
    from run False fr absent mv have r: "err = er" "k' = k2"
      "st' = (if er = None then st\<lparr>entries := es, frames := txn\<lparr>txn_refs := ?new, next_backup_fd := next\<rparr> # rest\<rparr>
        else st\<lparr>entries := es\<rparr>)"
      by (auto simp: fd_add_reference_def Let_def split: if_splits option.splits)
    have ins: "sorted_refs ?new" "set ?new = insert (fd, False) (set ?refs)" using insert_ref_ok [OF sref notin] by auto
    then have fds: "ref_fds ?new = insert fd (ref_fds ?refs)" by (simp add: ref_fds_def)
    have sorted': "\<forall>r \<in> set ?chain'. sorted_refs r" using ins sorted fr by simp
    have B: "backups_ok k ?chain ([] @ entries st)" using fd_inv_backups [OF inv] by simp
    have n10: "10 \<le> next_backup_fd txn" using F by (simp add: txn_ok_def)
    have "(\<Union>r \<in> set ?chain. ref_fds r) \<subseteq> (\<Union>r \<in> set ?chain'. ref_fds r)" using fr fds by auto
    from move_backup_ok [OF mv sorted' this B _ _ fd0] inv n10 fds
    have B2: "backups_ok k2 ?chain es" and m: "kernel_ok k2" "visible k2 es = visible k (entries st)"
      "map (snapshot k2) es = map (snapshot k) (entries st)" "map target_fd es = map target_fd (entries st)"
      "next_backup_fd txn \<le> next" "er = None \<Longrightarrow> fd \<notin> set (saved_list es)"
      by (simp_all add: fd_inv_def)
    have len: "length es = length (entries st)" using m(4) by (metis length_map)
    show ?thesis
    proof (cases er)
      case (Some e)
      then show ?thesis using inv m B2 r len by (simp add: fd_inv_def fd_abs_def)
    next
      case None
      have "txn_ok (txn\<lparr>txn_refs := ?new, next_backup_fd := next\<rparr>) (drop (entry_start txn) (map target_fd (entries st)))"
        using F n10 m(5) ins fds fd0 by (simp add: txn_ok_def)
      then have F': "frames_ok (txn\<lparr>txn_refs := ?new, next_backup_fd := next\<rparr> # rest) (map target_fd es)"
        using F m(4) by simp
      have "backups_ok k2 (?new # map txn_refs rest) es"
        using B2 m(6) [OF None] fds fr by (auto simp: backups_ok_def)
      then have "fd_inv k' st'" using inv None m r len F' by (simp add: fd_inv_def)
      moreover have "fd_abs k' st' = spec_add fd (fd_abs k st)"
        using None r m(2,3) fds by (simp add: fd_abs_def spec_add_def fr)
      ultimately show ?thesis using None r by simp
    qed
  qed
qed

section \<open>Saving\<close>

text \<open>A save that succeeds for the first time adds one entry.\<close>

lemma mark_ref_ok:
  assumes "sorted_refs refs" and "find_ref refs fd = Some r" and "\<not> snd (refs ! r)"
  shows "map fst (refs[r := (fd, True)]) = map fst refs \<and>
    {x. (x, True) \<in> set (refs[r := (fd, True)])} = insert fd {x. (x, True) \<in> set refs} \<and> (fd, True) \<notin> set refs"
proof -
  have r: "r < length refs" "fst (refs ! r) = fd" using assms by (simp_all add: find_ref_Some)
  have "map fst (refs[r := (fd, True)]) = (map fst refs)[r := fd]" by (simp add: map_update)
  also have "\<dots> = map fst refs" using r by (metis list_update_id nth_map)
  finally have M: "map fst (refs[r := (fd, True)]) = map fst refs" .
  have S: "(x, True) \<in> set (refs[r := (fd, True)]) \<longleftrightarrow> x = fd \<or> (x, True) \<in> set refs" for x
  proof
    assume "(x, True) \<in> set (refs[r := (fd, True)])"
    then show "x = fd \<or> (x, True) \<in> set refs" using set_update_subset_insert [of refs r "(fd, True)"] by auto
  next
    assume x: "x = fd \<or> (x, True) \<in> set refs"
    show "(x, True) \<in> set (refs[r := (fd, True)])"
    proof (cases "x = fd")
      case True
      then show ?thesis using r set_update_memI by metis
    next
      case False
      with x obtain j where j: "j < length refs" "refs ! j = (x, True)" by (auto simp: in_set_conv_nth)
      with assms(3) have "j \<noteq> r" by auto
      with j show ?thesis by (metis in_set_conv_nth length_list_update nth_list_update_neq)
    qed
  qed
  have "(fd, True) \<notin> set refs"
  proof
    assume "(fd, True) \<in> set refs"
    then obtain j where j: "j < length refs" "refs ! j = (fd, True)" by (auto simp: in_set_conv_nth)
    then have "find_ref refs fd = Some j" using find_ref_Some [OF assms(1)] by simp
    with assms j show False by simp
  qed
  then show ?thesis using M S by blast
qed

lemma entries_reserve_Inr:
  assumes "entries_reserve avail st = Inr st1" and "length (entries st) \<le> entry_capacity st"
  obtains c where "st1 = st\<lparr>entry_capacity := c\<rparr>" and "length (entries st) < c"
proof (cases "length (entries st) = entry_capacity st")
  case True
  with assms have "st1 = st\<lparr>entry_capacity := if entry_capacity st = 0 then 4 else entry_capacity st * 2\<rparr>"
    by (auto simp: entries_reserve_def Let_def split: if_splits)
  then show ?thesis using that True by (metis (full_types) bot_nat_0.not_eq_extremum less_numeral_extra(3) mult_2_right less_add_same_cancel1 zero_less_numeral)
next
  case False
  with assms have "st1 = st\<lparr>entry_capacity := entry_capacity st\<rparr>" "length (entries st) < entry_capacity st"
    by (auto simp: entries_reserve_def)
  then show ?thesis by (rule that)
qed

lemma frames_ok_grow:
  assumes "frames_ok (txn # rest) ts" and "txn_ok txn' (drop (entry_start txn) ts @ us)" and "entry_start txn' = entry_start txn"
  shows "frames_ok (txn' # rest) (ts @ us)"
  using assms by simp

text \<open>A new backup does not touch what is visible, and stands for the state of its target.\<close>

lemma add_backup:
  assumes B: "backups_ok k chain es" and K: "kernel_ok k" and f: "kfds k target = Some f"
    and d: "kfds k d = None" "0 \<le> d" "d < klimit k" "\<forall>refs \<in> set chain. d \<notin> ref_fds refs"
  defines "k1 \<equiv> k\<lparr>kfds := (kfds k)(d \<mapsto> f\<lparr>kf_cloexec := True\<rparr>)\<rparr>"
    and "e \<equiv> \<lparr>target_fd = target, saved_fd = d, target_flags = kf_cloexec f\<rparr>"
  shows "backups_ok k1 chain (es @ [e]) \<and> kernel_ok k1 \<and> visible k1 (es @ [e]) = visible k es \<and>
    map (snapshot k1) (es @ [e]) = map (snapshot k) es @ [(target, Some f)]"
proof (intro conjI)
  have live: "\<exists>g. kfds k b = Some g" if "b \<in> set (saved_list es)" for b using B that unfolding backups_ok_def by blast
  then have new: "d \<notin> set (saved_list es)" using d(1) by force
  have "target < klimit k" using K f unfolding kernel_ok_def by auto
  then show "backups_ok k1 chain (es @ [e])" using B new d by (auto simp: backups_ok_def k1_def e_def)
  show "kernel_ok k1" using K d by (simp add: kernel_ok_def k1_def)
  show "visible k1 (es @ [e]) = visible k es" using d new by (auto simp: visible_def k1_def e_def fun_eq_iff)
  have "snapshot k1 x = snapshot k x" if "x \<in> set es" for x
    using saved_list_mem [OF that] new by (auto simp: snapshot_def k1_def)
  moreover have "snapshot k1 e = (target, Some f)" using d(2) by (simp add: snapshot_def e_def k1_def)
  ultimately show "map (snapshot k1) (es @ [e]) = map (snapshot k) es @ [(target, Some f)]" by simp
qed

lemma add_closed:
  assumes "backups_ok k chain es" and "saved_fd e = -1"
  shows "backups_ok k chain (es @ [e]) \<and> visible k (es @ [e]) = visible k es \<and>
    map (snapshot k) (es @ [e]) = map (snapshot k) es @ [(target_fd e, None)]"
  using assms by (simp add: backups_ok_def visible_def snapshot_def)

lemma visible_target:
  assumes "fd_inv k st" and "txn \<in> set (frames st)" and "fd \<in> ref_fds (txn_refs txn)"
  shows "visible k (entries st) fd = kfds k fd"
  using assms fd_inv_backups [OF assms(1)] unfolding backups_ok_def visible_def by auto

text \<open>
  Saving a descriptor keeps the invariant; when it succeeds it records the state that the
  descriptor has in the visible table, once, and when it fails nothing can be seen of it.
\<close>

lemma fd_save_refines:
  assumes inv: "fd_inv k st" and run: "fd_save avail k st depth fd = (err, st', k')"
  shows "fd_inv k' st' \<and> fd_abs k' st' = (if err = None then spec_save fd (fd_abs k st) else fd_abs k st)"
proof (cases "\<exists>er. err = Some er \<and> st' = st \<and> k' = k")
  case True
  then show ?thesis using inv by auto
next
  case False
  with run obtain txn rest r where fr: "frames st = txn # rest" and found: "find_ref (txn_refs txn) fd = Some r"
    by (auto simp: fd_save_def split: list.splits if_splits option.splits)
  let ?es = "entries st" and ?chain = "map txn_refs (frames st)" and ?refs = "txn_refs txn"
  let ?marked = "(txn_refs txn)[r := (fd, True)]"
  have F: "frames_ok (txn # rest) (map target_fd ?es)" using fd_inv_frames [OF inv] fr by simp
  have sorted: "\<forall>r \<in> set ?chain. sorted_refs r" using frames_ok_sorted [OF fd_inv_frames [OF inv]] .
  have sref: "sorted_refs ?refs" using sorted fr by simp
  have B: "backups_ok k ?chain ?es" and K: "kernel_ok k" and len: "length ?es \<le> entry_capacity st"
    using inv by (simp_all add: fd_inv_def)
  have r: "r < length ?refs" "fst (?refs ! r) = fd" using found find_ref_Some [OF sref] by simp_all
  then have fdin: "fd \<in> ref_fds ?refs" by (force simp: ref_fds_def)
  have vis: "visible k ?es fd = kfds k fd" using visible_target [OF inv _ fdin] fr by simp
  have tset: "{x. (x, True) \<in> set ?refs} = set (drop (entry_start txn) (map target_fd ?es))"
    and start: "entry_start txn \<le> length ?es" and n10: "10 \<le> next_backup_fd txn"
    using F by (simp_all add: txn_ok_def)
  have saves_fst: "fst ` set (drop (entry_start txn) (map (snapshot k) ?es)) = set (drop (entry_start txn) (map target_fd ?es))"
    by (simp flip: set_map add: drop_map)
  show ?thesis
  proof (cases "snd (?refs ! r)")
    case True
    with run False fr found have e: "err = None" "st' = st" "k' = k" by (auto simp: fd_save_def split: if_splits)
    have "(fd, True) \<in> set ?refs" using r True by (metis (full_types) nth_mem prod.collapse)
    then have "fd \<in> fst ` set (drop (entry_start txn) (map (snapshot k) ?es))" using tset saves_fst by auto
    then show ?thesis using e inv by (simp add: fd_abs_def spec_save_def fr)
  next
    case unsaved: False
    obtain st1 where res: "entries_reserve avail st = Inr st1"
      using run False fr found unsaved by (auto simp: fd_save_def split: if_splits sum.splits)
    then obtain c where st1: "st1 = st\<lparr>entry_capacity := c\<rparr>" and c: "length ?es < c" using len by (rule entries_reserve_Inr)
    note mark = mark_ref_ok [OF sref found unsaved]
    have fds: "ref_fds ?marked = ref_fds ?refs" using mark unfolding ref_fds_def by (metis list.set_map)
    have new: "fd \<notin> set (drop (entry_start txn) (map target_fd ?es))" using mark tset by auto
    have abs: "spec_save fd (fd_abs k st) =
        \<lparr>table = visible k ?es, active = \<lparr>allowed = ref_fds ?refs,
          saves = drop (entry_start txn) (map (snapshot k) ?es) @ [(fd, kfds k fd)]\<rparr> #
            frames_abs rest (take (entry_start txn) (map (snapshot k) ?es))\<rparr>"
      using new saves_fst vis by (simp add: spec_save_def fd_abs_def fr)
    have grow: "frames_ok (txn\<lparr>txn_refs := ?marked, next_backup_fd := n\<rparr> # rest) (map target_fd ?es @ [fd])"
      if "10 \<le> n" for n
    proof (rule frames_ok_grow [OF F])
      show "txn_ok (txn\<lparr>txn_refs := ?marked, next_backup_fd := n\<rparr>) (drop (entry_start txn) (map target_fd ?es) @ [fd])"
        using F mark new fds that by (simp add: txn_ok_def)
    qed simp
    have chain_eq: "backups_ok kk (?marked # map txn_refs rest) ee = backups_ok kk ?chain ee" for kk ee
      using fds fr by (simp add: backups_ok_def)
    show ?thesis
    proof (cases "kfds k fd")
      case None
      let ?e = "\<lparr>target_fd = fd, saved_fd = -1, target_flags = False\<rparr>"
      have e: "err = None" "k' = k" "st' = st\<lparr>entry_capacity := c, entries := ?es @ [?e], frames := txn\<lparr>txn_refs := ?marked\<rparr> # rest\<rparr>"
        using run fr found unsaved res None False by (auto simp: fd_save_def st1 Let_def split: if_splits)
      have m: "backups_ok k ?chain (?es @ [?e])" "visible k (?es @ [?e]) = visible k ?es"
        "map (snapshot k) (?es @ [?e]) = map (snapshot k) ?es @ [(fd, None)]" using add_closed [OF B, of ?e] by simp_all
      have "fd_inv k' st'" using grow [OF n10] m(1) K c by (simp add: e fd_inv_def chain_eq)
      moreover have "fd_abs k' st' = spec_save fd (fd_abs k st)"
        unfolding abs using m(2,3) start fds None by (simp add: e fd_abs_def)
      ultimately show ?thesis using e by simp
    next
      case (Some f)
      obtain res2 k1 "next" where dup: "dup_private k ?chain fd (next_backup_fd txn) = (res2, k1, next)"
        by (cases "dup_private k ?chain fd (next_backup_fd txn)")
      show ?thesis
      proof (cases res2)
        case (Inl er)
        have e: "err = Some er" "k' = k1" "st' = st\<lparr>entry_capacity := c, frames := txn\<lparr>next_backup_fd := next\<rparr> # rest\<rparr>"
          using run fr found unsaved res Some dup Inl False by (auto simp: fd_save_def st1 Let_def split: if_splits)
        have d: "k1 = k" "next_backup_fd txn \<le> next" using dup_private_ok [OF dup sorted] Inl by auto
        have "txn_ok (txn\<lparr>next_backup_fd := next\<rparr>) (drop (entry_start txn) (map target_fd ?es))"
          using F d(2) by (simp add: txn_ok_def)
        then show ?thesis using inv F c d fr by (simp add: e fd_inv_def fd_abs_def)
      next
        case (Inr d)
        let ?e = "\<lparr>target_fd = fd, saved_fd = d, target_flags = kf_cloexec f\<rparr>"
        have e: "err = None" "k' = k1"
          "st' = st\<lparr>entry_capacity := c, entries := ?es @ [?e], frames := txn\<lparr>txn_refs := ?marked, next_backup_fd := next\<rparr> # rest\<rparr>"
          using run fr found unsaved res Some dup Inr False by (auto simp: fd_save_def st1 Let_def split: if_splits)
        have d: "next_backup_fd txn \<le> next" "next_backup_fd txn \<le> d" "d < klimit k" "kfds k d = None"
          "k1 = k\<lparr>kfds := (kfds k)(d \<mapsto> f\<lparr>kf_cloexec := True\<rparr>)\<rparr>" "\<forall>refs \<in> set ?chain. d \<notin> ref_fds refs"
          using dup_private_ok [OF dup sorted] Inr Some by auto
        have "0 \<le> d" "10 \<le> next" using n10 d(1,2) by simp_all
        note m = add_backup [OF B K Some d(4) \<open>0 \<le> d\<close> d(3,6), folded d(5)]
        have "fd_inv k' st'" using grow [OF \<open>10 \<le> next\<close>] m c by (simp add: e fd_inv_def chain_eq)
        moreover have "fd_abs k' st' = spec_save fd (fd_abs k st)"
          unfolding abs using m start fds Some by (simp add: e fd_abs_def del: map_eq_conv)
        ultimately show ?thesis using e by simp
      qed
    qed
  qed
qed

section \<open>Rollback and commit\<close>

lemma backups_ok_mono: "backups_ok k chain es \<Longrightarrow> set chain' \<subseteq> set chain \<Longrightarrow> backups_ok k chain' es"
  unfolding backups_ok_def by blast

lemma restore_snoc: "restore (vs @ [(fd, v)]) m = restore vs (m(fd := v))"
  by (auto simp: restore_def fun_eq_iff split: option.splits)

lemma restore_Nil [simp]: "restore [] m = m"
  by (simp add: restore_def)

text \<open>Restoring one entry, the last one of the stack.\<close>

lemma restore_one:
  assumes B: "backups_ok k chain (pre @ [e])" and K: "kernel_ok k"
    and t: "0 \<le> target_fd e" "\<exists>refs \<in> set chain. target_fd e \<in> ref_fds refs"
  shows "\<exists>k1. rollback_entries (e # es) err k = rollback_entries es err k1 \<and> kernel_ok k1 \<and> backups_ok k1 chain pre \<and>
    visible k1 pre = (visible k (pre @ [e]))(target_fd e := snd (snapshot k e)) \<and>
    map (snapshot k1) pre = map (snapshot k) pre"
proof (cases "saved_fd e < 0")
  case True
  let ?k1 = "k_close k (target_fd e)"
  have nt: "target_fd e \<notin> set (saved_list pre)" using B t(2) unfolding backups_ok_def by auto
  have "backups_ok ?k1 chain pre" using B nt by (auto simp: backups_ok_def k_close_def)
  moreover have "kernel_ok ?k1" using K by (simp add: kernel_ok_def k_close_def)
  moreover have "visible ?k1 pre = (visible k (pre @ [e]))(target_fd e := snd (snapshot k e))"
    using True nt by (auto simp: visible_def k_close_def snapshot_def fun_eq_iff)
  moreover have "snapshot ?k1 x = snapshot k x" if "x \<in> set pre" for x
    using saved_list_mem [OF that] nt by (auto simp: snapshot_def k_close_def)
  ultimately show ?thesis using True by (intro exI [of _ ?k1]) simp
next
  case False
  then have s: "0 \<le> saved_fd e" by simp
  then have "saved_fd e \<in> set (saved_list (pre @ [e]))" by simp
  then obtain f where f: "kfds k (saved_fd e) = Some f" "\<forall>refs \<in> set chain. saved_fd e \<notin> ref_fds refs"
    using B unfolding backups_ok_def by blast
  have lim: "target_fd e < klimit k" using B s by (simp add: backups_ok_def)
  have ne: "saved_fd e \<noteq> target_fd e" using f(2) t(2) by auto
  have nt: "target_fd e \<notin> set (saved_list pre)" using B t(2) unfolding backups_ok_def by auto
  have ns: "saved_fd e \<notin> set (saved_list pre)" using B s by (simp add: backups_ok_def)
  define k1 where "k1 = k\<lparr>kfds := (kfds k)(target_fd e \<mapsto> f\<lparr>kf_cloexec := target_flags e\<rparr>, saved_fd e := None)\<rparr>"
  have "rollback_entries (e # es) err k = rollback_entries es err k1"
    using False f lim ne t(1) by (simp add: bx_fd_dup2_exact_def k_setfd_def k_close_def k1_def)
  moreover have "kernel_ok k1" using K t lim by (simp add: kernel_ok_def k1_def)
  moreover have "backups_ok k1 chain pre" using B nt ns by (auto simp: backups_ok_def k1_def)
  moreover have "visible k1 pre = (visible k (pre @ [e]))(target_fd e := snd (snapshot k e))"
    using s f ne nt by (auto simp: visible_def k1_def snapshot_def fun_eq_iff)
  moreover have "snapshot k1 x = snapshot k x" if "x \<in> set pre" for x
    using saved_list_mem [OF that] nt ns by (auto simp: snapshot_def k1_def)
  ultimately show ?thesis by (intro exI [of _ k1]) simp
qed

lemma rollback_entries_ok:
  assumes "backups_ok k chain (pre @ rev es)" and "kernel_ok k"
    and "\<forall>e \<in> set es. 0 \<le> target_fd e \<and> (\<exists>refs \<in> set chain. target_fd e \<in> ref_fds refs)"
  shows "\<exists>k'. rollback_entries es err k = (err, k') \<and> kernel_ok k' \<and> backups_ok k' chain pre \<and>
    visible k' pre = restore (map (snapshot k) (rev es)) (visible k (pre @ rev es)) \<and>
    map (snapshot k') pre = map (snapshot k) pre"
  using assms
proof (induction es arbitrary: k)
  case Nil
  then show ?case by simp
next
  case (Cons e es)
  from Cons.prems have "backups_ok k chain ((pre @ rev es) @ [e])" by simp
  from restore_one [OF this Cons.prems(2), of es err] Cons.prems(3) obtain k1 where
    k1: "rollback_entries (e # es) err k = rollback_entries es err k1" "kernel_ok k1" "backups_ok k1 chain (pre @ rev es)"
    "visible k1 (pre @ rev es) = (visible k ((pre @ rev es) @ [e]))(target_fd e := snd (snapshot k e))"
    "map (snapshot k1) (pre @ rev es) = map (snapshot k) (pre @ rev es)" by auto
  from Cons.IH [OF k1(3,2)] Cons.prems(3) obtain k' where
    k': "rollback_entries es err k1 = (err, k')" "kernel_ok k'" "backups_ok k' chain pre"
    "visible k' pre = restore (map (snapshot k1) (rev es)) (visible k1 (pre @ rev es))"
    "map (snapshot k') pre = map (snapshot k1) pre" by auto
  have e: "snapshot k e = (target_fd e, snd (snapshot k e))" by (simp add: prod_eq_iff)
  have eqs: "map (snapshot k1) pre = map (snapshot k) pre" "map (snapshot k1) (rev es) = map (snapshot k) (rev es)"
    using k1(5) by (simp_all del: map_eq_conv)
  have "map (snapshot k) (rev (e # es)) = map (snapshot k) (rev es) @ [(target_fd e, snd (snapshot k e))]"
    using e by simp
  then have "restore (map (snapshot k) (rev (e # es))) (visible k (pre @ rev (e # es))) =
      restore (map (snapshot k) (rev es)) (visible k1 (pre @ rev es))"
    unfolding k1(4) by (simp only: restore_snoc rev.simps append_assoc)
  then have "visible k' pre = restore (map (snapshot k) (rev (e # es))) (visible k (pre @ rev (e # es)))"
    using k'(4) eqs(2) by (simp only:)
  moreover have "map (snapshot k') pre = map (snapshot k) pre" using k'(5) eqs(1) by simp
  ultimately show ?case using k1(1) k'(1-3) by (intro exI [of _ k']) simp
qed

lemma close_backups_fds:
  "kfds (close_backups es k) = (\<lambda>fd. if fd \<in> set (saved_list es) then None else kfds k fd) \<and>
   klimit (close_backups es k) = klimit k"
proof (induction es arbitrary: k)
  case (Cons e es)
  have "close_backups (e # es) k = close_backups es (if 0 \<le> saved_fd e then k_close k (saved_fd e) else k)"
    by (simp add: close_backups_def)
  then show ?case using Cons.IH by (auto simp: k_close_def fun_eq_iff)
qed (simp add: close_backups_def)

lemma close_backups_ok:
  assumes B: "backups_ok k chain (pre @ es)" and K: "kernel_ok k"
  defines "k' \<equiv> close_backups es k"
  shows "kernel_ok k' \<and> backups_ok k' chain pre \<and> visible k' pre = visible k (pre @ es) \<and>
    map (snapshot k') pre = map (snapshot k) pre"
proof (intro conjI)
  have fds: "kfds k' = (\<lambda>fd. if fd \<in> set (saved_list es) then None else kfds k fd)" and lim: "klimit k' = klimit k"
    using close_backups_fds by (simp_all add: k'_def)
  have disj: "x \<notin> set (saved_list es)" if "x \<in> set (saved_list pre)" for x using B that by (auto simp: backups_ok_def)
  show "kernel_ok k'" using K by (simp add: kernel_ok_def fds lim)
  show "backups_ok k' chain pre" using B disj by (auto simp: backups_ok_def fds lim)
  show "visible k' pre = visible k (pre @ es)" by (auto simp: visible_def fds fun_eq_iff)
  have "snapshot k' x = snapshot k x" if "x \<in> set pre" for x
    using saved_list_mem [OF that] disj by (auto simp: snapshot_def fds)
  then show "map (snapshot k') pre = map (snapshot k) pre" by simp
qed

text \<open>The end of a transaction, given what has become of the kernel.\<close>

lemma txn_finish_ok:
  assumes inv: "fd_inv k st" and fr: "frames st = txn # rest" and K: "kernel_ok k'"
    and B: "backups_ok k' (map txn_refs (frames st)) (take (entry_start txn) (entries st))"
    and S: "map (snapshot k') (take (entry_start txn) (entries st)) = map (snapshot k) (take (entry_start txn) (entries st))"
    and V: "visible k' (take (entry_start txn) (entries st)) = v"
  shows "fd_inv k' (txn_finish st) \<and> fd_abs k' (txn_finish st) = \<lparr>table = v, active = tl (active (fd_abs k st))\<rparr>"
proof -
  have "frames_ok rest (map target_fd (take (entry_start txn) (entries st)))"
    using fd_inv_frames [OF inv] fr by (simp add: take_map)
  moreover have "backups_ok k' (map txn_refs rest) (take (entry_start txn) (entries st))"
    using B by (rule backups_ok_mono) (auto simp: fr)
  moreover have "length (entries st) \<le> entry_capacity st" using inv by (simp add: fd_inv_def)
  ultimately show ?thesis using K S V fr by (simp add: fd_inv_def fd_abs_def txn_finish_def take_map del: map_eq_conv)
qed

text \<open>
  Rolling back the innermost transaction always succeeds: every descriptor it saved gets the
  state back that it had in the visible table when it was saved, closed ones are closed again, no
  other visible descriptor changes, and the transactions below are as they were; on any other
  transaction it fails and does nothing.
\<close>

lemma fd_rollback_refines:
  assumes inv: "fd_inv k st" and run: "fd_rollback k st depth = (err, st', k')"
  shows "fd_inv k' st' \<and>
    (if frames st \<noteq> [] \<and> depth = length (frames st) then err = None \<and> fd_abs k' st' = spec_rollback (fd_abs k st)
     else err = Some FD_EINVAL \<and> st' = st \<and> k' = k)"
proof (cases "frames st \<noteq> [] \<and> depth = length (frames st)")
  case False
  then show ?thesis using inv run by (auto simp: fd_rollback_def split: list.splits)
next
  case True
  then obtain txn rest where fr: "frames st = txn # rest" by (cases "frames st") auto
  let ?pre = "take (entry_start txn) (entries st)" and ?es = "drop (entry_start txn) (entries st)"
  let ?chain = "map txn_refs (frames st)"
  have B: "backups_ok k ?chain (?pre @ rev (rev ?es))" using fd_inv_backups [OF inv] by simp
  have K: "kernel_ok k" using inv by (simp add: fd_inv_def)
  have T: "\<forall>e \<in> set (rev ?es). 0 \<le> target_fd e \<and> (\<exists>refs \<in> set ?chain. target_fd e \<in> ref_fds refs)"
  proof
    fix e assume "e \<in> set (rev ?es)"
    then have "target_fd e \<in> set (map target_fd (entries st))" by (auto dest: in_set_dropD)
    then show "0 \<le> target_fd e \<and> (\<exists>refs \<in> set ?chain. target_fd e \<in> ref_fds refs)"
      by (rule frames_ok_targets [OF fd_inv_frames [OF inv]])
  qed
  from rollback_entries_ok [OF B K T, of None] obtain k2 where
    k2: "rollback_entries (rev ?es) None k = (None, k2)" "kernel_ok k2" "backups_ok k2 ?chain ?pre"
    "visible k2 ?pre = restore (map (snapshot k) ?es) (visible k (entries st))"
    "map (snapshot k2) ?pre = map (snapshot k) ?pre" by auto
  have r: "err = None" "k' = k2" "st' = txn_finish st" using run fr True k2(1) by (simp_all add: fd_rollback_def)
  have "spec_rollback (fd_abs k st) =
      \<lparr>table = restore (map (snapshot k) ?es) (visible k (entries st)), active = tl (active (fd_abs k st))\<rparr>"
    by (simp add: spec_rollback_def fd_abs_def fr drop_map)
  then show ?thesis using txn_finish_ok [OF inv fr k2(2,3,5,4)] r True by simp
qed

text \<open>
  Committing the innermost transaction always succeeds and closes its backups; the visible
  table is as it was, and the transactions below keep what they have saved.
\<close>

lemma fd_commit_refines:
  assumes inv: "fd_inv k st" and run: "fd_commit k st depth = (err, st', k')"
  shows "fd_inv k' st' \<and>
    (if frames st \<noteq> [] \<and> depth = length (frames st) then err = None \<and> fd_abs k' st' = spec_commit (fd_abs k st)
     else err = Some FD_EINVAL \<and> st' = st \<and> k' = k)"
proof (cases "frames st \<noteq> [] \<and> depth = length (frames st)")
  case False
  then show ?thesis using inv run by (auto simp: fd_commit_def split: list.splits)
next
  case True
  then obtain txn rest where fr: "frames st = txn # rest" by (cases "frames st") auto
  let ?pre = "take (entry_start txn) (entries st)" and ?es = "drop (entry_start txn) (entries st)"
  have B: "backups_ok k (map txn_refs (frames st)) (?pre @ ?es)" using fd_inv_backups [OF inv] by simp
  have K: "kernel_ok k" using inv by (simp add: fd_inv_def)
  note c = close_backups_ok [OF B K]
  have r: "err = None" "k' = close_backups ?es k" "st' = txn_finish st" using run fr True by (simp_all add: fd_commit_def)
  have "spec_commit (fd_abs k st) = \<lparr>table = visible k (entries st), active = tl (active (fd_abs k st))\<rparr>"
    by (simp add: spec_commit_def fd_abs_def fr)
  then show ?thesis using txn_finish_ok [OF inv fr] c r True by simp
qed

section \<open>What a transaction undoes\<close>

text \<open>
  The life of the innermost transaction as the shell uses it: references are added, descriptors
  saved, saved descriptors changed in any way, and inner transactions opened, used and rolled back.
  Failing calls are steps as well.
\<close>

definition saved_now :: "fd_stack \<Rightarrow> int \<Rightarrow> bool" where
  "saved_now st fd \<longleftrightarrow> (case frames st of [] \<Rightarrow> False | txn # rest \<Rightarrow> (fd, True) \<in> set (txn_refs txn))"

inductive txn_steps :: "(nat \<Rightarrow> bool) \<Rightarrow> kernel \<Rightarrow> fd_stack \<Rightarrow> kernel \<Rightarrow> fd_stack \<Rightarrow> bool" for avail where
  steps_refl: "txn_steps avail k st k st"
| steps_add: "txn_steps avail k st k1 st1 \<Longrightarrow>
    fd_add_reference avail k1 st1 (length (frames st1)) fd = (err, st2, k2) \<Longrightarrow> txn_steps avail k st k2 st2"
| steps_save: "txn_steps avail k st k1 st1 \<Longrightarrow>
    fd_save avail k1 st1 (length (frames st1)) fd = (err, st2, k2) \<Longrightarrow> txn_steps avail k st k2 st2"
| steps_change: "txn_steps avail k st k1 st1 \<Longrightarrow> saved_now st1 fd \<Longrightarrow> fd < klimit k1 \<Longrightarrow>
    k2 = k1\<lparr>kfds := (kfds k1)(fd := v)\<rparr> \<Longrightarrow> txn_steps avail k st k2 st1"
| steps_nested: "txn_steps avail k st k1 st1 \<Longrightarrow> fd_begin avail k1 st1 fds = (None, st2, k2) \<Longrightarrow>
    txn_steps avail k2 st2 k3 st3 \<Longrightarrow> fd_rollback k3 st3 (length (frames st3)) = (err, st4, k4) \<Longrightarrow>
    txn_steps avail k st k4 st4"

lemma change_saved:
  assumes inv: "fd_inv k st" and s: "saved_now st fd" and lim: "fd < klimit k"
    and k2: "k2 = k\<lparr>kfds := (kfds k)(fd := v)\<rparr>"
  shows "fd_inv k2 st \<and> fd_abs k2 st = (fd_abs k st)\<lparr>table := (table (fd_abs k st))(fd := v)\<rparr> \<and>
    fd \<in> fst ` set (saves (hd (active (fd_abs k st))))"
proof -
  let ?es = "entries st" and ?chain = "map txn_refs (frames st)"
  obtain txn rest where fr: "frames st = txn # rest" and m: "(fd, True) \<in> set (txn_refs txn)"
    using s by (auto simp: saved_now_def split: list.splits)
  have F: "frames_ok (txn # rest) (map target_fd ?es)" using fd_inv_frames [OF inv] fr by simp
  have fdin: "fd \<in> ref_fds (txn_refs txn)" using m by (force simp: ref_fds_def)
  then have fd0: "0 \<le> fd" using F by (simp add: txn_ok_def)
  have nb: "fd \<notin> set (saved_list ?es)" using fd_inv_backups [OF inv] fdin fr unfolding backups_ok_def by auto
  have "backups_ok k2 ?chain ?es" using fd_inv_backups [OF inv] nb by (auto simp: backups_ok_def k2)
  then have "fd_inv k2 st" using inv fd0 lim by (simp add: fd_inv_def kernel_ok_def k2)
  moreover have "snapshot k2 x = snapshot k x" if "x \<in> set ?es" for x
    using saved_list_mem [OF that] nb by (auto simp: snapshot_def k2)
  then have snap: "map (snapshot k2) ?es = map (snapshot k) ?es" by simp
  have "visible k2 ?es = (visible k ?es)(fd := v)" using nb by (auto simp: visible_def k2 fun_eq_iff)
  then have "fd_abs k2 st = (fd_abs k st)\<lparr>table := (table (fd_abs k st))(fd := v)\<rparr>"
    using snap by (simp add: fd_abs_def del: map_eq_conv)
  moreover have "fd \<in> set (drop (entry_start txn) (map target_fd ?es))" using F m unfolding frames_ok.simps txn_ok_def by blast
  then have "fd \<in> fst ` set (drop (entry_start txn) (map (snapshot k) ?es))" by (simp flip: set_map add: drop_map)
  then have "fd \<in> fst ` set (saves (hd (active (fd_abs k st))))" by (simp add: fd_abs_def fr)
  ultimately show ?thesis by blast
qed

text \<open>What the innermost transaction would restore is fixed by the steps.\<close>

definition undo_of :: "spec_state \<Rightarrow> spec_state" where
  "undo_of s = \<lparr>table = restore (saves (hd (active s))) (table s), active = tl (active s)\<rparr>"

lemma spec_rollback_undo: "active s \<noteq> [] \<Longrightarrow> spec_rollback s = undo_of s"
  by (cases "active s") (simp_all add: spec_rollback_def undo_of_def)

lemma restore_same: "restore (vs @ [(fd, m fd)]) m = restore vs m"
  by (simp add: restore_snoc)

lemma restore_hidden: "fd \<in> fst ` set vs \<Longrightarrow> restore vs (m(fd := v)) = restore vs m"
proof -
  assume "fd \<in> fst ` set vs"
  then have "map_of vs fd \<noteq> None" by (simp add: map_of_eq_None_iff)
  then show ?thesis by (auto simp: restore_def fun_eq_iff split: option.splits)
qed

lemma undo_of_begin: "undo_of (spec_begin fds s) = s"
  by (simp add: undo_of_def spec_begin_def)

lemma undo_of_add: "undo_of (spec_add fd s) = undo_of s \<and> (active (spec_add fd s) = []) = (active s = [])"
  by (cases "active s") (simp_all add: undo_of_def spec_add_def)

lemma undo_of_save: "undo_of (spec_save fd s) = undo_of s \<and> (active (spec_save fd s) = []) = (active s = [])"
  by (cases "active s") (simp_all add: undo_of_def spec_save_def restore_same)

lemma fd_abs_active: "active (fd_abs k st) = [] \<longleftrightarrow> frames st = []"
  by (cases "frames st") (simp_all add: fd_abs_def)

lemma txn_steps_undo:
  assumes "txn_steps avail k st k' st'" and "fd_inv k st" and "frames st \<noteq> []"
  shows "fd_inv k' st' \<and> undo_of (fd_abs k' st') = undo_of (fd_abs k st) \<and> frames st' \<noteq> []"
  using assms
proof (induction rule: txn_steps.induct)
  case (steps_refl k st)
  then show ?case by simp
next
  case (steps_add k st k1 st1 fd err st2 k2)
  then have i: "fd_inv k1 st1" "undo_of (fd_abs k1 st1) = undo_of (fd_abs k st)" "active (fd_abs k1 st1) \<noteq> []"
    by (simp_all add: fd_abs_active)
  from fd_add_reference_refines [OF i(1) steps_add.hyps(2)] show ?case
    using i undo_of_add [of fd "fd_abs k1 st1"] fd_abs_active by metis
next
  case (steps_save k st k1 st1 fd err st2 k2)
  then have i: "fd_inv k1 st1" "undo_of (fd_abs k1 st1) = undo_of (fd_abs k st)" "active (fd_abs k1 st1) \<noteq> []"
    by (simp_all add: fd_abs_active)
  from fd_save_refines [OF i(1) steps_save.hyps(2)] show ?case
    using i undo_of_save [of fd "fd_abs k1 st1"] fd_abs_active by metis
next
  case (steps_change k st k1 st1 fd k2 v)
  then have i: "fd_inv k1 st1" "undo_of (fd_abs k1 st1) = undo_of (fd_abs k st)" "frames st1 \<noteq> []" by simp_all
  from change_saved [OF i(1) steps_change.hyps(2-4)] i show ?case
    by (simp add: undo_of_def restore_hidden)
next
  case (steps_nested k st k1 st1 fds st2 k2 k3 st3 err st4 k4)
  then have i: "fd_inv k1 st1" "undo_of (fd_abs k1 st1) = undo_of (fd_abs k st)" "frames st1 \<noteq> []" by simp_all
  from fd_begin_refines [OF i(1) steps_nested.hyps(2)]
  have b: "fd_inv k2 st2" "fd_abs k2 st2 = spec_begin fds (fd_abs k1 st1)" by simp_all
  then have "frames st2 \<noteq> []" using fd_abs_active [of k2 st2] by (simp add: spec_begin_def)
  with steps_nested.IH(2) b have s: "fd_inv k3 st3" "undo_of (fd_abs k3 st3) = fd_abs k1 st1" "frames st3 \<noteq> []"
    by (simp_all add: undo_of_begin)
  from fd_rollback_refines [OF s(1) steps_nested.hyps(4)] s(3)
  have "fd_inv k4 st4" "fd_abs k4 st4 = spec_rollback (fd_abs k3 st3)" by simp_all
  then have "fd_inv k4 st4" "fd_abs k4 st4 = fd_abs k1 st1"
    using s spec_rollback_undo [of "fd_abs k3 st3"] fd_abs_active by auto
  then show ?case using i fd_abs_active by metis
qed


section \<open>Concrete runs\<close>

text \<open>Three open descriptors, a transaction on standard output, and a new file put there.\<close>

definition demo_kernel :: kernel where
  "demo_kernel = \<lparr>kfds = [0 \<mapsto> \<lparr>kf_desc = 0, kf_cloexec = False\<rparr>, 1 \<mapsto> \<lparr>kf_desc = 1, kf_cloexec = False\<rparr>], klimit = 16\<rparr>"

definition demo_begun :: "fd_stack \<times> kernel" where
  "demo_begun = snd (fd_begin (\<lambda>_. True) demo_kernel fd_stack_init [1])"

definition demo_saved :: "fd_stack \<times> kernel" where
  "demo_saved = snd (fd_save (\<lambda>_. True) (snd demo_begun) (fst demo_begun) 1 1)"

lemma demo_inv: "fd_inv demo_kernel fd_stack_init"
  by (simp add: fd_inv_def fd_stack_init_def backups_ok_def kernel_ok_def demo_kernel_def)

lemma demo_begun_eq:
  "demo_begun = (\<lparr>entries = [], entry_capacity = 0,
     frames = [\<lparr>txn_refs = [(1, False)], entry_start = 0, next_backup_fd = 10\<rparr>]\<rparr>, demo_kernel)"
  by (simp add: demo_begun_def fd_begin_def stack_invariants_def fd_stack_init_def unique_refs_def)

lemma demo_begin: "fd_begin (\<lambda>_. True) demo_kernel fd_stack_init [1] = (None, fst demo_begun, snd demo_begun)"
  by (simp add: demo_begun_def fd_begin_def stack_invariants_def fd_stack_init_def unique_refs_def)

lemma demo_find: "find_ref [(1, b)] 1 = Some 0" "find_ref [(1, b)] 10 = None" "find_ref [(1, b)] 2 = None"
  by (simp_all add: find_ref_def find_ref_loop.simps)

lemma demo_one: "kfds demo_kernel 1 = Some \<lparr>kf_desc = 1, kf_cloexec = False\<rparr>"
  by (simp add: demo_kernel_def)

lemma demo_dup: "dup_private demo_kernel [[(1, False)]] 1 10 =
    (Inr 10, demo_kernel\<lparr>kfds := (kfds demo_kernel)(10 \<mapsto> \<lparr>kf_desc = 1, kf_cloexec = True\<rparr>)\<rparr>, 11)"
  by (subst dup_private.simps) (simp add: bx_fd_dup_cloexec_min_def demo_kernel_def demo_find)

lemma demo_saved_eq:
  "demo_saved = (\<lparr>entries = [\<lparr>target_fd = 1, saved_fd = 10, target_flags = False\<rparr>], entry_capacity = 4,
     frames = [\<lparr>txn_refs = [(1, True)], entry_start = 0, next_backup_fd = 11\<rparr>]\<rparr>,
     demo_kernel\<lparr>kfds := (kfds demo_kernel)(10 \<mapsto> \<lparr>kf_desc = 1, kf_cloexec = True\<rparr>)\<rparr>)"
  and demo_save: "fd_save (\<lambda>_. True) (snd demo_begun) (fst demo_begun) 1 1 = (None, fst demo_saved, snd demo_saved)"
  by (simp_all add: demo_saved_def demo_begun_eq fd_save_def demo_find entries_reserve_def demo_dup demo_one)

lemma demo_begun_inv: "fd_inv (snd demo_begun) (fst demo_begun)"
  using fd_inv_def demo_inv
  by (simp add: fd_inv_def demo_begun_eq fd_stack_init_def backups_ok_def txn_ok_def ref_fds_def)

lemma demo_saved_inv: "fd_inv (snd demo_saved) (fst demo_saved)"
  by (simp add: demo_saved_eq fd_inv_def backups_ok_def txn_ok_def ref_fds_def kernel_ok_def demo_kernel_def)

text \<open>The kernel after the redirection, and what rolling back and committing give from there.\<close>

definition demo_changed :: kernel where
  "demo_changed = (snd demo_saved)\<lparr>kfds := (kfds (snd demo_saved))(1 := Some \<lparr>kf_desc = 7, kf_cloexec = False\<rparr>)\<rparr>"

definition demo_undone :: "fd_errno option \<times> fd_stack \<times> kernel" where
  "demo_undone = fd_rollback demo_changed (fst demo_saved) 1"

lemma demo_steps: "txn_steps (\<lambda>_. True) (snd demo_begun) (fst demo_begun) demo_changed (fst demo_saved)"
proof (rule steps_change [OF steps_save [OF steps_refl]])
  show "fd_save (\<lambda>_. True) (snd demo_begun) (fst demo_begun) (length (frames (fst demo_begun))) 1 =
      (None, fst demo_saved, snd demo_saved)"
    using demo_save by (simp add: demo_begun_eq)
  show "saved_now (fst demo_saved) 1" by (simp add: demo_saved_eq saved_now_def)
  show "1 < klimit (snd demo_saved)" by (simp add: demo_saved_eq demo_kernel_def)
  show "demo_changed = (snd demo_saved)\<lparr>kfds := (kfds (snd demo_saved))(1 := Some \<lparr>kf_desc = 7, kf_cloexec = False\<rparr>)\<rparr>"
    by (rule demo_changed_def)
qed

lemma demo_frames: "length (frames (fst demo_saved)) = 1" "frames (fst demo_saved) \<noteq> []"
  by (simp_all add: demo_saved_eq)

section \<open>Witnesses\<close>


section \<open>The retry loop of the private duplicate\<close>

lemma find_upto_eq:
  assumes "a \<le> d" and "d \<le> b" and "P d" and "\<And>x. a \<le> x \<Longrightarrow> x < d \<Longrightarrow> \<not> P x"
  shows "List.find P [a..b] = Some d"
proof (cases "List.find P [a..b]")
  case None
  then show ?thesis using assms(1-3) by (auto simp: find_None_iff)
next
  case (Some x)
  from find_upto [OF this] have "P x" "a \<le> x" "\<forall>y. a \<le> y \<and> y < x \<longrightarrow> \<not> P y" by blast+
  then have "x = d" using assms by (metis linorder_neqE_linordered_idom)
  then show ?thesis using Some by simp
qed

lemma find_upto_skip: "\<not> P d \<Longrightarrow> a \<le> d \<Longrightarrow> d \<le> b \<Longrightarrow> (\<And>x. a \<le> x \<Longrightarrow> x < d \<Longrightarrow> \<not> P x) \<Longrightarrow>
    List.find P [a..b] = List.find P [d + 1..b]"
proof -
  assume a: "\<not> P d" "a \<le> d" "d \<le> b" "\<And>x. a \<le> x \<Longrightarrow> x < d \<Longrightarrow> \<not> P x"
  show ?thesis
  proof (cases "List.find P [d + 1..b]")
    case None
    then have "\<not> P x" if "a \<le> x" "x \<le> b" for x using a that by (cases "x < d"; cases "x = d") (auto simp: find_None_iff)
    then have "List.find P [a..b] = None" by (auto simp: find_None_iff)
    then show ?thesis using None by simp
  next
    case (Some x)
    from find_upto [OF this] have x: "P x" "d + 1 \<le> x" "x \<le> b" "\<forall>y. d + 1 \<le> y \<and> y < x \<longrightarrow> \<not> P y" by blast+
    have "List.find P [a..b] = Some x"
    proof (rule find_upto_eq)
      show "\<not> P y" if "a \<le> y" "y < x" for y
        using that a x(4) by (cases "y < d"; cases "y = d") auto
    qed (use a x in auto)
    then show ?thesis using Some by simp
  qed
qed

text \<open>
  The loop that looks for a private number ends, and gives the least number from its minimum on
  that is free and that no active transaction names; when there is none it fails and changes
  nothing.
\<close>

lemma dup_private_least:
  assumes "kfds k src \<noteq> None" and "\<forall>refs \<in> set chain. sorted_wrt (<) (map fst refs)" and "0 \<le> m" and "klimit k \<le> INT_MAX"
  shows "case List.find (\<lambda>d. kfds k d = None \<and> (\<forall>refs \<in> set chain. d \<notin> fst ` set refs)) [m..klimit k - 1] of
      Some d \<Rightarrow> fst (dup_private k chain src m) = Inr d
    | None \<Rightarrow> fst (dup_private k chain src m) \<in> {Inl FD_EMFILE, Inl FD_EINVAL} \<and> fst (snd (dup_private k chain src m)) = k"
  using assms
proof (induction k chain src m rule: dup_private.induct)
  case (1 k chain src m)
  let ?P = "\<lambda>d. kfds k d = None \<and> (\<forall>refs \<in> set chain. d \<notin> fst ` set refs)"
  show ?case
  proof (cases "bx_fd_dup_cloexec_min k src m")
    case (Inl err)
    then have e: "dup_private k chain src m = (Inl err, k, m)" by (subst dup_private.simps) simp
    have "err \<in> {FD_EMFILE, FD_EINVAL} \<and> List.find ?P [m..klimit k - 1] = None"
    proof (cases "m \<ge> klimit k")
      case True
      then show ?thesis using Inl "1.prems"(1) by (auto simp: bx_fd_dup_cloexec_min_def find_None_iff split: option.splits)
    next
      case False
      then have "List.find (\<lambda>fd. kfds k fd = None) [m..klimit k - 1] = None" "err = FD_EMFILE"
        using Inl "1.prems"(1,3) by (auto simp: bx_fd_dup_cloexec_min_def split: option.splits)
      then show ?thesis by (auto simp: find_None_iff)
    qed
    then show ?thesis using e by auto
  next
    case (Inr p)
    obtain d k1 where p: "p = (d, k1)" by (cases p)
    from Inr obtain f where f: "kfds k src = Some f" "m \<le> d" "d < klimit k" "kfds k d = None"
      "k1 = k\<lparr>kfds := (kfds k)(d \<mapsto> f\<lparr>kf_cloexec := True\<rparr>)\<rparr>"
      unfolding p by (rule dup_min_Inr)
    have "List.find (\<lambda>fd. kfds k fd = None) [m..klimit k - 1] = Some d"
      using Inr f(1) unfolding p by (auto simp: bx_fd_dup_cloexec_min_def split: option.splits if_splits)
    from find_upto [OF this] have least: "\<And>x. m \<le> x \<Longrightarrow> x < d \<Longrightarrow> kfds k x \<noteq> None" by blast
    have closed: "k_close k1 d = k" using f by (simp add: k_close_free)
    define C where "C \<longleftrightarrow> (\<exists>refs \<in> set chain. find_ref refs d \<noteq> None)"
    have coll: "C \<longleftrightarrow> (\<exists>refs \<in> set chain. d \<in> fst ` set refs)"
    proof -
      have "(find_ref refs d \<noteq> None) = (d \<in> fst ` set refs)" if "refs \<in> set chain" for refs
        using find_ref_None [of refs d] "1.prems"(2) that by (simp add: ref_fds_def)
      then show ?thesis unfolding C_def by (rule bex_cong [OF refl])
    qed
    have small: "d \<noteq> INT_MAX" using f(3) "1.prems"(4) by simp
    have eq: "dup_private k chain src m = (if \<not> C then (Inr d, k1, d + 1) else dup_private k chain src (d + 1))"
      unfolding C_def using closed small by (subst dup_private.simps) (auto simp: Inr p Let_def)
    show ?thesis
    proof (cases C)
      case True
      have skip: "List.find ?P [m..klimit k - 1] = List.find ?P [d + 1..klimit k - 1]"
        using True coll f least by (intro find_upto_skip) auto
      have again: "dup_private k chain src m = dup_private k chain src (d + 1)" using eq True by simp
      have "0 \<le> d + 1" using f(2) "1.prems"(3) by simp
      then show ?thesis unfolding skip again
        using "1.IH" [OF Inr p [symmetric] refl small] True "1.prems" unfolding C_def closed by simp
    next
      case False
      have "List.find ?P [m..klimit k - 1] = Some d"
        using False coll f least by (intro find_upto_eq) auto
      then show ?thesis using eq False by simp
    qed
  qed
qed

lemma dup_private_least_witness:
  "case List.find (\<lambda>d. kfds demo_kernel d = None \<and> d \<notin> {10}) [10..15] of
     Some d \<Rightarrow> fst (dup_private demo_kernel [[(10, False)]] 1 10) = Inr d | None \<Rightarrow> False"
  using dup_private_least [of demo_kernel 1 "[[(10, False)]]" 10] demo_one by (simp add: demo_kernel_def)

section \<open>Any sequence of calls\<close>

datatype fd_call = Begin "int list" | Add_reference nat int | Save nat int | Rollback nat | Commit nat

fun fd_exec :: "(nat \<Rightarrow> bool) \<Rightarrow> fd_call \<Rightarrow> kernel \<Rightarrow> fd_stack \<Rightarrow> fd_errno option \<times> fd_stack \<times> kernel" where
  "fd_exec avail (Begin fds) k st = fd_begin avail k st fds"
| "fd_exec avail (Add_reference depth fd) k st = fd_add_reference avail k st depth fd"
| "fd_exec avail (Save depth fd) k st = fd_save avail k st depth fd"
| "fd_exec avail (Rollback depth) k st = fd_rollback k st depth"
| "fd_exec avail (Commit depth) k st = fd_commit k st depth"

fun spec_exec :: "fd_call \<Rightarrow> spec_state \<Rightarrow> spec_state" where
  "spec_exec (Begin fds) = spec_begin fds"
| "spec_exec (Add_reference depth fd) = spec_add fd"
| "spec_exec (Save depth fd) = spec_save fd"
| "spec_exec (Rollback depth) = spec_rollback"
| "spec_exec (Commit depth) = spec_commit"

lemma fd_exec_sim:
  assumes "fd_inv k st" and "fd_exec avail call k st = (err, st', k')"
  shows "fd_inv k' st' \<and> fd_abs k' st' = (if err = None then spec_exec call (fd_abs k st) else fd_abs k st)"
proof (cases call)
  case (Begin fds)
  then show ?thesis using fd_begin_refines assms by simp
next
  case (Add_reference depth fd)
  then show ?thesis using fd_add_reference_refines assms by simp
next
  case (Save depth fd)
  then show ?thesis using fd_save_refines assms by simp
next
  case (Rollback depth)
  then show ?thesis using fd_rollback_refines [OF assms(1)] assms(2) by (fastforce split: if_splits)
next
  case (Commit depth)
  then show ?thesis using fd_commit_refines [OF assms(1)] assms(2) by (fastforce split: if_splits)
qed





text \<open>A run of calls from the empty stack.\<close>

fun fd_run :: "(nat \<Rightarrow> bool) \<Rightarrow> fd_call list \<Rightarrow> kernel \<times> fd_stack \<Rightarrow> kernel \<times> fd_stack" where
  "fd_run avail [] s = s"
| "fd_run avail (call # calls) s = fd_run avail calls (case fd_exec avail call (fst s) (snd s) of (err, st', k') \<Rightarrow> (k', st'))"

lemma fd_run_inv: "fd_inv (fst s) (snd s) \<Longrightarrow> fd_inv (fst (fd_run avail calls s)) (snd (fd_run avail calls s))"
proof (induction calls arbitrary: s)
  case (Cons call calls)
  obtain err st' k' where e: "fd_exec avail call (fst s) (snd s) = (err, st', k')" by (cases "fd_exec avail call (fst s) (snd s)")
  with fd_exec_sim [OF Cons.prems e] have "fd_inv k' st'" by simp
  then show ?case using Cons.IH [of "(k', st')"] e by simp
qed simp

text \<open>
  C12: whatever calls are made, in whatever order and with whatever failures, the stack passes the
  check that the code makes of it (and asserts after every call): references sorted, every saved
  reference with exactly one entry of its transaction, every backup open, close-on-exec, held once
  and named by no active transaction.
\<close>

theorem fd_run_invariants:
  assumes "kernel_ok k"
  shows "stack_invariants (fst (fd_run avail calls (k, fd_stack_init))) (snd (fd_run avail calls (k, fd_stack_init)))"
proof -
  have "fd_inv k fd_stack_init" using assms by (simp add: fd_inv_def fd_stack_init_def backups_ok_def)
  then show ?thesis using fd_run_inv [of "(k, fd_stack_init)"] fd_inv_stack_invariants by simp
qed

lemma fd_run_invariants_witness:
  "stack_invariants (fst (fd_run (\<lambda>_. True) [Begin [1], Save 1 1, Begin [10], Commit 2] (demo_kernel, fd_stack_init)))
     (snd (fd_run (\<lambda>_. True) [Begin [1], Save 1 1, Begin [10], Commit 2] (demo_kernel, fd_stack_init)))"
  by (rule fd_run_invariants) (use demo_inv in \<open>simp add: fd_inv_def\<close>)

end
