(* ===== verification/ModeParse.thy ===== *)
theory ModeParse
  imports Prelude
begin

text \<open>
  \<open>src/src/lib/mode_parse.c\<close>: file modes given as octal numbers or as symbolic clauses
  (\<open>u+rwX,go=\<close>). \<open>mode_t\<close> is a 32-bit word; the permission bits have their Linux values. Reading
  and restoring the process umask (\<open>bx_mode_current_umask\<close>) is left out.
\<close>

section \<open>Bits and classes\<close>

type_synonym mode_t = u32

abbreviation S_IRWXU :: mode_t where "S_IRWXU \<equiv> 0x1C0"
abbreviation S_IRWXG :: mode_t where "S_IRWXG \<equiv> 0x38"
abbreviation S_IRWXO :: mode_t where "S_IRWXO \<equiv> 0x7"
abbreviation S_ISUID :: mode_t where "S_ISUID \<equiv> 0x800"
abbreviation S_ISGID :: mode_t where "S_ISGID \<equiv> 0x400"

datatype bx_mode_x_policy = X_DISABLED | X_ALWAYS | X_IF_ANY_EXEC | X_IF_DIRECTORY_OR_ANY_EXEC

record bx_mode_parse_params =
  initial_mode :: mode_t
  result_mask :: mode_t
  max_numeric_mode :: mode_t
  umask_value :: mode_t
  sticky_bit :: mode_t
  x_policy :: bx_mode_x_policy
  is_directory :: bool
  apply_umask_when_who_omitted :: bool
  allow_setuid :: bool
  allow_setgid :: bool
  allow_sticky :: bool

text \<open>The three \<open>BX_MODE_WHO\<close> flags.\<close>

record who_flags =
  who_u :: bool
  who_g :: bool
  who_o :: bool

definition WHO_ALL :: who_flags where
  "WHO_ALL = \<lparr>who_u = True, who_g = True, who_o = True\<rparr>"

definition bx_mode_is_octal_string :: "cstr \<Rightarrow> bool" where
  "bx_mode_is_octal_string text =
     (case text of None \<Rightarrow> False
      | Some s \<Rightarrow> s \<noteq> [] \<and> list_all (\<lambda>c. \<not> (c < CHR ''0'' \<or> CHR ''7'' < c)) s)"

definition bx_mode_rwx_mask_from_who :: "who_flags \<Rightarrow> mode_t" where
  "bx_mode_rwx_mask_from_who w =
     (if who_u w then S_IRWXU else 0) OR (if who_g w then S_IRWXG else 0) OR (if who_o w then S_IRWXO else 0)"

definition bx_mode_special_mask_from_who :: "bx_mode_parse_params \<Rightarrow> who_flags \<Rightarrow> mode_t" where
  "bx_mode_special_mask_from_who ps w =
     (if allow_setuid ps \<and> who_u w then S_ISUID else 0) OR (if allow_setgid ps \<and> who_g w then S_ISGID else 0) OR
     (if allow_sticky ps \<and> who_o w then sticky_bit ps else 0)"

definition bx_mode_full_special_mask :: "bx_mode_parse_params \<Rightarrow> mode_t" where
  "bx_mode_full_special_mask ps = bx_mode_special_mask_from_who ps WHO_ALL"

definition bx_mode_perm_bits_for_who :: "who_flags \<Rightarrow> char \<Rightarrow> mode_t" where
  "bx_mode_perm_bits_for_who w perm =
     (if perm = CHR ''r'' then
        (if who_u w then 0x100 else 0) OR (if who_g w then 0x20 else 0) OR (if who_o w then 0x4 else 0)
      else if perm = CHR ''w'' then
        (if who_u w then 0x80 else 0) OR (if who_g w then 0x10 else 0) OR (if who_o w then 0x2 else 0)
      else if perm = CHR ''x'' then
        (if who_u w then 0x40 else 0) OR (if who_g w then 0x8 else 0) OR (if who_o w then 0x1 else 0)
      else 0)"

definition bx_mode_copy_perm_bits :: "mode_t \<Rightarrow> who_flags \<Rightarrow> char \<Rightarrow> mode_t" where
  "bx_mode_copy_perm_bits mode w source_class =
     (let copy = (\<lambda>source :: mode_t.
        (if who_u w then push_bit 6 source else 0) OR (if who_g w then push_bit 3 source else 0) OR
        (if who_o w then source else 0)) in
      if source_class = CHR ''u'' then copy (drop_bit 6 (mode AND S_IRWXU))
      else if source_class = CHR ''g'' then copy (drop_bit 3 (mode AND S_IRWXG))
      else if source_class = CHR ''o'' then copy (mode AND S_IRWXO)
      else 0)"

definition bx_mode_should_apply_x :: "bx_mode_parse_params \<Rightarrow> mode_t \<Rightarrow> bool" where
  "bx_mode_should_apply_x ps source_mode =
     (case x_policy ps of
        X_DISABLED \<Rightarrow> False
      | X_ALWAYS \<Rightarrow> True
      | X_IF_ANY_EXEC \<Rightarrow> source_mode AND 0x49 \<noteq> 0
      | X_IF_DIRECTORY_OR_ANY_EXEC \<Rightarrow> is_directory ps \<or> source_mode AND 0x49 \<noteq> 0)"

section \<open>Numbers\<close>

text \<open>
  \<open>strtoumax (text, &end, 8)\<close>: white space, a sign, octal digits; the value, whether it was out of
  range, and the text from \<open>end\<close> on. Without digits \<open>end\<close> is \<open>text\<close>.
\<close>

definition is_octal :: "char \<Rightarrow> bool" where
  "is_octal c \<longleftrightarrow> CHR ''0'' \<le> c \<and> c \<le> CHR ''7''"

definition octal_value :: "string \<Rightarrow> nat" where
  "octal_value s = foldl (\<lambda>v c. v * 8 + digit_value c) 0 s"

definition strtoumax_8 :: "string \<Rightarrow> uintmax_t \<times> bool \<times> string" where
  "strtoumax_8 text =
     (let s = dropWhile c_isspace text;
          negative = (s \<noteq> [] \<and> hd s = CHR ''-'');
          s = (if s \<noteq> [] \<and> (hd s = CHR ''-'' \<or> hd s = CHR ''+'') then tl s else s);
          digits = takeWhile is_octal s;
          rest = dropWhile is_octal s in
      if digits = [] then (0, False, text)
      else if octal_value digits \<ge> 2 ^ 64 then (UINTMAX_MAX, True, rest)
      else ((if negative then - of_nat (octal_value digits) else of_nat (octal_value digits)), False, rest))"

definition bx_mode_parse_numeric :: "cstr \<Rightarrow> mode_t \<Rightarrow> mode_t option" where
  "bx_mode_parse_numeric text max_mode =
     (case text of None \<Rightarrow> None
      | Some s \<Rightarrow>
          (case strtoumax_8 s of (v, erange, rest) \<Rightarrow>
             if erange \<or> length rest = length s \<or> rest \<noteq> [] \<or> v > ucast max_mode then None
             else Some (ucast v)))"

section \<open>Symbolic clauses\<close>

text \<open>The classes before the operator, and whether there were any.\<close>

fun who_loop :: "string \<Rightarrow> who_flags \<Rightarrow> bool \<Rightarrow> who_flags \<times> bool \<times> string" where
  "who_loop [] w specified = (w, specified, [])"
| "who_loop (c # cs) w specified =
     (if c = CHR ''u'' then who_loop cs (w\<lparr>who_u := True\<rparr>) True
      else if c = CHR ''g'' then who_loop cs (w\<lparr>who_g := True\<rparr>) True
      else if c = CHR ''o'' then who_loop cs (w\<lparr>who_o := True\<rparr>) True
      else if c = CHR ''a'' then who_loop cs WHO_ALL True
      else (w, specified, c # cs))"

text \<open>One permission character, as the bits it adds to the clause.\<close>

definition perm_token :: "bx_mode_parse_params \<Rightarrow> mode_t \<Rightarrow> who_flags \<Rightarrow> char \<Rightarrow> (mode_t \<times> mode_t) option" where
  "perm_token ps source_mode w c =
     (if c = CHR ''r'' \<or> c = CHR ''w'' \<or> c = CHR ''x'' then Some (bx_mode_perm_bits_for_who w c, 0)
      else if c = CHR ''X'' then
        (if x_policy ps = X_DISABLED then None
         else Some (if bx_mode_should_apply_x ps source_mode then bx_mode_perm_bits_for_who w CHR ''x'' else 0, 0))
      else if c = CHR ''s'' then
        (if \<not> allow_setuid ps \<and> \<not> allow_setgid ps then None
         else Some (0, (if allow_setuid ps \<and> who_u w then S_ISUID else 0) OR
                       (if allow_setgid ps \<and> who_g w then S_ISGID else 0)))
      else if c = CHR ''t'' then
        (if \<not> allow_sticky ps then None else Some (0, if who_o w then sticky_bit ps else 0))
      else if c = CHR ''u'' \<or> c = CHR ''g'' \<or> c = CHR ''o'' then Some (bx_mode_copy_perm_bits source_mode w c, 0)
      else None)"

fun perm_loop :: "bx_mode_parse_params \<Rightarrow> mode_t \<Rightarrow> who_flags \<Rightarrow> string \<Rightarrow> mode_t \<Rightarrow> mode_t \<Rightarrow> bool \<Rightarrow>
    (mode_t \<times> mode_t \<times> bool \<times> string) option" where
  "perm_loop ps source_mode w [] rwx special saw = Some (rwx, special, saw, [])"
| "perm_loop ps source_mode w (c # cs) rwx special saw =
     (if c = CHR '','' then Some (rwx, special, saw, c # cs)
      else case perm_token ps source_mode w c of
          None \<Rightarrow> None
        | Some (b, s) \<Rightarrow> perm_loop ps source_mode w cs (rwx OR b) (special OR s) True)"

text \<open>The effect of a clause that has been read.\<close>

definition apply_clause ::
  "bx_mode_parse_params \<Rightarrow> who_flags \<Rightarrow> bool \<Rightarrow> char \<Rightarrow> mode_t \<Rightarrow> mode_t \<Rightarrow> mode_t \<Rightarrow> mode_t" where
  "apply_clause ps w who_specified op clause_rwx_bits clause_special_bits mode =
     (let affected_rwx_mask =
        (if \<not> who_specified \<and> apply_umask_when_who_omitted ps
         then bx_mode_rwx_mask_from_who w AND (NOT (umask_value ps) AND 0x1FF) else bx_mode_rwx_mask_from_who w);
      clear_rwx_mask = (if op = CHR ''='' \<and> \<not> who_specified then S_IRWXU OR S_IRWXG OR S_IRWXO else affected_rwx_mask);
      affected_special_mask =
        (if who_specified then bx_mode_special_mask_from_who ps w else bx_mode_full_special_mask ps);
      applied_rwx_bits = clause_rwx_bits AND affected_rwx_mask in
      if op = CHR ''+'' then mode OR applied_rwx_bits OR clause_special_bits
      else if op = CHR ''-'' then mode AND NOT applied_rwx_bits AND NOT clause_special_bits
      else (mode AND NOT clear_rwx_mask AND NOT affected_special_mask) OR applied_rwx_bits OR clause_special_bits)"

definition parse_clause :: "bx_mode_parse_params \<Rightarrow> mode_t \<Rightarrow> string \<Rightarrow> (mode_t \<times> string) option" where
  "parse_clause ps mode text =
     (case who_loop text \<lparr>who_u = False, who_g = False, who_o = False\<rparr> False of (w0, who_specified, p) \<Rightarrow>
        let w = (if who_specified then w0 else WHO_ALL) in
        case p of
          [] \<Rightarrow> None
        | op # p \<Rightarrow>
            if op \<noteq> CHR ''+'' \<and> op \<noteq> CHR ''-'' \<and> op \<noteq> CHR ''='' then None
            else if (op \<noteq> CHR ''='' \<and> (p = [] \<or> hd p = CHR '','')) \<or>
                (p \<noteq> [] \<and> (hd p = CHR ''+'' \<or> hd p = CHR ''-'' \<or> hd p = CHR ''='')) then None
            else case perm_loop ps mode w p 0 0 False of
                None \<Rightarrow> None
              | Some (rwx, special, saw_token, rest) \<Rightarrow>
                  if \<not> saw_token \<and> op \<noteq> CHR ''='' then None
                  else Some (apply_clause ps w who_specified op rwx special mode, rest))"

lemma who_loop_length: "who_loop cs w b = (w', b', rest) \<Longrightarrow> length rest \<le> length cs"
  by (induction cs w b rule: who_loop.induct) (auto split: if_splits)

lemma perm_loop_length: "perm_loop ps m w cs rwx special saw = Some (a, b, c, rest) \<Longrightarrow> length rest \<le> length cs"
  by (induction ps m w cs rwx special saw rule: perm_loop.induct) (auto split: if_splits option.splits intro: le_SucI)

lemma parse_clause_length: "parse_clause ps mode text = Some (mode', rest) \<Longrightarrow> length rest < length text"
  by (fastforce simp: parse_clause_def Let_def split: prod.splits list.splits if_splits option.splits
      dest: who_loop_length perm_loop_length)

function parse_clauses :: "bx_mode_parse_params \<Rightarrow> mode_t \<Rightarrow> string \<Rightarrow> mode_t option" where
  "parse_clauses ps mode text =
     (if text = [] then Some mode
      else case parse_clause ps mode text of
          None \<Rightarrow> None
        | Some (mode', rest) \<Rightarrow>
            (case rest of
               [] \<Rightarrow> Some mode'
             | c # rest' \<Rightarrow>
                 if c = CHR '','' then
                   (if rest' = [] \<or> hd rest' = CHR '','' then None else parse_clauses ps mode' rest')
                 else parse_clauses ps mode' rest))"
  by pat_completeness auto
termination
  by (relation "measure (\<lambda>(ps, mode, text). length text)") (auto dest!: parse_clause_length)

declare parse_clauses.simps [simp del]

definition bx_mode_parse_symbolic :: "cstr \<Rightarrow> bx_mode_parse_params \<Rightarrow> mode_t option" where
  "bx_mode_parse_symbolic text ps =
     (case text of None \<Rightarrow> None
      | Some s \<Rightarrow>
          if s = [] then None
          else case parse_clauses ps (initial_mode ps AND result_mask ps) s of
              None \<Rightarrow> None
            | Some mode \<Rightarrow> Some (mode AND result_mask ps))"

definition bx_mode_parse :: "cstr \<Rightarrow> bx_mode_parse_params \<Rightarrow> mode_t option" where
  "bx_mode_parse text ps =
     (case text of None \<Rightarrow> None
      | Some s \<Rightarrow>
          if s = [] then None
          else if bx_mode_is_octal_string text then bx_mode_parse_numeric text (max_numeric_mode ps)
          else bx_mode_parse_symbolic text ps)"

section \<open>What a clause means\<close>

text \<open>
  A mode as the permissions of the classes: classes 0, 1, 2 are other, group and user, permissions
  0, 1, 2 are execute, write and read, and permission 3 is the special bit of the class (sticky,
  set-group-ID, set-user-ID).
\<close>

definition perm_bit :: "nat \<Rightarrow> nat \<Rightarrow> nat" where
  "perm_bit k p = (if p = 3 then 9 + k else 3 * k + p)"

definition perms_of :: "mode_t \<Rightarrow> nat \<Rightarrow> nat \<Rightarrow> bool" where
  "perms_of m k p = bit m (perm_bit k p)"

record clause =
  cl_who :: string
  cl_op :: char
  cl_perms :: string

definition class_char :: "nat \<Rightarrow> char" where
  "class_char k = (if k = 2 then CHR ''u'' else if k = 1 then CHR ''g'' else CHR ''o'')"

definition special_allowed :: "bx_mode_parse_params \<Rightarrow> nat \<Rightarrow> bool" where
  "special_allowed ps k = (if k = 2 then allow_setuid ps else if k = 1 then allow_setgid ps else allow_sticky ps)"

definition x_applies :: "bx_mode_parse_params \<Rightarrow> (nat \<Rightarrow> nat \<Rightarrow> bool) \<Rightarrow> bool" where
  "x_applies ps f = (x_policy ps = X_ALWAYS \<or> x_policy ps \<noteq> X_DISABLED \<and> (f 0 0 \<or> f 1 0 \<or> f 2 0) \<or>
     x_policy ps = X_IF_DIRECTORY_OR_ANY_EXEC \<and> is_directory ps)"

text \<open>Whether a character of the clause gives permission \<open>p\<close> to class \<open>k\<close>, \<open>f\<close> being the mode before it.\<close>

definition grants :: "bx_mode_parse_params \<Rightarrow> (nat \<Rightarrow> nat \<Rightarrow> bool) \<Rightarrow> nat \<Rightarrow> nat \<Rightarrow> char \<Rightarrow> bool" where
  "grants ps f k p c =
     (c = CHR ''r'' \<and> p = 2 \<or> c = CHR ''w'' \<and> p = 1 \<or> c = CHR ''x'' \<and> p = 0 \<or>
      c = CHR ''X'' \<and> p = 0 \<and> x_applies ps f \<or>
      c = CHR ''s'' \<and> p = 3 \<and> 0 < k \<and> special_allowed ps k \<or> c = CHR ''t'' \<and> p = 3 \<and> k = 0 \<or>
      p < 3 \<and> (c = CHR ''u'' \<and> f 2 p \<or> c = CHR ''g'' \<and> f 1 p \<or> c = CHR ''o'' \<and> f 0 p))"

definition spec_clause :: "bx_mode_parse_params \<Rightarrow> clause \<Rightarrow> (nat \<Rightarrow> nat \<Rightarrow> bool) \<Rightarrow> nat \<Rightarrow> nat \<Rightarrow> bool" where
  "spec_clause ps cl f k p =
     (let selected = (cl_who cl = [] \<or> CHR ''a'' \<in> set (cl_who cl) \<or> class_char k \<in> set (cl_who cl));
          masked = (cl_who cl = [] \<and> apply_umask_when_who_omitted ps \<and> p < 3 \<and> perms_of (umask_value ps) k p);
          given = (selected \<and> \<not> masked \<and> list_ex (grants ps f k p) (cl_perms cl)) in
      if cl_op cl = CHR ''+'' then f k p \<or> given
      else if cl_op cl = CHR ''-'' then f k p \<and> \<not> given
      else if selected \<and> (p < 3 \<or> special_allowed ps k) then given else f k p)"

text \<open>The characters a clause may use, and its text.\<close>

definition perm_ok :: "bx_mode_parse_params \<Rightarrow> char \<Rightarrow> bool" where
  "perm_ok ps c \<longleftrightarrow> c \<in> {CHR ''r'', CHR ''w'', CHR ''x'', CHR ''u'', CHR ''g'', CHR ''o''} \<or>
     c = CHR ''X'' \<and> x_policy ps \<noteq> X_DISABLED \<or> c = CHR ''s'' \<and> (allow_setuid ps \<or> allow_setgid ps) \<or>
     c = CHR ''t'' \<and> allow_sticky ps"

definition clause_ok :: "bx_mode_parse_params \<Rightarrow> clause \<Rightarrow> bool" where
  "clause_ok ps cl \<longleftrightarrow> list_all (\<lambda>c. c \<in> {CHR ''u'', CHR ''g'', CHR ''o'', CHR ''a''}) (cl_who cl) \<and>
     cl_op cl \<in> {CHR ''+'', CHR ''-'', CHR ''=''} \<and> list_all (perm_ok ps) (cl_perms cl) \<and>
     (cl_op cl \<noteq> CHR ''='' \<longrightarrow> cl_perms cl \<noteq> [])"

definition clause_text :: "clause \<Rightarrow> string" where
  "clause_text cl = cl_who cl @ cl_op cl # cl_perms cl"

fun clauses_text :: "clause list \<Rightarrow> string" where
  "clauses_text [] = []"
| "clauses_text [cl] = clause_text cl"
| "clauses_text (cl # cls) = clause_text cl @ CHR '','' # clauses_text cls"

section \<open>Reading a clause\<close>

lemma who_loop_text:
  assumes "list_all (\<lambda>c. c \<in> {CHR ''u'', CHR ''g'', CHR ''o'', CHR ''a''}) who" and "op \<in> {CHR ''+'', CHR ''-'', CHR ''=''}"
  shows "who_loop (who @ op # rest) w b =
    (\<lparr>who_u = who_u w \<or> CHR ''a'' \<in> set who \<or> CHR ''u'' \<in> set who,
      who_g = who_g w \<or> CHR ''a'' \<in> set who \<or> CHR ''g'' \<in> set who,
      who_o = who_o w \<or> CHR ''a'' \<in> set who \<or> CHR ''o'' \<in> set who\<rparr>, b \<or> who \<noteq> [], op # rest)"
  using assms
proof (induction who arbitrary: w b)
  case Nil
  then show ?case by (cases w) auto
next
  case (Cons c who)
  then show ?case by (auto simp: WHO_ALL_def)
qed

lemma perm_loop_text:
  assumes "list_all (perm_ok ps) perms" and "rest = [] \<or> hd rest = CHR '',''"
  shows "\<exists>rwx' special'. perm_loop ps m w (perms @ rest) rwx special saw = Some (rwx', special', saw \<or> perms \<noteq> [], rest) \<and>
    (\<forall>n. bit rwx' n = (bit rwx n \<or> list_ex (\<lambda>c. bit (fst (the (perm_token ps m w c))) n) perms)) \<and>
    (\<forall>n. bit special' n = (bit special n \<or> list_ex (\<lambda>c. bit (snd (the (perm_token ps m w c))) n) perms))"
  using assms(1)
proof (induction perms arbitrary: rwx special saw)
  case Nil
  then show ?case using assms(2) by (cases rest) auto
next
  case (Cons c perms)
  then have c: "c \<noteq> CHR '',''" by (auto simp: perm_ok_def)
  from Cons.prems have "perm_token ps m w c \<noteq> None" by (auto simp: perm_ok_def perm_token_def)
  then obtain b s where t: "perm_token ps m w c = Some (b, s)" by auto
  from Cons.prems Cons.IH [of "rwx OR b" "special OR s" True] obtain rwx' special' where
    r: "perm_loop ps m w (perms @ rest) (rwx OR b) (special OR s) True = Some (rwx', special', True, rest)"
    "\<forall>n. bit rwx' n = (bit (rwx OR b) n \<or> list_ex (\<lambda>c. bit (fst (the (perm_token ps m w c))) n) perms)"
    "\<forall>n. bit special' n = (bit (special OR s) n \<or> list_ex (\<lambda>c. bit (snd (the (perm_token ps m w c))) n) perms)"
    by auto
  show ?case
    by (intro exI [of _ rwx'] exI [of _ special']) (use r t c in \<open>simp add: bit_or_iff disj_assoc\<close>)
qed

text \<open>The bits of one character, and of the masks.\<close>

definition who_of :: "who_flags \<Rightarrow> nat \<Rightarrow> bool" where
  "who_of w k = (if k = 2 then who_u w else if k = 1 then who_g w else who_o w)"

lemma below3: "k < 3 \<Longrightarrow> k = 0 \<or> k = 1 \<or> k = (2 :: nat)" by auto

lemma should_apply_x: "bx_mode_should_apply_x ps m = x_applies ps (perms_of m)"
proof -
  have "m AND 0x49 \<noteq> 0 \<longleftrightarrow> bit m 0 \<or> bit m 3 \<or> bit m 6"
  proof
    assume "m AND 0x49 \<noteq> 0"
    then obtain n where "bit (m AND 0x49) n" using bit_eqI [of "m AND 0x49" 0] by auto
    then have "bit m n" "bit (0x49 :: 32 word) n" by (auto simp: bit_and_iff)
    moreover from \<open>bit (0x49 :: 32 word) n\<close> have "n < 32" using bit_imp_le_length by force
    then have "n \<in> set [0..<32]" by simp
    with \<open>bit (0x49 :: 32 word) n\<close> have "n = 0 \<or> n = 3 \<or> n = 6"
      by (simp add: upt_rec del: upt_Suc) (auto simp: bit_simps)
    ultimately show "bit m 0 \<or> bit m 3 \<or> bit m 6" by auto
  next
    assume "bit m 0 \<or> bit m 3 \<or> bit m 6"
    then have "bit (m AND 0x49) 0 \<or> bit (m AND 0x49) 3 \<or> bit (m AND 0x49) 6" by (simp add: bit_simps)
    then show "m AND 0x49 \<noteq> 0" by (auto simp del: bit_0)
  qed
  then show ?thesis
    by (simp add: bx_mode_should_apply_x_def x_applies_def perms_of_def perm_bit_def split: bx_mode_x_policy.splits) blast
qed

lemma below4: "p < 4 \<Longrightarrow> p = 3 \<or> p < (3 :: nat)" by auto

lemma bit_if: "bit (if b then v else w) n = (if b then bit v n else bit w n)"
  by simp

lemma perm_bits:
  assumes "k < 3" and "p < 3"
  shows "bit (bx_mode_perm_bits_for_who w c) (perm_bit k p) =
    (who_of w k \<and> (c = CHR ''r'' \<and> p = 2 \<or> c = CHR ''w'' \<and> p = 1 \<or> c = CHR ''x'' \<and> p = 0))"
  using below3 [OF assms(1)] below3 [OF assms(2)]
  by (elim disjE) (simp_all add: bx_mode_perm_bits_for_who_def perm_bit_def who_of_def bit_or_iff bit_if)

lemma spread_bits:
  fixes s :: mode_t
  assumes "k < 3" and "p < 3" and "\<And>n. 3 \<le> n \<Longrightarrow> \<not> bit s n"
  shows "bit ((if who_u w then push_bit 6 s else 0) OR (if who_g w then push_bit 3 s else 0) OR (if who_o w then s else 0))
    (perm_bit k p) = (who_of w k \<and> bit s p)"
  using below3 [OF assms(1)] below3 [OF assms(2)] assms(3)
  by (elim disjE) (simp_all add: perm_bit_def who_of_def bit_or_iff bit_if bit_push_bit_iff flip: numeral_2_eq_2)

lemma class_mask:
  "i < 3 \<Longrightarrow> (if i = 2 then S_IRWXU else if i = 1 then S_IRWXG else S_IRWXO) = push_bit (3 * i) (mask 3)"
  by (drule below3) (auto simp: mask_eq_exp_minus_1 push_bit_eq_mult)

lemma copy_bits:
  assumes "k < 3" and "p < 3" and "i < 3"
  shows "bit (bx_mode_copy_perm_bits m w (class_char i)) (perm_bit k p) = (who_of w k \<and> perms_of m i p)"
proof -
  let ?s = "drop_bit (3 * i) (m AND push_bit (3 * i) (mask 3))"
  have s: "bit ?s n = (n < 3 \<and> bit m (3 * i + n))" for n
    using assms(3) bit_imp_le_length [of m "3 * i + n"]
    by (auto simp: bit_drop_bit_eq bit_and_iff bit_push_bit_iff bit_mask_iff)
  have "bit ?s p = perms_of m i p" using assms(2) unfolding s by (simp add: perms_of_def perm_bit_def)
  moreover have "bx_mode_copy_perm_bits m w (class_char i) =
      ((if who_u w then push_bit 6 ?s else 0) OR (if who_g w then push_bit 3 ?s else 0) OR (if who_o w then ?s else 0))"
    unfolding class_mask [OF assms(3), symmetric]
    using below3 [OF assms(3)] by (elim disjE) (simp_all add: bx_mode_copy_perm_bits_def class_char_def Let_def)
  moreover have "\<not> bit ?s n" if "3 \<le> n" for n using that unfolding s by simp
  ultimately show ?thesis using spread_bits [OF assms(1,2)] by metis
qed

lemma token_bits:
  assumes "perm_ok ps c" and "k < 3" and "p < 3"
  shows "bit (fst (the (perm_token ps m w c))) (perm_bit k p) = (who_of w k \<and> grants ps (perms_of m) k p c)"
proof -
  note copy = copy_bits [OF assms(2,3), of 2 m w] copy_bits [OF assms(2,3), of 1 m w] copy_bits [OF assms(2,3), of 0 m w]
  have "c \<in> {CHR ''r'', CHR ''w'', CHR ''x'', CHR ''u'', CHR ''g'', CHR ''o'', CHR ''X'', CHR ''s'', CHR ''t''}"
    using assms(1) by (auto simp: perm_ok_def)
  then show ?thesis using assms copy
    by (elim insertE emptyE)
       (auto simp: perm_ok_def perm_token_def grants_def perm_bits should_apply_x class_char_def)
qed

lemma token_special_bits:
  assumes "perm_ok ps c" and "k < 3" and "sticky_bit ps = 0x200"
  shows "bit (snd (the (perm_token ps m w c))) (perm_bit k 3) = (who_of w k \<and> grants ps (perms_of m) k 3 c)"
proof -
  have "c \<in> {CHR ''r'', CHR ''w'', CHR ''x'', CHR ''u'', CHR ''g'', CHR ''o'', CHR ''X'', CHR ''s'', CHR ''t''}"
    using assms(1) by (auto simp: perm_ok_def)
  then show ?thesis using assms(1,3) below3 [OF assms(2)]
    by (elim insertE emptyE disjE)
       (auto simp: perm_ok_def perm_token_def grants_def perm_bit_def who_of_def special_allowed_def bit_or_iff bit_if)
qed

section \<open>The effect of a clause\<close>

lemma below4_cases: "p < 4 \<Longrightarrow> p = 0 \<or> p = 1 \<or> p = 2 \<or> p = (3 :: nat)" by auto

lemma rwx_mask_bits: "k < 3 \<Longrightarrow> p < 4 \<Longrightarrow> bit (bx_mode_rwx_mask_from_who w) (perm_bit k p) = (p < 3 \<and> who_of w k)"
  by (drule below3, drule below4_cases, elim disjE)
     (simp_all add: bx_mode_rwx_mask_from_who_def perm_bit_def who_of_def bit_or_iff bit_if)

lemma special_mask_bits:
  "sticky_bit ps = 0x200 \<Longrightarrow> k < 3 \<Longrightarrow> p < 4 \<Longrightarrow>
   bit (bx_mode_special_mask_from_who ps w) (perm_bit k p) = (p = 3 \<and> who_of w k \<and> special_allowed ps k)"
  by (drule below3, drule below4_cases, elim disjE)
     (simp_all add: bx_mode_special_mask_from_who_def perm_bit_def who_of_def special_allowed_def bit_or_iff bit_if, auto)

lemma all_rwx_bits: "k < 3 \<Longrightarrow> p < 4 \<Longrightarrow> bit (0x1FF :: mode_t) (perm_bit k p) = (p < 3)"
  by (drule below3, drule below4_cases, elim disjE) (simp_all add: perm_bit_def)

lemma perm_bit_lt: "k < 3 \<Longrightarrow> p < 4 \<Longrightarrow> perm_bit k p < 32"
  by (simp add: perm_bit_def)

lemma token_special_low:
  assumes "perm_ok ps c" and "k < 3" and "p < 3" and "sticky_bit ps = 0x200"
  shows "\<not> bit (snd (the (perm_token ps m w c))) (perm_bit k p)"
proof -
  have c: "c \<in> {CHR ''r'', CHR ''w'', CHR ''x'', CHR ''u'', CHR ''g'', CHR ''o'', CHR ''X'', CHR ''s'', CHR ''t''}"
    using assms(1) by (auto simp: perm_ok_def)
  have "\<not> bit (0x800 :: mode_t) (perm_bit k p)" "\<not> bit (0x400 :: mode_t) (perm_bit k p)" "\<not> bit (0x200 :: mode_t) (perm_bit k p)"
    using below3 [OF assms(2)] below3 [OF assms(3)] by (elim disjE; simp add: perm_bit_def)+
  with c show ?thesis using assms(1,4)
    by (elim insertE emptyE) (auto simp: perm_ok_def perm_token_def bit_or_iff bit_if)
qed

lemma who_all: "who_of WHO_ALL k"
  by (simp add: who_of_def WHO_ALL_def)

lemma apply_clause_bits:
  assumes k: "k < 3" and p: "p < 4" and st: "sticky_bit ps = 0x200" and w: "\<not> specified \<longrightarrow> w = WHO_ALL"
    and op: "op \<in> {CHR ''+'', CHR ''-'', CHR ''=''}"
    and R: "p < 3 \<Longrightarrow> bit rwx (perm_bit k p) = (who_of w k \<and> G)"
    and S: "bit special (perm_bit k p) = (p = 3 \<and> who_of w k \<and> G)"
    and GA: "G \<Longrightarrow> p = 3 \<Longrightarrow> special_allowed ps k"
  shows "bit (apply_clause ps w specified op rwx special m) (perm_bit k p) =
    (let given = (who_of w k \<and> \<not> (\<not> specified \<and> apply_umask_when_who_omitted ps \<and> p < 3 \<and> perms_of (umask_value ps) k p) \<and> G)
     in if op = CHR ''+'' then perms_of m k p \<or> given
        else if op = CHR ''-'' then perms_of m k p \<and> \<not> given
        else if who_of w k \<and> (p < 3 \<or> special_allowed ps k) then given else perms_of m k p)"
proof -
  define masked where "masked \<longleftrightarrow> \<not> specified \<and> apply_umask_when_who_omitted ps \<and> p < 3 \<and> perms_of (umask_value ps) k p"
  define aff where "aff = (if \<not> specified \<and> apply_umask_when_who_omitted ps
    then bx_mode_rwx_mask_from_who w AND (NOT (umask_value ps) AND 0x1FF) else bx_mode_rwx_mask_from_who w)"
  define clear where "clear = (if op = CHR ''='' \<and> \<not> specified then S_IRWXU OR S_IRWXG OR S_IRWXO else aff)"
  define spec where "spec = (if specified then bx_mode_special_mask_from_who ps w else bx_mode_full_special_mask ps)"
  have not: "bit (NOT v) (perm_bit k p) = (\<not> bit v (perm_bit k p))" for v :: mode_t
    using perm_bit_lt [OF k p] by (simp add: bit_not_iff)
  have aff: "bit aff (perm_bit k p) = (p < 3 \<and> who_of w k \<and> \<not> masked)"
    using rwx_mask_bits [OF k p, of w] all_rwx_bits [OF k p]
    by (auto simp: aff_def masked_def bit_and_iff not perms_of_def)
  have clear: "bit clear (perm_bit k p) = (if op = CHR ''='' \<and> \<not> specified then p < 3 else bit aff (perm_bit k p))"
    using all_rwx_bits [OF k p] by (simp add: clear_def)
  have spec: "bit spec (perm_bit k p) = (p = 3 \<and> who_of w k \<and> special_allowed ps k)"
    using special_mask_bits [OF st k p] w who_all by (simp add: spec_def bx_mode_full_special_mask_def)
  define app where "app = rwx AND aff"
  have eq: "apply_clause ps w specified op rwx special m =
      (if op = CHR ''+'' then m OR app OR special
       else if op = CHR ''-'' then m AND NOT app AND NOT special
       else (m AND NOT clear AND NOT spec) OR app OR special)"
    by (simp add: apply_clause_def Let_def aff_def clear_def spec_def app_def)
  have RG: "bit app (perm_bit k p) = (p < 3 \<and> who_of w k \<and> \<not> masked \<and> G)"
    using R aff by (auto simp: app_def bit_and_iff)
  have p3: "(p = 3) = (\<not> p < 3)" using p by auto
  have m3: "masked \<Longrightarrow> p < 3 \<and> \<not> specified" by (simp add: masked_def)
  have b: "bit (m OR app OR special) (perm_bit k p) = (perms_of m k p \<or> (who_of w k \<and> \<not> masked \<and> G))"
    "bit (m AND NOT app AND NOT special) (perm_bit k p) = (perms_of m k p \<and> \<not> (who_of w k \<and> \<not> masked \<and> G))"
    "bit ((m AND NOT clear AND NOT spec) OR app OR special) (perm_bit k p) =
      (perms_of m k p \<and> \<not> bit clear (perm_bit k p) \<and> \<not> bit spec (perm_bit k p) \<or> who_of w k \<and> \<not> masked \<and> G)"
    unfolding bit_or_iff RG S perms_of_def bit_and_iff [of m] bit_and_iff [of "m AND _"] bit_and_iff [of "NOT _"] not
    using p3 m3 by blast+
  show ?thesis
    unfolding masked_def [symmetric] Let_def eq
    using op w who_all [of k] m3 p3 GA
    by (elim insertE emptyE) (auto simp add: b spec clear aff)
qed


text \<open>Reading the text of one clause, in any place of the operand.\<close>

lemma parse_clause_text:
  assumes ok: "clause_ok ps cl" and st: "sticky_bit ps = 0x200" and rest: "rest = [] \<or> hd rest = CHR '','' "
  shows "\<exists>m'. parse_clause ps m (clause_text cl @ rest) = Some (m', rest) \<and>
    (\<forall>k < 3. \<forall>p < 4. perms_of m' k p = spec_clause ps cl (perms_of m) k p)"
proof -
  let ?who = "cl_who cl" and ?op = "cl_op cl" and ?perms = "cl_perms cl"
  have who: "list_all (\<lambda>c. c \<in> {CHR ''u'', CHR ''g'', CHR ''o'', CHR ''a''}) ?who"
    and op: "?op \<in> {CHR ''+'', CHR ''-'', CHR ''=''}" and perms: "list_all (perm_ok ps) ?perms"
    and ne: "?op \<noteq> CHR ''='' \<longrightarrow> ?perms \<noteq> []"
    using ok by (simp_all add: clause_ok_def)
  define w where "w = (if ?who = [] then WHO_ALL else
    \<lparr>who_u = CHR ''a'' \<in> set ?who \<or> CHR ''u'' \<in> set ?who, who_g = CHR ''a'' \<in> set ?who \<or> CHR ''g'' \<in> set ?who,
     who_o = CHR ''a'' \<in> set ?who \<or> CHR ''o'' \<in> set ?who\<rparr>)"
  have wk: "who_of w k = (?who = [] \<or> CHR ''a'' \<in> set ?who \<or> class_char k \<in> set ?who)" if "k < 3" for k
    using below3 [OF that] by (elim disjE) (auto simp: w_def who_of_def WHO_ALL_def class_char_def)
  obtain rwx special where loop: "perm_loop ps m w (?perms @ rest) 0 0 False = Some (rwx, special, ?perms \<noteq> [], rest)"
    and R: "\<And>n. bit rwx n = list_ex (\<lambda>c. bit (fst (the (perm_token ps m w c))) n) ?perms"
    and S: "\<And>n. bit special n = list_ex (\<lambda>c. bit (snd (the (perm_token ps m w c))) n) ?perms"
    using perm_loop_text [OF perms rest, of m w 0 0 False] by auto
  have first: "?perms = [] \<or> hd ?perms \<notin> {CHR '','', CHR ''+'', CHR ''-'', CHR ''=''}"
    using perms by (cases ?perms) (auto simp: perm_ok_def)
  have first': "?perms @ rest \<noteq> [] \<longrightarrow> hd (?perms @ rest) \<notin> {CHR ''+'', CHR ''-'', CHR ''=''}"
    using first rest by (cases ?perms; cases rest) auto
  have wl: "who_loop (?who @ ?op # ?perms @ rest) \<lparr>who_u = False, who_g = False, who_o = False\<rparr> False =
      (if ?who = [] then \<lparr>who_u = False, who_g = False, who_o = False\<rparr> else w, ?who \<noteq> [], ?op # ?perms @ rest)"
    using who_loop_text [OF who op] by (simp add: w_def)
  have weq: "(if ?who \<noteq> [] then (if ?who = [] then \<lparr>who_u = False, who_g = False, who_o = False\<rparr> else w) else WHO_ALL) = w"
    by (simp add: w_def)
  have guard: "\<not> ((?op \<noteq> CHR ''='' \<and> (?perms @ rest = [] \<or> hd (?perms @ rest) = CHR '','')) \<or>
      (?perms @ rest \<noteq> [] \<and> (hd (?perms @ rest) = CHR ''+'' \<or> hd (?perms @ rest) = CHR ''-'' \<or> hd (?perms @ rest) = CHR ''='')))"
    using ne first first' by (cases "?perms") auto
  let ?m' = "apply_clause ps w (?who \<noteq> []) ?op rwx special m"
  have run: "parse_clause ps m (clause_text cl @ rest) = Some (?m', rest)"
    unfolding parse_clause_def clause_text_def append_assoc append_Cons wl prod.case Let_def weq list.case
    using op guard loop ne by auto
  have "perms_of ?m' k p = spec_clause ps cl (perms_of m) k p" if k: "k < 3" and p: "p < 4" for k p
  proof -
    let ?G = "list_ex (grants ps (perms_of m) k p) ?perms"
    have tok: "perm_ok ps c" if "c \<in> set ?perms" for c using perms that by (simp add: list_all_iff)
    have "bit rwx (perm_bit k p) = (who_of w k \<and> ?G)" if "p < 3"
      unfolding R using token_bits [OF tok k that] by (auto simp: list_ex_iff)
    moreover have "bit special (perm_bit k p) = (p = 3 \<and> who_of w k \<and> ?G)"
    proof (cases "p = 3")
      case True
      show ?thesis unfolding S True using token_special_bits [OF tok k st] by (auto simp: list_ex_iff)
    next
      case False
      then have "p < 3" using p by simp
      then show ?thesis unfolding S using token_special_low [OF tok k _ st] by (auto simp: list_ex_iff)
    qed
    moreover have "special_allowed ps k" if "?G" "p = 3"
      using that tok by (auto simp: list_ex_iff grants_def perm_ok_def special_allowed_def)
    moreover have "\<not> ?who \<noteq> [] \<longrightarrow> w = WHO_ALL" by (simp add: w_def)
    ultimately show ?thesis
      using apply_clause_bits [OF k p st _ op, of "?who \<noteq> []" w rwx ?G special m]
      unfolding perms_of_def [of ?m'] spec_clause_def Let_def wk [OF k] by simp
  qed
  then show ?thesis using run by blast
qed


section \<open>The whole operand\<close>

lemma grants_cong:
  assumes "\<forall>k < 3. \<forall>p < 4. f k p = g k p" and "p < 4"
  shows "grants ps f k p c = grants ps g k p c"
proof -
  have "f i q = g i q" if "i \<in> {0, 1, 2}" "q < 4" for i q using assms(1) that by auto
  then show ?thesis using assms(2) unfolding grants_def x_applies_def by auto
qed

lemma spec_clause_cong:
  assumes "\<forall>k < 3. \<forall>p < 4. f k p = g k p" and "k < 3" and "p < 4"
  shows "spec_clause ps cl f k p = spec_clause ps cl g k p"
proof -
  have "grants ps f k p = grants ps g k p" using grants_cong [OF assms(1,3)] by (simp add: fun_eq_iff)
  moreover have "f k p = g k p" using assms by simp
  ultimately show ?thesis unfolding spec_clause_def by simp
qed

lemma fold_spec_cong:
  assumes "\<forall>k < 3. \<forall>p < 4. f k p = g k p" and "k < 3" and "p < 4"
  shows "fold (spec_clause ps) cls f k p = fold (spec_clause ps) cls g k p"
  using assms(1)
proof (induction cls arbitrary: f g)
  case (Cons cl cls)
  from Cons.IH [of "spec_clause ps cl f" "spec_clause ps cl g"] spec_clause_cong [OF Cons.prems] show ?case by simp
qed (use assms in simp)

lemma clauses_text_Cons: "cls \<noteq> [] \<Longrightarrow> clauses_text (cl # cls) = clause_text cl @ CHR '','' # clauses_text cls"
  by (cases cls) simp_all

lemma clauses_text_start:
  assumes "list_all (clause_ok ps) cls" and "cls \<noteq> []"
  shows "clauses_text cls \<noteq> [] \<and> hd (clauses_text cls) \<noteq> CHR '','' \<and> hd (clauses_text cls) \<notin> {c. is_octal c}"
proof -
  obtain cl rest where cls: "cls = cl # rest" using assms(2) by (cases cls) auto
  have "clauses_text cls = clause_text cl @ (if rest = [] then [] else CHR '','' # clauses_text rest)"
    using clauses_text_Cons [of rest cl] by (simp add: cls)
  moreover have "clause_text cl \<noteq> [] \<and> hd (clause_text cl) \<in> {CHR ''u'', CHR ''g'', CHR ''o'', CHR ''a'', CHR ''+'', CHR ''-'', CHR ''=''}"
    using assms(1) cls by (cases "cl_who cl") (auto simp: clause_ok_def clause_text_def)
  ultimately show ?thesis by (auto simp: is_octal_def)
qed

lemma parse_clauses_text:
  assumes "list_all (clause_ok ps) cls" and "sticky_bit ps = 0x200"
  shows "\<exists>m'. parse_clauses ps m (clauses_text cls) = Some m' \<and>
    (\<forall>k < 3. \<forall>p < 4. perms_of m' k p = fold (spec_clause ps) cls (perms_of m) k p)"
  using assms(1)
proof (induction cls arbitrary: m)
  case Nil
  then show ?case by (simp add: parse_clauses.simps)
next
  case (Cons cl cls)
  let ?rest = "if cls = [] then [] else CHR '','' # clauses_text cls"
  have ct: "clauses_text (cl # cls) = clause_text cl @ ?rest" using clauses_text_Cons [of cls cl] by simp
  have ne: "clause_text cl @ ?rest \<noteq> []" by (simp add: clause_text_def)
  from Cons.prems have "clause_ok ps cl" by simp
  moreover have "?rest = [] \<or> hd ?rest = CHR '','' " by simp
  ultimately have "\<exists>m1. parse_clause ps m (clause_text cl @ ?rest) = Some (m1, ?rest) \<and>
      (\<forall>k < 3. \<forall>p < 4. perms_of m1 k p = spec_clause ps cl (perms_of m) k p)"
    by (rule parse_clause_text [OF _ assms(2)])
  then obtain m1 where
    m1: "parse_clause ps m (clause_text cl @ ?rest) = Some (m1, ?rest)"
    "\<forall>k < 3. \<forall>p < 4. perms_of m1 k p = spec_clause ps cl (perms_of m) k p" by blast
  from Cons.IH [of m1] Cons.prems obtain m2 where
    m2: "parse_clauses ps m1 (clauses_text cls) = Some m2"
    "\<forall>k < 3. \<forall>p < 4. perms_of m2 k p = fold (spec_clause ps) cls (perms_of m1) k p" by auto
  have "parse_clauses ps m (clauses_text (cl # cls)) = Some m2"
  proof (cases "cls = []")
    case True
    then show ?thesis using m1(1) m2(1) ne unfolding ct
      by (subst parse_clauses.simps) (simp add: parse_clauses.simps [of ps m1 "[]"])
  next
    case False
    have "clauses_text cls \<noteq> [] \<and> hd (clauses_text cls) \<noteq> CHR '','' "
      using clauses_text_start [of ps cls] Cons.prems False by simp
    then show ?thesis using m1(1) m2(1) ne False unfolding ct by (subst parse_clauses.simps) simp
  qed
  moreover have "perms_of m2 k p = fold (spec_clause ps) (cl # cls) (perms_of m) k p" if "k < 3" "p < 4" for k p
    using m2(2) that fold_spec_cong [OF m1(2) that, of ps cls] by simp
  ultimately show ?case by blast
qed


text \<open>Whatever is accepted is the text of clauses.\<close>

lemma who_loop_split:
  "who_loop cs w b = (w', b', rest) \<Longrightarrow>
   \<exists>who. cs = who @ rest \<and> list_all (\<lambda>c. c \<in> {CHR ''u'', CHR ''g'', CHR ''o'', CHR ''a''}) who"
proof (induction cs w b rule: who_loop.induct)
  case (2 c cs w b)
  show ?case
  proof (cases "c \<in> {CHR ''u'', CHR ''g'', CHR ''o'', CHR ''a''}")
    case True
    with 2 obtain who where "cs = who @ rest" "list_all (\<lambda>c. c \<in> {CHR ''u'', CHR ''g'', CHR ''o'', CHR ''a''}) who"
      by (auto split: if_splits)
    then show ?thesis using True by (intro exI [of _ "c # who"]) simp
  next
    case False
    with 2(5) have "rest = c # cs" by auto
    then show ?thesis by (intro exI [of _ "[]"]) simp
  qed
qed simp

lemma perm_token_ok: "perm_token ps m w c = Some t \<Longrightarrow> perm_ok ps c"
  by (auto simp: perm_token_def perm_ok_def split: if_splits)

lemma perm_loop_split:
  "perm_loop ps m w cs rwx special saw = Some (rwx', special', saw', rest) \<Longrightarrow>
   \<exists>perms. cs = perms @ rest \<and> list_all (perm_ok ps) perms \<and> saw' = (saw \<or> perms \<noteq> []) \<and> (rest = [] \<or> hd rest = CHR '','')"
proof (induction ps m w cs rwx special saw rule: perm_loop.induct)
  case (2 ps m w c cs rwx special saw)
  show ?case
  proof (cases "c = CHR '','' ")
    case True
    then show ?thesis using "2.prems" by (intro exI [of _ "[]"]) auto
  next
    case False
    with "2.prems" obtain b s where t: "perm_token ps m w c = Some (b, s)"
      and r: "perm_loop ps m w cs (rwx OR b) (special OR s) True = Some (rwx', special', saw', rest)"
      by (auto split: option.splits)
    from "2.IH" [OF False t refl r] obtain perms where
      "cs = perms @ rest \<and> list_all (perm_ok ps) perms \<and> saw' \<and> (rest = [] \<or> hd rest = CHR '','')" by auto
    then show ?thesis using perm_token_ok [OF t] by (intro exI [of _ "c # perms"]) simp
  qed
qed simp

lemma parse_clause_split:
  assumes "parse_clause ps m text = Some (m', rest)"
  shows "\<exists>cl. clause_ok ps cl \<and> text = clause_text cl @ rest \<and> (rest = [] \<or> hd rest = CHR '','')"
proof -
  obtain w0 sp p where wl: "who_loop text \<lparr>who_u = False, who_g = False, who_o = False\<rparr> False = (w0, sp, p)"
    by (cases "who_loop text \<lparr>who_u = False, who_g = False, who_o = False\<rparr> False")
  from who_loop_split [OF wl] obtain who where who: "text = who @ p"
    "list_all (\<lambda>c. c \<in> {CHR ''u'', CHR ''g'', CHR ''o'', CHR ''a''}) who" by auto
  let ?w = "if sp then w0 else WHO_ALL"
  from assms obtain op q rwx special saw where p: "p = op # q" and op: "op \<in> {CHR ''+'', CHR ''-'', CHR ''=''}"
    and pl: "perm_loop ps m ?w q 0 0 False = Some (rwx, special, saw, rest)" and saw: "saw \<or> op = CHR ''='' "
    unfolding parse_clause_def wl prod.case Let_def
    by (cases p) (auto split: if_splits option.splits)
  from perm_loop_split [OF pl] obtain perms where
    "q = perms @ rest" "list_all (perm_ok ps) perms" "saw = (perms \<noteq> [])" "rest = [] \<or> hd rest = CHR '','' " by auto
  then show ?thesis using who p op saw
    by (intro exI [of _ "\<lparr>cl_who = who, cl_op = op, cl_perms = perms\<rparr>"]) (auto simp: clause_ok_def clause_text_def)
qed

lemma parse_clauses_split:
  "parse_clauses ps m s = Some m' \<Longrightarrow> s \<noteq> [] \<Longrightarrow> \<exists>cls. cls \<noteq> [] \<and> list_all (clause_ok ps) cls \<and> s = clauses_text cls"
proof (induction ps m s rule: parse_clauses.induct)
  case (1 ps m s)
  from "1.prems" obtain m1 rest where c: "parse_clause ps m s = Some (m1, rest)"
    by (subst (asm) parse_clauses.simps) (auto split: option.splits)
  from parse_clause_split [OF c] obtain cl where cl: "clause_ok ps cl" "s = clause_text cl @ rest"
    "rest = [] \<or> hd rest = CHR '','' " by auto
  show ?case
  proof (cases rest)
    case Nil
    then show ?thesis using cl by (intro exI [of _ "[cl]"]) simp
  next
    case (Cons x rest')
    with cl(3) have x: "x = CHR '','' " by simp
    have r: "\<not> (rest' = [] \<or> hd rest' = CHR '','')" "parse_clauses ps m1 rest' = Some m'"
      using "1.prems" c Cons x by (subst (asm) parse_clauses.simps, simp split: if_splits)+
    from r(1) have "rest' \<noteq> []" by blast
    from "1.IH"(1) [OF "1.prems"(2) c refl Cons x r this] obtain cls where
      "cls \<noteq> []" "list_all (clause_ok ps) cls" "rest' = clauses_text cls" by blast
    then show ?thesis using cl Cons x clauses_text_Cons [of cls cl] by (intro exI [of _ "cl # cls"]) simp
  qed
qed

text \<open>
  C14: an operand made of valid clauses is accepted, and gives every permission of every class, the
  set-ID and sticky bits included, exactly what its clauses say, read from left to right: who
  selects the classes, without it all are selected and the umask filters, \<open>X\<close>, \<open>u\<close>, \<open>g\<close> and \<open>o\<close> look
  at the mode that the clause finds, and bits outside the result mask are dropped.
\<close>

theorem mode_symbolic_semantics:
  assumes "list_all (clause_ok ps) cls" and "cls \<noteq> []" and "sticky_bit ps = 0x200"
  shows "\<exists>m. bx_mode_parse (Some (clauses_text cls)) ps = Some m \<and>
    (\<forall>k < 3. \<forall>p < 4. perms_of m k p =
      (fold (spec_clause ps) cls (perms_of (initial_mode ps AND result_mask ps)) k p \<and> perms_of (result_mask ps) k p))"
proof -
  from parse_clauses_text [OF assms(1,3), of "initial_mode ps AND result_mask ps"] obtain m where
    m: "parse_clauses ps (initial_mode ps AND result_mask ps) (clauses_text cls) = Some m"
    "\<forall>k < 3. \<forall>p < 4. perms_of m k p = fold (spec_clause ps) cls (perms_of (initial_mode ps AND result_mask ps)) k p"
    by blast
  have start: "clauses_text cls \<noteq> []" "hd (clauses_text cls) \<notin> {c. is_octal c}"
    using clauses_text_start [OF assms(1,2)] by blast+
  then have "\<not> bx_mode_is_octal_string (Some (clauses_text cls))"
    by (cases "clauses_text cls") (auto simp: bx_mode_is_octal_string_def is_octal_def not_less)
  then have "bx_mode_parse (Some (clauses_text cls)) ps = Some (m AND result_mask ps)"
    using start m(1) by (simp add: bx_mode_parse_def bx_mode_parse_symbolic_def)
  then show ?thesis using m(2) by (intro exI [of _ "m AND result_mask ps"]) (simp add: perms_of_def bit_and_iff)
qed

definition chmod_params :: bx_mode_parse_params where
  "chmod_params = \<lparr>initial_mode = 0x1A4, result_mask = 0xFFF, max_numeric_mode = 0xFFF, umask_value = 0x12, sticky_bit = 0x200,
     x_policy = X_IF_DIRECTORY_OR_ANY_EXEC, is_directory = False, apply_umask_when_who_omitted = True,
     allow_setuid = True, allow_setgid = True, allow_sticky = True\<rparr>"

definition chmod_clauses :: "clause list" where
  "chmod_clauses = [\<lparr>cl_who = ''u'', cl_op = CHR ''+'', cl_perms = ''xs''\<rparr>, \<lparr>cl_who = ''go'', cl_op = CHR ''='', cl_perms = ''u''\<rparr>]"

lemma mode_symbolic_semantics_witness:
  "\<exists>m. bx_mode_parse (Some ''u+xs,go=u'') chmod_params = Some m \<and>
    map (\<lambda>(k, p). perms_of m k p) (List.product [0..<3] [0..<4]) =
    map (\<lambda>(k, p). fold (spec_clause chmod_params) chmod_clauses (perms_of (0x1A4 AND 0xFFF)) k p \<and> perms_of 0xFFF k p)
      (List.product [0..<3] [0..<4])"
proof -
  have "list_all (clause_ok chmod_params) chmod_clauses"
    by (simp add: chmod_clauses_def clause_ok_def perm_ok_def chmod_params_def)
  then obtain m where m: "bx_mode_parse (Some (clauses_text chmod_clauses)) chmod_params = Some m"
    "\<forall>k < 3. \<forall>p < 4. perms_of m k p = (fold (spec_clause chmod_params) chmod_clauses
       (perms_of (initial_mode chmod_params AND result_mask chmod_params)) k p \<and> perms_of (result_mask chmod_params) k p)"
    using mode_symbolic_semantics [of chmod_params chmod_clauses] by (auto simp: chmod_clauses_def chmod_params_def)
  have "clauses_text chmod_clauses = ''u+xs,go=u''" by (simp add: chmod_clauses_def clause_text_def)
  moreover have "initial_mode chmod_params = 0x1A4" "result_mask chmod_params = 0xFFF" by (simp_all add: chmod_params_def)
  ultimately show ?thesis using m by (intro exI [of _ m]) (auto simp del: upt_rec_numeral)
qed

text \<open>
  C15: the symbolic parser accepts exactly the non-empty lists of valid clauses: any other text,
  whatever is wrong with it, is refused.
\<close>

theorem mode_symbolic_language:
  assumes "sticky_bit ps = 0x200"
  shows "bx_mode_parse_symbolic (Some s) ps \<noteq> None \<longleftrightarrow> s \<in> clauses_text ` {cls. cls \<noteq> [] \<and> list_all (clause_ok ps) cls}"
proof
  assume "bx_mode_parse_symbolic (Some s) ps \<noteq> None"
  then obtain m where "s \<noteq> []" "parse_clauses ps (initial_mode ps AND result_mask ps) s = Some m"
    by (auto simp: bx_mode_parse_symbolic_def split: if_splits option.splits)
  then show "s \<in> clauses_text ` {cls. cls \<noteq> [] \<and> list_all (clause_ok ps) cls}" using parse_clauses_split by blast
next
  assume "s \<in> clauses_text ` {cls. cls \<noteq> [] \<and> list_all (clause_ok ps) cls}"
  then obtain cls where cls: "cls \<noteq> []" "list_all (clause_ok ps) cls" "s = clauses_text cls" by blast
  then have "s \<noteq> []" using clauses_text_start [of ps cls] by simp
  then show "bx_mode_parse_symbolic (Some s) ps \<noteq> None"
    using parse_clauses_text [OF cls(2) assms, of "initial_mode ps AND result_mask ps"] cls(3)
    by (auto simp: bx_mode_parse_symbolic_def)
qed

lemma mode_symbolic_language_witness:
  "bx_mode_parse_symbolic (Some ''u+'') chmod_params \<noteq> None \<longleftrightarrow>
   ''u+'' \<in> clauses_text ` {cls. cls \<noteq> [] \<and> list_all (clause_ok chmod_params) cls}"
  by (rule mode_symbolic_language) (simp add: chmod_params_def)

section \<open>Octal modes\<close>

lemma octal_not_space: "is_octal c \<Longrightarrow> \<not> c_isspace c \<and> c \<noteq> CHR ''-'' \<and> c \<noteq> CHR ''+''"
  by (auto simp: is_octal_def c_isspace_def less_eq_char_def)

lemma octal_all: "list_all is_octal s \<Longrightarrow> takeWhile is_octal s = s \<and> dropWhile is_octal s = []"
  by (induction s) auto

text \<open>
  A non-empty string of octal digits is accepted exactly when its value is at most the greatest
  mode allowed, however many digits it has, and then the mode is that value.
\<close>

lemma mode_numeric_exact:
  assumes "list_all is_octal s" and "s \<noteq> []"
  shows "bx_mode_parse (Some s) ps =
    (if octal_value s \<le> unat (max_numeric_mode ps) then Some (of_nat (octal_value s)) else None)"
proof -
  obtain c cs where s: "s = c # cs" using assms(2) by (cases s) auto
  have c: "\<not> c_isspace c" "c \<noteq> CHR ''-''" "c \<noteq> CHR ''+''" using octal_not_space [of c] assms(1) by (simp_all add: s)
  have oct: "bx_mode_is_octal_string (Some s)"
    using assms by (simp add: bx_mode_is_octal_string_def list_all_iff is_octal_def not_less)
  have run: "strtoumax_8 s = (if octal_value s \<ge> 2 ^ 64 then (UINTMAX_MAX, True, []) else (of_nat (octal_value s), False, []))"
    using c octal_all [OF assms(1)] by (simp add: strtoumax_8_def s Let_def)
  have max: "unat (ucast (max_numeric_mode ps) :: 64 word) = unat (max_numeric_mode ps)"
    using unat_lt2p [of "max_numeric_mode ps"] by (simp add: unsigned_ucast_eq take_bit_nat_eq_self_iff)
  have max32: "unat (max_numeric_mode ps) < 2 ^ 32" using unat_lt2p [of "max_numeric_mode ps"] by simp
  show ?thesis
  proof (cases "octal_value s \<ge> 2 ^ 64")
    case True
    then show ?thesis using oct run max32 assms(2) by (simp add: bx_mode_parse_def bx_mode_parse_numeric_def)
  next
    case False
    then have v: "unat (of_nat (octal_value s) :: 64 word) = octal_value s" by simp
    have gt: "(of_nat (octal_value s) :: 64 word) > ucast (max_numeric_mode ps) \<longleftrightarrow> unat (max_numeric_mode ps) < octal_value s"
      unfolding word_less_nat_alt max v by simp
    have "ucast (of_nat (octal_value s) :: 64 word) = (of_nat (octal_value s) :: 32 word)" if "octal_value s < 2 ^ 32"
      by (rule word_unat_eq_iff [THEN iffD2]) (use that False in \<open>simp add: unsigned_ucast_eq unat_of_nat take_bit_nat_eq_self_iff\<close>)
    then show ?thesis using oct run max32 assms(2) False gt
      by (auto simp: bx_mode_parse_def bx_mode_parse_numeric_def not_less)
  qed
qed

lemma mode_numeric_exact_witness:
  "bx_mode_parse (Some ''0755'') chmod_params =
    (if octal_value ''0755'' \<le> unat (max_numeric_mode chmod_params) then Some (of_nat (octal_value ''0755'')) else None)"
  by (rule mode_numeric_exact) (simp_all add: is_octal_def)

end
