(* ===== verification/OutputQuote.thy ===== *)
theory OutputQuote
  imports Prelude
begin

text \<open>
  \<open>src/src/lib/output_quote.c\<close>: the quoting styles of file names in listings and messages. A
  function that fills a buffer from \<open>out_pos\<close> on is the text that it appends; the buffers and their
  capacities come back in the bounds. \<open>isprint\<close> and \<open>isalnum\<close> are those of the C locale, which
  they also are for single bytes in a UTF-8 locale. \<open>bx_fatal\<close> and \<open>xmalloc\<close> end the process and
  have no branch; \<open>fputc\<close> and \<open>fputs\<close> can fail at any call. The allocation counters are left out.
\<close>

section \<open>Characters\<close>

abbreviation code :: "char \<Rightarrow> nat" where
  "code c \<equiv> of_char c"

definition c_isprint :: "char \<Rightarrow> bool" where
  "c_isprint c \<longleftrightarrow> 32 \<le> code c \<and> code c \<le> 126"

definition c_isalnum :: "char \<Rightarrow> bool" where
  "c_isalnum c \<longleftrightarrow> (48 \<le> code c \<and> code c \<le> 57) \<or> (65 \<le> code c \<and> code c \<le> 90) \<or> (97 \<le> code c \<and> code c \<le> 122)"

definition bx_output_quote_is_nongraphic :: "char \<Rightarrow> bool" where
  "bx_output_quote_is_nongraphic ch \<longleftrightarrow> \<not> c_isprint ch"

abbreviation BSL :: char where "BSL \<equiv> CHR 0x5C"
abbreviation SQ :: char where "SQ \<equiv> CHR 0x27"
abbreviation DQ :: char where "DQ \<equiv> CHR 0x22"

section \<open>Writing in single quotes\<close>

text \<open>The stream is the function that says whether the next write succeeds; the text written so far is returned.\<close>

fun write_single_body :: "(nat \<Rightarrow> bool) \<Rightarrow> nat \<Rightarrow> string \<Rightarrow> string \<Rightarrow> (nat \<times> string) option" where
  "write_single_body ok n out [] = Some (n, out)"
| "write_single_body ok n out (c # cs) =
     (if \<not> ok n then None
      else write_single_body ok (n + 1) (out @ (if c = SQ then [SQ, BSL, SQ, SQ] else [c])) cs)"

definition bx_output_quote_write_single :: "(nat \<Rightarrow> bool) \<Rightarrow> string \<Rightarrow> string option" where
  "bx_output_quote_write_single ok s =
     (if \<not> ok 0 then None
      else case write_single_body ok 1 [SQ] s of
          None \<Rightarrow> None
        | Some (n, out) \<Rightarrow> if \<not> ok n then None else Some (out @ [SQ]))"

section \<open>Capacities\<close>

definition bx_output_quote_capacity_checked :: "nat \<Rightarrow> nat \<Rightarrow> nat \<Rightarrow> nat option" where
  "bx_output_quote_capacity_checked len multiplier extra =
     (if multiplier \<noteq> 0 \<and> len > (size_max - extra) div multiplier then None else Some (len * multiplier + extra))"

section \<open>Escapes\<close>

definition octal_digit :: "nat \<Rightarrow> char" where
  "octal_digit d = char_of (48 + d)"

definition bx_output_quote_append_octal :: "char \<Rightarrow> string" where
  "bx_output_quote_append_octal ch =
     [BSL, octal_digit (code ch div 64 mod 8), octal_digit (code ch div 8 mod 8), octal_digit (code ch mod 8)]"

definition bx_output_quote_append_escape_char :: "char \<Rightarrow> bool \<Rightarrow> bool \<Rightarrow> bool \<Rightarrow> string" where
  "bx_output_quote_append_escape_char ch escape_space escape_double_quote escape_single_quote =
     (if ch = CHR '' '' then (if escape_space then [BSL] else []) @ [CHR '' '']
      else if ch = BSL then [BSL, BSL]
      else if ch = DQ then (if escape_double_quote then [BSL] else []) @ [DQ]
      else if ch = SQ then (if escape_single_quote then [BSL] else []) @ [SQ]
      else if ch = CHR 0x07 then [BSL, CHR ''a'']
      else if ch = CHR 0x08 then [BSL, CHR ''b'']
      else if ch = CHR 0x0C then [BSL, CHR ''f'']
      else if ch = CHR 0x0A then [BSL, CHR ''n'']
      else if ch = CHR 0x0D then [BSL, CHR ''r'']
      else if ch = CHR 0x09 then [BSL, CHR ''t'']
      else if ch = CHR 0x0B then [BSL, CHR ''v'']
      else if \<not> bx_output_quote_is_nongraphic ch then [ch]
      else bx_output_quote_append_octal ch)"

definition bx_output_quote_literal_dup :: "string \<Rightarrow> bool \<Rightarrow> string" where
  "bx_output_quote_literal_dup s hide_nongraphic =
     map (\<lambda>ch. if hide_nongraphic \<and> bx_output_quote_is_nongraphic ch then CHR ''?'' else ch) s"

definition bx_output_quote_escape_dup :: "string \<Rightarrow> string" where
  "bx_output_quote_escape_dup s = concat (map (\<lambda>ch. bx_output_quote_append_escape_char ch True False False) s)"

definition bx_output_quote_c_dup :: "string \<Rightarrow> string" where
  "bx_output_quote_c_dup s = DQ # concat (map (\<lambda>ch. bx_output_quote_append_escape_char ch False True False) s) @ [DQ]"

definition bx_output_quote_locale_dup :: "string \<Rightarrow> string" where
  "bx_output_quote_locale_dup s = SQ # concat (map (\<lambda>ch. bx_output_quote_append_escape_char ch False False True) s) @ [SQ]"

definition bx_output_quote_single_backslash_dup :: "string \<Rightarrow> string" where
  "bx_output_quote_single_backslash_dup s =
     SQ # concat (map (\<lambda>ch. if ch = SQ \<or> ch = BSL then [BSL, ch] else [ch]) s) @ [SQ]"

section \<open>The shell styles\<close>

definition bx_output_quote_shell_char_is_safe :: "char \<Rightarrow> bool" where
  "bx_output_quote_shell_char_is_safe ch \<longleftrightarrow>
     c_isalnum ch \<or> ch = CHR ''-'' \<or> ch = CHR ''_'' \<or> ch = CHR ''.'' \<or> ch = CHR ''/'' \<or> ch = CHR ''~''"

definition bx_output_quote_has_nongraphic :: "string \<Rightarrow> bool" where
  "bx_output_quote_has_nongraphic s \<longleftrightarrow> list_ex bx_output_quote_is_nongraphic s"

definition bx_output_quote_append_shell_double_quoted_segment :: "string \<Rightarrow> string" where
  "bx_output_quote_append_shell_double_quoted_segment s =
     DQ # concat (map (\<lambda>ch. if ch = DQ \<or> ch = BSL \<or> ch = CHR ''$'' \<or> ch = CHR 0x60 then [BSL, ch] else [ch]) s) @ [DQ]"

definition bx_output_quote_append_shell_single_quoted_segment :: "string \<Rightarrow> string" where
  "bx_output_quote_append_shell_single_quoted_segment s = SQ # s @ [SQ]"

definition bx_output_quote_append_shell_quoted_segment :: "string \<Rightarrow> bool \<Rightarrow> string" where
  "bx_output_quote_append_shell_quoted_segment s always_quote =
     (if \<not> always_quote \<and> list_all bx_output_quote_shell_char_is_safe s then s
      else if SQ \<notin> set s then bx_output_quote_append_shell_single_quoted_segment s
      else bx_output_quote_append_shell_double_quoted_segment s)"

definition bx_output_quote_shell_dup :: "string \<Rightarrow> bool \<Rightarrow> string" where
  "bx_output_quote_shell_dup s always_quote = bx_output_quote_append_shell_quoted_segment s always_quote"

definition bx_output_quote_append_shell_escape_fragment :: "char \<Rightarrow> string" where
  "bx_output_quote_append_shell_escape_fragment ch =
     [CHR ''$'', SQ] @ bx_output_quote_append_escape_char ch False False False @ [SQ]"

text \<open>The loop over the text, with the printable segment that has been passed but not written.\<close>

fun shell_escape_loop :: "string \<Rightarrow> string \<Rightarrow> string" where
  "shell_escape_loop segment [] =
     (if segment \<noteq> [] then bx_output_quote_append_shell_quoted_segment segment True else [])"
| "shell_escape_loop segment (ch # cs) =
     (if \<not> bx_output_quote_is_nongraphic ch then shell_escape_loop (segment @ [ch]) cs
      else (if segment \<noteq> [] then bx_output_quote_append_shell_quoted_segment segment True else []) @
           bx_output_quote_append_shell_escape_fragment ch @ shell_escape_loop [] cs)"

definition bx_output_quote_shell_escape_dup :: "string \<Rightarrow> bool \<Rightarrow> string" where
  "bx_output_quote_shell_escape_dup s always_quote =
     (if \<not> bx_output_quote_has_nongraphic s then bx_output_quote_shell_dup s always_quote
      else shell_escape_loop [] s)"

section \<open>The reusable style\<close>

definition bx_output_quote_reusable_shell_safe_char :: "char \<Rightarrow> bool" where
  "bx_output_quote_reusable_shell_safe_char ch \<longleftrightarrow> c_isalnum ch \<or> ch \<in> set ''%+,-./:@]_''"

fun reusable_safe_loop :: "nat \<Rightarrow> nat \<Rightarrow> string \<Rightarrow> bool" where
  "reusable_safe_loop text_len index [] = True"
| "reusable_safe_loop text_len index (ch # p) =
     (if (ch = CHR ''~'' \<or> ch = CHR ''#'') \<and> index > 0 then reusable_safe_loop text_len (index + 1) p
      else if (ch = CHR 0x7B \<or> ch = CHR 0x7D) \<and> text_len > 1 then reusable_safe_loop text_len (index + 1) p
      else if \<not> bx_output_quote_reusable_shell_safe_char ch then False
      else reusable_safe_loop text_len (index + 1) p)"

definition bx_output_quote_reusable_shell_safe_string :: "string \<Rightarrow> bool" where
  "bx_output_quote_reusable_shell_safe_string s \<longleftrightarrow> s \<noteq> [] \<and> reusable_safe_loop (length s) 0 s"

definition bx_output_quote_reusable_shell_double_quote_char :: "char \<Rightarrow> bool" where
  "bx_output_quote_reusable_shell_double_quote_char ch \<longleftrightarrow>
     ch = CHR '' '' \<or> ch = SQ \<or> bx_output_quote_reusable_shell_safe_char ch"

fun reusable_double_loop :: "nat \<Rightarrow> bool \<Rightarrow> string \<Rightarrow> bool" where
  "reusable_double_loop index has_single_quote [] = has_single_quote"
| "reusable_double_loop index has_single_quote (ch # p) =
     (if \<not> c_isprint ch then False
      else
        let has = (has_single_quote \<or> ch = SQ) in
        if (ch = CHR ''#'' \<or> ch = CHR ''~'') \<and> index = 0 then reusable_double_loop (index + 1) has p
        else if \<not> bx_output_quote_reusable_shell_double_quote_char ch then False
        else reusable_double_loop (index + 1) has p)"

definition bx_output_quote_reusable_shell_can_use_double_quotes :: "string \<Rightarrow> bool" where
  "bx_output_quote_reusable_shell_can_use_double_quotes s \<longleftrightarrow> reusable_double_loop 0 False s"

text \<open>Appending to a buffer of \<open>out_cap\<close> bytes that holds \<open>out\<close> and its NUL.\<close>

definition bx_output_quote_append_text :: "nat \<Rightarrow> string \<Rightarrow> string \<Rightarrow> string option" where
  "bx_output_quote_append_text out_cap s out =
     (if length out > out_cap \<or> length s \<ge> out_cap - length out then None else Some (out @ s))"

definition bx_output_quote_append_char :: "nat \<Rightarrow> char \<Rightarrow> string \<Rightarrow> string option" where
  "bx_output_quote_append_char out_cap ch out = (if length out + 1 \<ge> out_cap then None else Some (out @ [ch]))"

definition reusable_escape :: "char \<Rightarrow> string" where
  "reusable_escape ch =
     (if ch = CHR 0x07 then [BSL, CHR ''a''] else if ch = CHR 0x08 then [BSL, CHR ''b'']
      else if ch = CHR 0x09 then [BSL, CHR ''t''] else if ch = CHR 0x0A then [BSL, CHR ''n'']
      else if ch = CHR 0x0B then [BSL, CHR ''v''] else if ch = CHR 0x0C then [BSL, CHR ''f'']
      else if ch = CHR 0x0D then [BSL, CHR ''r''] else bx_output_quote_append_octal ch)"

definition bx_output_quote_append_reusable_shell_dollar_escape :: "nat \<Rightarrow> char \<Rightarrow> string \<Rightarrow> string option" where
  "bx_output_quote_append_reusable_shell_dollar_escape out_cap ch out =
     bx_output_quote_append_text out_cap (reusable_escape ch) out"

datatype shell_mode = MODE_NONE | MODE_SINGLE | MODE_DOLLAR

text \<open>A conditional append, and several in a row: the first that fails ends the call.\<close>

definition append_if :: "nat \<Rightarrow> bool \<Rightarrow> string \<Rightarrow> string option \<Rightarrow> string option" where
  "append_if out_cap b s r =
     (case r of None \<Rightarrow> None | Some out \<Rightarrow> if b then bx_output_quote_append_text out_cap s out else Some out)"

definition append_char_if :: "nat \<Rightarrow> bool \<Rightarrow> char \<Rightarrow> string option \<Rightarrow> string option" where
  "append_char_if out_cap b ch r =
     (case r of None \<Rightarrow> None | Some out \<Rightarrow> if b then bx_output_quote_append_char out_cap ch out else Some out)"

text \<open>The main loop, with the quoting mode and whether anything has been emitted.\<close>

fun reusable_loop :: "nat \<Rightarrow> string \<Rightarrow> shell_mode \<Rightarrow> bool \<Rightarrow> string option \<Rightarrow> string option" where
  "reusable_loop out_cap [] mode emitted r =
     append_if out_cap (\<not> emitted) [SQ, SQ] (append_char_if out_cap (mode \<noteq> MODE_NONE) SQ r)"
| "reusable_loop out_cap (ch # rest) mode emitted r =
     (if \<not> c_isprint ch then
        let r = append_char_if out_cap (mode = MODE_SINGLE) SQ r;
            r = append_if out_cap (mode \<noteq> MODE_DOLLAR \<and> \<not> emitted) [SQ, SQ] r;
            r = append_if out_cap (mode \<noteq> MODE_DOLLAR) [CHR ''$'', SQ] r;
            r = (case r of None \<Rightarrow> None | Some out \<Rightarrow> bx_output_quote_append_reusable_shell_dollar_escape out_cap ch out) in
        reusable_loop out_cap rest MODE_DOLLAR True r
      else
        let r = append_char_if out_cap (mode = MODE_DOLLAR) SQ r;
            mode = (if mode = MODE_DOLLAR then MODE_NONE else mode) in
        if ch = SQ then
          let r = append_char_if out_cap (mode = MODE_SINGLE) SQ r;
              r = append_if out_cap (\<not> emitted) [SQ, SQ] r;
              r = append_if out_cap True [BSL, SQ] r;
              next_is_printable_non_quote = (case rest of [] \<Rightarrow> False | c # _ \<Rightarrow> c \<noteq> SQ \<and> c_isprint c);
              r = append_if out_cap (\<not> next_is_printable_non_quote) [SQ, SQ] r in
          reusable_loop out_cap rest MODE_NONE True r
        else
          let r = append_char_if out_cap (mode \<noteq> MODE_SINGLE) SQ r;
              r = append_char_if out_cap True ch r in
          reusable_loop out_cap rest MODE_SINGLE True r)"

text \<open>\<open>alloc n\<close> tells whether \<open>malloc (n)\<close> succeeds.\<close>

definition bx_output_quote_shell_reusable_dup_impl :: "(nat \<Rightarrow> bool) \<Rightarrow> string \<Rightarrow> string option" where
  "bx_output_quote_shell_reusable_dup_impl alloc s =
     (if s = [] then (if alloc 3 then Some [SQ, SQ] else None)
      else if bx_output_quote_reusable_shell_safe_string s then (if alloc (length s + 1) then Some s else None)
      else if bx_output_quote_reusable_shell_can_use_double_quotes s then
        (case bx_output_quote_capacity_checked (length s) 1 3 of
           None \<Rightarrow> None
         | Some out_cap \<Rightarrow>
             if \<not> alloc out_cap then None
             else append_char_if out_cap True DQ (append_if out_cap True s (append_char_if out_cap True DQ (Some []))))
      else
        (case bx_output_quote_capacity_checked (length s) 12 8 of
           None \<Rightarrow> None
         | Some out_cap \<Rightarrow> if \<not> alloc out_cap then None else reusable_loop out_cap s MODE_NONE False (Some [])))"

definition bx_output_quote_shell_reusable_try_dup :: "(nat \<Rightarrow> bool) \<Rightarrow> string \<Rightarrow> string option" where
  "bx_output_quote_shell_reusable_try_dup alloc s = bx_output_quote_shell_reusable_dup_impl alloc s"

section \<open>Styles\<close>

datatype bx_output_quote_style =
  QUOTE_LITERAL | QUOTE_LITERAL_HIDE_NONGRAPHIC | QUOTE_ESCAPE | QUOTE_C | QUOTE_LOCALE | QUOTE_SHELL |
  QUOTE_SHELL_ALWAYS | QUOTE_SHELL_ESCAPE | QUOTE_SHELL_ESCAPE_ALWAYS | QUOTE_SHELL_REUSABLE | QUOTE_SINGLE_BACKSLASH

text \<open>The result is \<open>None\<close> where the code would end the process.\<close>

definition bx_output_quote_dup :: "string \<Rightarrow> bx_output_quote_style \<Rightarrow> string option" where
  "bx_output_quote_dup s style =
     (case style of
        QUOTE_LITERAL \<Rightarrow> Some (bx_output_quote_literal_dup s False)
      | QUOTE_LITERAL_HIDE_NONGRAPHIC \<Rightarrow> Some (bx_output_quote_literal_dup s True)
      | QUOTE_ESCAPE \<Rightarrow> Some (bx_output_quote_escape_dup s)
      | QUOTE_C \<Rightarrow> Some (bx_output_quote_c_dup s)
      | QUOTE_LOCALE \<Rightarrow> Some (bx_output_quote_locale_dup s)
      | QUOTE_SHELL \<Rightarrow> Some (bx_output_quote_shell_dup s False)
      | QUOTE_SHELL_ALWAYS \<Rightarrow> Some (bx_output_quote_shell_dup s True)
      | QUOTE_SHELL_ESCAPE \<Rightarrow> Some (bx_output_quote_shell_escape_dup s False)
      | QUOTE_SHELL_ESCAPE_ALWAYS \<Rightarrow> Some (bx_output_quote_shell_escape_dup s True)
      | QUOTE_SHELL_REUSABLE \<Rightarrow> bx_output_quote_shell_reusable_dup_impl (\<lambda>_. True) s
      | QUOTE_SINGLE_BACKSLASH \<Rightarrow> Some (bx_output_quote_single_backslash_dup s))"

datatype bx_output_control_quote_style = CONTROL_LITERAL | CONTROL_QUESTION | CONTROL_CARET

definition control_char :: "bx_output_control_quote_style \<Rightarrow> bool \<Rightarrow> char \<Rightarrow> string" where
  "control_char style high_bit_printable ch =
     (if style = CONTROL_LITERAL \<or> c_isprint ch \<or> (high_bit_printable \<and> code ch \<ge> 128) then [ch]
      else if style = CONTROL_QUESTION then [CHR ''?'']
      else [CHR ''^'', if code ch = 127 then CHR ''?'' else char_of (code ch XOR 64)])"

definition bx_output_quote_control_dup ::
  "string \<Rightarrow> (bx_output_control_quote_style \<times> bool) option \<Rightarrow> string" where
  "bx_output_quote_control_dup s options =
     (case options of
        None \<Rightarrow> concat (map (control_char CONTROL_LITERAL False) s)
      | Some (style, high_bit_printable) \<Rightarrow> concat (map (control_char style high_bit_printable) s))"

section \<open>Readers\<close>

text \<open>
  One escape sequence after its backslash, as C and \<open>$'...'\<close> read it; then a reader of a whole C
  text, ended by the quote \<open>q\<close> or without quotes.
\<close>

definition octal_code :: "char \<Rightarrow> nat option" where
  "octal_code c = (if 48 \<le> code c \<and> code c \<le> 55 then Some (code c - 48) else None)"

definition c_escape :: "string \<Rightarrow> (char \<times> string) option" where
  "c_escape s =
     (case s of [] \<Rightarrow> None
      | c # cs \<Rightarrow>
          if c \<in> {BSL, DQ, SQ, CHR '' ''} then Some (c, cs)
          else if c = CHR ''a'' then Some (CHR 0x07, cs) else if c = CHR ''b'' then Some (CHR 0x08, cs)
          else if c = CHR ''f'' then Some (CHR 0x0C, cs) else if c = CHR ''n'' then Some (CHR 0x0A, cs)
          else if c = CHR ''r'' then Some (CHR 0x0D, cs) else if c = CHR ''t'' then Some (CHR 0x09, cs)
          else if c = CHR ''v'' then Some (CHR 0x0B, cs)
          else case cs of
              d # e # rest \<Rightarrow>
                (case (octal_code c, octal_code d, octal_code e) of
                   (Some x, Some y, Some z) \<Rightarrow> Some (char_of (64 * x + 8 * y + z), rest)
                 | _ \<Rightarrow> None)
            | _ \<Rightarrow> None)"

lemma c_escape_length: "c_escape s = Some (c, rest) \<Longrightarrow> length rest < length s"
  by (auto simp: c_escape_def split: list.splits if_splits option.splits)

function c_read :: "char option \<Rightarrow> string \<Rightarrow> string option" where
  "c_read q [] = (if q = None then Some [] else None)"
| "c_read q (c # cs) =
     (if q = Some c then (if cs = [] then Some [] else None)
      else if c = BSL then (case c_escape cs of None \<Rightarrow> None | Some (d, rest) \<Rightarrow> map_option (Cons d) (c_read q rest))
      else map_option (Cons c) (c_read q cs))"
  by pat_completeness auto
termination by (relation "measure (\<lambda>(q, s). length s)") (auto dest!: c_escape_length)

text \<open>
  A word as a POSIX shell (with the \<open>$'...'\<close> of the next standard) reads it: \<open>None\<close> when the text is
  not one literal word: a special character without quotes, an expansion, an open quote.
\<close>

datatype sh_state = SH_PLAIN | SH_SINGLE | SH_DOUBLE | SH_ANSI

definition sh_literal :: "char \<Rightarrow> bool" where
  "sh_literal c \<longleftrightarrow> c_isalnum c \<or> c \<in> set ''%+,-./:@]_~#'' \<or> c = CHR 0x7B \<or> c = CHR 0x7D"

function sh_word :: "sh_state \<Rightarrow> string \<Rightarrow> string option" where
  "sh_word st [] = (if st = SH_PLAIN then Some [] else None)"
| "sh_word SH_PLAIN (c # cs) =
     (if c = SQ then sh_word SH_SINGLE cs
      else if c = DQ then sh_word SH_DOUBLE cs
      else if c = BSL then (case cs of [] \<Rightarrow> None | d # ds \<Rightarrow> map_option (Cons d) (sh_word SH_PLAIN ds))
      else if c = CHR ''$'' then (case cs of [] \<Rightarrow> None | d # ds \<Rightarrow> if d = SQ then sh_word SH_ANSI ds else None)
      else if sh_literal c then map_option (Cons c) (sh_word SH_PLAIN cs) else None)"
| "sh_word SH_SINGLE (c # cs) = (if c = SQ then sh_word SH_PLAIN cs else map_option (Cons c) (sh_word SH_SINGLE cs))"
| "sh_word SH_DOUBLE (c # cs) =
     (if c = DQ then sh_word SH_PLAIN cs
      else if c = BSL then
        (case cs of [] \<Rightarrow> None
         | d # ds \<Rightarrow> if d \<in> {DQ, BSL, CHR ''$'', CHR 0x60} then map_option (Cons d) (sh_word SH_DOUBLE ds)
                   else map_option (Cons c) (sh_word SH_DOUBLE cs))
      else if c = CHR ''$'' \<or> c = CHR 0x60 then None
      else map_option (Cons c) (sh_word SH_DOUBLE cs))"
| "sh_word SH_ANSI (c # cs) =
     (if c = SQ then sh_word SH_PLAIN cs
      else if c = BSL then (case c_escape cs of None \<Rightarrow> None | Some (d, rest) \<Rightarrow> map_option (Cons d) (sh_word SH_ANSI rest))
      else map_option (Cons c) (sh_word SH_ANSI cs))"
  by pat_completeness auto
termination by (relation "measure (\<lambda>(st, s). length s)") (auto dest!: c_escape_length)

definition sh_unquote :: "string \<Rightarrow> string option" where
  "sh_unquote s =
     (if s = [] \<or> hd s = CHR ''~'' \<or> hd s = CHR ''#'' \<or> s = [CHR 0x7B] \<or> s = [CHR 0x7D] then None else sh_word SH_PLAIN s)"

section \<open>Escapes are read back\<close>

lemma code_lt: "code c < 256"
  by (simp add: of_char_def)

lemma code_eq: "code c = code d \<longleftrightarrow> c = d"
  by simp

lemma octal_code_digit: "d < 8 \<Longrightarrow> octal_code (octal_digit d) = Some d"
  by (simp add: octal_code_def octal_digit_def)

lemma octal_read:
  "char_of (64 * (code ch div 64 mod 8) + 8 * (code ch div 8 mod 8) + code ch mod 8) = ch"
proof -
  have "64 * (code ch div 64 mod 8) + 8 * (code ch div 8 mod 8) + code ch mod 8 = code ch"
  proof -
    have "code ch div 64 mod 8 = code ch div 64" using code_lt [of ch] by (intro mod_less) linarith
    moreover have "code ch mod 64 = 8 * (code ch div 8 mod 8) + code ch mod 8"
      using mod_mult2_eq [of "code ch" 8 8] by simp
    moreover have "64 * (code ch div 64) + code ch mod 64 = code ch" by (rule mult_div_mod_eq)
    ultimately show ?thesis by linarith
  qed
  show ?thesis unfolding \<open>_ = code ch\<close> by (rule char_of_char)
qed

lemma octal_digit_plain: "d < 8 \<Longrightarrow> octal_digit d \<notin> {BSL, DQ, SQ, CHR '' '', CHR ''a'', CHR ''b'', CHR ''f'', CHR ''n'', CHR ''r'', CHR ''t'', CHR ''v''}"
proof -
  assume "d < 8"
  then have "code (octal_digit d) = 48 + d" by (simp add: octal_digit_def)
  moreover have "48 + d \<le> 55" using \<open>d < 8\<close> by simp
  ultimately show ?thesis by (auto dest: arg_cong [where f = code])
qed

lemma c_escape_octal:
  "c_escape (tl (bx_output_quote_append_octal ch) @ rest) = Some (ch, rest)"
proof -
  let ?x = "code ch div 64 mod 8" and ?y = "code ch div 8 mod 8" and ?z = "code ch mod 8"
  have "?x < 8" "?y < 8" "?z < 8" by simp_all
  then show ?thesis using octal_digit_plain [of ?x] octal_code_digit octal_read [of ch]
    by (simp add: c_escape_def bx_output_quote_append_octal_def)
qed

text \<open>The text of an escaped character is the character itself or a backslash and what gives it.\<close>

definition simple_escapes :: "(char \<times> char) list" where
  "simple_escapes = [(CHR '' '', CHR '' ''), (BSL, BSL), (DQ, DQ), (SQ, SQ), (CHR 0x07, CHR ''a''), (CHR 0x08, CHR ''b''),
     (CHR 0x0C, CHR ''f''), (CHR 0x0A, CHR ''n''), (CHR 0x0D, CHR ''r''), (CHR 0x09, CHR ''t''), (CHR 0x0B, CHR ''v'')]"

lemma simple_escapes_read: "(ch, x) \<in> set simple_escapes \<Longrightarrow> c_escape (x # rest) = Some (ch, rest)"
  by (simp add: simple_escapes_def) (elim disjE; simp add: c_escape_def)

lemma simple_escapes_append:
  "(ch, x) \<in> set simple_escapes \<Longrightarrow> bx_output_quote_append_escape_char ch es ed esq \<in> {[ch], [BSL, x]}"
  by (simp add: simple_escapes_def) (elim disjE; simp add: bx_output_quote_append_escape_char_def)

lemma simple_escapes_BSL: "(ch, x) \<in> set simple_escapes \<Longrightarrow> ch = BSL \<Longrightarrow> bx_output_quote_append_escape_char ch es ed esq = [BSL, x]"
  by (simp add: simple_escapes_def bx_output_quote_append_escape_char_def)

lemma escape_char_cases:
  obtains (plain) "bx_output_quote_append_escape_char ch es ed esq = [ch]" and "ch \<noteq> BSL" and "ch = DQ \<longrightarrow> \<not> ed"
      and "ch = SQ \<longrightarrow> \<not> esq" and "c_isprint ch"
    | (escaped) e where "bx_output_quote_append_escape_char ch es ed esq = BSL # e" and "\<And>rest. c_escape (e @ rest) = Some (ch, rest)"
      and "length e \<le> 3"
proof (cases "bx_output_quote_append_escape_char ch es ed esq = [ch] \<and> ch \<noteq> BSL")
  case True
  then show ?thesis
    by (intro plain) (auto simp: bx_output_quote_append_escape_char_def bx_output_quote_append_octal_def c_isprint_def
      bx_output_quote_is_nongraphic_def split: if_splits)
next
  case False
  show ?thesis
  proof (cases "ch \<in> fst ` set simple_escapes")
    case True
    then obtain x where x: "(ch, x) \<in> set simple_escapes" by auto
    have e: "bx_output_quote_append_escape_char ch es ed esq = BSL # [x]"
    proof (cases "ch = BSL")
      case True
      then show ?thesis using simple_escapes_BSL [OF x] by simp
    next
      case False
      with \<open>\<not> (_ \<and> _)\<close> have "bx_output_quote_append_escape_char ch es ed esq \<noteq> [ch]" by blast
      with simple_escapes_append [OF x, of es ed esq] show ?thesis by blast
    qed
    show ?thesis
    proof (rule escaped [OF e])
      show "c_escape ([x] @ rest) = Some (ch, rest)" for rest using simple_escapes_read [OF x, of rest] by simp
    qed simp
  next
    case special: False
    then have ne: "ch \<noteq> CHR '' ''" "ch \<noteq> BSL" "ch \<noteq> DQ" "ch \<noteq> SQ" "ch \<noteq> CHR 0x07" "ch \<noteq> CHR 0x08" "ch \<noteq> CHR 0x0C"
      "ch \<noteq> CHR 0x0A" "ch \<noteq> CHR 0x0D" "ch \<noteq> CHR 0x09" "ch \<noteq> CHR 0x0B" by (simp_all add: simple_escapes_def)
    then have "bx_output_quote_append_escape_char ch es ed esq =
        (if \<not> bx_output_quote_is_nongraphic ch then [ch] else bx_output_quote_append_octal ch)"
      unfolding bx_output_quote_append_escape_char_def by (simp only: if_False)
    with False ne have "bx_output_quote_append_escape_char ch es ed esq = bx_output_quote_append_octal ch"
      by (simp split: if_splits)
    then show ?thesis using c_escape_octal [of ch]
      by (intro escaped [of "tl (bx_output_quote_append_octal ch)"]) (simp_all add: bx_output_quote_append_octal_def)
  qed
qed


text \<open>C texts.\<close>

lemma c_read_escaped:
  assumes "q \<in> {None, Some DQ, Some SQ}" and "q = Some DQ \<longrightarrow> ed" and "q = Some SQ \<longrightarrow> esq"
  shows "c_read q (bx_output_quote_append_escape_char ch es ed esq @ rest) = map_option (Cons ch) (c_read q rest)"
proof (rule escape_char_cases [of ch es ed esq])
  assume "bx_output_quote_append_escape_char ch es ed esq = [ch]" "ch \<noteq> BSL" "ch = DQ \<longrightarrow> \<not> ed" "ch = SQ \<longrightarrow> \<not> esq"
  then show ?thesis using assms by auto
next
  fix e assume "bx_output_quote_append_escape_char ch es ed esq = BSL # e" "\<And>rest. c_escape (e @ rest) = Some (ch, rest)"
  then show ?thesis using assms by auto
qed

lemma c_read_escapes:
  assumes "q \<in> {None, Some DQ, Some SQ}" and "q = Some DQ \<longrightarrow> ed" and "q = Some SQ \<longrightarrow> esq"
  shows "c_read q (concat (map (\<lambda>ch. bx_output_quote_append_escape_char ch es ed esq) s) @ rest) = map_option ((@) s) (c_read q rest)"
proof (induction s)
  case Nil
  then show ?case by (simp add: option.map_ident)
next
  case (Cons ch s)
  then show ?case by (simp add: c_read_escaped [OF assms] option.map_comp comp_def)
qed

lemma c_read_single_backslash:
  "c_read (Some SQ) (concat (map (\<lambda>ch. if ch = SQ \<or> ch = BSL then [BSL, ch] else [ch]) s) @ rest) =
    map_option ((@) s) (c_read (Some SQ) rest)"
proof (induction s)
  case Nil
  then show ?case by (simp add: option.map_ident)
next
  case (Cons ch s)
  then show ?case by (auto simp: c_escape_def option.map_comp comp_def)
qed

section \<open>The shell reads the text back\<close>

text \<open>Reading \<open>out\<close> in state \<open>st\<close> gives \<open>s\<close> and leaves the reader in state \<open>st'\<close>.\<close>

definition reads :: "sh_state \<Rightarrow> string \<Rightarrow> string \<Rightarrow> sh_state \<Rightarrow> bool" where
  "reads st out s st' \<longleftrightarrow> (\<forall>rest. sh_word st (out @ rest) = map_option ((@) s) (sh_word st' rest))"

lemma append_fun: "(@) [] = (\<lambda>x. x)" "(@) [c] = (#) c" "(@) (a @ b) = (\<lambda>x. a @ b @ x)"
  by (simp_all add: fun_eq_iff)

lemmas reads_simps = reads_def append_fun option.map_ident option.map_comp comp_def

lemma reads_Nil: "reads st [] [] st"
  by (simp add: reads_simps)

lemma reads_append: "reads st a s st1 \<Longrightarrow> reads st1 b t st2 \<Longrightarrow> reads st (a @ b) (s @ t) st2"
  by (simp add: reads_simps)

lemma reads_whole: "reads SH_PLAIN out s SH_PLAIN \<Longrightarrow> sh_word SH_PLAIN out = Some s"
  unfolding reads_def by (drule spec [of _ "[]"]) simp

lemma reads_map: "(\<And>c. c \<in> set s \<Longrightarrow> reads st (f c) [c] st) \<Longrightarrow> reads st (concat (map f s)) s st"
proof (induction s)
  case (Cons c s)
  then have "reads st (f c) [c] st" "reads st (concat (map f s)) s st" by simp_all
  from reads_append [OF this] show ?case by simp
qed (simp add: reads_Nil)

lemma reads_quoted:
  assumes "reads SH_PLAIN a [] st" and "reads st b s st" and "reads st c [] SH_PLAIN"
  shows "reads SH_PLAIN (a @ b @ c) s SH_PLAIN"
  using reads_append [OF assms(1) reads_append [OF assms(2,3)]] by simp

lemma reads_single: "SQ \<notin> set s \<Longrightarrow> reads SH_PLAIN (bx_output_quote_append_shell_single_quoted_segment s) s SH_PLAIN"
proof -
  assume "SQ \<notin> set s"
  then have "reads SH_SINGLE (concat (map (\<lambda>c. [c]) s)) s SH_SINGLE" by (intro reads_map) (auto simp: reads_simps)
  then have "reads SH_SINGLE s s SH_SINGLE" by simp
  moreover have "reads SH_PLAIN [SQ] [] SH_SINGLE" "reads SH_SINGLE [SQ] [] SH_PLAIN"
    by (simp_all add: reads_simps)
  ultimately have "reads SH_PLAIN ([SQ] @ s @ [SQ]) s SH_PLAIN" by (intro reads_quoted)
  then show ?thesis by (simp add: bx_output_quote_append_shell_single_quoted_segment_def)
qed

lemma reads_double: "reads SH_PLAIN (bx_output_quote_append_shell_double_quoted_segment s) s SH_PLAIN"
proof -
  have "reads SH_DOUBLE (concat (map (\<lambda>ch. if ch = DQ \<or> ch = BSL \<or> ch = CHR ''$'' \<or> ch = CHR 0x60 then [BSL, ch] else [ch]) s)) s SH_DOUBLE"
    by (intro reads_map) (auto simp: reads_simps)
  moreover have "reads SH_PLAIN [DQ] [] SH_DOUBLE" "reads SH_DOUBLE [DQ] [] SH_PLAIN"
    by (simp_all add: reads_simps)
  ultimately show ?thesis
    using reads_quoted [of "[DQ]" SH_DOUBLE _ s "[DQ]"] by (simp add: bx_output_quote_append_shell_double_quoted_segment_def)
qed

lemma sh_literal_not_special: "sh_literal c \<Longrightarrow> c \<noteq> SQ \<and> c \<noteq> DQ \<and> c \<noteq> BSL \<and> c \<noteq> CHR ''$''"
  by (auto simp: sh_literal_def c_isalnum_def)

lemma reads_literal: "list_all sh_literal s \<Longrightarrow> reads SH_PLAIN s s SH_PLAIN"
proof -
  assume "list_all sh_literal s"
  then have "reads SH_PLAIN (concat (map (\<lambda>c. [c]) s)) s SH_PLAIN"
    using sh_literal_not_special by (intro reads_map) (simp add: reads_simps list_all_iff)
  then show ?thesis by simp
qed

lemma safe_literal: "bx_output_quote_shell_char_is_safe c \<Longrightarrow> sh_literal c"
  by (auto simp: bx_output_quote_shell_char_is_safe_def sh_literal_def)

lemma reads_segment: "reads SH_PLAIN (bx_output_quote_append_shell_quoted_segment s always) s SH_PLAIN"
proof -
  have "reads SH_PLAIN s s SH_PLAIN" if "list_all bx_output_quote_shell_char_is_safe s"
    using that safe_literal by (intro reads_literal) (simp add: list_all_iff)
  then show ?thesis using reads_single reads_double by (simp add: bx_output_quote_append_shell_quoted_segment_def)
qed

lemma reads_ansi_escape:
  assumes "\<not> c_isprint ch"
  shows "reads SH_ANSI (bx_output_quote_append_escape_char ch False False False) [ch] SH_ANSI"
proof (rule escape_char_cases [of ch False False False])
  assume "c_isprint ch"
  with assms show ?thesis by simp
next
  fix e assume "bx_output_quote_append_escape_char ch False False False = BSL # e" "\<And>rest. c_escape (e @ rest) = Some (ch, rest)"
  then show ?thesis by (simp add: reads_simps)
qed

lemma reads_fragment:
  assumes "\<not> c_isprint ch"
  shows "reads SH_PLAIN (bx_output_quote_append_shell_escape_fragment ch) [ch] SH_PLAIN"
proof -
  have a: "reads SH_PLAIN [CHR ''$'', SQ] [] SH_ANSI" and b: "reads SH_ANSI [SQ] [] SH_PLAIN"
    by (simp_all add: reads_simps)
  show ?thesis using reads_quoted [OF a reads_ansi_escape [OF assms] b]
    by (simp add: bx_output_quote_append_shell_escape_fragment_def)
qed

lemma reads_escape_loop: "reads SH_PLAIN (shell_escape_loop segment s) (segment @ s) SH_PLAIN"
proof (induction segment s rule: shell_escape_loop.induct)
  case (1 segment)
  then show ?case using reads_segment [of segment True] reads_Nil by simp
next
  case (2 segment ch cs)
  show ?case
  proof (cases "c_isprint ch")
    case True
    then show ?thesis using 2 by (simp add: bx_output_quote_is_nongraphic_def)
  next
    case False
    have a: "reads SH_PLAIN (if segment \<noteq> [] then bx_output_quote_append_shell_quoted_segment segment True else []) segment SH_PLAIN"
      using reads_segment [of segment True] reads_Nil by simp
    have b: "reads SH_PLAIN (shell_escape_loop [] cs) cs SH_PLAIN" using 2(2) False by (simp add: bx_output_quote_is_nongraphic_def)
    show ?thesis using reads_append [OF a reads_append [OF reads_fragment [OF False] b]] False
      by (simp add: bx_output_quote_is_nongraphic_def)
  qed
qed

section \<open>The reusable style, step by step\<close>

text \<open>What one character appends, and the mode after it.\<close>

definition step_text :: "shell_mode \<Rightarrow> bool \<Rightarrow> char \<Rightarrow> string \<Rightarrow> string" where
  "step_text mode emitted ch rest =
     (if \<not> c_isprint ch then
        (if mode = MODE_SINGLE then [SQ] else []) @ (if mode \<noteq> MODE_DOLLAR \<and> \<not> emitted then [SQ, SQ] else []) @
        (if mode \<noteq> MODE_DOLLAR then [CHR ''$'', SQ] else []) @ reusable_escape ch
      else
        (if mode = MODE_DOLLAR then [SQ] else []) @
        (if ch = SQ then
           (if mode = MODE_SINGLE then [SQ] else []) @ (if \<not> emitted then [SQ, SQ] else []) @ [BSL, SQ] @
           (if \<not> (case rest of [] \<Rightarrow> False | c # _ \<Rightarrow> c \<noteq> SQ \<and> c_isprint c) then [SQ, SQ] else [])
         else (if mode \<noteq> MODE_SINGLE then [SQ] else []) @ [ch]))"

definition step_mode :: "char \<Rightarrow> shell_mode" where
  "step_mode ch = (if \<not> c_isprint ch then MODE_DOLLAR else if ch = SQ then MODE_NONE else MODE_SINGLE)"

definition mode_state :: "shell_mode \<Rightarrow> sh_state" where
  "mode_state mode = (case mode of MODE_NONE \<Rightarrow> SH_PLAIN | MODE_SINGLE \<Rightarrow> SH_SINGLE | MODE_DOLLAR \<Rightarrow> SH_ANSI)"

lemma append_if_fits: "length out + length s < cap \<Longrightarrow> append_if cap b s (Some out) = Some (out @ (if b then s else []))"
  by (auto simp: append_if_def bx_output_quote_append_text_def)

lemma append_char_if_fits: "length out + 1 < cap \<Longrightarrow> append_char_if cap b ch (Some out) = Some (out @ (if b then [ch] else []))"
  by (auto simp: append_char_if_def bx_output_quote_append_char_def)

lemma reusable_escape_eq: "\<not> c_isprint ch \<Longrightarrow> reusable_escape ch = bx_output_quote_append_escape_char ch False False False"
proof -
  assume np: "\<not> c_isprint ch"
  then have ne: "ch \<noteq> CHR '' ''" "ch \<noteq> BSL" "ch \<noteq> DQ" "ch \<noteq> SQ" by (auto simp: c_isprint_def)
  show ?thesis
  proof (cases "ch \<in> {CHR 0x07, CHR 0x08, CHR 0x0C, CHR 0x0A, CHR 0x0D, CHR 0x09, CHR 0x0B}")
    case True
    then show ?thesis
      by (elim insertE emptyE) (simp_all add: reusable_escape_def bx_output_quote_append_escape_char_def)
  next
    case False
    then show ?thesis using ne np
      by (simp add: reusable_escape_def bx_output_quote_append_escape_char_def bx_output_quote_is_nongraphic_def)
  qed
qed

lemma reusable_escape_length: "length (reusable_escape ch) \<le> 4"
  by (simp add: reusable_escape_def bx_output_quote_append_octal_def)

lemma reusable_loop_step:
  assumes "length out + 10 \<le> cap"
  shows "reusable_loop cap (ch # rest) mode emitted (Some out) =
    reusable_loop cap rest (step_mode ch) True (Some (out @ step_text mode emitted ch rest))"
proof (cases "c_isprint ch")
  case False
  have "bx_output_quote_append_reusable_shell_dollar_escape cap ch y = Some (y @ reusable_escape ch)"
    if "length y \<le> length out + 5" for y
    using that assms reusable_escape_length [of ch]
    by (simp add: bx_output_quote_append_reusable_shell_dollar_escape_def bx_output_quote_append_text_def)
  then show ?thesis using False assms
    by (simp add: step_mode_def step_text_def Let_def append_if_fits append_char_if_fits)
next
  case True
  then show ?thesis using assms
    by (cases mode) (simp_all add: step_mode_def step_text_def Let_def append_if_fits append_char_if_fits)
qed

lemma step_reads:
  assumes "emitted \<or> mode = MODE_NONE"
  shows "reads (mode_state mode) (step_text mode emitted ch rest) [ch] (mode_state (step_mode ch))"
proof (cases "c_isprint ch")
  case False
  have e: "reads SH_ANSI (reusable_escape ch) [ch] SH_ANSI" using reads_ansi_escape [OF False] reusable_escape_eq [OF False] by simp
  have "reads (mode_state mode) ((if mode = MODE_SINGLE then [SQ] else []) @ (if mode \<noteq> MODE_DOLLAR \<and> \<not> emitted then [SQ, SQ] else []) @
        (if mode \<noteq> MODE_DOLLAR then [CHR ''$'', SQ] else [])) [] SH_ANSI"
    by (cases mode) (simp_all add: mode_state_def reads_simps)
  from reads_append [OF this e] show ?thesis using False by (simp add: step_text_def step_mode_def mode_state_def)
next
  case True
  then show ?thesis
    by (cases mode) (auto simp: step_text_def step_mode_def mode_state_def reads_simps)
qed

lemma step_start: "\<not> emitted \<Longrightarrow> mode = MODE_NONE \<Longrightarrow> hd (step_text mode emitted ch rest) = SQ \<and> step_text mode emitted ch rest \<noteq> []"
  by (simp add: step_text_def)

lemma step_length: "length (step_text mode emitted ch rest) \<le> 9"
  using reusable_escape_length [of ch] by (auto simp: step_text_def)

lemma reusable_loop_ok:
  assumes "length out + 9 * length s + 10 \<le> cap" and "reads SH_PLAIN out t (mode_state mode)"
    and "emitted \<or> mode = MODE_NONE" and "emitted \<longleftrightarrow> out \<noteq> []" and "out \<noteq> [] \<longrightarrow> hd out = SQ"
  shows "\<exists>out'. reusable_loop cap s mode emitted (Some out) = Some out' \<and> reads SH_PLAIN out' (t @ s) SH_PLAIN \<and>
    out' \<noteq> [] \<and> hd out' = SQ \<and> length out' + 1 < cap"
  using assms
proof (induction s arbitrary: out t mode emitted)
  case Nil
  let ?out = "out @ (if mode \<noteq> MODE_NONE then [SQ] else []) @ (if \<not> emitted then [SQ, SQ] else [])"
  have run: "reusable_loop cap [] mode emitted (Some out) = Some ?out"
    using Nil.prems(1) by (simp add: append_if_fits append_char_if_fits)
  have "reads (mode_state mode) ((if mode \<noteq> MODE_NONE then [SQ] else []) @ (if \<not> emitted then [SQ, SQ] else [])) [] SH_PLAIN"
    by (cases mode) (simp_all add: mode_state_def reads_simps)
  from reads_append [OF Nil.prems(2) this] have "reads SH_PLAIN ?out t SH_PLAIN" by simp
  moreover have "?out \<noteq> [] \<and> hd ?out = SQ" using Nil.prems(3-5) by (cases out) auto
  moreover have "length ?out + 1 < cap" using Nil.prems(1) by simp
  ultimately show ?case using run by (intro exI [of _ ?out]) simp
next
  case (Cons ch s)
  let ?out = "out @ step_text mode emitted ch s"
  have step: "reusable_loop cap (ch # s) mode emitted (Some out) = reusable_loop cap s (step_mode ch) True (Some ?out)"
    using Cons.prems(1) by (intro reusable_loop_step) simp
  have "\<exists>out'. reusable_loop cap s (step_mode ch) True (Some ?out) = Some out' \<and> reads SH_PLAIN out' ((t @ [ch]) @ s) SH_PLAIN \<and>
      out' \<noteq> [] \<and> hd out' = SQ \<and> length out' + 1 < cap"
  proof (rule Cons.IH)
    show "length ?out + 9 * length s + 10 \<le> cap" using Cons.prems(1) step_length [of mode emitted ch s] by simp
    show "reads SH_PLAIN ?out (t @ [ch]) (mode_state (step_mode ch))"
      using reads_append [OF Cons.prems(2) step_reads [OF Cons.prems(3)]] .
    have "step_text mode emitted ch s \<noteq> []" by (auto simp: step_text_def reusable_escape_def bx_output_quote_append_octal_def)
    then show "True \<longleftrightarrow> ?out \<noteq> []" by simp
    show "?out \<noteq> [] \<longrightarrow> hd ?out = SQ" using Cons.prems(3-5) step_start [of emitted mode ch s] by (cases out) auto
  qed simp
  then show ?case unfolding step by simp
qed

section \<open>The round trips\<close>

lemma reusable_safe_loop_literal:
  "reusable_safe_loop n i s \<Longrightarrow> list_all sh_literal s \<and> (i = 0 \<longrightarrow> s = [] \<or> hd s \<noteq> CHR ''~'' \<and> hd s \<noteq> CHR ''#'') \<and>
    (n \<le> 1 \<longrightarrow> list_all (\<lambda>c. c \<noteq> CHR 0x7B \<and> c \<noteq> CHR 0x7D) s)"
proof (induction n i s rule: reusable_safe_loop.induct)
  case (2 n i ch p)
  have lit: "sh_literal ch" if "bx_output_quote_reusable_shell_safe_char ch"
    using that by (auto simp: sh_literal_def bx_output_quote_reusable_shell_safe_char_def)
  have brace: "\<not> bx_output_quote_reusable_shell_safe_char CHR 0x7B" "\<not> bx_output_quote_reusable_shell_safe_char CHR 0x7D"
    "\<not> bx_output_quote_reusable_shell_safe_char CHR ''~''" "\<not> bx_output_quote_reusable_shell_safe_char CHR ''#''"
    by (simp_all add: bx_output_quote_reusable_shell_safe_char_def c_isalnum_def)
  have more: "sh_literal CHR 0x7B" "sh_literal CHR 0x7D" "sh_literal CHR ''~''" "sh_literal CHR ''#''"
    by (simp_all add: sh_literal_def)
  have p: "reusable_safe_loop n (i + 1) p" using 2(4) by (auto split: if_splits)
  then have IH: "list_all sh_literal p \<and> (n \<le> 1 \<longrightarrow> list_all (\<lambda>c. c \<noteq> CHR 0x7B \<and> c \<noteq> CHR 0x7D) p)"
    using 2 by (auto split: if_splits)
  have here: "sh_literal ch \<and> (i = 0 \<longrightarrow> ch \<noteq> CHR ''~'' \<and> ch \<noteq> CHR ''#'') \<and> (n \<le> 1 \<longrightarrow> ch \<noteq> CHR 0x7B \<and> ch \<noteq> CHR 0x7D)"
    using 2(4) lit brace more by (auto split: if_splits)
  show ?case using IH here by simp
qed simp

lemma reusable_double_loop_plain:
  "reusable_double_loop i has s \<Longrightarrow> list_all (\<lambda>c. c \<notin> {DQ, BSL, CHR ''$'', CHR 0x60}) s"
proof (induction i has s rule: reusable_double_loop.induct)
  case (2 i has ch p)
  have q: "\<not> bx_output_quote_reusable_shell_double_quote_char c" if "c \<in> {DQ, BSL, CHR ''$'', CHR 0x60}" for c
    using that by (auto simp: bx_output_quote_reusable_shell_double_quote_char_def bx_output_quote_reusable_shell_safe_char_def c_isalnum_def)
  have "ch \<notin> {DQ, BSL, CHR ''$'', CHR 0x60}" using 2(3) q [of ch] by (auto simp: Let_def split: if_splits)
  moreover have "list_all (\<lambda>c. c \<notin> {DQ, BSL, CHR ''$'', CHR 0x60}) p" using 2 by (auto simp: Let_def split: if_splits)
  ultimately show ?case by simp
qed simp

lemma reads_double_plain:
  assumes "list_all (\<lambda>c. c \<notin> {DQ, BSL, CHR ''$'', CHR 0x60}) s"
  shows "reads SH_PLAIN (DQ # s @ [DQ]) s SH_PLAIN"
proof -
  have "concat (map (\<lambda>ch. if ch = DQ \<or> ch = BSL \<or> ch = CHR ''$'' \<or> ch = CHR 0x60 then [BSL, ch] else [ch]) s) = s"
    using assms by (induction s) auto
  then show ?thesis using reads_double [of s] by (simp add: bx_output_quote_append_shell_double_quoted_segment_def)
qed

lemma sh_unquote_whole:
  assumes "reads SH_PLAIN q s SH_PLAIN" and "q \<noteq> []" and "hd q \<noteq> CHR ''~''" and "hd q \<noteq> CHR ''#''"
    and "q \<noteq> [CHR 0x7B]" and "q \<noteq> [CHR 0x7D]"
  shows "sh_unquote q = Some s"
  using assms reads_whole [OF assms(1)] by (simp add: sh_unquote_def)

lemma sh_unquote_quoted: "reads SH_PLAIN q s SH_PLAIN \<Longrightarrow> q \<noteq> [] \<Longrightarrow> hd q \<in> {SQ, DQ, CHR ''$''} \<Longrightarrow> sh_unquote q = Some s"
  by (rule sh_unquote_whole) auto

lemma reusable_ok:
  assumes "12 * length s + 8 \<le> size_max"
  shows "\<exists>q. bx_output_quote_shell_reusable_dup_impl (\<lambda>_. True) s = Some q \<and> sh_unquote q = Some s \<and>
    length q + 1 \<le> (if s = [] then 3 else 12 * length s + 8)"
proof -
  have cap: "bx_output_quote_capacity_checked (length s) 12 8 = Some (length s * 12 + 8)"
    "bx_output_quote_capacity_checked (length s) 1 3 = Some (length s + 3)"
    using assms by (auto simp: bx_output_quote_capacity_checked_def not_less div_le_mono)
  consider "s = []" | "s \<noteq> []" "bx_output_quote_reusable_shell_safe_string s"
    | "s \<noteq> []" "\<not> bx_output_quote_reusable_shell_safe_string s" "bx_output_quote_reusable_shell_can_use_double_quotes s"
    | "s \<noteq> []" "\<not> bx_output_quote_reusable_shell_safe_string s" "\<not> bx_output_quote_reusable_shell_can_use_double_quotes s"
    by blast
  then show ?thesis
  proof cases
    case 1
    have "reads SH_PLAIN [SQ, SQ] [] SH_PLAIN" by (simp add: reads_simps)
    then show ?thesis using 1 sh_unquote_quoted [of "[SQ, SQ]" "[]"] by (simp add: bx_output_quote_shell_reusable_dup_impl_def)
  next
    case 2
    then have l: "reusable_safe_loop (length s) 0 s" by (simp add: bx_output_quote_reusable_shell_safe_string_def)
    from reusable_safe_loop_literal [OF l] 2 have "list_all sh_literal s" "hd s \<noteq> CHR ''~''" "hd s \<noteq> CHR ''#''"
      "s \<noteq> [CHR 0x7B]" "s \<noteq> [CHR 0x7D]" by auto
    then have "sh_unquote s = Some s" using 2 by (intro sh_unquote_whole reads_literal) simp_all
    then show ?thesis using 2 by (simp add: bx_output_quote_shell_reusable_dup_impl_def)
  next
    case 3
    then have "reusable_double_loop 0 False s" by (simp add: bx_output_quote_reusable_shell_can_use_double_quotes_def)
    then have "sh_unquote (DQ # s @ [DQ]) = Some s"
      by (intro sh_unquote_quoted reads_double_plain reusable_double_loop_plain) simp_all
    then show ?thesis using 3 cap
      by (simp add: bx_output_quote_shell_reusable_dup_impl_def append_if_fits append_char_if_fits)
  next
    case 4
    have "\<exists>out'. reusable_loop (length s * 12 + 8) s MODE_NONE False (Some []) = Some out' \<and> reads SH_PLAIN out' ([] @ s) SH_PLAIN \<and>
        out' \<noteq> [] \<and> hd out' = SQ \<and> length out' + 1 < length s * 12 + 8"
    proof (rule reusable_loop_ok)
      have "1 \<le> length s" using 4(1) by (cases s) auto
      then show "length ([] :: string) + 9 * length s + 10 \<le> length s * 12 + 8" by simp
    qed (simp_all add: reads_Nil mode_state_def)
    then obtain q where "reusable_loop (length s * 12 + 8) s MODE_NONE False (Some []) = Some q" "reads SH_PLAIN q s SH_PLAIN"
      "q \<noteq> []" "hd q = SQ" "length q + 1 < length s * 12 + 8" by auto
    then show ?thesis using 4 cap sh_unquote_quoted [of q s] by (simp add: bx_output_quote_shell_reusable_dup_impl_def)
  qed
qed

lemma segment_start: "hd (bx_output_quote_append_shell_quoted_segment s True) \<in> {SQ, DQ} \<and>
    bx_output_quote_append_shell_quoted_segment s True \<noteq> []"
  by (simp add: bx_output_quote_append_shell_quoted_segment_def bx_output_quote_append_shell_single_quoted_segment_def
    bx_output_quote_append_shell_double_quoted_segment_def)

lemma escape_loop_start:
  "segment \<noteq> [] \<or> list_ex bx_output_quote_is_nongraphic s \<Longrightarrow>
   shell_escape_loop segment s \<noteq> [] \<and> hd (shell_escape_loop segment s) \<in> {SQ, DQ, CHR ''$''}"
proof (induction segment s rule: shell_escape_loop.induct)
  case (1 segment)
  then show ?case using segment_start [of segment] by auto
next
  case (2 segment ch cs)
  then show ?case using segment_start [of segment] by (auto simp: bx_output_quote_append_shell_escape_fragment_def hd_append)
qed

lemma shell_always_ok: "sh_unquote (bx_output_quote_shell_dup s True) = Some s"
  using segment_start [of s] reads_segment [of s True]
  by (intro sh_unquote_quoted) (auto simp: bx_output_quote_shell_dup_def)

lemma shell_maybe_ok:
  assumes "s \<noteq> []" and "hd s \<noteq> CHR ''~''"
  shows "sh_unquote (bx_output_quote_shell_dup s False) = Some s"
proof (cases "list_all bx_output_quote_shell_char_is_safe s")
  case True
  then have "list_all sh_literal s" using safe_literal by (simp add: list_all_iff)
  moreover have "bx_output_quote_shell_char_is_safe (hd s)" using True assms(1) by (cases s) simp_all
  then have "hd s \<noteq> CHR ''#''" by (auto simp: bx_output_quote_shell_char_is_safe_def c_isalnum_def)
  moreover have "s \<noteq> [CHR 0x7B]" "s \<noteq> [CHR 0x7D]" using True by (auto simp: bx_output_quote_shell_char_is_safe_def c_isalnum_def)
  ultimately have "sh_unquote s = Some s" using assms by (intro sh_unquote_whole reads_literal)
  then show ?thesis using True by (simp add: bx_output_quote_shell_dup_def bx_output_quote_append_shell_quoted_segment_def)
next
  case False
  then have "bx_output_quote_shell_dup s False = bx_output_quote_shell_dup s True"
    by (simp add: bx_output_quote_shell_dup_def bx_output_quote_append_shell_quoted_segment_def)
  then show ?thesis using shell_always_ok by simp
qed



text \<open>The style that quotes only when needed leaves a leading tilde, and an empty name, as they are.\<close>

lemma shell_quote_leading_tilde:
  "bx_output_quote_dup ''~root'' QUOTE_SHELL = Some ''~root'' \<and> sh_unquote ''~root'' = None \<and>
   bx_output_quote_dup [] QUOTE_SHELL = Some [] \<and> sh_unquote [] = None"
  by (simp add: bx_output_quote_dup_def bx_output_quote_shell_dup_def bx_output_quote_append_shell_quoted_segment_def
    bx_output_quote_shell_char_is_safe_def c_isalnum_def sh_unquote_def)

text \<open>
  The C, locale, escape and backslash styles are read back by the usual rules for backslash
  sequences, with the quotes of the style around the text.
\<close>

lemma c_quote_roundtrip:
  "c_read None (bx_output_quote_escape_dup s) = Some s \<and>
   hd (bx_output_quote_c_dup s) = DQ \<and> c_read (Some DQ) (tl (bx_output_quote_c_dup s)) = Some s \<and>
   hd (bx_output_quote_locale_dup s) = SQ \<and> c_read (Some SQ) (tl (bx_output_quote_locale_dup s)) = Some s \<and>
   hd (bx_output_quote_single_backslash_dup s) = SQ \<and> c_read (Some SQ) (tl (bx_output_quote_single_backslash_dup s)) = Some s"
proof -
  have "c_read None (concat (map (\<lambda>ch. bx_output_quote_append_escape_char ch True False False) s) @ []) = Some s"
    by (subst c_read_escapes) simp_all
  moreover have "c_read (Some DQ) (concat (map (\<lambda>ch. bx_output_quote_append_escape_char ch False True False) s) @ [DQ]) = Some s"
    by (subst c_read_escapes) simp_all
  moreover have "c_read (Some SQ) (concat (map (\<lambda>ch. bx_output_quote_append_escape_char ch False False True) s) @ [SQ]) = Some s"
    by (subst c_read_escapes) simp_all
  moreover have "c_read (Some SQ) (concat (map (\<lambda>ch. if ch = SQ \<or> ch = BSL then [BSL, ch] else [ch]) s) @ [SQ]) = Some s"
    by (subst c_read_single_backslash) simp
  ultimately show ?thesis
    by (simp add: bx_output_quote_escape_dup_def bx_output_quote_c_dup_def bx_output_quote_locale_dup_def
      bx_output_quote_single_backslash_dup_def)
qed

section \<open>The buffers are large enough\<close>

text \<open>The bytes that each style allocates for a name.\<close>

definition quote_capacity :: "string \<Rightarrow> bx_output_quote_style \<Rightarrow> nat" where
  "quote_capacity s style =
     (case style of
        QUOTE_LITERAL \<Rightarrow> length s + 1
      | QUOTE_LITERAL_HIDE_NONGRAPHIC \<Rightarrow> length s + 1
      | QUOTE_ESCAPE \<Rightarrow> length s * 4 + 1
      | QUOTE_C \<Rightarrow> length s * 4 + 3
      | QUOTE_LOCALE \<Rightarrow> length s * 4 + 3
      | QUOTE_SHELL \<Rightarrow> length s * 4 + 3
      | QUOTE_SHELL_ALWAYS \<Rightarrow> length s * 4 + 3
      | QUOTE_SHELL_ESCAPE \<Rightarrow> if bx_output_quote_has_nongraphic s then length s * 8 + 8 else length s * 4 + 3
      | QUOTE_SHELL_ESCAPE_ALWAYS \<Rightarrow> if bx_output_quote_has_nongraphic s then length s * 8 + 8 else length s * 4 + 3
      | QUOTE_SHELL_REUSABLE \<Rightarrow> if s = [] then 3 else length s * 12 + 8
      | QUOTE_SINGLE_BACKSLASH \<Rightarrow> length s * 2 + 3)"

lemma concat_map_le: "(\<And>c. c \<in> set s \<Longrightarrow> length (f c) \<le> n) \<Longrightarrow> length (concat (map f s)) \<le> n * length s"
  by (induction s) (auto simp: add_mono)

lemma escape_char_length: "length (bx_output_quote_append_escape_char ch es ed esq) \<le> 4"
  by (rule escape_char_cases [of ch es ed esq]) simp_all

lemma segment_length: "length (bx_output_quote_append_shell_quoted_segment s always) \<le> 2 * length s + 2"
  unfolding bx_output_quote_append_shell_quoted_segment_def bx_output_quote_append_shell_single_quoted_segment_def
    bx_output_quote_append_shell_double_quoted_segment_def
  using concat_map_le [of s "\<lambda>ch. if ch = DQ \<or> ch = BSL \<or> ch = CHR ''$'' \<or> ch = CHR 0x60 then [BSL, ch] else [ch]" 2] by auto

lemma escape_loop_length:
  "length (shell_escape_loop segment s) \<le> (if segment = [] then 0 else 2 * length segment + 2) + 8 * length s"
proof (induction segment s rule: shell_escape_loop.induct)
  case (1 segment)
  then show ?case using segment_length [of segment True] by simp
next
  case (2 segment ch cs)
  show ?case
  proof (cases "bx_output_quote_is_nongraphic ch")
    case False
    then show ?thesis using 2(1) by (auto split: if_splits)
  next
    case True
    have "length (bx_output_quote_append_shell_escape_fragment ch) \<le> 7"
      using escape_char_length [of ch False False False] by (simp add: bx_output_quote_append_shell_escape_fragment_def)
    then show ?thesis using 2(2) True segment_length [of segment True] by simp
  qed
qed



section \<open>Control characters\<close>

text \<open>
  With control characters replaced, only printable characters reach the terminal: for every
  name in the question-mark style, and for every name of 7-bit characters in the caret style.
\<close>

lemma control_quote_printable:
  assumes "style = CONTROL_QUESTION \<or> style = CONTROL_CARET \<and> list_all (\<lambda>c. code c < 128) s"
  shows "list_all c_isprint (bx_output_quote_control_dup s (Some (style, False)))"
proof -
  have caret: "c_isprint (char_of (code c XOR 64))" if c: "code c < 128" "\<not> c_isprint c" "code c \<noteq> 127" for c
  proof -
    have "code c < 32" using c by (auto simp: c_isprint_def)
    moreover have "list_all (\<lambda>n :: nat. n XOR 64 = n + 64) [0..<32]" by code_simp
    ultimately have "code c XOR 64 = code c + 64" unfolding list_all_iff set_upt by simp
    then show ?thesis using \<open>code c < 32\<close> by (simp add: c_isprint_def)
  qed
  have print: "c_isprint CHR ''?''" "c_isprint CHR ''^''" by (simp_all add: c_isprint_def)
  have "list_all c_isprint (control_char style False c)" if "c \<in> set s" for c
    using assms that caret [of c] print by (auto simp: control_char_def list_all_iff)
  then show ?thesis by (auto simp: bx_output_quote_control_dup_def list_all_iff)
qed

lemma control_quote_printable_witness:
  "list_all c_isprint (bx_output_quote_control_dup [CHR 0x1B, CHR ''a'', CHR 0x7F] (Some (CONTROL_CARET, False)))"
  by (rule control_quote_printable) simp

text \<open>Above 7 bits the caret style turns printable Latin-1 bytes into control bytes: 0xDB becomes 0x9B, the start of a sequence.\<close>

lemma control_caret_high_bytes:
  "bx_output_quote_control_dup [CHR 0xDB] (Some (CONTROL_CARET, False)) = [CHR ''^'', CHR 0x9B]"
  by code_simp

end
