(* ===== verification/ArgvPacker.thy ===== *)
theory ArgvPacker
  imports OutputQuote
begin

text \<open>
  \<open>src/src/lib/argv_packer.c\<close>: the argument vectors that \<open>xargs\<close>, \<open>find\<close> and \<open>fd\<close> hand to their
  commands: their size in bytes, the choice of how many items go into one command, the expansion of
  markers, and the splitting of a command line into words. An array of strings is a list (so the
  guards against a negative length of an array have no counterpart); \<open>size_t\<close> is a natural number
  with the guards of the code, and its value -1, which stands for failure, is \<open>None\<close>; \<open>avail n\<close>
  tells whether an allocation of \<open>n\<close> bytes succeeds.
\<close>

section \<open>Sizes\<close>

abbreviation INT_MAX :: int where
  "INT_MAX \<equiv> 2147483647"

definition bx_argv_add_size :: "nat \<Rightarrow> nat \<Rightarrow> nat option" where
  "bx_argv_add_size tot v = (if v > size_max - tot then None else Some (tot + v))"

definition bx_argv_string_bytes :: "string \<Rightarrow> nat option" where
  "bx_argv_string_bytes arg = (if length arg = size_max then None else Some (length arg + 1))"

definition bx_argv_pointer_bytes_checked :: "int \<Rightarrow> nat option" where
  "bx_argv_pointer_bytes_checked argc =
     (if argc < 0 then None else if nat argc > size_max div 8 then None else Some (nat argc * 8))"

definition bx_argv_pointer_bytes :: "int \<Rightarrow> nat option" where
  "bx_argv_pointer_bytes argc = bx_argv_pointer_bytes_checked argc"

definition bx_argv_count_one :: "int \<Rightarrow> int option" where
  "bx_argv_count_one argc = (if argc = INT_MAX then None else Some (argc + 1))"

text \<open>One more string of so many bytes, and the loop over an array.\<close>

definition count_bytes :: "nat \<Rightarrow> nat \<times> int \<Rightarrow> (nat \<times> int) option" where
  "count_bytes arg_bytes s =
     (case bx_argv_add_size (fst s) arg_bytes of None \<Rightarrow> None
      | Some tot \<Rightarrow> (case bx_argv_count_one (snd s) of None \<Rightarrow> None | Some argc \<Rightarrow> Some (tot, argc)))"

definition count_string :: "string \<Rightarrow> nat \<times> int \<Rightarrow> (nat \<times> int) option" where
  "count_string arg s = (case bx_argv_string_bytes arg of None \<Rightarrow> None | Some n \<Rightarrow> count_bytes n s)"

definition finish_bytes :: "nat \<times> int \<Rightarrow> nat option" where
  "finish_bytes s = (case bx_argv_pointer_bytes (snd s) of None \<Rightarrow> None | Some p \<Rightarrow> bx_argv_add_size (fst s) p)"

fun environment_loop :: "string list \<Rightarrow> nat \<Rightarrow> nat option" where
  "environment_loop [] n = Some n"
| "environment_loop (e # es) n =
     (case bx_argv_string_bytes e of None \<Rightarrow> None
      | Some b \<Rightarrow> (case bx_argv_add_size n b of None \<Rightarrow> None | Some n' \<Rightarrow> environment_loop es n'))"

definition bx_argv_environment_bytes :: "string list option \<Rightarrow> nat option" where
  "bx_argv_environment_bytes environ = (case environ of None \<Rightarrow> Some 0 | Some es \<Rightarrow> environment_loop es 0)"

definition bx_argv_bytes :: "string list option \<Rightarrow> nat option" where
  "bx_argv_bytes argv =
     (case argv of None \<Rightarrow> Some 0
      | Some args \<Rightarrow> (case run_all count_string args (0, 0) of None \<Rightarrow> None | Some s \<Rightarrow> finish_bytes s))"

fun count_items :: "string list \<Rightarrow> int \<Rightarrow> int list \<Rightarrow> nat \<times> int \<Rightarrow> (nat \<times> int) option" where
  "count_items items start [] s = Some s"
| "count_items items start (i # is) s =
     (if start > INT_MAX - i then None
      else case count_string (items ! nat (start + i)) s of None \<Rightarrow> None | Some s' \<Rightarrow> count_items items start is s')"

definition bx_argv_bytes_with_items :: "string list \<Rightarrow> string list \<Rightarrow> int \<Rightarrow> int \<Rightarrow> nat option" where
  "bx_argv_bytes_with_items base_argv items start count =
     (if start < 0 \<or> count < 0 then None
      else case run_all count_string base_argv (0, 0) of None \<Rightarrow> None
        | Some s \<Rightarrow> (case count_items items start [0..count - 1] s of None \<Rightarrow> None | Some s' \<Rightarrow> finish_bytes s'))"

section \<open>Growing vectors and words\<close>

text \<open>
  The vector with its capacity; the terminating \<open>NULL\<close> takes one of its places. An element that is
  \<open>NULL\<close> is \<open>None\<close>; whoever reads the vector stops there.
\<close>

type_synonym argv_buf = "string option list \<times> int"

definition argv_view :: "string option list \<Rightarrow> string list" where
  "argv_view argv = map the (takeWhile (\<lambda>a. a \<noteq> None) argv)"

text \<open>\<open>strdup\<close>.\<close>

definition c_strdup :: "(nat \<Rightarrow> bool) \<Rightarrow> string \<Rightarrow> string option" where
  "c_strdup avail s = (if avail (length s + 1) then Some s else None)"

definition bx_argv_push_owned :: "(nat \<Rightarrow> bool) \<Rightarrow> argv_buf \<Rightarrow> string option \<Rightarrow> argv_buf option" where
  "bx_argv_push_owned avail buf arg =
     (let argc = int (length (fst buf)); cap = snd buf in
      if argc = INT_MAX then None
      else if argc + 1 \<ge> cap then
        (if cap > INT_MAX div 2 then None
         else
           let new_cap = (if cap = 0 then 8 else cap * 2) in
           if nat new_cap > size_max div 8 then None
           else if \<not> avail (nat new_cap * 8) then None
           else Some (fst buf @ [arg], new_cap))
      else Some (fst buf @ [arg], cap))"

type_synonym word_buf = "string \<times> nat"

definition bx_argv_word_push_char :: "(nat \<Rightarrow> bool) \<Rightarrow> word_buf \<Rightarrow> char \<Rightarrow> word_buf option" where
  "bx_argv_word_push_char avail word ch =
     (let len = length (fst word); cap = snd word in
      if len = size_max then None
      else if len + 1 \<ge> cap then
        (let new_cap = (if cap = 0 then 32 else cap * 2 mod 2 ^ 64) in
         if new_cap \<le> cap then None
         else if \<not> avail new_cap then None
         else Some (fst word @ [ch], new_cap))
      else Some (fst word @ [ch], cap))"

section \<open>Splitting a command\<close>

text \<open>The inner loop: the open quote, the word so far, whether it has begun, the cursor.\<close>

fun parse_word :: "(nat \<Rightarrow> bool) \<Rightarrow> char option \<Rightarrow> word_buf \<Rightarrow> bool \<Rightarrow> string \<Rightarrow> (char option \<times> word_buf \<times> bool \<times> string) option" where
  "parse_word avail quote w started [] = Some (quote, w, started, [])"
| "parse_word avail quote w started (ch # cs) =
     (if quote = None \<and> c_isspace ch then Some (quote, w, started, ch # cs)
      else if ch = SQ \<and> quote \<noteq> Some DQ then parse_word avail (if quote = Some SQ then None else Some SQ) w True cs
      else if ch = DQ \<and> quote \<noteq> Some SQ then parse_word avail (if quote = Some DQ then None else Some DQ) w True cs
      else if ch = BSL \<and> quote \<noteq> Some SQ then
        (case cs of [] \<Rightarrow> None
         | d # ds \<Rightarrow>
             (case bx_argv_word_push_char avail w d of None \<Rightarrow> None | Some w' \<Rightarrow> parse_word avail quote w' True ds))
      else (case bx_argv_word_push_char avail w ch of None \<Rightarrow> None | Some w' \<Rightarrow> parse_word avail quote w' True cs))"

lemma parse_word_length: "parse_word avail q w b s = Some (q', w', b', rest) \<Longrightarrow> length rest \<le> length s"
  by (induction avail q w b s rule: parse_word.induct) (auto split: if_splits option.splits list.splits simp: le_SucI)

lemma parse_word_consumes:
  "parse_word avail None w b s = Some (q', w', b', rest) \<Longrightarrow> s \<noteq> [] \<Longrightarrow> \<not> c_isspace (hd s) \<Longrightarrow> length rest < length s"
  by (cases s) (auto split: if_splits option.splits list.splits dest!: parse_word_length)

function parse_words :: "(nat \<Rightarrow> bool) \<Rightarrow> argv_buf \<Rightarrow> string \<Rightarrow> argv_buf option" where
  "parse_words avail argv s =
     (if dropWhile c_isspace s = [] then Some argv
      else case parse_word avail None ([], 0) False (dropWhile c_isspace s) of
          None \<Rightarrow> None
        | Some (quote, word, started, rest) \<Rightarrow>
            if quote \<noteq> None \<or> \<not> started then None
            else if snd word = 0 \<and> \<not> avail 1 then None
            else case bx_argv_push_owned avail argv (Some (fst word)) of
                None \<Rightarrow> None
              | Some argv' \<Rightarrow> parse_words avail argv' (dropWhile c_isspace rest))"
  by pat_completeness auto
termination
proof (relation "measure (\<lambda>(avail, argv, s). length s)", goal_cases)
  case (2 avail argv s x quote x2 word x3 started rest argv')
  then have "parse_word avail None ([], 0) False (dropWhile c_isspace s) = Some (quote, word, started, rest)" by simp
  from parse_word_consumes [OF this] 2(1) have "length rest < length (dropWhile c_isspace s)"
    by (simp add: hd_dropWhile)
  moreover have "length (dropWhile c_isspace rest) \<le> length rest" "length (dropWhile c_isspace s) \<le> length s"
    by (rule length_dropWhile_le)+
  ultimately show ?case by simp
qed simp

declare parse_words.simps [simp del]

definition bx_argv_parse_command :: "(nat \<Rightarrow> bool) \<Rightarrow> cstr \<Rightarrow> string list option" where
  "bx_argv_parse_command avail command =
     (case command of None \<Rightarrow> None
      | Some s \<Rightarrow>
          (case parse_words avail ([], 0) s of
             None \<Rightarrow> None
           | Some argv \<Rightarrow> if fst argv = [] then None else Some (argv_view (fst argv))))"

section \<open>Expansion of markers\<close>

text \<open>
  The callbacks: how many markers an argument has, the argument with the item in their place, and
  its size. A callback that is \<open>NULL\<close> is \<open>None\<close>; an expansion that fails is \<open>None\<close>.
\<close>

definition item_total :: "bool \<Rightarrow> int \<Rightarrow> int" where
  "item_total batch_mode count = (if batch_mode then count else if count > 0 then 1 else 0)"

definition marker_count :: "(string \<Rightarrow> nat) option \<Rightarrow> string \<Rightarrow> nat" where
  "marker_count marker_count_fn arg = (case marker_count_fn of None \<Rightarrow> 0 | Some f \<Rightarrow> f arg)"

definition push_copy :: "(nat \<Rightarrow> bool) \<Rightarrow> string \<Rightarrow> argv_buf \<Rightarrow> argv_buf option" where
  "push_copy avail s buf = bx_argv_push_owned avail buf (c_strdup avail s)"

definition push_expanded ::
  "(nat \<Rightarrow> bool) \<Rightarrow> (string \<Rightarrow> string \<Rightarrow> string option) option \<Rightarrow> string list \<Rightarrow> int \<Rightarrow> string \<Rightarrow> int \<Rightarrow> argv_buf \<Rightarrow> argv_buf option" where
  "push_expanded avail expand_arg_fn items start arg j buf =
     (case expand_arg_fn of None \<Rightarrow> None
      | Some f \<Rightarrow>
          (case f arg (items ! nat (start + j)) of None \<Rightarrow> None | Some e \<Rightarrow> bx_argv_push_owned avail buf (Some e)))"

definition build_arg ::
  "(nat \<Rightarrow> bool) \<Rightarrow> (string \<Rightarrow> nat) option \<Rightarrow> (string \<Rightarrow> string \<Rightarrow> string option) option \<Rightarrow> string list \<Rightarrow> int \<Rightarrow> int \<Rightarrow>
     string \<Rightarrow> argv_buf \<Rightarrow> argv_buf option" where
  "build_arg avail marker_count_fn expand_arg_fn items start tot arg buf =
     (if marker_count marker_count_fn arg = 0 then push_copy avail arg buf
      else run_all (push_expanded avail expand_arg_fn items start arg) [0..tot - 1] buf)"

text \<open>The vector as its readers see it, and whether a marker was seen.\<close>

definition bx_argv_build_with_item_expansion ::
  "(nat \<Rightarrow> bool) \<Rightarrow> string list \<Rightarrow> string list \<Rightarrow> int \<Rightarrow> int \<Rightarrow> bool \<Rightarrow> (string \<Rightarrow> nat) option \<Rightarrow>
     (string \<Rightarrow> string \<Rightarrow> string option) option \<Rightarrow> (string list \<times> bool) option" where
  "bx_argv_build_with_item_expansion avail base_argv items start count batch_mode marker_count_fn expand_arg_fn =
     (if start < 0 \<or> count < 0 then None
      else
        let tot = item_total batch_mode count;
            saw = list_ex (\<lambda>arg. marker_count marker_count_fn arg \<noteq> 0) base_argv in
        case run_all (build_arg avail marker_count_fn expand_arg_fn items start tot) base_argv ([], 0) of
          None \<Rightarrow> None
        | Some buf \<Rightarrow>
            (case (if saw then Some buf
                   else run_all (\<lambda>j. push_copy avail (items ! nat (start + j))) [0..tot - 1] buf) of
               None \<Rightarrow> None
             | Some buf' \<Rightarrow> if snd buf' = 0 \<and> \<not> avail 8 then None else Some (argv_view (fst buf'), saw)))"

definition count_expanded ::
  "(string \<Rightarrow> string \<Rightarrow> nat option) option \<Rightarrow> string list \<Rightarrow> int \<Rightarrow> string \<Rightarrow> int \<Rightarrow> nat \<times> int \<Rightarrow> (nat \<times> int) option" where
  "count_expanded expand_bytes_fn items start arg j s =
     (if start > INT_MAX - j then None
      else case expand_bytes_fn of None \<Rightarrow> None
        | Some f \<Rightarrow> (case f arg (items ! nat (start + j)) of None \<Rightarrow> None | Some n \<Rightarrow> count_bytes n s))"

definition count_arg ::
  "(string \<Rightarrow> nat) option \<Rightarrow> (string \<Rightarrow> string \<Rightarrow> nat option) option \<Rightarrow> string list \<Rightarrow> int \<Rightarrow> int \<Rightarrow>
     string \<Rightarrow> nat \<times> int \<Rightarrow> (nat \<times> int) option" where
  "count_arg marker_count_fn expand_bytes_fn items start tot arg s =
     (if marker_count marker_count_fn arg = 0 then
        (case (case expand_bytes_fn of Some f \<Rightarrow> f arg [] | None \<Rightarrow> bx_argv_string_bytes arg) of
           None \<Rightarrow> None | Some n \<Rightarrow> count_bytes n s)
      else run_all (count_expanded expand_bytes_fn items start arg) [0..tot - 1] s)"

definition bx_argv_bytes_with_item_expansion ::
  "string list \<Rightarrow> string list \<Rightarrow> int \<Rightarrow> int \<Rightarrow> bool \<Rightarrow> (string \<Rightarrow> nat) option \<Rightarrow>
     (string \<Rightarrow> string \<Rightarrow> nat option) option \<Rightarrow> (nat \<times> bool) option" where
  "bx_argv_bytes_with_item_expansion base_argv items start count batch_mode marker_count_fn expand_bytes_fn =
     (if start < 0 \<or> count < 0 then None
      else
        let tot = item_total batch_mode count;
            saw = list_ex (\<lambda>arg. marker_count marker_count_fn arg \<noteq> 0) base_argv in
        case run_all (count_arg marker_count_fn expand_bytes_fn items start tot) base_argv (0, 0) of
          None \<Rightarrow> None
        | Some s \<Rightarrow>
            (case (if saw then Some s else count_items items start [0..tot - 1] s) of
               None \<Rightarrow> None
             | Some s' \<Rightarrow> (case finish_bytes s' of None \<Rightarrow> None | Some n \<Rightarrow> Some (n, saw))))"

section \<open>Choosing a batch\<close>

definition bx_argv_effective_char_limit :: "int \<Rightarrow> string list option \<Rightarrow> int \<Rightarrow> nat" where
  "bx_argv_effective_char_limit sys_arg_max environ max_chars =
     (let sys_limit =
        (if sys_arg_max > 0 then
           let env_bytes = (case bx_argv_environment_bytes environ of None \<Rightarrow> size_max | Some n \<Rightarrow> n) in
           if nat sys_arg_max > env_bytes then nat sys_arg_max - env_bytes else 0
         else 0) in
      if max_chars > 0 \<and> sys_limit > 0 then (if nat max_chars < sys_limit then nat max_chars else sys_limit)
      else if max_chars > 0 then nat max_chars
      else sys_limit)"

text \<open>The loop of both selections: \<open>bytes_fn start n\<close> is the size of the command with \<open>n\<close> items.\<close>

function batch_bytes_loop :: "(int \<Rightarrow> int \<Rightarrow> nat option) \<Rightarrow> int \<Rightarrow> int \<Rightarrow> nat \<Rightarrow> int \<Rightarrow> int \<Rightarrow> int option" where
  "batch_bytes_loop bytes_fn item_count start char_limit limit taken =
     (if start + taken < item_count \<and> taken < limit then
        (case bytes_fn start (taken + 1) of
           None \<Rightarrow> None
         | Some bytes \<Rightarrow>
             if char_limit > 0 \<and> bytes > char_limit then Some taken
             else batch_bytes_loop bytes_fn item_count start char_limit limit (taken + 1))
      else Some taken)"
  by pat_completeness auto
termination by (relation "measure (\<lambda>(bytes_fn, item_count, start, char_limit, limit, taken). nat (limit - taken))") auto

declare batch_bytes_loop.simps [simp del]

definition capped :: "int \<Rightarrow> int \<Rightarrow> int" where
  "capped m available = (if m > 0 then m else available)"

definition bx_argv_select_batch_count_by_bytes ::
  "int \<Rightarrow> int \<Rightarrow> int \<Rightarrow> int \<Rightarrow> nat \<Rightarrow> (int \<Rightarrow> int \<Rightarrow> nat option) option \<Rightarrow> int option" where
  "bx_argv_select_batch_count_by_bytes item_count start max_args max_lines char_limit bytes_fn =
     (case bytes_fn of None \<Rightarrow> None
      | Some f \<Rightarrow>
          if item_count < 0 \<or> start < 0 \<or> start > item_count then None
          else
            let limit = min (capped max_args (item_count - start)) (capped max_lines (item_count - start)) in
            case batch_bytes_loop f item_count start char_limit limit 0 of
              None \<Rightarrow> None | Some n \<Rightarrow> if n > 0 then Some n else None)"

definition group_of :: "int list option \<Rightarrow> int \<Rightarrow> int \<Rightarrow> int" where
  "group_of line_groups start i = (case line_groups of Some g \<Rightarrow> g ! nat (start + i) | None \<Rightarrow> start + i)"

text \<open>The loop that also counts the lines from which the items come.\<close>

function batch_lines_loop ::
  "string list \<Rightarrow> string list \<Rightarrow> int list option \<Rightarrow> int \<Rightarrow> int \<Rightarrow> nat \<Rightarrow> int \<Rightarrow> int \<Rightarrow> int \<Rightarrow> int \<Rightarrow> int \<Rightarrow> int option" where
  "batch_lines_loop base_argv items line_groups item_count start char_limit capped_args capped_lines taken used_lines last_group =
     (if start + taken < item_count \<and> taken < capped_args then
        let group = group_of line_groups start taken;
            new_group = (taken = 0 \<or> group \<noteq> last_group) in
        if new_group \<and> used_lines \<ge> capped_lines then Some taken
        else case bx_argv_bytes_with_items base_argv items start (taken + 1) of
            None \<Rightarrow> None
          | Some bytes \<Rightarrow>
              if char_limit > 0 \<and> bytes > char_limit then Some taken
              else batch_lines_loop base_argv items line_groups item_count start char_limit capped_args capped_lines (taken + 1)
                (if new_group then used_lines + 1 else used_lines) (if new_group then group else last_group)
      else Some taken)"
  by pat_completeness auto
termination
  by (relation "measure (\<lambda>(base_argv, items, line_groups, item_count, start, char_limit, capped_args, capped_lines, taken, u, l).
    nat (capped_args - taken))") auto

declare batch_lines_loop.simps [simp del]

definition bx_argv_select_batch_count ::
  "string list \<Rightarrow> string list \<Rightarrow> int list option \<Rightarrow> int \<Rightarrow> int \<Rightarrow> int \<Rightarrow> int \<Rightarrow> nat \<Rightarrow> int option" where
  "bx_argv_select_batch_count base_argv items line_groups item_count start max_args max_lines char_limit =
     (if item_count < 0 \<or> start < 0 \<or> start > item_count then None
      else
        case batch_lines_loop base_argv items line_groups item_count start char_limit (capped max_args (item_count - start))
          (capped max_lines (item_count - start)) 0 0 (-1) of
          None \<Rightarrow> None | Some n \<Rightarrow> if n > 0 then Some n else None)"

section \<open>Quoted words are split back\<close>

definition quote_word :: "string \<Rightarrow> string" where
  "quote_word s = SQ # concat (map (\<lambda>c. if c = SQ then [SQ, BSL, SQ, SQ] else [c]) s) @ [SQ]"

lemma write_single_body_ok:
  "write_single_body (\<lambda>_. True) n out s = Some (n + length s, out @ concat (map (\<lambda>c. if c = SQ then [SQ, BSL, SQ, SQ] else [c]) s))"
  by (induction s arbitrary: n out) auto

lemma write_single_ok: "bx_output_quote_write_single (\<lambda>_. True) s = Some (quote_word s)"
  by (simp add: bx_output_quote_write_single_def write_single_body_ok quote_word_def)

lemma push_char_ok:
  "length (fst w) < 2 ^ 62 \<Longrightarrow> \<exists>cap. bx_argv_word_push_char (\<lambda>_. True) w c = Some (fst w @ [c], cap)"
  by (auto simp: bx_argv_word_push_char_def Let_def)

lemma parse_word_body:
  assumes "length (fst w) + length s < 2 ^ 62"
  shows "\<exists>cap. parse_word (\<lambda>_. True) (Some SQ) w True (concat (map (\<lambda>c. if c = SQ then [SQ, BSL, SQ, SQ] else [c]) s) @ SQ # rest) =
    parse_word (\<lambda>_. True) None (fst w @ s, cap) True rest"
  using assms
proof (induction s arbitrary: w)
  case Nil
  then show ?case by (intro exI [of _ "snd w"]) simp
next
  case (Cons c s)
  then have "length (fst w) < 2 ^ 62" by simp
  from push_char_ok [OF this, of c] obtain cap where p: "bx_argv_word_push_char (\<lambda>_. True) w c = Some (fst w @ [c], cap)" ..
  have "length (fst (fst w @ [c], cap)) + length s < 2 ^ 62" using Cons.prems by simp
  from Cons.IH [OF this] show ?case using p by (auto simp: c_isspace_def)
qed

lemma parse_word_quoted:
  assumes "length s < 2 ^ 62" and "rest = [] \<or> c_isspace (hd rest)"
  shows "\<exists>cap. parse_word (\<lambda>_. True) None ([], 0) False (quote_word s @ rest) = Some (None, (s, cap), True, rest)"
proof -
  obtain cap where c: "parse_word (\<lambda>_. True) (Some SQ) ([], 0) True
      (concat (map (\<lambda>c. if c = SQ then [SQ, BSL, SQ, SQ] else [c]) s) @ SQ # rest) = parse_word (\<lambda>_. True) None (s, cap) True rest"
    using parse_word_body [of "([], 0)" s rest] assms(1) by auto
  have "parse_word (\<lambda>_. True) None (s, cap) True rest = Some (None, (s, cap), True, rest)"
    using assms(2) by (cases rest) simp_all
  then show ?thesis using c by (intro exI [of _ cap]) (simp add: quote_word_def c_isspace_def)
qed

fun words_text :: "string list \<Rightarrow> string" where
  "words_text [] = []"
| "words_text [s] = quote_word s"
| "words_text (s # ss) = quote_word s @ CHR '' '' # words_text ss"

lemma words_text_Cons: "words_text (s # ss) = quote_word s @ (if ss = [] then [] else CHR '' '' # words_text ss)"
  by (cases ss) simp_all

lemma words_text_start: "ss \<noteq> [] \<Longrightarrow> dropWhile c_isspace (words_text ss) = words_text ss \<and> words_text ss \<noteq> []"
  by (cases ss) (simp_all add: words_text_Cons quote_word_def c_isspace_def)

lemma push_owned_ok:
  "int (length (fst buf)) < 1073741822 \<Longrightarrow> \<exists>cap. bx_argv_push_owned (\<lambda>_. True) buf a = Some (fst buf @ [a], cap)"
proof -
  assume len: "int (length (fst buf)) < 1073741822"
  have "(2147483647 :: int) div 2 = 1073741823" by simp
  then show ?thesis using len by (auto simp: bx_argv_push_owned_def Let_def)
qed

lemma parse_words_ok:
  assumes "\<forall>s \<in> set ss. length s < 2 ^ 62" and "int (length (fst buf)) + int (length ss) < 1073741823"
  shows "\<exists>cap. parse_words (\<lambda>_. True) buf (words_text ss) = Some (fst buf @ map Some ss, cap)"
  using assms
proof (induction ss arbitrary: buf)
  case Nil
  then show ?case by (subst parse_words.simps) (intro exI [of _ "snd buf"], simp)
next
  case (Cons s ss)
  let ?rest = "if ss = [] then [] else CHR '' '' # words_text ss"
  have "length s < 2 ^ 62" "?rest = [] \<or> c_isspace (hd ?rest)" using Cons.prems by (simp_all add: c_isspace_def)
  from parse_word_quoted [OF this] obtain cap where
    w: "parse_word (\<lambda>_. True) None ([], 0) False (words_text (s # ss)) = Some (None, (s, cap), True, ?rest)"
    unfolding words_text_Cons by blast
  obtain cap2 where p: "bx_argv_push_owned (\<lambda>_. True) buf (Some s) = Some (fst buf @ [Some s], cap2)"
    using push_owned_ok [of buf "Some s"] Cons.prems(2) by auto
  have d: "dropWhile c_isspace ?rest = words_text ss" using words_text_start [of ss] by (simp add: c_isspace_def)
  have "\<exists>cap. parse_words (\<lambda>_. True) (fst buf @ [Some s], cap2) (words_text ss) = Some ((fst buf @ [Some s]) @ map Some ss, cap)"
    using Cons.IH [of "(fst buf @ [Some s], cap2)"] Cons.prems by simp
  then show ?case using words_text_start [of "s # ss"] w p d by (subst parse_words.simps) simp
qed

lemma argv_view_all: "argv_view (map Some ss) = ss"
  by (induction ss) (simp_all add: argv_view_def)

text \<open>
  C18: the words written in single quotes and separated by spaces are split back into exactly the
  same words, whatever characters they have: quotes, backslashes, blanks, or none at all.
\<close>

theorem parse_command_quoted:
  assumes "ss \<noteq> []" and "int (length ss) < 1073741823" and "\<forall>s \<in> set ss. length s < 2 ^ 62"
  shows "bx_argv_parse_command (\<lambda>_. True) (Some (words_text ss)) = Some ss \<and>
    map (bx_output_quote_write_single (\<lambda>_. True)) ss = map (Some \<circ> quote_word) ss"
proof -
  obtain cap where "parse_words (\<lambda>_. True) ([], 0) (words_text ss) = Some (map Some ss, cap)"
    using parse_words_ok [of ss "([], 0)"] assms by auto
  then show ?thesis using assms(1) by (simp add: bx_argv_parse_command_def argv_view_all write_single_ok)
qed

lemma parse_command_quoted_witness:
  "bx_argv_parse_command (\<lambda>_. True) (Some (words_text [''it's'', [], ''a b''])) = Some [''it's'', [], ''a b''] \<and>
   map (bx_output_quote_write_single (\<lambda>_. True)) [''it's'', [], ''a b''] = map (Some \<circ> quote_word) [''it's'', [], ''a b'']"
  by (rule parse_command_quoted) simp_all


section \<open>The batch is the longest that fits\<close>

text \<open>
  What a number of items has to satisfy: room for the bytes of every shorter batch as well (the size
  is asked for each), and at most so many lines, counted as changes of group.
\<close>

definition lines_of :: "int list option \<Rightarrow> int \<Rightarrow> int \<Rightarrow> int" where
  "lines_of line_groups start n = int (length (remdups_adj
     (map (group_of line_groups start) [0..n - 1])))"

definition batch_fits :: "string list \<Rightarrow> string list \<Rightarrow> int list option \<Rightarrow> int \<Rightarrow> int \<Rightarrow> nat \<Rightarrow> int \<Rightarrow> bool" where
  "batch_fits base_argv items line_groups start capped_lines char_limit n =
     (lines_of line_groups start n \<le> capped_lines \<and>
      (case bx_argv_bytes_with_items base_argv items start n of None \<Rightarrow> False | Some b \<Rightarrow> char_limit = 0 \<or> b \<le> char_limit))"

lemma lines_of_0: "lines_of g start 0 = 0"
  by (simp add: lines_of_def)

lemma lines_of_Suc:
  assumes "0 \<le> n"
  shows "lines_of lg start (n + 1) = lines_of lg start n +
    (if n = 0 \<or> group_of lg start n \<noteq> group_of lg start (n - 1) then 1 else 0)"
proof -
  let ?f = "group_of lg start"
  have up: "[0..n + 1 - 1] = [0..n - 1] @ [n]" using assms upto_rec2 [of 0 n] by simp
  have rs: "length (remdups_adj (xs @ [x])) = length (remdups_adj xs) + (if xs = [] \<or> x \<noteq> last xs then 1 else 0)" for xs :: "int list" and x
  proof (cases xs rule: rev_cases)
    case (snoc ys y)
    then show ?thesis by (simp add: remdups_adj_append_two)
  qed simp
  show ?thesis
  proof (cases "n = 0")
    case True
    then show ?thesis by (simp add: lines_of_def)
  next
    case False
    then have last: "last (map ?f [0..n - 1]) = ?f (n - 1)" and ne: "[0..n - 1] \<noteq> []"
      using assms upto_rec2 [of 0 "n - 1"] by (simp_all add: last_map)
    show ?thesis using False ne last rs [of "map ?f [0..n - 1]" "?f n"] unfolding lines_of_def up by simp
  qed
qed

lemma batch_lines_loop_max:
  assumes "0 \<le> taken" and "used_lines = lines_of lg start taken" and "used_lines \<le> capped_lines"
    and "taken > 0 \<longrightarrow> last_group = group_of lg start (taken - 1)"
    and "batch_lines_loop base items lg item_count start char_limit capped_args capped_lines taken used_lines last_group = Some n"
    and "taken > 0 \<longrightarrow> batch_fits base items lg start capped_lines char_limit taken"
    and "taken \<le> min capped_args (item_count - start)"
  shows "taken \<le> n \<and> n \<le> min capped_args (item_count - start) \<and>
    (n > 0 \<longrightarrow> batch_fits base items lg start capped_lines char_limit n) \<and>
    (n = min capped_args (item_count - start) \<or> \<not> batch_fits base items lg start capped_lines char_limit (n + 1))"
  using assms
proof (induction base items lg item_count start char_limit capped_args capped_lines taken used_lines last_group
    rule: batch_lines_loop.induct)
  case (1 base items lg item_count start char_limit capped_args capped_lines taken used_lines last_group)
  let ?group = "group_of lg start taken"
  let ?new = "taken = 0 \<or> ?group \<noteq> last_group"
  have lines: "lines_of lg start (taken + 1) = used_lines + (if ?new then 1 else 0)"
    using lines_of_Suc [OF "1.prems"(1), of lg start] "1.prems"(1,2,4) by auto
  show ?case
  proof (cases "start + taken < item_count \<and> taken < capped_args")
    case False
    then have "n = taken" using "1.prems"(5) by (subst (asm) batch_lines_loop.simps) auto
    then show ?thesis using False "1.prems" by auto
  next
    case more: True
    show ?thesis
    proof (cases "?new \<and> used_lines \<ge> capped_lines")
      case True
      then have "n = taken" using more "1.prems"(5) by (subst (asm) batch_lines_loop.simps) (simp add: Let_def)
      then show ?thesis using True "1.prems" lines by (simp add: batch_fits_def)
    next
      case few: False
      then obtain b where b: "bx_argv_bytes_with_items base items start (taken + 1) = Some b"
        using more "1.prems"(5) by (subst (asm) batch_lines_loop.simps) (auto simp: Let_def split: option.splits if_splits)
      show ?thesis
      proof (cases "char_limit > 0 \<and> b > char_limit")
        case True
        then have "n = taken" using more few b "1.prems"(5) by (subst (asm) batch_lines_loop.simps) (auto simp: Let_def)
        then show ?thesis using True b "1.prems" by (simp add: batch_fits_def)
      next
        case small: False
        let ?u = "if ?new then used_lines + 1 else used_lines" and ?g = "if ?new then ?group else last_group"
        have run: "batch_lines_loop base items lg item_count start char_limit capped_args capped_lines (taken + 1) ?u ?g = Some n"
          using more few b small "1.prems"(5) by (subst (asm) batch_lines_loop.simps) (auto simp: Let_def)
        have u: "?u = lines_of lg start (taken + 1)" using lines by simp
        have fits: "batch_fits base items lg start capped_lines char_limit (taken + 1)"
          using few small b lines "1.prems"(3) by (auto simp: batch_fits_def)
        have "taken + 1 \<le> n \<and> n \<le> min capped_args (item_count - start) \<and>
          (n > 0 \<longrightarrow> batch_fits base items lg start capped_lines char_limit n) \<and>
          (n = min capped_args (item_count - start) \<or> \<not> batch_fits base items lg start capped_lines char_limit (n + 1))"
        proof (rule "1.IH" [OF more refl refl few b small _ _ _ _ run])
          show "?u \<le> capped_lines" using few "1.prems"(3) by auto
          show "taken + 1 \<le> min capped_args (item_count - start)" using more by simp
        qed (use u fits "1.prems"(1) in auto)
        then show ?thesis by simp
      qed
    qed
  qed
qed

text \<open>
  C19: the batch that is chosen is not empty, fits the limits on arguments, lines and bytes, and is
  the longest one: either all items or arguments are used up, or one more item does not fit.
\<close>

theorem select_batch_longest:
  assumes "bx_argv_select_batch_count base_argv items line_groups item_count start max_args max_lines char_limit = Some n"
  shows "0 < n \<and> n \<le> min (capped max_args (item_count - start)) (item_count - start) \<and>
    batch_fits base_argv items line_groups start (capped max_lines (item_count - start)) char_limit n \<and>
    (n = min (capped max_args (item_count - start)) (item_count - start) \<or>
     \<not> batch_fits base_argv items line_groups start (capped max_lines (item_count - start)) char_limit (n + 1))"
proof -
  have s: "0 \<le> start" "start \<le> item_count" "0 < n"
    and run: "batch_lines_loop base_argv items line_groups item_count start char_limit (capped max_args (item_count - start))
      (capped max_lines (item_count - start)) 0 0 (-1) = Some n"
    using assms by (auto simp: bx_argv_select_batch_count_def split: if_splits option.splits)
  have c: "0 \<le> capped m (item_count - start)" for m using s by (simp add: capped_def)
  show ?thesis
    using batch_lines_loop_max [OF _ _ _ _ run, of] s c [of max_args] c [of max_lines] by (simp add: lines_of_0)
qed

lemma select_batch_longest_witness:
  "(0 :: int) < 2 \<and> batch_fits [''rm''] [''a'', ''b'', ''c''] None 0 (capped 0 (3 - 0)) 31 2"
proof -
  have u: "[0..1 :: int] = [0, 1]" "[0..2 :: int] = [0, 1, 2]" by (simp_all add: upto.simps)
  have b: "bx_argv_bytes_with_items [''rm''] [''a'', ''b'', ''c''] 0 n =
      (if n = 1 then Some 21 else if n = 2 then Some 31 else if n = 3 then Some 41 else None)" if "n \<in> {1, 2, 3}" for n :: int
    using that by (elim insertE emptyE) (simp_all add: u bx_argv_bytes_with_items_def count_string_def count_bytes_def bx_argv_string_bytes_def
      bx_argv_add_size_def bx_argv_count_one_def finish_bytes_def bx_argv_pointer_bytes_def bx_argv_pointer_bytes_checked_def)
  have "bx_argv_select_batch_count [''rm''] [''a'', ''b'', ''c''] None 3 0 0 0 31 = Some 2"
    by (simp add: bx_argv_select_batch_count_def capped_def batch_lines_loop.simps b group_of_def Let_def)
  from select_batch_longest [OF this] show ?thesis by blast
qed

section \<open>The announced size is the size of the vector\<close>

lemma run_all_append: "run_all f (xs @ ys) s = (case run_all f xs s of None \<Rightarrow> None | Some s' \<Rightarrow> run_all f ys s')"
  by (induction xs arbitrary: s) (auto split: option.splits)

lemma count_string_bytes: "count_string e s = count_bytes (length e + 1) s"
  by (auto simp: count_string_def bx_argv_string_bytes_def count_bytes_def bx_argv_add_size_def)

text \<open>
  What the callbacks promise each other: the announced size of an expansion is that of its text with
  its NUL, and an argument without markers is announced with its own size.
\<close>

definition callbacks_agree ::
  "(string \<Rightarrow> nat) option \<Rightarrow> (string \<Rightarrow> string \<Rightarrow> string option) option \<Rightarrow> (string \<Rightarrow> string \<Rightarrow> nat option) option \<Rightarrow> bool" where
  "callbacks_agree mc fa fb \<longleftrightarrow>
     (\<forall>f g a i e. fa = Some f \<longrightarrow> fb = Some g \<longrightarrow> f a i = Some e \<longrightarrow> g a i = Some (length e + 1)) \<and>
     (\<forall>g a. fb = Some g \<longrightarrow> marker_count mc a = 0 \<longrightarrow> g a [] = Some (length a + 1)) \<and>
     (fa \<noteq> None \<longrightarrow> fb \<noteq> None)"

text \<open>A push adds its string; pushing and counting go together.\<close>

lemma push_owned_Some: "bx_argv_push_owned avail buf a = Some buf' \<Longrightarrow> fst buf' = fst buf @ [a]"
  by (auto simp: bx_argv_push_owned_def Let_def split: if_splits)

definition in_step :: "(argv_buf \<Rightarrow> argv_buf option) \<Rightarrow> (nat \<times> int \<Rightarrow> (nat \<times> int) option) \<Rightarrow> bool" where
  "in_step build count \<longleftrightarrow> (\<forall>buf buf'. build buf = Some buf' \<longrightarrow>
     (\<exists>ys. fst buf' = fst buf @ map Some ys \<and> (\<forall>s. count s = run_all count_string ys s)))"

lemma in_stepE:
  assumes "in_step build count" and "build buf = Some buf'"
  obtains ys where "fst buf' = fst buf @ map Some ys" and "\<And>s. count s = run_all count_string ys s"
  using assms unfolding in_step_def by blast

lemma in_step_run_all:
  assumes "\<And>x. x \<in> set xs \<Longrightarrow> in_step (build x) (count x)"
  shows "in_step (run_all build xs) (run_all count xs)"
  using assms
proof (induction xs)
  case Nil
  then show ?case by (auto simp: in_step_def intro: exI [of _ "[]"])
next
  case (Cons x xs)
  show ?case unfolding in_step_def
  proof (intro allI impI)
    fix buf buf' assume "run_all build (x # xs) buf = Some buf'"
    then obtain b1 where b1: "build x buf = Some b1" "run_all build xs b1 = Some buf'" by (auto split: option.splits)
    have "in_step (build x) (count x)" using Cons.prems [of x] by simp
    then obtain ys where ys: "fst b1 = fst buf @ map Some ys" "\<And>s. count x s = run_all count_string ys s"
      using b1(1) by (rule in_stepE) blast
    have "in_step (run_all build xs) (run_all count xs)" using Cons by simp
    then obtain zs where zs: "fst buf' = fst b1 @ map Some zs" "\<And>s. run_all count xs s = run_all count_string zs s"
      using b1(2) by (rule in_stepE) blast
    show "\<exists>ys. fst buf' = fst buf @ map Some ys \<and> (\<forall>s. run_all count (x # xs) s = run_all count_string ys s)"
    proof (intro exI [of _ "ys @ zs"] conjI allI)
      show "run_all count (x # xs) s = run_all count_string (ys @ zs) s" for s
        unfolding run_all.simps ys(2) zs(2) run_all_append by (rule refl)
    qed (simp add: ys zs)
  qed
qed

lemma in_step_push:
  "in_step (\<lambda>buf. bx_argv_push_owned (\<lambda>_. True) buf (Some e)) (count_bytes (length e + 1))"
  unfolding in_step_def
proof (intro allI impI)
  fix buf buf' assume "bx_argv_push_owned (\<lambda>_. True) buf (Some e) = Some buf'"
  then have "fst buf' = fst buf @ map Some [e]" by (simp add: push_owned_Some)
  moreover have "count_bytes (length e + 1) s = run_all count_string [e] s" for s
    by (simp add: count_string_bytes split: option.splits)
  ultimately show "\<exists>ys. fst buf' = fst buf @ map Some ys \<and> (\<forall>s. count_bytes (length e + 1) s = run_all count_string ys s)"
    by blast
qed

lemma in_step_copy: "in_step (push_copy (\<lambda>_. True) e) (count_string e)"
  using in_step_push [of e] by (simp add: push_copy_def [abs_def] c_strdup_def count_string_bytes [abs_def])

lemma in_step_expanded:
  assumes "callbacks_agree mc fa fb" and "start + j \<le> INT_MAX"
  shows "in_step (push_expanded (\<lambda>_. True) fa items start arg j) (count_expanded fb items start arg j)"
proof (cases fa)
  case None
  then show ?thesis by (simp add: in_step_def push_expanded_def)
next
  case (Some f)
  then obtain g where g: "fb = Some g" using assms(1) by (auto simp: callbacks_agree_def)
  show ?thesis
  proof (cases "f arg (items ! nat (start + j))")
    case None
    then show ?thesis using Some by (simp add: in_step_def push_expanded_def)
  next
    case e: (Some e)
    then have "g arg (items ! nat (start + j)) = Some (length e + 1)" using assms(1) Some g by (simp add: callbacks_agree_def)
    then show ?thesis using in_step_push [of e] assms(2) Some e g
      by (simp add: push_expanded_def [abs_def] count_expanded_def [abs_def])
  qed
qed

lemma in_step_arg:
  assumes "callbacks_agree mc fa fb" and "start + total_items \<le> INT_MAX"
  shows "in_step (build_arg (\<lambda>_. True) mc fa items start total_items arg) (count_arg mc fb items start total_items arg)"
proof (cases "marker_count mc arg = 0")
  case True
  have "(case (case fb of Some f \<Rightarrow> f arg [] | None \<Rightarrow> bx_argv_string_bytes arg) of None \<Rightarrow> None | Some n \<Rightarrow> count_bytes n s) =
      count_string arg s" for s
    using assms(1) True by (cases fb) (simp_all add: count_string_def [symmetric] callbacks_agree_def count_string_bytes)
  then have "count_arg mc fb items start total_items arg = count_string arg"
    using True by (simp add: count_arg_def [abs_def])
  then show ?thesis using in_step_copy [of arg] True by (simp add: build_arg_def [abs_def])
next
  case False
  have "in_step (run_all (push_expanded (\<lambda>_. True) fa items start arg) [0..total_items - 1])
      (run_all (count_expanded fb items start arg) [0..total_items - 1])"
    using assms by (intro in_step_run_all in_step_expanded) auto
  then show ?thesis using False by (simp add: build_arg_def [abs_def] count_arg_def [abs_def])
qed

lemma in_step_items:
  assumes "\<forall>j \<in> set js. start + j \<le> INT_MAX"
  shows "in_step (run_all (\<lambda>j. push_copy (\<lambda>_. True) (items ! nat (start + j))) js) (count_items items start js)"
proof -
  have "count_items items start js s = run_all (\<lambda>j. count_string (items ! nat (start + j))) js s" for s
    using assms by (induction js arbitrary: s) (auto split: option.splits)
  then have "count_items items start js = run_all (\<lambda>j. count_string (items ! nat (start + j))) js" by (simp add: fun_eq_iff)
  then show ?thesis using in_step_copy by (simp add: in_step_run_all)
qed

text \<open>
  When the vector is built, the size that is computed for it beforehand, from the sizes that the
  callbacks announce, is exactly the size of the vector, and both see the same markers.
\<close>

lemma expansion_bytes_agree:
  assumes "callbacks_agree mc fa fb" and "start + count \<le> INT_MAX"
    and "bx_argv_build_with_item_expansion (\<lambda>_. True) base_argv items start count batch_mode mc fa = Some (argv, saw)"
  shows "bx_argv_bytes_with_item_expansion base_argv items start count batch_mode mc fb =
    map_option (\<lambda>n. (n, saw)) (bx_argv_bytes (Some argv))"
proof -
  let ?n = "item_total batch_mode count"
  let ?saw = "list_ex (\<lambda>arg. marker_count mc arg \<noteq> 0) base_argv"
  let ?items = "run_all (\<lambda>j. push_copy (\<lambda>_. True) (items ! nat (start + j))) [0..?n - 1]"
  from assms(3) obtain b1 b2 where b: "run_all (build_arg (\<lambda>_. True) mc fa items start ?n) base_argv ([], 0) = Some b1"
    "(if ?saw then Some b1 else ?items b1) = Some b2" "argv = argv_view (fst b2)" "saw = ?saw" and sc: "0 \<le> start" "0 \<le> count"
    by (auto simp: bx_argv_build_with_item_expansion_def Let_def split: if_splits option.splits)
  have n: "start + ?n \<le> INT_MAX" using assms(2) sc by (auto simp: item_total_def)
  have "in_step (run_all (build_arg (\<lambda>_. True) mc fa items start ?n) base_argv) (run_all (count_arg mc fb items start ?n) base_argv)"
    using assms(1) n by (intro in_step_run_all in_step_arg)
  then obtain ys where "fst b1 = fst (([], 0) :: argv_buf) @ map Some ys"
    and ys2: "\<And>s. run_all (count_arg mc fb items start ?n) base_argv s = run_all count_string ys s"
    using b(1) by (rule in_stepE) blast
  then have ys: "fst b1 = map Some ys" by simp
  note ys = ys ys2
  have "\<exists>zs. fst b2 = fst b1 @ map Some zs \<and>
      (\<forall>s. (if ?saw then Some s else count_items items start [0..?n - 1] s) = run_all count_string zs s)"
  proof (cases ?saw)
    case True
    then show ?thesis using b(2) by (intro exI [of _ "[]"]) simp
  next
    case False
    have "in_step ?items (count_items items start [0..?n - 1])" using n by (intro in_step_items) auto
    moreover have "?items b1 = Some b2" using b(2) False by simp
    ultimately obtain zs where "fst b2 = fst b1 @ map Some zs"
      "\<And>s. count_items items start [0..?n - 1] s = run_all count_string zs s"
      by (rule in_stepE) blast
    then show ?thesis using False by (intro exI [of _ zs]) simp
  qed
  then obtain zs where zs: "fst b2 = map Some (ys @ zs)"
    "\<And>s. (if ?saw then Some s else count_items items start [0..?n - 1] s) = run_all count_string zs s"
    using ys(1) by auto
  have "argv = ys @ zs" using b(3) zs(1) argv_view_all [of "ys @ zs"] by simp
  then have argv: "bx_argv_bytes (Some argv) = (case run_all count_string ys (0, 0) of None \<Rightarrow> None
      | Some s \<Rightarrow> (case run_all count_string zs s of None \<Rightarrow> None | Some s' \<Rightarrow> finish_bytes s'))"
    by (simp add: bx_argv_bytes_def run_all_append split: option.splits)
  have "bx_argv_bytes_with_item_expansion base_argv items start count batch_mode mc fb =
      (case run_all count_string ys (0, 0) of None \<Rightarrow> None
       | Some s \<Rightarrow> (case run_all count_string zs s of None \<Rightarrow> None
          | Some s' \<Rightarrow> (case finish_bytes s' of None \<Rightarrow> None | Some n \<Rightarrow> Some (n, ?saw))))"
    using sc unfolding bx_argv_bytes_with_item_expansion_def Let_def ys(2) zs(2) by simp
  then show ?thesis unfolding argv b(4) by (auto split: option.splits)
qed

definition demo_marker :: "string \<Rightarrow> nat" where
  "demo_marker a = (if a = ''{}'' then 1 else 0)"

definition demo_expand :: "string \<Rightarrow> string \<Rightarrow> string option" where
  "demo_expand a i = Some (if a = ''{}'' then i else a)"

definition demo_expand_bytes :: "string \<Rightarrow> string \<Rightarrow> nat option" where
  "demo_expand_bytes a i = Some (length (if a = ''{}'' then i else a) + 1)"

lemma expansion_bytes_agree_witness:
  "bx_argv_bytes_with_item_expansion [''cp'', ''{}'', ''/tmp''] [''f'', ''g''] 0 2 True (Some demo_marker) (Some demo_expand_bytes) =
    map_option (\<lambda>n. (n, True)) (bx_argv_bytes (Some [''cp'', ''f'', ''g'', ''/tmp'']))"
proof (rule expansion_bytes_agree)
  show "callbacks_agree (Some demo_marker) (Some demo_expand) (Some demo_expand_bytes)"
    by (auto simp: callbacks_agree_def marker_count_def demo_marker_def demo_expand_def demo_expand_bytes_def)
  have u: "[0..1 :: int] = [0, 1]" by (simp add: upto.simps)
  show "bx_argv_build_with_item_expansion (\<lambda>_. True) [''cp'', ''{}'', ''/tmp''] [''f'', ''g''] 0 2 True (Some demo_marker) (Some demo_expand) =
      Some ([''cp'', ''f'', ''g'', ''/tmp''], True)"
    by (simp add: bx_argv_build_with_item_expansion_def Let_def item_total_def build_arg_def marker_count_def demo_marker_def
      push_copy_def c_strdup_def bx_argv_push_owned_def push_expanded_def demo_expand_def u argv_view_def)
qed simp

text \<open>
  The result of \<open>strdup\<close> is pushed without a check, so when it fails the vector ends there: the
  arguments and items after it are lost, and the call succeeds.
\<close>

lemma strdup_failure_truncates:
  "bx_argv_build_with_item_expansion (\<lambda>n. n \<noteq> 3) [''rm'', ''-i''] [''file''] 0 1 True None None = Some ([], False) \<and>
   bx_argv_build_with_item_expansion (\<lambda>n. n \<noteq> 5) [''rm'', ''-i'', ''--'', ''file''] [''x''] 0 1 True None None =
     Some ([''rm'', ''-i'', ''--''], False)"
  by (simp add: bx_argv_build_with_item_expansion_def Let_def item_total_def build_arg_def marker_count_def
      push_copy_def c_strdup_def bx_argv_push_owned_def argv_view_def)

end
