(* ===== verification/RecordStream.thy ===== *)
theory RecordStream
  imports Prelude
begin

text \<open>
  \<open>src/src/search/record_stream.c\<close>: the records (lines, usually) of a file, read in chunks, with the
  bytes read too far kept pending in a buffer. A file is what is left of it, and whether reading past
  that is an end or an error; \<open>fread\<close> and \<open>getc\<close> of the standard library give the next bytes and set
  the error indicator when they come upon the error. Buffers are arrays of cells with their
  allocation explicit. The development counters and the stdio buffer of \<open>prepare_file\<close> are left out.
\<close>

section \<open>Files\<close>

record c_file =
  file_rest :: bytes
  file_fails :: bool
  file_error :: bool

definition c_fread :: "nat \<Rightarrow> c_file \<Rightarrow> bytes \<times> c_file" where
  "c_fread n f = (take n (file_rest f),
     f\<lparr>file_rest := drop n (file_rest f), file_error := file_error f \<or> (length (file_rest f) < n \<and> file_fails f)\<rparr>)"

definition c_getc :: "c_file \<Rightarrow> u8 option \<times> c_file" where
  "c_getc f =
     (case file_rest f of
        [] \<Rightarrow> (None, f\<lparr>file_error := file_error f \<or> file_fails f\<rparr>)
      | b # bs \<Rightarrow> (Some b, f\<lparr>file_rest := bs\<rparr>))"

section \<open>The stream\<close>

datatype stream_errno = NO_ERROR | ENOMEM | EOVERFLOW | EIO

record record_stream =
  rs_record :: bytes \<comment> \<open>the cells of \<open>record\<close>; \<open>record_cap\<close> of them\<close>
  rs_pending :: bytes \<comment> \<open>the cells of \<open>pending\<close>; \<open>pending_cap\<close> of them\<close>
  pending_off :: nat
  pending_len :: nat
  record_limit :: nat
  errnum :: stream_errno

definition BINARY_PROBE_CAP :: nat where "BINARY_PROBE_CAP = 1024"
definition READ_CHUNK_CAP :: nat where "READ_CHUNK_CAP = 8192"
definition SPECIAL_RECORD_LIMIT :: nat where "SPECIAL_RECORD_LIMIT = 16777216"

definition pending_available :: "record_stream \<Rightarrow> nat" where
  "pending_available stream =
     (if pending_len stream < pending_off stream then 0 else pending_len stream - pending_off stream)"

definition reset_pending :: "record_stream \<Rightarrow> record_stream" where
  "reset_pending stream = stream\<lparr>pending_off := 0, pending_len := 0\<rparr>"

definition compact_pending :: "record_stream \<Rightarrow> record_stream" where
  "compact_pending stream =
     (if pending_off stream = 0 then stream
      else
        let available = pending_available stream in
        stream\<lparr>rs_pending := (if available > 0 then memmove_front (pending_off stream) available (rs_pending stream)
                              else rs_pending stream),
               pending_off := 0, pending_len := available\<rparr>)"

text \<open>Doubling up to what is needed; \<open>None\<close> where the code refuses. It starts from a positive capacity.\<close>

function double_cap :: "nat \<Rightarrow> nat \<Rightarrow> nat option" where
  "double_cap needed new_cap =
     (if new_cap < needed \<and> new_cap \<noteq> 0 then
        (if new_cap > size_max div 2 then None else double_cap needed (new_cap * 2))
      else Some new_cap)"
  by pat_completeness auto
termination by (relation "measure (\<lambda>(needed, new_cap). needed - new_cap)") auto

declare double_cap.simps [simp del]

definition reserve_pending :: "(nat \<Rightarrow> bool) \<Rightarrow> record_stream \<Rightarrow> nat \<Rightarrow> record_stream option" where
  "reserve_pending avail stream needed =
     (if length (rs_pending stream) \<ge> needed then Some stream
      else case double_cap needed (if length (rs_pending stream) = 0 then BINARY_PROBE_CAP else length (rs_pending stream)) of
          None \<Rightarrow> None
        | Some new_cap \<Rightarrow>
            (case realloc_array avail 0 (rs_pending stream) new_cap of
               None \<Rightarrow> None | Some cells \<Rightarrow> Some (stream\<lparr>rs_pending := cells\<rparr>)))"

text \<open>The compaction stays when the reservation fails.\<close>

definition append_pending :: "(nat \<Rightarrow> bool) \<Rightarrow> record_stream \<Rightarrow> bytes \<Rightarrow> bool \<times> record_stream" where
  "append_pending avail stream data =
     (if data = [] then (True, stream)
      else
        let stream1 = compact_pending stream in
        case reserve_pending avail stream1 (pending_available stream1 + length data) of
          None \<Rightarrow> (False, stream1)
        | Some stream2 \<Rightarrow>
            (True, stream2\<lparr>rs_pending := memcpy_at (rs_pending stream2) (pending_len stream2) data,
                           pending_len := pending_len stream2 + length data\<rparr>))"

definition reserve_record :: "(nat \<Rightarrow> bool) \<Rightarrow> record_stream \<Rightarrow> nat \<Rightarrow> record_stream option" where
  "reserve_record avail stream needed =
     (if needed > size_max - 1 then None
      else if length (rs_record stream) \<ge> needed + 1 then Some stream
      else case double_cap (needed + 1) (if length (rs_record stream) = 0 then 256 else length (rs_record stream)) of
          None \<Rightarrow> None
        | Some new_cap \<Rightarrow>
            (case realloc_array avail 0 (rs_record stream) new_cap of
               None \<Rightarrow> None | Some cells \<Rightarrow> Some (stream\<lparr>rs_record := cells\<rparr>)))"

text \<open>Success, and the stream and length after it.\<close>

definition append_record :: "(nat \<Rightarrow> bool) \<Rightarrow> record_stream \<Rightarrow> nat \<Rightarrow> bytes \<Rightarrow> bool \<times> record_stream \<times> nat" where
  "append_record avail stream len data =
     (if data = [] then (True, stream, len)
      else if len > size_max - length data then (False, stream, len)
      else
        let needed = len + length data in
        if record_limit stream > 0 \<and> needed > record_limit stream then (False, stream\<lparr>errnum := EOVERFLOW\<rparr>, len)
        else case reserve_record avail stream needed of
            None \<Rightarrow> (False, stream\<lparr>errnum := ENOMEM\<rparr>, len)
          | Some stream1 \<Rightarrow>
              (True, stream1\<lparr>rs_record := (memcpy_at (rs_record stream1) len data)[needed := 0]\<rparr>, needed))"

definition configure_limit :: nat where
  "configure_limit = SPECIAL_RECORD_LIMIT"

function fill_loop :: "(nat \<Rightarrow> bool) \<Rightarrow> nat \<Rightarrow> record_stream \<Rightarrow> c_file \<Rightarrow> nat \<times> record_stream \<times> c_file" where
  "fill_loop avail target stream f =
     (if pending_available stream < target then
        let stream1 = compact_pending stream; available = pending_available stream1 in
        case reserve_pending avail stream1 target of
          None \<Rightarrow> (available, stream1\<lparr>errnum := ENOMEM\<rparr>, f)
        | Some stream2 \<Rightarrow>
            let (chunk, f1) = c_fread (target - available) f;
                stream3 = stream2\<lparr>rs_pending := memcpy_at (rs_pending stream2) (pending_len stream2) chunk,
                                  pending_len := pending_len stream2 + length chunk\<rparr> in
            if chunk = [] then
              (available, if file_error f1 then stream3\<lparr>errnum := EIO\<rparr> else stream3, f1)
            else fill_loop avail target stream3 f1
      else (pending_available stream, stream, f))"
  by pat_completeness auto
termination
  by (relation "measure (\<lambda>(avail, target, stream, f). length (file_rest f))") (auto simp: c_fread_def neq_Nil_conv)

declare fill_loop.simps [simp del]

definition record_stream_dispose :: "record_stream \<Rightarrow> record_stream" where
  "record_stream_dispose stream =
     \<lparr>rs_record = [], rs_pending = [], pending_off = 0, pending_len = 0, record_limit = 0, errnum = NO_ERROR\<rparr>"

definition record_stream_begin :: "record_stream \<Rightarrow> record_stream" where
  "record_stream_begin stream = (reset_pending (stream\<lparr>errnum := NO_ERROR\<rparr>))\<lparr>record_limit := configure_limit\<rparr>"

text \<open>
  The probe of the first bytes: \<open>regular\<close> is what \<open>pread\<close> gives on a regular file, \<open>None\<close> when the
  file is not regular, and \<open>Some None\<close> when \<open>pread\<close> fails.
\<close>

definition probe_binary_prefix ::
  "(nat \<Rightarrow> bool) \<Rightarrow> bytes option option \<Rightarrow> record_stream \<Rightarrow> c_file \<Rightarrow> bool option \<times> record_stream \<times> c_file" where
  "probe_binary_prefix avail regular stream f =
     (let stream = stream\<lparr>errnum := NO_ERROR\<rparr> in
      case regular of
        Some None \<Rightarrow> (None, stream\<lparr>errnum := EIO\<rparr>, f)
      | Some (Some buf) \<Rightarrow> (Some (0 \<in> set (take BINARY_PROBE_CAP buf)), stream, f)
      | None \<Rightarrow>
          (case fill_loop avail BINARY_PROBE_CAP stream f of (available, stream1, f1) \<Rightarrow>
             if errnum stream1 \<noteq> NO_ERROR then (None, stream1, f1)
             else (Some (0 \<in> set (take available (drop (pending_off stream1) (rs_pending stream1)))), stream1, f1)))"

definition advance_pending :: "record_stream \<Rightarrow> nat \<Rightarrow> record_stream" where
  "advance_pending stream taken =
     (let stream1 = stream\<lparr>pending_off := pending_off stream + taken\<rparr> in
      if pending_off stream1 = pending_len stream1 then reset_pending stream1 else stream1)"

definition read_chunk :: "record_stream \<Rightarrow> c_file \<Rightarrow> nat \<Rightarrow> bytes \<times> record_stream \<times> c_file" where
  "read_chunk stream f cap =
     (if cap = 0 then ([], stream, f)
      else
        let available = pending_available stream;
            copied = min available cap;
            data = take copied (drop (pending_off stream) (rs_pending stream));
            stream1 = (if available > 0 then advance_pending stream copied else stream) in
        if copied = cap then (data, stream1, f)
        else
          let (chunk, f1) = c_fread (cap - copied) f in
          (data @ chunk, if chunk = [] \<and> file_error f1 then stream1\<lparr>errnum := EIO\<rparr> else stream1, f1))"

text \<open>\<open>memchr\<close>, and the first of the two boundaries: its place, and whether it is the stop byte.\<close>

definition c_memchr :: "u8 \<Rightarrow> bytes \<Rightarrow> nat option" where
  "c_memchr b data = (if b \<in> set data then Some (length (takeWhile (\<lambda>x. x \<noteq> b) data)) else None)"

definition first_boundary :: "u8 \<Rightarrow> u8 option \<Rightarrow> bytes \<Rightarrow> (nat \<times> bool) option" where
  "first_boundary delimiter stop data =
     (let delimiter_hit = c_memchr delimiter data;
          stop_hit = (case stop of None \<Rightarrow> None | Some b \<Rightarrow> c_memchr b data) in
      case stop_hit of
        Some s \<Rightarrow>
          (case delimiter_hit of
             None \<Rightarrow> Some (s, True) | Some d \<Rightarrow> if s < d then Some (s, True) else Some (d, False))
      | None \<Rightarrow> (case delimiter_hit of None \<Rightarrow> None | Some d \<Rightarrow> Some (d, False)))"

text \<open>
  The pending part of an iteration: \<open>None\<close> when the record cannot grow, else the boundary found, if
  any. With nothing pending it does nothing.
\<close>

definition take_pending ::
  "(nat \<Rightarrow> bool) \<Rightarrow> u8 \<Rightarrow> u8 option \<Rightarrow> record_stream \<Rightarrow> nat \<Rightarrow> (nat \<times> bool) option option \<times> record_stream \<times> nat" where
  "take_pending avail delimiter stop stream len =
     (let available = pending_available stream in
      if available = 0 then (Some None, stream, len)
      else
        let pending = take available (drop (pending_off stream) (rs_pending stream));
            hit = first_boundary delimiter stop pending;
            taken = (case hit of Some (i, _) \<Rightarrow> i + 1 | None \<Rightarrow> available) in
        case append_record avail stream len (take taken pending) of
          (False, stream1, len1) \<Rightarrow> (None, stream1, len1)
        | (True, stream1, len1) \<Rightarrow> (Some hit, advance_pending stream1 taken, len1))"

datatype read_outcome =
    Record nat bool \<comment> \<open>its length, and whether the stop byte ended it\<close>
  | No_record

function read_until_loop ::
  "(nat \<Rightarrow> bool) \<Rightarrow> u8 \<Rightarrow> u8 option \<Rightarrow> record_stream \<Rightarrow> nat \<Rightarrow> c_file \<Rightarrow> read_outcome \<times> record_stream \<times> c_file" where
  "read_until_loop avail delimiter stop stream len f =
     (case take_pending avail delimiter stop stream len of
        (None, stream1, len1) \<Rightarrow> (No_record, stream1, f)
      | (Some (Some (i, stopped)), stream1, len1) \<Rightarrow> (Record len1 stopped, stream1, f)
      | (Some None, stream1, len1) \<Rightarrow>
          let (chunk, f1) = c_fread READ_CHUNK_CAP f in
          if chunk = [] then
            (if file_error f1 then (No_record, stream1\<lparr>errnum := EIO\<rparr>, f1)
             else if len1 = 0 then (No_record, stream1, f1) else (Record len1 False, stream1, f1))
          else
            let hit = first_boundary delimiter stop chunk;
                taken = (case hit of Some (i, _) \<Rightarrow> i + 1 | None \<Rightarrow> length chunk) in
            case append_record avail stream1 len1 (take taken chunk) of
              (False, stream2, len2) \<Rightarrow> (No_record, stream2, f1)
            | (True, stream2, len2) \<Rightarrow>
                (case append_pending avail stream2 (drop taken chunk) of
                   (False, stream3) \<Rightarrow> (No_record, stream3\<lparr>errnum := ENOMEM\<rparr>, f1)
                 | (True, stream3) \<Rightarrow>
                     (case hit of
                        Some (i, stopped) \<Rightarrow> (Record len2 stopped, stream3, f1)
                      | None \<Rightarrow> read_until_loop avail delimiter stop stream3 len2 f1)))"
  by pat_completeness auto
termination
  by (relation "measure (\<lambda>(avail, delimiter, stop, stream, len, f). length (file_rest f))")
    (auto simp: c_fread_def READ_CHUNK_CAP_def neq_Nil_conv)

declare read_until_loop.simps [simp del]

definition read_start :: "(nat \<Rightarrow> bool) \<Rightarrow> record_stream \<Rightarrow> bool \<times> record_stream" where
  "read_start avail stream =
     (let stream = stream\<lparr>errnum := NO_ERROR\<rparr> in
      case reserve_record avail stream 0 of
        None \<Rightarrow> (False, stream\<lparr>errnum := ENOMEM\<rparr>)
      | Some stream1 \<Rightarrow> (True, stream1\<lparr>rs_record := (rs_record stream1)[0 := 0]\<rparr>))"

definition read_until ::
  "(nat \<Rightarrow> bool) \<Rightarrow> record_stream \<Rightarrow> u8 \<Rightarrow> u8 option \<Rightarrow> c_file \<Rightarrow> read_outcome \<times> record_stream \<times> c_file" where
  "read_until avail stream delimiter stop f =
     (case read_start avail stream of
        (False, stream1) \<Rightarrow> (No_record, stream1, f)
      | (True, stream1) \<Rightarrow> read_until_loop avail delimiter stop stream1 0 f)"

definition record_stream_read :: "(nat \<Rightarrow> bool) \<Rightarrow> record_stream \<Rightarrow> u8 \<Rightarrow> c_file \<Rightarrow> read_outcome \<times> record_stream \<times> c_file" where
  "record_stream_read avail stream delimiter f = read_until avail stream delimiter None f"

text \<open>The live variant takes one byte at a time from the file.\<close>

function read_live_loop :: "(nat \<Rightarrow> bool) \<Rightarrow> u8 \<Rightarrow> record_stream \<Rightarrow> nat \<Rightarrow> c_file \<Rightarrow> read_outcome \<times> record_stream \<times> c_file" where
  "read_live_loop avail delimiter stream len f =
     (case take_pending avail delimiter None stream len of
        (None, stream1, len1) \<Rightarrow> (No_record, stream1, f)
      | (Some (Some (i, stopped)), stream1, len1) \<Rightarrow> (Record len1 stopped, stream1, f)
      | (Some None, stream1, len1) \<Rightarrow>
          (case c_getc f of
             (None, f1) \<Rightarrow>
               if file_error f1 then (No_record, stream1\<lparr>errnum := EIO\<rparr>, f1)
               else if len1 = 0 then (No_record, stream1, f1) else (Record len1 False, stream1, f1)
           | (Some byte, f1) \<Rightarrow>
               (case append_record avail stream1 len1 [byte] of
                  (False, stream2, len2) \<Rightarrow> (No_record, stream2, f1)
                | (True, stream2, len2) \<Rightarrow>
                    if byte = delimiter then (Record len2 False, stream2, f1)
                    else read_live_loop avail delimiter stream2 len2 f1)))"
  by pat_completeness auto
termination
  by (relation "measure (\<lambda>(avail, delimiter, stream, len, f). length (file_rest f))")
    (auto simp: c_getc_def split: list.splits)

declare read_live_loop.simps [simp del]

definition read_live :: "(nat \<Rightarrow> bool) \<Rightarrow> record_stream \<Rightarrow> u8 \<Rightarrow> c_file \<Rightarrow> read_outcome \<times> record_stream \<times> c_file" where
  "read_live avail stream delimiter f =
     (case read_start avail stream of
        (False, stream1) \<Rightarrow> (No_record, stream1, f)
      | (True, stream1) \<Rightarrow> read_live_loop avail delimiter stream1 0 f)"

section \<open>What a stream holds\<close>

definition pend :: "record_stream \<Rightarrow> bytes" where
  "pend stream = take (pending_len stream - pending_off stream) (drop (pending_off stream) (rs_pending stream))"

definition content :: "record_stream \<Rightarrow> c_file \<Rightarrow> bytes" where
  "content stream f = pend stream @ file_rest f"

definition stream_wf :: "record_stream \<Rightarrow> bool" where
  "stream_wf stream \<longleftrightarrow> pending_off stream \<le> pending_len stream \<and> pending_len stream \<le> length (rs_pending stream)"

text \<open>The next record of a text, whether the stop byte ends it, and the text after it.\<close>

definition is_boundary :: "u8 \<Rightarrow> u8 option \<Rightarrow> u8 \<Rightarrow> bool" where
  "is_boundary delimiter stop x \<longleftrightarrow> x = delimiter \<or> stop = Some x"

definition next_record :: "u8 \<Rightarrow> u8 option \<Rightarrow> bytes \<Rightarrow> (bytes \<times> bool \<times> bytes) option" where
  "next_record delimiter stop c =
     (let a = takeWhile (\<lambda>x. \<not> is_boundary delimiter stop x) c in
      if length a < length c
      then Some (take (length a + 1) c, c ! length a \<noteq> delimiter, drop (length a + 1) c)
      else if c = [] then None else Some (c, False, []))"

lemma length_pend [simp]: "stream_wf stream \<Longrightarrow> length (pend stream) = pending_available stream"
  by (auto simp: pend_def stream_wf_def pending_available_def min_def)

section \<open>Buffers\<close>

lemma double_cap_ok: "0 < c \<Longrightarrow> needed \<le> 2 ^ 63 \<Longrightarrow> \<exists>c'. double_cap needed c = Some c' \<and> needed \<le> c'"
proof (induction needed c rule: double_cap.induct)
  case (1 needed c)
  show ?case
  proof (cases "c < needed")
    case True
    have half: "size_max div 2 = 2 ^ 63 - 1" by simp
    then have "\<not> c > size_max div 2" using True "1.prems" by linarith
    with 1 True show ?thesis by (subst double_cap.simps) simp
  next
    case False
    then show ?thesis by (subst double_cap.simps) simp
  qed
qed


lemma grow_cap_ok:
  assumes "needed \<le> 2 ^ 63" and "0 < k"
  shows "\<exists>c. double_cap needed (if n = 0 then k else n) = Some c \<and> needed \<le> c"
proof -
  have "0 < (if n = 0 then k else n)" using assms(2) by simp
  from double_cap_ok [OF this assms(1)] show ?thesis .
qed

lemma first_boundary_eq:
  "first_boundary delimiter stop data =
    (let a = takeWhile (\<lambda>x. \<not> is_boundary delimiter stop x) data in
     if length a < length data then Some (length a, data ! length a \<noteq> delimiter) else None)"
proof (induction data)
  case Nil
  then show ?case by (simp add: first_boundary_def c_memchr_def split: option.splits)
next
  case (Cons x data)
  then show ?case
    by (cases stop; cases "x = delimiter"; cases "stop = Some x")
      (auto simp: first_boundary_def c_memchr_def is_boundary_def Let_def split: if_splits option.splits)
qed

lemma reserve_record_ok:
  assumes "needed + 1 \<le> 2 ^ 63"
  shows "\<exists>cells. reserve_record (\<lambda>_. True) stream needed = Some (stream\<lparr>rs_record := cells\<rparr>) \<and>
    needed + 1 \<le> length cells \<and> take (length (rs_record stream)) cells = rs_record stream"
proof (cases "length (rs_record stream) \<ge> needed + 1")
  case True
  then show ?thesis using assms by (intro exI [of _ "rs_record stream"]) (simp add: reserve_record_def)
next
  case False
  obtain c where c: "double_cap (needed + 1) (if length (rs_record stream) = 0 then 256 else length (rs_record stream)) = Some c"
    "needed + 1 \<le> c" using grow_cap_ok [OF assms, of 256 "length (rs_record stream)"] by auto
  let ?cells = "take c (rs_record stream) @ replicate (c - length (rs_record stream)) 0"
  have "take (length (rs_record stream)) ?cells = rs_record stream" using False c(2) by simp
  moreover have "reserve_record (\<lambda>_. True) stream needed = Some (stream\<lparr>rs_record := ?cells\<rparr>)"
    using False c assms by (simp add: reserve_record_def realloc_array_def)
  moreover have "needed + 1 \<le> length ?cells" using c(2) False by simp
  ultimately show ?thesis by blast
qed

lemma append_record_ok:
  assumes "len + length data < 2 ^ 63" and "len \<le> length (rs_record stream)"
  shows "if record_limit stream > 0 \<and> len + length data > record_limit stream \<and> data \<noteq> []
    then append_record (\<lambda>_. True) stream len data = (False, stream\<lparr>errnum := EOVERFLOW\<rparr>, len)
    else \<exists>cells. append_record (\<lambda>_. True) stream len data = (True, stream\<lparr>rs_record := cells\<rparr>, len + length data) \<and>
      len + length data \<le> length cells \<and> take (len + length data) cells = take len (rs_record stream) @ data"
proof (cases "data = []")
  case True
  then show ?thesis using assms by (auto simp: append_record_def intro: exI [of _ "rs_record stream"])
next
  case ne: False
  have fit: "\<not> len > size_max - length data" using assms(1) by simp
  show ?thesis
  proof (cases "record_limit stream > 0 \<and> len + length data > record_limit stream")
    case True
    then show ?thesis using ne fit by (simp add: append_record_def)
  next
    case False
    have "len + length data + 1 \<le> 2 ^ 63" using assms(1) by simp
    from reserve_record_ok [OF this, of stream] obtain cells where
      r: "reserve_record (\<lambda>_. True) stream (len + length data) = Some (stream\<lparr>rs_record := cells\<rparr>)"
        "len + length data + 1 \<le> length cells" "take (length (rs_record stream)) cells = rs_record stream" by blast
    let ?cells = "(memcpy_at cells len data)[len + length data := 0]"
    have "take len cells = take len (rs_record stream)"
      using r(3) assms(2) by (metis min.absorb1 take_take)
    then have "take (len + length data) ?cells = take len (rs_record stream) @ data" using r(2) by simp
    moreover have "len + length data \<le> length ?cells" using r(2) by simp
    moreover have "append_record (\<lambda>_. True) stream len data = (True, stream\<lparr>rs_record := ?cells\<rparr>, len + length data)"
      using ne fit False r(1) by (auto simp: append_record_def Let_def)
    ultimately show ?thesis using False by auto
  qed
qed

lemma advance_pending_pend:
  assumes "stream_wf stream" and "n \<le> pending_available stream"
  shows "pend (advance_pending stream n) = drop n (pend stream) \<and> stream_wf (advance_pending stream n)"
  using assms by (auto simp: advance_pending_def Let_def reset_pending_def pend_def stream_wf_def pending_available_def drop_take add.commute)

lemma compact_pending_pend:
  assumes "stream_wf stream"
  shows "pend (compact_pending stream) = pend stream \<and> stream_wf (compact_pending stream) \<and>
    pending_off (compact_pending stream) = 0 \<and> pending_len (compact_pending stream) = pending_available stream"
  using assms
  by (auto simp: compact_pending_def Let_def pend_def stream_wf_def pending_available_def memmove_front_def min_def)

lemma append_pending_ok:
  assumes "stream_wf stream" and "pending_available stream + length data \<le> 2 ^ 63"
  shows "\<exists>stream'. append_pending (\<lambda>_. True) stream data = (True, stream') \<and> pend stream' = pend stream @ data \<and>
    stream_wf stream' \<and> rs_record stream' = rs_record stream \<and> record_limit stream' = record_limit stream \<and> errnum stream' = errnum stream"
proof (cases "data = []")
  case True
  then show ?thesis using assms by (simp add: append_pending_def)
next
  case ne: False
  let ?s = "compact_pending stream" and ?n = "pending_available stream + length data"
  have c: "pend ?s = pend stream" "stream_wf ?s" "pending_off ?s = 0" "pending_len ?s = pending_available stream"
    using compact_pending_pend [OF assms(1)] by blast+
  have same: "rs_record ?s = rs_record stream" "record_limit ?s = record_limit stream" "errnum ?s = errnum stream"
    "pending_available ?s = pending_available stream"
    using c(3,4) by (simp_all add: compact_pending_def pending_available_def Let_def)
  have "\<exists>cells. reserve_pending (\<lambda>_. True) ?s ?n = Some (?s\<lparr>rs_pending := cells\<rparr>) \<and> ?n \<le> length cells \<and>
      take (length (rs_pending ?s)) cells = rs_pending ?s"
  proof (cases "length (rs_pending ?s) \<ge> ?n")
    case True
    then show ?thesis by (intro exI [of _ "rs_pending ?s"]) (simp add: reserve_pending_def)
  next
    case False
    obtain k where k: "double_cap ?n (if length (rs_pending ?s) = 0 then BINARY_PROBE_CAP else length (rs_pending ?s)) = Some k" "?n \<le> k"
      using grow_cap_ok [OF assms(2), of BINARY_PROBE_CAP "length (rs_pending ?s)"] by (auto simp: BINARY_PROBE_CAP_def)
    then show ?thesis using False
      by (intro exI [of _ "take k (rs_pending ?s) @ replicate (k - length (rs_pending ?s)) 0"])
        (simp add: reserve_pending_def realloc_array_def)
  qed
  then obtain cells where r: "reserve_pending (\<lambda>_. True) ?s ?n = Some (?s\<lparr>rs_pending := cells\<rparr>)" "?n \<le> length cells"
    "take (length (rs_pending ?s)) cells = rs_pending ?s" by blast
  have "take (pending_available stream) cells = pend stream"
    using c r(3) unfolding pend_def [of ?s] stream_wf_def by (metis drop_0 diff_zero min.absorb1 take_take)
  then have "pend (?s\<lparr>rs_pending := memcpy_at cells (pending_available stream) data, pending_len := ?n\<rparr>) = pend stream @ data"
    using r(2) c(3) by (simp add: pend_def)
  then show ?thesis using ne r(1,2) c same
    by (intro exI [of _ "?s\<lparr>rs_pending := memcpy_at cells (pending_available stream) data, pending_len := ?n\<rparr>"])
      (simp add: append_pending_def Let_def stream_wf_def)
qed

section \<open>Reading a record\<close>

lemma first_boundary_bound: "first_boundary delimiter stop data = Some (i, s) \<Longrightarrow> i < length data"
  by (auto simp: first_boundary_eq Let_def split: if_splits)

lemma length_takeWhile_short: "x \<in> set xs \<Longrightarrow> \<not> P x \<Longrightarrow> length (takeWhile P xs) < length xs"
  by (induction xs) auto

lemma first_boundary_append:
  "first_boundary delimiter stop (a @ b) = (case first_boundary delimiter stop a of
     Some h \<Rightarrow> Some h | None \<Rightarrow> map_option (\<lambda>(i, s). (length a + i, s)) (first_boundary delimiter stop b))"
proof -
  let ?P = "\<lambda>x. \<not> is_boundary delimiter stop x"
  show ?thesis
  proof (cases "\<forall>x \<in> set a. ?P x")
    case True
    have t: "takeWhile ?P (a @ b) = a @ takeWhile ?P b" by (rule takeWhile_append2) (use True in blast)
    have a: "takeWhile ?P a = a" using takeWhile_append2 [of a ?P "[]"] True by simp
    show ?thesis unfolding first_boundary_eq Let_def t a by (simp add: nth_append)
  next
    case False
    then obtain x where x: "x \<in> set a" "\<not> ?P x" by blast
    then have t: "takeWhile ?P (a @ b) = takeWhile ?P a" by (rule takeWhile_append1)
    have "length (takeWhile ?P a) < length a" using x by (rule length_takeWhile_short)
    then show ?thesis using t by (simp add: first_boundary_eq Let_def nth_append)
  qed
qed

lemma next_record_eq:
  "next_record delimiter stop c = (case first_boundary delimiter stop c of
     Some (i, s) \<Rightarrow> Some (take (i + 1) c, s, drop (i + 1) c)
   | None \<Rightarrow> if c = [] then None else Some (c, False, []))"
  by (simp add: next_record_def first_boundary_eq Let_def)

text \<open>The record of a text whose first bytes have been collected already, and what is left.\<close>

definition whole_record :: "u8 \<Rightarrow> u8 option \<Rightarrow> bytes \<Rightarrow> bytes \<Rightarrow> bytes \<times> bool \<times> bytes" where
  "whole_record delimiter stop acc c = (case first_boundary delimiter stop c of
     Some (i, s) \<Rightarrow> (acc @ take (i + 1) c, s, drop (i + 1) c) | None \<Rightarrow> (acc @ c, False, []))"

definition good_file :: "c_file \<Rightarrow> bool" where
  "good_file f \<longleftrightarrow> \<not> file_fails f \<and> \<not> file_error f"

definition delivers ::
  "record_stream \<Rightarrow> bytes \<times> bool \<times> bytes \<Rightarrow> read_outcome \<times> record_stream \<times> c_file \<Rightarrow> bool" where
  "delivers stream w res \<longleftrightarrow> (case (w, res) of ((r, s, rest), (out, stream', f')) \<Rightarrow>
     if r = [] then out = No_record \<and> errnum stream' = errnum stream
     else if record_limit stream > 0 \<and> length r > record_limit stream then out = No_record \<and> errnum stream' = EOVERFLOW
     else out = Record (length r) s \<and> take (length r) (rs_record stream') = r \<and> content stream' f' = rest \<and>
       stream_wf stream' \<and> record_limit stream' = record_limit stream \<and> errnum stream' = errnum stream \<and> good_file f')"

text \<open>What holds of a stream that has collected \<open>acc\<close>.\<close>

definition collected :: "record_stream \<Rightarrow> bytes \<Rightarrow> bool" where
  "collected stream acc \<longleftrightarrow> stream_wf stream \<and> length acc \<le> length (rs_record stream) \<and>
     take (length acc) (rs_record stream) = acc \<and> (record_limit stream > 0 \<longrightarrow> length acc \<le> record_limit stream)"

lemma append_collected:
  assumes C: "collected stream acc" and len: "length acc + length data < 2 ^ 63"
  shows "if record_limit stream > 0 \<and> length (acc @ data) > record_limit stream
    then append_record (\<lambda>_. True) stream (length acc) data = (False, stream\<lparr>errnum := EOVERFLOW\<rparr>, length acc)
    else \<exists>cells. append_record (\<lambda>_. True) stream (length acc) data = (True, stream\<lparr>rs_record := cells\<rparr>, length (acc @ data)) \<and>
      collected (stream\<lparr>rs_record := cells\<rparr>) (acc @ data)"
proof -
  have c: "length acc \<le> length (rs_record stream)" "take (length acc) (rs_record stream) = acc"
    "record_limit stream > 0 \<longrightarrow> length acc \<le> record_limit stream" "stream_wf stream"
    using C by (simp_all add: collected_def)
  have wf: "stream_wf (stream\<lparr>rs_record := cells\<rparr>)" for cells using c(4) by (simp add: stream_wf_def)
  have ne: "data \<noteq> []" if "record_limit stream > 0" "length (acc @ data) > record_limit stream" using c(3) that by auto
  show ?thesis using append_record_ok [OF len c(1)] ne c(2,3) wf by (auto simp: collected_def not_less)
qed

lemma take_pending_ok:
  fixes delimiter :: u8 and stop :: "u8 option"
  assumes C: "collected stream acc" and len: "length acc + pending_available stream < 2 ^ 62"
  defines "hit \<equiv> first_boundary delimiter stop (pend stream)"
  defines "acc' \<equiv> acc @ take (case hit of Some (i, s) \<Rightarrow> i + 1 | None \<Rightarrow> pending_available stream) (pend stream)"
  shows "\<exists>res stream1 len1. take_pending (\<lambda>_. True) delimiter stop stream (length acc) = (res, stream1, len1) \<and>
    record_limit stream1 = record_limit stream \<and>
    (if record_limit stream > 0 \<and> length acc' > record_limit stream then res = None \<and> errnum stream1 = EOVERFLOW
     else res = Some hit \<and> len1 = length acc' \<and> collected stream1 acc' \<and> errnum stream1 = errnum stream \<and>
       pend stream1 = drop (case hit of Some (i, s) \<Rightarrow> i + 1 | None \<Rightarrow> pending_available stream) (pend stream))"
proof (cases "pending_available stream = 0")
  case True
  have wf: "stream_wf stream" using C by (simp add: collected_def)
  then have p: "pend stream = []" using True by (metis length_0_conv length_pend)
  then have "hit = None" by (simp add: hit_def first_boundary_eq)
  then show ?thesis using True p C by (auto simp: take_pending_def acc'_def collected_def)
next
  case False
  let ?n = "case hit of Some (i, s) \<Rightarrow> i + 1 | None \<Rightarrow> pending_available stream"
  have wf: "stream_wf stream" using C by (simp add: collected_def)
  have avail_pend: "take (pending_available stream) (drop (pending_off stream) (rs_pending stream)) = pend stream"
    using wf by (auto simp: pend_def pending_available_def stream_wf_def)
  have n: "?n \<le> pending_available stream"
    using first_boundary_bound [of delimiter stop "pend stream"] wf by (auto simp: hit_def split: option.splits)
  have run: "take_pending (\<lambda>_. True) delimiter stop stream (length acc) =
      (case append_record (\<lambda>_. True) stream (length acc) (take ?n (pend stream)) of
         (False, stream1, len1) \<Rightarrow> (None, stream1, len1)
       | (True, stream1, len1) \<Rightarrow> (Some hit, advance_pending stream1 ?n, len1))"
    using False unfolding take_pending_def Let_def avail_pend hit_def [symmetric] by simp
  have l: "length acc + length (take ?n (pend stream)) < 2 ^ 63" using len wf by simp
  show ?thesis
  proof (cases "record_limit stream > 0 \<and> length acc' > record_limit stream")
    case True
    then have "append_record (\<lambda>_. True) stream (length acc) (take ?n (pend stream)) = (False, stream\<lparr>errnum := EOVERFLOW\<rparr>, length acc)"
      using append_collected [OF C l] by (simp add: acc'_def)
    then show ?thesis using True run by simp
  next
    case ok: False
    then obtain cells where a: "append_record (\<lambda>_. True) stream (length acc) (take ?n (pend stream)) =
        (True, stream\<lparr>rs_record := cells\<rparr>, length acc')" "collected (stream\<lparr>rs_record := cells\<rparr>) acc'"
      using append_collected [OF C l] unfolding acc'_def by auto
    let ?s = "advance_pending (stream\<lparr>rs_record := cells\<rparr>) ?n"
    have same: "pend (stream\<lparr>rs_record := cells\<rparr>) = pend stream" "pending_available (stream\<lparr>rs_record := cells\<rparr>) = pending_available stream"
      by (simp_all add: pend_def pending_available_def)
    have wf': "stream_wf (stream\<lparr>rs_record := cells\<rparr>)" using a(2) by (simp add: collected_def)
    have "pend ?s = drop ?n (pend stream) \<and> stream_wf ?s"
      using advance_pending_pend [OF wf', of ?n] n same by simp
    moreover have "rs_record ?s = cells" "record_limit ?s = record_limit stream" "errnum ?s = errnum stream"
      by (simp_all add: advance_pending_def Let_def reset_pending_def)
    ultimately show ?thesis using ok run a by (simp add: collected_def)
  qed
qed

lemma whole_record_append:
  "whole_record delimiter stop acc (p @ rest) = (case first_boundary delimiter stop p of
     Some (i, s) \<Rightarrow> (acc @ take (i + 1) p, s, drop (i + 1) p @ rest)
   | None \<Rightarrow> whole_record delimiter stop (acc @ p) rest)"
  using first_boundary_bound [of delimiter stop p]
  by (auto simp: whole_record_def first_boundary_append split: option.splits)

lemma whole_record_extends: "length acc \<le> length (fst (whole_record delimiter stop acc c))"
  by (auto simp: whole_record_def split: option.splits)

lemma delivers_cong:
  "record_limit s1 = record_limit s2 \<Longrightarrow> errnum s1 = errnum s2 \<Longrightarrow> delivers s1 w res \<Longrightarrow> delivers s2 w res"
  by (simp add: delivers_def split: prod.splits)

lemma delivers_overflow:
  assumes "record_limit stream > 0" and "length (fst w) > record_limit stream" and "errnum stream' = EOVERFLOW"
  shows "delivers stream w (No_record, stream', f')"
  using assms by (auto simp: delivers_def split: prod.splits)

lemma delivers_record:
  assumes "collected stream' acc" and "acc \<noteq> []" and "errnum stream' = errnum stream"
    and "record_limit stream' = record_limit stream" and "good_file f'"
  shows "delivers stream (acc, s, content stream' f') (Record (length acc) s, stream', f')"
  using assms by (auto simp: delivers_def collected_def)

lemma delivers_end:
  assumes "collected stream' acc" and "errnum stream' = errnum stream"
    and "record_limit stream' = record_limit stream" and "good_file f'" and "content stream' f' = []"
  shows "delivers stream (acc, False, [])
    (if length acc = 0 then (No_record, stream', f') else (Record (length acc) False, stream', f'))"
  using assms delivers_record [OF assms(1) _ assms(2-4), of False] by (auto simp: delivers_def)

lemma good_fread: "good_file f \<Longrightarrow> good_file (snd (c_fread n f)) \<and> fst (c_fread n f) = take n (file_rest f) \<and>
    file_rest (snd (c_fread n f)) = drop n (file_rest f)"
  by (simp add: good_file_def c_fread_def)

lemma good_getc: "good_file f \<Longrightarrow> (case c_getc f of (None, f1) \<Rightarrow> file_rest f = [] \<and> good_file f1 \<and> file_rest f1 = []
    | (Some b, f1) \<Rightarrow> file_rest f = b # file_rest f1 \<and> good_file f1)"
  by (simp add: good_file_def c_getc_def split: list.splits)

text \<open>The part of an iteration after a chunk has been read.\<close>

definition read_chunked ::
  "(nat \<Rightarrow> bool) \<Rightarrow> u8 \<Rightarrow> u8 option \<Rightarrow> record_stream \<Rightarrow> nat \<Rightarrow> bytes \<Rightarrow> c_file \<Rightarrow> read_outcome \<times> record_stream \<times> c_file" where
  "read_chunked avail delimiter stop stream1 len1 chunk f1 =
     (let hit = first_boundary delimiter stop chunk;
          taken = (case hit of Some (i, _) \<Rightarrow> i + 1 | None \<Rightarrow> length chunk) in
      case append_record avail stream1 len1 (take taken chunk) of
        (False, stream2, len2) \<Rightarrow> (No_record, stream2, f1)
      | (True, stream2, len2) \<Rightarrow>
          (case append_pending avail stream2 (drop taken chunk) of
             (False, stream3) \<Rightarrow> (No_record, stream3\<lparr>errnum := ENOMEM\<rparr>, f1)
           | (True, stream3) \<Rightarrow>
               (case hit of
                  Some (i, stopped) \<Rightarrow> (Record len2 stopped, stream3, f1)
                | None \<Rightarrow> read_until_loop avail delimiter stop stream3 len2 f1)))"

lemma read_chunked_delivers:
  assumes C: "collected stream a" and p: "pend stream = []" and G: "good_file f" and ne: "chunk \<noteq> []"
    and L: "length a + length chunk + length (file_rest f) < 2 ^ 62"
    and IH: "\<And>stream a. collected stream a \<Longrightarrow> good_file f \<Longrightarrow> length a + length (content stream f) < 2 ^ 62 \<Longrightarrow>
      delivers stream (whole_record delimiter stop a (content stream f)) (read_until_loop (\<lambda>_. True) delimiter stop stream (length a) f)"
  shows "delivers stream (whole_record delimiter stop a (chunk @ file_rest f))
    (read_chunked (\<lambda>_. True) delimiter stop stream (length a) chunk f)"
proof -
  let ?hit = "first_boundary delimiter stop chunk"
  let ?m = "case ?hit of Some (i, s) \<Rightarrow> i + 1 | None \<Rightarrow> length chunk"
  obtain m where m: "?m = m" "m > 0" using ne by (cases ?hit) auto
  define b where "b = a @ take m chunk"
  have bne: "b \<noteq> []" using m(2) ne by (cases m) (simp_all add: b_def neq_Nil_conv)
  have mn: "m = length chunk" if "?hit = None" using m(1) that by simp
  have W: "whole_record delimiter stop a (chunk @ file_rest f) = (case ?hit of
      Some (i, s) \<Rightarrow> (b, s, drop m chunk @ file_rest f) | None \<Rightarrow> whole_record delimiter stop b (file_rest f))"
    using m(1) by (auto simp: whole_record_append b_def split: option.splits)
  have l: "length a + length (take m chunk) < 2 ^ 63" using L by simp
  note ap = append_collected [OF C l, folded b_def]
  show ?thesis
  proof (cases "record_limit stream > 0 \<and> length b > record_limit stream")
    case True
    have "length b \<le> length (fst (whole_record delimiter stop a (chunk @ file_rest f)))"
      unfolding W using whole_record_extends [of b delimiter stop] by (auto split: option.splits)
    moreover have "append_record (\<lambda>_. True) stream (length a) (take m chunk) = (False, stream\<lparr>errnum := EOVERFLOW\<rparr>, length a)"
      using ap True by simp
    ultimately show ?thesis using True m(1) by (simp add: read_chunked_def delivers_overflow)
  next
    case False
    then obtain cells where r: "append_record (\<lambda>_. True) stream (length a) (take m chunk) = (True, stream\<lparr>rs_record := cells\<rparr>, length b)"
      "collected (stream\<lparr>rs_record := cells\<rparr>) b" using ap by auto
    let ?s = "stream\<lparr>rs_record := cells\<rparr>"
    have wf: "stream_wf ?s" using r(2) by (simp add: collected_def)
    have p2: "pend ?s = []" using p by (simp add: pend_def)
    then have av: "pending_available ?s = 0" using length_pend [OF wf] by simp
    have "pending_available ?s + length (drop m chunk) \<le> 2 ^ 63" using av L by simp
    from append_pending_ok [OF wf this] obtain t where
      t: "append_pending (\<lambda>_. True) ?s (drop m chunk) = (True, t)" "pend t = drop m chunk" "stream_wf t"
        "rs_record t = cells" "record_limit t = record_limit stream" "errnum t = errnum stream" using p2 by auto
    have ct: "collected t b" using r(2) t(3-5) by (simp add: collected_def)
    have run: "read_chunked (\<lambda>_. True) delimiter stop stream (length a) chunk f =
        (case ?hit of Some (i, s) \<Rightarrow> (Record (length b) s, t, f)
         | None \<Rightarrow> read_until_loop (\<lambda>_. True) delimiter stop t (length b) f)"
      unfolding read_chunked_def Let_def m(1) r(1) using t(1) by (simp split: option.splits)
    show ?thesis
    proof (cases ?hit)
      case (Some h)
      obtain i s where h: "h = (i, s)" by force
      from delivers_record [OF ct bne t(6,5) G, of s] show ?thesis unfolding run W using Some h t(2) by (simp add: content_def)
    next
      case None
      have c: "content t f = file_rest f" using t(2) mn [OF None] by (simp add: content_def)
      have "length b + length (content t f) < 2 ^ 62" using L c by (simp add: b_def)
      from IH [OF ct G this] have "delivers t (whole_record delimiter stop b (file_rest f))
        (read_until_loop (\<lambda>_. True) delimiter stop t (length b) f)" unfolding c .
      then show ?thesis unfolding run W using None delivers_cong [OF t(5,6)] by simp
    qed
  qed
qed

text \<open>The pending part of an iteration, which both loops share: it delivers, or the record goes on in the file.\<close>

lemma take_pending_delivers:
  assumes C: "collected stream acc" and G: "good_file f" and L: "length acc + length (content stream f) < 2 ^ 62"
  shows "\<exists>res stream1 len1. take_pending (\<lambda>_. True) delimiter stop stream (length acc) = (res, stream1, len1) \<and>
    (case res of
       None \<Rightarrow> delivers stream (whole_record delimiter stop acc (content stream f)) (No_record, stream1, f)
     | Some (Some (i, s)) \<Rightarrow> delivers stream (whole_record delimiter stop acc (content stream f)) (Record len1 s, stream1, f)
     | Some None \<Rightarrow> (\<exists>a. len1 = length a \<and> collected stream1 a \<and> pend stream1 = [] \<and>
         record_limit stream1 = record_limit stream \<and> errnum stream1 = errnum stream \<and>
         length a + length (file_rest f) < 2 ^ 62 \<and>
         whole_record delimiter stop acc (content stream f) = whole_record delimiter stop a (file_rest f)))"
proof -
  have wf: "stream_wf stream" using C by (simp add: collected_def)
  let ?hit = "first_boundary delimiter stop (pend stream)"
  let ?n = "case ?hit of Some (i, s) \<Rightarrow> i + 1 | None \<Rightarrow> pending_available stream"
  let ?acc = "acc @ take ?n (pend stream)"
  have W: "whole_record delimiter stop acc (content stream f) = (case ?hit of
      Some (i, s) \<Rightarrow> (?acc, s, drop ?n (pend stream) @ file_rest f)
    | None \<Rightarrow> whole_record delimiter stop ?acc (file_rest f))"
    using wf by (simp add: content_def whole_record_append split: option.splits)
  have len: "length acc + pending_available stream < 2 ^ 62" using L wf by (simp add: content_def)
  obtain res stream1 len1 where tp: "take_pending (\<lambda>_. True) delimiter stop stream (length acc) = (res, stream1, len1)"
    "record_limit stream1 = record_limit stream"
    "if record_limit stream > 0 \<and> length ?acc > record_limit stream then res = None \<and> errnum stream1 = EOVERFLOW
     else res = Some ?hit \<and> len1 = length ?acc \<and> collected stream1 ?acc \<and> errnum stream1 = errnum stream \<and>
       pend stream1 = drop ?n (pend stream)"
    using take_pending_ok [OF C len, of delimiter stop] by blast
  show ?thesis
  proof (cases "record_limit stream > 0 \<and> length ?acc > record_limit stream")
    case True
    have "length ?acc \<le> length (fst (whole_record delimiter stop acc (content stream f)))"
      using whole_record_extends [of ?acc delimiter stop] unfolding W by (auto split: option.splits)
    then show ?thesis using True tp(1,3) by (simp add: delivers_overflow)
  next
    case False
    then have s1: "res = Some ?hit" "len1 = length ?acc" "collected stream1 ?acc" "errnum stream1 = errnum stream"
      "pend stream1 = drop ?n (pend stream)" using tp(3) by auto
    show ?thesis
    proof (cases ?hit)
      case (Some h)
      obtain i s where h: "h = (i, s)" by force
      have "pend stream \<noteq> []" using Some h first_boundary_bound by fastforce
      then have "?acc \<noteq> []" using Some h by simp
      from delivers_record [OF s1(3) this s1(4) tp(2) G, of s]
      show ?thesis unfolding W using tp(1) Some h s1 by (simp add: content_def)
    next
      case None
      have "?acc = acc @ pend stream" using None wf by simp
      moreover have "length (acc @ pend stream) + length (file_rest f) < 2 ^ 62" using L wf by (simp add: content_def)
      ultimately show ?thesis unfolding W using tp(1,2) None s1 wf
        by (auto intro!: exI [of _ "acc @ pend stream"])
    qed
  qed
qed

lemma read_until_loop_delivers:
  assumes "collected stream acc" and "good_file f" and "length acc + length (content stream f) < 2 ^ 62"
  shows "delivers stream (whole_record delimiter stop acc (content stream f))
    (read_until_loop (\<lambda>_. True) delimiter stop stream (length acc) f)"
  using assms
proof (induction "length (file_rest f)" arbitrary: stream acc f rule: less_induct)
  case less
  note G = less.prems(2)
  obtain res stream1 len1 where tp: "take_pending (\<lambda>_. True) delimiter stop stream (length acc) = (res, stream1, len1)"
    "case res of
       None \<Rightarrow> delivers stream (whole_record delimiter stop acc (content stream f)) (No_record, stream1, f)
     | Some (Some (i, s)) \<Rightarrow> delivers stream (whole_record delimiter stop acc (content stream f)) (Record len1 s, stream1, f)
     | Some None \<Rightarrow> (\<exists>a. len1 = length a \<and> collected stream1 a \<and> pend stream1 = [] \<and>
         record_limit stream1 = record_limit stream \<and> errnum stream1 = errnum stream \<and>
         length a + length (file_rest f) < 2 ^ 62 \<and>
         whole_record delimiter stop acc (content stream f) = whole_record delimiter stop a (file_rest f))"
    using take_pending_delivers [OF less.prems, of delimiter stop] by blast
  note run = read_until_loop.simps [of "\<lambda>_. True" delimiter stop stream "length acc" f, unfolded tp(1)]
  show ?case
  proof (cases "res = Some None")
    case False
    then show ?thesis unfolding run using tp(2) by (auto split: option.splits)
  next
    case True
    then obtain a where a: "len1 = length a" "collected stream1 a" "pend stream1 = []"
      "record_limit stream1 = record_limit stream" "errnum stream1 = errnum stream"
      "length a + length (file_rest f) < 2 ^ 62"
      "whole_record delimiter stop acc (content stream f) = whole_record delimiter stop a (file_rest f)" using tp(2) by auto
    obtain chunk f1 where rd: "c_fread READ_CHUNK_CAP f = (chunk, f1)" by force
    have g: "good_file f1" "chunk = take READ_CHUNK_CAP (file_rest f)" "file_rest f1 = drop READ_CHUNK_CAP (file_rest f)"
      using good_fread [OF G, of READ_CHUNK_CAP] rd by simp_all
    have e1: "\<not> file_error f1" using g(1) by (simp add: good_file_def)
    have rest: "file_rest f = chunk @ file_rest f1" using g by simp
    have run1: "read_until_loop (\<lambda>_. True) delimiter stop stream (length acc) f =
        (if chunk = [] then (if length a = 0 then (No_record, stream1, f1) else (Record (length a) False, stream1, f1))
         else read_chunked (\<lambda>_. True) delimiter stop stream1 (length a) chunk f1)"
      unfolding run read_chunked_def using True rd e1 a(1) by simp
    show ?thesis
    proof (cases "chunk = []")
      case True
      then have "file_rest f = []" "file_rest f1 = []" using g(2,3) by (cases "file_rest f"; simp add: READ_CHUNK_CAP_def)+
      then show ?thesis unfolding a(7) run1 using True a(3)
          delivers_end [OF a(2) a(5,4) g(1)] by (simp add: content_def whole_record_def first_boundary_eq)
    next
      case False
      have "length (file_rest f1) < length (file_rest f)" using False rest by simp
      moreover have "length a + length chunk + length (file_rest f1) < 2 ^ 62" using a(6) rest by simp
      ultimately have "delivers stream1 (whole_record delimiter stop a (chunk @ file_rest f1))
        (read_chunked (\<lambda>_. True) delimiter stop stream1 (length a) chunk f1)"
        using read_chunked_delivers [OF a(2,3) g(1) False] less.hyps by blast
      then show ?thesis unfolding a(7) run1 rest using False delivers_cong [OF a(4,5)] by simp
    qed
  qed
qed

lemma read_live_loop_delivers:
  assumes "collected stream acc" and "good_file f" and "length acc + length (content stream f) < 2 ^ 62"
  shows "delivers stream (whole_record delimiter None acc (content stream f))
    (read_live_loop (\<lambda>_. True) delimiter stream (length acc) f)"
  using assms
proof (induction "length (file_rest f)" arbitrary: stream acc f rule: less_induct)
  case less
  note G = less.prems(2)
  obtain res stream1 len1 where tp: "take_pending (\<lambda>_. True) delimiter None stream (length acc) = (res, stream1, len1)"
    "case res of
       None \<Rightarrow> delivers stream (whole_record delimiter None acc (content stream f)) (No_record, stream1, f)
     | Some (Some (i, s)) \<Rightarrow> delivers stream (whole_record delimiter None acc (content stream f)) (Record len1 s, stream1, f)
     | Some None \<Rightarrow> (\<exists>a. len1 = length a \<and> collected stream1 a \<and> pend stream1 = [] \<and>
         record_limit stream1 = record_limit stream \<and> errnum stream1 = errnum stream \<and>
         length a + length (file_rest f) < 2 ^ 62 \<and>
         whole_record delimiter None acc (content stream f) = whole_record delimiter None a (file_rest f))"
    using take_pending_delivers [OF less.prems, of delimiter None] by blast
  note run = read_live_loop.simps [of "\<lambda>_. True" delimiter stream "length acc" f, unfolded tp(1)]
  show ?case
  proof (cases "res = Some None")
    case False
    then show ?thesis unfolding run using tp(2) by (auto split: option.splits)
  next
    case True
    then obtain a where a: "len1 = length a" "collected stream1 a" "pend stream1 = []"
      "record_limit stream1 = record_limit stream" "errnum stream1 = errnum stream"
      "length a + length (file_rest f) < 2 ^ 62"
      "whole_record delimiter None acc (content stream f) = whole_record delimiter None a (file_rest f)" using tp(2) by auto
    show ?thesis
    proof (cases "c_getc f")
      case (Pair got f1)
      have g: "good_file f1" "\<not> file_error f1"
        "case got of None \<Rightarrow> file_rest f = [] \<and> file_rest f1 = [] | Some b \<Rightarrow> file_rest f = b # file_rest f1"
        using good_getc [OF G] Pair by (auto simp: good_file_def split: option.splits)
      show ?thesis
      proof (cases got)
        case None
        then show ?thesis unfolding a(7) run using True Pair g a(1,3)
            delivers_end [OF a(2) a(5,4) g(1)] by (simp add: content_def whole_record_def first_boundary_eq)
      next
        case (Some byte)
        have rest: "file_rest f = [byte] @ file_rest f1" using g(3) Some by simp
        have W: "whole_record delimiter None a (file_rest f) = (if byte = delimiter then (a @ [byte], False, file_rest f1)
            else whole_record delimiter None (a @ [byte]) (file_rest f1))"
          unfolding rest whole_record_append by (simp add: first_boundary_eq is_boundary_def)
        have l: "length a + length [byte] < 2 ^ 63" using a(6) rest by simp
        have run1: "read_live_loop (\<lambda>_. True) delimiter stream (length acc) f =
          (case append_record (\<lambda>_. True) stream1 (length a) [byte] of
              (False, stream2, len2) \<Rightarrow> (No_record, stream2, f1)
            | (True, stream2, len2) \<Rightarrow>
                if byte = delimiter then (Record len2 False, stream2, f1)
                else read_live_loop (\<lambda>_. True) delimiter stream2 len2 f1)"
          unfolding run using True Pair Some a(1) by simp
        have goal: "delivers stream1 (whole_record delimiter None a (file_rest f))
          (read_live_loop (\<lambda>_. True) delimiter stream (length acc) f)"
        proof (cases "record_limit stream1 > 0 \<and> length (a @ [byte]) > record_limit stream1")
          case True
          have "length (a @ [byte]) \<le> length (fst (whole_record delimiter None a (file_rest f)))"
            unfolding W using whole_record_extends [of "a @ [byte]" delimiter None] by simp
          then show ?thesis unfolding run1 using append_collected [OF a(2) l] True by (simp add: delivers_overflow)
        next
          case False
          then obtain cells where r: "append_record (\<lambda>_. True) stream1 (length a) [byte] = (True, stream1\<lparr>rs_record := cells\<rparr>, length (a @ [byte]))"
            "collected (stream1\<lparr>rs_record := cells\<rparr>) (a @ [byte])" using append_collected [OF a(2) l] by auto
          let ?s = "stream1\<lparr>rs_record := cells\<rparr>"
          have c: "content ?s f1 = file_rest f1" using a(3) by (simp add: content_def pend_def)
          have "length (file_rest f1) < length (file_rest f)" "length (a @ [byte]) + length (content ?s f1) < 2 ^ 62"
            using rest a(6) c by simp_all
          from less.hyps [OF this(1) r(2) g(1) this(2)]
          have "delivers ?s (whole_record delimiter None (a @ [byte]) (file_rest f1))
            (read_live_loop (\<lambda>_. True) delimiter ?s (length (a @ [byte])) f1)" unfolding c .
          then have "delivers stream1 (whole_record delimiter None (a @ [byte]) (file_rest f1))
            (read_live_loop (\<lambda>_. True) delimiter ?s (length (a @ [byte])) f1)" by (rule delivers_cong [rotated 2]) simp_all
          moreover have "delivers stream1 (a @ [byte], False, content ?s f1) (Record (length (a @ [byte])) False, ?s, f1)"
            by (rule delivers_record [OF r(2) _ _ _ g(1)]) simp_all
          ultimately show ?thesis unfolding run1 r(1) W using c by auto
        qed
        then show ?thesis unfolding a(7) by (rule delivers_cong [OF a(4,5)])
      qed
    qed
  qed
qed

section \<open>The records of a file\<close>

definition reader_ready :: "record_stream \<Rightarrow> c_file \<Rightarrow> bool" where
  "reader_ready stream f \<longleftrightarrow> stream_wf stream \<and> good_file f \<and> length (content stream f) < 2 ^ 62"

lemma read_start_ok:
  assumes "stream_wf stream"
  shows "\<exists>stream1. read_start (\<lambda>_. True) stream = (True, stream1) \<and> collected stream1 [] \<and> content stream1 f = content stream f \<and>
    record_limit stream1 = record_limit stream \<and> errnum stream1 = NO_ERROR"
proof -
  obtain cells where r: "reserve_record (\<lambda>_. True) (stream\<lparr>errnum := NO_ERROR\<rparr>) 0 = Some (stream\<lparr>errnum := NO_ERROR, rs_record := cells\<rparr>)"
    using reserve_record_ok [of 0 "stream\<lparr>errnum := NO_ERROR\<rparr>"] by auto
  then show ?thesis using assms
    by (auto simp: read_start_def Let_def collected_def stream_wf_def content_def pend_def)
qed

lemma read_until_delivers:
  assumes "reader_ready stream f"
  shows "delivers (stream\<lparr>errnum := NO_ERROR\<rparr>) (whole_record delimiter stop [] (content stream f))
    (read_until (\<lambda>_. True) stream delimiter stop f)"
proof -
  have a: "stream_wf stream" "good_file f" "length (content stream f) < 2 ^ 62" using assms by (simp_all add: reader_ready_def)
  from read_start_ok [OF a(1), of f] obtain s where s: "read_start (\<lambda>_. True) stream = (True, s)" "collected s []"
    "content s f = content stream f" "record_limit s = record_limit stream" "errnum s = NO_ERROR" by blast
  have "delivers s (whole_record delimiter stop [] (content s f)) (read_until_loop (\<lambda>_. True) delimiter stop s (length []) f)"
    using read_until_loop_delivers [OF s(2) a(2)] a(3) s(3) by simp
  then have "delivers s (whole_record delimiter stop [] (content stream f)) (read_until (\<lambda>_. True) stream delimiter stop f)"
    using s(1,3) by (simp add: read_until_def)
  then show ?thesis by (rule delivers_cong [rotated 2]) (simp_all add: s)
qed

lemma read_live_delivers:
  assumes "reader_ready stream f"
  shows "delivers (stream\<lparr>errnum := NO_ERROR\<rparr>) (whole_record delimiter None [] (content stream f))
    (read_live (\<lambda>_. True) stream delimiter f)"
proof -
  have a: "stream_wf stream" "good_file f" "length (content stream f) < 2 ^ 62" using assms by (simp_all add: reader_ready_def)
  from read_start_ok [OF a(1), of f] obtain s where s: "read_start (\<lambda>_. True) stream = (True, s)" "collected s []"
    "content s f = content stream f" "record_limit s = record_limit stream" "errnum s = NO_ERROR" by blast
  have "delivers s (whole_record delimiter None [] (content s f)) (read_live_loop (\<lambda>_. True) delimiter s (length []) f)"
    using read_live_loop_delivers [OF s(2) a(2)] a(3) s(3) by simp
  then have "delivers s (whole_record delimiter None [] (content stream f)) (read_live (\<lambda>_. True) stream delimiter f)"
    using s(1,3) by (simp add: read_live_def)
  then show ?thesis by (rule delivers_cong [rotated 2]) (simp_all add: s)
qed

lemma whole_record_next:
  "whole_record delimiter stop [] c = (case next_record delimiter stop c of None \<Rightarrow> ([], False, []) | Some w \<Rightarrow> w)"
  by (auto simp: whole_record_def next_record_eq split: option.splits)

lemma next_record_Some:
  "next_record delimiter stop c = Some (r, s, rest) \<Longrightarrow> r \<noteq> [] \<and> c = r @ rest"
  by (auto simp: next_record_eq split: option.splits if_splits dest: first_boundary_bound)

text \<open>One read, in the terms of the text the stream and its file still hold.\<close>

lemma read_until_sim:
  assumes "reader_ready stream f" and "read_until (\<lambda>_. True) stream delimiter stop f = (out, stream', f')"
  shows "case next_record delimiter stop (content stream f) of
      None \<Rightarrow> out = No_record \<and> errnum stream' = NO_ERROR
    | Some (r, s, rest) \<Rightarrow>
        if record_limit stream > 0 \<and> length r > record_limit stream then out = No_record \<and> errnum stream' = EOVERFLOW
        else out = Record (length r) s \<and> take (length r) (rs_record stream') = r \<and> content stream' f' = rest \<and>
          errnum stream' = NO_ERROR \<and> record_limit stream' = record_limit stream \<and> reader_ready stream' f'"
  using read_until_delivers [OF assms(1), of delimiter stop] assms
    next_record_Some [of delimiter stop "content stream f"] unfolding whole_record_next assms(2)
  by (auto simp: delivers_def reader_ready_def split: option.splits if_splits)

lemma read_live_sim:
  assumes "reader_ready stream f" and "read_live (\<lambda>_. True) stream delimiter f = (out, stream', f')"
  shows "case next_record delimiter None (content stream f) of
      None \<Rightarrow> out = No_record \<and> errnum stream' = NO_ERROR
    | Some (r, s, rest) \<Rightarrow>
        if record_limit stream > 0 \<and> length r > record_limit stream then out = No_record \<and> errnum stream' = EOVERFLOW
        else out = Record (length r) s \<and> take (length r) (rs_record stream') = r \<and> content stream' f' = rest \<and>
          errnum stream' = NO_ERROR \<and> record_limit stream' = record_limit stream \<and> reader_ready stream' f'"
  using read_live_delivers [OF assms(1), of delimiter] assms
    next_record_Some [of delimiter None "content stream f"] unfolding whole_record_next assms(2)
  by (auto simp: delivers_def reader_ready_def split: option.splits if_splits)

text \<open>A client that reads all the records, and the records of a text.\<close>

function split_records :: "u8 \<Rightarrow> bytes \<Rightarrow> bytes list" where
  "split_records delimiter c =
     (case next_record delimiter None c of None \<Rightarrow> [] | Some (r, s, rest) \<Rightarrow> r # split_records delimiter rest)"
  by pat_completeness auto
termination
  by (relation "measure (\<lambda>(delimiter, c). length c)") (auto dest!: next_record_Some)

declare split_records.simps [simp del]

fun read_all :: "nat \<Rightarrow> u8 \<Rightarrow> record_stream \<Rightarrow> c_file \<Rightarrow> bytes list option" where
  "read_all 0 delimiter stream f = None"
| "read_all (Suc fuel) delimiter stream f =
     (case record_stream_read (\<lambda>_. True) stream delimiter f of
        (No_record, stream1, f1) \<Rightarrow> if errnum stream1 = NO_ERROR then Some [] else None
      | (Record n s, stream1, f1) \<Rightarrow> map_option (\<lambda>rs. take n (rs_record stream1) # rs) (read_all fuel delimiter stream1 f1))"

lemma split_records_concat: "concat (split_records delimiter c) = c"
proof (induction delimiter c rule: split_records.induct)
  case (1 delimiter c)
  show ?case
    by (cases "next_record delimiter None c")
      (auto simp: split_records.simps [of delimiter c] next_record_eq 1 split: option.splits if_splits dest: next_record_Some)
qed

lemma first_boundary_none_in: "first_boundary delimiter None c = Some (i, s) \<Longrightarrow> c ! i = delimiter \<and> delimiter \<notin> set (take i c) \<and> \<not> s"
proof -
  assume a: "first_boundary delimiter None c = Some (i, s)"
  let ?P = "\<lambda>x. \<not> is_boundary delimiter None x"
  have i: "i = length (takeWhile ?P c)" "i < length c" "s = (c ! i \<noteq> delimiter)"
    using a by (auto simp: first_boundary_eq Let_def split: if_splits)
  have "\<not> ?P (c ! i)" using nth_length_takeWhile [of ?P c] i(2) unfolding i(1) by simp
  moreover have "take i c = takeWhile ?P c" unfolding i(1) by (rule takeWhile_eq_take [symmetric])
  ultimately show ?thesis using i(3) set_takeWhileD [of _ ?P c] by (auto simp: is_boundary_def)
qed

lemma split_records_shape:
  "list_all (\<lambda>r. r \<noteq> [] \<and> delimiter \<notin> set (butlast r)) (split_records delimiter c) \<and>
   list_all (\<lambda>r. last r = delimiter) (butlast (split_records delimiter c))"
proof (induction delimiter c rule: split_records.induct)
  case (1 delimiter c)
  show ?case
  proof (cases "first_boundary delimiter None c")
    case None
    have "delimiter \<notin> set c" using None by (auto simp: first_boundary_def c_memchr_def split: if_splits)
    then show ?thesis using None in_set_butlastD [of delimiter c]
      by (auto simp: split_records.simps [of delimiter c] split_records.simps [of delimiter "[]"] next_record_eq first_boundary_eq)
  next
    case (Some h)
    obtain i s where h: "h = (i, s)" by force
    have b: "c ! i = delimiter" "delimiter \<notin> set (take i c)" "\<not> s" "i < length c"
      using first_boundary_none_in [of delimiter c i s] first_boundary_bound [of delimiter None c i s] Some h by auto
    have n: "next_record delimiter None c = Some (take (i + 1) c, s, drop (i + 1) c)" using Some h by (simp add: next_record_eq)
    have r: "take (i + 1) c = take i c @ [delimiter]" using b by (simp add: take_Suc_conv_app_nth)
    show ?thesis using 1 [OF n refl refl] b(2) unfolding split_records.simps [of delimiter c] n r by simp
  qed
qed

lemma read_all_ok:
  assumes "reader_ready stream f" and "record_limit stream = 0 \<or> (\<forall>r \<in> set (split_records delimiter (content stream f)). length r \<le> record_limit stream)"
    and "length (content stream f) < fuel"
  shows "read_all fuel delimiter stream f = Some (split_records delimiter (content stream f))"
  using assms
proof (induction fuel arbitrary: stream f)
  case (Suc fuel)
  obtain out stream1 f1 where rd: "read_until (\<lambda>_. True) stream delimiter None f = (out, stream1, f1)" by (cases "read_until (\<lambda>_. True) stream delimiter None f")
  note sim = read_until_sim [OF Suc.prems(1) rd]
  show ?case
  proof (cases "next_record delimiter None (content stream f)")
    case None
    then show ?thesis using sim rd by (simp add: record_stream_read_def split_records.simps)
  next
    case (Some w)
    obtain r s rest where w: "w = (r, s, rest)" by (cases w)
    have split: "split_records delimiter (content stream f) = r # split_records delimiter rest"
      using Some w by (simp add: split_records.simps [of delimiter "content stream f"])
    have n: "r \<noteq> []" "length r > 0" "content stream f = r @ rest" using next_record_Some [of delimiter None "content stream f" r s rest] Some w by simp_all
    have "\<not> (record_limit stream > 0 \<and> length r > record_limit stream)" using Suc.prems(2) split by auto
    then have o: "out = Record (length r) s" "take (length r) (rs_record stream1) = r" "content stream1 f1 = rest"
      "record_limit stream1 = record_limit stream" "reader_ready stream1 f1" using sim Some w by auto
    have "read_all fuel delimiter stream1 f1 = Some (split_records delimiter (content stream1 f1))"
    proof (rule Suc.IH [OF o(5)])
      have "length (content stream f) = length r + length rest" unfolding n(3) by simp
      then show "length (content stream1 f1) < fuel" using Suc.prems(3) n(2) unfolding o(3) by linarith
    qed (use Suc.prems(2) split o(3,4) in auto)
    then show ?thesis using rd o split by (simp add: record_stream_read_def)
  qed
qed simp

section \<open>Probing and chunks\<close>

lemma reserve_pending_ok:
  assumes "n \<le> 2 ^ 63"
  shows "\<exists>cells. reserve_pending (\<lambda>_. True) s n = Some (s\<lparr>rs_pending := cells\<rparr>) \<and> n \<le> length cells \<and>
    take (length (rs_pending s)) cells = rs_pending s"
proof (cases "length (rs_pending s) \<ge> n")
  case True
  then show ?thesis by (intro exI [of _ "rs_pending s"]) (simp add: reserve_pending_def)
next
  case False
  obtain k where k: "double_cap n (if length (rs_pending s) = 0 then BINARY_PROBE_CAP else length (rs_pending s)) = Some k" "n \<le> k"
    using grow_cap_ok [OF assms, of BINARY_PROBE_CAP "length (rs_pending s)"] by (auto simp: BINARY_PROBE_CAP_def)
  then show ?thesis using False
    by (intro exI [of _ "take k (rs_pending s) @ replicate (k - length (rs_pending s)) 0"])
      (simp add: reserve_pending_def realloc_array_def)
qed

lemma fill_loop_ok:
  assumes "stream_wf stream" and "good_file f" and "target \<le> 2 ^ 63"
  shows "\<exists>available stream' f'. fill_loop (\<lambda>_. True) target stream f = (available, stream', f') \<and>
    stream_wf stream' \<and> good_file f' \<and> content stream' f' = content stream f \<and> errnum stream' = errnum stream \<and>
    available = pending_available stream' \<and> min target (length (content stream f)) \<le> available"
  using assms
proof (induction "length (file_rest f)" arbitrary: stream f rule: less_induct)
  case less
  note wf = less.prems(1) and G = less.prems(2) and T = less.prems(3)
  show ?case
  proof (cases "pending_available stream < target")
    case False
    then show ?thesis using less.prems by (simp add: fill_loop.simps)
  next
    case True
    let ?s = "compact_pending stream"
    have c: "pend ?s = pend stream" "stream_wf ?s" "pending_off ?s = 0" "pending_len ?s = pending_available stream"
      using compact_pending_pend [OF wf] by blast+
    have same: "rs_record ?s = rs_record stream" "errnum ?s = errnum stream" "pending_available ?s = pending_available stream"
      using c(3,4) by (simp_all add: compact_pending_def pending_available_def Let_def)
    obtain cells where r: "reserve_pending (\<lambda>_. True) ?s target = Some (?s\<lparr>rs_pending := cells\<rparr>)" "target \<le> length cells"
      "take (length (rs_pending ?s)) cells = rs_pending ?s" using reserve_pending_ok [OF T, of ?s] by blast
    have front: "take (pending_available stream) cells = pend stream"
      using c r(3) unfolding pend_def [of ?s] stream_wf_def by (metis drop_0 diff_zero min.absorb1 take_take)
    let ?k = "target - pending_available stream"
    obtain chunk f1 where rd: "c_fread ?k f = (chunk, f1)" by force
    have g: "good_file f1" "chunk = take ?k (file_rest f)" "file_rest f1 = drop ?k (file_rest f)"
      using good_fread [OF G, of ?k] rd by simp_all
    have e1: "\<not> file_error f1" using g(1) by (simp add: good_file_def)
    have rest: "file_rest f = chunk @ file_rest f1" using g by simp
    let ?t = "?s\<lparr>rs_pending := memcpy_at cells (pending_available stream) chunk,
        pending_len := pending_available stream + length chunk\<rparr>"
    have cl: "pending_available stream + length chunk \<le> length cells" using r(2) g(2) True by simp
    have t: "pend ?t = pend stream @ chunk" using front c(3) cl by (simp add: pend_def)
    have twf: "stream_wf ?t" using c(3) cl by (simp add: stream_wf_def)
    have tav: "pending_available ?t = pending_available stream + length chunk" using c(3) by (simp add: pending_available_def)
    have run: "fill_loop (\<lambda>_. True) target stream f =
        (if chunk = [] then (pending_available stream, ?t, f1) else fill_loop (\<lambda>_. True) target ?t f1)"
      using True r(1) rd e1 same(3) c(4) by (simp add: fill_loop.simps [of _ _ stream] Let_def)
    have keep: "content ?t f1 = content stream f" using t rest by (simp add: content_def)
    show ?thesis
    proof (cases "chunk = []")
      case True
      then have "file_rest f = []" using g(2) \<open>pending_available stream < target\<close> by (cases "file_rest f") auto
      then have "length (content stream f) = pending_available stream" using wf by (simp add: content_def)
      then show ?thesis unfolding run using True twf g(1) keep same(2) tav by simp
    next
      case False
      then have "length (file_rest f1) < length (file_rest f)" using rest by simp
      from less.hyps [OF this twf g(1) T] show ?thesis unfolding run using False keep same(2) by simp
    qed
  qed
qed

lemma probe_stream_ok:
  assumes "reader_ready stream f"
  shows "\<exists>stream' f'. probe_binary_prefix (\<lambda>_. True) None stream f =
      (Some (0 \<in> set (take (pending_available stream') (content stream f))), stream', f') \<and>
    content stream' f' = content stream f \<and> errnum stream' = NO_ERROR \<and> reader_ready stream' f' \<and>
    min BINARY_PROBE_CAP (length (content stream f)) \<le> pending_available stream'"
proof -
  let ?s = "stream\<lparr>errnum := NO_ERROR\<rparr>"
  have a: "stream_wf ?s" "good_file f" "content ?s f = content stream f" "length (content stream f) < 2 ^ 62"
    using assms by (simp_all add: reader_ready_def stream_wf_def content_def pend_def)
  from fill_loop_ok [OF a(1,2), of BINARY_PROBE_CAP] obtain available t f1 where
    l: "fill_loop (\<lambda>_. True) BINARY_PROBE_CAP ?s f = (available, t, f1)" "stream_wf t" "good_file f1"
      "content t f1 = content stream f" "errnum t = NO_ERROR" "available = pending_available t"
      "min BINARY_PROBE_CAP (length (content stream f)) \<le> available"
    using a(3) by (auto simp: BINARY_PROBE_CAP_def)
  have "take available (drop (pending_off t) (rs_pending t)) = pend t" using l(2,6) by (auto simp: pend_def pending_available_def stream_wf_def)
  also have "\<dots> = take (pending_available t) (content stream f)" unfolding l(4) [symmetric] content_def [of t] using l(2) by simp
  finally show ?thesis using l a(4) by (simp add: probe_binary_prefix_def Let_def reader_ready_def)
qed

lemma read_chunk_ok:
  assumes "reader_ready stream f"
  shows "\<exists>stream' f'. read_chunk stream f cap = (take cap (content stream f), stream', f') \<and>
    content stream' f' = drop cap (content stream f) \<and> errnum stream' = errnum stream \<and> reader_ready stream' f'"
proof -
  have a: "stream_wf stream" "good_file f" "length (content stream f) < 2 ^ 62" using assms by (simp_all add: reader_ready_def)
  let ?c = "min (pending_available stream) cap"
  let ?s = "if pending_available stream > 0 then advance_pending stream ?c else stream"
  have s: "pend ?s = drop ?c (pend stream) \<and> stream_wf ?s" "errnum ?s = errnum stream"
  proof -
    show "pend ?s = drop ?c (pend stream) \<and> stream_wf ?s" using advance_pending_pend [OF a(1), of ?c] a(1) by simp
    show "errnum ?s = errnum stream" by (simp add: advance_pending_def Let_def reset_pending_def)
  qed
  have d: "take ?c (drop (pending_off stream) (rs_pending stream)) = take ?c (pend stream)"
    using a(1) by (auto simp: pend_def pending_available_def stream_wf_def)
  have lp: "length (pend stream) = pending_available stream" using a(1) by simp
  obtain chunk f1 where rd: "c_fread (cap - ?c) f = (chunk, f1)" by force
  have g: "good_file f1" "chunk = take (cap - ?c) (file_rest f)" "file_rest f1 = drop (cap - ?c) (file_rest f)"
    using good_fread [OF a(2), of "cap - ?c"] rd by simp_all
  have e1: "\<not> file_error f1" using g(1) by (simp add: good_file_def)
  have run: "read_chunk stream f cap = (if cap = 0 then ([], stream, f) else if ?c = cap then (take ?c (pend stream), ?s, f)
      else (take ?c (pend stream) @ chunk, ?s, f1))"
    using e1 unfolding read_chunk_def Let_def d rd by simp
  show ?thesis
  proof (cases "?c = cap")
    case True
    then have "cap \<le> length (pend stream)" using lp by simp
    then have "content ?s f = drop cap (content stream f)" "take cap (content stream f) = take ?c (pend stream)"
      using True s(1) by (simp_all add: content_def)
    then show ?thesis unfolding run using True s a assms by (auto simp: reader_ready_def)
  next
    case False
    then have c: "?c = length (pend stream)" "cap > 0" using lp by auto
    then have "content ?s f1 = drop cap (content stream f)" "take cap (content stream f) = take ?c (pend stream) @ chunk"
      using s(1) g by (simp_all add: content_def)
    then show ?thesis unfolding run using False c(2) s g(1) a(3) by (auto simp: reader_ready_def)
  qed
qed

section \<open>Properties\<close>

text \<open>
  C20: a read gives the next record of what the stream and its file still hold, up to and with the
  delimiter or the stop byte, and leaves the rest to be read; it gives nothing exactly at the end, and
  refuses, with \<open>EOVERFLOW\<close>, exactly a record longer than the limit.
\<close>

theorem read_until_next:
  assumes "reader_ready stream f" and "read_until (\<lambda>_. True) stream delimiter stop f = (out, stream', f')"
  shows "case next_record delimiter stop (content stream f) of
      None \<Rightarrow> out = No_record \<and> errnum stream' = NO_ERROR
    | Some (r, s, rest) \<Rightarrow>
        if record_limit stream > 0 \<and> length r > record_limit stream then out = No_record \<and> errnum stream' = EOVERFLOW
        else out = Record (length r) s \<and> take (length r) (rs_record stream') = r \<and> content stream' f' = rest \<and>
          errnum stream' = NO_ERROR \<and> record_limit stream' = record_limit stream \<and> reader_ready stream' f'"
  using assms by (rule read_until_sim)


text \<open>
  The live reader, which takes one byte at a time, gives the same record or refuses in the same
  way as the chunked reader, and leaves the same bytes to be read.
\<close>

lemma read_live_agrees:
  assumes "reader_ready stream f" and "record_stream_read (\<lambda>_. True) stream delimiter f = (out1, s1, f1)"
    and "read_live (\<lambda>_. True) stream delimiter f = (out2, s2, f2)"
  shows "out1 = out2 \<and> errnum s1 = errnum s2 \<and>
    (case out1 of No_record \<Rightarrow> True | Record n s \<Rightarrow> take n (rs_record s1) = take n (rs_record s2) \<and> content s1 f1 = content s2 f2)"
  using read_until_sim [OF assms(1) assms(2) [unfolded record_stream_read_def]] read_live_sim [OF assms(1,3)]
  by (auto split: option.splits if_splits)

definition sample_stream :: record_stream where
  "sample_stream = \<lparr>rs_record = [], rs_pending = [], pending_off = 0, pending_len = 0, record_limit = 0, errnum = NO_ERROR\<rparr>"

definition sample_file :: c_file where
  "sample_file = \<lparr>file_rest = [97, 10, 98], file_fails = False, file_error = False\<rparr>"

lemma sample_ready: "reader_ready sample_stream sample_file" "record_limit sample_stream = 0"
  "content sample_stream sample_file = [97, 10, 98]"
  by (simp_all add: sample_stream_def sample_file_def reader_ready_def stream_wf_def good_file_def content_def pend_def)

lemma sample_records: "next_record 10 None [97, 10, 98] = Some ([97, 10], False, [98])"
  "split_records 10 [97, 10, 98] = [[97, 10], [98]]"
  by code_simp+

theorem read_until_next_witness:
  "case read_until (\<lambda>_. True) sample_stream 10 None sample_file of (out, stream, f) \<Rightarrow>
     out = Record 2 False \<and> take 2 (rs_record stream) = [97, 10] \<and> content stream f = [98]"
proof (cases "read_until (\<lambda>_. True) sample_stream 10 None sample_file")
  case (fields out stream f)
  from read_until_next [OF sample_ready(1) this] fields show ?thesis
    by (simp add: sample_ready sample_records numeral_2_eq_2)
qed


theorem read_live_agrees_witness:
  "fst (record_stream_read (\<lambda>_. True) sample_stream 10 sample_file) = fst (read_live (\<lambda>_. True) sample_stream 10 sample_file)"
proof (cases "record_stream_read (\<lambda>_. True) sample_stream 10 sample_file")
  case one: (fields out1 s1 f1)
  show ?thesis
  proof (cases "read_live (\<lambda>_. True) sample_stream 10 sample_file")
    case (fields out2 s2 f2)
    from read_live_agrees [OF sample_ready(1) one fields] one fields show ?thesis by simp
  qed
qed

end
