(* ===== verification/CLocale.thy ===== *)
theory CLocale
  imports Prelude "HOL-Library.List_Lexorder"
begin

text \<open>
  What the search code uses of the C library's string functions, in the C locale: \<open>strcmp\<close>,
  \<open>strcasecmp\<close>, \<open>qsort\<close> and POSIX \<open>fnmatch\<close> with the flags \<open>FNM_PATHNAME\<close> and \<open>FNM_CASEFOLD\<close>. Bracket
  expressions have ranges, negation, escapes and a first \<open>]\<close>; the named classes and collating symbols
  between \<open>[: :]\<close>, \<open>[= =]\<close> and \<open>[. .]\<close> are not interpreted.
\<close>

section \<open>Comparison\<close>

definition c_tolower :: "char \<Rightarrow> char" where
  "c_tolower c = (let n = (of_char c :: nat) in if 65 \<le> n \<and> n \<le> 90 then char_of (n + 32) else c)"

definition c_toupper :: "char \<Rightarrow> char" where
  "c_toupper c = (let n = (of_char c :: nat) in if 97 \<le> n \<and> n \<le> 122 then char_of (n - 32) else c)"

text \<open>The sign of the result: the first bytes that differ are compared, the NUL byte being the least.\<close>

fun c_strcmp :: "string \<Rightarrow> string \<Rightarrow> int" where
  "c_strcmp [] [] = 0"
| "c_strcmp [] (b # bs) = - of_char b"
| "c_strcmp (a # as) [] = of_char a"
| "c_strcmp (a # as) (b # bs) = (if a = b then c_strcmp as bs else of_char a - of_char b)"

definition fold_case :: "bool \<Rightarrow> string \<Rightarrow> string" where
  "fold_case casefold s = (if casefold then map c_tolower s else s)"

definition c_strcasecmp :: "string \<Rightarrow> string \<Rightarrow> int" where
  "c_strcasecmp a b = c_strcmp (map c_tolower a) (map c_tolower b)"

text \<open>A text has no NUL byte in it, so a byte that is missing is less than every byte.\<close>

definition c_string :: "string \<Rightarrow> bool" where
  "c_string s \<longleftrightarrow> CHR 0x00 \<notin> set s"

text \<open>The byte at an index that is at most the length.\<close>

definition c_char :: "string \<Rightarrow> nat \<Rightarrow> char" where
  "c_char s i = (if i < length s then s ! i else CHR 0x00)"

section \<open>Sorting\<close>

text \<open>
  \<open>qsort\<close> by a comparison function. The order of elements that compare equal is unspecified; the
  comparisons of the program never give 0 on two elements of an array.
\<close>

fun qsort_insert :: "('a \<Rightarrow> 'a \<Rightarrow> int) \<Rightarrow> 'a \<Rightarrow> 'a list \<Rightarrow> 'a list" where
  "qsort_insert cmp x [] = [x]"
| "qsort_insert cmp x (y # ys) = (if cmp x y \<le> 0 then x # y # ys else y # qsort_insert cmp x ys)"

definition c_qsort :: "('a \<Rightarrow> 'a \<Rightarrow> int) \<Rightarrow> 'a list \<Rightarrow> 'a list" where
  "c_qsort cmp xs = foldr (qsort_insert cmp) xs []"

section \<open>Pattern matching\<close>

definition char_matches :: "bool \<Rightarrow> char \<Rightarrow> char \<Rightarrow> bool" where
  "char_matches casefold a c \<longleftrightarrow> (if casefold then c_tolower a = c_tolower c else a = c)"

definition in_range :: "bool \<Rightarrow> char \<Rightarrow> char \<Rightarrow> char \<Rightarrow> bool" where
  "in_range casefold lo hi c \<longleftrightarrow>
     (lo \<le> c \<and> c \<le> hi) \<or>
     (casefold \<and> (lo \<le> c_tolower c \<and> c_tolower c \<le> hi \<or> lo \<le> c_toupper c \<and> c_toupper c \<le> hi))"

text \<open>One end of a range: a byte, or an escaped byte.\<close>

definition bracket_char :: "string \<Rightarrow> (char \<times> string) option" where
  "bracket_char p =
     (case p of
        [] \<Rightarrow> None
      | a # p1 \<Rightarrow>
          if a = CHR 0x5C then (case p1 of [] \<Rightarrow> None | b # p2 \<Rightarrow> Some (b, p2)) else Some (a, p1))"

lemma bracket_char_shorter: "bracket_char p = Some (a, q) \<Longrightarrow> length q < length p"
  by (auto simp: bracket_char_def split: list.splits if_splits)

text \<open>
  The members of a bracket expression up to its \<open>]\<close>: whether one of them is \<open>c\<close>, and the pattern
  after it. \<open>None\<close> is an expression that is not closed, or that has a slash in a path name pattern.
\<close>

function bracket_members :: "bool \<Rightarrow> bool \<Rightarrow> char \<Rightarrow> bool \<Rightarrow> bool \<Rightarrow> string \<Rightarrow> (bool \<times> string) option" where
  "bracket_members pathname casefold c first found p =
     (if p \<noteq> [] \<and> hd p = CHR '']'' \<and> \<not> first then Some (found, tl p)
      else case bracket_char p of
          None \<Rightarrow> None
        | Some (lo, p1) \<Rightarrow>
            if pathname \<and> lo = CHR ''/'' then None
            else if p1 \<noteq> [] \<and> hd p1 = CHR ''-'' \<and> tl p1 \<noteq> [] \<and> hd (tl p1) \<noteq> CHR '']'' then
              (case bracket_char (tl p1) of
                 None \<Rightarrow> None
               | Some (hi, p2) \<Rightarrow>
                   if pathname \<and> hi = CHR ''/'' then None
                   else bracket_members pathname casefold c False (found \<or> in_range casefold lo hi c) p2)
            else bracket_members pathname casefold c False (found \<or> in_range casefold lo lo c) p1)"
  by pat_completeness auto
termination
proof (relation "measure (\<lambda>(pathname, casefold, c, first, found, p). length p)", goal_cases)
  case (2 pathname casefold c first found p x lo p1 y hi p2)
  then show ?case using bracket_char_shorter [of p lo p1] bracket_char_shorter [of "tl p1" hi p2] by (cases p1) auto
next
  case (3 pathname casefold c first found p x lo p1)
  then show ?case using bracket_char_shorter [of p lo p1] by auto
qed simp

declare bracket_members.simps [simp del]

definition bracket :: "bool \<Rightarrow> bool \<Rightarrow> char \<Rightarrow> string \<Rightarrow> (bool \<times> string) option" where
  "bracket pathname casefold c p =
     (if p \<noteq> [] \<and> (hd p = CHR ''!'' \<or> hd p = CHR ''^'') then
        map_option (\<lambda>(found, rest). (\<not> found, rest)) (bracket_members pathname casefold c True False (tl p))
      else bracket_members pathname casefold c True False p)"

text \<open>
  \<open>fnmatch (p, s, flags) = 0\<close>. A slash is matched only by a slash in a path name pattern, and a
  backslash at the end of the pattern matches nothing.
\<close>

declare conj_cong [fundef_cong]

function c_fnmatch :: "bool \<Rightarrow> bool \<Rightarrow> string \<Rightarrow> string \<Rightarrow> bool" where
  "c_fnmatch pathname casefold p s =
     (case p of
        [] \<Rightarrow> s = []
      | a # p1 \<Rightarrow>
          if a = CHR ''*'' then
            c_fnmatch pathname casefold p1 s \<or>
            (s \<noteq> [] \<and> \<not> (pathname \<and> hd s = CHR ''/'') \<and> c_fnmatch pathname casefold p (tl s))
          else if s = [] then False
          else if a = CHR ''?'' then
            \<not> (pathname \<and> hd s = CHR ''/'') \<and> c_fnmatch pathname casefold p1 (tl s)
          else if a = CHR ''['' then
            (case bracket pathname casefold (hd s) p1 of
               None \<Rightarrow> hd s = CHR ''['' \<and> c_fnmatch pathname casefold p1 (tl s)
             | Some (found, p2) \<Rightarrow>
                 found \<and> \<not> (pathname \<and> hd s = CHR ''/'') \<and> c_fnmatch pathname casefold p2 (tl s))
          else if a = CHR 0x5C then
            (case p1 of [] \<Rightarrow> False | b # p2 \<Rightarrow> char_matches casefold b (hd s) \<and> c_fnmatch pathname casefold p2 (tl s))
          else char_matches casefold a (hd s) \<and> c_fnmatch pathname casefold p1 (tl s))"
  by pat_completeness auto
termination
  by (relation "measures [\<lambda>(pathname, casefold, p, s). length s, \<lambda>(pathname, casefold, p, s). length p]") auto

declare c_fnmatch.simps [simp del]

section \<open>Comparison, sorting and literal patterns\<close>

lemma c_string_simps [simp]: "c_string []" "c_string (a # s) \<longleftrightarrow> a \<noteq> CHR 0x00 \<and> c_string s"
  by (auto simp: c_string_def)

lemma of_char_nat: "(of_char a :: int) = int (of_char a)"
  by (simp add: of_nat_of_char)

lemma of_char_zero_nat: "(of_char a :: nat) = 0 \<longleftrightarrow> a = CHR 0x00"
proof -
  have "(of_char CHR 0x00 :: nat) = 0" by simp
  then show ?thesis by (metis of_char_eq_iff)
qed

lemma of_char_int [simp]: "(of_char a :: int) = 0 \<longleftrightarrow> a = CHR 0x00" "0 \<le> (of_char a :: int)" "\<not> (of_char a :: int) < 0"
  "0 < (of_char a :: int) \<longleftrightarrow> a \<noteq> CHR 0x00"
  using of_char_zero_nat [of a] unfolding of_char_nat by linarith+

lemma of_char_diff [simp]: "(of_char a :: int) < of_char b \<longleftrightarrow> a < b"
  unfolding of_char_nat less_char_def by simp

lemma c_strcmp_sign:
  "c_string a \<Longrightarrow> c_string b \<Longrightarrow> (c_strcmp a b < 0 \<longleftrightarrow> a < b) \<and> (c_strcmp a b = 0 \<longleftrightarrow> a = b)"
proof (induction a b rule: c_strcmp.induct)
  case (4 a as b bs)
  then show ?case by auto
qed simp_all

lemma c_tolower_zero [simp]: "c_tolower c = CHR 0x00 \<longleftrightarrow> c = CHR 0x00"
proof (cases "65 \<le> (of_char c :: nat) \<and> (of_char c :: nat) \<le> 90")
  case True
  then have "(of_char (c_tolower c) :: nat) = of_char c + 32" by (simp add: c_tolower_def)
  then show ?thesis using True of_char_zero_nat [of c] of_char_zero_nat [of "c_tolower c"] by simp
next
  case False
  then show ?thesis by (auto simp: c_tolower_def Let_def)
qed

lemma c_string_fold [simp]: "c_string (fold_case casefold s) \<longleftrightarrow> c_string s"
proof -
  have "CHR 0x00 = c_tolower a \<longleftrightarrow> CHR 0x00 = a" for a using c_tolower_zero [of a] by (metis (full_types))
  then have "CHR 0x00 \<in> set (map c_tolower s) \<longleftrightarrow> CHR 0x00 \<in> set s"
    by (induction s) (simp_all del: set_map add: image_iff)
  then show ?thesis by (simp add: c_string_def fold_case_def del: set_map)
qed

definition literal_text :: "string \<Rightarrow> bool" where
  "literal_text p \<longleftrightarrow> set p \<inter> {CHR ''*'', CHR ''?'', CHR ''['', CHR 0x5C} = {}"

lemma literal_text_simps [simp]: "literal_text []"
  "literal_text (a # p) \<longleftrightarrow> a \<notin> {CHR ''*'', CHR ''?'', CHR ''['', CHR 0x5C} \<and> literal_text p"
  by (auto simp: literal_text_def)

lemma fold_case_simps [simp]: "fold_case casefold [] = []"
  "fold_case casefold (a # s) = (if casefold then c_tolower a else a) # fold_case casefold s"
  by (simp_all add: fold_case_def)

lemma c_fnmatch_literal:
  "literal_text p \<Longrightarrow> c_fnmatch pathname casefold p s \<longleftrightarrow> fold_case casefold p = fold_case casefold s"
proof (induction p arbitrary: s)
  case Nil
  then show ?case by (cases s) (simp_all add: c_fnmatch.simps [of _ _ "[]"])
next
  case (Cons a p)
  then show ?case by (cases s) (simp_all add: c_fnmatch.simps [of _ _ "a # p"] char_matches_def)
qed

lemma c_fnmatch_star:
  "c_fnmatch False casefold (CHR ''*'' # p) s \<longleftrightarrow> (\<exists>pre suf. s = pre @ suf \<and> c_fnmatch False casefold p suf)"
proof (induction s)
  case Nil
  show ?case by (subst c_fnmatch.simps) simp
next
  case (Cons c s)
  have "(\<exists>pre suf. c # s = pre @ suf \<and> c_fnmatch False casefold p suf) \<longleftrightarrow>
    c_fnmatch False casefold p (c # s) \<or> (\<exists>pre suf. s = pre @ suf \<and> c_fnmatch False casefold p suf)"
    by (simp add: Cons_eq_append_conv) blast
  moreover have "c_fnmatch False casefold (CHR ''*'' # p) (c # s) \<longleftrightarrow>
    c_fnmatch False casefold p (c # s) \<or> c_fnmatch False casefold (CHR ''*'' # p) s"
    by (subst c_fnmatch.simps) simp
  ultimately show ?case using Cons by blast
qed

end
