(* ===== verification/IgnoreProgram.thy ===== *)
theory IgnoreProgram
  imports CLocale "HOL-Library.Product_Lexorder"
begin

text \<open>
  \<open>src/src/search/ignore_program.c\<close>: the rules of an ignore file compiled into a program. Rules without
  wildcards go into sorted tables that are searched by bisection; the others are tried one after the
  other with \<open>fnmatch\<close>. The relative path may be missing (\<open>None\<close>); the name never is. The development
  counters are left out, and \<open>avail\<close> says which allocations succeed.
\<close>

section \<open>Rules and programs\<close>

datatype ignore_match_result = IGNORE_NO_MATCH | IGNORE_INCLUDE | IGNORE_EXCLUDE

datatype ignore_source_kind = SOURCE_BUILTIN | SOURCE_GITIGNORE | SOURCE_DOTIGNORE

datatype ignore_rule_kind =
    RULE_INVALID | RULE_LITERAL_BASENAME | RULE_LITERAL_EXTENSION | RULE_LITERAL_DIRECTORY
  | RULE_ANCHORED_PREFIX | RULE_GENERIC_GLOB

record ignore_rule =
  ir_pattern :: string
  ir_source :: ignore_source_kind
  ir_kind :: ignore_rule_kind
  ir_negate :: bool
  ir_uses_relative_path :: bool
  ir_directory_only :: bool

text \<open>The three literal tables have entries of the same shape.\<close>

record literal_entry =
  le_name :: string
  le_rule_index :: nat
  le_result :: ignore_match_result

record anchored_prefix =
  ap_prefix :: string
  ap_prefix_len :: nat
  ap_rule_index :: nat
  ap_result :: ignore_match_result
  ap_directory_only :: bool

record ignore_program =
  ip_rules :: "ignore_rule list"
  ip_literal_basenames :: "literal_entry list"
  ip_literal_extensions :: "literal_entry list"
  ip_literal_directories :: "literal_entry list"
  ip_anchored_prefixes :: "anchored_prefix list"
  ip_basename_only :: bool
  ip_basename_mask :: u32
  ip_extension_mask :: u32
  ip_directory_mask :: u32
  ip_prefix_mask :: u32
  ip_generic_mask :: u32
  ip_casefold :: bool
  ip_process_lifetime :: bool

definition ignore_source_mask :: "ignore_source_kind \<Rightarrow> u32" where
  "ignore_source_mask source =
     push_bit (case source of SOURCE_BUILTIN \<Rightarrow> 0 | SOURCE_GITIGNORE \<Rightarrow> 1 | SOURCE_DOTIGNORE \<Rightarrow> 2) 1"

section \<open>Compiling a rule\<close>

definition is_literal_basename :: "bool \<Rightarrow> string \<Rightarrow> bool" where
  "is_literal_basename directory_only p \<longleftrightarrow>
     \<not> directory_only \<and> p \<noteq> [] \<and> literal_text p \<and> CHR ''/'' \<notin> set p"

definition is_literal_extension :: "bool \<Rightarrow> string \<Rightarrow> bool" where
  "is_literal_extension directory_only p \<longleftrightarrow>
     \<not> directory_only \<and> c_char p 0 = CHR ''*'' \<and> c_char p 1 = CHR ''.'' \<and> c_char p 2 \<noteq> CHR 0x00 \<and>
     literal_text (tl p) \<and> CHR ''/'' \<notin> set (tl p)"

definition is_literal_directory :: "bool \<Rightarrow> string \<Rightarrow> bool" where
  "is_literal_directory directory_only p \<longleftrightarrow>
     directory_only \<and> p \<noteq> [] \<and> literal_text p \<and> CHR ''/'' \<notin> set p"

definition is_anchored_prefix_candidate :: "bool \<Rightarrow> bool \<Rightarrow> string \<Rightarrow> bool" where
  "is_anchored_prefix_candidate uses_relative_path directory_only p \<longleftrightarrow>
     (directory_only \<or> uses_relative_path) \<and> p \<noteq> [] \<and> literal_text p"

definition ignore_rule_classify :: "bool \<Rightarrow> bool \<Rightarrow> string \<Rightarrow> ignore_rule_kind" where
  "ignore_rule_classify uses_relative_path directory_only p =
     (if p = [] then RULE_INVALID
      else if is_literal_basename directory_only p then RULE_LITERAL_BASENAME
      else if is_literal_extension directory_only p then RULE_LITERAL_EXTENSION
      else if is_literal_directory directory_only p then RULE_LITERAL_DIRECTORY
      else if is_anchored_prefix_candidate uses_relative_path directory_only p then RULE_ANCHORED_PREFIX
      else RULE_GENERIC_GLOB)"

text \<open>\<open>None\<close> when the slot keeps no pattern: a line without a rule, or a failed copy.\<close>

definition ignore_rule_compile :: "(nat \<Rightarrow> bool) \<Rightarrow> string \<Rightarrow> ignore_source_kind \<Rightarrow> ignore_rule option" where
  "ignore_rule_compile avail line source =
     (let p0 = dropWhile (\<lambda>c. c = CHR '' '') line in
      if p0 = [] \<or> hd p0 = CHR ''#'' then None
      else
        let (negate, p1) = (if hd p0 = CHR ''!'' then (True, tl p0) else (False, p0));
            p2 = (if p1 \<noteq> [] \<and> hd p1 = CHR ''/'' then tl p1 else p1) in
        if p2 = [] then None
        else
          let (directory_only, p3) = (if last p2 = CHR ''/'' then (True, butlast p2) else (False, p2)) in
          if p3 = [] then None
          else if \<not> avail (length p3 + 1) then None
          else
            let uses_relative_path = CHR ''/'' \<in> set p3 in
            Some \<lparr>ir_pattern = p3, ir_source = source,
                  ir_kind = ignore_rule_classify uses_relative_path directory_only p3,
                  ir_negate = negate, ir_uses_relative_path = uses_relative_path,
                  ir_directory_only = directory_only\<rparr>)"

section \<open>Tables\<close>

definition ip_strcmp :: "bool \<Rightarrow> string \<Rightarrow> string \<Rightarrow> int" where
  "ip_strcmp casefold a b = (if casefold then c_strcasecmp a b else c_strcmp a b)"

definition literal_entry_cmp :: "bool \<Rightarrow> literal_entry \<Rightarrow> literal_entry \<Rightarrow> int" where
  "literal_entry_cmp casefold a b =
     (let cmp = ip_strcmp casefold (le_name a) (le_name b) in
      if cmp \<noteq> 0 then cmp
      else if le_rule_index a < le_rule_index b then - 1
      else if le_rule_index a > le_rule_index b then 1
      else 0)"

definition rule_result :: "ignore_rule \<Rightarrow> ignore_match_result" where
  "rule_result rule = (if ir_negate rule then IGNORE_INCLUDE else IGNORE_EXCLUDE)"

text \<open>The candidates of a kind in the order of the rules, and the loop that keeps the last of equal names.\<close>

definition table_candidates :: "ignore_rule_kind \<Rightarrow> (string \<Rightarrow> string) \<Rightarrow> ignore_rule list \<Rightarrow> literal_entry list" where
  "table_candidates kind key rules =
     map (\<lambda>(i, rule). \<lparr>le_name = key (ir_pattern rule), le_rule_index = i, le_result = rule_result rule\<rparr>)
       (filter (\<lambda>(i, rule). ir_kind rule = kind) (enumerate 0 rules))"

definition table_put :: "bool \<Rightarrow> literal_entry list \<Rightarrow> literal_entry \<Rightarrow> literal_entry list" where
  "table_put casefold table e =
     (if table \<noteq> [] \<and> ip_strcmp casefold (le_name (last table)) (le_name e) = 0
      then butlast table @ [e] else table @ [e])"

definition build_table ::
  "(nat \<Rightarrow> bool) \<Rightarrow> bool \<Rightarrow> ignore_rule_kind \<Rightarrow> (string \<Rightarrow> string) \<Rightarrow> ignore_rule list \<Rightarrow> literal_entry list option" where
  "build_table avail casefold kind key rules =
     (let candidates = table_candidates kind key rules in
      if candidates = [] then Some []
      else if \<not> avail (length candidates) then None
      else Some (foldl (table_put casefold) [] (c_qsort (literal_entry_cmp casefold) candidates)))"

definition build_literal_basename_table :: "(nat \<Rightarrow> bool) \<Rightarrow> ignore_program \<Rightarrow> ignore_program option" where
  "build_literal_basename_table avail program =
     map_option (\<lambda>t. program\<lparr>ip_literal_basenames := t\<rparr>)
       (build_table avail (ip_casefold program) RULE_LITERAL_BASENAME (\<lambda>p. p) (ip_rules program))"

definition build_literal_extension_table :: "(nat \<Rightarrow> bool) \<Rightarrow> ignore_program \<Rightarrow> ignore_program option" where
  "build_literal_extension_table avail program =
     map_option (\<lambda>t. program\<lparr>ip_literal_extensions := t\<rparr>)
       (build_table avail (ip_casefold program) RULE_LITERAL_EXTENSION tl (ip_rules program))"

definition build_literal_directory_table :: "(nat \<Rightarrow> bool) \<Rightarrow> ignore_program \<Rightarrow> ignore_program option" where
  "build_literal_directory_table avail program =
     map_option (\<lambda>t. program\<lparr>ip_literal_directories := t\<rparr>)
       (build_table avail (ip_casefold program) RULE_LITERAL_DIRECTORY (\<lambda>p. p) (ip_rules program))"

definition prefix_candidates :: "ignore_rule list \<Rightarrow> anchored_prefix list" where
  "prefix_candidates rules =
     map (\<lambda>(i, rule). \<lparr>ap_prefix = ir_pattern rule, ap_prefix_len = length (ir_pattern rule), ap_rule_index = i,
                       ap_result = rule_result rule, ap_directory_only = ir_directory_only rule\<rparr>)
       (filter (\<lambda>(i, rule). ir_kind rule = RULE_ANCHORED_PREFIX \<or> ir_kind rule = RULE_LITERAL_DIRECTORY) (enumerate 0 rules))"

definition build_anchored_prefix_table :: "(nat \<Rightarrow> bool) \<Rightarrow> ignore_program \<Rightarrow> ignore_program option" where
  "build_anchored_prefix_table avail program =
     (let candidates = prefix_candidates (ip_rules program) in
      if candidates = [] then Some program
      else if \<not> avail (length candidates) then None
      else Some (program\<lparr>ip_anchored_prefixes := candidates\<rparr>))"

section \<open>Compiling a program\<close>

definition note_source :: "ignore_rule \<Rightarrow> ignore_program \<Rightarrow> ignore_program" where
  "note_source rule program =
     (let m = ignore_source_mask (ir_source rule) in
      case ir_kind rule of
        RULE_LITERAL_BASENAME \<Rightarrow> program\<lparr>ip_basename_mask := ip_basename_mask program OR m\<rparr>
      | RULE_LITERAL_EXTENSION \<Rightarrow> program\<lparr>ip_extension_mask := ip_extension_mask program OR m\<rparr>
      | RULE_LITERAL_DIRECTORY \<Rightarrow> program\<lparr>ip_directory_mask := ip_directory_mask program OR m,
                                          ip_prefix_mask := ip_prefix_mask program OR m\<rparr>
      | RULE_ANCHORED_PREFIX \<Rightarrow> program\<lparr>ip_prefix_mask := ip_prefix_mask program OR m\<rparr>
      | RULE_GENERIC_GLOB \<Rightarrow> program\<lparr>ip_generic_mask := ip_generic_mask program OR m\<rparr>
      | RULE_INVALID \<Rightarrow> program)"

definition build_source_masks :: "ignore_program \<Rightarrow> ignore_program" where
  "build_source_masks program = fold note_source (ip_rules program) program"

definition rules_are_basename_only :: "ignore_rule list \<Rightarrow> bool" where
  "rules_are_basename_only rules \<longleftrightarrow> rules \<noteq> [] \<and> list_all (\<lambda>r. ir_kind r = RULE_LITERAL_BASENAME) rules"

text \<open>The rules of the lines, in order; \<open>None\<close> when the code gives up.\<close>

fun compile_rules :: "(nat \<Rightarrow> bool) \<Rightarrow> (cstr \<times> ignore_source_kind) list \<Rightarrow> ignore_rule list option" where
  "compile_rules avail [] = Some []"
| "compile_rules avail ((None, source) # lines) = compile_rules avail lines"
| "compile_rules avail ((Some line, source) # lines) =
     (case ignore_rule_compile avail line source of
        None \<Rightarrow> compile_rules avail lines
      | Some rule \<Rightarrow>
          if ir_kind rule = RULE_INVALID then None
          else map_option (\<lambda>rules. rule # rules) (compile_rules avail lines))"

definition empty_program :: "bool \<Rightarrow> ignore_rule list \<Rightarrow> ignore_program" where
  "empty_program casefold rules =
     \<lparr>ip_rules = rules, ip_literal_basenames = [], ip_literal_extensions = [], ip_literal_directories = [],
      ip_anchored_prefixes = [], ip_basename_only = False, ip_basename_mask = 0, ip_extension_mask = 0,
      ip_directory_mask = 0, ip_prefix_mask = 0, ip_generic_mask = 0, ip_casefold = casefold, ip_process_lifetime = False\<rparr>"

definition build_tables :: "(nat \<Rightarrow> bool) \<Rightarrow> ignore_program \<Rightarrow> ignore_program option" where
  "build_tables avail program =
     (case build_literal_basename_table avail program of None \<Rightarrow> None
      | Some p1 \<Rightarrow>
          (case build_literal_extension_table avail p1 of None \<Rightarrow> None
           | Some p2 \<Rightarrow>
               (case build_literal_directory_table avail p2 of None \<Rightarrow> None
                | Some p3 \<Rightarrow> build_anchored_prefix_table avail p3)))"

definition ignore_program_compile_with_sources ::
  "(nat \<Rightarrow> bool) \<Rightarrow> cstr list \<Rightarrow> ignore_source_kind list option \<Rightarrow> bool \<Rightarrow> ignore_program option" where
  "ignore_program_compile_with_sources avail patterns sources casefold =
     (if patterns = [] then None
      else if \<not> avail 1 \<or> \<not> avail (length patterns) then None
      else
        let kinds = (case sources of None \<Rightarrow> replicate (length patterns) SOURCE_BUILTIN | Some ks \<Rightarrow> ks) in
        case compile_rules avail (zip patterns kinds) of
          None \<Rightarrow> None
        | Some rules \<Rightarrow>
            if rules = [] then None
            else build_tables avail
                   (build_source_masks ((empty_program casefold rules)\<lparr>ip_basename_only := rules_are_basename_only rules\<rparr>)))"

definition ignore_program_compile :: "(nat \<Rightarrow> bool) \<Rightarrow> cstr list \<Rightarrow> bool \<Rightarrow> ignore_program option" where
  "ignore_program_compile avail patterns casefold = ignore_program_compile_with_sources avail patterns None casefold"

definition has_generic_glob_fallback :: "ignore_program \<Rightarrow> bool" where
  "has_generic_glob_fallback program \<longleftrightarrow> ip_generic_mask program \<noteq> 0"

section \<open>Searching the tables\<close>

function table_find_loop :: "bool \<Rightarrow> literal_entry list \<Rightarrow> string \<Rightarrow> nat \<Rightarrow> nat \<Rightarrow> literal_entry option" where
  "table_find_loop casefold table name lo hi =
     (if lo < hi then
        let mid = lo + (hi - lo) div 2;
            entry = table ! mid;
            cmp = ip_strcmp casefold name (le_name entry) in
        if cmp = 0 then Some entry
        else if cmp < 0 then table_find_loop casefold table name lo mid
        else table_find_loop casefold table name (mid + 1) hi
      else None)"
  by pat_completeness auto
termination by (relation "measure (\<lambda>(casefold, table, name, lo, hi). hi - lo)") auto

declare table_find_loop.simps [simp del]

definition find_literal_basename :: "ignore_program \<Rightarrow> string \<Rightarrow> literal_entry option" where
  "find_literal_basename program name =
     table_find_loop (ip_casefold program) (ip_literal_basenames program) name 0 (length (ip_literal_basenames program))"

definition find_literal_extension_exact :: "ignore_program \<Rightarrow> string \<Rightarrow> literal_entry option" where
  "find_literal_extension_exact program suffix =
     table_find_loop (ip_casefold program) (ip_literal_extensions program) suffix 0 (length (ip_literal_extensions program))"

definition find_literal_directory :: "ignore_program \<Rightarrow> string \<Rightarrow> literal_entry option" where
  "find_literal_directory program name =
     table_find_loop (ip_casefold program) (ip_literal_directories program) name 0 (length (ip_literal_directories program))"

fun extension_loop :: "ignore_program \<Rightarrow> literal_entry option \<Rightarrow> string \<Rightarrow> literal_entry option" where
  "extension_loop program best [] = best"
| "extension_loop program best (c # rest) =
     (if c \<noteq> CHR ''.'' then extension_loop program best rest
      else case find_literal_extension_exact program (c # rest) of
          None \<Rightarrow> extension_loop program best rest
        | Some entry \<Rightarrow>
            extension_loop program
              (case best of
                 None \<Rightarrow> Some entry
               | Some b \<Rightarrow> if le_rule_index entry > le_rule_index b then Some entry else Some b) rest)"

definition find_literal_extension :: "ignore_program \<Rightarrow> string \<Rightarrow> literal_entry option" where
  "find_literal_extension program name = extension_loop program None name"

text \<open>\<open>strncmp\<close> (or \<open>strncasecmp\<close>) is 0.\<close>

definition prefix_equal :: "bool \<Rightarrow> string \<Rightarrow> string \<Rightarrow> nat \<Rightarrow> bool" where
  "prefix_equal casefold lhs rhs len \<longleftrightarrow> ip_strcmp casefold (take len lhs) (take len rhs) = 0"

definition matches_anchored_prefix :: "ignore_program \<Rightarrow> ignore_rule \<Rightarrow> cstr \<Rightarrow> bool \<Rightarrow> bool" where
  "matches_anchored_prefix program rule relative_path is_dir =
     (if ir_kind rule \<noteq> RULE_ANCHORED_PREFIX then False
      else case relative_path of
          None \<Rightarrow> False
        | Some path \<Rightarrow>
            let prefix_len = length (ir_pattern rule) in
            if \<not> prefix_equal (ip_casefold program) path (ir_pattern rule) prefix_len then False
            else if c_char path prefix_len = CHR 0x00 then \<not> ir_directory_only rule \<or> is_dir
            else c_char path prefix_len = CHR ''/'')"

fun prefix_loop :: "bool \<Rightarrow> string \<Rightarrow> bool \<Rightarrow> anchored_prefix option \<Rightarrow> anchored_prefix list \<Rightarrow> anchored_prefix option" where
  "prefix_loop casefold path is_dir best [] = best"
| "prefix_loop casefold path is_dir best (entry # entries) =
     (if \<not> prefix_equal casefold path (ap_prefix entry) (ap_prefix_len entry)
      then prefix_loop casefold path is_dir best entries
      else if c_char path (ap_prefix_len entry) = CHR 0x00 \<and> ap_directory_only entry \<and> \<not> is_dir
      then prefix_loop casefold path is_dir best entries
      else if c_char path (ap_prefix_len entry) \<noteq> CHR 0x00 \<and> c_char path (ap_prefix_len entry) \<noteq> CHR ''/''
      then prefix_loop casefold path is_dir best entries
      else prefix_loop casefold path is_dir
             (case best of
                None \<Rightarrow> Some entry
              | Some b \<Rightarrow> if ap_rule_index entry > ap_rule_index b then Some entry else Some b) entries)"

definition find_anchored_prefix :: "ignore_program \<Rightarrow> cstr \<Rightarrow> bool \<Rightarrow> anchored_prefix option" where
  "find_anchored_prefix program relative_path is_dir =
     (case relative_path of
        None \<Rightarrow> None
      | Some path \<Rightarrow> prefix_loop (ip_casefold program) path is_dir None (ip_anchored_prefixes program))"

section \<open>Matching\<close>

definition match_rule :: "ignore_program \<Rightarrow> ignore_rule \<Rightarrow> string \<Rightarrow> cstr \<Rightarrow> bool \<Rightarrow> ignore_match_result" where
  "match_rule program rule name relative_path is_dir =
     (if ir_kind rule = RULE_ANCHORED_PREFIX then
        (if matches_anchored_prefix program rule relative_path is_dir then rule_result rule else IGNORE_NO_MATCH)
      else
        case (if ir_uses_relative_path rule then relative_path else Some name) of
          None \<Rightarrow> IGNORE_NO_MATCH
        | Some candidate \<Rightarrow>
            if candidate = [] then IGNORE_NO_MATCH
            else if ir_directory_only rule \<and> \<not> is_dir then IGNORE_NO_MATCH
            else if \<not> c_fnmatch (ir_uses_relative_path rule) (ip_casefold program) (ir_pattern rule) candidate
            then IGNORE_NO_MATCH
            else rule_result rule)"

text \<open>The rules below an index, from the last down to a lower limit; \<open>sel\<close> selects the rules tried.\<close>

fun match_down ::
  "(ignore_rule \<Rightarrow> bool) \<Rightarrow> ignore_program \<Rightarrow> string \<Rightarrow> cstr \<Rightarrow> bool \<Rightarrow> nat \<Rightarrow> nat \<Rightarrow> ignore_match_result" where
  "match_down sel program name relative_path is_dir lower 0 = IGNORE_NO_MATCH"
| "match_down sel program name relative_path is_dir lower (Suc i) =
     (if i < lower then IGNORE_NO_MATCH
      else
        let rule = ip_rules program ! i;
            result = (if sel rule then match_rule program rule name relative_path is_dir else IGNORE_NO_MATCH) in
        if result \<noteq> IGNORE_NO_MATCH then result
        else match_down sel program name relative_path is_dir lower i)"

definition match_rules_from ::
  "ignore_program \<Rightarrow> string \<Rightarrow> cstr \<Rightarrow> bool \<Rightarrow> nat \<Rightarrow> nat \<Rightarrow> ignore_match_result" where
  "match_rules_from program name relative_path is_dir start_index stop_exclusive =
     (if ip_rules program = [] then IGNORE_NO_MATCH
      else match_down (\<lambda>_. True) program name relative_path is_dir stop_exclusive
             (min start_index (length (ip_rules program) - 1) + 1))"

definition match_generic_rules_from ::
  "ignore_program \<Rightarrow> string \<Rightarrow> cstr \<Rightarrow> bool \<Rightarrow> nat \<Rightarrow> nat \<Rightarrow> ignore_match_result" where
  "match_generic_rules_from program name relative_path is_dir start_index stop_exclusive =
     (if ip_rules program = [] then IGNORE_NO_MATCH
      else match_down (\<lambda>rule. ir_kind rule = RULE_GENERIC_GLOB) program name relative_path is_dir stop_exclusive
             (min start_index (length (ip_rules program) - 1) + 1))"

text \<open>An entry of a table decides unless a later rule does.\<close>

definition match_after ::
  "ignore_program \<Rightarrow> string \<Rightarrow> cstr \<Rightarrow> bool \<Rightarrow> nat \<Rightarrow> ignore_match_result \<Rightarrow> ignore_match_result" where
  "match_after program name relative_path is_dir rule_index result =
     (let later = match_rules_from program name relative_path is_dir (length (ip_rules program) - 1) (rule_index + 1) in
      if later \<noteq> IGNORE_NO_MATCH then later else result)"

definition match_literal_basename :: "ignore_program \<Rightarrow> string \<Rightarrow> cstr \<Rightarrow> bool \<Rightarrow> ignore_match_result" where
  "match_literal_basename program name relative_path is_dir =
     (if ip_rules program = [] then IGNORE_NO_MATCH
      else case find_literal_basename program name of
          None \<Rightarrow> IGNORE_NO_MATCH
        | Some e \<Rightarrow> match_after program name relative_path is_dir (le_rule_index e) (le_result e))"

definition match_literal_extension :: "ignore_program \<Rightarrow> string \<Rightarrow> cstr \<Rightarrow> bool \<Rightarrow> ignore_match_result" where
  "match_literal_extension program name relative_path is_dir =
     (if ip_rules program = [] then IGNORE_NO_MATCH
      else case find_literal_extension program name of
          None \<Rightarrow> IGNORE_NO_MATCH
        | Some e \<Rightarrow> match_after program name relative_path is_dir (le_rule_index e) (le_result e))"

definition match_literal_directory :: "ignore_program \<Rightarrow> string \<Rightarrow> cstr \<Rightarrow> bool \<Rightarrow> ignore_match_result" where
  "match_literal_directory program name relative_path is_dir =
     (if ip_rules program = [] then IGNORE_NO_MATCH
      else case (if is_dir then find_literal_directory program name else None) of
          None \<Rightarrow> IGNORE_NO_MATCH
        | Some e \<Rightarrow> match_after program name relative_path is_dir (le_rule_index e) (le_result e))"

definition match_anchored_prefix :: "ignore_program \<Rightarrow> string \<Rightarrow> cstr \<Rightarrow> bool \<Rightarrow> ignore_match_result" where
  "match_anchored_prefix program name relative_path is_dir =
     (if ip_rules program = [] then IGNORE_NO_MATCH
      else case find_anchored_prefix program relative_path is_dir of
          None \<Rightarrow> IGNORE_NO_MATCH
        | Some e \<Rightarrow> match_after program name relative_path is_dir (ap_rule_index e) (ap_result e))"

definition match_generic_glob_fallback :: "ignore_program \<Rightarrow> string \<Rightarrow> cstr \<Rightarrow> bool \<Rightarrow> ignore_match_result" where
  "match_generic_glob_fallback program name relative_path is_dir =
     (if ip_rules program = [] then IGNORE_NO_MATCH
      else if \<not> has_generic_glob_fallback program then IGNORE_NO_MATCH
      else match_generic_rules_from program name relative_path is_dir (length (ip_rules program) - 1) 0)"

definition match_without_generic_glob_fallback :: "ignore_program \<Rightarrow> string \<Rightarrow> cstr \<Rightarrow> bool \<Rightarrow> ignore_match_result" where
  "match_without_generic_glob_fallback program name relative_path is_dir =
     (let r1 = match_literal_basename program name relative_path is_dir in
      if r1 \<noteq> IGNORE_NO_MATCH then r1
      else
        let r2 = match_literal_extension program name relative_path is_dir in
        if r2 \<noteq> IGNORE_NO_MATCH then r2
        else
          let r3 = match_literal_directory program name relative_path is_dir in
          if r3 \<noteq> IGNORE_NO_MATCH then r3 else match_anchored_prefix program name relative_path is_dir)"

definition ignore_program_match :: "ignore_program \<Rightarrow> string \<Rightarrow> cstr \<Rightarrow> bool \<Rightarrow> ignore_match_result" where
  "ignore_program_match program name relative_path is_dir =
     (let result = match_without_generic_glob_fallback program name relative_path is_dir in
      if result \<noteq> IGNORE_NO_MATCH then result
      else match_generic_glob_fallback program name relative_path is_dir)"

section \<open>The tables hold the last rule of every name\<close>

lemma ip_strcmp_sign:
  assumes "c_string a" and "c_string b"
  shows "ip_strcmp casefold a b < 0 \<longleftrightarrow> fold_case casefold a < fold_case casefold b"
    and "ip_strcmp casefold a b = 0 \<longleftrightarrow> fold_case casefold a = fold_case casefold b"
proof -
  have "ip_strcmp casefold a b = c_strcmp (fold_case casefold a) (fold_case casefold b)"
    by (simp add: ip_strcmp_def fold_case_def c_strcasecmp_def)
  moreover have "c_string (fold_case casefold a)" "c_string (fold_case casefold b)" using assms by simp_all
  ultimately show "ip_strcmp casefold a b < 0 \<longleftrightarrow> fold_case casefold a < fold_case casefold b"
    "ip_strcmp casefold a b = 0 \<longleftrightarrow> fold_case casefold a = fold_case casefold b"
    using c_strcmp_sign by metis+
qed

abbreviation entry_key :: "bool \<Rightarrow> literal_entry \<Rightarrow> string" where
  "entry_key casefold e \<equiv> fold_case casefold (le_name e)"

abbreviation entry_rank :: "bool \<Rightarrow> literal_entry \<Rightarrow> string \<times> nat" where
  "entry_rank casefold e \<equiv> (entry_key casefold e, le_rule_index e)"

lemma literal_entry_cmp_le:
  assumes "c_string (le_name a)" and "c_string (le_name b)"
  shows "literal_entry_cmp casefold a b \<le> 0 \<longleftrightarrow> entry_rank casefold a \<le> entry_rank casefold b"
  using ip_strcmp_sign [OF assms, of casefold] by (auto simp: literal_entry_cmp_def Let_def)

lemma c_qsort_sort_key:
  assumes "\<And>a b. a \<in> set xs \<Longrightarrow> b \<in> set xs \<Longrightarrow> cmp a b \<le> (0 :: int) \<longleftrightarrow> f a \<le> (f b :: 'k::linorder)"
  shows "c_qsort cmp xs = sort_key f xs"
proof -
  have ins: "qsort_insert cmp x ys = insort_key f x ys" if "x \<in> set xs" "set ys \<subseteq> set xs" for x ys
    using that assms by (induction ys) auto
  have "foldr (qsort_insert cmp) zs [] = foldr (insort_key f) zs []" if "set zs \<subseteq> set xs" for zs
    using that
  proof (induction zs)
    case (Cons z zs)
    have "set (foldr (insort_key f) zs []) \<subseteq> set xs" using Cons.prems by (simp add: sort_key_def [symmetric])
    then show ?case using Cons ins by simp
  qed simp
  then show ?thesis by (simp add: c_qsort_def sort_key_def)
qed

lemma table_put_fold:
  assumes "sorted_wrt (<) (map (entry_rank casefold) xs)" and "\<forall>e \<in> set xs. c_string (le_name e)"
  defines "R \<equiv> foldl (table_put casefold) [] xs"
  shows "sorted_wrt (<) (map (entry_key casefold) R) \<and> set R \<subseteq> set xs \<and> (xs \<noteq> [] \<longrightarrow> R \<noteq> [] \<and> last R = last xs) \<and>
    (\<forall>x \<in> set xs. \<exists>r \<in> set R. entry_key casefold r = entry_key casefold x \<and> le_rule_index x \<le> le_rule_index r)"
  using assms(1,2) unfolding R_def
proof (induction xs rule: rev_induct)
  case (snoc e xs)
  let ?R = "foldl (table_put casefold) [] xs"
  have IH: "sorted_wrt (<) (map (entry_key casefold) ?R)" "set ?R \<subseteq> set xs" "xs \<noteq> [] \<Longrightarrow> ?R \<noteq> [] \<and> last ?R = last xs"
    "\<And>x. x \<in> set xs \<Longrightarrow> \<exists>r \<in> set ?R. entry_key casefold r = entry_key casefold x \<and> le_rule_index x \<le> le_rule_index r"
    using snoc by (simp_all add: sorted_wrt_append)
  have less: "entry_rank casefold x < entry_rank casefold e" if "x \<in> set xs" for x
    using snoc.prems(1) that by (simp add: sorted_wrt_append)
  show ?case
  proof (cases "xs = []")
    case True
    then show ?thesis by (simp add: table_put_def)
  next
    case False
    have R: "?R \<noteq> []" "last ?R = last xs" using IH(3) False by auto
    have cmp: "ip_strcmp casefold (le_name (last ?R)) (le_name e) = 0 \<longleftrightarrow> entry_key casefold (last ?R) = entry_key casefold e"
      using snoc.prems(2) False R by (intro ip_strcmp_sign(2)) auto
    have Rs: "?R = butlast ?R @ [last ?R]" using R(1) by simp
    show ?thesis
    proof (cases "entry_key casefold (last ?R) = entry_key casefold e")
      case True
      have put: "foldl (table_put casefold) [] (xs @ [e]) = butlast ?R @ [e]" using True cmp R(1) by (simp add: table_put_def)
      have "sorted_wrt (<) (map (entry_key casefold) (butlast ?R @ [e]))"
        using IH(1) True by (subst (asm) Rs) (simp add: sorted_wrt_append)
      moreover have "\<exists>r \<in> set (butlast ?R @ [e]). entry_key casefold r = entry_key casefold x \<and> le_rule_index x \<le> le_rule_index r"
        if x_in: "x \<in> set (xs @ [e])" for x
      proof (cases "x = e")
        case x: False
        then obtain r where r: "r \<in> set ?R" "entry_key casefold r = entry_key casefold x" "le_rule_index x \<le> le_rule_index r"
          using IH(4) x_in by auto
        have "r \<in> set (butlast ?R) \<or> r = last ?R" using r(1) by (subst (asm) Rs) auto
        then show ?thesis
        proof
          assume "r \<in> set (butlast ?R)"
          then show ?thesis using r(2,3) by (intro bexI [of _ r]) auto
        next
          assume l: "r = last ?R"
          then have "r \<in> set xs" using r(1) IH(2) by blast
          then have "le_rule_index r < le_rule_index e" using less [of r] l True by simp
          then show ?thesis using r(2,3) True l by (intro bexI [of _ e]) auto
        qed
      qed auto
      moreover have "set (butlast ?R @ [e]) \<subseteq> set (xs @ [e])" using IH(2) in_set_butlastD [of _ ?R] by auto
      ultimately show ?thesis unfolding put by simp
    next
      case ne: False
      have put: "foldl (table_put casefold) [] (xs @ [e]) = ?R @ [e]" using ne cmp by (simp add: table_put_def)
      have "entry_key casefold r < entry_key casefold e" if "r \<in> set ?R" for r
      proof -
        have "entry_key casefold r \<le> entry_key casefold (last ?R)"
          using IH(1) that by (subst (asm) (1 2) Rs) (auto simp: sorted_wrt_append less_imp_le)
        moreover have "entry_key casefold (last ?R) < entry_key casefold e"
          using less [of "last ?R"] ne R False by auto
        ultimately show ?thesis by (rule le_less_trans)
      qed
      then have "sorted_wrt (<) (map (entry_key casefold) (?R @ [e]))" using IH(1) by (simp add: sorted_wrt_append)
      then show ?thesis unfolding put using IH(2,4) by auto
    qed
  qed
qed simp

lemma table_find_loop_ok:
  assumes "sorted_wrt (<) (map (entry_key casefold) T)" and "\<forall>e \<in> set T. c_string (le_name e)" and "c_string name"
    and "hi \<le> length T"
  shows "case table_find_loop casefold T name lo hi of
      Some e \<Rightarrow> e \<in> set T \<and> entry_key casefold e = fold_case casefold name
    | None \<Rightarrow> (\<forall>i. lo \<le> i \<and> i < hi \<longrightarrow> entry_key casefold (T ! i) \<noteq> fold_case casefold name)"
  using assms
proof (induction casefold T name lo hi rule: table_find_loop.induct)
  case (1 casefold T name lo hi)
  let ?mid = "lo + (hi - lo) div 2"
  let ?cmp = "ip_strcmp casefold name (le_name (T ! ?mid))"
  show ?case
  proof (cases "lo < hi")
    case True
    have mid: "?mid < hi" "lo \<le> ?mid" "?mid < length T" using True 1(6) by auto
    have sgn: "?cmp < 0 \<longleftrightarrow> fold_case casefold name < entry_key casefold (T ! ?mid)"
      "?cmp = 0 \<longleftrightarrow> fold_case casefold name = entry_key casefold (T ! ?mid)"
      using ip_strcmp_sign 1(4,5) mid(3) by auto
    have mono: "entry_key casefold (T ! i) < entry_key casefold (T ! j)" if "i < j" "j < length T" for i j
      using sorted_wrt_nth_less [OF 1(3), of i j] that by simp
    consider "?cmp = 0" | "?cmp < 0" | "?cmp > 0" by linarith
    then show ?thesis
    proof cases
      case 1
      then show ?thesis using True sgn mid by (simp add: table_find_loop.simps [of _ _ _ lo])
    next
      case 2
      have run: "table_find_loop casefold T name lo hi = table_find_loop casefold T name lo ?mid"
        using 2 True by (subst table_find_loop.simps) simp
      have ih: "case table_find_loop casefold T name lo ?mid of
          Some e \<Rightarrow> e \<in> set T \<and> entry_key casefold e = fold_case casefold name
        | None \<Rightarrow> (\<forall>i. lo \<le> i \<and> i < ?mid \<longrightarrow> entry_key casefold (T ! i) \<noteq> fold_case casefold name)"
        using 2 mid by (intro "1.IH"(1) [OF True refl refl refl _ _ 1(3-5)]) auto
      have above: "entry_key casefold (T ! i) \<noteq> fold_case casefold name" if "?mid \<le> i" "i < hi" for i
        using mono [of ?mid i] that 2 sgn(1) 1(6) by (cases "i = ?mid") auto
      show ?thesis using ih above unfolding run by (auto simp: not_less split: option.splits) (metis not_less)
    next
      case 3
      then have big: "entry_key casefold (T ! ?mid) < fold_case casefold name" using sgn by (metis less_linear not_less_iff_gr_or_eq)
      have run: "table_find_loop casefold T name lo hi = table_find_loop casefold T name (?mid + 1) hi"
        using 3 True by (subst table_find_loop.simps) simp
      have ih: "case table_find_loop casefold T name (?mid + 1) hi of
          Some e \<Rightarrow> e \<in> set T \<and> entry_key casefold e = fold_case casefold name
        | None \<Rightarrow> (\<forall>i. ?mid + 1 \<le> i \<and> i < hi \<longrightarrow> entry_key casefold (T ! i) \<noteq> fold_case casefold name)"
        using 3 mid by (intro "1.IH"(2) [OF True refl refl refl _ _ 1(3-6)]) auto
      have below: "entry_key casefold (T ! i) \<noteq> fold_case casefold name" if "i \<le> ?mid" for i
        using mono [of i ?mid] that big mid(3) by (cases "i = ?mid") auto
      show ?thesis using ih below unfolding run by (auto simp: not_less split: option.splits) (metis Suc_leI not_less)
    qed
  next
    case False
    then show ?thesis by (auto simp: table_find_loop.simps [of _ _ _ lo])
  qed
qed

definition table_entry :: "(string \<Rightarrow> string) \<Rightarrow> ignore_rule list \<Rightarrow> nat \<Rightarrow> literal_entry" where
  "table_entry key rules i =
     \<lparr>le_name = key (ir_pattern (rules ! i)), le_rule_index = i, le_result = rule_result (rules ! i)\<rparr>"

lemma table_entry_simps [simp]: "le_name (table_entry key rules i) = key (ir_pattern (rules ! i))"
  "le_rule_index (table_entry key rules i) = i" "le_result (table_entry key rules i) = rule_result (rules ! i)"
  by (simp_all add: table_entry_def)

lemma set_table_candidates:
  "set (table_candidates kind key rules) = {table_entry key rules i | i. i < length rules \<and> ir_kind (rules ! i) = kind}"
  by (auto simp: table_candidates_def table_entry_def in_set_enumerate_eq image_iff)

lemma sorted_table_candidates: "sorted_wrt (<) (map le_rule_index (table_candidates kind key rules))"
proof -
  have "sorted_wrt (<) (map fst (filter P (enumerate n rules)))" for P :: "nat \<times> ignore_rule \<Rightarrow> bool" and n
    by (induction rules arbitrary: n) (force simp: in_set_enumerate_eq)+
  then show ?thesis by (simp add: table_candidates_def comp_def case_prod_unfold)
qed

lemma build_table_ok:
  assumes "build_table avail casefold kind key rules = Some T"
    and "\<forall>r \<in> set rules. c_string (key (ir_pattern r))" and "c_string name"
  shows "case table_find_loop casefold T name 0 (length T) of
      None \<Rightarrow> (\<forall>i < length rules. ir_kind (rules ! i) = kind \<longrightarrow>
        fold_case casefold (key (ir_pattern (rules ! i))) \<noteq> fold_case casefold name)
    | Some e \<Rightarrow> (\<exists>i < length rules. e = table_entry key rules i \<and> ir_kind (rules ! i) = kind \<and>
        fold_case casefold (key (ir_pattern (rules ! i))) = fold_case casefold name \<and>
        (\<forall>j < length rules. i < j \<and> ir_kind (rules ! j) = kind \<longrightarrow>
          fold_case casefold (key (ir_pattern (rules ! j))) \<noteq> fold_case casefold name))"
proof -
  let ?C = "table_candidates kind key rules"
  let ?S = "sort_key (entry_rank casefold) ?C"
  have str: "\<forall>e \<in> set ?C. c_string (le_name e)" using assms(2) by (auto simp: set_table_candidates)
  have sorts: "c_qsort (literal_entry_cmp casefold) ?C = ?S"
    by (rule c_qsort_sort_key) (use str literal_entry_cmp_le in blast)
  have T: "T = foldl (table_put casefold) [] ?S" using assms(1) sorts by (auto simp: build_table_def Let_def split: if_splits)
  have "distinct (map le_rule_index ?C)" using sorted_table_candidates [of kind key rules] by (simp add: strict_sorted_iff)
  then have "distinct (map (entry_rank casefold) ?C)" by (simp add: distinct_map inj_on_def)
  then have "distinct (map (entry_rank casefold) ?S)" by (simp add: distinct_map)
  then have "sorted_wrt (<) (map (entry_rank casefold) ?S)" by (simp add: strict_sorted_iff)
  from table_put_fold [OF this] str have put: "sorted_wrt (<) (map (entry_key casefold) T)" "set T \<subseteq> set ?C"
    "\<And>x. x \<in> set ?C \<Longrightarrow> \<exists>r \<in> set T. entry_key casefold r = entry_key casefold x \<and> le_rule_index x \<le> le_rule_index r"
    unfolding T by simp_all
  have strT: "\<forall>e \<in> set T. c_string (le_name e)" using put(2) str by blast
  note find = table_find_loop_ok [OF put(1) strT assms(3) order_refl, of 0]
  show ?thesis
  proof (cases "table_find_loop casefold T name 0 (length T)")
    case None
    have "fold_case casefold (key (ir_pattern (rules ! i))) \<noteq> fold_case casefold name"
      if i: "i < length rules" "ir_kind (rules ! i) = kind" for i
    proof -
      have "table_entry key rules i \<in> set ?C" using i by (auto simp: set_table_candidates)
      then obtain r where "r \<in> set T" "entry_key casefold r = fold_case casefold (key (ir_pattern (rules ! i)))" using put(3) by fastforce
      then show ?thesis using find None by (auto simp: in_set_conv_nth)
    qed
    then show ?thesis using None by simp
  next
    case (Some e)
    then have e: "e \<in> set T" "entry_key casefold e = fold_case casefold name" using find by auto
    then obtain i where i: "i < length rules" "ir_kind (rules ! i) = kind" "e = table_entry key rules i"
      using put(2) by (auto simp: set_table_candidates)
    have "fold_case casefold (key (ir_pattern (rules ! j))) \<noteq> fold_case casefold name"
      if j: "j < length rules" "i < j" "ir_kind (rules ! j) = kind" for j
    proof
      assume k: "fold_case casefold (key (ir_pattern (rules ! j))) = fold_case casefold name"
      have "table_entry key rules j \<in> set ?C" using j by (auto simp: set_table_candidates)
      then obtain r where r: "r \<in> set T" "entry_key casefold r = entry_key casefold e" "j \<le> le_rule_index r"
        using put(3) k e(2) by fastforce
      have "inj_on (entry_key casefold) (set T)" using put(1) by (simp add: strict_sorted_iff distinct_map)
      then have "r = e" using r e(1) by (simp add: inj_on_def)
      then show False using r(3) i(3) j(2) by simp
    qed
    then show ?thesis using Some i e(2) by auto
  qed
qed

section \<open>What a compiled program is\<close>

definition rule_wf :: "ignore_rule \<Rightarrow> bool" where
  "rule_wf rule \<longleftrightarrow> ir_pattern rule \<noteq> [] \<and> c_string (ir_pattern rule) \<and>
     (ir_uses_relative_path rule \<longleftrightarrow> CHR ''/'' \<in> set (ir_pattern rule)) \<and>
     ir_kind rule = ignore_rule_classify (ir_uses_relative_path rule) (ir_directory_only rule) (ir_pattern rule)"

definition program_wf :: "ignore_program \<Rightarrow> bool" where
  "program_wf program \<longleftrightarrow> ip_rules program \<noteq> [] \<and> list_all rule_wf (ip_rules program) \<and>
     (\<exists>avail. build_table avail (ip_casefold program) RULE_LITERAL_BASENAME (\<lambda>p. p) (ip_rules program) = Some (ip_literal_basenames program)) \<and>
     (\<exists>avail. build_table avail (ip_casefold program) RULE_LITERAL_EXTENSION tl (ip_rules program) = Some (ip_literal_extensions program)) \<and>
     (\<exists>avail. build_table avail (ip_casefold program) RULE_LITERAL_DIRECTORY (\<lambda>p. p) (ip_rules program) = Some (ip_literal_directories program)) \<and>
     ip_anchored_prefixes program = prefix_candidates (ip_rules program) \<and>
     (ip_generic_mask program \<noteq> 0 \<longleftrightarrow> (\<exists>r \<in> set (ip_rules program). ir_kind r = RULE_GENERIC_GLOB)) \<and>
     (ip_basename_only program \<longleftrightarrow> list_all (\<lambda>r. ir_kind r = RULE_LITERAL_BASENAME) (ip_rules program))"

lemma c_string_parts:
  "c_string s \<Longrightarrow> c_string (dropWhile P s)" "c_string s \<Longrightarrow> c_string (tl s)" "c_string s \<Longrightarrow> c_string (butlast s)"
proof -
  assume s: "c_string s"
  show "c_string (dropWhile P s)" using s set_dropWhileD [of "CHR 0x00" P s] unfolding c_string_def by blast
  show "c_string (tl s)" using s by (cases s) simp_all
  show "c_string (butlast s)" using s in_set_butlastD [of "CHR 0x00" s] unfolding c_string_def by blast
qed

lemma ignore_rule_compile_wf:
  assumes "ignore_rule_compile avail line source = Some rule" and "c_string line"
  shows "rule_wf rule \<and> ir_kind rule \<noteq> RULE_INVALID"
proof -
  define p0 where "p0 = dropWhile (\<lambda>c. c = CHR '' '') line"
  obtain negate p1 where 1: "(if hd p0 = CHR ''!'' then (True, tl p0) else (False, p0)) = (negate, p1)" by force
  define p2 where "p2 = (if p1 \<noteq> [] \<and> hd p1 = CHR ''/'' then tl p1 else p1)"
  obtain directory_only p3 where 3: "(if last p2 = CHR ''/'' then (True, butlast p2) else (False, p2)) = (directory_only, p3)" by force
  have "c_string p0" using assms(2) c_string_parts(1) unfolding p0_def by blast
  then have "c_string p1" using 1 c_string_parts(2) [of p0] by (auto split: if_splits)
  then have "c_string p2" using c_string_parts(2) [of p1] by (simp add: p2_def)
  then have s: "c_string p3" using 3 c_string_parts(3) [of p2] by (auto split: if_splits)
  have "p3 \<noteq> [] \<and> rule = \<lparr>ir_pattern = p3, ir_source = source,
      ir_kind = ignore_rule_classify (CHR ''/'' \<in> set p3) directory_only p3, ir_negate = negate,
      ir_uses_relative_path = (CHR ''/'' \<in> set p3), ir_directory_only = directory_only\<rparr>"
    using assms(1) unfolding ignore_rule_compile_def Let_def p0_def [symmetric] 1 prod.case p2_def [symmetric] 3
    by (simp split: if_split_asm)
  then show ?thesis using s by (simp add: rule_wf_def) (simp add: ignore_rule_classify_def)
qed

lemma compile_rules_wf:
  "compile_rules avail lines = Some rules \<Longrightarrow> list_all (\<lambda>(l, s). case l of None \<Rightarrow> True | Some t \<Rightarrow> c_string t) lines \<Longrightarrow>
    list_all rule_wf rules"
proof (induction avail lines arbitrary: rules rule: compile_rules.induct)
  case (3 avail line source lines)
  then show ?case using ignore_rule_compile_wf [of avail line source] by (auto split: option.splits if_splits)
qed auto

lemma ignore_source_mask_nonzero [simp]: "ignore_source_mask s \<noteq> 0"
  by (cases s) (simp_all add: ignore_source_mask_def)

lemma note_source_fields [simp]:
  "ip_rules (note_source r p) = ip_rules p" "ip_casefold (note_source r p) = ip_casefold p"
  "ip_literal_basenames (note_source r p) = ip_literal_basenames p" "ip_literal_extensions (note_source r p) = ip_literal_extensions p"
  "ip_literal_directories (note_source r p) = ip_literal_directories p" "ip_anchored_prefixes (note_source r p) = ip_anchored_prefixes p"
  "ip_basename_only (note_source r p) = ip_basename_only p" "ip_process_lifetime (note_source r p) = ip_process_lifetime p"
  "ip_generic_mask (note_source r p) \<noteq> 0 \<longleftrightarrow> ip_generic_mask p \<noteq> 0 \<or> ir_kind r = RULE_GENERIC_GLOB"
  by (cases "ir_kind r"; simp add: note_source_def Let_def or_eq_0_iff)+

lemma fold_note_source [simp]:
  "ip_rules (fold note_source rs p) = ip_rules p" "ip_casefold (fold note_source rs p) = ip_casefold p"
  "ip_literal_basenames (fold note_source rs p) = ip_literal_basenames p" "ip_literal_extensions (fold note_source rs p) = ip_literal_extensions p"
  "ip_literal_directories (fold note_source rs p) = ip_literal_directories p" "ip_anchored_prefixes (fold note_source rs p) = ip_anchored_prefixes p"
  "ip_basename_only (fold note_source rs p) = ip_basename_only p" "ip_process_lifetime (fold note_source rs p) = ip_process_lifetime p"
  by (induction rs arbitrary: p) simp_all

lemma fold_note_source_generic:
  "ip_generic_mask (fold note_source rs p) \<noteq> 0 \<longleftrightarrow> ip_generic_mask p \<noteq> 0 \<or> (\<exists>r \<in> set rs. ir_kind r = RULE_GENERIC_GLOB)"
proof (induction rs arbitrary: p)
  case (Cons r rs)
  then show ?case unfolding fold_simps(2) list.set by (metis insert_iff note_source_fields(9))
qed simp

lemma ignore_program_compile_wf:
  assumes "ignore_program_compile_with_sources avail patterns sources casefold = Some program"
    and "list_all (\<lambda>l. case l of None \<Rightarrow> True | Some t \<Rightarrow> c_string t) patterns"
  shows "program_wf program \<and> ip_casefold program = casefold \<and> \<not> ip_process_lifetime program"
proof -
  let ?kinds = "case sources of None \<Rightarrow> replicate (length patterns) SOURCE_BUILTIN | Some ks \<Rightarrow> ks"
  obtain rules where r: "compile_rules avail (zip patterns ?kinds) = Some rules" "rules \<noteq> []"
    "build_tables avail (build_source_masks ((empty_program casefold rules)\<lparr>ip_basename_only := rules_are_basename_only rules\<rparr>)) = Some program"
    using assms(1) unfolding ignore_program_compile_with_sources_def Let_def by (auto split: if_splits option.splits)
  have "list_all (\<lambda>(l, s). case l of None \<Rightarrow> True | Some t \<Rightarrow> c_string t) (zip patterns ?kinds)"
    using assms(2) by (auto simp: list_all_iff dest: set_zip_leftD)
  from compile_rules_wf [OF r(1) this] have wf: "list_all rule_wf rules" .
  let ?p = "build_source_masks ((empty_program casefold rules)\<lparr>ip_basename_only := rules_are_basename_only rules\<rparr>)"
  have p: "ip_rules ?p = rules" "ip_casefold ?p = casefold" "ip_anchored_prefixes ?p = []" "\<not> ip_process_lifetime ?p"
    "ip_basename_only ?p = list_all (\<lambda>r. ir_kind r = RULE_LITERAL_BASENAME) rules"
    "ip_generic_mask ?p \<noteq> 0 \<longleftrightarrow> (\<exists>r \<in> set rules. ir_kind r = RULE_GENERIC_GLOB)"
    using r(2) fold_note_source_generic [of rules "(empty_program casefold rules)\<lparr>ip_basename_only := rules_are_basename_only rules\<rparr>"]
    by (simp_all add: build_source_masks_def empty_program_def rules_are_basename_only_def)
  obtain t1 t2 t3 where t: "build_table avail casefold RULE_LITERAL_BASENAME (\<lambda>p. p) rules = Some t1"
    "build_table avail casefold RULE_LITERAL_EXTENSION tl rules = Some t2"
    "build_table avail casefold RULE_LITERAL_DIRECTORY (\<lambda>p. p) rules = Some t3"
    "build_anchored_prefix_table avail (?p\<lparr>ip_literal_basenames := t1, ip_literal_extensions := t2, ip_literal_directories := t3\<rparr>) = Some program"
    using r(3) p by (auto simp: build_tables_def build_literal_basename_table_def build_literal_extension_table_def
        build_literal_directory_table_def split: option.splits)
  have prog: "program = ?p\<lparr>ip_literal_basenames := t1, ip_literal_extensions := t2, ip_literal_directories := t3,
      ip_anchored_prefixes := prefix_candidates rules\<rparr>"
    using t(4) p(1,3) by (auto simp: build_anchored_prefix_table_def Let_def split: if_splits)
  show ?thesis unfolding program_wf_def prog using p r(2) wf t(1-3) by auto
qed

section \<open>The rule that decides\<close>

text \<open>The reference: the last of the first \<open>n\<close> rules that says anything decides.\<close>

fun last_decision :: "(nat \<Rightarrow> ignore_match_result) \<Rightarrow> nat \<Rightarrow> ignore_match_result" where
  "last_decision d 0 = IGNORE_NO_MATCH"
| "last_decision d (Suc i) = (if d i \<noteq> IGNORE_NO_MATCH then d i else last_decision d i)"

lemma last_decision_cong: "(\<And>i. i < n \<Longrightarrow> d i = d' i) \<Longrightarrow> last_decision d n = last_decision d' n"
  by (induction n) auto

lemma last_decision_none: "last_decision d n = IGNORE_NO_MATCH \<longleftrightarrow> (\<forall>i < n. d i = IGNORE_NO_MATCH)"
  by (induction n) (auto simp: less_Suc_eq)

lemma last_decision_at:
  assumes "i < n" and "d i \<noteq> IGNORE_NO_MATCH"
  shows "last_decision d n = (if last_decision (\<lambda>j. if i < j then d j else IGNORE_NO_MATCH) n \<noteq> IGNORE_NO_MATCH
    then last_decision (\<lambda>j. if i < j then d j else IGNORE_NO_MATCH) n else d i)"
  using assms
proof (induction n)
  case (Suc n)
  show ?case
  proof (cases "i = n")
    case True
    have "last_decision (\<lambda>j. if n < j then d j else IGNORE_NO_MATCH) n = IGNORE_NO_MATCH" by (simp add: last_decision_none)
    then show ?thesis using True Suc.prems(2) by simp
  next
    case False
    then show ?thesis using Suc by simp
  qed
qed simp

abbreviation rule_decision :: "ignore_program \<Rightarrow> string \<Rightarrow> cstr \<Rightarrow> bool \<Rightarrow> nat \<Rightarrow> ignore_match_result" where
  "rule_decision program name relative_path is_dir i \<equiv> match_rule program (ip_rules program ! i) name relative_path is_dir"

lemma match_down_last:
  "match_down sel program name relative_path is_dir lower n =
    last_decision (\<lambda>i. if lower \<le> i \<and> sel (ip_rules program ! i) then rule_decision program name relative_path is_dir i
      else IGNORE_NO_MATCH) n"
proof (induction n)
  case (Suc n)
  have "last_decision (\<lambda>i. if lower \<le> i \<and> sel (ip_rules program ! i) then rule_decision program name relative_path is_dir i
      else IGNORE_NO_MATCH) n = IGNORE_NO_MATCH" if "n < lower" using that by (simp add: last_decision_none)
  then show ?case using Suc by (auto simp: Let_def not_less)
qed simp

lemma match_after_last:
  assumes "i < length (ip_rules program)" and "result = d i" and "d i \<noteq> IGNORE_NO_MATCH"
    and "\<And>j. i < j \<Longrightarrow> j < length (ip_rules program) \<Longrightarrow> d j = rule_decision program name relative_path is_dir j"
  shows "match_after program name relative_path is_dir i result = last_decision d (length (ip_rules program))"
proof -
  have ne: "ip_rules program \<noteq> []" using assms(1) by auto
  have "match_rules_from program name relative_path is_dir (length (ip_rules program) - 1) (i + 1) =
      last_decision (\<lambda>j. if i < j then d j else IGNORE_NO_MATCH) (length (ip_rules program))"
    using ne assms(4) by (auto simp: match_rules_from_def match_down_last Suc_le_eq intro!: last_decision_cong)
  then show ?thesis unfolding last_decision_at [of i _ d, OF assms(1,3)] by (simp add: match_after_def assms(2))
qed

section \<open>What a rule of each kind says\<close>

lemma rule_result_some [simp]: "rule_result rule \<noteq> IGNORE_NO_MATCH"
  by (simp add: rule_result_def)

lemma classify_kinds:
  "ignore_rule_classify u d p = RULE_LITERAL_BASENAME \<Longrightarrow> is_literal_basename d p"
  "ignore_rule_classify u d p = RULE_LITERAL_EXTENSION \<Longrightarrow> is_literal_extension d p"
  "ignore_rule_classify u d p = RULE_LITERAL_DIRECTORY \<Longrightarrow> is_literal_directory d p"
  by (auto simp: ignore_rule_classify_def split: if_splits)

lemma c_char_simps [simp]: "c_char [] i = CHR 0x00" "c_char (a # s) 0 = a" "c_char (a # s) (Suc i) = c_char s i"
  by (simp_all add: c_char_def)

lemma literal_shape:
  assumes "rule_wf rule"
  shows "ir_kind rule = RULE_LITERAL_BASENAME \<Longrightarrow> literal_text (ir_pattern rule) \<and> \<not> ir_uses_relative_path rule \<and> \<not> ir_directory_only rule"
    and "ir_kind rule = RULE_LITERAL_DIRECTORY \<Longrightarrow> literal_text (ir_pattern rule) \<and> \<not> ir_uses_relative_path rule \<and> ir_directory_only rule"
proof -
  have r: "ir_uses_relative_path rule \<longleftrightarrow> CHR ''/'' \<in> set (ir_pattern rule)"
    "ir_kind rule = ignore_rule_classify (ir_uses_relative_path rule) (ir_directory_only rule) (ir_pattern rule)"
    using assms by (simp_all add: rule_wf_def)
  { assume "ir_kind rule = RULE_LITERAL_BASENAME"
    then have "is_literal_basename (ir_directory_only rule) (ir_pattern rule)" using r(2) classify_kinds(1) by metis
    then show "literal_text (ir_pattern rule) \<and> \<not> ir_uses_relative_path rule \<and> \<not> ir_directory_only rule"
      using r(1) by (simp add: is_literal_basename_def) }
  { assume "ir_kind rule = RULE_LITERAL_DIRECTORY"
    then have "is_literal_directory (ir_directory_only rule) (ir_pattern rule)" using r(2) classify_kinds(3) by metis
    then show "literal_text (ir_pattern rule) \<and> \<not> ir_uses_relative_path rule \<and> ir_directory_only rule"
      using r(1) by (simp add: is_literal_directory_def) }
qed

lemma match_rule_basename:
  assumes "rule_wf rule" and "ir_kind rule = RULE_LITERAL_BASENAME" and "name \<noteq> []"
  shows "match_rule program rule name relative_path is_dir =
    (if fold_case (ip_casefold program) (ir_pattern rule) = fold_case (ip_casefold program) name then rule_result rule else IGNORE_NO_MATCH)"
  using literal_shape(1) [OF assms(1,2)] assms by (simp add: match_rule_def c_fnmatch_literal)

lemma match_rule_directory:
  assumes "rule_wf rule" and "ir_kind rule = RULE_LITERAL_DIRECTORY" and "name \<noteq> []"
  shows "match_rule program rule name relative_path is_dir =
    (if is_dir \<and> fold_case (ip_casefold program) (ir_pattern rule) = fold_case (ip_casefold program) name then rule_result rule else IGNORE_NO_MATCH)"
  using literal_shape(2) [OF assms(1,2)] assms by (simp add: match_rule_def c_fnmatch_literal)

lemma extension_shape:
  assumes "rule_wf rule" and "ir_kind rule = RULE_LITERAL_EXTENSION"
  shows "\<exists>rest. ir_pattern rule = CHR ''*'' # CHR ''.'' # rest \<and> literal_text (CHR ''.'' # rest) \<and>
    \<not> ir_uses_relative_path rule \<and> \<not> ir_directory_only rule"
proof -
  have r: "ir_uses_relative_path rule \<longleftrightarrow> CHR ''/'' \<in> set (ir_pattern rule)"
    "ir_kind rule = ignore_rule_classify (ir_uses_relative_path rule) (ir_directory_only rule) (ir_pattern rule)"
    using assms(1) by (simp_all add: rule_wf_def)
  then have "is_literal_extension (ir_directory_only rule) (ir_pattern rule)" using assms(2) classify_kinds(2) by metis
  then show ?thesis using r(1) by (cases "ir_pattern rule"; cases "tl (ir_pattern rule)") (auto simp: is_literal_extension_def)
qed

lemma match_rule_extension:
  assumes "rule_wf rule" and "ir_kind rule = RULE_LITERAL_EXTENSION" and "name \<noteq> []"
  shows "match_rule program rule name relative_path is_dir =
    (if \<exists>pre suf. name = pre @ suf \<and> fold_case (ip_casefold program) (tl (ir_pattern rule)) = fold_case (ip_casefold program) suf
     then rule_result rule else IGNORE_NO_MATCH)"
  using extension_shape [OF assms(1,2)] assms by (auto simp: match_rule_def c_fnmatch_star c_fnmatch_literal)

lemma c_tolower_dot [simp]: "CHR ''.'' = c_tolower c \<longleftrightarrow> c = CHR ''.''"
proof
  assume a: "CHR ''.'' = c_tolower c"
  have "(of_char (c_tolower c) :: nat) = 46" unfolding a [symmetric] by simp
  then have "\<not> (65 \<le> (of_char c :: nat) \<and> (of_char c :: nat) \<le> 90)" by (auto simp: c_tolower_def)
  then show "c = CHR ''.''" using a by (auto simp: c_tolower_def Let_def split: if_splits)
qed (simp add: c_tolower_def)

text \<open>The best entry over the suffixes that begin with a dot.\<close>

definition suffix_entries :: "ignore_program \<Rightarrow> string \<Rightarrow> literal_entry set" where
  "suffix_entries program s = {e. \<exists>pre suf. s = pre @ CHR ''.'' # suf \<and> find_literal_extension_exact program (CHR ''.'' # suf) = Some e}"

lemma suffix_entries_simps [simp]:
  "suffix_entries program [] = {}"
  "suffix_entries program (c # s) = (if c = CHR ''.'' then set_option (find_literal_extension_exact program (c # s)) else {}) \<union> suffix_entries program s"
  by (auto simp: suffix_entries_def Cons_eq_append_conv)

lemma extension_loop_ok:
  "case extension_loop program best s of
     None \<Rightarrow> best = None \<and> suffix_entries program s = {}
   | Some e \<Rightarrow> e \<in> set_option best \<union> suffix_entries program s \<and>
       (\<forall>e' \<in> set_option best \<union> suffix_entries program s. le_rule_index e' \<le> le_rule_index e)"
proof (induction s arbitrary: best)
  case Nil
  then show ?case by (simp split: option.splits)
next
  case (Cons c s)
  show ?case
  proof (cases "c = CHR ''.''")
    case False
    then show ?thesis using Cons [of best] unfolding suffix_entries_simps by (auto split: option.splits)
  next
    case True
    show ?thesis
    proof (cases "find_literal_extension_exact program (c # s)")
      case None
      then show ?thesis using Cons [of best] True unfolding suffix_entries_simps by (auto split: option.splits)
    next
      case (Some entry)
      let ?best = "case best of None \<Rightarrow> Some entry | Some b \<Rightarrow> if le_rule_index entry > le_rule_index b then Some entry else Some b"
      have run: "extension_loop program best (c # s) = extension_loop program ?best s" using True Some by simp
      have ent: "suffix_entries program (c # s) = {entry} \<union> suffix_entries program s" using True Some by simp
      obtain b where b: "?best = Some b" "b \<in> set_option best \<union> {entry}"
        "\<forall>e' \<in> set_option best \<union> {entry}. le_rule_index e' \<le> le_rule_index b"
      proof (cases best)
        case None
        then show ?thesis using that [of entry] by simp
      next
        case (Some a)
        then show ?thesis using that [of "if le_rule_index entry > le_rule_index a then entry else a"] by simp
      qed
      show ?thesis using Cons [of "Some b"] b(2,3) unfolding run ent b(1)
        by (auto split: option.splits)
    qed
  qed
qed

section \<open>The stages\<close>

definition prefix_leads :: "bool \<Rightarrow> string \<Rightarrow> bool \<Rightarrow> string \<Rightarrow> bool \<Rightarrow> bool" where
  "prefix_leads casefold p directory_only path is_dir \<longleftrightarrow>
     prefix_equal casefold path p (length p) \<and>
     (if c_char path (length p) = CHR 0x00 then \<not> directory_only \<or> is_dir else c_char path (length p) = CHR ''/'')"

text \<open>
  What a rule says to the prefix table: there a rule for a directory name stands for what is below
  that directory at the top.
\<close>

definition table_decision :: "ignore_program \<Rightarrow> string \<Rightarrow> cstr \<Rightarrow> bool \<Rightarrow> nat \<Rightarrow> ignore_match_result" where
  "table_decision program name relative_path is_dir i =
     (let rule = ip_rules program ! i in
      if ir_kind rule = RULE_LITERAL_DIRECTORY then
        (case relative_path of
           None \<Rightarrow> IGNORE_NO_MATCH
         | Some path \<Rightarrow>
             if prefix_leads (ip_casefold program) (ir_pattern rule) (ir_directory_only rule) path is_dir
             then rule_result rule else IGNORE_NO_MATCH)
      else match_rule program rule name relative_path is_dir)"

lemma program_rule_wf: "program_wf program \<Longrightarrow> i < length (ip_rules program) \<Longrightarrow> rule_wf (ip_rules program ! i)"
  by (simp add: program_wf_def list_all_length)

lemma program_keys:
  assumes "program_wf program"
  shows "\<forall>r \<in> set (ip_rules program). c_string (ir_pattern r)" "\<forall>r \<in> set (ip_rules program). c_string (tl (ir_pattern r))"
  using assms c_string_parts(2) by (auto simp: program_wf_def list_all_iff rule_wf_def)

lemma basename_stage:
  assumes wf: "program_wf program" and name: "c_string name" "name \<noteq> []"
  shows "case find_literal_basename program name of
      None \<Rightarrow> (\<forall>i < length (ip_rules program). ir_kind (ip_rules program ! i) = RULE_LITERAL_BASENAME \<longrightarrow>
        rule_decision program name relative_path is_dir i = IGNORE_NO_MATCH)
    | Some e \<Rightarrow> le_rule_index e < length (ip_rules program) \<and> ir_kind (ip_rules program ! le_rule_index e) = RULE_LITERAL_BASENAME \<and>
        rule_decision program name relative_path is_dir (le_rule_index e) = le_result e \<and> le_result e \<noteq> IGNORE_NO_MATCH"
proof -
  obtain avail where "build_table avail (ip_casefold program) RULE_LITERAL_BASENAME (\<lambda>p. p) (ip_rules program) = Some (ip_literal_basenames program)"
    using wf by (auto simp: program_wf_def)
  from build_table_ok [OF this program_keys(1) [OF wf] name(1)] show ?thesis
    using match_rule_basename [OF program_rule_wf [OF wf]] name(2)
    by (auto simp: find_literal_basename_def split: option.splits)
qed

lemma directory_stage:
  assumes wf: "program_wf program" and name: "c_string name" "name \<noteq> []"
  shows "case (if is_dir then find_literal_directory program name else None) of
      None \<Rightarrow> (\<forall>i < length (ip_rules program). ir_kind (ip_rules program ! i) = RULE_LITERAL_DIRECTORY \<longrightarrow>
        rule_decision program name relative_path is_dir i = IGNORE_NO_MATCH)
    | Some e \<Rightarrow> le_rule_index e < length (ip_rules program) \<and> ir_kind (ip_rules program ! le_rule_index e) = RULE_LITERAL_DIRECTORY \<and>
        rule_decision program name relative_path is_dir (le_rule_index e) = le_result e \<and> le_result e \<noteq> IGNORE_NO_MATCH"
proof -
  obtain avail where "build_table avail (ip_casefold program) RULE_LITERAL_DIRECTORY (\<lambda>p. p) (ip_rules program) = Some (ip_literal_directories program)"
    using wf by (auto simp: program_wf_def)
  from build_table_ok [OF this program_keys(1) [OF wf] name(1)] show ?thesis
    using match_rule_directory [OF program_rule_wf [OF wf]] name(2)
    by (cases is_dir) (auto simp: find_literal_directory_def split: option.splits)
qed

lemma c_tolower_of_dot [simp]: "c_tolower CHR ''.'' = CHR ''.''"
  by code_simp

lemma fold_case_dot:
  assumes "fold_case casefold s = CHR ''.'' # t"
  obtains s' where "s = CHR ''.'' # s'"
proof (cases s)
  case (Cons a s')
  have "a = CHR ''.''"
  proof (cases casefold)
    case True
    then have "CHR ''.'' = c_tolower a" using assms Cons by simp
    then show ?thesis by (simp only: c_tolower_dot)
  next
    case False
    then show ?thesis using assms Cons by simp
  qed
  then show ?thesis using Cons that by simp
qed (use assms in simp)

lemma extension_stage:
  assumes wf: "program_wf program" and name: "c_string name" "name \<noteq> []"
  shows "case find_literal_extension program name of
      None \<Rightarrow> (\<forall>i < length (ip_rules program). ir_kind (ip_rules program ! i) = RULE_LITERAL_EXTENSION \<longrightarrow>
        rule_decision program name relative_path is_dir i = IGNORE_NO_MATCH)
    | Some e \<Rightarrow> le_rule_index e < length (ip_rules program) \<and> ir_kind (ip_rules program ! le_rule_index e) = RULE_LITERAL_EXTENSION \<and>
        rule_decision program name relative_path is_dir (le_rule_index e) = le_result e \<and> le_result e \<noteq> IGNORE_NO_MATCH"
proof -
  let ?f = "fold_case (ip_casefold program)"
  obtain avail where b: "build_table avail (ip_casefold program) RULE_LITERAL_EXTENSION tl (ip_rules program) = Some (ip_literal_extensions program)"
    using wf by (auto simp: program_wf_def)
  have suf: "c_string suf" if "name = pre @ suf" for pre suf using name(1) that by (auto simp: c_string_def)
  note find = build_table_ok [OF b program_keys(2) [OF wf], folded find_literal_extension_exact_def]
  note dec = match_rule_extension [OF program_rule_wf [OF wf] _ name(2)]
  show ?thesis
  proof (cases "find_literal_extension program name")
    case None
    then have none: "suffix_entries program name = {}" using extension_loop_ok [where program = program and best = None and s = name]
      by (simp add: find_literal_extension_def)
    have "rule_decision program name relative_path is_dir i = IGNORE_NO_MATCH"
      if i: "i < length (ip_rules program)" "ir_kind (ip_rules program ! i) = RULE_LITERAL_EXTENSION" for i
    proof (rule ccontr)
      assume "rule_decision program name relative_path is_dir i \<noteq> IGNORE_NO_MATCH"
      then obtain pre suf where s: "name = pre @ suf" "?f (tl (ir_pattern (ip_rules program ! i))) = ?f suf"
        using dec [OF i] by (auto split: if_splits)
      obtain rest where "tl (ir_pattern (ip_rules program ! i)) = CHR ''.'' # rest"
        using extension_shape [OF program_rule_wf [OF wf i(1)] i(2)] by auto
      then have "fold_case (ip_casefold program) suf = CHR ''.'' # fold_case (ip_casefold program) rest" using s(2)
        by (cases "ip_casefold program") simp_all
      then obtain suf' where "suf = CHR ''.'' # suf'" by (rule fold_case_dot)
      then have "\<not> find_literal_extension_exact program suf = Some e" for e using none s(1) unfolding suffix_entries_def by blast
      then have "find_literal_extension_exact program suf = None" by (metis option.exhaust)
      then show False using find [OF suf [OF s(1)]] i s(2) by simp
    qed
    then show ?thesis using None by simp
  next
    case (Some e)
    then have "e \<in> suffix_entries program name" using extension_loop_ok [where program = program and best = None and s = name]
      by (simp add: find_literal_extension_def)
    then obtain pre suf where s: "name = pre @ suf" "find_literal_extension_exact program suf = Some e"
      by (auto simp: suffix_entries_def)
    then obtain i where i: "i < length (ip_rules program)" "e = table_entry tl (ip_rules program) i"
      "ir_kind (ip_rules program ! i) = RULE_LITERAL_EXTENSION" "?f (tl (ir_pattern (ip_rules program ! i))) = ?f suf"
      using find [OF suf [OF s(1)]] by auto
    then show ?thesis using Some dec [OF i(1,3)] s(1) by auto
  qed
qed

definition prefix_entry :: "ignore_rule list \<Rightarrow> nat \<Rightarrow> anchored_prefix" where
  "prefix_entry rules i =
     \<lparr>ap_prefix = ir_pattern (rules ! i), ap_prefix_len = length (ir_pattern (rules ! i)), ap_rule_index = i,
      ap_result = rule_result (rules ! i), ap_directory_only = ir_directory_only (rules ! i)\<rparr>"

lemma set_prefix_candidates:
  "set (prefix_candidates rules) = {prefix_entry rules i | i. i < length rules \<and>
     (ir_kind (rules ! i) = RULE_ANCHORED_PREFIX \<or> ir_kind (rules ! i) = RULE_LITERAL_DIRECTORY)}"
  by (auto simp: prefix_candidates_def prefix_entry_def in_set_enumerate_eq image_iff)

definition entry_leads :: "bool \<Rightarrow> string \<Rightarrow> bool \<Rightarrow> anchored_prefix \<Rightarrow> bool" where
  "entry_leads casefold path is_dir e \<longleftrightarrow>
     prefix_equal casefold path (ap_prefix e) (ap_prefix_len e) \<and>
     (if c_char path (ap_prefix_len e) = CHR 0x00 then \<not> ap_directory_only e \<or> is_dir
      else c_char path (ap_prefix_len e) = CHR ''/'')"

lemma prefix_loop_ok:
  "case prefix_loop casefold path is_dir best es of
     None \<Rightarrow> best = None \<and> (\<forall>e \<in> set es. \<not> entry_leads casefold path is_dir e)
   | Some e \<Rightarrow> e \<in> set_option best \<union> {e \<in> set es. entry_leads casefold path is_dir e} \<and>
       (\<forall>e' \<in> set_option best \<union> {e \<in> set es. entry_leads casefold path is_dir e}. ap_rule_index e' \<le> ap_rule_index e)"
proof (induction es arbitrary: best)
  case Nil
  then show ?case by (simp split: option.splits)
next
  case (Cons entry es)
  show ?case
  proof (cases "entry_leads casefold path is_dir entry")
    case False
    then have run: "prefix_loop casefold path is_dir best (entry # es) = prefix_loop casefold path is_dir best es"
      unfolding entry_leads_def by (auto split: if_splits)
    have rest: "{e \<in> set (entry # es). entry_leads casefold path is_dir e} = {e \<in> set es. entry_leads casefold path is_dir e}"
      "(\<forall>e \<in> set (entry # es). \<not> entry_leads casefold path is_dir e) = (\<forall>e \<in> set es. \<not> entry_leads casefold path is_dir e)"
      using False by auto
    show ?thesis using Cons [of best] unfolding run rest .
  next
    case True
    let ?best = "case best of None \<Rightarrow> Some entry | Some b \<Rightarrow> if ap_rule_index entry > ap_rule_index b then Some entry else Some b"
    have run: "prefix_loop casefold path is_dir best (entry # es) = prefix_loop casefold path is_dir ?best es"
    proof -
      have p: "prefix_equal casefold path (ap_prefix entry) (ap_prefix_len entry)" using True by (simp add: entry_leads_def)
      have c: "(c_char path (ap_prefix_len entry) = CHR 0x00 \<and> ap_directory_only entry \<and> \<not> is_dir) = False"
        "(c_char path (ap_prefix_len entry) \<noteq> CHR 0x00 \<and> c_char path (ap_prefix_len entry) \<noteq> CHR ''/'') = False"
        using True by (auto simp: entry_leads_def split: if_splits)
      show ?thesis by (simp only: prefix_loop.simps p c not_True_eq_False if_False)
    qed
    have ent: "{e \<in> set (entry # es). entry_leads casefold path is_dir e} = {entry} \<union> {e \<in> set es. entry_leads casefold path is_dir e}"
      using True by auto
    obtain b where b: "?best = Some b" "b \<in> set_option best \<union> {entry}"
      "\<forall>e' \<in> set_option best \<union> {entry}. ap_rule_index e' \<le> ap_rule_index b"
    proof (cases best)
      case None
      then show ?thesis using that [of entry] by simp
    next
      case (Some a)
      then show ?thesis using that [of "if ap_rule_index entry > ap_rule_index a then entry else a"] by simp
    qed
    show ?thesis
    proof (cases "prefix_loop casefold path is_dir (Some b) es")
      case None
      then show ?thesis using Cons [of "Some b"] by simp
    next
      case e: (Some e)
      let ?H = "{e \<in> set es. entry_leads casefold path is_dir e}"
      have "e \<in> {b} \<union> ?H" "ap_rule_index b \<le> ap_rule_index e" "\<forall>e' \<in> ?H. ap_rule_index e' \<le> ap_rule_index e"
        using Cons [of "Some b"] e by auto
      then have "e \<in> set_option best \<union> ({entry} \<union> ?H)" "\<forall>e' \<in> set_option best \<union> ({entry} \<union> ?H). ap_rule_index e' \<le> ap_rule_index e"
        using b(2,3) le_trans by blast+
      then show ?thesis unfolding run b(1) ent e option.case by blast
    qed
  qed
qed

lemma table_decision_prefix:
  assumes "ir_kind (ip_rules program ! i) = RULE_ANCHORED_PREFIX \<or> ir_kind (ip_rules program ! i) = RULE_LITERAL_DIRECTORY"
  shows "table_decision program name relative_path is_dir i =
    (case relative_path of None \<Rightarrow> IGNORE_NO_MATCH
     | Some path \<Rightarrow> if entry_leads (ip_casefold program) path is_dir (prefix_entry (ip_rules program) i)
         then rule_result (ip_rules program ! i) else IGNORE_NO_MATCH)"
  using assms
  by (auto simp: table_decision_def Let_def entry_leads_def prefix_entry_def prefix_leads_def match_rule_def matches_anchored_prefix_def
      split: option.splits)

lemma prefix_stage:
  assumes wf: "program_wf program"
  shows "case find_anchored_prefix program relative_path is_dir of
      None \<Rightarrow> (\<forall>i < length (ip_rules program).
        ir_kind (ip_rules program ! i) = RULE_ANCHORED_PREFIX \<or> ir_kind (ip_rules program ! i) = RULE_LITERAL_DIRECTORY \<longrightarrow>
        table_decision program name relative_path is_dir i = IGNORE_NO_MATCH)
    | Some e \<Rightarrow> ap_rule_index e < length (ip_rules program) \<and>
        table_decision program name relative_path is_dir (ap_rule_index e) = ap_result e \<and> ap_result e \<noteq> IGNORE_NO_MATCH \<and>
        (\<forall>j < length (ip_rules program). ap_rule_index e < j \<and> ir_kind (ip_rules program ! j) = RULE_LITERAL_DIRECTORY \<longrightarrow>
          table_decision program name relative_path is_dir j = IGNORE_NO_MATCH)"
proof (cases relative_path)
  case None
  then show ?thesis by (simp add: find_anchored_prefix_def table_decision_prefix)
next
  case (Some path)
  have pre: "ip_anchored_prefixes program = prefix_candidates (ip_rules program)" using wf by (simp add: program_wf_def)
  note loop = prefix_loop_ok [where best = None and casefold = "ip_casefold program" and path = path and is_dir = is_dir and es = "prefix_candidates (ip_rules program)"]
  have find: "find_anchored_prefix program relative_path is_dir = prefix_loop (ip_casefold program) path is_dir None (prefix_candidates (ip_rules program))"
    using Some pre by (simp add: find_anchored_prefix_def)
  show ?thesis
  proof (cases "find_anchored_prefix program relative_path is_dir")
    case None
    then have "\<forall>e \<in> set (prefix_candidates (ip_rules program)). \<not> entry_leads (ip_casefold program) path is_dir e"
      using loop unfolding find [symmetric] by simp
    then show ?thesis using None by (auto simp: table_decision_prefix Some set_prefix_candidates)
  next
    case e: (Some e)
    have best: "e \<in> {e \<in> set (prefix_candidates (ip_rules program)). entry_leads (ip_casefold program) path is_dir e}"
      "\<forall>e' \<in> {e \<in> set (prefix_candidates (ip_rules program)). entry_leads (ip_casefold program) path is_dir e}. ap_rule_index e' \<le> ap_rule_index e"
      using loop unfolding find [symmetric] e by simp_all
    then obtain i where i: "i < length (ip_rules program)" "e = prefix_entry (ip_rules program) i"
      "ir_kind (ip_rules program ! i) = RULE_ANCHORED_PREFIX \<or> ir_kind (ip_rules program ! i) = RULE_LITERAL_DIRECTORY"
      "entry_leads (ip_casefold program) path is_dir e"
      using best(1) by (auto simp: set_prefix_candidates)
    have "table_decision program name relative_path is_dir j = IGNORE_NO_MATCH"
      if j: "j < length (ip_rules program)" "i < j" "ir_kind (ip_rules program ! j) = RULE_LITERAL_DIRECTORY" for j
    proof -
      have "prefix_entry (ip_rules program) j \<in> set (prefix_candidates (ip_rules program))" using j by (auto simp: set_prefix_candidates)
      moreover have "\<not> ap_rule_index (prefix_entry (ip_rules program) j) \<le> ap_rule_index e" using j(2) i(2) by (simp add: prefix_entry_def)
      ultimately have "\<not> entry_leads (ip_casefold program) path is_dir (prefix_entry (ip_rules program) j)" using best(2) by auto
      then show ?thesis using j(3) by (simp add: table_decision_prefix Some)
    qed
    moreover have "ap_rule_index e = i" "ap_result e = rule_result (ip_rules program ! i)" using i(2) by (simp_all add: prefix_entry_def)
    moreover have "table_decision program name relative_path is_dir i = rule_result (ip_rules program ! i)"
      using i(2-4) by (simp add: table_decision_prefix Some)
    ultimately show ?thesis using e i(1) by simp
  qed
qed

section \<open>The stages together\<close>

abbreviation literal_kind :: "ignore_rule_kind \<Rightarrow> bool" where
  "literal_kind k \<equiv> k = RULE_LITERAL_BASENAME \<or> k = RULE_LITERAL_EXTENSION \<or> k = RULE_LITERAL_DIRECTORY"

text \<open>Some rule for a literal name decides on the name.\<close>

definition literal_hit :: "ignore_program \<Rightarrow> string \<Rightarrow> cstr \<Rightarrow> bool \<Rightarrow> bool" where
  "literal_hit program name relative_path is_dir \<longleftrightarrow>
     (\<exists>i < length (ip_rules program). literal_kind (ir_kind (ip_rules program ! i)) \<and>
        rule_decision program name relative_path is_dir i \<noteq> IGNORE_NO_MATCH)"

lemma match_after_decision:
  assumes "i < length (ip_rules program)" and "rule_decision program name relative_path is_dir i = result" and "result \<noteq> IGNORE_NO_MATCH"
  shows "match_after program name relative_path is_dir i result =
    last_decision (rule_decision program name relative_path is_dir) (length (ip_rules program))"
  by (rule match_after_last) (use assms in simp_all)

lemma last_decision_some:
  "i < n \<Longrightarrow> d i \<noteq> IGNORE_NO_MATCH \<Longrightarrow> last_decision d n \<noteq> IGNORE_NO_MATCH"
  using last_decision_none by blast

lemma literal_stages:
  fixes relative_path :: cstr and is_dir :: bool
  assumes wf: "program_wf program" and name: "c_string name" "name \<noteq> []"
  defines "D \<equiv> last_decision (rule_decision program name relative_path is_dir) (length (ip_rules program))"
  defines "b \<equiv> match_literal_basename program name relative_path is_dir"
  defines "e \<equiv> match_literal_extension program name relative_path is_dir"
  defines "d \<equiv> match_literal_directory program name relative_path is_dir"
  shows "if literal_hit program name relative_path is_dir
    then (b = D \<or> b = IGNORE_NO_MATCH \<and> e = D \<or> b = IGNORE_NO_MATCH \<and> e = IGNORE_NO_MATCH \<and> d = D) \<and> D \<noteq> IGNORE_NO_MATCH
    else b = IGNORE_NO_MATCH \<and> e = IGNORE_NO_MATCH \<and> d = IGNORE_NO_MATCH"
proof -
  have ne: "ip_rules program \<noteq> []" using wf by (simp add: program_wf_def)
  note found = match_after_decision [of _ program name relative_path is_dir, folded D_def]
  note some = last_decision_some [where n = "length (ip_rules program)" and d = "rule_decision program name relative_path is_dir", folded D_def]
  define none where "none k \<longleftrightarrow> (\<forall>i < length (ip_rules program). ir_kind (ip_rules program ! i) = k \<longrightarrow>
    rule_decision program name relative_path is_dir i = IGNORE_NO_MATCH)" for k
  have hit: "literal_hit program name relative_path is_dir \<longleftrightarrow>
      \<not> (none RULE_LITERAL_BASENAME \<and> none RULE_LITERAL_EXTENSION \<and> none RULE_LITERAL_DIRECTORY)"
    by (auto simp: literal_hit_def none_def)
  have 1: "b = D \<and> D \<noteq> IGNORE_NO_MATCH \<and> \<not> none RULE_LITERAL_BASENAME \<or> b = IGNORE_NO_MATCH \<and> none RULE_LITERAL_BASENAME"
    using basename_stage [OF wf name, of relative_path is_dir] found some ne unfolding b_def match_literal_basename_def none_def
    by (auto split: option.splits)
  have 2: "e = D \<and> D \<noteq> IGNORE_NO_MATCH \<and> \<not> none RULE_LITERAL_EXTENSION \<or> e = IGNORE_NO_MATCH \<and> none RULE_LITERAL_EXTENSION"
    using extension_stage [OF wf name, of relative_path is_dir] found some ne unfolding e_def match_literal_extension_def none_def
    by (auto split: option.splits)
  have 3: "d = D \<and> D \<noteq> IGNORE_NO_MATCH \<and> \<not> none RULE_LITERAL_DIRECTORY \<or> d = IGNORE_NO_MATCH \<and> none RULE_LITERAL_DIRECTORY"
    using directory_stage [OF wf name, where is_dir = is_dir and relative_path = relative_path] found some ne unfolding d_def match_literal_directory_def none_def
    by (auto split: option.splits)
  show ?thesis using 1 2 3 hit by auto
qed

lemma rule_kinds:
  assumes "program_wf program" and "i < length (ip_rules program)"
  shows "ir_kind (ip_rules program ! i) \<noteq> RULE_INVALID"
  using program_rule_wf [OF assms] by (auto simp: rule_wf_def ignore_rule_classify_def split: if_splits)

lemma ignore_program_match_sim:
  assumes wf: "program_wf program" and name: "c_string name" "name \<noteq> []"
  shows "ignore_program_match program name relative_path is_dir =
    (if literal_hit program name relative_path is_dir
     then last_decision (rule_decision program name relative_path is_dir) (length (ip_rules program))
     else last_decision (table_decision program name relative_path is_dir) (length (ip_rules program)))"
proof -
  let ?n = "length (ip_rules program)"
  let ?r = "rule_decision program name relative_path is_dir" and ?t = "table_decision program name relative_path is_dir"
  have ne: "ip_rules program \<noteq> []" using wf by (simp add: program_wf_def)
  note lit = literal_stages [OF wf name, of relative_path is_dir]
  show ?thesis
  proof (cases "literal_hit program name relative_path is_dir")
    case True
    then show ?thesis using lit by (auto simp: ignore_program_match_def match_without_generic_glob_fallback_def Let_def)
  next
    case False
    have same: "?t i = ?r i" if "i < ?n" "ir_kind (ip_rules program ! i) \<noteq> RULE_LITERAL_DIRECTORY" for i
      using that by (simp add: table_decision_def Let_def)
    have quiet: "?r i = IGNORE_NO_MATCH" if "i < ?n" "literal_kind (ir_kind (ip_rules program ! i))" for i
      using that False by (auto simp: literal_hit_def)
    have m: "ignore_program_match program name relative_path is_dir =
        (let r = match_anchored_prefix program name relative_path is_dir in
         if r \<noteq> IGNORE_NO_MATCH then r else match_generic_glob_fallback program name relative_path is_dir)"
      using lit False by (simp add: ignore_program_match_def match_without_generic_glob_fallback_def Let_def)
    note pre = prefix_stage [OF wf, where relative_path = relative_path and is_dir = is_dir and name = name]
    show ?thesis
    proof (cases "find_anchored_prefix program relative_path is_dir")
      case (Some e)
      have e: "ap_rule_index e < ?n" "?t (ap_rule_index e) = ap_result e" "ap_result e \<noteq> IGNORE_NO_MATCH"
        "\<And>j. j < ?n \<Longrightarrow> ap_rule_index e < j \<Longrightarrow> ir_kind (ip_rules program ! j) = RULE_LITERAL_DIRECTORY \<Longrightarrow> ?t j = IGNORE_NO_MATCH"
        using pre Some by auto
      have "match_after program name relative_path is_dir (ap_rule_index e) (ap_result e) = last_decision ?t ?n"
        by (rule match_after_last) (use e same quiet in \<open>auto, metis\<close>)
      moreover have "last_decision ?t ?n \<noteq> IGNORE_NO_MATCH" using last_decision_some [of _ _ ?t, OF e(1)] e(2,3) by metis
      ultimately show ?thesis using False ne Some unfolding m by (simp add: match_anchored_prefix_def)
    next
      case None
      have t: "?t i = (if ir_kind (ip_rules program ! i) = RULE_GENERIC_GLOB then ?r i else IGNORE_NO_MATCH)" if i: "i < ?n" for i
        using pre None same [OF i] quiet [OF i] rule_kinds [OF wf i] i
        by (cases "ir_kind (ip_rules program ! i) = RULE_ANCHORED_PREFIX \<or> ir_kind (ip_rules program ! i) = RULE_LITERAL_DIRECTORY")
          (auto intro: ignore_rule_kind.exhaust [of "ir_kind (ip_rules program ! i)"])
      have "match_generic_glob_fallback program name relative_path is_dir = last_decision ?t ?n"
      proof (cases "has_generic_glob_fallback program")
        case True
        have "match_generic_glob_fallback program name relative_path is_dir =
            last_decision (\<lambda>i. if ir_kind (ip_rules program ! i) = RULE_GENERIC_GLOB then ?r i else IGNORE_NO_MATCH) ?n"
          using True ne by (simp add: match_generic_glob_fallback_def match_generic_rules_from_def match_down_last)
        moreover have "last_decision ?t ?n =
            last_decision (\<lambda>i. if ir_kind (ip_rules program ! i) = RULE_GENERIC_GLOB then ?r i else IGNORE_NO_MATCH) ?n"
          by (rule last_decision_cong) (rule t)
        ultimately show ?thesis by simp
      next
        case generic: False
        then have "\<forall>i < ?n. ?t i = IGNORE_NO_MATCH" using wf t by (auto simp: program_wf_def has_generic_glob_fallback_def)
        then show ?thesis using generic by (simp add: match_generic_glob_fallback_def last_decision_none [symmetric])
      qed
      then show ?thesis using None False unfolding m by (simp add: match_anchored_prefix_def)
    qed
  qed
qed

section \<open>Properties\<close>


lemma sample_program:
  "(case ignore_program_compile (\<lambda>_. True) [Some ''*.o'', Some ''# x'', None, Some ''!/keep.o'', Some ''build/''] False of
      None \<Rightarrow> None
    | Some p \<Rightarrow> Some (map ir_kind (ip_rules p),
        map (\<lambda>n. ignore_program_match p n (Some n) False) [''a.o'', ''keep.o'', ''x''], ignore_program_match p ''build'' (Some ''build'') True)) =
   Some ([RULE_LITERAL_EXTENSION, RULE_LITERAL_BASENAME, RULE_LITERAL_DIRECTORY],
     [IGNORE_EXCLUDE, IGNORE_INCLUDE, IGNORE_NO_MATCH], IGNORE_EXCLUDE)"
  by code_simp


text \<open>
  A slash at the beginning of a rule is dropped and leaves no trace, so the rule applies at every depth:
  the file \<open>foo\<close> of any directory is excluded by \<open>/foo\<close>.
\<close>

lemma leading_slash_not_anchored:
  "(case ignore_program_compile (\<lambda>_. True) [Some ''/foo''] False of
      None \<Rightarrow> None | Some p \<Rightarrow> Some (ignore_program_match p ''foo'' (Some ''a/b/foo'') False)) = Some IGNORE_EXCLUDE"
  by code_simp

text \<open>
  A rule for a directory decides on the files in it only through the prefix table, and only when no rule
  for a literal name comes first, whatever the order of the rules.
\<close>

lemma directory_rule_order:
  "(case ignore_program_compile (\<lambda>_. True) [Some ''!x.c'', Some ''build/''] False of
      None \<Rightarrow> None | Some p \<Rightarrow> Some (map (\<lambda>n. ignore_program_match p n (Some (''build/'' @ n)) False) [''x.c'', ''y.c''])) =
    Some [IGNORE_INCLUDE, IGNORE_EXCLUDE]"
  by code_simp

text \<open>A line whose copy fails is taken for a line without a rule.\<close>

lemma failed_copy_drops_rule:
  "map_option (\<lambda>p. map ir_pattern (ip_rules p)) (ignore_program_compile (\<lambda>n. n \<noteq> 11) [Some ''a'', Some ''secret.txt''] False) =
    Some [''a'']"
  by code_simp

end
