(* ===== verification/IgnoreState.thy ===== *)
theory IgnoreState
  imports IgnoreProgram
begin

text \<open>
  \<open>src/src/search/ignore.c\<close>: the chain of ignore programs that applies to a directory, from the innermost
  outwards, and the cache of compiled programs. A state and its parents are a list of levels, the
  innermost first; the null state is the empty list. Reading the ignore files, locating the repository
  and the error messages are input and output and have no counterpart here.
\<close>

section \<open>The chain of states\<close>

record ignore_level =
  il_dirpath :: cstr
  il_root_prefix :: cstr
  il_program :: "ignore_program option"
  il_basename_only_chain :: bool
  il_has_generic_glob_fallback_chain :: bool

type_synonym ignore_state = "ignore_level list"

definition ignore_state_init :: "ignore_state \<Rightarrow> cstr \<Rightarrow> ignore_program option \<Rightarrow> ignore_state" where
  "ignore_state_init parent dirpath program =
     \<lparr>il_dirpath = dirpath, il_root_prefix = None, il_program = program,
      il_basename_only_chain =
        ((parent = [] \<or> il_basename_only_chain (hd parent)) \<and>
         (case program of None \<Rightarrow> True | Some p \<Rightarrow> ip_basename_only p)),
      il_has_generic_glob_fallback_chain =
        ((parent \<noteq> [] \<and> il_has_generic_glob_fallback_chain (hd parent)) \<or>
         (case program of None \<Rightarrow> False | Some p \<Rightarrow> has_generic_glob_fallback p))\<rparr> # parent"

definition ignore_append_state ::
  "(nat \<Rightarrow> bool) \<Rightarrow> ignore_state \<Rightarrow> ignore_program option \<Rightarrow> cstr \<Rightarrow> cstr \<Rightarrow> ignore_state" where
  "ignore_append_state avail chain program dirpath root_prefix =
     (case program of
        None \<Rightarrow> chain
      | Some p \<Rightarrow>
          if \<not> avail 1 then []
          else
            let state = ignore_state_init chain dirpath (Some p) in
            case dirpath of
              Some d \<Rightarrow>
                if \<not> avail (length d + 1) then []
                else (case root_prefix of
                        None \<Rightarrow> state
                      | Some r \<Rightarrow> if \<not> avail (length r + 1) then [] else (hd state)\<lparr>il_root_prefix := Some r\<rparr> # tl state)
            | None \<Rightarrow>
                (case root_prefix of
                   None \<Rightarrow> state
                 | Some r \<Rightarrow> if \<not> avail (length r + 1) then [] else (hd state)\<lparr>il_root_prefix := Some r\<rparr> # tl state))"

text \<open>A copy whose parents could not be copied has no parents.\<close>

fun ignore_state_clone_chain :: "(nat \<Rightarrow> bool) \<Rightarrow> ignore_state \<Rightarrow> ignore_state" where
  "ignore_state_clone_chain avail [] = []"
| "ignore_state_clone_chain avail (level # parents) =
     (if (case il_program level of None \<Rightarrow> False | Some p \<Rightarrow> \<not> ip_process_lifetime p) then []
      else
        let parent = ignore_state_clone_chain avail parents in
        if \<not> avail 1 then []
        else
          let copy = ignore_state_init parent (il_dirpath level) (il_program level) in
          if (case il_dirpath level of None \<Rightarrow> False | Some d \<Rightarrow> \<not> avail (length d + 1)) then []
          else if (case il_root_prefix level of None \<Rightarrow> False | Some r \<Rightarrow> \<not> avail (length r + 1)) then []
          else (hd copy)\<lparr>il_root_prefix := il_root_prefix level\<rparr> # tl copy)"

section \<open>Moving a chain to a subtree\<close>

text \<open>What is left of \<open>subtree_root\<close> below \<open>current_root\<close>.\<close>

definition root_suffix :: "cstr \<Rightarrow> cstr \<Rightarrow> cstr" where
  "root_suffix current_root subtree_root =
     (case (current_root, subtree_root) of
        (Some cur, Some sub) \<Rightarrow>
          if take (length cur) sub \<noteq> cur then None
          else
            let suffix = drop (length cur) sub in
            if suffix \<noteq> [] \<and> hd suffix = CHR ''/'' then Some (tl suffix)
            else if suffix \<noteq> [] then None
            else Some suffix
      | _ \<Rightarrow> None)"

text \<open>\<open>None\<close> when an allocation fails. The outermost level is rewritten first.\<close>

definition rewrite_level :: "(nat \<Rightarrow> bool) \<Rightarrow> cstr \<Rightarrow> cstr \<Rightarrow> ignore_level \<Rightarrow> ignore_level option" where
  "rewrite_level avail current_root subtree_root level =
     (if (case il_root_prefix level of None \<Rightarrow> False | Some r \<Rightarrow> \<not> avail (length r + 1)) then None
      else if il_dirpath level \<noteq> None then Some (level\<lparr>il_root_prefix := None\<rparr>)
      else case root_suffix current_root subtree_root of
          None \<Rightarrow> Some (level\<lparr>il_root_prefix := None\<rparr>)
        | Some suffix \<Rightarrow>
            let base = (case il_root_prefix level of None \<Rightarrow> [] | Some r \<Rightarrow> r);
                total = length base + (if length base > 0 \<and> length suffix > 0 then 1 else 0) + length suffix + 1 in
            if \<not> avail total then None
            else Some (level\<lparr>il_root_prefix :=
                   Some (base @ (if length base > 0 \<and> length suffix > 0 then [CHR ''/''] else []) @ suffix)\<rparr>))"

fun rewrite_root_prefixes :: "(nat \<Rightarrow> bool) \<Rightarrow> cstr \<Rightarrow> cstr \<Rightarrow> ignore_state \<Rightarrow> ignore_state option" where
  "rewrite_root_prefixes avail current_root subtree_root [] = Some []"
| "rewrite_root_prefixes avail current_root subtree_root (level # parents) =
     (case rewrite_root_prefixes avail current_root subtree_root parents of
        None \<Rightarrow> None
      | Some parents' \<Rightarrow>
          map_option (\<lambda>level'. level' # parents') (rewrite_level avail current_root subtree_root level))"

definition ignore_state_clone_chain_for_subtree ::
  "(nat \<Rightarrow> bool) \<Rightarrow> ignore_state \<Rightarrow> cstr \<Rightarrow> cstr \<Rightarrow> ignore_state" where
  "ignore_state_clone_chain_for_subtree avail state current_root subtree_root =
     (let copy = ignore_state_clone_chain avail state in
      if copy = [] then []
      else case rewrite_root_prefixes avail current_root subtree_root copy of None \<Rightarrow> [] | Some copy' \<Rightarrow> copy')"

section \<open>Matching along the chain\<close>

definition ignore_state_relative_path :: "ignore_level \<Rightarrow> string \<Rightarrow> cstr \<Rightarrow> cstr" where
  "ignore_state_relative_path level path root_relative_path =
     (let outer = (if il_root_prefix level = None then Some path else root_relative_path) in
      case il_dirpath level of
        None \<Rightarrow> outer
      | Some dirpath \<Rightarrow>
          let dir_len = length dirpath in
          if take dir_len path \<noteq> dirpath then outer
          else if c_char path dir_len = CHR ''/'' then Some (drop (dir_len + 1) path)
          else if c_char path dir_len = CHR 0x00 then Some (drop dir_len path)
          else outer)"

datatype ignore_match_mode =
    MODE_LITERAL_BASENAME | MODE_LITERAL_EXTENSION | MODE_LITERAL_DIRECTORY | MODE_ANCHORED_PREFIX
  | MODE_GENERIC_GLOB_FALLBACK | MODE_FULL_NO_GENERIC | MODE_FULL

definition STACK_PATH_BUFSIZE :: nat where "STACK_PATH_BUFSIZE = 512"

definition mode_match :: "ignore_match_mode \<Rightarrow> ignore_program option \<Rightarrow> string \<Rightarrow> cstr \<Rightarrow> bool \<Rightarrow> ignore_match_result" where
  "mode_match mode program name relative_path is_dir =
     (case program of
        None \<Rightarrow> IGNORE_NO_MATCH
      | Some p \<Rightarrow>
          (case mode of
             MODE_LITERAL_BASENAME \<Rightarrow> match_literal_basename p name relative_path is_dir
           | MODE_LITERAL_EXTENSION \<Rightarrow> match_literal_extension p name relative_path is_dir
           | MODE_LITERAL_DIRECTORY \<Rightarrow> match_literal_directory p name relative_path is_dir
           | MODE_ANCHORED_PREFIX \<Rightarrow> match_anchored_prefix p name relative_path is_dir
           | MODE_GENERIC_GLOB_FALLBACK \<Rightarrow> match_generic_glob_fallback p name relative_path is_dir
           | MODE_FULL_NO_GENERIC \<Rightarrow> match_without_generic_glob_fallback p name relative_path is_dir
           | MODE_FULL \<Rightarrow> ignore_program_match p name relative_path is_dir))"

text \<open>The path a level matches; \<open>None\<close> when there is no memory for it.\<close>

definition level_path :: "(nat \<Rightarrow> bool) \<Rightarrow> ignore_level \<Rightarrow> string \<Rightarrow> cstr \<Rightarrow> cstr option" where
  "level_path avail level path root_relative_path =
     (let relative_path = ignore_state_relative_path level path root_relative_path in
      case il_root_prefix level of
        None \<Rightarrow> Some relative_path
      | Some prefix \<Rightarrow>
          if length prefix = 0 then Some relative_path
          else
            let rel = (case relative_path of None \<Rightarrow> [] | Some r \<Rightarrow> r);
                total = length prefix + (if length rel > 0 then 1 + length rel else 0) + 1 in
            if total > STACK_PATH_BUFSIZE \<and> \<not> avail total then None
            else Some (Some (prefix @ (if length rel > 0 then CHR ''/'' # rel else []))))"

fun state_match_with_mode ::
  "(nat \<Rightarrow> bool) \<Rightarrow> ignore_match_mode \<Rightarrow> ignore_state \<Rightarrow> string \<Rightarrow> string \<Rightarrow> cstr \<Rightarrow> bool \<Rightarrow> ignore_match_result" where
  "state_match_with_mode avail mode [] name path root_relative_path is_dir = IGNORE_NO_MATCH"
| "state_match_with_mode avail mode (level # parents) name path root_relative_path is_dir =
     (case level_path avail level path root_relative_path of
        None \<Rightarrow> IGNORE_NO_MATCH
      | Some relative_path \<Rightarrow>
          let result = mode_match mode (il_program level) name relative_path is_dir in
          if result = IGNORE_EXCLUDE \<or> result = IGNORE_INCLUDE then result
          else state_match_with_mode avail mode parents name path root_relative_path is_dir)"

definition state_matches_path :: "(nat \<Rightarrow> bool) \<Rightarrow> ignore_state \<Rightarrow> string \<Rightarrow> string \<Rightarrow> cstr \<Rightarrow> bool \<Rightarrow> bool" where
  "state_matches_path avail state name path root_relative_path is_dir \<longleftrightarrow>
     state_match_with_mode avail MODE_FULL state name path root_relative_path is_dir = IGNORE_EXCLUDE"

definition is_basename_only_chain :: "ignore_state \<Rightarrow> bool" where
  "is_basename_only_chain state \<longleftrightarrow> state \<noteq> [] \<and> il_basename_only_chain (hd state)"

definition has_generic_glob_fallback_chain :: "ignore_state \<Rightarrow> bool" where
  "has_generic_glob_fallback_chain state \<longleftrightarrow> state \<noteq> [] \<and> il_has_generic_glob_fallback_chain (hd state)"

section \<open>Ignore files\<close>

text \<open>
  The rule text of a line that \<open>getline\<close> gave, if it has one: without its line end, and cut at a NUL.
\<close>

definition loaded_pattern :: "string \<Rightarrow> string option" where
  "loaded_pattern raw =
     (let line = rev (dropWhile (\<lambda>c. c = CHR 0x0A \<or> c = CHR 0x0D) (rev (takeWhile (\<lambda>c. c \<noteq> CHR 0x00) raw))) in
      if line = [] \<or> hd line = CHR ''#'' then None else Some line)"

text \<open>Which file names a directory is asked for, and the source their rules get.\<close>

record walk_ignore_opts =
  no_ignore_vcs :: bool
  no_ignore_dot :: bool
  gitignore_enabled :: bool

definition ignore_filename_used :: "walk_ignore_opts \<Rightarrow> cstr \<Rightarrow> bool" where
  "ignore_filename_used opts filename =
     (case filename of
        None \<Rightarrow> False
      | Some f \<Rightarrow>
          if f = [] then False
          else if no_ignore_vcs opts \<and> f = ''.gitignore'' then False
          else if \<not> gitignore_enabled opts \<and> f = ''.gitignore'' then False
          else if no_ignore_dot opts \<and> (f = ''.ignore'' \<or> f = ''.rgignore'') then False
          else True)"

definition ignore_filename_source :: "string \<Rightarrow> ignore_source_kind" where
  "ignore_filename_source f =
     (if f = ''.gitignore'' then SOURCE_GITIGNORE else if f = ''.ignore'' then SOURCE_DOTIGNORE else SOURCE_BUILTIN)"

section \<open>The cache of programs\<close>

definition hash_bytes :: "u64 \<Rightarrow> string \<Rightarrow> u64" where
  "hash_bytes hash bytes = foldl (\<lambda>h c. (h XOR of_char c) * 1099511628211) hash bytes"

record cache_key =
  ck_hash :: u64
  ck_casefold :: bool
  ck_content :: string

record cache_entry = cache_key +
  ce_program :: ignore_program

definition source_byte :: "ignore_source_kind \<Rightarrow> char" where
  "source_byte source = (case source of SOURCE_BUILTIN \<Rightarrow> CHR 0x00 | SOURCE_GITIGNORE \<Rightarrow> CHR 0x01 | SOURCE_DOTIGNORE \<Rightarrow> CHR 0x02)"

abbreviation newline :: char where "newline \<equiv> CHR 0x0A"

text \<open>The lines with their sources, without the null ones.\<close>

definition sourced_lines :: "cstr list \<Rightarrow> ignore_source_kind list option \<Rightarrow> (string \<times> ignore_source_kind) list" where
  "sourced_lines patterns sources =
     List.map_filter (\<lambda>(p, s). map_option (\<lambda>t. (t, s)) p)
       (zip patterns (case sources of None \<Rightarrow> replicate (length patterns) SOURCE_BUILTIN | Some ks \<Rightarrow> ks))"

definition key_content :: "(string \<times> ignore_source_kind) list \<Rightarrow> string" where
  "key_content lines = concat (map (\<lambda>(p, s). source_byte s # p @ [newline]) lines)"

definition key_hash :: "(string \<times> ignore_source_kind) list \<Rightarrow> bool \<Rightarrow> u64" where
  "key_hash lines casefold =
     hash_bytes
       (foldl (\<lambda>h (p, s). hash_bytes (hash_bytes (hash_bytes h [source_byte s]) p) [newline]) 14695981039346656037 lines)
       [if casefold then CHR 0x01 else CHR 0x00]"

definition cache_build_key ::
  "(nat \<Rightarrow> bool) \<Rightarrow> cstr list \<Rightarrow> ignore_source_kind list option \<Rightarrow> bool \<Rightarrow> cache_key option" where
  "cache_build_key avail patterns sources casefold =
     (let lines = sourced_lines patterns sources; content = key_content lines in
      if patterns = [] \<or> length content = 0 then None
      else if \<not> avail (length content) then None
      else Some \<lparr>ck_hash = key_hash lines casefold, ck_casefold = casefold, ck_content = content\<rparr>)"

fun cache_lookup_locked :: "cache_entry list \<Rightarrow> cache_key \<Rightarrow> ignore_program option" where
  "cache_lookup_locked [] key = None"
| "cache_lookup_locked (it # snapshot) key =
     (if ck_hash it \<noteq> ck_hash key \<or> ck_casefold it \<noteq> ck_casefold key \<or> length (ck_content it) \<noteq> length (ck_content key)
      then cache_lookup_locked snapshot key
      else if ck_content it = ck_content key then Some (ce_program it)
      else cache_lookup_locked snapshot key)"

definition cache_snapshot_rebuild_with_entry ::
  "(nat \<Rightarrow> bool) \<Rightarrow> cache_entry list \<Rightarrow> cache_key \<Rightarrow> ignore_program \<Rightarrow> cache_entry list option" where
  "cache_snapshot_rebuild_with_entry avail old_snapshot key program =
     (if \<not> avail (length old_snapshot + 1) then None
      else Some (cache_key.extend key \<lparr>ce_program = program\<rparr> # old_snapshot))"

definition make_process_lifetime :: "ignore_program \<Rightarrow> ignore_program" where
  "make_process_lifetime program = program\<lparr>ip_process_lifetime := True\<rparr>"

text \<open>The flag is set on the program that the new entry points to.\<close>

definition cache_insert_locked ::
  "(nat \<Rightarrow> bool) \<Rightarrow> cache_entry list \<Rightarrow> cache_key \<Rightarrow> ignore_program \<Rightarrow> (cache_entry list \<times> ignore_program) option" where
  "cache_insert_locked avail snapshot key program =
     map_option (\<lambda>snapshot'. (snapshot', make_process_lifetime program))
       (cache_snapshot_rebuild_with_entry avail snapshot key (make_process_lifetime program))"

text \<open>
  A program for some lines: \<open>before\<close> is the snapshot at the first locked section and \<open>snapshot\<close> the one at
  the second, which other threads may have extended. The result is the program and the snapshot after.
\<close>

definition program_from_patterns ::
  "(nat \<Rightarrow> bool) \<Rightarrow> cache_entry list \<Rightarrow> cache_entry list \<Rightarrow> cstr list \<Rightarrow> ignore_source_kind list option \<Rightarrow> bool \<Rightarrow>
   ignore_program option \<times> cache_entry list" where
  "program_from_patterns avail before snapshot patterns sources casefold =
     (case cache_build_key avail patterns sources casefold of
        None \<Rightarrow> (ignore_program_compile_with_sources avail patterns sources casefold, snapshot)
      | Some key \<Rightarrow>
          (case cache_lookup_locked before key of
             Some program \<Rightarrow> (Some program, snapshot)
           | None \<Rightarrow>
               (case ignore_program_compile_with_sources avail patterns sources casefold of
                  None \<Rightarrow> (None, snapshot)
                | Some program \<Rightarrow>
                    (case cache_lookup_locked snapshot key of
                       Some cached \<Rightarrow> (Some cached, snapshot)
                     | None \<Rightarrow>
                         (case cache_insert_locked avail snapshot key program of
                            None \<Rightarrow> (Some program, snapshot)
                          | Some (snapshot', program') \<Rightarrow> (Some program', snapshot'))))))"

section \<open>The cache gives the program of the lines\<close>

lemma source_byte_inj: "source_byte a = source_byte b \<longleftrightarrow> a = b"
  by (cases a; cases b) (simp_all add: source_byte_def)

lemma append_newline_inj:
  "newline \<notin> set a \<Longrightarrow> newline \<notin> set b \<Longrightarrow> a @ newline # x = b @ newline # y \<Longrightarrow> a = b \<and> x = y"
proof (induction a arbitrary: b)
  case Nil
  then show ?case by (cases b) auto
next
  case (Cons c a)
  then show ?case by (cases b) auto
qed

lemma key_content_inj:
  "\<forall>(p, s) \<in> set ls. newline \<notin> set p \<Longrightarrow> \<forall>(p, s) \<in> set ls'. newline \<notin> set p \<Longrightarrow>
    key_content ls = key_content ls' \<Longrightarrow> ls = ls'"
proof (induction ls arbitrary: ls')
  case Nil
  then show ?case by (cases ls') (auto simp: key_content_def)
next
  case (Cons l ls)
  obtain p s where l: "l = (p, s)" by force
  show ?case
  proof (cases ls')
    case Nil
    then show ?thesis using Cons.prems l by (simp add: key_content_def)
  next
    case (Cons l' ls'')
    obtain q t where l': "l' = (q, t)" by force
    have "source_byte s = source_byte t" "p @ newline # key_content ls = q @ newline # key_content ls''"
      using Cons.prems(3) unfolding Cons l l' by (simp_all add: key_content_def)
    then have "s = t" "p = q" "key_content ls = key_content ls''"
      using append_newline_inj [of p q] Cons.prems(1,2) l l' Cons by (auto simp: source_byte_inj)
    then show ?thesis using Cons.IH [of ls''] Cons.prems(1,2) l l' Cons by auto
  qed
qed

lemma compile_rules_sourced:
  "compile_rules avail ls = compile_rules avail (map (\<lambda>(t, s). (Some t, s)) (List.map_filter (\<lambda>(p, s). map_option (\<lambda>t. (t, s)) p) ls))"
  by (induction avail ls rule: compile_rules.induct) (auto simp: List.map_filter_simps split: option.splits)

lemma compile_of_lines:
  assumes "sourced_lines p1 s1 = sourced_lines p2 s2" and "sourced_lines p1 s1 \<noteq> []"
  shows "ignore_program_compile_with_sources (\<lambda>_. True) p1 s1 casefold = ignore_program_compile_with_sources (\<lambda>_. True) p2 s2 casefold"
proof -
  have ne: "p1 \<noteq> []" "p2 \<noteq> []" using assms by (auto simp: sourced_lines_def List.map_filter_simps)
  have "compile_rules (\<lambda>_. True) (zip p1 (case s1 of None \<Rightarrow> replicate (length p1) SOURCE_BUILTIN | Some ks \<Rightarrow> ks)) =
      compile_rules (\<lambda>_. True) (zip p2 (case s2 of None \<Rightarrow> replicate (length p2) SOURCE_BUILTIN | Some ks \<Rightarrow> ks))"
    using assms(1) unfolding sourced_lines_def by (subst (1 2) compile_rules_sourced) simp
  then show ?thesis using ne by (simp add: ignore_program_compile_with_sources_def Let_def)
qed

abbreviation compiled :: "cstr list \<Rightarrow> ignore_source_kind list option \<Rightarrow> bool \<Rightarrow> ignore_program option" where
  "compiled patterns sources casefold \<equiv> ignore_program_compile_with_sources (\<lambda>_. True) patterns sources casefold"

text \<open>Lines come from \<open>getline\<close> without their line ends.\<close>

definition one_line :: "cstr list \<Rightarrow> ignore_source_kind list option \<Rightarrow> bool" where
  "one_line patterns sources \<longleftrightarrow> (\<forall>(p, s) \<in> set (sourced_lines patterns sources). newline \<notin> set p)"

definition entry_ok :: "cache_entry \<Rightarrow> bool" where
  "entry_ok e \<longleftrightarrow> (\<exists>patterns sources p. one_line patterns sources \<and> sourced_lines patterns sources \<noteq> [] \<and>
     ck_content e = key_content (sourced_lines patterns sources) \<and>
     compiled patterns sources (ck_casefold e) = Some p \<and> ce_program e = make_process_lifetime p)"

lemma cache_lookup_in:
  "cache_lookup_locked snapshot key = Some program \<Longrightarrow>
    \<exists>e \<in> set snapshot. ce_program e = program \<and> ck_content e = ck_content key \<and> ck_casefold e = ck_casefold key"
  by (induction snapshot) (auto split: if_splits)

lemma cache_lookup_ok:
  assumes "list_all entry_ok snapshot" and "one_line patterns sources"
    and "cache_build_key avail patterns sources casefold = Some key" and "cache_lookup_locked snapshot key = Some program"
  shows "\<exists>p. compiled patterns sources casefold = Some p \<and> program = make_process_lifetime p"
proof -
  have key: "ck_content key = key_content (sourced_lines patterns sources)" "ck_casefold key = casefold"
    using assms(3) by (auto simp: cache_build_key_def Let_def split: if_splits)
  obtain e where e: "e \<in> set snapshot" "ce_program e = program" "ck_content e = ck_content key" "ck_casefold e = casefold"
    using cache_lookup_in [OF assms(4)] key(2) by auto
  then obtain ps ss p where p: "one_line ps ss" "sourced_lines ps ss \<noteq> []" "ck_content e = key_content (sourced_lines ps ss)"
    "compiled ps ss casefold = Some p" "program = make_process_lifetime p"
    using assms(1) by (auto simp: list_all_iff entry_ok_def)
  have "sourced_lines ps ss = sourced_lines patterns sources"
    by (rule key_content_inj) (use p(1,3) assms(2) e(3) key(1) in \<open>simp_all add: one_line_def\<close>)
  then have "compiled patterns sources casefold = Some p" using compile_of_lines p(2,4) by metis
  then show ?thesis using p(5) by blast
qed

lemma cache_insert_ok:
  assumes "list_all entry_ok snapshot" and "one_line patterns sources"
    and "cache_build_key avail patterns sources casefold = Some key" and "compiled patterns sources casefold = Some program"
    and "cache_insert_locked avail snapshot key program = Some (snapshot', program')"
  shows "list_all entry_ok snapshot' \<and> program' = make_process_lifetime program"
proof -
  have key: "ck_content key = key_content (sourced_lines patterns sources)" "ck_casefold key = casefold" "ck_content key \<noteq> []"
    using assms(3) by (auto simp: cache_build_key_def Let_def split: if_splits)
  then have "sourced_lines patterns sources \<noteq> []" by (auto simp: key_content_def)
  then have "entry_ok (cache_key.extend key \<lparr>ce_program = make_process_lifetime program\<rparr>)"
    using assms(2,4) key unfolding entry_ok_def by (auto simp: cache_key.extend_def intro!: exI [of _ patterns] exI [of _ sources])
  then show ?thesis using assms(1,5)
    by (auto simp: cache_insert_locked_def cache_snapshot_rebuild_with_entry_def split: if_splits)
qed

lemma program_from_patterns_sim:
  assumes "list_all entry_ok before" and "list_all entry_ok snapshot" and "one_line patterns sources"
  shows "case program_from_patterns (\<lambda>_. True) before snapshot patterns sources casefold of (program, snapshot') \<Rightarrow>
    map_option make_process_lifetime program = map_option make_process_lifetime (compiled patterns sources casefold) \<and>
    list_all entry_ok snapshot'"
proof -
  have idem: "make_process_lifetime (make_process_lifetime p) = make_process_lifetime p" for p by (simp add: make_process_lifetime_def)
  show ?thesis
    using cache_lookup_ok [OF assms(1,3)] cache_lookup_ok [OF assms(2,3)] cache_insert_ok [OF assms(2,3)] assms(2)
    by (auto simp: program_from_patterns_def idem split: option.splits prod.splits) (metis idem option.sel option.distinct(1))+
qed

text \<open>The texts that are loaded from lines that end at their line end are single lines without a NUL.\<close>

lemma loaded_pattern_line:
  assumes "newline \<notin> set body" and "loaded_pattern (body @ tail) = Some t" and "tail = [] \<or> tail = [newline]"
  shows "newline \<notin> set t \<and> c_string t \<and> t \<noteq> []"
proof -
  let ?P = "\<lambda>c. c = newline \<or> c = CHR 0x0D"
  let ?cut = "takeWhile (\<lambda>c. c \<noteq> CHR 0x00) (body @ tail)"
  have t: "t = rev (dropWhile ?P (rev ?cut))" "t \<noteq> []"
    using assms(2) unfolding loaded_pattern_def Let_def by (metis option.distinct(1) option.inject)+
  have nul: "CHR 0x00 \<notin> set ?cut" using set_takeWhileD by fastforce
  have sub: "set t \<subseteq> set ?cut" using set_dropWhileD [of _ ?P "rev ?cut"] unfolding t(1) by auto
  have "newline \<notin> set t"
  proof (cases "CHR 0x00 \<in> set body")
    case True
    then have cut: "?cut = takeWhile (\<lambda>c. c \<noteq> CHR 0x00) body" by (rule takeWhile_append1) simp
    have "newline \<notin> set ?cut" unfolding cut using assms(1) set_takeWhileD [of newline _ body] by blast
    then show ?thesis using sub by blast
  next
    case False
    then have "CHR 0x00 \<notin> set (body @ tail)" using assms(3) by auto
    then have cut: "?cut = body @ tail" unfolding takeWhile_eq_all_conv by blast
    show ?thesis
    proof (cases "tail = []")
      case True
      then show ?thesis using sub assms(1) unfolding cut by auto
    next
      case False
      then have "tail = [newline]" using assms(3) by blast
      then have "t = rev (dropWhile ?P (rev body))" using t(1) unfolding cut by simp
      then have "set t \<subseteq> set body" using set_dropWhileD [of _ ?P "rev body"] by auto
      then show ?thesis using assms(1) by blast
    qed
  qed
  then show ?thesis using sub nul t(2) unfolding c_string_def by blast
qed

section \<open>Chains\<close>

text \<open>The flags that a level keeps for itself and its parents say what they should.\<close>

fun chain_wf :: "ignore_state \<Rightarrow> bool" where
  "chain_wf [] \<longleftrightarrow> True"
| "chain_wf (level # parents) \<longleftrightarrow> chain_wf parents \<and>
     (case il_program level of None \<Rightarrow> True | Some p \<Rightarrow> program_wf p) \<and>
     (il_basename_only_chain level \<longleftrightarrow> list_all (\<lambda>l. case il_program l of None \<Rightarrow> True | Some p \<Rightarrow> ip_basename_only p) (level # parents)) \<and>
     (il_has_generic_glob_fallback_chain level \<longleftrightarrow>
        list_ex (\<lambda>l. case il_program l of None \<Rightarrow> False | Some p \<Rightarrow> has_generic_glob_fallback p) (level # parents))"

lemma chain_wf_init:
  assumes "chain_wf parent" and "case program of None \<Rightarrow> True | Some p \<Rightarrow> program_wf p"
  shows "chain_wf (ignore_state_init parent dirpath program)"
  using assms by (cases parent) (auto simp: ignore_state_init_def split: option.splits)

lemma chain_wf_prefix:
  assumes "chain_wf (level # parents)"
  shows "chain_wf (level\<lparr>il_root_prefix := r\<rparr> # parents)"
  using assms by simp

lemma init_parts: "ignore_state_init parent dirpath program = hd (ignore_state_init parent dirpath program) # parent"
  "il_program (hd (ignore_state_init parent dirpath program)) = program"
  "il_dirpath (hd (ignore_state_init parent dirpath program)) = dirpath"
  "tl (ignore_state_init parent dirpath program) = parent"
  by (simp_all add: ignore_state_init_def)

lemma chain_wf_append:
  assumes "chain_wf chain" and "case program of None \<Rightarrow> True | Some p \<Rightarrow> program_wf p"
  shows "chain_wf (ignore_append_state avail chain program dirpath root_prefix)"
proof (cases program)
  case None
  then show ?thesis using assms(1) by (simp add: ignore_append_state_def)
next
  case (Some p)
  let ?s = "ignore_state_init chain dirpath (Some p)"
  have wf: "chain_wf ?s" using chain_wf_init [OF assms(1), of "Some p"] assms(2) Some by simp
  have "chain_wf ((hd ?s)\<lparr>il_root_prefix := Some r\<rparr> # tl ?s)" for r
    using chain_wf_prefix [of "hd ?s" "tl ?s"] wf init_parts(1,4) by metis
  moreover have "ignore_append_state avail chain program dirpath root_prefix = [] \<or>
      ignore_append_state avail chain program dirpath root_prefix = ?s \<or>
      (\<exists>r. ignore_append_state avail chain program dirpath root_prefix = (hd ?s)\<lparr>il_root_prefix := Some r\<rparr> # tl ?s)"
    unfolding ignore_append_state_def Let_def Some option.case by (cases dirpath; cases root_prefix) auto
  ultimately show ?thesis using wf chain_wf.simps(1) by metis
qed

lemma chain_wf_clone: "chain_wf state \<Longrightarrow> chain_wf (ignore_state_clone_chain avail state)"
proof (induction state)
  case (Cons level parents)
  let ?parent = "ignore_state_clone_chain avail parents"
  let ?s = "ignore_state_init ?parent (il_dirpath level) (il_program level)"
  have "chain_wf ?s" using Cons by (intro chain_wf_init) simp_all
  then have "chain_wf ((hd ?s)\<lparr>il_root_prefix := r\<rparr> # tl ?s)" for r
    using chain_wf_prefix [of "hd ?s" "tl ?s"] init_parts(1,4) by metis
  moreover have "ignore_state_clone_chain avail (level # parents) = [] \<or>
      ignore_state_clone_chain avail (level # parents) = (hd ?s)\<lparr>il_root_prefix := il_root_prefix level\<rparr> # tl ?s"
    unfolding ignore_state_clone_chain.simps Let_def by presburger
  ultimately show ?case using chain_wf.simps(1) by metis
qed simp

lemma rewrite_level_keeps:
  "rewrite_level avail cur sub level = Some level' \<Longrightarrow> \<exists>r. level' = level\<lparr>il_root_prefix := r\<rparr>"
  by (auto simp: rewrite_level_def Let_def split: if_splits option.splits)

lemma rewrite_keeps:
  "rewrite_root_prefixes avail cur sub state = Some state' \<Longrightarrow>
    list_all2 (\<lambda>l l'. \<exists>r. l' = l\<lparr>il_root_prefix := r\<rparr>) state state'"
proof (induction state arbitrary: state')
  case (Cons level parents)
  then show ?case using rewrite_level_keeps by (fastforce split: option.splits)
qed simp

lemma chain_wf_same:
  "list_all2 (\<lambda>l l'. \<exists>r. l' = l\<lparr>il_root_prefix := r\<rparr>) state state' \<Longrightarrow> chain_wf state \<Longrightarrow> chain_wf state'"
proof (induction rule: list_all2_induct)
  case (Cons l ls l' ls')
  have "list_all (\<lambda>l. case il_program l of None \<Rightarrow> True | Some p \<Rightarrow> ip_basename_only p) ls' =
      list_all (\<lambda>l. case il_program l of None \<Rightarrow> True | Some p \<Rightarrow> ip_basename_only p) ls"
    "list_ex (\<lambda>l. case il_program l of None \<Rightarrow> False | Some p \<Rightarrow> has_generic_glob_fallback p) ls' =
      list_ex (\<lambda>l. case il_program l of None \<Rightarrow> False | Some p \<Rightarrow> has_generic_glob_fallback p) ls"
    using Cons(2) by (induction rule: list_all2_induct) auto
  then show ?case using Cons by auto
qed simp

lemma chain_wf_subtree: "chain_wf state \<Longrightarrow> chain_wf (ignore_state_clone_chain_for_subtree avail state cur sub)"
proof -
  assume "chain_wf state"
  then have c: "chain_wf (ignore_state_clone_chain avail state)" by (rule chain_wf_clone)
  show ?thesis
  proof (cases "rewrite_root_prefixes avail cur sub (ignore_state_clone_chain avail state)")
    case None
    then show ?thesis by (simp add: ignore_state_clone_chain_for_subtree_def Let_def)
  next
    case (Some state')
    then have "chain_wf state'" using chain_wf_same [OF rewrite_keeps c] by blast
    then show ?thesis using Some by (simp add: ignore_state_clone_chain_for_subtree_def Let_def)
  qed
qed

section \<open>A chain moved to a subtree\<close>

definition all_lifetime :: "ignore_state \<Rightarrow> bool" where
  "all_lifetime state \<longleftrightarrow> list_all (\<lambda>l. case il_program l of None \<Rightarrow> True | Some p \<Rightarrow> ip_process_lifetime p) state"

lemma level_eqI:
  assumes "il_dirpath a = il_dirpath b" "il_root_prefix a = il_root_prefix b" "il_program a = il_program b"
    "il_basename_only_chain a = il_basename_only_chain b" "il_has_generic_glob_fallback_chain a = il_has_generic_glob_fallback_chain b"
  shows "a = (b :: ignore_level)"
  using assms by simp

lemma clone_all:
  assumes "chain_wf state" and "all_lifetime state"
  shows "ignore_state_clone_chain (\<lambda>_. True) state = state"
  using assms
proof (induction state)
  case (Cons level parents)
  have "ignore_state_clone_chain (\<lambda>_. True) parents = parents" using Cons by (simp add: all_lifetime_def)
  moreover have "(hd (ignore_state_init parents (il_dirpath level) (il_program level)))\<lparr>il_root_prefix := il_root_prefix level\<rparr> = level"
    by (rule level_eqI; use Cons.prems(1) in \<open>cases parents; auto simp: ignore_state_init_def split: option.splits\<close>)
  ultimately show ?case using Cons.prems(2) by (auto simp: Let_def init_parts(4) all_lifetime_def split: option.splits)
qed simp

text \<open>A path below the current root: the path of the subtree in it, and what follows.\<close>

definition join_path :: "string \<Rightarrow> string \<Rightarrow> string" where
  "join_path a b = (if a = [] then b else if b = [] then a else a @ CHR ''/'' # b)"

definition anchored_level :: "ignore_level \<Rightarrow> bool" where
  "anchored_level level \<longleftrightarrow> (il_dirpath level = None \<longleftrightarrow> il_root_prefix level \<noteq> None)"

lemma rewrite_level_path:
  assumes "anchored_level level" and "root_suffix (Some cur) (Some sub) = Some suffix"
  shows "\<exists>level'. rewrite_level (\<lambda>_. True) (Some cur) (Some sub) level = Some level' \<and> il_program level' = il_program level \<and>
    level_path (\<lambda>_. True) level' path (Some rest) = level_path (\<lambda>_. True) level path (Some (join_path suffix rest))"
proof (cases "il_dirpath level")
  case (Some d)
  then have "il_root_prefix level = None" using assms(1) by (simp add: anchored_level_def)
  then show ?thesis using Some by (simp add: rewrite_level_def level_path_def ignore_state_relative_path_def Let_def)
next
  case None
  then obtain r where "il_root_prefix level = Some r" using assms(1) by (auto simp: anchored_level_def)
  then show ?thesis using None assms(2)
    by (auto simp: rewrite_level_def level_path_def ignore_state_relative_path_def Let_def join_path_def)
qed

lemma rewrite_match:
  assumes "list_all anchored_level state" and "root_suffix (Some cur) (Some sub) = Some suffix"
  shows "\<exists>state'. rewrite_root_prefixes (\<lambda>_. True) (Some cur) (Some sub) state = Some state' \<and>
    (\<forall>mode path. state_match_with_mode (\<lambda>_. True) mode state' name path (Some rest) is_dir =
      state_match_with_mode (\<lambda>_. True) mode state name path (Some (join_path suffix rest)) is_dir)"
  using assms(1)
proof (induction state)
  case (Cons level parents)
  then obtain ps where ps: "rewrite_root_prefixes (\<lambda>_. True) (Some cur) (Some sub) parents = Some ps"
    "\<And>mode path. state_match_with_mode (\<lambda>_. True) mode ps name path (Some rest) is_dir =
      state_match_with_mode (\<lambda>_. True) mode parents name path (Some (join_path suffix rest)) is_dir" by auto
  have "rewrite_level (\<lambda>_. True) (Some cur) (Some sub) level \<noteq> None"
    using rewrite_level_path [OF _ assms(2), of level] Cons.prems by fastforce
  then obtain l where l: "rewrite_level (\<lambda>_. True) (Some cur) (Some sub) level = Some l" by blast
  have "il_program l = il_program level"
    "level_path (\<lambda>_. True) l path (Some rest) = level_path (\<lambda>_. True) level path (Some (join_path suffix rest))" for path
    using rewrite_level_path [OF _ assms(2), of level path rest] Cons.prems l by auto
  then show ?case using ps l by (intro exI [of _ "l # ps"]) (auto simp: Let_def split: option.splits)
qed simp

lemma subtree_match:
  assumes "chain_wf state" and "all_lifetime state" and "list_all anchored_level state"
    and "root_suffix (Some cur) (Some sub) = Some suffix"
  shows "state_match_with_mode (\<lambda>_. True) mode (ignore_state_clone_chain_for_subtree (\<lambda>_. True) state (Some cur) (Some sub))
      name path (Some rest) is_dir =
    state_match_with_mode (\<lambda>_. True) mode state name path (Some (join_path suffix rest)) is_dir"
proof -
  have c: "ignore_state_clone_chain (\<lambda>_. True) state = state" using assms(1,2) by (rule clone_all)
  show ?thesis
  proof (cases "state = []")
    case True
    then show ?thesis by (simp add: ignore_state_clone_chain_for_subtree_def)
  next
    case False
    obtain state' where "rewrite_root_prefixes (\<lambda>_. True) (Some cur) (Some sub) state = Some state'"
      "state_match_with_mode (\<lambda>_. True) mode state' name path (Some rest) is_dir =
      state_match_with_mode (\<lambda>_. True) mode state name path (Some (join_path suffix rest)) is_dir"
      using rewrite_match [OF assms(3,4), of name rest is_dir] by blast
    then show ?thesis using False c by (simp add: ignore_state_clone_chain_for_subtree_def Let_def)
  qed
qed

section \<open>Properties\<close>

text \<open>
  C23: the cache is transparent. Whatever other threads put into it between the two locked sections, a
  program for some lines is the one that compiling the lines gives, marked as shared when it comes from
  the cache, and the cache stays faithful.
\<close>

theorem ignore_cache_transparent:
  assumes "list_all entry_ok before" and "list_all entry_ok snapshot" and "one_line patterns sources"
  shows "case program_from_patterns (\<lambda>_. True) before snapshot patterns sources casefold of (program, snapshot') \<Rightarrow>
    map_option make_process_lifetime program = map_option make_process_lifetime (compiled patterns sources casefold) \<and>
    list_all entry_ok snapshot'"
  using assms by (rule program_from_patterns_sim)

theorem ignore_cache_transparent_witness:
  "list_all entry_ok (snd (program_from_patterns (\<lambda>_. True) [] [] [Some ''*.o''] None False))"
proof -
  have "one_line [Some ''*.o''] None" by (simp add: one_line_def sourced_lines_def List.map_filter_simps)
  from ignore_cache_transparent [OF _ _ this, of "[]" "[]" False] show ?thesis by (simp split: prod.splits)
qed

text \<open>
  C24: the flags that the walk reads off the head of a chain are right for every chain that the operations
  build: a chain of one more directory, an appended state, a copy and a copy for a subtree.
\<close>

theorem ignore_chain_flags:
  assumes "chain_wf chain" and "case program of None \<Rightarrow> True | Some p \<Rightarrow> program_wf p"
  shows "chain_wf (ignore_state_init chain dirpath program) \<and> chain_wf (ignore_append_state avail chain program dirpath root_prefix) \<and>
    chain_wf (ignore_state_clone_chain avail chain) \<and> chain_wf (ignore_state_clone_chain_for_subtree avail chain cur sub)"
  using chain_wf_init [OF assms] chain_wf_append [OF assms] chain_wf_clone [OF assms(1)] chain_wf_subtree [OF assms(1)] by blast

text \<open>A program shared through the cache, and a chain with it.\<close>

definition sample_shared :: "ignore_program option" where
  "sample_shared = map_option make_process_lifetime (compiled [Some ''r/s/x''] None False)"

lemma sample_shared_ok: "sample_shared \<noteq> None" "sample_shared = Some p \<Longrightarrow> program_wf p \<and> ip_process_lifetime p"
proof -
  show "sample_shared \<noteq> None" by code_simp
  assume "sample_shared = Some p"
  then obtain q where q: "compiled [Some ''r/s/x''] None False = Some q" "p = make_process_lifetime q" by (auto simp: sample_shared_def)
  have "list_all (\<lambda>l. case l of None \<Rightarrow> True | Some t \<Rightarrow> c_string t) [Some ''r/s/x'']" by simp
  then have "program_wf q" using ignore_program_compile_wf [OF q(1)] by blast
  then show "program_wf p \<and> ip_process_lifetime p" by (simp add: q(2) make_process_lifetime_def program_wf_def)
qed

definition sample_chain :: ignore_state where
  "sample_chain = ignore_append_state (\<lambda>_. True) [] sample_shared None (Some ''r'')"

lemma sample_chain_ok: "chain_wf sample_chain" "all_lifetime sample_chain" "list_all anchored_level sample_chain"
proof -
  obtain p where p: "sample_shared = Some p" "program_wf p" "ip_process_lifetime p" using sample_shared_ok by blast
  have "chain_wf (ignore_append_state (\<lambda>_. True) [] (Some p) None (Some ''r''))" by (rule chain_wf_append) (simp_all add: p)
  then show "chain_wf sample_chain" by (simp add: sample_chain_def p)
  show "all_lifetime sample_chain" "list_all anchored_level sample_chain"
    by (simp_all add: sample_chain_def p ignore_append_state_def ignore_state_init_def all_lifetime_def anchored_level_def)
qed

theorem ignore_chain_flags_witness:
  "chain_wf (ignore_state_clone_chain_for_subtree (\<lambda>_. True) sample_chain (Some ''/w/r'') (Some ''/w/r/s''))"
  using ignore_chain_flags [OF sample_chain_ok(1), of None] by simp



text \<open>
  A level without a directory and without a prefix, as an explicit ignore file has it, matches the whole
  path before the move and the path below the root after it.
\<close>

lemma subtree_explicit_file_differs:
  "(let chain = ignore_append_state (\<lambda>_. True) [] (map_option make_process_lifetime (compiled [Some ''s/x''] None False)) None None in
    (state_match_with_mode (\<lambda>_. True) MODE_FULL chain ''x'' ''/w/r/s/x'' (Some ''s/x'') False,
     state_match_with_mode (\<lambda>_. True) MODE_FULL
       (ignore_state_clone_chain_for_subtree (\<lambda>_. True) chain (Some ''/w/r'') (Some ''/w/r/s'')) ''x'' ''/w/r/s/x'' (Some ''x'') False)) =
   (IGNORE_NO_MATCH, IGNORE_EXCLUDE)"
  by code_simp

text \<open>A parent that cannot be copied is left out of the copy, with all its own parents.\<close>

lemma clone_drops_parents:
  "(let p = the (compiled [Some ''*.o''] None False);
        chain = ignore_state_init (ignore_state_init [] (Some ''/r'') (Some p)) (Some ''/r/s'') None in
    (length chain, length (ignore_state_clone_chain (\<lambda>_. True) chain))) = (2, 1)"
  by code_simp

end
