(* ===== verification/WalkFilter.thy ===== *)
theory WalkFilter
  imports IgnoreState
begin

text \<open>
  \<open>src/src/search/filter.c\<close> and the type tests of \<open>src/src/search/metadata.c\<close>: whether the walk skips an
  entry, and whether it selects it. What the file system would say of the entry is the record
  \<open>walk_facts\<close>; it is asked only where the code asks. The development counters are left out.
\<close>

section \<open>Entries and their types\<close>

datatype file_type = FT_REG | FT_DIR | FT_LNK | FT_FIFO | FT_SOCK | FT_BLK | FT_CHR

text \<open>\<open>we_d_type\<close> is what the directory said of the type, if it said it.\<close>

record walk_entry =
  we_path :: string
  we_d_type :: "file_type option"
  we_is_dir :: bool

text \<open>The type and size of \<open>lstat\<close> or \<open>stat\<close>, \<open>access (X_OK)\<close>, and the names in the directory; \<open>None\<close> is a failed call.\<close>

record walk_facts =
  wf_stat :: "(file_type \<times> int) option"
  wf_access_x :: bool
  wf_names :: "string list option"

datatype type_match = TYPE_MATCH_NO | TYPE_MATCH_YES | TYPE_MATCH_DEFER_METADATA

definition mode_is :: "walk_facts \<Rightarrow> file_type \<Rightarrow> bool" where
  "mode_is facts t \<longleftrightarrow> (case wf_stat facts of None \<Rightarrow> False | Some (u, _) \<Rightarrow> u = t)"

definition matches_known_dtype :: "walk_facts \<Rightarrow> walk_entry \<Rightarrow> file_type \<Rightarrow> bool" where
  "matches_known_dtype facts entry t = (case we_d_type entry of Some u \<Rightarrow> u = t | None \<Rightarrow> mode_is facts t)"

definition known_dtype_match :: "walk_entry \<Rightarrow> file_type \<Rightarrow> type_match" where
  "known_dtype_match entry t =
     (case we_d_type entry of
        Some u \<Rightarrow> if u = t then TYPE_MATCH_YES else TYPE_MATCH_NO
      | None \<Rightarrow> TYPE_MATCH_DEFER_METADATA)"

definition matches_type_without_metadata :: "walk_entry \<Rightarrow> char \<Rightarrow> type_match" where
  "matches_type_without_metadata entry filter_char =
     (if filter_char = CHR ''f'' then known_dtype_match entry FT_REG
      else if filter_char = CHR ''d'' then (if we_is_dir entry then TYPE_MATCH_YES else TYPE_MATCH_NO)
      else if filter_char = CHR ''l'' then known_dtype_match entry FT_LNK
      else if filter_char = CHR ''x'' then
        (if we_d_type entry \<noteq> None \<and> we_d_type entry \<noteq> Some FT_REG then TYPE_MATCH_NO else TYPE_MATCH_DEFER_METADATA)
      else if filter_char = CHR ''e'' then
        (if we_is_dir entry then TYPE_MATCH_DEFER_METADATA
         else if we_d_type entry \<noteq> None then
           (if we_d_type entry = Some FT_REG then TYPE_MATCH_DEFER_METADATA else TYPE_MATCH_NO)
         else TYPE_MATCH_DEFER_METADATA)
      else if filter_char = CHR ''p'' then known_dtype_match entry FT_FIFO
      else if filter_char = CHR ''s'' then known_dtype_match entry FT_SOCK
      else if filter_char = CHR ''b'' then known_dtype_match entry FT_BLK
      else if filter_char = CHR ''c'' then known_dtype_match entry FT_CHR
      else TYPE_MATCH_NO)"

definition entry_is_empty :: "walk_facts \<Rightarrow> walk_entry \<Rightarrow> bool" where
  "entry_is_empty facts entry =
     (if we_is_dir entry then
        (case wf_names facts of
           None \<Rightarrow> False
         | Some names \<Rightarrow> list_all (\<lambda>n. n = ''.'' \<or> n = ''..'') names)
      else
        (case wf_stat facts of None \<Rightarrow> False | Some (t, sz) \<Rightarrow> t = FT_REG \<and> sz = 0))"

definition entry_matches_type :: "walk_facts \<Rightarrow> walk_entry \<Rightarrow> char \<Rightarrow> bool" where
  "entry_matches_type facts entry filter_char =
     (if filter_char = CHR ''f'' then matches_known_dtype facts entry FT_REG
      else if filter_char = CHR ''d'' then we_is_dir entry
      else if filter_char = CHR ''l'' then matches_known_dtype facts entry FT_LNK
      else if filter_char = CHR ''x'' then mode_is facts FT_REG \<and> wf_access_x facts
      else if filter_char = CHR ''e'' then entry_is_empty facts entry
      else if filter_char = CHR ''p'' then matches_known_dtype facts entry FT_FIFO
      else if filter_char = CHR ''s'' then matches_known_dtype facts entry FT_SOCK
      else if filter_char = CHR ''b'' then matches_known_dtype facts entry FT_BLK
      else if filter_char = CHR ''c'' then matches_known_dtype facts entry FT_CHR
      else False)"

section \<open>The filter\<close>

text \<open>An include pattern, and whether it alone folds case; the option tables of the patterns are one list.\<close>

record filter_opts =
  fo_hidden :: bool
  fo_type_filter :: char
  fo_glob_case_insensitive :: bool
  fo_include :: "(cstr \<times> bool) list"
  fo_exclude :: "cstr list"
  fo_exclude_dirs :: "string list"

record filter_state =
  fs_opts :: filter_opts
  fs_root_path :: cstr

definition filter_is_hidden :: "string \<Rightarrow> bool" where
  "filter_is_hidden name \<longleftrightarrow> c_char name 0 = CHR ''.''"

definition filter_relative_path :: "filter_state \<Rightarrow> string \<Rightarrow> string" where
  "filter_relative_path state path =
     (case fs_root_path state of
        None \<Rightarrow> path
      | Some root \<Rightarrow>
          let root_len = length root in
          if take root_len path \<noteq> root then path
          else if c_char path root_len = CHR ''/'' then drop (root_len + 1) path
          else if c_char path root_len = CHR 0x00 then drop root_len path
          else path)"

definition glob_applies :: "bool \<Rightarrow> string \<Rightarrow> string \<Rightarrow> cstr \<Rightarrow> bool" where
  "glob_applies casefold p name relative_path \<longleftrightarrow>
     p \<noteq> [] \<and> (c_fnmatch False casefold p name \<or>
       (case relative_path of None \<Rightarrow> False | Some r \<Rightarrow> r \<noteq> [] \<and> c_fnmatch True casefold p r))"

definition filter_matches_include_relative :: "filter_state \<Rightarrow> string \<Rightarrow> cstr \<Rightarrow> bool" where
  "filter_matches_include_relative state name relative_path \<longleftrightarrow>
     list_ex (\<lambda>(p, fold). case p of None \<Rightarrow> False
       | Some p \<Rightarrow> glob_applies (fo_glob_case_insensitive (fs_opts state) \<or> fold) p name relative_path)
       (fo_include (fs_opts state))"

definition filter_hidden_policy_should_skip :: "filter_state \<Rightarrow> string \<Rightarrow> string \<Rightarrow> bool" where
  "filter_hidden_policy_should_skip state name path \<longleftrightarrow>
     \<not> fo_hidden (fs_opts state) \<and> filter_is_hidden name \<and>
     \<not> filter_matches_include_relative state name (Some (filter_relative_path state path))"

definition filter_matches_exclude :: "filter_state \<Rightarrow> string \<Rightarrow> cstr \<Rightarrow> bool" where
  "filter_matches_exclude state name relative_path \<longleftrightarrow>
     list_ex (\<lambda>p. case p of None \<Rightarrow> False
       | Some p \<Rightarrow> glob_applies (fo_glob_case_insensitive (fs_opts state)) p name relative_path)
       (fo_exclude (fs_opts state))"

definition filter_matches_exclude_dir :: "filter_state \<Rightarrow> string \<Rightarrow> bool" where
  "filter_matches_exclude_dir state name \<longleftrightarrow>
     list_ex (\<lambda>p. c_fnmatch False (fo_glob_case_insensitive (fs_opts state)) p name) (fo_exclude_dirs (fs_opts state))"

definition filter_entry_matches_type :: "filter_state \<Rightarrow> walk_facts \<Rightarrow> walk_entry \<Rightarrow> bool" where
  "filter_entry_matches_type state facts entry =
     (if fo_type_filter (fs_opts state) = CHR 0x00 then True
      else entry_matches_type facts entry (fo_type_filter (fs_opts state)))"

definition filter_type_without_metadata :: "filter_state \<Rightarrow> walk_entry \<Rightarrow> type_match" where
  "filter_type_without_metadata state entry =
     (if fo_type_filter (fs_opts state) = CHR 0x00 then TYPE_MATCH_YES
      else matches_type_without_metadata entry (fo_type_filter (fs_opts state)))"

text \<open>
  The stages of the ignore rules before the globs: whether the entry is excluded, and, when it is not,
  whether no rule has decided.
\<close>

definition filter_literal_stages ::
  "(nat \<Rightarrow> bool) \<Rightarrow> ignore_state \<Rightarrow> string \<Rightarrow> string \<Rightarrow> cstr \<Rightarrow> bool \<Rightarrow> bool \<times> bool" where
  "filter_literal_stages avail chain name path relative_path is_dir =
     (let stage = (\<lambda>mode. state_match_with_mode avail mode chain name path relative_path is_dir);
          basename_ignore = stage MODE_LITERAL_BASENAME in
      if basename_ignore = IGNORE_EXCLUDE then (True, False)
      else if basename_ignore \<noteq> IGNORE_NO_MATCH then (False, False)
      else if is_basename_only_chain chain then (False, False)
      else
        let extension_ignore = stage MODE_LITERAL_EXTENSION in
        if extension_ignore = IGNORE_EXCLUDE then (True, False)
        else if extension_ignore \<noteq> IGNORE_NO_MATCH then (False, False)
        else
          let directory_ignore = stage MODE_LITERAL_DIRECTORY in
          if directory_ignore = IGNORE_EXCLUDE then (True, False)
          else if directory_ignore \<noteq> IGNORE_NO_MATCH then (False, False)
          else
            let anchored_prefix_ignore = stage MODE_ANCHORED_PREFIX in
            if anchored_prefix_ignore = IGNORE_EXCLUDE then (True, False)
            else if anchored_prefix_ignore \<noteq> IGNORE_NO_MATCH then (False, False)
            else (False, True))"

definition filter_glob_stage ::
  "(nat \<Rightarrow> bool) \<Rightarrow> ignore_state \<Rightarrow> string \<Rightarrow> string \<Rightarrow> cstr \<Rightarrow> bool \<Rightarrow> bool" where
  "filter_glob_stage avail chain name path relative_path is_dir \<longleftrightarrow>
     has_generic_glob_fallback_chain chain \<and>
     state_match_with_mode avail MODE_GENERIC_GLOB_FALLBACK chain name path relative_path is_dir = IGNORE_EXCLUDE"

definition path_basename_ptr :: "string \<Rightarrow> string" where
  "path_basename_ptr path = rev (takeWhile (\<lambda>c. c \<noteq> CHR ''/'') (rev path))"

text \<open>Whether the entry is skipped, and whether it is selected.\<close>

definition filter_should_skip ::
  "(nat \<Rightarrow> bool) \<Rightarrow> filter_state \<Rightarrow> walk_facts \<Rightarrow> walk_entry \<Rightarrow> ignore_state \<Rightarrow> bool \<times> bool" where
  "filter_should_skip avail state facts entry chain =
     (let name = path_basename_ptr (we_path entry); path = we_path entry in
      if filter_hidden_policy_should_skip state name path then (True, True)
      else
        let type_match = filter_type_without_metadata state entry in
        if type_match = TYPE_MATCH_NO \<and> \<not> we_is_dir entry then (False, False)
        else
          let relative_path = Some (filter_relative_path state path);
              entry_selected = (type_match \<noteq> TYPE_MATCH_NO);
              (excluded, undecided) = filter_literal_stages avail chain name path relative_path (we_is_dir entry) in
          if excluded then (True, True)
          else
            let entry_selected =
                  (if type_match = TYPE_MATCH_DEFER_METADATA then filter_entry_matches_type state facts entry
                   else entry_selected) in
            if type_match = TYPE_MATCH_DEFER_METADATA \<and> \<not> entry_selected \<and> \<not> we_is_dir entry then (False, False)
            else if undecided \<and> filter_glob_stage avail chain name path relative_path (we_is_dir entry) then (True, True)
            else if filter_matches_exclude_dir state name then (True, True)
            else if filter_matches_exclude state name relative_path then (True, True)
            else (False, entry_selected))"

section \<open>Types\<close>

text \<open>The type in the directory is that of the file, when the file can be asked.\<close>

definition facts_agree :: "walk_facts \<Rightarrow> walk_entry \<Rightarrow> bool" where
  "facts_agree facts entry \<longleftrightarrow> (case (we_d_type entry, wf_stat facts) of (Some t, Some (u, _)) \<Rightarrow> t = u | _ \<Rightarrow> True)"

lemma type_agrees:
  assumes "facts_agree facts entry"
  shows "case matches_type_without_metadata entry c of
      TYPE_MATCH_YES \<Rightarrow> entry_matches_type facts entry c
    | TYPE_MATCH_NO \<Rightarrow> \<not> entry_matches_type facts entry c
    | TYPE_MATCH_DEFER_METADATA \<Rightarrow> True"
proof -
  have known: "case known_dtype_match entry t of TYPE_MATCH_YES \<Rightarrow> matches_known_dtype facts entry t
      | TYPE_MATCH_NO \<Rightarrow> \<not> matches_known_dtype facts entry t | TYPE_MATCH_DEFER_METADATA \<Rightarrow> True" for t
    by (simp add: known_dtype_match_def matches_known_dtype_def split: option.splits)
  have x: "\<not> mode_is facts FT_REG" if "we_d_type entry \<noteq> None" "we_d_type entry \<noteq> Some FT_REG"
    using assms that by (auto simp: facts_agree_def mode_is_def split: option.splits)
  have e: "\<not> entry_is_empty facts entry" if "\<not> we_is_dir entry" "we_d_type entry \<noteq> None" "we_d_type entry \<noteq> Some FT_REG"
    using x that by (auto simp: entry_is_empty_def mode_is_def split: option.splits)
  note [simp del] = type_match.case_cong_weak
  show ?thesis
    using known x e unfolding matches_type_without_metadata_def entry_matches_type_def
    by (simp split: if_split)
qed

section \<open>The stages of one deciding level\<close>

lemma mode_quiet:
  "mode_match MODE_FULL program name relative_path is_dir = IGNORE_NO_MATCH \<Longrightarrow>
    mode_match mode program name relative_path is_dir = IGNORE_NO_MATCH"
  by (cases program; cases mode)
    (auto simp: mode_match_def ignore_program_match_def match_without_generic_glob_fallback_def Let_def split: if_splits)

lemma level_path_some: "\<exists>p. level_path (\<lambda>_. True) level path root_relative_path = Some p"
  by (simp add: level_path_def Let_def split: option.splits)

definition level_match :: "ignore_match_mode \<Rightarrow> ignore_level \<Rightarrow> string \<Rightarrow> string \<Rightarrow> cstr \<Rightarrow> bool \<Rightarrow> ignore_match_result" where
  "level_match mode level name path root_relative_path is_dir =
     mode_match mode (il_program level) name (the (level_path (\<lambda>_. True) level path root_relative_path)) is_dir"

lemma match_result_cases: "r = IGNORE_EXCLUDE \<or> r = IGNORE_INCLUDE \<longleftrightarrow> r \<noteq> IGNORE_NO_MATCH"
  by (cases r) auto

lemma state_match_levels:
  "state_match_with_mode (\<lambda>_. True) mode (level # parents) name path rr is_dir =
    (if level_match mode level name path rr is_dir \<noteq> IGNORE_NO_MATCH then level_match mode level name path rr is_dir
     else state_match_with_mode (\<lambda>_. True) mode parents name path rr is_dir)"
  using level_path_some [of level path rr] by (auto simp: level_match_def match_result_cases Let_def)

lemma level_quiet:
  "level_match MODE_FULL level name path rr is_dir = IGNORE_NO_MATCH \<Longrightarrow> level_match mode level name path rr is_dir = IGNORE_NO_MATCH"
  unfolding level_match_def by (rule mode_quiet)

lemma state_match_quiet:
  "\<forall>l \<in> set chain. level_match mode l name path rr is_dir = IGNORE_NO_MATCH \<Longrightarrow>
    state_match_with_mode (\<lambda>_. True) mode chain name path rr is_dir = IGNORE_NO_MATCH"
  by (induction chain) (simp_all add: state_match_levels del: state_match_with_mode.simps(2))

lemma state_match_one:
  assumes "length (filter (\<lambda>l. level_match MODE_FULL l name path rr is_dir \<noteq> IGNORE_NO_MATCH) chain) \<le> 1"
  shows "(\<forall>mode. state_match_with_mode (\<lambda>_. True) mode chain name path rr is_dir = IGNORE_NO_MATCH) \<or>
    (\<exists>l \<in> set chain. \<forall>mode. state_match_with_mode (\<lambda>_. True) mode chain name path rr is_dir = level_match mode l name path rr is_dir)"
  using assms
proof (induction chain)
  case (Cons level parents)
  show ?case
  proof (cases "level_match MODE_FULL level name path rr is_dir = IGNORE_NO_MATCH")
    case True
    then have "\<forall>mode. level_match mode level name path rr is_dir = IGNORE_NO_MATCH" using level_quiet by blast
    then show ?thesis using Cons True by (auto simp: state_match_levels simp del: state_match_with_mode.simps(2))
  next
    case False
    then have "\<forall>l \<in> set parents. level_match MODE_FULL l name path rr is_dir = IGNORE_NO_MATCH"
      using Cons.prems by (auto simp: filter_empty_conv)
    then have "state_match_with_mode (\<lambda>_. True) mode parents name path rr is_dir = IGNORE_NO_MATCH" for mode
      using state_match_quiet level_quiet by blast
    then have "\<forall>mode. state_match_with_mode (\<lambda>_. True) mode (level # parents) name path rr is_dir = level_match mode level name path rr is_dir"
      by (simp add: state_match_levels del: state_match_with_mode.simps(2))
    then show ?thesis by auto
  qed
qed simp

section \<open>The flags of the chain\<close>

lemma table_empty: "\<not> (\<exists>r \<in> set rules. ir_kind r = kind) \<Longrightarrow> build_table avail casefold kind key rules = Some T \<Longrightarrow> T = []"
proof -
  assume a: "\<not> (\<exists>r \<in> set rules. ir_kind r = kind)" and b: "build_table avail casefold kind key rules = Some T"
  have "table_candidates kind key rules = []" using a by (auto simp: table_candidates_def filter_empty_conv in_set_enumerate_eq)
  then show "T = []" using b by (simp add: build_table_def)
qed

lemma extension_loop_empty: "ip_literal_extensions p = [] \<Longrightarrow> extension_loop p best s = best"
  by (induction s) (simp_all add: find_literal_extension_exact_def table_find_loop.simps)

lemma basename_only_quiet:
  assumes "program_wf p" and "ip_basename_only p"
  shows "match_literal_extension p name rel is_dir = IGNORE_NO_MATCH" "match_literal_directory p name rel is_dir = IGNORE_NO_MATCH"
    "match_anchored_prefix p name rel is_dir = IGNORE_NO_MATCH" "match_generic_glob_fallback p name rel is_dir = IGNORE_NO_MATCH"
proof -
  have k: "\<forall>r \<in> set (ip_rules p). ir_kind r = RULE_LITERAL_BASENAME" using assms by (simp add: program_wf_def list_all_iff)
  have "ip_literal_extensions p = []" "ip_literal_directories p = []"
    using assms(1) k table_empty [of "ip_rules p"] unfolding program_wf_def by (metis ignore_rule_kind.distinct)+
  moreover have "ip_anchored_prefixes p = []"
    using assms(1) k by (auto simp: program_wf_def prefix_candidates_def filter_empty_conv in_set_enumerate_eq)
  moreover have "\<not> has_generic_glob_fallback p" using assms(1) k by (auto simp: program_wf_def has_generic_glob_fallback_def)
  ultimately show "match_literal_extension p name rel is_dir = IGNORE_NO_MATCH" "match_literal_directory p name rel is_dir = IGNORE_NO_MATCH"
    "match_anchored_prefix p name rel is_dir = IGNORE_NO_MATCH" "match_generic_glob_fallback p name rel is_dir = IGNORE_NO_MATCH"
    by (simp_all add: match_literal_extension_def find_literal_extension_def extension_loop_empty match_literal_directory_def
        find_literal_directory_def table_find_loop.simps match_anchored_prefix_def find_anchored_prefix_def match_generic_glob_fallback_def
        split: option.splits)
qed

lemma chain_flag_basename:
  assumes "chain_wf chain" and "is_basename_only_chain chain" and "l \<in> set chain"
    and "mode = MODE_LITERAL_EXTENSION \<or> mode = MODE_LITERAL_DIRECTORY \<or> mode = MODE_ANCHORED_PREFIX \<or> mode = MODE_GENERIC_GLOB_FALLBACK"
  shows "level_match mode l name path rr is_dir = IGNORE_NO_MATCH"
proof -
  have wf: "list_all (\<lambda>l. case il_program l of None \<Rightarrow> True | Some p \<Rightarrow> program_wf p) ls" if "chain_wf ls" for ls
    using that by (induction ls) auto
  obtain level parents where c: "chain = level # parents" using assms(3) by (cases chain) auto
  have "list_all (\<lambda>l. case il_program l of None \<Rightarrow> True | Some p \<Rightarrow> ip_basename_only p) chain"
    using assms(1,2) unfolding c by (simp add: is_basename_only_chain_def)
  then have "case il_program l of None \<Rightarrow> True | Some p \<Rightarrow> ip_basename_only p" "case il_program l of None \<Rightarrow> True | Some p \<Rightarrow> program_wf p"
    using wf [OF assms(1)] assms(3) by (simp_all add: list_all_iff)
  then show ?thesis using assms(4) basename_only_quiet by (auto simp: level_match_def mode_match_def split: option.splits)
qed

lemma chain_flag_generic:
  assumes "chain_wf chain" and "\<not> has_generic_glob_fallback_chain chain" and "l \<in> set chain"
  shows "level_match MODE_GENERIC_GLOB_FALLBACK l name path rr is_dir = IGNORE_NO_MATCH"
proof -
  obtain level parents where c: "chain = level # parents" using assms(3) by (cases chain) auto
  have "\<not> list_ex (\<lambda>l. case il_program l of None \<Rightarrow> False | Some p \<Rightarrow> has_generic_glob_fallback p) chain"
    using assms(1,2) unfolding c by (simp add: has_generic_glob_fallback_chain_def)
  then have "case il_program l of None \<Rightarrow> True | Some p \<Rightarrow> \<not> has_generic_glob_fallback p"
    using assms(3) by (auto simp: list_ex_iff split: option.splits)
  then show ?thesis by (auto simp: level_match_def mode_match_def match_generic_glob_fallback_def split: option.splits)
qed

text \<open>The stages over the whole chain, as the walk runs them.\<close>

definition filter_ignores :: "ignore_state \<Rightarrow> string \<Rightarrow> string \<Rightarrow> cstr \<Rightarrow> bool \<Rightarrow> bool" where
  "filter_ignores chain name path relative_path is_dir \<longleftrightarrow>
     (case filter_literal_stages (\<lambda>_. True) chain name path relative_path is_dir of (excluded, undecided) \<Rightarrow>
        excluded \<or> undecided \<and> filter_glob_stage (\<lambda>_. True) chain name path relative_path is_dir)"

text \<open>At most one level of the chain says anything about the path.\<close>

definition one_level_decides :: "ignore_state \<Rightarrow> string \<Rightarrow> string \<Rightarrow> cstr \<Rightarrow> bool \<Rightarrow> bool" where
  "one_level_decides chain name path relative_path is_dir \<longleftrightarrow>
     length (filter (\<lambda>l. level_match MODE_FULL l name path relative_path is_dir \<noteq> IGNORE_NO_MATCH) chain) \<le> 1"

lemma level_match_full:
  "level_match MODE_FULL l name path rr is_dir =
    (let m = (\<lambda>mode. level_match mode l name path rr is_dir) in
     if m MODE_LITERAL_BASENAME \<noteq> IGNORE_NO_MATCH then m MODE_LITERAL_BASENAME
     else if m MODE_LITERAL_EXTENSION \<noteq> IGNORE_NO_MATCH then m MODE_LITERAL_EXTENSION
     else if m MODE_LITERAL_DIRECTORY \<noteq> IGNORE_NO_MATCH then m MODE_LITERAL_DIRECTORY
     else if m MODE_ANCHORED_PREFIX \<noteq> IGNORE_NO_MATCH then m MODE_ANCHORED_PREFIX
     else m MODE_GENERIC_GLOB_FALLBACK)"
  by (cases "il_program l")
    (simp_all add: level_match_def mode_match_def ignore_program_match_def match_without_generic_glob_fallback_def Let_def)

lemma filter_ignores_one:
  assumes wf: "chain_wf chain" and one: "one_level_decides chain name path relative_path is_dir"
  shows "filter_ignores chain name path relative_path is_dir \<longleftrightarrow>
    state_matches_path (\<lambda>_. True) chain name path relative_path is_dir"
proof -
  let ?s = "\<lambda>mode. state_match_with_mode (\<lambda>_. True) mode chain name path relative_path is_dir"
  have cases: "(\<forall>mode. ?s mode = IGNORE_NO_MATCH) \<or> (\<exists>l \<in> set chain. \<forall>mode. ?s mode = level_match mode l name path relative_path is_dir)"
    using state_match_one one unfolding one_level_decides_def .
  have f: "filter_ignores chain name path relative_path is_dir \<longleftrightarrow>
      (let full = (if ?s MODE_LITERAL_BASENAME \<noteq> IGNORE_NO_MATCH then ?s MODE_LITERAL_BASENAME
        else if is_basename_only_chain chain then IGNORE_NO_MATCH
        else if ?s MODE_LITERAL_EXTENSION \<noteq> IGNORE_NO_MATCH then ?s MODE_LITERAL_EXTENSION
        else if ?s MODE_LITERAL_DIRECTORY \<noteq> IGNORE_NO_MATCH then ?s MODE_LITERAL_DIRECTORY
        else if ?s MODE_ANCHORED_PREFIX \<noteq> IGNORE_NO_MATCH then ?s MODE_ANCHORED_PREFIX
        else if has_generic_glob_fallback_chain chain then ?s MODE_GENERIC_GLOB_FALLBACK else IGNORE_NO_MATCH) in full = IGNORE_EXCLUDE)"
    unfolding filter_ignores_def filter_literal_stages_def filter_glob_stage_def Let_def by (simp split: if_split)
  from cases show ?thesis
  proof
    assume "\<forall>mode. ?s mode = IGNORE_NO_MATCH"
    then show ?thesis unfolding f state_matches_path_def by (simp add: Let_def)
  next
    assume "\<exists>l \<in> set chain. \<forall>mode. ?s mode = level_match mode l name path relative_path is_dir"
    then obtain l where l: "l \<in> set chain" "\<And>mode. ?s mode = level_match mode l name path relative_path is_dir" by blast
    note b = chain_flag_basename [OF wf _ l(1)] and g = chain_flag_generic [OF wf _ l(1)]
    show ?thesis unfolding f state_matches_path_def l(2) using b g by (auto simp: level_match_full Let_def)
  qed
qed

section \<open>What the walk selects\<close>

lemma filter_should_skip_sim:
  assumes wf: "chain_wf chain" and facts: "facts_agree facts entry"
    and one: "one_level_decides chain (path_basename_ptr (we_path entry)) (we_path entry)
      (Some (filter_relative_path state (we_path entry))) (we_is_dir entry)"
  shows "case filter_should_skip (\<lambda>_. True) state facts entry chain of (skip, selected) \<Rightarrow>
    (let name = path_basename_ptr (we_path entry); rel = Some (filter_relative_path state (we_path entry));
         out = filter_hidden_policy_should_skip state name (we_path entry) \<or>
           state_matches_path (\<lambda>_. True) chain name (we_path entry) rel (we_is_dir entry) \<or>
           filter_matches_exclude_dir state name \<or> filter_matches_exclude state name rel in
     (\<not> skip \<and> selected \<longleftrightarrow> \<not> out \<and> filter_entry_matches_type state facts entry) \<and>
     (we_is_dir entry \<longrightarrow> (skip \<longleftrightarrow> out)))"
proof -
  let ?name = "path_basename_ptr (we_path entry)" and ?rel = "Some (filter_relative_path state (we_path entry))"
  obtain ex und where st: "filter_literal_stages (\<lambda>_. True) chain ?name (we_path entry) ?rel (we_is_dir entry) = (ex, und)" by force
  have ig: "state_matches_path (\<lambda>_. True) chain ?name (we_path entry) ?rel (we_is_dir entry) \<longleftrightarrow>
      ex \<or> und \<and> filter_glob_stage (\<lambda>_. True) chain ?name (we_path entry) ?rel (we_is_dir entry)"
    using filter_ignores_one [OF wf one] st by (simp add: filter_ignores_def)
  have ty: "case filter_type_without_metadata state entry of
      TYPE_MATCH_YES \<Rightarrow> filter_entry_matches_type state facts entry
    | TYPE_MATCH_NO \<Rightarrow> \<not> filter_entry_matches_type state facts entry | TYPE_MATCH_DEFER_METADATA \<Rightarrow> True"
    using type_agrees [OF facts, of "fo_type_filter (fs_opts state)"] by (simp add: filter_type_without_metadata_def filter_entry_matches_type_def split: type_match.splits)
  show ?thesis
    using ty unfolding filter_should_skip_def Let_def st ig by (cases "filter_type_without_metadata state entry") auto
qed

section \<open>Properties\<close>


definition sample_filter :: filter_state where
  "sample_filter =
     \<lparr>fs_opts = \<lparr>fo_hidden = False, fo_type_filter = CHR ''f'', fo_glob_case_insensitive = False,
                 fo_include = [], fo_exclude = [Some ''*.bak''], fo_exclude_dirs = []\<rparr>,
      fs_root_path = Some ''/w/r''\<rparr>"

definition sample_entry :: "string \<Rightarrow> walk_entry" where
  "sample_entry path = \<lparr>we_path = path, we_d_type = Some FT_REG, we_is_dir = False\<rparr>"

definition sample_facts :: walk_facts where
  "sample_facts = \<lparr>wf_stat = Some (FT_REG, 0), wf_access_x = False, wf_names = None\<rparr>"


text \<open>
  With two levels the stages are run over the whole chain one after the other, so a rule of a parent for a
  literal name wins over a rule of the directory itself that comes in a later stage.
\<close>

lemma stages_cross_levels:
  "(let outer = the (compiled [Some ''foo.log''] None False); inner = the (compiled [Some ''!*.log''] None False);
        chain = ignore_state_init (ignore_state_init [] (Some ''/r'') (Some outer)) (Some ''/r/s'') (Some inner) in
    (filter_ignores chain ''foo.log'' ''/r/s/foo.log'' (Some ''s/foo.log'') False,
     state_matches_path (\<lambda>_. True) chain ''foo.log'' ''/r/s/foo.log'' (Some ''s/foo.log'') False)) = (True, False)"
  by code_simp

end
