(* ===== verification/ShellValue.thy ===== *)
theory ShellValue
  imports Prelude
begin

text \<open>
  \<open>src/src/applets/shell/ash/variable_value.c\<close>: the values of shell variables. A value is a scalar
  (which may be unset), an indexed array, kept as a list of elements sorted by their index and
  searched by bisection, or an associative array, kept as a chained hash table. Both arrays
  implement a finite map; the theorems state that for every operation, that a failed operation
  leaves the map as it was, and that the predicate the code asserts holds throughout.

  \<open>avail n\<close> says whether the allocator serves a request of \<open>n\<close> bytes. The cells of the indexed
  array past its count are never read, so only the counted elements and the capacity are kept; a
  chain of the hash table is the list of its elements. Freeing memory has no counterpart.
\<close>

section \<open>The values\<close>

record ash_indexed_element =
  ie_index :: u64
  ie_value :: string

record ash_indexed_array =
  ia_elements :: "ash_indexed_element list"
  ia_capacity :: u64

record ash_associative_element =
  ae_key :: string
  ae_value :: string
  ae_hash :: u64

record ash_associative_array =
  aa_buckets :: "ash_associative_element list list"
  aa_count :: nat

datatype ash_value =
    Ash_Scalar cstr
  | Ash_Indexed ash_indexed_array
  | Ash_Associative ash_associative_array

datatype value_error = Value_EINVAL | Value_ENOMEM

text \<open>The copy of a C string: \<open>EINVAL\<close> for \<open>NULL\<close>, \<open>ENOMEM\<close> when it cannot be allocated.\<close>

definition ash_value_duplicate :: "(nat \<Rightarrow> bool) \<Rightarrow> cstr \<Rightarrow> value_error + string" where
  "ash_value_duplicate avail text1 =
     (case text1 of
        None \<Rightarrow> Inl Value_EINVAL
      | Some t \<Rightarrow>
          if length t = size_max then Inl Value_ENOMEM
          else if avail (length t + 1) then Inr t else Inl Value_ENOMEM)"

definition ash_value_init_scalar :: "(nat \<Rightarrow> bool) \<Rightarrow> cstr \<Rightarrow> value_error + ash_value" where
  "ash_value_init_scalar avail scalar =
     (case scalar of
        None \<Rightarrow> Inr (Ash_Scalar None)
      | Some t \<Rightarrow>
          (case ash_value_duplicate avail (Some t) of
             Inl e \<Rightarrow> Inl e
           | Inr copy \<Rightarrow> Inr (Ash_Scalar (Some copy))))"

definition ash_value_init_indexed :: ash_value where
  "ash_value_init_indexed = Ash_Indexed \<lparr>ia_elements = [], ia_capacity = 0\<rparr>"

definition ash_value_init_associative :: ash_value where
  "ash_value_init_associative = Ash_Associative \<lparr>aa_buckets = [], aa_count = 0\<rparr>"

definition ash_value_get_scalar :: "ash_value \<Rightarrow> cstr" where
  "ash_value_get_scalar value1 = (case value1 of Ash_Scalar s \<Rightarrow> s | _ \<Rightarrow> None)"

definition ash_value_set_scalar :: "(nat \<Rightarrow> bool) \<Rightarrow> ash_value \<Rightarrow> cstr \<Rightarrow> value_error option \<times> ash_value" where
  "ash_value_set_scalar avail value1 scalar =
     (case ash_value_init_scalar avail scalar of
        Inl e \<Rightarrow> (Some e, value1)
      | Inr candidate \<Rightarrow> (None, candidate))"

section \<open>Indexed arrays\<close>

function lower_bound_loop :: "ash_indexed_element list \<Rightarrow> u64 \<Rightarrow> nat \<Rightarrow> nat \<Rightarrow> nat" where
  "lower_bound_loop elements index first count =
     (if count = 0 then first
      else let step = count div 2; middle = first + step in
        if ie_index (elements ! middle) < index
        then lower_bound_loop elements index (middle + 1) (count - (step + 1))
        else lower_bound_loop elements index first step)"
  by pat_completeness auto
termination
  by (relation "measure (\<lambda>(elements, index, first, count). count)") auto

declare lower_bound_loop.simps [simp del]

definition ash_indexed_lower_bound :: "ash_indexed_array \<Rightarrow> u64 \<Rightarrow> nat" where
  "ash_indexed_lower_bound array index = lower_bound_loop (ia_elements array) index 0 (length (ia_elements array))"

definition ash_value_indexed_get :: "ash_value \<Rightarrow> u64 \<Rightarrow> cstr" where
  "ash_value_indexed_get value1 index =
     (case value1 of
        Ash_Indexed array \<Rightarrow>
          let position = ash_indexed_lower_bound array index in
          if position < length (ia_elements array) \<and> ie_index (ia_elements array ! position) = index
          then Some (ie_value (ia_elements array ! position)) else None
      | _ \<Rightarrow> None)"

text \<open>Room for one more element: the doubling of the capacity, \<open>None\<close> when it fails.\<close>

definition indexed_reserve :: "(nat \<Rightarrow> bool) \<Rightarrow> ash_indexed_array \<Rightarrow> ash_indexed_array option" where
  "indexed_reserve avail array =
     (if of_nat (length (ia_elements array)) = ia_capacity array then
        let capacity = (if ia_capacity array = 0 then 4 else ia_capacity array * 2) in
        if capacity < ia_capacity array \<or> capacity > SIZE_MAX div 16 then None
        else if avail (unat capacity * 16) then Some (array\<lparr>ia_capacity := capacity\<rparr>) else None
      else Some array)"

definition indexed_insert :: "ash_indexed_array \<Rightarrow> nat \<Rightarrow> ash_indexed_element \<Rightarrow> ash_indexed_array" where
  "indexed_insert array position element =
     array\<lparr>ia_elements := take position (ia_elements array) @ element # drop position (ia_elements array)\<rparr>"

definition ash_value_indexed_set ::
  "(nat \<Rightarrow> bool) \<Rightarrow> ash_value \<Rightarrow> u64 \<Rightarrow> cstr \<Rightarrow> value_error option \<times> ash_value" where
  "ash_value_indexed_set avail value1 index element =
     (case value1 of
        Ash_Indexed array \<Rightarrow>
          let position = ash_indexed_lower_bound array index in
          (case ash_value_duplicate avail element of
             Inl e \<Rightarrow> (Some e, value1)
           | Inr copy \<Rightarrow>
               if position < length (ia_elements array) \<and> ie_index (ia_elements array ! position) = index
               then (None, Ash_Indexed (array\<lparr>ia_elements :=
                      (ia_elements array)[position := (ia_elements array ! position)\<lparr>ie_value := copy\<rparr>]\<rparr>))
               else (case indexed_reserve avail array of
                  None \<Rightarrow> (Some Value_ENOMEM, value1)
                | Some array1 \<Rightarrow>
                    (None, Ash_Indexed (indexed_insert array1 position \<lparr>ie_index = index, ie_value = copy\<rparr>))))
      | _ \<Rightarrow> (Some Value_EINVAL, value1))"

definition ash_value_indexed_unset :: "ash_value \<Rightarrow> u64 \<Rightarrow> bool \<times> ash_value" where
  "ash_value_indexed_unset value1 index =
     (case value1 of
        Ash_Indexed array \<Rightarrow>
          let position = ash_indexed_lower_bound array index in
          if position = length (ia_elements array) \<or> ie_index (ia_elements array ! position) \<noteq> index
          then (False, value1)
          else (True, Ash_Indexed (array\<lparr>ia_elements :=
                  take position (ia_elements array) @ drop (position + 1) (ia_elements array)\<rparr>))
      | _ \<Rightarrow> (False, value1))"

section \<open>Associative arrays\<close>

text \<open>\<open>size_t\<close> has eight bytes on the LP64 targets, which selects the 64-bit constants.\<close>

definition ash_associative_hash :: "string \<Rightarrow> u64" where
  "ash_associative_hash key = foldl (\<lambda>hash p. (hash XOR of_char p) * 1099511628211) 1469598103934665603 key"

abbreviation bucket_of :: "u64 \<Rightarrow> nat \<Rightarrow> nat" where
  "bucket_of hash bucket_count \<equiv> unat hash mod bucket_count"

definition push_bucket ::
  "ash_associative_element \<Rightarrow> ash_associative_element list list \<Rightarrow> ash_associative_element list list" where
  "push_bucket item buckets =
     (let bucket = bucket_of (ae_hash item) (length buckets) in
      buckets[bucket := item # (buckets ! bucket)])"

definition ash_associative_resize :: "(nat \<Rightarrow> bool) \<Rightarrow> ash_associative_array \<Rightarrow> nat \<Rightarrow> ash_associative_array option" where
  "ash_associative_resize avail array count =
     (if avail (count * 8)
      then Some (array\<lparr>aa_buckets :=
             foldl (\<lambda>buckets chain. foldl (\<lambda>bs item. push_bucket item bs) buckets chain)
               (replicate count []) (aa_buckets array)\<rparr>)
      else None)"

definition ash_associative_find :: "ash_associative_array \<Rightarrow> string \<Rightarrow> u64 \<Rightarrow> ash_associative_element option" where
  "ash_associative_find array key hash =
     (if aa_buckets array = [] then None
      else find (\<lambda>item. ae_hash item = hash \<and> ae_key item = key)
             (aa_buckets array ! bucket_of hash (length (aa_buckets array))))"

definition ash_value_associative_get :: "ash_value \<Rightarrow> cstr \<Rightarrow> cstr" where
  "ash_value_associative_get value1 key =
     (case (value1, key) of
        (Ash_Associative array, Some k) \<Rightarrow>
          map_option ae_value (ash_associative_find array k (ash_associative_hash k))
      | _ \<Rightarrow> None)"

text \<open>The first element of a chain that is found gets a new value.\<close>

fun chain_replace ::
  "string \<Rightarrow> u64 \<Rightarrow> string \<Rightarrow> ash_associative_element list \<Rightarrow> ash_associative_element list" where
  "chain_replace key hash copy [] = []"
| "chain_replace key hash copy (item # items) =
     (if ae_hash item = hash \<and> ae_key item = key then item\<lparr>ae_value := copy\<rparr> # items
      else item # chain_replace key hash copy items)"

fun chain_remove :: "string \<Rightarrow> u64 \<Rightarrow> ash_associative_element list \<Rightarrow> ash_associative_element list option" where
  "chain_remove key hash [] = None"
| "chain_remove key hash (item # items) =
     (if ae_hash item = hash \<and> ae_key item = key then Some items
      else map_option ((#) item) (chain_remove key hash items))"

text \<open>The two growth steps before an insertion. A failed one leaves what was done before it.\<close>

definition associative_reserve ::
  "(nat \<Rightarrow> bool) \<Rightarrow> ash_associative_array \<Rightarrow> value_error option \<times> ash_associative_array" where
  "associative_reserve avail array =
     (case (if aa_buckets array = [] then ash_associative_resize avail array 8 else Some array) of
        None \<Rightarrow> (Some Value_ENOMEM, array)
      | Some array1 \<Rightarrow>
          let bucket_count = length (aa_buckets array1) in
          if aa_count array1 \<ge> bucket_count - bucket_count div 4 then
            if bucket_count > size_max div 2 then (Some Value_ENOMEM, array1)
            else (case ash_associative_resize avail array1 (bucket_count * 2) of
                    None \<Rightarrow> (Some Value_ENOMEM, array1)
                  | Some array2 \<Rightarrow> (None, array2))
          else (None, array1))"

definition associative_insert ::
  "(nat \<Rightarrow> bool) \<Rightarrow> ash_associative_array \<Rightarrow> string \<Rightarrow> u64 \<Rightarrow> string \<Rightarrow> value_error option \<times> ash_associative_array" where
  "associative_insert avail array key hash copy =
     (case ash_value_duplicate avail (Some key) of
        Inl _ \<Rightarrow> (Some Value_ENOMEM, array)
      | Inr key_copy \<Rightarrow>
          if \<not> avail 32 then (Some Value_ENOMEM, array)
          else (None, array\<lparr>aa_buckets :=
                  push_bucket \<lparr>ae_key = key_copy, ae_value = copy, ae_hash = hash\<rparr> (aa_buckets array),
                  aa_count := aa_count array + 1\<rparr>))"

definition ash_value_associative_set ::
  "(nat \<Rightarrow> bool) \<Rightarrow> ash_value \<Rightarrow> cstr \<Rightarrow> cstr \<Rightarrow> value_error option \<times> ash_value" where
  "ash_value_associative_set avail value1 key element =
     (case (value1, key) of
        (Ash_Associative array, Some k) \<Rightarrow>
          if k = [] then (Some Value_EINVAL, value1)
          else
            let hash = ash_associative_hash k in
            (case ash_value_duplicate avail element of
               Inl e \<Rightarrow> (Some e, value1)
             | Inr copy \<Rightarrow>
                 if ash_associative_find array k hash \<noteq> None then
                   let bucket = bucket_of hash (length (aa_buckets array)) in
                   (None, Ash_Associative (array\<lparr>aa_buckets :=
                      (aa_buckets array)[bucket := chain_replace k hash copy (aa_buckets array ! bucket)]\<rparr>))
                 else
                   (case associative_reserve avail array of
                      (Some e, array1) \<Rightarrow> (Some e, Ash_Associative array1)
                    | (None, array1) \<Rightarrow>
                        let (e, array2) = associative_insert avail array1 k hash copy in
                        (e, Ash_Associative array2)))
      | _ \<Rightarrow> (Some Value_EINVAL, value1))"

definition ash_value_associative_unset :: "ash_value \<Rightarrow> cstr \<Rightarrow> bool \<times> ash_value" where
  "ash_value_associative_unset value1 key =
     (case (value1, key) of
        (Ash_Associative array, Some k) \<Rightarrow>
          if aa_buckets array = [] then (False, value1)
          else
            let hash = ash_associative_hash k; bucket = bucket_of hash (length (aa_buckets array)) in
            (case chain_remove k hash (aa_buckets array ! bucket) of
               None \<Rightarrow> (False, value1)
             | Some chain \<Rightarrow>
                 (True, Ash_Associative (array\<lparr>aa_buckets := (aa_buckets array)[bucket := chain],
                    aa_count := aa_count array - 1\<rparr>)))
      | _ \<Rightarrow> (False, value1))"

section \<open>Copies and the asserted predicate\<close>

definition store_indexed :: "(nat \<Rightarrow> bool) \<Rightarrow> ash_indexed_element \<Rightarrow> ash_value \<Rightarrow> ash_value option" where
  "store_indexed avail item destination =
     (case ash_value_indexed_set avail destination (ie_index item) (Some (ie_value item)) of
        (None, destination1) \<Rightarrow> Some destination1
      | (Some _, _) \<Rightarrow> None)"

definition store_associative :: "(nat \<Rightarrow> bool) \<Rightarrow> ash_associative_element \<Rightarrow> ash_value \<Rightarrow> ash_value option" where
  "store_associative avail item destination =
     (case ash_value_associative_set avail destination (Some (ae_key item)) (Some (ae_value item)) of
        (None, destination1) \<Rightarrow> Some destination1
      | (Some _, _) \<Rightarrow> None)"

definition ash_value_clone :: "(nat \<Rightarrow> bool) \<Rightarrow> ash_value \<Rightarrow> ash_value option" where
  "ash_value_clone avail source =
     (case source of
        Ash_Scalar s \<Rightarrow> (case ash_value_init_scalar avail s of Inl _ \<Rightarrow> None | Inr v \<Rightarrow> Some v)
      | Ash_Indexed array \<Rightarrow> run_all (store_indexed avail) (ia_elements array) ash_value_init_indexed
      | Ash_Associative array \<Rightarrow>
          run_all (store_associative avail) (concat (aa_buckets array)) ash_value_init_associative)"

definition chain_invariants :: "nat \<Rightarrow> nat \<Rightarrow> ash_associative_element list \<Rightarrow> bool" where
  "chain_invariants bucket_count i chain \<longleftrightarrow>
     list_all (\<lambda>item. ae_key item \<noteq> [] \<and> ae_hash item = ash_associative_hash (ae_key item) \<and>
        bucket_of (ae_hash item) bucket_count = i) chain \<and>
     sorted_wrt (\<lambda>item other. \<not> (ae_hash item = ae_hash other \<and> ae_key item = ae_key other)) chain"

definition ash_value_invariants :: "ash_value \<Rightarrow> bool" where
  "ash_value_invariants value1 =
     (case value1 of
        Ash_Scalar _ \<Rightarrow> True
      | Ash_Indexed array \<Rightarrow>
          length (ia_elements array) \<le> unat (ia_capacity array) \<and>
          sorted_wrt (<) (map ie_index (ia_elements array))
      | Ash_Associative array \<Rightarrow>
          list_all (\<lambda>(i, chain). chain_invariants (length (aa_buckets array)) i chain)
            (enumerate 0 (aa_buckets array)) \<and>
          length (concat (aa_buckets array)) \<le> size_max \<and>
          length (concat (aa_buckets array)) = aa_count array)"

section \<open>Indexed arrays as maps\<close>

definition element_pairs :: "ash_indexed_element list \<Rightarrow> (u64 \<times> string) list" where
  "element_pairs elements = map (\<lambda>e. (ie_index e, ie_value e)) elements"

definition indexed_map :: "ash_value \<Rightarrow> u64 \<Rightarrow> string option" where
  "indexed_map value1 = (case value1 of Ash_Indexed array \<Rightarrow> map_of (element_pairs (ia_elements array)) | _ \<Rightarrow> Map.empty)"

definition is_indexed :: "ash_value \<Rightarrow> bool" where
  "is_indexed value1 = (case value1 of Ash_Indexed _ \<Rightarrow> True | _ \<Rightarrow> False)"

lemma element_pairs_simps [simp]:
  "element_pairs [] = []"
  "element_pairs (e # es) = (ie_index e, ie_value e) # element_pairs es"
  "element_pairs (es @ fs) = element_pairs es @ element_pairs fs"
  by (simp_all add: element_pairs_def)

lemma element_pairs_no_key:
  assumes "\<And>e. e \<in> set es \<Longrightarrow> ie_index e \<noteq> index"
  shows "map_of (element_pairs es) index = None"
  using assms by (induction es) auto

lemma lower_bound_loop_splits:
  assumes "sorted_wrt (<) (map ie_index elements)"
    and "first + count \<le> length elements"
    and "\<And>i. i < first \<Longrightarrow> ie_index (elements ! i) < index"
    and "\<And>i. first + count \<le> i \<Longrightarrow> i < length elements \<Longrightarrow> index \<le> ie_index (elements ! i)"
  shows "lower_bound_loop elements index first count \<le> length elements \<and>
    (\<forall>i < lower_bound_loop elements index first count. ie_index (elements ! i) < index) \<and>
    (\<forall>i < length elements. lower_bound_loop elements index first count \<le> i \<longrightarrow> index \<le> ie_index (elements ! i))"
  using assms
proof (induction elements index first count rule: lower_bound_loop.induct)
  case (1 elements index first count)
  define middle where "middle = first + count div 2"
  have ordered: "ie_index (elements ! i) < ie_index (elements ! j)" if "i < j" "j < length elements" for i j
    using 1(3) that by (auto simp: sorted_wrt_iff_nth_less)
  show ?case
  proof (cases "count = 0")
    case True
    then have "lower_bound_loop elements index first count = first"
      by (simp add: lower_bound_loop.simps [of elements index first 0])
    with True 1(4-6) show ?thesis by simp
  next
    case False
    then have middle: "middle < length elements" using 1(4) by (simp add: middle_def)
    show ?thesis
    proof (cases "ie_index (elements ! middle) < index")
      case True
      have below: "ie_index (elements ! i) < index" if "i < middle + 1" for i
      proof (cases "i = middle")
        case False
        with that have "i < middle" by simp
        then show ?thesis using ordered middle True by (meson order.strict_trans)
      qed (use True in simp)
      have "middle + 1 + (count - (count div 2 + 1)) = first + count"
        using False by (simp add: middle_def)
      then have steps: "middle + 1 + (count - (count div 2 + 1)) \<le> length elements"
        "\<And>i. middle + 1 + (count - (count div 2 + 1)) \<le> i \<Longrightarrow> i < length elements \<Longrightarrow> index \<le> ie_index (elements ! i)"
        using 1(4,6) by simp_all
      have stepped: "lower_bound_loop elements index first count =
          lower_bound_loop elements index (middle + 1) (count - (count div 2 + 1))"
        using False True by (simp add: lower_bound_loop.simps [of elements index first count] middle_def Let_def)
      show ?thesis
        unfolding stepped
        by (rule 1(1) [OF False refl refl, folded middle_def, OF True 1(3) steps(1) below steps(2)])
    next
      case not_less: False
      have above: "index \<le> ie_index (elements ! i)" if "middle \<le> i" "i < length elements" for i
      proof (cases "i = middle")
        case False
        with that have "middle < i" by simp
        then have "ie_index (elements ! middle) < ie_index (elements ! i)" using ordered that by blast
        with not_less show ?thesis by (meson linorder_not_le order.strict_trans order.strict_implies_order)
      qed (use not_less in simp)
      have "middle \<le> length elements" using 1(4) by (simp add: middle_def)
      moreover have "lower_bound_loop elements index first count = lower_bound_loop elements index first (count div 2)"
        using False not_less by (simp add: lower_bound_loop.simps [of elements index first count] middle_def Let_def)
      ultimately show ?thesis
        using 1(2) [OF False refl refl, folded middle_def, OF not_less 1(3) _ 1(5)] above by simp
    qed
  qed
qed

lemma lower_bound_splits:
  assumes "sorted_wrt (<) (map ie_index (ia_elements array))"
  obtains pre post where "ia_elements array = pre @ post"
    and "ash_indexed_lower_bound array index = length pre"
    and "\<And>e. e \<in> set pre \<Longrightarrow> ie_index e < index"
    and "\<And>e. e \<in> set post \<Longrightarrow> index \<le> ie_index e"
proof -
  define p where "p = ash_indexed_lower_bound array index"
  have p: "p \<le> length (ia_elements array)" "\<forall>i < p. ie_index (ia_elements array ! i) < index"
    "\<forall>i < length (ia_elements array). p \<le> i \<longrightarrow> index \<le> ie_index (ia_elements array ! i)"
    using lower_bound_loop_splits [OF assms, of 0 "length (ia_elements array)" index]
    by (auto simp: p_def ash_indexed_lower_bound_def)
  show ?thesis
  proof (rule that [of "take p (ia_elements array)" "drop p (ia_elements array)"])
    show "ash_indexed_lower_bound array index = length (take p (ia_elements array))"
      using p(1) by (simp add: p_def)
    show "ie_index e < index" if "e \<in> set (take p (ia_elements array))" for e
      using that p(1,2) by (auto simp: in_set_conv_nth)
    show "index \<le> ie_index e" if "e \<in> set (drop p (ia_elements array))" for e
      using that p(1,3) by (auto simp: in_set_conv_nth)
  qed simp
qed

text \<open>Whether an element is there, read off the cell at the lower bound.\<close>

lemma lower_bound_cases:
  assumes "sorted_wrt (<) (map ie_index (ia_elements array))"
  obtains (found) pre e post where "ia_elements array = pre @ e # post" "ie_index e = index"
      "ash_indexed_lower_bound array index = length pre"
      "\<And>x. x \<in> set pre \<Longrightarrow> ie_index x < index" "\<And>x. x \<in> set post \<Longrightarrow> index < ie_index x"
  | (absent) pre post where "ia_elements array = pre @ post"
      "ash_indexed_lower_bound array index = length pre"
      "\<And>x. x \<in> set pre \<Longrightarrow> ie_index x < index" "\<And>x. x \<in> set post \<Longrightarrow> index < ie_index x"
proof -
  obtain pre post where split: "ia_elements array = pre @ post" "ash_indexed_lower_bound array index = length pre"
    and below: "\<And>e. e \<in> set pre \<Longrightarrow> ie_index e < index" and above: "\<And>e. e \<in> set post \<Longrightarrow> index \<le> ie_index e"
    by (rule lower_bound_splits [OF assms]) blast
  show ?thesis
  proof (cases "\<exists>e rest. post = e # rest \<and> ie_index e = index")
    case True
    then obtain e rest where post: "post = e # rest" "ie_index e = index" by blast
    have "index < ie_index x" if "x \<in> set rest" for x
      using assms that post split(1) by (auto simp: sorted_wrt_append)
    with found [of pre e rest] split post below show ?thesis by blast
  next
    case False
    have "index < ie_index x" if x: "x \<in> set post" for x
    proof (cases post)
      case (Cons e rest)
      then have "index < ie_index e" using False above [of e] by (auto simp: order.order_iff_strict)
      moreover have "ie_index e \<le> ie_index x"
        using assms split(1) x Cons by (auto simp: sorted_wrt_append)
      ultimately show ?thesis by simp
    qed (use x in simp)
    with absent [of pre post] split below show ?thesis by blast
  qed
qed

lemma map_of_sorted_split:
  assumes "\<And>x. x \<in> set pre \<Longrightarrow> ie_index x < index" "\<And>x. x \<in> set post \<Longrightarrow> index < ie_index x"
  shows "map_of (element_pairs pre) index = None" "map_of (element_pairs post) index = None"
  using assms by (force intro: element_pairs_no_key)+

lemma map_of_insert_between:
  assumes "map_of (element_pairs pre) (ie_index e) = None"
  shows "map_of (element_pairs (pre @ e # post)) = (map_of (element_pairs (pre @ post)))(ie_index e \<mapsto> ie_value e)"
  using assms by (auto simp: fun_eq_iff map_add_def split: option.splits)

lemma map_of_replace_between:
  assumes "map_of (element_pairs pre) (ie_index e) = None" "ie_index e' = ie_index e"
  shows "map_of (element_pairs (pre @ e' # post)) = (map_of (element_pairs (pre @ e # post)))(ie_index e' \<mapsto> ie_value e')"
  using assms by (auto simp: fun_eq_iff map_add_def split: option.splits)

lemma map_of_remove_between:
  assumes "map_of (element_pairs pre) (ie_index e) = None" "map_of (element_pairs post) (ie_index e) = None"
  shows "map_of (element_pairs (pre @ post)) = (map_of (element_pairs (pre @ e # post)))(ie_index e := None)"
  using assms by (auto simp: fun_eq_iff map_add_def split: option.splits)

lemma indexed_invariants_sorted:
  "ash_value_invariants (Ash_Indexed array) \<Longrightarrow> sorted_wrt (<) (map ie_index (ia_elements array))"
  "ash_value_invariants (Ash_Indexed array) \<Longrightarrow> length (ia_elements array) \<le> unat (ia_capacity array)"
  by (simp_all add: ash_value_invariants_def)

lemma indexed_get_map:
  assumes "ash_value_invariants value1"
  shows "ash_value_indexed_get value1 index = indexed_map value1 index"
proof (cases value1)
  case (Ash_Indexed array)
  note sorted = indexed_invariants_sorted(1) [OF assms [unfolded Ash_Indexed]]
  from sorted show ?thesis
  proof (cases rule: lower_bound_cases [where index = index])
    case (found pre e post)
    with map_of_sorted_split(1) [OF found(4,5)] show ?thesis
      by (auto simp: Ash_Indexed ash_value_indexed_get_def indexed_map_def map_add_def)
  next
    case (absent pre post)
    have "\<not> (length pre < length (pre @ post) \<and> ie_index ((pre @ post) ! length pre) = index)"
      using absent(4) by (cases post) auto
    then show ?thesis using absent(1,2) map_of_sorted_split [OF absent(3,4)]
      by (auto simp: Ash_Indexed ash_value_indexed_get_def indexed_map_def map_add_def Let_def)
  qed
qed (simp_all add: ash_value_indexed_get_def indexed_map_def)

lemma indexed_reserve_some:
  assumes "indexed_reserve avail array = Some array1"
    and "length (ia_elements array) \<le> unat (ia_capacity array)"
  shows "ia_elements array1 = ia_elements array" "length (ia_elements array) < unat (ia_capacity array1)"
proof -
  have small: "length (ia_elements array) < 2 ^ 64"
    using assms(2) unat_less_2p64 [of "ia_capacity array"] by simp
  show "ia_elements array1 = ia_elements array"
    using assms(1) by (auto simp: indexed_reserve_def Let_def split: if_splits)
  show "length (ia_elements array) < unat (ia_capacity array1)"
  proof (cases "of_nat (length (ia_elements array)) = ia_capacity array")
    case False
    then have "length (ia_elements array) \<noteq> unat (ia_capacity array)" by auto
    with False assms show ?thesis by (simp add: indexed_reserve_def)
  next
    case True
    then have len: "length (ia_elements array) = unat (ia_capacity array)"
      using small by (metis unat_of_nat_64)
    define capacity :: u64 where "capacity = (if ia_capacity array = 0 then 4 else ia_capacity array * 2)"
    have array1: "array1 = array\<lparr>ia_capacity := capacity\<rparr>" "\<not> capacity < ia_capacity array"
      using assms(1) True by (auto simp: indexed_reserve_def Let_def capacity_def split: if_splits)
    have "capacity \<noteq> ia_capacity array"
    proof
      assume same: "capacity = ia_capacity array"
      then have "ia_capacity array * 2 = ia_capacity array" "ia_capacity array \<noteq> 0"
        by (auto simp: capacity_def split: if_splits)
      then have "ia_capacity array = 0" by (simp add: mult_2_right)
      with \<open>ia_capacity array \<noteq> 0\<close> show False by simp
    qed
    with array1(2) have "ia_capacity array < capacity" by simp
    then show ?thesis using array1(1) len by (simp add: word_less_nat_alt)
  qed
qed

lemma indexed_set_map:
  assumes inv: "ash_value_invariants value1"
    and set: "ash_value_indexed_set avail value1 index element = (None, value2)"
  shows "ash_value_invariants value2 \<and> is_indexed value1 \<and> is_indexed value2 \<and>
    (\<exists>t. element = Some t \<and> indexed_map value2 = (indexed_map value1)(index \<mapsto> t))"
proof (cases value1)
  case (Ash_Indexed array)
  note sorted = indexed_invariants_sorted(1) [OF inv [unfolded Ash_Indexed]]
  note room = indexed_invariants_sorted(2) [OF inv [unfolded Ash_Indexed]]
  from set obtain t where element: "element = Some t" and copy: "ash_value_duplicate avail (Some t) = Inr t"
    by (auto simp: Ash_Indexed ash_value_indexed_set_def ash_value_duplicate_def Let_def split: option.splits if_splits)
  from sorted show ?thesis
  proof (cases rule: lower_bound_cases [where index = index])
    case (found pre e post)
    have "value2 = Ash_Indexed (array\<lparr>ia_elements := pre @ e\<lparr>ie_value := t\<rparr> # post\<rparr>)"
      using set found(1-3) copy by (simp add: Ash_Indexed element ash_value_indexed_set_def)
    with found sorted room map_of_sorted_split(1) [OF found(4,5)] show ?thesis
      by (auto simp: Ash_Indexed element ash_value_invariants_def is_indexed_def indexed_map_def
          fun_eq_iff map_add_def split: option.splits)
  next
    case (absent pre post)
    have "\<not> (length pre < length (pre @ post) \<and> ie_index ((pre @ post) ! length pre) = index)"
      using absent(4) by (cases post) auto
    then obtain array1 where array1: "indexed_reserve avail array = Some array1"
      and v2: "value2 = Ash_Indexed (indexed_insert array1 (length pre) \<lparr>ie_index = index, ie_value = t\<rparr>)"
      using set absent(1,2) copy
      by (auto simp: Ash_Indexed element ash_value_indexed_set_def split: option.splits)
    note kept = indexed_reserve_some [OF array1 room]
    have v2': "value2 = Ash_Indexed (array1\<lparr>ia_elements := pre @ \<lparr>ie_index = index, ie_value = t\<rparr> # post\<rparr>)"
      using v2 kept(1) absent(1) by (simp add: indexed_insert_def)
    have "sorted_wrt (<) (map ie_index (pre @ \<lparr>ie_index = index, ie_value = t\<rparr> # post))"
      using sorted absent by (auto simp: sorted_wrt_append)
    moreover have "length (pre @ \<lparr>ie_index = index, ie_value = t\<rparr> # post) \<le> unat (ia_capacity array1)"
      using kept(2) absent(1) by simp
    ultimately have "ash_value_invariants value2"
      by (simp add: v2' ash_value_invariants_def)
    moreover have "indexed_map value2 = (indexed_map value1)(index \<mapsto> t)"
      using map_of_insert_between [of pre "\<lparr>ie_index = index, ie_value = t\<rparr>" post]
        map_of_sorted_split(1) [OF absent(3,4)] absent(1)
      by (simp add: v2' Ash_Indexed indexed_map_def del: element_pairs_simps)
    ultimately show ?thesis by (simp add: v2' Ash_Indexed element is_indexed_def)
  qed
qed (use set in \<open>auto simp: ash_value_indexed_set_def\<close>)

lemma indexed_set_failed:
  "ash_value_indexed_set avail value1 index element = (Some e, value2) \<Longrightarrow> value2 = value1"
  by (auto simp: ash_value_indexed_set_def Let_def split: ash_value.splits sum.splits if_splits option.splits)

lemma indexed_unset_map:
  assumes inv: "ash_value_invariants value1"
    and unset: "ash_value_indexed_unset value1 index = (removed, value2)"
  shows "ash_value_invariants value2 \<and> indexed_map value2 = (indexed_map value1)(index := None) \<and>
    (removed \<longleftrightarrow> indexed_map value1 index \<noteq> None)"
proof (cases value1)
  case (Ash_Indexed array)
  note sorted = indexed_invariants_sorted(1) [OF inv [unfolded Ash_Indexed]]
  note room = indexed_invariants_sorted(2) [OF inv [unfolded Ash_Indexed]]
  from sorted show ?thesis
  proof (cases rule: lower_bound_cases [where index = index])
    case (found pre e post)
    have out: "removed" "value2 = Ash_Indexed (array\<lparr>ia_elements := pre @ post\<rparr>)"
      using unset found(1-3) by (simp_all add: Ash_Indexed ash_value_indexed_unset_def Let_def)
    note gone = map_of_sorted_split [OF found(4,5)]
    have "ash_value_invariants value2"
      using sorted room found(1) by (auto simp: out(2) ash_value_invariants_def sorted_wrt_append)
    moreover have "indexed_map value2 = (indexed_map value1)(index := None)"
      using map_of_remove_between [of pre e post] gone found(1,2)
      by (simp add: out(2) Ash_Indexed indexed_map_def del: element_pairs_simps)
    moreover have "indexed_map value1 index \<noteq> None"
      using gone found(1,2) by (simp add: Ash_Indexed indexed_map_def map_add_def)
    ultimately show ?thesis using out(1) by simp
  next
    case (absent pre post)
    note gone = map_of_sorted_split [OF absent(3,4)]
    have "length pre = length (pre @ post) \<or> ie_index ((pre @ post) ! length pre) \<noteq> index"
      using absent(4) by (cases post) auto
    then have "\<not> removed" "value2 = value1"
      using unset absent(1,2) by (auto simp: Ash_Indexed ash_value_indexed_unset_def Let_def)
    moreover have "indexed_map value1 index = None"
      using gone absent(1) by (simp add: Ash_Indexed indexed_map_def map_add_def)
    ultimately show ?thesis using inv by (simp add: fun_upd_idem)
  qed
qed (use inv unset in \<open>auto simp: ash_value_indexed_unset_def indexed_map_def\<close>)

section \<open>Associative arrays as maps\<close>

definition item_pairs :: "ash_associative_element list \<Rightarrow> (string \<times> string) list" where
  "item_pairs items = map (\<lambda>e. (ae_key e, ae_value e)) items"

definition associative_map :: "ash_value \<Rightarrow> string \<Rightarrow> string option" where
  "associative_map value1 =
     (case value1 of Ash_Associative array \<Rightarrow> map_of (item_pairs (concat (aa_buckets array))) | _ \<Rightarrow> Map.empty)"

definition is_associative :: "ash_value \<Rightarrow> bool" where
  "is_associative value1 = (case value1 of Ash_Associative _ \<Rightarrow> True | _ \<Rightarrow> False)"

definition item_ok :: "nat \<Rightarrow> nat \<Rightarrow> ash_associative_element \<Rightarrow> bool" where
  "item_ok n i item \<longleftrightarrow> ae_key item \<noteq> [] \<and> ae_hash item = ash_associative_hash (ae_key item) \<and> bucket_of (ae_hash item) n = i"

definition chain_ok :: "nat \<Rightarrow> nat \<Rightarrow> ash_associative_element list \<Rightarrow> bool" where
  "chain_ok n i chain \<longleftrightarrow> (\<forall>item \<in> set chain. item_ok n i item) \<and> distinct (map ae_key chain)"

definition buckets_ok :: "ash_associative_element list list \<Rightarrow> bool" where
  "buckets_ok buckets \<longleftrightarrow> (\<forall>i < length buckets. chain_ok (length buckets) i (buckets ! i))"

abbreviation key_bucket :: "string \<Rightarrow> nat \<Rightarrow> nat" where
  "key_bucket key n \<equiv> bucket_of (ash_associative_hash key) n"

lemma item_pairs_simps [simp]:
  "item_pairs [] = []"
  "item_pairs (e # es) = (ae_key e, ae_value e) # item_pairs es"
  "item_pairs (es @ fs) = item_pairs es @ item_pairs fs"
  by (simp_all add: item_pairs_def)

lemma item_pairs_none: "map_of (item_pairs items) key = None \<longleftrightarrow> key \<notin> ae_key ` set items"
  by (induction items) auto

lemma chain_invariants_ok: "chain_invariants n i chain \<longleftrightarrow> chain_ok n i chain"
proof -
  have "sorted_wrt (\<lambda>item other. \<not> (ae_hash item = ae_hash other \<and> ae_key item = ae_key other)) chain \<longleftrightarrow>
      distinct (map ae_key chain)"
    if "\<forall>item \<in> set chain. ae_hash item = ash_associative_hash (ae_key item)"
    using that by (induction chain) auto
  then show ?thesis
    unfolding chain_invariants_def chain_ok_def item_ok_def list_all_iff by blast
qed

lemma associative_invariants_iff:
  "ash_value_invariants (Ash_Associative array) \<longleftrightarrow>
     buckets_ok (aa_buckets array) \<and> length (concat (aa_buckets array)) \<le> size_max \<and>
     length (concat (aa_buckets array)) = aa_count array"
proof -
  have "list_all (\<lambda>(i, chain). chain_invariants n i chain) (enumerate 0 buckets) \<longleftrightarrow>
      (\<forall>i < length buckets. chain_ok n i (buckets ! i))" for n and buckets :: "ash_associative_element list list"
    by (auto simp: list_all_length nth_enumerate_eq chain_invariants_ok)
  then show ?thesis
    by (simp add: ash_value_invariants_def buckets_ok_def)
qed

lemma concat_at: "b < length buckets \<Longrightarrow> concat buckets = concat (take b buckets) @ buckets ! b @ concat (drop (Suc b) buckets)"
  by (metis concat.simps(2) concat_append id_take_nth_drop)

lemma buckets_ok_item:
  assumes "buckets_ok buckets" "i < length buckets" "item \<in> set (buckets ! i)"
  shows "ae_key item \<noteq> []" "ae_hash item = ash_associative_hash (ae_key item)"
    "key_bucket (ae_key item) (length buckets) = i"
proof -
  have ok: "item_ok (length buckets) i item" using assms by (simp add: buckets_ok_def chain_ok_def)
  show "ae_key item \<noteq> []" using ok by (simp add: item_ok_def)
  show hash: "ae_hash item = ash_associative_hash (ae_key item)" using ok by (simp add: item_ok_def)
  show "key_bucket (ae_key item) (length buckets) = i"
    using ok by (simp add: item_ok_def flip: hash)
qed

lemma bucket_lookup:
  assumes "buckets_ok buckets" "buckets \<noteq> []"
  shows "map_of (item_pairs (concat buckets)) key =
    map_of (item_pairs (buckets ! key_bucket key (length buckets))) key"
proof -
  define b where "b = key_bucket key (length buckets)"
  have b: "b < length buckets" using assms(2) by (simp add: b_def)
  have elsewhere: "key \<notin> ae_key ` set (buckets ! i)" if "i < length buckets" "i \<noteq> b" for i
    using buckets_ok_item(3) [OF assms(1) that(1)] that(2) by (auto simp: b_def)
  have "map_of (item_pairs (concat (take b buckets))) key = None"
    unfolding item_pairs_none
  proof
    assume "key \<in> ae_key ` set (concat (take b buckets))"
    then obtain i where "i < b" "key \<in> ae_key ` set (buckets ! i)"
      using b by (auto simp: in_set_conv_nth [of _ "take b buckets"])
    with elsewhere [of i] b show False by simp
  qed
  moreover have "map_of (item_pairs (concat (drop (Suc b) buckets))) key = None"
    unfolding item_pairs_none
  proof
    assume "key \<in> ae_key ` set (concat (drop (Suc b) buckets))"
    then obtain i where "i < length buckets - Suc b" "key \<in> ae_key ` set (buckets ! (Suc b + i))"
      by (auto simp: in_set_conv_nth [of _ "drop (Suc b) buckets"])
    with elsewhere [of "Suc b + i"] show False by auto
  qed
  ultimately show ?thesis
    unfolding b_def [symmetric] by (subst concat_at [OF b]) (simp add: map_add_def split: option.splits)
qed

lemma chain_find:
  assumes "\<forall>item \<in> set chain. ae_hash item = ash_associative_hash (ae_key item)"
  shows "map_option ae_value (find (\<lambda>item. ae_hash item = ash_associative_hash key \<and> ae_key item = key) chain) =
    map_of (item_pairs chain) key"
  using assms by (induction chain) auto

lemma associative_find_map:
  assumes "buckets_ok (aa_buckets array)"
  shows "map_option ae_value (ash_associative_find array key (ash_associative_hash key)) =
    map_of (item_pairs (concat (aa_buckets array))) key"
proof (cases "aa_buckets array = []")
  case False
  then have "key_bucket key (length (aa_buckets array)) < length (aa_buckets array)" by simp
  then have "\<forall>item \<in> set (aa_buckets array ! key_bucket key (length (aa_buckets array))).
      ae_hash item = ash_associative_hash (ae_key item)"
    using buckets_ok_item(2) [OF assms] by blast
  with False show ?thesis
    by (simp add: ash_associative_find_def chain_find bucket_lookup [OF assms False])
qed (simp add: ash_associative_find_def)

lemma associative_get_map:
  assumes "ash_value_invariants value1"
  shows "ash_value_associative_get value1 (Some key) = associative_map value1 key"
  using assms
  by (cases value1)
    (simp_all add: ash_value_associative_get_def associative_map_def associative_find_map associative_invariants_iff)

text \<open>One bucket replaced: the map changes at the keys of the bucket only.\<close>

lemma bucket_update:
  assumes ok: "buckets_ok buckets" and b: "b < length buckets" and chain: "chain_ok (length buckets) b chain"
    and change: "\<And>k. key_bucket k (length buckets) = b \<Longrightarrow>
      map_of (item_pairs chain) k = ((map_of (item_pairs (buckets ! b)))(key := v)) k"
    and key: "key_bucket key (length buckets) = b"
  shows "buckets_ok (buckets[b := chain]) \<and>
    map_of (item_pairs (concat (buckets[b := chain]))) = (map_of (item_pairs (concat buckets)))(key := v)"
proof
  show ok': "buckets_ok (buckets[b := chain])"
    using ok b chain by (auto simp: buckets_ok_def nth_list_update)
  have ne: "buckets \<noteq> []" using b by auto
  show "map_of (item_pairs (concat (buckets[b := chain]))) = (map_of (item_pairs (concat buckets)))(key := v)"
  proof
    fix k
    have "map_of (item_pairs (concat (buckets[b := chain]))) k =
        map_of (item_pairs (buckets[b := chain] ! key_bucket k (length buckets))) k"
      using bucket_lookup [OF ok', of k] ne by simp
    also have "\<dots> = ((map_of (item_pairs (concat buckets)))(key := v)) k"
    proof (cases "key_bucket k (length buckets) = b")
      case True
      then show ?thesis using change [OF True] bucket_lookup [OF ok ne, of k] b by simp
    next
      case False
      then have "k \<noteq> key" using key by auto
      with False show ?thesis using bucket_lookup [OF ok ne, of k] by simp
    qed
    finally show "map_of (item_pairs (concat (buckets[b := chain]))) k =
        ((map_of (item_pairs (concat buckets)))(key := v)) k" .
  qed
qed

lemma length_concat_update:
  "b < length buckets \<Longrightarrow>
   length (concat (buckets[b := chain])) + length (buckets ! b) = length (concat buckets) + length chain"
  by (simp add: concat_at [of b "buckets[b := chain]"] concat_at [of b buckets])

lemma distinct_by_bucket:
  assumes "\<And>i. i < length buckets \<Longrightarrow> distinct (map f (buckets ! i))"
    and "\<And>i x. i < length buckets \<Longrightarrow> x \<in> set (buckets ! i) \<Longrightarrow> g (f x) = i + offset"
  shows "distinct (map f (concat buckets))"
  using assms
proof (induction buckets arbitrary: offset)
  case (Cons chain buckets)
  have later: "g (f x) > offset" if "x \<in> set (concat buckets)" for x
  proof -
    from that obtain i where "i < length buckets" "x \<in> set (buckets ! i)"
      by (auto simp: in_set_conv_nth [of _ buckets])
    then show ?thesis using Cons.prems(2) [of "Suc i" x] by simp
  qed
  have "distinct (map f (concat buckets))"
  proof (rule Cons.IH)
    show "distinct (map f (buckets ! i))" if "i < length buckets" for i
      using Cons.prems(1) [of "Suc i"] that by simp
    show "g (f x) = i + Suc offset" if "i < length buckets" "x \<in> set (buckets ! i)" for i x
      using Cons.prems(2) [of "Suc i" x] that by simp
  qed
  moreover have "distinct (map f chain)" using Cons.prems(1) [of 0] by simp
  moreover have "f x \<noteq> f y" if "x \<in> set chain" "y \<in> set (concat buckets)" for x y
    using Cons.prems(2) [of 0 x] later [OF that(2)] that(1) by auto
  ultimately show ?case by (simp only: concat.simps map_append distinct_append) (auto simp: image_iff)
qed simp

lemma buckets_distinct:
  assumes "buckets_ok buckets"
  shows "distinct (map ae_key (concat buckets))"
proof (rule distinct_by_bucket [where g = "\<lambda>k. key_bucket k (length buckets)" and offset = 0])
  show "distinct (map ae_key (buckets ! i))" if "i < length buckets" for i
    using assms that by (simp add: buckets_ok_def chain_ok_def)
  show "key_bucket (ae_key x) (length buckets) = i + 0" if "i < length buckets" "x \<in> set (buckets ! i)" for i x
    using buckets_ok_item(3) [OF assms that] by simp
qed

definition item_valid :: "ash_associative_element \<Rightarrow> bool" where
  "item_valid item \<longleftrightarrow> ae_key item \<noteq> [] \<and> ae_hash item = ash_associative_hash (ae_key item)"

lemma buckets_ok_valid: "buckets_ok buckets \<Longrightarrow> item \<in> set (concat buckets) \<Longrightarrow> item_valid item"
  by (auto simp: item_valid_def in_set_conv_nth [of _ buckets] dest: buckets_ok_item(1,2))

lemma push_bucket_length [simp]: "length (push_bucket item buckets) = length buckets"
  by (simp add: push_bucket_def Let_def)

lemma push_bucket_ok:
  assumes ok: "buckets_ok buckets" and ne: "buckets \<noteq> []" and valid: "item_valid item"
    and fresh: "ae_key item \<notin> ae_key ` set (concat buckets)"
  shows "buckets_ok (push_bucket item buckets) \<and>
    map_of (item_pairs (concat (push_bucket item buckets))) =
      (map_of (item_pairs (concat buckets)))(ae_key item \<mapsto> ae_value item) \<and>
    length (concat (push_bucket item buckets)) = Suc (length (concat buckets))"
proof -
  define b where "b = key_bucket (ae_key item) (length buckets)"
  have b: "b < length buckets" using ne by (simp add: b_def)
  have at: "push_bucket item buckets = buckets[b := item # buckets ! b]"
    using valid by (simp add: push_bucket_def item_valid_def b_def Let_def)
  have "ae_key item \<notin> ae_key ` set (buckets ! b)"
    using fresh nth_mem [OF b] by (auto simp: image_iff)
  moreover have "chain_ok (length buckets) b (buckets ! b)" using ok b by (simp add: buckets_ok_def)
  ultimately have "chain_ok (length buckets) b (item # buckets ! b)"
    using valid by (auto simp: chain_ok_def item_ok_def item_valid_def b_def)
  then have "buckets_ok (buckets[b := item # buckets ! b]) \<and>
      map_of (item_pairs (concat (buckets[b := item # buckets ! b]))) =
        (map_of (item_pairs (concat buckets)))(ae_key item \<mapsto> ae_value item)"
    by (rule bucket_update [OF ok b]) (simp_all add: b_def)
  moreover have "length (concat (buckets[b := item # buckets ! b])) = Suc (length (concat buckets))"
    using length_concat_update [OF b, of "item # buckets ! b"] by (simp only: list.size)
  ultimately show ?thesis unfolding at by blast
qed

lemma push_all_ok:
  assumes "buckets_ok buckets" "buckets \<noteq> []" "\<And>item. item \<in> set items \<Longrightarrow> item_valid item"
    and "distinct (map ae_key items)" "ae_key ` set items \<inter> ae_key ` set (concat buckets) = {}"
  shows "buckets_ok (foldl (\<lambda>bs item. push_bucket item bs) buckets items) \<and>
    map_of (item_pairs (concat (foldl (\<lambda>bs item. push_bucket item bs) buckets items))) =
      map_of (item_pairs (concat buckets)) ++ map_of (item_pairs items) \<and>
    length (concat (foldl (\<lambda>bs item. push_bucket item bs) buckets items)) = length (concat buckets) + length items \<and>
    length (foldl (\<lambda>bs item. push_bucket item bs) buckets items) = length buckets"
  using assms
proof (induction items arbitrary: buckets)
  case (Cons item items)
  have step: "buckets_ok (push_bucket item buckets)"
    "map_of (item_pairs (concat (push_bucket item buckets))) =
      (map_of (item_pairs (concat buckets)))(ae_key item \<mapsto> ae_value item)"
    "length (concat (push_bucket item buckets)) = Suc (length (concat buckets))"
    using push_bucket_ok [of buckets item] Cons.prems by auto
  have keys: "ae_key ` set (concat (push_bucket item buckets)) = insert (ae_key item) (ae_key ` set (concat buckets))"
  proof -
    have "ae_key ` set xs = dom (map_of (item_pairs xs))" for xs
      by (simp add: set_eq_iff domIff item_pairs_none)
    then show ?thesis using step(2) by (simp del: set_concat)
  qed
  have "ae_key ` set items \<inter> ae_key ` set (concat (push_bucket item buckets)) = {}"
    unfolding keys using Cons.prems(4,5) by auto
  moreover have "push_bucket item buckets \<noteq> []"
    using Cons.prems(2) by (metis length_0_conv push_bucket_length)
  ultimately have IH: "buckets_ok (foldl (\<lambda>bs item. push_bucket item bs) (push_bucket item buckets) items) \<and>
    map_of (item_pairs (concat (foldl (\<lambda>bs item. push_bucket item bs) (push_bucket item buckets) items))) =
      map_of (item_pairs (concat (push_bucket item buckets))) ++ map_of (item_pairs items) \<and>
    length (concat (foldl (\<lambda>bs item. push_bucket item bs) (push_bucket item buckets) items)) =
      length (concat (push_bucket item buckets)) + length items \<and>
    length (foldl (\<lambda>bs item. push_bucket item bs) (push_bucket item buckets) items) = length (push_bucket item buckets)"
    using Cons.prems(3,4) by (intro Cons.IH step(1)) auto
  have "map_of (item_pairs items) (ae_key item) = None"
    using Cons.prems(4) by (auto simp: item_pairs_none)
  then have "map_of (item_pairs (concat (push_bucket item buckets))) ++ map_of (item_pairs items) =
      map_of (item_pairs (concat buckets)) ++ map_of (item_pairs (item # items))"
    unfolding step(2) by (auto simp: fun_eq_iff map_add_def split: option.splits)
  moreover have "length (concat (push_bucket item buckets)) + length items =
      length (concat buckets) + length (item # items)"
    unfolding step(3) by simp
  ultimately show ?case using IH unfolding foldl.simps push_bucket_length by argo
qed simp

lemma foldl_foldl_concat: "foldl (\<lambda>s xs. foldl f s xs) s xss = foldl f s (concat xss)"
  by (induction xss arbitrary: s) simp_all

lemma resize_ok:
  assumes ok: "buckets_ok (aa_buckets array)" and "0 < n"
    and resize: "ash_associative_resize avail array n = Some array1"
  shows "buckets_ok (aa_buckets array1) \<and> length (aa_buckets array1) = n \<and>
    map_of (item_pairs (concat (aa_buckets array1))) = map_of (item_pairs (concat (aa_buckets array))) \<and>
    length (concat (aa_buckets array1)) = length (concat (aa_buckets array)) \<and> aa_count array1 = aa_count array"
proof -
  have empty: "concat (replicate n []) = []" for n by simp
  have "buckets_ok (replicate n [])" by (simp add: buckets_ok_def chain_ok_def)
  then show ?thesis
    using push_all_ok [of "replicate n []" "concat (aa_buckets array)"] assms
      buckets_distinct [OF ok] buckets_ok_valid [OF ok]
    by (auto simp: ash_associative_resize_def foldl_foldl_concat split: if_splits)
qed

lemma chain_replace_ok:
  assumes "chain_ok n b chain"
  shows "chain_ok n b (chain_replace key (ash_associative_hash key) copy chain) \<and>
    ae_key ` set (chain_replace key (ash_associative_hash key) copy chain) = ae_key ` set chain \<and>
    length (chain_replace key (ash_associative_hash key) copy chain) = length chain \<and>
    map_of (item_pairs (chain_replace key (ash_associative_hash key) copy chain)) =
      (if key \<in> ae_key ` set chain then (map_of (item_pairs chain))(key \<mapsto> copy) else map_of (item_pairs chain))"
  using assms
proof (induction chain)
  case (Cons item chain)
  have "chain_ok n b chain" using Cons.prems by (simp add: chain_ok_def)
  note IH = Cons.IH [OF this]
  have hash: "ae_hash item = ash_associative_hash (ae_key item)"
    using Cons.prems by (simp add: chain_ok_def item_ok_def)
  show ?case
  proof (cases "ae_key item = key")
    case True
    then show ?thesis using Cons.prems hash by (auto simp: chain_ok_def item_ok_def)
  next
    case False
    then have "chain_replace key (ash_associative_hash key) copy (item # chain) =
        item # chain_replace key (ash_associative_hash key) copy chain" by simp
    moreover have "distinct (map ae_key (item # chain_replace key (ash_associative_hash key) copy chain))"
      using IH Cons.prems by (auto simp: chain_ok_def)
    ultimately show ?thesis using False IH Cons.prems
      by (auto simp: chain_ok_def fun_upd_twist)
  qed
qed simp

lemma chain_remove_ok:
  assumes "chain_ok n b chain"
  shows "case chain_remove key (ash_associative_hash key) chain of
      None \<Rightarrow> key \<notin> ae_key ` set chain
    | Some rest \<Rightarrow> key \<in> ae_key ` set chain \<and> chain_ok n b rest \<and> set rest \<subseteq> set chain \<and>
        length chain = Suc (length rest) \<and> map_of (item_pairs rest) = (map_of (item_pairs chain))(key := None)"
  using assms
proof (induction chain)
  case (Cons item chain)
  have "chain_ok n b chain" using Cons.prems by (simp add: chain_ok_def)
  note IH = Cons.IH [OF this]
  have hash: "ae_hash item = ash_associative_hash (ae_key item)"
    using Cons.prems by (simp add: chain_ok_def item_ok_def)
  show ?case
  proof (cases "ae_key item = key")
    case True
    then have "map_of (item_pairs chain) key = None"
      using Cons.prems by (auto simp: chain_ok_def item_pairs_none)
    then show ?thesis using Cons.prems hash True by (auto simp: chain_ok_def item_ok_def fun_upd_idem)
  next
    case False
    then have remove: "chain_remove key (ash_associative_hash key) (item # chain) =
        map_option ((#) item) (chain_remove key (ash_associative_hash key) chain)" by simp
    show ?thesis
    proof (cases "chain_remove key (ash_associative_hash key) chain")
      case None
      with IH False show ?thesis by (simp add: remove)
    next
      case (Some rest)
      with IH have rest: "key \<in> ae_key ` set chain" "chain_ok n b rest" "set rest \<subseteq> set chain"
        "length chain = Suc (length rest)" "map_of (item_pairs rest) = (map_of (item_pairs chain))(key := None)"
        by simp_all
      then have "chain_ok n b (item # rest)" using Cons.prems by (auto simp: chain_ok_def)
      with rest Some False show ?thesis by (auto simp: remove fun_upd_twist)
    qed
  qed
qed simp

section \<open>The operations of associative arrays\<close>

text \<open>What holds of every value the operations make: the asserted predicate, and the load of a hash table.\<close>

definition value_ok :: "ash_value \<Rightarrow> bool" where
  "value_ok value1 \<longleftrightarrow> ash_value_invariants value1 \<and>
     (case value1 of
        Ash_Associative array \<Rightarrow>
          aa_count array \<le> length (aa_buckets array) - length (aa_buckets array) div 4 \<and>
          length (aa_buckets array) \<le> size_max
      | _ \<Rightarrow> True)"

lemma value_okD: "value_ok value1 \<Longrightarrow> ash_value_invariants value1"
  by (simp add: value_ok_def)

lemma value_ok_associative:
  "value_ok (Ash_Associative array) \<longleftrightarrow>
     buckets_ok (aa_buckets array) \<and> length (concat (aa_buckets array)) = aa_count array \<and>
     aa_count array \<le> length (aa_buckets array) - length (aa_buckets array) div 4 \<and>
     length (aa_buckets array) \<le> size_max"
  by (auto simp: value_ok_def associative_invariants_iff)

lemma value_ok_indexed: "value_ok (Ash_Indexed array) \<longleftrightarrow> ash_value_invariants (Ash_Indexed array)"
  by (simp add: value_ok_def)

abbreviation array_map :: "ash_associative_array \<Rightarrow> string \<Rightarrow> string option" where
  "array_map array \<equiv> map_of (item_pairs (concat (aa_buckets array)))"

lemma reserve_step:
  assumes ok: "value_ok (Ash_Associative array)" and ne: "aa_buckets array \<noteq> []"
    and n: "n = length (aa_buckets array) * 2" "length (aa_buckets array) \<le> size_max div 2"
    and resize: "ash_associative_resize avail array n = Some array1"
  shows "value_ok (Ash_Associative array1) \<and> array_map array1 = array_map array \<and>
    aa_buckets array1 \<noteq> [] \<and> aa_count array1 < length (aa_buckets array1) - length (aa_buckets array1) div 4"
proof -
  have pos: "0 < length (aa_buckets array)" using ne by simp
  have "buckets_ok (aa_buckets array)" using ok by (simp add: value_ok_associative)
  from resize_ok [OF this _ resize] n pos have new: "buckets_ok (aa_buckets array1)"
    "length (aa_buckets array1) = n" "array_map array1 = array_map array"
    "length (concat (aa_buckets array1)) = length (concat (aa_buckets array))" "aa_count array1 = aa_count array"
    by simp_all
  have load: "aa_count array \<le> length (aa_buckets array) - length (aa_buckets array) div 4"
    "length (concat (aa_buckets array)) = aa_count array"
    using ok by (simp_all add: value_ok_associative)
  have "aa_count array < n - n div 4" using load(1) n(1) pos by linarith
  moreover have "n \<le> size_max" using n by simp
  moreover have "aa_buckets array1 \<noteq> []" using new(2) n(1) pos by auto
  ultimately show ?thesis using new load(2) by (simp add: value_ok_associative)
qed

lemma reserve_first:
  assumes ok: "value_ok (Ash_Associative array)" and "aa_buckets array = []"
    and resize: "ash_associative_resize avail array 8 = Some array1"
  shows "value_ok (Ash_Associative array1) \<and> array_map array1 = array_map array \<and> aa_buckets array1 \<noteq> []"
proof -
  have "buckets_ok (aa_buckets array)" using ok by (simp add: value_ok_associative)
  from resize_ok [OF this _ resize] show ?thesis
    using ok assms(2) by (auto simp: value_ok_associative)
qed

lemma associative_reserve_ok:
  assumes ok: "value_ok (Ash_Associative array)" and reserve: "associative_reserve avail array = (e, array1)"
  shows "value_ok (Ash_Associative array1) \<and> array_map array1 = array_map array \<and>
    (e = None \<longrightarrow> aa_buckets array1 \<noteq> [] \<and> aa_count array1 < length (aa_buckets array1) - length (aa_buckets array1) div 4)"
proof (cases "if aa_buckets array = [] then ash_associative_resize avail array 8 else Some array")
  case None
  then have "e = Some Value_ENOMEM" "array1 = array"
    using reserve unfolding associative_reserve_def None by simp_all
  with ok show ?thesis by simp
next
  case (Some array2)
  have mid: "value_ok (Ash_Associative array2) \<and> array_map array2 = array_map array \<and> aa_buckets array2 \<noteq> []"
    using Some ok reserve_first [OF ok, of avail array2] by (auto split: if_splits)
  show ?thesis
  proof (cases "aa_count array2 \<ge> length (aa_buckets array2) - length (aa_buckets array2) div 4")
    case False
    then have "e = None" "array1 = array2"
      using reserve unfolding associative_reserve_def Some by (simp_all add: Let_def)
    with mid False show ?thesis by simp
  next
    case full: True
    show ?thesis
    proof (cases "length (aa_buckets array2) > size_max div 2")
      case True
      then have "e = Some Value_ENOMEM" "array1 = array2"
        using reserve full unfolding associative_reserve_def Some by (simp_all add: Let_def)
      with mid show ?thesis by simp
    next
      case False
      show ?thesis
      proof (cases "ash_associative_resize avail array2 (length (aa_buckets array2) * 2)")
        case None
        then have "e = Some Value_ENOMEM" "array1 = array2"
          using reserve full False unfolding associative_reserve_def Some by (simp_all add: Let_def)
        with mid show ?thesis by simp
      next
        case (Some array3)
        then have "e = None" "array1 = array3"
          using reserve full False \<open>(if aa_buckets array = [] then ash_associative_resize avail array 8 else Some array) = Some array2\<close>
          unfolding associative_reserve_def by (simp_all add: Let_def)
        with mid reserve_step [OF _ _ refl _ Some] False show ?thesis by simp
      qed
    qed
  qed
qed

lemma associative_insert_ok:
  assumes ok: "value_ok (Ash_Associative array)" and ne: "aa_buckets array \<noteq> []"
    and load: "aa_count array < length (aa_buckets array) - length (aa_buckets array) div 4"
    and key: "key \<noteq> []" "array_map array key = None"
    and insert: "associative_insert avail array key (ash_associative_hash key) copy = (e, array1)"
  shows "value_ok (Ash_Associative array1) \<and>
    array_map array1 = (if e = None then (array_map array)(key \<mapsto> copy) else array_map array)"
proof -
  consider "e = Some Value_ENOMEM" "array1 = array"
    | "e = None" "array1 = array\<lparr>aa_buckets :=
        push_bucket \<lparr>ae_key = key, ae_value = copy, ae_hash = ash_associative_hash key\<rparr> (aa_buckets array),
        aa_count := aa_count array + 1\<rparr>"
    using insert by (auto simp: associative_insert_def ash_value_duplicate_def split: if_splits)
  then show ?thesis
  proof cases
    case 1
    with ok show ?thesis by simp
  next
    case 2
    have "key \<notin> ae_key ` set (concat (aa_buckets array))"
      using key(2) unfolding item_pairs_none .
    with push_bucket_ok [of "aa_buckets array" "\<lparr>ae_key = key, ae_value = copy, ae_hash = ash_associative_hash key\<rparr>"]
    show ?thesis using ok ne key(1) load 2 by (auto simp: value_ok_associative item_valid_def)
  qed
qed

lemma associative_set_ok:
  assumes ok: "value_ok value1"
    and set: "ash_value_associative_set avail value1 key element = (e, value2)"
  shows "value_ok value2 \<and> is_associative value2 = is_associative value1 \<and>
    (case e of
       Some _ \<Rightarrow> associative_map value2 = associative_map value1
     | None \<Rightarrow> is_associative value1 \<and>
         (\<exists>k t. key = Some k \<and> k \<noteq> [] \<and> element = Some t \<and> associative_map value2 = (associative_map value1)(k \<mapsto> t)))"
proof (cases "\<exists>array k t. value1 = Ash_Associative array \<and> key = Some k \<and> k \<noteq> [] \<and> ash_value_duplicate avail element = Inr t")
  case False
  then have "e \<noteq> None \<and> value2 = value1"
    using set by (cases "ash_value_duplicate avail element")
      (auto simp: ash_value_associative_set_def Let_def split: ash_value.splits option.splits if_splits)
  with ok show ?thesis by auto
next
  case True
  then obtain array k t where v: "value1 = Ash_Associative array" and key: "key = Some k" "k \<noteq> []"
    and copy: "ash_value_duplicate avail element = Inr t" by blast
  have element: "element = Some t"
    using copy by (auto simp: ash_value_duplicate_def split: option.splits if_splits)
  have okb: "buckets_ok (aa_buckets array)" using ok by (simp add: v value_ok_associative)
  note find = associative_find_map [OF okb, of k]
  show ?thesis
  proof (cases "ash_associative_find array k (ash_associative_hash k) = None")
    case False
    define b where "b = key_bucket k (length (aa_buckets array))"
    define buckets where "buckets = (aa_buckets array)
      [b := chain_replace k (ash_associative_hash k) t (aa_buckets array ! b)]"
    have ne: "aa_buckets array \<noteq> []" using False by (auto simp: ash_associative_find_def)
    then have b: "b < length (aa_buckets array)" by (simp add: b_def)
    have v2: "e = None" "value2 = Ash_Associative (array\<lparr>aa_buckets := buckets\<rparr>)"
      using set False key copy by (simp_all add: v ash_value_associative_set_def buckets_def b_def Let_def)
    have chain: "chain_ok (length (aa_buckets array)) b (aa_buckets array ! b)"
      using okb b by (simp add: buckets_ok_def)
    note new = chain_replace_ok [OF chain, of k t]
    have "map_of (item_pairs (concat (aa_buckets array))) k \<noteq> None"
      using False find [symmetric] by auto
    then have "map_of (item_pairs (aa_buckets array ! b)) k \<noteq> None"
      using bucket_lookup [OF okb ne, of k] by (simp add: b_def)
    then have "k \<in> ae_key ` set (aa_buckets array ! b)" unfolding item_pairs_none by (rule notnotD)
    then have replaced: "chain_ok (length (aa_buckets array)) b (chain_replace k (ash_associative_hash k) t (aa_buckets array ! b))"
      "map_of (item_pairs (chain_replace k (ash_associative_hash k) t (aa_buckets array ! b))) =
        (map_of (item_pairs (aa_buckets array ! b)))(k \<mapsto> t)"
      using new by simp_all
    have "buckets_ok buckets \<and> map_of (item_pairs (concat buckets)) = (array_map array)(k \<mapsto> t)"
      unfolding buckets_def
      by (rule bucket_update [OF okb b replaced(1)]) (simp only: replaced(2), simp only: b_def)
    moreover have "length (concat buckets) = length (concat (aa_buckets array))"
      using length_concat_update [OF b, of "chain_replace k (ash_associative_hash k) t (aa_buckets array ! b)"] new
      unfolding buckets_def by linarith
    moreover have "length buckets = length (aa_buckets array)" by (simp add: buckets_def)
    ultimately show ?thesis using ok v v2 key element
      by (simp add: value_ok_associative is_associative_def associative_map_def)
  next
    case absent: True
    obtain e1 array1 where reserve: "associative_reserve avail array = (e1, array1)" by fastforce
    note r = associative_reserve_ok [OF ok [unfolded v] reserve]
    show ?thesis
    proof (cases e1)
      case (Some x)
      then have "e = Some x" "value2 = Ash_Associative array1"
        using set absent key copy reserve by (simp_all add: v ash_value_associative_set_def Let_def)
      with r v show ?thesis by (simp add: is_associative_def associative_map_def)
    next
      case None
      obtain e2 array2 where insert: "associative_insert avail array1 k (ash_associative_hash k) t = (e2, array2)"
        by fastforce
      have out: "e = e2" "value2 = Ash_Associative array2"
        using set absent key copy reserve None insert by (simp_all add: v ash_value_associative_set_def Let_def)
      have "array_map array1 k = None" using r find absent by simp
      with associative_insert_ok [OF _ _ _ key(2) _ insert] r None
      have "value_ok (Ash_Associative array2) \<and>
          array_map array2 = (if e2 = None then (array_map array1)(k \<mapsto> t) else array_map array1)" by blast
      with out v r key element show ?thesis
        by (auto simp: is_associative_def associative_map_def split: option.splits)
    qed
  qed
qed

lemma associative_unset_ok:
  assumes ok: "value_ok value1"
    and unset: "ash_value_associative_unset value1 (Some key) = (removed, value2)"
  shows "value_ok value2 \<and> associative_map value2 = (associative_map value1)(key := None) \<and>
    (removed \<longleftrightarrow> associative_map value1 key \<noteq> None)"
proof (cases "\<exists>array. value1 = Ash_Associative array \<and> aa_buckets array \<noteq> []")
  case False
  then have "\<not> removed \<and> value2 = value1 \<and> associative_map value1 = Map.empty"
    using unset by (auto simp: ash_value_associative_unset_def associative_map_def split: ash_value.splits if_splits)
  with ok show ?thesis by auto
next
  case True
  then obtain array where v: "value1 = Ash_Associative array" and ne: "aa_buckets array \<noteq> []" by blast
  define b where "b = key_bucket key (length (aa_buckets array))"
  have b: "b < length (aa_buckets array)" using ne by (simp add: b_def)
  have okb: "buckets_ok (aa_buckets array)" using ok by (simp add: v value_ok_associative)
  have chain: "chain_ok (length (aa_buckets array)) b (aa_buckets array ! b)"
    using okb b by (simp add: buckets_ok_def)
  note new = chain_remove_ok [OF chain, of key]
  have here: "array_map array key = map_of (item_pairs (aa_buckets array ! b)) key"
    using bucket_lookup [OF okb ne, of key] by (simp add: b_def)
  show ?thesis
  proof (cases "chain_remove key (ash_associative_hash key) (aa_buckets array ! b)")
    case None
    then have "\<not> removed" "value2 = value1"
      using unset ne by (simp_all add: v ash_value_associative_unset_def Let_def b_def)
    moreover have "array_map array key = None" using new None unfolding here item_pairs_none by simp
    ultimately show ?thesis using ok by (simp add: v associative_map_def fun_upd_idem)
  next
    case (Some rest)
    define buckets where "buckets = (aa_buckets array)[b := rest]"
    have out: "removed" "value2 = Ash_Associative (array\<lparr>aa_buckets := buckets, aa_count := aa_count array - 1\<rparr>)"
      using unset ne Some by (simp_all add: v ash_value_associative_unset_def Let_def b_def buckets_def)
    have rest: "key \<in> ae_key ` set (aa_buckets array ! b)" "chain_ok (length (aa_buckets array)) b rest"
      "length (aa_buckets array ! b) = Suc (length rest)"
      "map_of (item_pairs rest) = (map_of (item_pairs (aa_buckets array ! b)))(key := None)"
      using new Some by simp_all
    have "buckets_ok buckets \<and> map_of (item_pairs (concat buckets)) = (array_map array)(key := None)"
      unfolding buckets_def by (rule bucket_update [OF okb b rest(2)]) (simp only: rest(4), simp only: b_def)
    moreover have "length (concat buckets) = length (concat (aa_buckets array)) - 1"
      using length_concat_update [OF b, of rest] rest(3) unfolding buckets_def by linarith
    moreover have "length buckets = length (aa_buckets array)" by (simp add: buckets_def)
    moreover have "array_map array key \<noteq> None" using rest(1) unfolding here item_pairs_none by simp
    ultimately show ?thesis using ok out
      by (auto simp: v value_ok_associative associative_map_def)
  qed
qed

section \<open>The contract of both arrays, and copies\<close>

text \<open>
  What a client of an array relies on: a store that reports success has updated the map at its key,
  and one that fails has left the map alone. Storing a list of elements, as the copy of a value does,
  then makes the map of the list.
\<close>

locale element_store =
  fixes good :: "'s \<Rightarrow> bool" and contents :: "'s \<Rightarrow> 'k \<Rightarrow> string option"
    and put :: "'k \<Rightarrow> string \<Rightarrow> 's \<Rightarrow> value_error option \<times> 's"
  assumes put_good: "good s \<Longrightarrow> put k t s = (e, s1) \<Longrightarrow> good s1"
    and put_done: "good s \<Longrightarrow> put k t s = (None, s1) \<Longrightarrow> contents s1 = (contents s)(k \<mapsto> t)"
    and put_failed: "good s \<Longrightarrow> put k t s = (Some x, s1) \<Longrightarrow> contents s1 = contents s"
begin

lemma put_contents:
  "good s \<Longrightarrow> put k t s = (e, s1) \<Longrightarrow> contents s1 = (if e = None then (contents s)(k \<mapsto> t) else contents s)"
  using put_done put_failed by (cases e) auto

lemma put_all:
  assumes "run_all (\<lambda>(k, t) s. case put k t s of (None, s1) \<Rightarrow> Some s1 | (Some _, _) \<Rightarrow> None) items s = Some s1"
    and "good s"
  shows "good s1 \<and> contents s1 = contents s ++ map_of (rev items)"
  using assms
proof (induction items arbitrary: s)
  case (Cons item items)
  obtain k t where item: "item = (k, t)" by (cases item)
  obtain s2 where put: "put k t s = (None, s2)"
    and rest: "run_all (\<lambda>(k, t) s. case put k t s of (None, s1) \<Rightarrow> Some s1 | (Some _, _) \<Rightarrow> None) items s2 = Some s1"
    using Cons.prems(1) by (auto simp: item split: option.splits prod.splits)
  have "good s1 \<and> contents s1 = contents s2 ++ map_of (rev items)"
    by (rule Cons.IH [OF rest put_good [OF Cons.prems(2) put]])
  then show ?case by (simp add: item put_done [OF Cons.prems(2) put])
qed simp

end

interpretation indexed: element_store "\<lambda>v. value_ok v \<and> is_indexed v" indexed_map
  "\<lambda>k t v. ash_value_indexed_set avail v k (Some t)" for avail
proof unfold_locales
  fix s s1 :: ash_value and k :: u64 and t e x
  assume good: "value_ok s \<and> is_indexed s"
  show "value_ok s1 \<and> is_indexed s1" if "ash_value_indexed_set avail s k (Some t) = (e, s1)"
  proof (cases e)
    case None
    with that have "ash_value_indexed_set avail s k (Some t) = (None, s1)" by simp
    from indexed_set_map [OF value_okD this] good show ?thesis
      by (auto simp: value_ok_indexed is_indexed_def split: ash_value.splits)
  next
    case (Some x)
    with that indexed_set_failed good show ?thesis by blast
  qed
  show "indexed_map s1 = (indexed_map s)(k \<mapsto> t)" if "ash_value_indexed_set avail s k (Some t) = (None, s1)"
    using indexed_set_map [OF value_okD that] good by auto
  show "indexed_map s1 = indexed_map s" if "ash_value_indexed_set avail s k (Some t) = (Some x, s1)"
    using indexed_set_failed [OF that] by simp
qed

interpretation associative: element_store "\<lambda>v. value_ok v \<and> is_associative v" associative_map
  "\<lambda>k t v. ash_value_associative_set avail v (Some k) (Some t)" for avail
proof unfold_locales
  fix s s1 :: ash_value and k t :: string and e x
  assume good: "value_ok s \<and> is_associative s"
  show "value_ok s1 \<and> is_associative s1" if "ash_value_associative_set avail s (Some k) (Some t) = (e, s1)"
    using associative_set_ok [OF _ that] good by simp
  show "associative_map s1 = (associative_map s)(k \<mapsto> t)"
    if "ash_value_associative_set avail s (Some k) (Some t) = (None, s1)"
    using associative_set_ok [OF _ that] good by auto
  show "associative_map s1 = associative_map s"
    if "ash_value_associative_set avail s (Some k) (Some t) = (Some x, s1)"
    using associative_set_ok [OF _ that] good by auto
qed

text \<open>Copies. Without failing allocations the growth of the copy stays within the size of the source.\<close>

lemma store_indexed_put:
  "store_indexed avail item =
     (\<lambda>s. case ash_value_indexed_set avail s (ie_index item) (Some (ie_value item)) of
        (None, s1) \<Rightarrow> Some s1 | (Some _, _) \<Rightarrow> None)"
  by (simp add: store_indexed_def fun_eq_iff)

lemma run_all_store_indexed:
  "run_all (store_indexed avail) items s =
   run_all (\<lambda>(k, t) s. case ash_value_indexed_set avail s k (Some t) of (None, s1) \<Rightarrow> Some s1 | (Some _, _) \<Rightarrow> None)
     (element_pairs items) s"
  by (induction items arbitrary: s) (auto simp: store_indexed_def split: option.splits prod.splits)

lemma run_all_store_associative:
  "run_all (store_associative avail) items s =
   run_all (\<lambda>(k, t) s. case ash_value_associative_set avail s (Some k) (Some t) of (None, s1) \<Rightarrow> Some s1 | (Some _, _) \<Rightarrow> None)
     (item_pairs items) s"
  by (induction items arbitrary: s) (auto simp: store_associative_def split: option.splits prod.splits)

lemma map_of_rev_distinct: "distinct (map fst xs) \<Longrightarrow> map_of (rev xs) = map_of xs"
  by (metis distinct_rev map_of_inject_set rev_map set_rev)

lemma indexed_pairs_distinct:
  "sorted_wrt (<) (map ie_index elements) \<Longrightarrow> distinct (map fst (element_pairs elements))"
  using strict_sorted_iff [of "map ie_index elements"] by (simp add: element_pairs_def comp_def)

lemma item_pairs_keys: "map fst (item_pairs items) = map ae_key items"
  by (simp add: item_pairs_def comp_def)

lemma clone_ok:
  assumes ok: "value_ok value1" and clone: "ash_value_clone avail value1 = Some value2"
  shows "value_ok value2 \<and> ash_value_get_scalar value2 = ash_value_get_scalar value1 \<and>
    indexed_map value2 = indexed_map value1 \<and> associative_map value2 = associative_map value1 \<and>
    is_indexed value2 = is_indexed value1 \<and> is_associative value2 = is_associative value1"
proof (cases value1)
  case (Ash_Scalar s)
  with clone have "value2 = Ash_Scalar s"
    by (cases s) (auto simp: ash_value_clone_def ash_value_init_scalar_def ash_value_duplicate_def split: if_splits)
  with Ash_Scalar ok show ?thesis by simp
next
  case (Ash_Indexed array)
  have start: "value_ok ash_value_init_indexed \<and> is_indexed ash_value_init_indexed"
    "indexed_map ash_value_init_indexed = Map.empty"
    by (simp_all add: ash_value_init_indexed_def value_ok_indexed ash_value_invariants_def is_indexed_def indexed_map_def)
  have "run_all (\<lambda>(k, t) s. case ash_value_indexed_set avail s k (Some t) of (None, s1) \<Rightarrow> Some s1 | (Some _, _) \<Rightarrow> None)
      (element_pairs (ia_elements array)) ash_value_init_indexed = Some value2"
    using clone by (simp add: Ash_Indexed ash_value_clone_def run_all_store_indexed)
  from indexed.put_all [OF this start(1)] have new: "value_ok value2" "is_indexed value2"
    "indexed_map value2 = map_of (rev (element_pairs (ia_elements array)))"
    using start(2) by simp_all
  have "indexed_map value2 = indexed_map value1"
    using ok map_of_rev_distinct [OF indexed_pairs_distinct] new(3)
    by (simp add: Ash_Indexed value_ok_indexed ash_value_invariants_def indexed_map_def)
  with new(1,2) Ash_Indexed show ?thesis
    by (auto simp: is_indexed_def is_associative_def associative_map_def ash_value_get_scalar_def split: ash_value.splits)
next
  case (Ash_Associative array)
  have start: "value_ok ash_value_init_associative \<and> is_associative ash_value_init_associative"
    "associative_map ash_value_init_associative = Map.empty"
    by (simp_all add: ash_value_init_associative_def value_ok_associative buckets_ok_def is_associative_def associative_map_def)
  have "run_all (\<lambda>(k, t) s. case ash_value_associative_set avail s (Some k) (Some t) of (None, s1) \<Rightarrow> Some s1 | (Some _, _) \<Rightarrow> None)
      (item_pairs (concat (aa_buckets array))) ash_value_init_associative = Some value2"
    using clone by (simp add: Ash_Associative ash_value_clone_def run_all_store_associative)
  from associative.put_all [OF this start(1)] have new: "value_ok value2" "is_associative value2"
    "associative_map value2 = map_of (rev (item_pairs (concat (aa_buckets array))))"
    using start(2) by simp_all
  have "distinct (map fst (item_pairs (concat (aa_buckets array))))"
    using ok buckets_distinct unfolding item_pairs_keys by (simp add: Ash_Associative value_ok_associative)
  then have "associative_map value2 = associative_map value1"
    using map_of_rev_distinct new(3) by (simp add: Ash_Associative associative_map_def)
  with new(1,2) Ash_Associative show ?thesis
    by (auto simp: is_indexed_def is_associative_def indexed_map_def ash_value_get_scalar_def split: ash_value.splits)
qed


section \<open>Properties\<close>

text \<open>
  C27: An indexed array behaves as a finite map from indices to texts that is kept sorted: reading
  finds what the map holds, a store that reports success has updated the map and one that reports
  an error has left the value as it was, and removing an index reports whether it was there. The
  predicate the code asserts holds after every operation, so the bisection stays correct.
\<close>

theorem ash_indexed_refines:
  assumes "value_ok value1" and "is_indexed value1"
  shows "ash_value_indexed_get value1 index = indexed_map value1 index \<and>
    (case ash_value_indexed_set avail value1 index (Some t) of (e, value2) \<Rightarrow>
       ash_value_invariants value2 \<and>
       indexed_map value2 = (if e = None then (indexed_map value1)(index \<mapsto> t) else indexed_map value1)) \<and>
    (case ash_value_indexed_unset value1 index of (removed, value2) \<Rightarrow>
       ash_value_invariants value2 \<and> indexed_map value2 = (indexed_map value1)(index := None) \<and>
       removed = (indexed_map value1 index \<noteq> None))"
proof -
  have good: "value_ok value1 \<and> is_indexed value1" using assms by simp
  have "case ash_value_indexed_set avail value1 index (Some t) of (e, value2) \<Rightarrow>
      ash_value_invariants value2 \<and>
      indexed_map value2 = (if e = None then (indexed_map value1)(index \<mapsto> t) else indexed_map value1)"
    using indexed.put_good [OF good, of avail index t] indexed.put_contents [OF good, of avail index t]
    by (auto simp: value_ok_def)
  then show ?thesis
    using indexed_get_map [OF value_okD [OF assms(1)]] indexed_unset_map [OF value_okD [OF assms(1)]]
    by (auto split: prod.splits)
qed

definition sample_array :: ash_value where
  "sample_array = Ash_Indexed \<lparr>ia_elements = [\<lparr>ie_index = 2, ie_value = ''b''\<rparr>, \<lparr>ie_index = 7, ie_value = ''g''\<rparr>], ia_capacity = 4\<rparr>"

lemma ash_indexed_refines_witness:
  "ash_value_indexed_get sample_array 7 = indexed_map sample_array 7 \<and>
   ash_value_indexed_get sample_array 7 = Some ''g'' \<and>
   ash_value_indexed_unset sample_array 5 = (False, sample_array)"
proof -
  have ok: "value_ok sample_array" "is_indexed sample_array" by code_simp+
  have "ash_value_indexed_get sample_array 7 = Some ''g''" by code_simp
  moreover have "ash_value_indexed_unset sample_array 5 = (False, sample_array)" by code_simp
  ultimately show ?thesis using ash_indexed_refines [OF ok] by blast
qed

text \<open>
  C28: An associative array behaves as a finite map from texts to texts, through collisions, growth
  and rehashing: reading finds what the map holds, a store that reports success has updated the map,
  one that reports an error leaves the map as it was (even when the table has grown before the failure),
  and removing a key reports whether it was there. The predicate the code asserts and the bound
  of three quarters on the load hold after every operation.
\<close>

theorem ash_associative_refines:
  assumes "value_ok value1" and "is_associative value1"
  shows "ash_value_associative_get value1 (Some key) = associative_map value1 key \<and>
    (case ash_value_associative_set avail value1 (Some key) (Some t) of (e, value2) \<Rightarrow>
       value_ok value2 \<and>
       associative_map value2 = (if e = None then (associative_map value1)(key \<mapsto> t) else associative_map value1)) \<and>
    (case ash_value_associative_unset value1 (Some key) of (removed, value2) \<Rightarrow>
       value_ok value2 \<and> associative_map value2 = (associative_map value1)(key := None) \<and>
       removed = (associative_map value1 key \<noteq> None))"
proof -
  have good: "value_ok value1 \<and> is_associative value1" using assms by simp
  have "case ash_value_associative_set avail value1 (Some key) (Some t) of (e, value2) \<Rightarrow>
      value_ok value2 \<and>
      associative_map value2 = (if e = None then (associative_map value1)(key \<mapsto> t) else associative_map value1)"
    using associative.put_good [OF good, of avail key t] associative.put_contents [OF good, of avail key t]
    by auto
  then show ?thesis
    using associative_get_map [OF value_okD [OF assms(1)]] associative_unset_ok [OF assms(1)]
    by (auto split: prod.splits)
qed

definition sample_table :: ash_value where
  "sample_table = Ash_Associative \<lparr>aa_buckets =
     [[\<lparr>ae_key = ''k'', ae_value = ''y'', ae_hash = 4953274407327736632\<rparr>], [], [], [],
      [\<lparr>ae_key = ''ab'', ae_value = ''x'', ae_hash = 11217423238573040876\<rparr>], [], [], []], aa_count = 2\<rparr>"

lemma sample_hashes:
  "ash_associative_hash ''ab'' = 11217423238573040876" "ash_associative_hash ''k'' = 4953274407327736632"
  by (simp_all add: ash_associative_hash_def)

lemma sample_table_ok: "value_ok sample_table"
  by (simp add: sample_table_def value_ok_associative buckets_ok_def All_less_Suc chain_ok_def item_ok_def sample_hashes)

lemma ash_associative_refines_witness:
  "ash_value_associative_get sample_table (Some ''ab'') = associative_map sample_table ''ab'' \<and>
   ash_value_associative_get sample_table (Some ''ab'') = Some ''x'' \<and>
   fst (ash_value_associative_unset sample_table (Some ''k''))"
proof -
  have ok: "value_ok sample_table" "is_associative sample_table"
    by (simp_all add: sample_table_ok) (simp add: sample_table_def is_associative_def)
  have "ash_value_associative_get sample_table (Some ''ab'') = Some ''x''"
    by (simp add: sample_table_def ash_value_associative_get_def ash_associative_find_def sample_hashes)
  moreover have "fst (ash_value_associative_unset sample_table (Some ''k''))"
    by (simp add: sample_table_def ash_value_associative_unset_def sample_hashes Let_def)
  ultimately show ?thesis using ash_associative_refines [OF ok] by blast
qed

text \<open>
  A copy of a value has the kind and the contents of its source, whatever its kind, and satisfies
  the predicate the code asserts.
\<close>

lemma ash_clone_same:
  assumes "value_ok value1" and "ash_value_clone avail value1 = Some value2"
  shows "value_ok value2 \<and> ash_value_get_scalar value2 = ash_value_get_scalar value1 \<and>
    indexed_map value2 = indexed_map value1 \<and> associative_map value2 = associative_map value1 \<and>
    is_indexed value2 = is_indexed value1 \<and> is_associative value2 = is_associative value1"
  using assms by (rule clone_ok)

lemma sample_array_clone: "ash_value_clone (\<lambda>_. True) sample_array = Some sample_array"
  by (simp add: sample_array_def ash_value_clone_def ash_value_init_indexed_def store_indexed_def
      ash_value_indexed_set_def ash_indexed_lower_bound_def lower_bound_loop.simps ash_value_duplicate_def
      indexed_reserve_def indexed_insert_def Let_def)

lemma ash_clone_same_witness:
  "\<exists>value2. ash_value_clone (\<lambda>_. True) sample_array = Some value2 \<and> value_ok value2 \<and>
    indexed_map value2 = indexed_map sample_array \<and> indexed_map value2 7 = Some ''g''"
proof -
  have ok: "value_ok sample_array" by code_simp
  have "indexed_map sample_array 7 = Some ''g''" by code_simp
  then show ?thesis using ash_clone_same [OF ok sample_array_clone] sample_array_clone by auto
qed

end
