(* ===== verification/ShellState.thy ===== *)
theory ShellState
  imports ShellValue
begin

text \<open>
  The state of the shell, and its components that only change plain fields: the personality and
  policy of an invocation (\<open>src/src/applets/shell/ash/shell_policy.c\<close>), the catalog of options
  (\<open>shell_options.c\<close>) and the pending control transfers of \<open>break\<close>, \<open>continue\<close> and \<open>return\<close>
  (\<open>control.c\<close>). The record \<open>ash_shell\<close> has the fields of \<open>struct ash_shell\<close>
  (\<open>shell_context.h\<close>) that these parts and the variables use; the environment of the process and
  the locale of the thread, which belong to the process, are fields as well.
\<close>

section \<open>Policy\<close>

datatype ash_shell_personality = Personality_Invalid | Personality_Posix_Sh | Personality_Bash

datatype ash_bash_compat_level =
    Bash_Compat_None | Bash_Compat_31 | Bash_Compat_32 | Bash_Compat_40 | Bash_Compat_41 | Bash_Compat_42
  | Bash_Compat_43 | Bash_Compat_44 | Bash_Compat_50 | Bash_Compat_51 | Bash_Compat_52 | Bash_Compat_53

record ash_shell_policy =
  sp_personality :: ash_shell_personality
  sp_flags :: u32
  sp_bash_compat :: ash_bash_compat_level

abbreviation POLICY_POSIX :: u32 where "POLICY_POSIX \<equiv> 1"
abbreviation POLICY_INTERACTIVE :: u32 where "POLICY_INTERACTIVE \<equiv> 2"
abbreviation POLICY_LOGIN :: u32 where "POLICY_LOGIN \<equiv> 4"
abbreviation POLICY_RESTRICTED :: u32 where "POLICY_RESTRICTED \<equiv> 8"
abbreviation POLICY_PRIVILEGED :: u32 where "POLICY_PRIVILEGED \<equiv> 16"
abbreviation POLICY_STANDALONE_APPLETS :: u32 where "POLICY_STANDALONE_APPLETS \<equiv> 32"
abbreviation POLICY_STARTUP_SUPPRESSED :: u32 where "POLICY_STARTUP_SUPPRESSED \<equiv> 64"

definition ash_bash_compat_valid :: "ash_bash_compat_level \<Rightarrow> bool" where
  "ash_bash_compat_valid compatibility \<longleftrightarrow> compatibility \<noteq> Bash_Compat_None"

definition ash_shell_policy_posix_sh :: "u32 \<Rightarrow> ash_shell_policy" where
  "ash_shell_policy_posix_sh flags =
     \<lparr>sp_personality = Personality_Posix_Sh, sp_flags = flags OR POLICY_POSIX, sp_bash_compat = Bash_Compat_None\<rparr>"

definition ash_shell_policy_bash :: "ash_bash_compat_level \<Rightarrow> u32 \<Rightarrow> ash_shell_policy" where
  "ash_shell_policy_bash compatibility flags =
     \<lparr>sp_personality = Personality_Bash, sp_flags = flags, sp_bash_compat = compatibility\<rparr>"

definition ash_shell_policy_for_invocation :: "cstr \<Rightarrow> u32 \<Rightarrow> ash_shell_policy option" where
  "ash_shell_policy_for_invocation name flags =
     (case name of
        None \<Rightarrow> None
      | Some n \<Rightarrow>
          if n = ''bash'' then Some (ash_shell_policy_bash Bash_Compat_53 flags)
          else if n = ''ash'' \<or> n = ''sh'' then Some (ash_shell_policy_posix_sh flags)
          else None)"

definition ash_shell_policy_valid :: "ash_shell_policy \<Rightarrow> bool" where
  "ash_shell_policy_valid policy =
     (let known_flags = POLICY_POSIX OR POLICY_INTERACTIVE OR POLICY_LOGIN OR POLICY_RESTRICTED OR
            POLICY_PRIVILEGED OR POLICY_STANDALONE_APPLETS OR POLICY_STARTUP_SUPPRESSED in
      if sp_flags policy AND NOT known_flags \<noteq> 0 then False
      else case sp_personality policy of
          Personality_Invalid \<Rightarrow> False
        | Personality_Posix_Sh \<Rightarrow> sp_flags policy AND POLICY_POSIX \<noteq> 0 \<and> sp_bash_compat policy = Bash_Compat_None
        | Personality_Bash \<Rightarrow> ash_bash_compat_valid (sp_bash_compat policy))"

definition ash_shell_policy_has :: "ash_shell_policy \<Rightarrow> u32 \<Rightarrow> bool" where
  "ash_shell_policy_has policy flag \<longleftrightarrow> sp_flags policy AND flag \<noteq> 0"

definition ash_shell_policy_is_bash :: "ash_shell_policy \<Rightarrow> bool" where
  "ash_shell_policy_is_bash policy \<longleftrightarrow> sp_personality policy = Personality_Bash"

definition ash_shell_policy_expands_aliases :: "ash_shell_policy \<Rightarrow> bool" where
  "ash_shell_policy_expands_aliases policy \<longleftrightarrow>
     ash_shell_policy_valid policy \<and>
     (ash_shell_policy_has policy POLICY_POSIX \<or> ash_shell_policy_has policy POLICY_INTERACTIVE)"

definition ash_shell_policy_allows_startup :: "ash_shell_policy \<Rightarrow> bool" where
  "ash_shell_policy_allows_startup policy \<longleftrightarrow>
     ash_shell_policy_valid policy \<and> \<not> ash_shell_policy_has policy POLICY_STARTUP_SUPPRESSED"

definition ash_shell_policy_reads_bash_env :: "ash_shell_policy \<Rightarrow> bool" where
  "ash_shell_policy_reads_bash_env policy \<longleftrightarrow>
     ash_shell_policy_allows_startup policy \<and> ash_shell_policy_is_bash policy \<and>
     \<not> ash_shell_policy_has policy POLICY_POSIX \<and> \<not> ash_shell_policy_has policy POLICY_INTERACTIVE \<and>
     \<not> ash_shell_policy_has policy POLICY_PRIVILEGED"

definition ash_shell_policy_reads_env :: "ash_shell_policy \<Rightarrow> bool" where
  "ash_shell_policy_reads_env policy \<longleftrightarrow>
     ash_shell_policy_allows_startup policy \<and> ash_shell_policy_has policy POLICY_POSIX \<and>
     ash_shell_policy_has policy POLICY_INTERACTIVE \<and> \<not> ash_shell_policy_has policy POLICY_PRIVILEGED"

definition ash_shell_policy_noninteractive_posix :: "ash_shell_policy \<Rightarrow> bool" where
  "ash_shell_policy_noninteractive_posix policy \<longleftrightarrow>
     ash_shell_policy_valid policy \<and> ash_shell_policy_has policy POLICY_POSIX \<and>
     \<not> ash_shell_policy_has policy POLICY_INTERACTIVE"

definition ash_shell_policy_globs_redirections :: "ash_shell_policy \<Rightarrow> bool" where
  "ash_shell_policy_globs_redirections policy \<longleftrightarrow>
     ash_shell_policy_valid policy \<and>
     (\<not> ash_shell_policy_has policy POLICY_POSIX \<or> ash_shell_policy_has policy POLICY_INTERACTIVE)"

section \<open>Options\<close>

datatype option_state_source = Option_Stored | Option_Interactive | Option_Privileged

record option_descriptor =
  od_name :: cstr
  od_option :: u32
  od_uses :: u32
  od_letter :: char
  od_state :: option_state_source
  od_personalities :: u32

datatype option_result = Option_Unknown | Option_Unavailable | Option_Applied

abbreviation OPTION_ALLEXPORT :: u32 where "OPTION_ALLEXPORT \<equiv> 0x1"
abbreviation OPTION_NOTIFY :: u32 where "OPTION_NOTIFY \<equiv> 0x2"
abbreviation OPTION_NOCLOBBER :: u32 where "OPTION_NOCLOBBER \<equiv> 0x4"
abbreviation OPTION_ERREXIT :: u32 where "OPTION_ERREXIT \<equiv> 0x8"
abbreviation OPTION_NOGLOB :: u32 where "OPTION_NOGLOB \<equiv> 0x10"
abbreviation OPTION_MONITOR :: u32 where "OPTION_MONITOR \<equiv> 0x20"
abbreviation OPTION_NOEXEC :: u32 where "OPTION_NOEXEC \<equiv> 0x40"
abbreviation OPTION_NOUNSET :: u32 where "OPTION_NOUNSET \<equiv> 0x80"
abbreviation OPTION_VERBOSE :: u32 where "OPTION_VERBOSE \<equiv> 0x100"
abbreviation OPTION_XTRACE :: u32 where "OPTION_XTRACE \<equiv> 0x200"
abbreviation OPTION_STDIN :: u32 where "OPTION_STDIN \<equiv> 0x400"
abbreviation OPTION_ONECMD :: u32 where "OPTION_ONECMD \<equiv> 0x800"
abbreviation OPTION_PIPEFAIL :: u32 where "OPTION_PIPEFAIL \<equiv> 0x1000"
abbreviation OPTION_PHYSICAL :: u32 where "OPTION_PHYSICAL \<equiv> 0x2000"
abbreviation OPTION_ALL :: u32 where "OPTION_ALL \<equiv> 0x3FFF"

abbreviation USE_INVOCATION_SHORT :: u32 where "USE_INVOCATION_SHORT \<equiv> 1"
abbreviation USE_INVOCATION_NAME :: u32 where "USE_INVOCATION_NAME \<equiv> 2"
abbreviation USE_SET_SHORT :: u32 where "USE_SET_SHORT \<equiv> 4"
abbreviation USE_SET_NAME :: u32 where "USE_SET_NAME \<equiv> 8"
abbreviation USE_INVOCATION_AND_SET :: u32 where "USE_INVOCATION_AND_SET \<equiv> 15"

abbreviation PERSONALITIES_BASH :: u32 where "PERSONALITIES_BASH \<equiv> 2"
abbreviation PERSONALITIES_ALL :: u32 where "PERSONALITIES_ALL \<equiv> 3"

definition option_entry ::
  "cstr \<Rightarrow> u32 \<Rightarrow> u32 \<Rightarrow> char \<Rightarrow> option_state_source \<Rightarrow> u32 \<Rightarrow> option_descriptor" where
  "option_entry name option1 uses letter state personalities =
     \<lparr>od_name = name, od_option = option1, od_uses = uses, od_letter = letter, od_state = state,
      od_personalities = personalities\<rparr>"

definition ash_shell_options :: "option_descriptor list" where
  "ash_shell_options =
    [option_entry (Some ''allexport'') OPTION_ALLEXPORT USE_INVOCATION_AND_SET (CHR ''a'') Option_Stored PERSONALITIES_ALL,
     option_entry (Some ''notify'') OPTION_NOTIFY 0 (CHR ''b'') Option_Stored PERSONALITIES_ALL,
     option_entry (Some ''noclobber'') OPTION_NOCLOBBER USE_INVOCATION_AND_SET (CHR ''C'') Option_Stored PERSONALITIES_ALL,
     option_entry (Some ''errexit'') OPTION_ERREXIT USE_INVOCATION_AND_SET (CHR ''e'') Option_Stored PERSONALITIES_ALL,
     option_entry (Some ''noglob'') OPTION_NOGLOB USE_INVOCATION_AND_SET (CHR ''f'') Option_Stored PERSONALITIES_ALL,
     option_entry None 0 0 (CHR ''i'') Option_Interactive PERSONALITIES_ALL,
     option_entry (Some ''monitor'') OPTION_MONITOR 0 (CHR ''m'') Option_Stored PERSONALITIES_ALL,
     option_entry (Some ''noexec'') OPTION_NOEXEC USE_INVOCATION_AND_SET (CHR ''n'') Option_Stored PERSONALITIES_ALL,
     option_entry (Some ''privileged'') 0 0 (CHR ''p'') Option_Privileged PERSONALITIES_ALL,
     option_entry (Some ''physical'') OPTION_PHYSICAL USE_INVOCATION_AND_SET (CHR ''P'') Option_Stored PERSONALITIES_ALL,
     option_entry None OPTION_STDIN USE_INVOCATION_SHORT (CHR ''s'') Option_Stored PERSONALITIES_ALL,
     option_entry (Some ''onecmd'') OPTION_ONECMD USE_INVOCATION_AND_SET (CHR ''t'') Option_Stored PERSONALITIES_BASH,
     option_entry (Some ''nounset'') OPTION_NOUNSET USE_INVOCATION_AND_SET (CHR ''u'') Option_Stored PERSONALITIES_ALL,
     option_entry (Some ''pipefail'') OPTION_PIPEFAIL (USE_INVOCATION_NAME OR USE_SET_NAME) (CHR 0x00) Option_Stored PERSONALITIES_ALL,
     option_entry (Some ''verbose'') OPTION_VERBOSE USE_INVOCATION_AND_SET (CHR ''v'') Option_Stored PERSONALITIES_ALL,
     option_entry (Some ''xtrace'') OPTION_XTRACE 0 (CHR ''x'') Option_Stored PERSONALITIES_ALL]"

definition ash_shell_option_use_valid :: "u32 \<Rightarrow> bool" where
  "ash_shell_option_use_valid use \<longleftrightarrow>
     use = USE_INVOCATION_SHORT \<or> use = USE_INVOCATION_NAME \<or> use = USE_SET_SHORT \<or> use = USE_SET_NAME"

definition ash_shell_option_personality_mask :: "ash_shell_personality \<Rightarrow> u32" where
  "ash_shell_option_personality_mask personality =
     (case personality of Personality_Invalid \<Rightarrow> 0 | Personality_Posix_Sh \<Rightarrow> 1 | Personality_Bash \<Rightarrow> 2)"

definition ash_shell_options_valid :: "u32 \<Rightarrow> bool" where
  "ash_shell_options_valid options \<longleftrightarrow> options AND NOT OPTION_ALL = 0"

definition ash_shell_options_noexec :: "u32 \<Rightarrow> bool \<Rightarrow> bool" where
  "ash_shell_options_noexec options interactive \<longleftrightarrow> options AND OPTION_NOEXEC \<noteq> 0 \<and> \<not> interactive"

definition ash_shell_options_valid_for_personality :: "u32 \<Rightarrow> ash_shell_personality \<Rightarrow> bool" where
  "ash_shell_options_valid_for_personality options personality =
     (let personality_mask = ash_shell_option_personality_mask personality in
      if \<not> ash_shell_options_valid options \<or> personality_mask = 0 then False
      else list_all (\<lambda>d. \<not> (od_personalities d AND personality_mask = 0 \<and> options AND od_option d \<noteq> 0)) ash_shell_options)"

definition ash_shell_option_available :: "option_descriptor \<Rightarrow> ash_shell_personality \<Rightarrow> u32 \<Rightarrow> bool" where
  "ash_shell_option_available descriptor personality use \<longleftrightarrow>
     od_uses descriptor AND use \<noteq> 0 \<and> od_personalities descriptor AND ash_shell_option_personality_mask personality \<noteq> 0"

definition ash_shell_option_apply ::
  "u32 \<Rightarrow> option_descriptor \<Rightarrow> bool \<Rightarrow> ash_shell_personality \<Rightarrow> u32 \<Rightarrow> option_result \<times> u32" where
  "ash_shell_option_apply options descriptor enabled personality use =
     (if \<not> ash_shell_options_valid_for_personality options personality \<or> \<not> ash_shell_option_use_valid use
      then (Option_Unknown, options)
      else if \<not> ash_shell_option_available descriptor personality use then (Option_Unavailable, options)
      else (Option_Applied,
            if enabled then options OR od_option descriptor else options AND NOT (od_option descriptor)))"

definition ash_shell_option_apply_letter ::
  "u32 \<Rightarrow> char \<Rightarrow> bool \<Rightarrow> ash_shell_personality \<Rightarrow> u32 \<Rightarrow> option_result \<times> u32" where
  "ash_shell_option_apply_letter options letter enabled personality use =
     (case find (\<lambda>d. od_letter d \<noteq> CHR 0x00 \<and> od_letter d = letter) ash_shell_options of
        None \<Rightarrow> (Option_Unknown, options)
      | Some d \<Rightarrow> ash_shell_option_apply options d enabled personality use)"

definition ash_shell_option_apply_name ::
  "u32 \<Rightarrow> cstr \<Rightarrow> bool \<Rightarrow> ash_shell_personality \<Rightarrow> u32 \<Rightarrow> option_result \<times> u32" where
  "ash_shell_option_apply_name options name enabled personality use =
     (case name of
        None \<Rightarrow> (Option_Unknown, options)
      | Some n \<Rightarrow>
          (case find (\<lambda>d. od_name d = Some n) ash_shell_options of
             None \<Rightarrow> (Option_Unknown, options)
           | Some d \<Rightarrow> ash_shell_option_apply options d enabled personality use))"

text \<open>The visit of the names that \<open>set -o\<close> lists: the names and values the visitor is given.\<close>

definition ash_shell_options_visit_set_names ::
  "u32 \<Rightarrow> ash_shell_personality \<Rightarrow> (string \<Rightarrow> bool \<Rightarrow> 's \<Rightarrow> 's option) \<Rightarrow> 's \<Rightarrow> 's option" where
  "ash_shell_options_visit_set_names options personality visit context1 =
     (if \<not> ash_shell_options_valid_for_personality options personality then None
      else run_all (\<lambda>d s. case od_name d of
              None \<Rightarrow> Some s
            | Some n \<Rightarrow>
                if ash_shell_option_available d personality USE_SET_NAME
                then visit n (options AND od_option d \<noteq> 0) s else Some s) ash_shell_options context1)"

definition option_enabled :: "u32 \<Rightarrow> bool \<Rightarrow> bool \<Rightarrow> option_descriptor \<Rightarrow> bool" where
  "option_enabled options interactive privileged d =
     (case od_state d of
        Option_Stored \<Rightarrow> options AND od_option d \<noteq> 0
      | Option_Interactive \<Rightarrow> interactive
      | Option_Privileged \<Rightarrow> privileged)"

text \<open>\<open>None\<close> when nothing is written; else the text before the terminating NUL.\<close>

definition ash_shell_options_format_letters :: "u32 \<Rightarrow> bool \<Rightarrow> bool \<Rightarrow> nat \<Rightarrow> string option" where
  "ash_shell_options_format_letters options interactive privileged output_size =
     (if output_size = 0 then None
      else Some (foldl (\<lambda>output d.
             if option_enabled options interactive privileged d \<and> od_letter d \<noteq> CHR 0x00 \<and>
                length output + 1 < output_size
             then output @ [od_letter d] else output) [] ash_shell_options))"

section \<open>The state\<close>

record ash_var =
  av_name :: string
  av_value :: ash_value
  av_attributes :: u32

datatype ash_scope_kind = Scope_Global | Scope_Temporary_Assignment | Scope_Function

record ash_positional_frame =
  pf_argv0 :: cstr
  pf_values :: "string list"
  pf_owned :: "string list option"

record ash_scope =
  sc_kind :: ash_scope_kind
  sc_variables :: "ash_var list"
  sc_positionals :: "ash_positional_frame option"

record ash_locale_scope =
  ls_active :: nat
  ls_lexical :: nat
  ls_requests :: "string list"
  ls_dirty :: bool

datatype ash_control_kind = Control_None | Control_Break | Control_Continue | Control_Return | Control_Discard_Unit

datatype ash_loop_control = Loop_Control_None | Loop_Control_Break | Loop_Control_Continue | Loop_Control_Propagate

record ash_control_state =
  cs_pending :: ash_control_kind
  cs_remaining_levels :: u32
  cs_loop_depth :: u32
  cs_function_depth :: u32
  cs_status :: int

datatype ash_input_kind =
    Input_Invalid | Input_Command_String | Input_Stdin | Input_Script_File | Input_Sourced_File | Input_Eval
  | Input_Command_Substitution | Input_Prompt_Command | Input_Completion_Hook | Input_Interactive | Input_Trap

datatype ash_execution_frame = Source_Frame ash_input_kind | Function_Frame

text \<open>The scopes are listed from the current one to the global one, the frames from the innermost.\<close>

record ash_shell =
  sh_scopes :: "ash_scope list"
  sh_pending_exports :: "ash_var list"
  sh_locale_scope :: "ash_locale_scope option"
  sh_options :: u32
  sh_policy :: ash_shell_policy
  sh_execution_frames :: "ash_execution_frame list"
  sh_forked_execution :: bool
  sh_should_exit :: bool
  sh_requested_exit_status :: int
  sh_last_status :: int
  sh_control :: ash_control_state
  sh_environ :: "string \<Rightarrow> string option"
  sh_thread_locale :: nat

section \<open>Control transfers\<close>

abbreviation update_control :: "(ash_control_state \<Rightarrow> ash_control_state) \<Rightarrow> ash_shell \<Rightarrow> ash_shell" where
  "update_control \<equiv> sh_control_update"

definition ash_control_publish_status :: "ash_shell \<Rightarrow> int \<Rightarrow> ash_shell" where
  "ash_control_publish_status shell status =
     (if cs_pending (sh_control shell) \<noteq> Control_Return then shell\<lparr>sh_last_status := status\<rparr> else shell)"

definition ash_control_enter_loop :: "ash_shell \<Rightarrow> ash_shell" where
  "ash_control_enter_loop shell = update_control (\<lambda>c. c\<lparr>cs_loop_depth := cs_loop_depth c + 1\<rparr>) shell"

definition ash_control_leave_loop :: "ash_shell \<Rightarrow> ash_shell" where
  "ash_control_leave_loop shell =
     (if cs_loop_depth (sh_control shell) \<noteq> 0
      then update_control (\<lambda>c. c\<lparr>cs_loop_depth := cs_loop_depth c - 1\<rparr>) shell else shell)"

definition ash_control_request_loop :: "ash_shell \<Rightarrow> ash_control_kind \<Rightarrow> u32 \<Rightarrow> ash_shell" where
  "ash_control_request_loop shell kind levels =
     (if (kind \<noteq> Control_Break \<and> kind \<noteq> Control_Continue) \<or> levels = 0 \<or> cs_loop_depth (sh_control shell) = 0
      then shell
      else update_control (\<lambda>c. c\<lparr>cs_pending := kind,
             cs_remaining_levels := (if levels < cs_loop_depth c then levels else cs_loop_depth c)\<rparr>) shell)"

definition ash_control_pending :: "ash_shell \<Rightarrow> bool" where
  "ash_control_pending shell \<longleftrightarrow> cs_pending (sh_control shell) \<noteq> Control_None"

definition ash_control_consume_loop :: "ash_shell \<Rightarrow> ash_loop_control \<times> ash_shell" where
  "ash_control_consume_loop shell =
     (let c = sh_control shell in
      if cs_pending c \<noteq> Control_Break \<and> cs_pending c \<noteq> Control_Continue then (Loop_Control_None, shell)
      else if cs_remaining_levels c > 1
        then (Loop_Control_Propagate, update_control (\<lambda>c. c\<lparr>cs_remaining_levels := cs_remaining_levels c - 1\<rparr>) shell)
      else (if cs_pending c = Control_Break then Loop_Control_Break else Loop_Control_Continue,
            update_control (\<lambda>c. c\<lparr>cs_pending := Control_None, cs_remaining_levels := 0\<rparr>) shell))"

definition ash_control_enter_function :: "ash_shell \<Rightarrow> ash_shell" where
  "ash_control_enter_function shell = update_control (\<lambda>c. c\<lparr>cs_function_depth := cs_function_depth c + 1\<rparr>) shell"

definition ash_control_leave_function :: "ash_shell \<Rightarrow> ash_shell" where
  "ash_control_leave_function shell =
     (if cs_function_depth (sh_control shell) \<noteq> 0
      then update_control (\<lambda>c. c\<lparr>cs_function_depth := cs_function_depth c - 1\<rparr>) shell else shell)"

definition ash_control_return_allowed :: "ash_shell \<Rightarrow> bool" where
  "ash_control_return_allowed shell \<longleftrightarrow>
     cs_function_depth (sh_control shell) \<noteq> 0 \<or>
     list_ex (\<lambda>frame. case frame of Source_Frame kind \<Rightarrow> kind = Input_Sourced_File | Function_Frame \<Rightarrow> False) (sh_execution_frames shell)"

definition ash_control_request_return :: "ash_shell \<Rightarrow> int \<Rightarrow> ash_shell option" where
  "ash_control_request_return shell status =
     (if \<not> ash_control_return_allowed shell then None
      else Some (update_control (\<lambda>c. c\<lparr>cs_pending := Control_Return, cs_remaining_levels := 0, cs_status := status\<rparr>) shell))"

definition ash_control_consume_return :: "ash_shell \<Rightarrow> (int \<times> ash_shell) option" where
  "ash_control_consume_return shell =
     (if cs_pending (sh_control shell) \<noteq> Control_Return then None
      else Some (cs_status (sh_control shell),
             update_control (\<lambda>c. c\<lparr>cs_pending := Control_None, cs_status := 0\<rparr>) shell))"

definition ash_control_discard_unit :: "ash_shell \<Rightarrow> int \<Rightarrow> ash_shell" where
  "ash_control_discard_unit shell status =
     update_control (\<lambda>c. c\<lparr>cs_pending := Control_Discard_Unit, cs_remaining_levels := 0, cs_status := status\<rparr>) shell"

definition ash_control_unit_discarded :: "ash_shell \<Rightarrow> bool" where
  "ash_control_unit_discarded shell \<longleftrightarrow> cs_pending (sh_control shell) = Control_Discard_Unit"

definition ash_control_consume_unit_discard :: "ash_shell \<Rightarrow> (int \<times> ash_shell) option" where
  "ash_control_consume_unit_discard shell =
     (if \<not> ash_control_unit_discarded shell then None
      else Some (cs_status (sh_control shell),
             update_control (\<lambda>c. c\<lparr>cs_pending := Control_None, cs_status := 0\<rparr>) shell))"

section \<open>What the operations guarantee\<close>

text \<open>
  The loops that are left one after the other while a transfer is pending: the loop consumes its part
  of the request, and leaves when it is told to pass it on.
\<close>

fun loop_unwind :: "nat \<Rightarrow> ash_shell \<Rightarrow> ash_loop_control list \<times> ash_shell" where
  "loop_unwind 0 shell = ([], shell)"
| "loop_unwind (Suc depth) shell =
     (case ash_control_consume_loop shell of
        (control, shell1) \<Rightarrow>
          if control = Loop_Control_Propagate then
            (case loop_unwind depth (ash_control_leave_loop shell1) of (controls, shell2) \<Rightarrow> (control # controls, shell2))
          else ([control], shell1))"

definition loop_target :: "ash_control_kind \<Rightarrow> ash_loop_control" where
  "loop_target kind = (if kind = Control_Break then Loop_Control_Break else Loop_Control_Continue)"

lemma unat_pred32: "w \<noteq> 0 \<Longrightarrow> unat (w - 1 :: 32 word) = unat w - 1"
  by (simp add: unat_minus_one)

lemma consume_loop_last:
  assumes "cs_pending (sh_control shell) = Control_Break \<or> cs_pending (sh_control shell) = Control_Continue"
    and "cs_remaining_levels (sh_control shell) = 1"
  shows "ash_control_consume_loop shell =
    (loop_target (cs_pending (sh_control shell)),
     update_control (\<lambda>c. c\<lparr>cs_pending := Control_None, cs_remaining_levels := 0\<rparr>) shell)"
  using assms by (auto simp: ash_control_consume_loop_def loop_target_def Let_def)

lemma consume_loop_more:
  assumes "cs_pending (sh_control shell) = Control_Break \<or> cs_pending (sh_control shell) = Control_Continue"
    and "1 < cs_remaining_levels (sh_control shell)"
  shows "ash_control_consume_loop shell =
    (Loop_Control_Propagate, update_control (\<lambda>c. c\<lparr>cs_remaining_levels := cs_remaining_levels c - 1\<rparr>) shell)"
  using assms by (auto simp: ash_control_consume_loop_def Let_def)

lemma loop_unwind_levels:
  assumes "cs_pending (sh_control shell) = kind" "kind = Control_Break \<or> kind = Control_Continue"
    and "unat (cs_remaining_levels (sh_control shell)) = Suc n"
    and "Suc n \<le> depth" "unat (cs_loop_depth (sh_control shell)) = depth"
  shows "fst (loop_unwind depth shell) = replicate n Loop_Control_Propagate @ [loop_target kind] \<and>
    \<not> ash_control_pending (snd (loop_unwind depth shell)) \<and>
    unat (cs_loop_depth (sh_control (snd (loop_unwind depth shell)))) = depth - n"
  using assms
proof (induction n arbitrary: depth shell)
  case 0
  then obtain d where d: "depth = Suc d" by (cases depth) auto
  have one: "cs_remaining_levels (sh_control shell) = 1"
    using 0(3) by (simp add: unat_eq_iff)
  show ?case
    using 0 consume_loop_last [OF _ one]
    by (auto simp: d loop_target_def ash_control_pending_def)
next
  case (Suc n)
  then obtain d where d: "depth = Suc d" by (cases depth) auto
  have more: "1 < cs_remaining_levels (sh_control shell)"
    using Suc.prems(3) by (simp add: word_less_nat_alt)
  have nonzero: "cs_loop_depth (sh_control shell) \<noteq> 0" "cs_remaining_levels (sh_control shell) \<noteq> 0"
    using Suc.prems(3,5) d by auto
  define next1 where "next1 = ash_control_leave_loop
    (update_control (\<lambda>c. c\<lparr>cs_remaining_levels := cs_remaining_levels c - 1\<rparr>) shell)"
  have next1: "cs_pending (sh_control next1) = kind" "unat (cs_remaining_levels (sh_control next1)) = Suc n"
    "unat (cs_loop_depth (sh_control next1)) = d"
    using Suc.prems nonzero d by (simp_all add: next1_def ash_control_leave_loop_def unat_pred32)
  have "fst (loop_unwind d next1) = replicate n Loop_Control_Propagate @ [loop_target kind] \<and>
      \<not> ash_control_pending (snd (loop_unwind d next1)) \<and>
      unat (cs_loop_depth (sh_control (snd (loop_unwind d next1)))) = d - n"
    by (rule Suc.IH) (use next1 Suc.prems d in auto)
  moreover have "loop_unwind depth shell =
      (Loop_Control_Propagate # fst (loop_unwind d next1), snd (loop_unwind d next1))"
    using consume_loop_more [OF _ more] Suc.prems(1,2) by (auto simp: d next1_def split: prod.splits)
  ultimately show ?case using d by simp
qed

text \<open>
  A \<open>break\<close> or \<open>continue\<close> of \<open>levels\<close> inside nested loops reaches exactly the loop that many
  levels out, or the outermost one when there are fewer: the loops inside pass the transfer on and
  are left, the target breaks or continues, and afterwards no transfer is pending.
\<close>

lemma control_loop_levels:
  assumes "kind = Control_Break \<or> kind = Control_Continue" and "levels \<noteq> 0"
    and "cs_loop_depth (sh_control shell) \<noteq> 0"
  defines "depth \<equiv> unat (cs_loop_depth (sh_control shell))"
    and "reached \<equiv> min (unat levels) (unat (cs_loop_depth (sh_control shell)))"
  shows "fst (loop_unwind depth (ash_control_request_loop shell kind levels)) =
      replicate (reached - 1) Loop_Control_Propagate @ [loop_target kind] \<and>
    \<not> ash_control_pending (snd (loop_unwind depth (ash_control_request_loop shell kind levels))) \<and>
    unat (cs_loop_depth (sh_control (snd (loop_unwind depth (ash_control_request_loop shell kind levels))))) =
      depth - (reached - 1)"
proof (rule loop_unwind_levels)
  have pos: "0 < unat levels" "0 < depth" using assms(2,3) by (simp_all add: depth_def unat_gt_0)
  then have reached: "Suc (reached - 1) = reached" by (simp add: reached_def depth_def)
  show "unat (cs_remaining_levels (sh_control (ash_control_request_loop shell kind levels))) = Suc (reached - 1)"
    using assms(1-3) unfolding reached
    by (auto simp: ash_control_request_loop_def reached_def word_less_nat_alt)
  show "Suc (reached - 1) \<le> depth" unfolding reached by (simp add: reached_def depth_def)
qed (use assms in \<open>auto simp: ash_control_request_loop_def\<close>)

definition sample_shell :: ash_shell where
  "sample_shell = \<lparr>sh_scopes = [\<lparr>sc_kind = Scope_Global, sc_variables = [],
       sc_positionals = Some \<lparr>pf_argv0 = Some ''sh'', pf_values = [], pf_owned = None\<rparr>\<rparr>],
     sh_pending_exports = [], sh_locale_scope = None, sh_options = 0, sh_policy = ash_shell_policy_posix_sh 0,
     sh_execution_frames = [], sh_forked_execution = False, sh_should_exit = False, sh_requested_exit_status = 0,
     sh_last_status = 0,
     sh_control = \<lparr>cs_pending = Control_None, cs_remaining_levels = 0, cs_loop_depth = 3, cs_function_depth = 0, cs_status = 0\<rparr>,
     sh_environ = (\<lambda>_. None), sh_thread_locale = 0\<rparr>"

lemma control_loop_levels_witness:
  "fst (loop_unwind 3 (ash_control_request_loop sample_shell Control_Continue 2)) =
     [Loop_Control_Propagate, Loop_Control_Continue] \<and>
   \<not> ash_control_pending (snd (loop_unwind 3 (ash_control_request_loop sample_shell Control_Continue 2)))"
  using control_loop_levels [of Control_Continue 2 sample_shell]
  by (simp add: sample_shell_def loop_target_def)

text \<open>Options: an option that is applied keeps the option word valid for its personality.\<close>

lemma and_or_within:
  fixes x y m :: "'a::len word"
  assumes "x AND m = 0" "y AND m = 0"
  shows "(x OR y) AND m = 0" "(x AND NOT y) AND m = 0"
proof -
  show "(x OR y) AND m = 0" using assms by (simp add: bit.conj_disj_distrib2)
  have "(x AND NOT y) AND m = (x AND m) AND NOT y" by (simp add: ac_simps)
  then show "(x AND NOT y) AND m = 0" using assms(1) by simp
qed

lemma option_apply_valid:
  assumes "ash_shell_option_apply options d enabled personality use = (Option_Applied, options1)"
    and "d \<in> set ash_shell_options"
  shows "ash_shell_options_valid options1 \<and> options1 AND NOT (od_option d) = options AND NOT (od_option d) \<and>
    options1 AND od_option d = (if enabled then od_option d else 0)"
proof -
  have ok: "ash_shell_options_valid options"
    and o1: "options1 = (if enabled then options OR od_option d else options AND NOT (od_option d))"
    using assms(1)
    by (auto simp: ash_shell_option_apply_def ash_shell_options_valid_for_personality_def Let_def split: if_splits)
  have "list_all (\<lambda>d. od_option d AND NOT OPTION_ALL = 0) ash_shell_options"
    by (simp add: ash_shell_options_def option_entry_def)
  then have "od_option d AND NOT OPTION_ALL = 0" using assms(2) by (simp add: list_all_iff)
  then have "ash_shell_options_valid options1"
    using ok and_or_within [of options "NOT OPTION_ALL" "od_option d"]
    \<open>od_option d AND NOT OPTION_ALL = 0\<close>
    unfolding o1 ash_shell_options_valid_def by (cases enabled) simp_all
  moreover have "options1 AND NOT (od_option d) = options AND NOT (od_option d)"
    unfolding o1 by (cases enabled) (auto intro!: bit_word_eqI simp: bit_and_iff bit_or_iff bit_not_iff)
  moreover have "options1 AND od_option d = (if enabled then od_option d else 0)"
    unfolding o1 by (cases enabled) (auto intro!: bit_word_eqI simp: bit_and_iff bit_or_iff bit_not_iff)
  ultimately show ?thesis by blast
qed

end
