(* ===== verification/ShellScope.thy ===== *)
theory ShellScope
  imports ShellState
begin

text \<open>
  The scope stack of the shell (\<open>src/src/applets/shell/ash/scope.c\<close>) and the names of variables
  (\<open>syntax.h\<close>, \<open>variables.c\<close>): frames of variables and positional parameters, lookup through the frames with
  the four modes, name references with the bound that detects their cycles, and the predicates the
  code asserts. A binding is the index of its frame in the stack, counted from the current one, with
  the variable. \<open>avail n\<close> says whether the allocator serves a request of \<open>n\<close> bytes. Popping a frame
  publishes variables, so it is with the variables.
\<close>

section \<open>Names, attributes and lists of variables\<close>

definition ash_is_name_start :: "char \<Rightarrow> bool" where
  "ash_is_name_start ch \<longleftrightarrow>
     (CHR ''A'' \<le> ch \<and> ch \<le> CHR ''Z'') \<or> (CHR ''a'' \<le> ch \<and> ch \<le> CHR ''z'') \<or> ch = CHR ''_''"

definition ash_is_name_char :: "char \<Rightarrow> bool" where
  "ash_is_name_char ch \<longleftrightarrow> ash_is_name_start ch \<or> (CHR ''0'' \<le> ch \<and> ch \<le> CHR ''9'')"

definition ash_is_valid_name_span :: "string \<Rightarrow> bool" where
  "ash_is_valid_name_span name =
     (case name of
        [] \<Rightarrow> False
      | c # cs \<Rightarrow> ash_is_name_start c \<and> list_all ash_is_name_char cs)"

text \<open>The name and the value of \<open>name=value\<close>.\<close>

definition ash_parse_assignment :: "string \<Rightarrow> (string \<times> string) option" where
  "ash_parse_assignment input =
     (let name = takeWhile (\<lambda>c. c \<noteq> CHR ''='') input in
      if length name = length input \<or> name = [] then None
      else if \<not> ash_is_valid_name_span name then None
      else Some (name, drop (length name + 1) input))"

abbreviation ATTR_INTEGER :: u32 where "ATTR_INTEGER \<equiv> 1"
abbreviation ATTR_READONLY :: u32 where "ATTR_READONLY \<equiv> 2"
abbreviation ATTR_EXPORT :: u32 where "ATTR_EXPORT \<equiv> 4"
abbreviation ATTR_NAMEREF :: u32 where "ATTR_NAMEREF \<equiv> 8"
abbreviation ATTR_LOCAL :: u32 where "ATTR_LOCAL \<equiv> 16"
abbreviation ATTR_TRACE :: u32 where "ATTR_TRACE \<equiv> 32"
abbreviation ATTR_UPPERCASE :: u32 where "ATTR_UPPERCASE \<equiv> 64"
abbreviation ATTR_LOWERCASE :: u32 where "ATTR_LOWERCASE \<equiv> 128"
abbreviation ATTR_ALL :: u32 where "ATTR_ALL \<equiv> 255"

definition ash_var_attributes_valid :: "u32 \<Rightarrow> bool" where
  "ash_var_attributes_valid attributes \<longleftrightarrow>
     attributes AND NOT ATTR_ALL = 0 \<and>
     attributes AND (ATTR_UPPERCASE OR ATTR_LOWERCASE) \<noteq> ATTR_UPPERCASE OR ATTR_LOWERCASE"

definition has_attribute :: "ash_var \<Rightarrow> u32 \<Rightarrow> bool" where
  "has_attribute var attribute \<longleftrightarrow> av_attributes var AND attribute \<noteq> 0"

definition ash_var_list_invariants :: "ash_var list \<Rightarrow> bool" where
  "ash_var_list_invariants variables \<longleftrightarrow>
     list_all (\<lambda>v. ash_is_valid_name_span (av_name v) \<and> ash_var_attributes_valid (av_attributes v) \<and>
        ash_value_invariants (av_value v)) variables \<and>
     sorted_wrt (\<lambda>v duplicate. av_name v \<noteq> av_name duplicate) variables"

section \<open>The stack\<close>

definition scope_invariants :: "ash_scope \<Rightarrow> bool" where
  "scope_invariants scope \<longleftrightarrow>
     ash_var_list_invariants (sc_variables scope) \<and>
     (let owns_positionals = (sc_kind scope = Scope_Global \<or> sc_kind scope = Scope_Function) in
      (sc_positionals scope \<noteq> None) = owns_positionals) \<and>
     (case sc_positionals scope of
        None \<Rightarrow> True
      | Some frame \<Rightarrow>
          pf_argv0 frame \<noteq> None \<and>
          (case pf_owned frame of None \<Rightarrow> True | Some owned \<Rightarrow> length (pf_values frame) \<le> length owned))"

definition ash_scope_stack_invariants :: "ash_shell \<Rightarrow> bool" where
  "ash_scope_stack_invariants shell \<longleftrightarrow>
     sh_scopes shell \<noteq> [] \<and> ash_var_list_invariants (sh_pending_exports shell) \<and>
     list_all scope_invariants (sh_scopes shell) \<and>
     list_all (\<lambda>scope. sc_kind scope \<noteq> Scope_Global) (butlast (sh_scopes shell)) \<and>
     length (filter (\<lambda>scope. sc_kind scope = Scope_Global) (sh_scopes shell)) = 1"

definition ash_scope_stack_init :: "(nat \<Rightarrow> bool) \<Rightarrow> ash_shell \<Rightarrow> cstr \<Rightarrow> string list \<Rightarrow> ash_shell option" where
  "ash_scope_stack_init avail shell argv0 positional_values =
     (if sh_scopes shell \<noteq> [] \<or> sh_pending_exports shell \<noteq> [] \<or> argv0 = None then None
      else if \<not> avail 72 then None
      else Some (shell\<lparr>sh_scopes :=
             [\<lparr>sc_kind = Scope_Global, sc_variables = [],
               sc_positionals = Some \<lparr>pf_argv0 = argv0, pf_values = positional_values, pf_owned = None\<rparr>\<rparr>]\<rparr>))"

definition ash_scope_push_temporary :: "(nat \<Rightarrow> bool) \<Rightarrow> ash_shell \<Rightarrow> ash_shell option" where
  "ash_scope_push_temporary avail shell =
     (if sh_scopes shell = [] then None
      else if \<not> avail 72 then None
      else Some (shell\<lparr>sh_scopes :=
             \<lparr>sc_kind = Scope_Temporary_Assignment, sc_variables = [], sc_positionals = None\<rparr> # sh_scopes shell\<rparr>))"

fun first_positionals :: "ash_scope list \<Rightarrow> ash_positional_frame option" where
  "first_positionals [] = None"
| "first_positionals (scope # scopes) =
     (case sc_positionals scope of Some frame \<Rightarrow> Some frame | None \<Rightarrow> first_positionals scopes)"

definition ash_scope_positionals :: "ash_shell \<Rightarrow> ash_positional_frame option" where
  "ash_scope_positionals shell = first_positionals (sh_scopes shell)"

definition ash_scope_push_function :: "(nat \<Rightarrow> bool) \<Rightarrow> ash_shell \<Rightarrow> string list \<Rightarrow> ash_shell option" where
  "ash_scope_push_function avail shell positional_values =
     (if sh_scopes shell = [] then None
      else case ash_scope_positionals shell of
          None \<Rightarrow> None
        | Some caller \<Rightarrow>
            if \<not> avail 72 then None
            else Some (shell\<lparr>sh_scopes :=
                   \<lparr>sc_kind = Scope_Function, sc_variables = [],
                    sc_positionals = Some \<lparr>pf_argv0 = pf_argv0 caller, pf_values = positional_values, pf_owned = None\<rparr>\<rparr>
                   # sh_scopes shell\<rparr>))"

definition ash_scope_global :: "ash_shell \<Rightarrow> nat option" where
  "ash_scope_global shell =
     (if sh_scopes shell = [] then None
      else let i = length (sh_scopes shell) - 1 in
        if sc_kind (sh_scopes shell ! i) = Scope_Global then Some i else None)"

fun function_scope_from :: "nat \<Rightarrow> ash_scope list \<Rightarrow> nat option" where
  "function_scope_from i [] = None"
| "function_scope_from i (scope # scopes) =
     (if sc_kind scope = Scope_Function then Some i else function_scope_from (Suc i) scopes)"

definition ash_scope_current_function :: "ash_shell \<Rightarrow> nat option" where
  "ash_scope_current_function shell = function_scope_from 0 (sh_scopes shell)"

section \<open>Positional parameters\<close>

definition ash_positional_frame_copy :: "(nat \<Rightarrow> bool) \<Rightarrow> ash_positional_frame \<Rightarrow> ash_positional_frame option" where
  "ash_positional_frame_copy avail source =
     (if pf_argv0 source = None then None
      else if length (pf_values source) > size_max div 8 then None
      else if pf_values source = [] then Some \<lparr>pf_argv0 = pf_argv0 source, pf_values = [], pf_owned = None\<rparr>
      else if \<not> avail (length (pf_values source) * 8) then None
      else if list_all (\<lambda>v. avail (length v + 1)) (pf_values source)
        then Some \<lparr>pf_argv0 = pf_argv0 source, pf_values = pf_values source, pf_owned = Some (pf_values source)\<rparr>
      else None)"

fun replace_positionals :: "ash_positional_frame \<Rightarrow> ash_scope list \<Rightarrow> ash_scope list" where
  "replace_positionals frame [] = []"
| "replace_positionals frame (scope # scopes) =
     (if sc_positionals scope \<noteq> None then scope\<lparr>sc_positionals := Some frame\<rparr> # scopes
      else scope # replace_positionals frame scopes)"

definition ash_scope_set_positionals :: "(nat \<Rightarrow> bool) \<Rightarrow> ash_shell \<Rightarrow> string list \<Rightarrow> ash_shell option" where
  "ash_scope_set_positionals avail shell values =
     (case ash_scope_positionals shell of
        None \<Rightarrow> None
      | Some active \<Rightarrow>
          (case ash_positional_frame_copy avail \<lparr>pf_argv0 = pf_argv0 active, pf_values = values, pf_owned = None\<rparr> of
             None \<Rightarrow> None
           | Some replacement \<Rightarrow> Some (shell\<lparr>sh_scopes := replace_positionals replacement (sh_scopes shell)\<rparr>)))"

section \<open>Lookup\<close>

datatype lookup_mode = Lookup_Visible | Lookup_Current | Lookup_Global | Lookup_Outer

datatype lookup_result =
    Lookup_Found nat ash_var
  | Lookup_Unset cstr
  | Lookup_Invalid_Nameref cstr
  | Lookup_Nameref_Cycle

definition ash_scope_find_in_frame :: "ash_scope \<Rightarrow> string \<Rightarrow> ash_var option" where
  "ash_scope_find_in_frame scope name = find (\<lambda>v. av_name v = name) (sc_variables scope)"

fun find_binding :: "nat \<Rightarrow> ash_scope list \<Rightarrow> string \<Rightarrow> (nat \<times> ash_var) option" where
  "find_binding i [] name = None"
| "find_binding i (scope # scopes) name =
     (case ash_scope_find_in_frame scope name of
        Some var \<Rightarrow> Some (i, var)
      | None \<Rightarrow> find_binding (Suc i) scopes name)"

definition ash_scope_lookup_raw :: "ash_shell \<Rightarrow> string \<Rightarrow> lookup_mode \<Rightarrow> (nat \<times> ash_var) option" where
  "ash_scope_lookup_raw shell name mode =
     (case mode of
        Lookup_Visible \<Rightarrow> find_binding 0 (sh_scopes shell) name
      | Lookup_Current \<Rightarrow> find_binding 0 (take 1 (sh_scopes shell)) name
      | Lookup_Global \<Rightarrow>
          (case ash_scope_global shell of
             None \<Rightarrow> None
           | Some i \<Rightarrow> find_binding i [sh_scopes shell ! i] name)
      | Lookup_Outer \<Rightarrow> find_binding 1 (drop 1 (sh_scopes shell)) name)"

text \<open>The lookup for update walks the frames in the same way.\<close>

definition ash_scope_lookup_variable_mut :: "ash_shell \<Rightarrow> string \<Rightarrow> lookup_mode \<Rightarrow> (nat \<times> ash_var) option" where
  "ash_scope_lookup_variable_mut shell name mode =
     (case mode of
        Lookup_Current \<Rightarrow> find_binding 0 (take 1 (sh_scopes shell)) name
      | Lookup_Global \<Rightarrow>
          (case ash_scope_global shell of
             None \<Rightarrow> None
           | Some i \<Rightarrow> find_binding i [sh_scopes shell ! i] name)
      | Lookup_Outer \<Rightarrow> find_binding 1 (drop 1 (sh_scopes shell)) name
      | Lookup_Visible \<Rightarrow> find_binding 0 (sh_scopes shell) name)"

definition ash_scope_variable_count :: "ash_shell \<Rightarrow> nat" where
  "ash_scope_variable_count shell = sum_list (map (\<lambda>scope. length (sc_variables scope)) (sh_scopes shell))"

text \<open>
  The loop over name references. Its counter \<open>remaining\<close> is the number of bindings less the number
  of references followed.
\<close>

fun nameref_loop :: "ash_shell \<Rightarrow> nat \<Rightarrow> nat \<times> ash_var \<Rightarrow> lookup_result" where
  "nameref_loop shell remaining (owner, var) =
     (if has_attribute var ATTR_NAMEREF then
        (case remaining of
           0 \<Rightarrow> Lookup_Nameref_Cycle
         | Suc remaining1 \<Rightarrow>
             (case ash_value_get_scalar (av_value var) of
                None \<Rightarrow> Lookup_Invalid_Nameref None
              | Some target \<Rightarrow>
                  if \<not> ash_is_valid_name_span target then Lookup_Invalid_Nameref (Some target)
                  else case ash_scope_lookup_raw shell target Lookup_Visible of
                      None \<Rightarrow> Lookup_Unset (Some target)
                    | Some binding \<Rightarrow> nameref_loop shell remaining1 binding))
      else Lookup_Found owner var)"

definition ash_scope_lookup :: "ash_shell \<Rightarrow> string \<Rightarrow> lookup_mode \<Rightarrow> bool \<Rightarrow> lookup_result" where
  "ash_scope_lookup shell name mode follow_nameref =
     (case ash_scope_lookup_raw shell name mode of
        None \<Rightarrow> Lookup_Unset (Some name)
      | Some (owner, var) \<Rightarrow>
          if follow_nameref then nameref_loop shell (ash_scope_variable_count shell) (owner, var)
          else Lookup_Found owner var)"

section \<open>Name references\<close>

text \<open>One reference followed, and \<open>n\<close> of them, without any counter.\<close>

definition nameref_next :: "ash_shell \<Rightarrow> nat \<times> ash_var \<Rightarrow> (nat \<times> ash_var) option" where
  "nameref_next shell binding =
     (case ash_value_get_scalar (av_value (snd binding)) of
        None \<Rightarrow> None
      | Some target \<Rightarrow>
          if ash_is_valid_name_span target then ash_scope_lookup_raw shell target Lookup_Visible else None)"

definition is_nameref :: "nat \<times> ash_var \<Rightarrow> bool" where
  "is_nameref binding \<longleftrightarrow> has_attribute (snd binding) ATTR_NAMEREF"

fun nameref_chain :: "ash_shell \<Rightarrow> nat \<Rightarrow> nat \<times> ash_var \<Rightarrow> (nat \<times> ash_var) option" where
  "nameref_chain shell 0 binding = Some binding"
| "nameref_chain shell (Suc n) binding =
     (if is_nameref binding then
        (case nameref_next shell binding of None \<Rightarrow> None | Some b \<Rightarrow> nameref_chain shell n b)
      else None)"

definition endless_nameref :: "ash_shell \<Rightarrow> nat \<times> ash_var \<Rightarrow> bool" where
  "endless_nameref shell binding \<longleftrightarrow> (\<forall>n. \<exists>b. nameref_chain shell n binding = Some b \<and> is_nameref b)"

definition all_bindings :: "ash_shell \<Rightarrow> (nat \<times> ash_var) set" where
  "all_bindings shell = {(i, v). i < length (sh_scopes shell) \<and> v \<in> set (sc_variables (sh_scopes shell ! i))}"

lemma nameref_loop_unfold:
  "nameref_loop shell remaining binding =
     (if is_nameref binding then
        (case remaining of
           0 \<Rightarrow> Lookup_Nameref_Cycle
         | Suc remaining1 \<Rightarrow>
             (case nameref_next shell binding of
                Some b \<Rightarrow> nameref_loop shell remaining1 b
              | None \<Rightarrow>
                 (case ash_value_get_scalar (av_value (snd binding)) of
                    None \<Rightarrow> Lookup_Invalid_Nameref None
                  | Some target \<Rightarrow>
                      if ash_is_valid_name_span target then Lookup_Unset (Some target)
                      else Lookup_Invalid_Nameref (Some target))))
      else Lookup_Found (fst binding) (snd binding))"
  by (cases binding) (auto simp: is_nameref_def nameref_next_def split: option.splits nat.splits)

lemma find_binding_in:
  "find_binding i scopes name = Some (j, v) \<Longrightarrow>
   i \<le> j \<and> j - i < length scopes \<and> v \<in> set (sc_variables (scopes ! (j - i))) \<and> av_name v = name"
proof (induction i scopes name rule: find_binding.induct)
  case (2 i scope scopes name)
  show ?case
  proof (cases "ash_scope_find_in_frame scope name")
    case None
    with 2 have "Suc i \<le> j \<and> j - Suc i < length scopes \<and>
        v \<in> set (sc_variables (scopes ! (j - Suc i))) \<and> av_name v = name" by simp
    moreover from this have "j - i = Suc (j - Suc i)" by linarith
    ultimately show ?thesis by simp
  next
    case (Some w)
    with 2(2) have "i = j" "w = v" by simp_all
    moreover have "w \<in> set (sc_variables scope) \<and> av_name w = name"
      using Some by (auto simp: ash_scope_find_in_frame_def find_Some_iff)
    ultimately show ?thesis by simp
  qed
qed simp

lemma lookup_raw_in:
  assumes "ash_scope_lookup_raw shell name mode = Some (i, v)"
  shows "(i, v) \<in> all_bindings shell \<and> av_name v = name"
proof (cases mode)
  case Lookup_Visible
  with assms find_binding_in [of 0 "sh_scopes shell" name i v] show ?thesis
    by (simp add: ash_scope_lookup_raw_def all_bindings_def)
next
  case Lookup_Current
  with assms find_binding_in [of 0 "take 1 (sh_scopes shell)" name i v] show ?thesis
    by (cases "sh_scopes shell") (auto simp: ash_scope_lookup_raw_def all_bindings_def simp del: find_binding.simps)
next
  case Lookup_Global
  then obtain g where g: "ash_scope_global shell = Some g" "find_binding g [sh_scopes shell ! g] name = Some (i, v)"
    using assms by (auto simp: ash_scope_lookup_raw_def split: option.splits)
  from g(1) have "g < length (sh_scopes shell)"
    by (auto simp: ash_scope_global_def Let_def split: if_splits)
  with find_binding_in [OF g(2)] show ?thesis by (auto simp: all_bindings_def)
next
  case Lookup_Outer
  then have "find_binding 1 (drop 1 (sh_scopes shell)) name = Some (i, v)"
    using assms by (simp add: ash_scope_lookup_raw_def)
  from find_binding_in [OF this] show ?thesis
    by (auto simp: all_bindings_def)
qed

lemma card_all_bindings: "finite (all_bindings shell) \<and> card (all_bindings shell) \<le> ash_scope_variable_count shell"
proof -
  define part where "part i = (\<lambda>v. (i, v)) ` set (sc_variables (sh_scopes shell ! i))" for i
  have all: "all_bindings shell = (\<Union>i \<in> {..<length (sh_scopes shell)}. part i)"
    by (auto simp: all_bindings_def part_def)
  have "card (\<Union>i \<in> {..<length (sh_scopes shell)}. part i) \<le> (\<Sum>i \<in> {..<length (sh_scopes shell)}. card (part i))"
    by (rule card_UN_le) simp
  also have "\<dots> \<le> (\<Sum>i \<in> {..<length (sh_scopes shell)}. length (sc_variables (sh_scopes shell ! i)))"
    by (rule sum_mono) (metis card_image_le card_length finite_set le_trans part_def)
  also have "\<dots> = ash_scope_variable_count shell"
    by (simp add: ash_scope_variable_count_def sum_list_sum_nth atLeast0LessThan)
  finally show ?thesis unfolding all by (auto simp: part_def)
qed

lemma nameref_next_in: "nameref_next shell binding = Some b \<Longrightarrow> b \<in> all_bindings shell"
  using lookup_raw_in [of shell _ Lookup_Visible "fst b" "snd b"]
  by (auto simp: nameref_next_def split: option.splits if_splits)

lemma nameref_chain_in:
  "binding \<in> all_bindings shell \<Longrightarrow> nameref_chain shell n binding = Some b \<Longrightarrow> b \<in> all_bindings shell"
  by (induction n arbitrary: binding) (auto split: if_splits option.splits dest: nameref_next_in)

lemma nameref_chain_add:
  "nameref_chain shell m binding = Some b \<Longrightarrow> nameref_chain shell (m + n) binding = nameref_chain shell n b"
  by (induction m arbitrary: binding) (auto split: if_splits option.splits)

lemma nameref_chain_prefix:
  assumes "nameref_chain shell n binding = Some b" "m < n"
  shows "\<exists>c. nameref_chain shell m binding = Some c \<and> is_nameref c"
  using assms
proof (induction m arbitrary: n binding)
  case 0
  then show ?case by (cases n) (auto split: if_splits)
next
  case (Suc m)
  then obtain n' where n: "n = Suc n'" by (cases n) auto
  with Suc.prems obtain c where c: "is_nameref binding" "nameref_next shell binding = Some c"
      "nameref_chain shell n' c = Some b"
    by (auto split: if_splits option.splits)
  with Suc.IH [OF c(3)] Suc.prems n show ?case by simp
qed

lemma nameref_loop_cycle:
  "nameref_loop shell r binding = Lookup_Nameref_Cycle \<longleftrightarrow>
     (\<exists>b. nameref_chain shell r binding = Some b \<and> is_nameref b)"
proof (induction r arbitrary: binding)
  case 0
  then show ?case by (subst nameref_loop_unfold) simp
next
  case (Suc r)
  show ?case
    by (subst nameref_loop_unfold) (auto simp: Suc.IH split: option.splits)
qed

lemma nameref_loop_found:
  "nameref_loop shell r binding = Lookup_Found i v \<Longrightarrow>
     \<exists>n \<le> r. nameref_chain shell n binding = Some (i, v) \<and> \<not> is_nameref (i, v)"
proof (induction r arbitrary: binding)
  case 0
  then show ?case by (subst (asm) nameref_loop_unfold) (auto split: if_splits)
next
  case (Suc r)
  show ?case
  proof (cases "is_nameref binding")
    case False
    with Suc.prems have "binding = (i, v)"
      by (subst (asm) nameref_loop_unfold) (auto simp: prod_eq_iff)
    with False show ?thesis by (intro exI [of _ 0]) simp
  next
    case True
    with Suc.prems obtain b where b: "nameref_next shell binding = Some b"
      "nameref_loop shell r b = Lookup_Found i v"
      by (subst (asm) nameref_loop_unfold) (auto split: option.splits if_splits)
    from Suc.IH [OF b(2)] obtain n where "n \<le> r" "nameref_chain shell n b = Some (i, v)" "\<not> is_nameref (i, v)"
      by blast
    with True b(1) show ?thesis by (intro exI [of _ "Suc n"]) simp
  qed
qed

text \<open>As many references as there are bindings, and one more: two of them are the same.\<close>

lemma nameref_long_chain_endless:
  assumes start: "binding \<in> all_bindings shell"
    and long: "nameref_chain shell (ash_scope_variable_count shell) binding = Some last1" "is_nameref last1"
  shows "endless_nameref shell binding"
proof -
  define count1 where "count1 = ash_scope_variable_count shell"
  define at where "at i = the (nameref_chain shell i binding)" for i
  have at: "nameref_chain shell i binding = Some (at i) \<and> is_nameref (at i)" if "i \<le> count1" for i
  proof (cases "i = count1")
    case True
    with long show ?thesis by (simp add: at_def count1_def)
  next
    case False
    with that nameref_chain_prefix [OF long(1), of i] show ?thesis by (auto simp: at_def count1_def)
  qed
  have "at ` {..count1} \<subseteq> all_bindings shell"
  proof
    fix b assume "b \<in> at ` {..count1}"
    then obtain i where "i \<le> count1" "b = at i" by auto
    with at [of i] nameref_chain_in [OF start] show "b \<in> all_bindings shell" by blast
  qed
  then have "card (at ` {..count1}) \<le> count1"
    using card_all_bindings [of shell] card_mono [of "all_bindings shell" "at ` {..count1}"] by (simp add: count1_def)
  then have "\<not> inj_on at {..count1}" using card_image [of at "{..count1}"] by auto
  then obtain i j where ij: "i < j" "j \<le> count1" "at i = at j"
    unfolding inj_on_def by (metis atMost_iff linorder_neqE_nat)
  define p where "p = j - i"
  have loop: "nameref_chain shell (i + p) binding = nameref_chain shell i binding"
    using at [of i] at [of j] ij by (simp add: p_def)
  have p: "0 < p" using ij by (simp add: p_def)
  have "\<exists>b. nameref_chain shell n binding = Some b \<and> is_nameref b" for n
  proof (induction n rule: less_induct)
    case (less n)
    show ?case
    proof (cases "n \<le> j")
      case True
      with ij at [of n] show ?thesis by simp
    next
      case False
      then have n: "n = (i + p) + (n - j)" "n - p = i + (n - j)" using ij by (simp_all add: p_def)
      have "nameref_chain shell n binding = nameref_chain shell (n - j) (at i)"
        using nameref_chain_add [of shell "i + p" binding "at i" "n - j"] loop at [of i] ij n(1) by simp
      also have "\<dots> = nameref_chain shell (n - p) binding"
        using nameref_chain_add [of shell i binding "at i" "n - j"] at [of i] ij n(2) by simp
      finally show ?thesis using less [of "n - p"] p False by simp
    qed
  qed
  then show ?thesis by (simp add: endless_nameref_def)
qed

text \<open>
  C29: Following name references always ends, and with the right verdict: a cycle is reported when and only
  when following the references from the first binding would never end, and a variable that is
  found is the end of the chain, which is not a reference itself. The number of variables in all
  frames is enough as the bound, because a longer chain has met a binding twice.
\<close>

theorem nameref_cycle_exact:
  assumes "ash_scope_lookup_raw shell name mode = Some binding"
  shows "(ash_scope_lookup shell name mode True = Lookup_Nameref_Cycle \<longleftrightarrow> endless_nameref shell binding) \<and>
    (case ash_scope_lookup shell name mode True of
       Lookup_Found i v \<Rightarrow> (\<exists>n. nameref_chain shell n binding = Some (i, v)) \<and> \<not> is_nameref (i, v)
     | _ \<Rightarrow> True)"
proof -
  have lookup: "ash_scope_lookup shell name mode True = nameref_loop shell (ash_scope_variable_count shell) binding"
    using assms by (simp add: ash_scope_lookup_def split: prod.splits)
  have "binding \<in> all_bindings shell" using lookup_raw_in [of shell name mode "fst binding" "snd binding"] assms by simp
  then have "ash_scope_lookup shell name mode True = Lookup_Nameref_Cycle \<longleftrightarrow> endless_nameref shell binding"
    unfolding lookup nameref_loop_cycle using nameref_long_chain_endless
    unfolding endless_nameref_def by blast
  then show ?thesis
    using nameref_loop_found [of shell "ash_scope_variable_count shell" binding]
    by (auto simp: lookup split: lookup_result.splits)
qed

definition reference_var :: "string \<Rightarrow> string \<Rightarrow> ash_var" where
  "reference_var name target =
     \<lparr>av_name = name, av_value = Ash_Scalar (Some target), av_attributes = ATTR_NAMEREF\<rparr>"

definition sample_references :: ash_shell where
  "sample_references = sample_shell\<lparr>sh_scopes :=
     [\<lparr>sc_kind = Scope_Global, sc_variables = [reference_var ''a'' ''b'', reference_var ''b'' ''a''],
       sc_positionals = Some \<lparr>pf_argv0 = Some ''sh'', pf_values = [], pf_owned = None\<rparr>\<rparr>]\<rparr>"

lemma nameref_cycle_exact_witness:
  "ash_scope_lookup sample_references ''a'' Lookup_Visible True = Lookup_Nameref_Cycle \<and>
   endless_nameref sample_references (0, reference_var ''a'' ''b'')"
proof -
  have "ash_scope_lookup_raw sample_references ''a'' Lookup_Visible = Some (0, reference_var ''a'' ''b'')"
    by (simp add: sample_references_def ash_scope_lookup_raw_def ash_scope_find_in_frame_def reference_var_def)
  moreover have "ash_scope_lookup sample_references ''a'' Lookup_Visible True = Lookup_Nameref_Cycle"
    by code_simp
  ultimately show ?thesis using nameref_cycle_exact by blast
qed

end
