(* ===== verification/ShellVars.thy ===== *)
theory ShellVars
  imports ShellScope
begin

text \<open>
  The variables of the shell (\<open>src/src/applets/shell/ash/variables.c\<close>), the locale that follows them
  (\<open>locale_state.c\<close>) and the release of a frame (\<open>ash_scope_pop\<close> of \<open>scope.c\<close>). A setter changes a
  frame, publishes the visible binding of the name to the environment of the process, and undoes the
  change when that fails; a release publishes what becomes visible, and keeps the names it could not
  publish. The state-changing functions return the C result with the new state; diagnostics are left
  out.

  \<open>shell_os\<close> is what the code gets from the C library: whether an allocation is served, whether
  \<open>setenv\<close> succeeds, and the locale objects, which are numbers.
\<close>

record shell_os =
  os_alloc :: "nat \<Rightarrow> bool"
  os_setenv :: "string \<Rightarrow> string \<Rightarrow> bool"
  os_duplocale :: "nat \<Rightarrow> int + nat"
  os_newlocale :: "string \<Rightarrow> string \<Rightarrow> nat \<Rightarrow> int + nat"
  os_uselocale :: "nat \<Rightarrow> int option"

section \<open>Reading\<close>

definition ash_var_find_len_const :: "ash_shell \<Rightarrow> string \<Rightarrow> ash_var option" where
  "ash_var_find_len_const shell name =
     (case ash_scope_lookup shell name Lookup_Visible False of
        Lookup_Found _ var \<Rightarrow> Some var
      | _ \<Rightarrow> None)"

definition ash_var_get_len :: "ash_shell \<Rightarrow> string \<Rightarrow> cstr" where
  "ash_var_get_len shell name =
     (case ash_scope_lookup shell name Lookup_Visible True of
        Lookup_Found _ var \<Rightarrow> ash_value_get_scalar (av_value var)
      | _ \<Rightarrow> None)"

definition ash_var_exists :: "ash_shell \<Rightarrow> string \<Rightarrow> bool" where
  "ash_var_exists shell name \<longleftrightarrow> ash_var_find_len_const shell name \<noteq> None"

definition ash_var_has_attribute_len :: "ash_shell \<Rightarrow> string \<Rightarrow> u32 \<Rightarrow> bool" where
  "ash_var_has_attribute_len shell name attribute =
     (case ash_var_find_len_const shell name of
        None \<Rightarrow> False
      | Some var \<Rightarrow> av_attributes var AND attribute \<noteq> 0)"

text \<open>The variables that a visit of the visible bindings reaches, in order.\<close>

definition ash_vars_visit_visible :: "ash_shell \<Rightarrow> ash_var list" where
  "ash_vars_visit_visible shell =
     concat (map (\<lambda>(i, scope). filter (\<lambda>var.
         ash_scope_lookup shell (av_name var) Lookup_Visible False = Lookup_Found i var) (sc_variables scope))
       (enumerate 0 (sh_scopes shell)))"

section \<open>The locale\<close>

abbreviation ENOENT :: int where "ENOENT \<equiv> 2"
abbreviation ENOMEM :: int where "ENOMEM \<equiv> 12"
abbreviation EINVAL :: int where "EINVAL \<equiv> 22"

definition ash_locale_categories :: "string list" where
  "ash_locale_categories = [''LC_CTYPE'', ''LC_COLLATE'']"

definition ash_locale_variable :: "string \<Rightarrow> bool" where
  "ash_locale_variable name \<longleftrightarrow> name = ''LC_ALL'' \<or> name = ''LANG'' \<or> name \<in> set ash_locale_categories"

definition ash_locale_request :: "cstr \<Rightarrow> cstr \<Rightarrow> cstr \<Rightarrow> string" where
  "ash_locale_request all1 category lang =
     (let given = (\<lambda>s. s \<noteq> None \<and> s \<noteq> Some []) in
      if given all1 then the all1
      else if given category then the category
      else if given lang then the lang else ''C'')"

definition ash_locale_select :: "shell_os \<Rightarrow> string \<Rightarrow> string \<Rightarrow> nat \<Rightarrow> int + nat" where
  "ash_locale_select os mask1 name base =
     (case os_newlocale os mask1 name base of
        Inr candidate \<Rightarrow> Inr candidate
      | Inl e \<Rightarrow> if e = ENOENT \<or> e = EINVAL then os_newlocale os mask1 ''C'' base else Inl e)"

definition ash_locale_activate :: "shell_os \<Rightarrow> nat \<Rightarrow> ash_shell \<Rightarrow> int \<times> ash_shell" where
  "ash_locale_activate os locale1 shell =
     (if sh_thread_locale shell = locale1 then (0, shell)
      else case os_uselocale os locale1 of
          Some e \<Rightarrow> (if e \<noteq> 0 then e else EINVAL, shell)
        | None \<Rightarrow> (0, shell\<lparr>sh_thread_locale := locale1\<rparr>))"

fun locale_select_all :: "shell_os \<Rightarrow> (string \<times> string option) list \<Rightarrow> nat \<Rightarrow> int + nat" where
  "locale_select_all os [] candidate = Inr candidate"
| "locale_select_all os ((category, copy) # copies) candidate =
     (case copy of
        None \<Rightarrow> locale_select_all os copies candidate
      | Some name \<Rightarrow>
          (case ash_locale_select os category name candidate of
             Inl e \<Rightarrow> Inl (if e \<noteq> 0 then e else EINVAL)
           | Inr updated \<Rightarrow> locale_select_all os copies updated))"

definition locale_requests :: "ash_shell \<Rightarrow> string list" where
  "locale_requests shell =
     map (\<lambda>category. ash_locale_request (ash_var_get_len shell ''LC_ALL'') (ash_var_get_len shell category)
        (ash_var_get_len shell ''LANG'')) ash_locale_categories"

definition ash_locale_refresh :: "shell_os \<Rightarrow> ash_shell \<Rightarrow> int \<times> ash_shell" where
  "ash_locale_refresh os shell =
     (case sh_locale_scope shell of
        None \<Rightarrow> (0, shell)
      | Some scope \<Rightarrow>
          if \<not> ls_dirty scope then ash_locale_activate os (ls_active scope) shell
          else
            let requested = locale_requests shell;
                copies = map2 (\<lambda>old new. if old = new then None else Some new) (ls_requests scope) requested in
            if list_ex (\<lambda>copy. case copy of None \<Rightarrow> False | Some name \<Rightarrow> \<not> os_alloc os (length name + 1)) copies
            then (ENOMEM, shell)
            else if list_all (\<lambda>copy. copy = None) copies then
              (case ash_locale_activate os (ls_active scope) shell of
                 (e, shell1) \<Rightarrow>
                   if e \<noteq> 0 then (e, shell1)
                   else (0, shell1\<lparr>sh_locale_scope := Some (scope\<lparr>ls_dirty := False\<rparr>)\<rparr>))
            else (case os_duplocale os (ls_active scope) of
                Inl e \<Rightarrow> (if e \<noteq> 0 then e else ENOMEM, shell)
              | Inr candidate \<Rightarrow>
                  (case locale_select_all os (zip ash_locale_categories copies) candidate of
                     Inl e \<Rightarrow> (e, shell)
                   | Inr updated \<Rightarrow>
                       (case os_uselocale os updated of
                          Some e \<Rightarrow> (if e \<noteq> 0 then e else EINVAL, shell)
                        | None \<Rightarrow>
                            (0, shell\<lparr>sh_thread_locale := updated,
                               sh_locale_scope := Some (scope\<lparr>ls_active := updated,
                                 ls_requests := map2 (\<lambda>old copy. case copy of None \<Rightarrow> old | Some name \<Rightarrow> name)
                                   (ls_requests scope) copies,
                                 ls_dirty := False\<rparr>)\<rparr>)))))"

definition ash_vars_refresh_locale :: "shell_os \<Rightarrow> ash_shell \<Rightarrow> bool \<times> ash_shell" where
  "ash_vars_refresh_locale os shell =
     (case ash_locale_refresh os shell of (e, shell1) \<Rightarrow> (e = 0, shell1))"

section \<open>Publication\<close>

definition ash_var_publish_environment :: "shell_os \<Rightarrow> ash_shell \<Rightarrow> string \<Rightarrow> bool \<times> ash_shell" where
  "ash_var_publish_environment os shell name =
     (let shell1 = (if ash_locale_variable name
                    then sh_locale_scope_update (map_option (ls_dirty_update (\<lambda>_. True))) shell else shell);
          var = ash_var_find_len_const shell1 name;
          scalar = (case var of None \<Rightarrow> None | Some v \<Rightarrow> ash_value_get_scalar (av_value v)) in
      case (var, scalar) of
        (Some v, Some t) \<Rightarrow>
          if av_attributes v AND ATTR_EXPORT = 0
          then (True, shell1\<lparr>sh_environ := (sh_environ shell1)(av_name v := None)\<rparr>)
          else if os_setenv os (av_name v) t
            then (True, shell1\<lparr>sh_environ := (sh_environ shell1)(av_name v := Some t)\<rparr>)
          else (False, shell1)
      | (Some v, None) \<Rightarrow> (True, shell1\<lparr>sh_environ := (sh_environ shell1)(av_name v := None)\<rparr>)
      | (None, _) \<Rightarrow> (True, shell1\<lparr>sh_environ := (sh_environ shell1)(name := None)\<rparr>))"

definition ash_var_publish_visible :: "shell_os \<Rightarrow> ash_shell \<Rightarrow> string \<Rightarrow> bool \<times> ash_shell" where
  "ash_var_publish_visible os shell name =
     (case ash_var_publish_environment os shell name of
        (ok, shell1) \<Rightarrow> if \<not> ok then (False, shell1) else ash_vars_refresh_locale os shell1)"

definition ash_var_defer_publication :: "ash_shell \<Rightarrow> ash_var \<Rightarrow> ash_shell" where
  "ash_var_defer_publication shell var =
     (if list_ex (\<lambda>pending. av_name pending = av_name var) (sh_pending_exports shell) then shell
      else shell\<lparr>sh_pending_exports :=
             var\<lparr>av_value := Ash_Scalar None, av_attributes := 0\<rparr> # sh_pending_exports shell\<rparr>)"

fun publish_pending_loop :: "shell_os \<Rightarrow> ash_var list \<Rightarrow> ash_shell \<Rightarrow> bool \<times> ash_shell" where
  "publish_pending_loop os [] shell = (True, shell)"
| "publish_pending_loop os (pending # rest) shell =
     (case ash_var_publish_visible os shell (av_name pending) of
        (ok, shell1) \<Rightarrow>
          if \<not> ok then (False, shell1)
          else publish_pending_loop os rest (shell1\<lparr>sh_pending_exports := rest\<rparr>))"

definition ash_vars_publish_pending :: "shell_os \<Rightarrow> ash_shell \<Rightarrow> bool \<times> ash_shell" where
  "ash_vars_publish_pending os shell = publish_pending_loop os (sh_pending_exports shell) shell"

section \<open>Read-only variables\<close>

definition ash_var_readonly_error :: "ash_shell \<Rightarrow> bool \<Rightarrow> ash_shell" where
  "ash_var_readonly_error shell assignment =
     (if assignment then
        if sh_forked_execution shell \<or> ash_shell_policy_noninteractive_posix (sh_policy shell)
        then shell\<lparr>sh_should_exit := True, sh_requested_exit_status := 1\<rparr>
        else ash_control_discard_unit shell 1
      else shell)"

definition ash_var_writable :: "ash_shell \<Rightarrow> ash_var option \<Rightarrow> bool \<Rightarrow> bool \<times> ash_shell" where
  "ash_var_writable shell var assignment_error =
     (case var of
        None \<Rightarrow> (True, shell)
      | Some v \<Rightarrow>
          if av_attributes v AND ATTR_READONLY = 0 then (True, shell)
          else (False, ash_var_readonly_error shell assignment_error))"

definition ash_var_assignment_allowed :: "ash_shell \<Rightarrow> string \<Rightarrow> bool \<times> ash_shell" where
  "ash_var_assignment_allowed shell name = ash_var_writable shell (ash_var_find_len_const shell name) True"

definition ash_var_builtin_assignment_allowed :: "ash_shell \<Rightarrow> string \<Rightarrow> bool \<times> ash_shell" where
  "ash_var_builtin_assignment_allowed shell name = ash_var_writable shell (ash_var_find_len_const shell name) False"

section \<open>Setters\<close>

definition update_frame :: "nat \<Rightarrow> (ash_var list \<Rightarrow> ash_var list) \<Rightarrow> ash_shell \<Rightarrow> ash_shell" where
  "update_frame i f shell =
     shell\<lparr>sh_scopes := (sh_scopes shell)[i := (sh_scopes shell ! i)\<lparr>sc_variables := f (sc_variables (sh_scopes shell ! i))\<rparr>]\<rparr>"

fun update_var :: "string \<Rightarrow> (ash_var \<Rightarrow> ash_var) \<Rightarrow> ash_var list \<Rightarrow> ash_var list" where
  "update_var name f [] = []"
| "update_var name f (v # vs) = (if av_name v = name then f v # vs else v # update_var name f vs)"

fun remove_var :: "string \<Rightarrow> ash_var list \<Rightarrow> ash_var list" where
  "remove_var name [] = []"
| "remove_var name (v # vs) = (if av_name v = name then vs else v # remove_var name vs)"

definition ash_var_find_in_scope :: "ash_shell \<Rightarrow> nat \<Rightarrow> string \<Rightarrow> ash_var option" where
  "ash_var_find_in_scope shell i name = ash_scope_find_in_frame (sh_scopes shell ! i) name"

text \<open>\<open>sizeof (struct ash_var)\<close> is 64.\<close>

definition ash_var_create_in_scope ::
  "shell_os \<Rightarrow> ash_shell \<Rightarrow> nat option \<Rightarrow> string \<Rightarrow> cstr \<Rightarrow> u32 \<Rightarrow> bool \<times> ash_shell" where
  "ash_var_create_in_scope os shell scope name value1 attributes =
     (case scope of
        None \<Rightarrow> (False, shell)
      | Some i \<Rightarrow>
          if \<not> os_alloc os 64 \<or> length name = size_max \<or> \<not> os_alloc os (length name + 1) then (False, shell)
          else (case ash_value_init_scalar (os_alloc os) value1 of
             Inl _ \<Rightarrow> (False, shell)
           | Inr scalar \<Rightarrow>
               (case ash_var_publish_environment os
                   (update_frame i ((#) \<lparr>av_name = name, av_value = scalar, av_attributes = attributes\<rparr>) shell) name of
                  (ok, shell1) \<Rightarrow>
                    if \<not> ok then (False, update_frame i tl shell1)
                    else ash_vars_refresh_locale os shell1)))"

definition ash_var_set_in_scope ::
  "shell_os \<Rightarrow> ash_shell \<Rightarrow> nat option \<Rightarrow> string \<Rightarrow> cstr \<Rightarrow> u32 \<Rightarrow> bool \<Rightarrow> bool \<times> ash_shell" where
  "ash_var_set_in_scope os shell scope name value1 attributes force_export =
     (case scope of
        None \<Rightarrow> (False, shell)
      | Some i \<Rightarrow>
          (case ash_var_assignment_allowed shell name of
             (allowed, shell1) \<Rightarrow>
               if \<not> allowed then (False, shell1)
               else (case ash_var_writable shell1 (ash_var_find_in_scope shell i name) True of
                  (writable, shell2) \<Rightarrow>
                    if \<not> writable then (False, shell2)
                    else
                      let attributes1 = (if force_export \<or> sh_options shell2 AND OPTION_ALLEXPORT \<noteq> 0
                                         then attributes OR ATTR_EXPORT else attributes) in
                      (case ash_var_find_in_scope shell i name of
                         None \<Rightarrow> ash_var_create_in_scope os shell2 scope name value1 attributes1
                       | Some var \<Rightarrow>
                           (case ash_value_init_scalar (os_alloc os) value1 of
                              Inl _ \<Rightarrow> (False, shell2)
                            | Inr candidate \<Rightarrow>
                                (case ash_var_publish_environment os
                                    (update_frame i (update_var name (\<lambda>v. v\<lparr>av_value := candidate,
                                       av_attributes := av_attributes v OR attributes1\<rparr>)) shell2) name of
                                   (ok, shell3) \<Rightarrow>
                                     if \<not> ok then (False, update_frame i (update_var name (\<lambda>v. v\<lparr>
                                         av_value := av_value var, av_attributes := av_attributes var\<rparr>)) shell3)
                                     else ash_vars_refresh_locale os shell3))))))"

definition visible_or_global :: "ash_shell \<Rightarrow> string \<Rightarrow> lookup_mode \<Rightarrow> nat option" where
  "visible_or_global shell name mode =
     (case ash_scope_lookup_variable_mut shell name mode of
        Some (owner, _) \<Rightarrow> Some owner
      | None \<Rightarrow> ash_scope_global shell)"

definition ash_var_set_with_export :: "shell_os \<Rightarrow> ash_shell \<Rightarrow> string \<Rightarrow> cstr \<Rightarrow> bool \<Rightarrow> bool \<times> ash_shell" where
  "ash_var_set_with_export os shell name value1 force_export =
     ash_var_set_in_scope os shell (visible_or_global shell name Lookup_Visible) name value1 0 force_export"

definition ash_var_set_local :: "shell_os \<Rightarrow> ash_shell \<Rightarrow> string \<Rightarrow> cstr \<Rightarrow> bool \<Rightarrow> bool \<times> ash_shell" where
  "ash_var_set_local os shell name value1 force_export =
     ash_var_set_in_scope os shell (ash_scope_current_function shell) name value1 ATTR_LOCAL force_export"

definition current_is_temporary :: "ash_shell \<Rightarrow> bool" where
  "current_is_temporary shell =
     (case sh_scopes shell of [] \<Rightarrow> False | scope # _ \<Rightarrow> sc_kind scope = Scope_Temporary_Assignment)"

definition ash_var_set_caller :: "shell_os \<Rightarrow> ash_shell \<Rightarrow> string \<Rightarrow> cstr \<Rightarrow> bool \<Rightarrow> bool \<times> ash_shell" where
  "ash_var_set_caller os shell name value1 force_export =
     (let temporary = current_is_temporary shell;
          owner = visible_or_global shell name (if temporary then Lookup_Outer else Lookup_Visible) in
      case ash_var_set_in_scope os shell owner name value1 0 force_export of
        (ok, shell1) \<Rightarrow>
          if \<not> ok then (False, shell1)
          else if \<not> temporary \<or> ash_var_find_in_scope shell1 0 name = None then (True, shell1)
          else ash_var_set_in_scope os shell1 (Some 0) name value1 0 force_export)"

definition ash_var_set_temporary :: "shell_os \<Rightarrow> ash_shell \<Rightarrow> string \<Rightarrow> cstr \<Rightarrow> bool \<Rightarrow> bool \<times> ash_shell" where
  "ash_var_set_temporary os shell name value1 force_export =
     (if \<not> current_is_temporary shell then (False, shell)
      else ash_var_set_in_scope os shell (Some 0) name value1 0 force_export)"

definition ash_var_update_attributes :: "shell_os \<Rightarrow> ash_shell \<Rightarrow> string \<Rightarrow> u32 \<Rightarrow> u32 \<Rightarrow> bool \<times> ash_shell" where
  "ash_var_update_attributes os shell name set1 clear =
     (case ash_scope_lookup_variable_mut shell name Lookup_Visible of
        None \<Rightarrow> (False, shell)
      | Some (owner, var) \<Rightarrow>
          if set1 AND clear \<noteq> 0 \<or> (set1 OR clear) AND NOT ATTR_ALL \<noteq> 0 then (False, shell)
          else if av_attributes var AND clear AND ATTR_READONLY \<noteq> 0 then (False, ash_var_readonly_error shell False)
          else
            let candidate = (av_attributes var OR set1) AND NOT clear in
            if \<not> ash_var_attributes_valid candidate then (False, shell)
            else (case ash_var_publish_environment os
                (update_frame owner (update_var name (\<lambda>v. v\<lparr>av_attributes := candidate\<rparr>)) shell) name of
               (ok, shell1) \<Rightarrow>
                 if \<not> ok
                 then (False, update_frame owner (update_var name (\<lambda>v. v\<lparr>av_attributes := av_attributes var\<rparr>)) shell1)
                 else ash_vars_refresh_locale os shell1))"

definition ash_var_export :: "shell_os \<Rightarrow> ash_shell \<Rightarrow> string \<Rightarrow> bool \<times> ash_shell" where
  "ash_var_export os shell name =
     (case ash_scope_lookup_variable_mut shell name Lookup_Visible of
        None \<Rightarrow> ash_var_set_with_export os shell name None True
      | Some (owner, var) \<Rightarrow>
          if owner = 0 \<and> current_is_temporary shell
          then ash_var_set_caller os shell name (ash_value_get_scalar (av_value var)) True
          else ash_var_update_attributes os shell name ATTR_EXPORT 0)"

definition ash_var_readonly :: "shell_os \<Rightarrow> ash_shell \<Rightarrow> string \<Rightarrow> bool \<times> ash_shell" where
  "ash_var_readonly os shell name =
     (case ash_scope_lookup_variable_mut shell name Lookup_Visible of
        Some _ \<Rightarrow> ash_var_update_attributes os shell name ATTR_READONLY 0
      | None \<Rightarrow> ash_var_create_in_scope os shell (ash_scope_global shell) name None ATTR_READONLY)"

definition ash_var_unset :: "shell_os \<Rightarrow> ash_shell \<Rightarrow> string \<Rightarrow> bool \<times> ash_shell" where
  "ash_var_unset os shell name =
     (case ash_scope_lookup_variable_mut shell name Lookup_Visible of
        None \<Rightarrow> (True, shell)
      | Some (owner, var) \<Rightarrow>
          if av_attributes var AND ATTR_READONLY \<noteq> 0 then (False, ash_var_readonly_error shell False)
          else (case ash_var_publish_visible os (update_frame owner (remove_var name) shell) name of
             (published, shell1) \<Rightarrow>
               (published, if published then shell1 else ash_var_defer_publication shell1 var)))"

section \<open>The release of a frame\<close>

datatype scope_pop_result = Pop_Mismatch | Pop_Ok | Pop_Publication_Error

fun pop_publish :: "shell_os \<Rightarrow> ash_var list \<Rightarrow> ash_shell \<Rightarrow> bool \<times> ash_shell" where
  "pop_publish os [] shell = (True, shell)"
| "pop_publish os (var # vars) shell =
     (case ash_var_publish_visible os shell (av_name var) of
        (ok, shell1) \<Rightarrow>
          (case pop_publish os vars (if ok then shell1 else ash_var_defer_publication shell1 var) of
             (rest, shell2) \<Rightarrow> (ok \<and> rest, shell2)))"

definition ash_scope_pop :: "shell_os \<Rightarrow> ash_shell \<Rightarrow> ash_scope_kind \<Rightarrow> scope_pop_result \<times> ash_shell" where
  "ash_scope_pop os shell expected_kind =
     (case sh_scopes shell of
        [] \<Rightarrow> (Pop_Mismatch, shell)
      | removed # parents \<Rightarrow>
          if sc_kind removed = Scope_Global \<or> sc_kind removed \<noteq> expected_kind then (Pop_Mismatch, shell)
          else (case pop_publish os (sc_variables removed) (shell\<lparr>sh_scopes := parents\<rparr>) of
             (published, shell1) \<Rightarrow> (if published then Pop_Ok else Pop_Publication_Error, shell1)))"

section \<open>Lookups and changes of a frame\<close>

fun frame_lookup :: "ash_scope list \<Rightarrow> string \<Rightarrow> ash_var option" where
  "frame_lookup [] name = None"
| "frame_lookup (scope # scopes) name =
     (case ash_scope_find_in_frame scope name of Some v \<Rightarrow> Some v | None \<Rightarrow> frame_lookup scopes name)"

abbreviation visible_var :: "ash_shell \<Rightarrow> string \<Rightarrow> ash_var option" where
  "visible_var shell \<equiv> frame_lookup (sh_scopes shell)"

lemma find_binding_lookup: "map_option snd (find_binding i scopes name) = frame_lookup scopes name"
  by (induction i scopes name rule: find_binding.induct) (auto split: option.splits)

lemma find_len_const [simp]: "ash_var_find_len_const shell name = visible_var shell name"
  using find_binding_lookup [of 0 "sh_scopes shell" name]
  by (auto simp: ash_var_find_len_const_def ash_scope_lookup_def ash_scope_lookup_raw_def split: option.splits)

lemma lookup_mut_raw: "ash_scope_lookup_variable_mut shell name mode = ash_scope_lookup_raw shell name mode"
  by (simp add: ash_scope_lookup_variable_mut_def ash_scope_lookup_raw_def split: lookup_mode.splits)

lemma find_in_frame_name: "ash_scope_find_in_frame scope name = Some v \<Longrightarrow> av_name v = name \<and> v \<in> set (sc_variables scope)"
  by (auto simp: ash_scope_find_in_frame_def find_Some_iff)

lemma frame_lookup_name: "frame_lookup scopes name = Some v \<Longrightarrow> av_name v = name"
  by (induction scopes) (auto split: option.splits dest: find_in_frame_name)

lemma find_binding_frame:
  assumes "find_binding i scopes name = Some (j, v)"
  shows "i \<le> j \<and> j - i < length scopes \<and> ash_scope_find_in_frame (scopes ! (j - i)) name = Some v"
  using assms
proof (induction i scopes name rule: find_binding.induct)
  case (2 i scope scopes name)
  show ?case
  proof (cases "ash_scope_find_in_frame scope name")
    case None
    with 2 have "Suc i \<le> j \<and> j - Suc i < length scopes \<and>
        ash_scope_find_in_frame (scopes ! (j - Suc i)) name = Some v" by simp
    moreover from this have "j - i = Suc (j - Suc i)" by linarith
    ultimately show ?thesis by simp
  next
    case (Some w)
    with 2 show ?thesis by simp
  qed
qed simp

lemma lookup_raw_frame:
  assumes "ash_scope_lookup_raw shell name mode = Some (i, v)"
  shows "i < length (sh_scopes shell) \<and> ash_scope_find_in_frame (sh_scopes shell ! i) name = Some v"
proof (cases mode)
  case Lookup_Visible
  with assms find_binding_frame [of 0 "sh_scopes shell" name i v] show ?thesis
    by (simp add: ash_scope_lookup_raw_def)
next
  case Lookup_Current
  with assms find_binding_frame [of 0 "take 1 (sh_scopes shell)" name i v] show ?thesis
    by (cases "sh_scopes shell") (auto simp: ash_scope_lookup_raw_def simp del: find_binding.simps)
next
  case Lookup_Global
  then obtain g where g: "ash_scope_global shell = Some g" "find_binding g [sh_scopes shell ! g] name = Some (i, v)"
    using assms by (auto simp: ash_scope_lookup_raw_def split: option.splits)
  from g(1) have "g < length (sh_scopes shell)"
    by (auto simp: ash_scope_global_def Let_def split: if_splits)
  with find_binding_frame [OF g(2)] show ?thesis by auto
next
  case Lookup_Outer
  then have "find_binding 1 (drop 1 (sh_scopes shell)) name = Some (i, v)"
    using assms by (simp add: ash_scope_lookup_raw_def)
  from find_binding_frame [OF this] show ?thesis by auto
qed

lemma ash_scope_global_in: "ash_scope_global shell = Some i \<Longrightarrow> i < length (sh_scopes shell)"
  by (auto simp: ash_scope_global_def Let_def split: if_splits)

lemma function_scope_in: "function_scope_from i scopes = Some j \<Longrightarrow> i \<le> j \<and> j - i < length scopes"
proof (induction i scopes rule: function_scope_from.induct)
  case (2 i scope scopes)
  then show ?case by (cases "sc_kind scope = Scope_Function") auto
qed simp

lemma current_function_in: "ash_scope_current_function shell = Some i \<Longrightarrow> i < length (sh_scopes shell)"
  using function_scope_in by (fastforce simp: ash_scope_current_function_def)

lemma visible_or_global_in: "visible_or_global shell name mode = Some i \<Longrightarrow> i < length (sh_scopes shell)"
  using lookup_raw_frame by (auto simp: visible_or_global_def lookup_mut_raw ash_scope_global_in split: option.splits)

lemma find_update_var:
  "find (\<lambda>v. av_name v = n) (update_var name f vs) =
     (if n = name then map_option f (find (\<lambda>v. av_name v = n) vs) else find (\<lambda>v. av_name v = n) vs)"
  if "\<And>v. av_name (f v) = av_name v"
  using that by (induction vs) auto

lemma find_remove_var:
  "n \<noteq> name \<Longrightarrow> find (\<lambda>v. av_name v = n) (remove_var name vs) = find (\<lambda>v. av_name v = n) vs"
  by (induction vs) auto

lemma update_var_undo:
  assumes "find (\<lambda>v. av_name v = name) vs = Some var" "\<And>v. av_name (f v) = av_name v" "g (f var) = var"
  shows "update_var name g (update_var name f vs) = vs"
  using assms by (induction vs) auto

lemma frame_lookup_change:
  assumes "i < length scopes"
    and "ash_scope_find_in_frame scope n = ash_scope_find_in_frame (scopes ! i) n"
  shows "frame_lookup (scopes[i := scope]) n = frame_lookup scopes n"
  using assms
proof (induction scopes arbitrary: i)
  case (Cons s scopes)
  then show ?case by (cases i) (auto split: option.splits)
qed simp

lemma update_frame_scopes [simp]:
  "sh_environ (update_frame i f shell) = sh_environ shell"
  "sh_pending_exports (update_frame i f shell) = sh_pending_exports shell"
  "length (sh_scopes (update_frame i f shell)) = length (sh_scopes shell)"
  by (simp_all add: update_frame_def)

lemma update_frame_visible:
  assumes "i < length (sh_scopes shell)"
    and "\<And>vs. find (\<lambda>v. av_name v = n) (f vs) = find (\<lambda>v. av_name v = n) vs"
  shows "visible_var (update_frame i f shell) n = visible_var shell n"
  using assms frame_lookup_change [of i "sh_scopes shell" _ n]
  by (simp add: update_frame_def ash_scope_find_in_frame_def)

section \<open>The environment of the process mirrors the exported variables\<close>

definition exported_value :: "ash_shell \<Rightarrow> string \<Rightarrow> string option" where
  "exported_value shell name =
     (case visible_var shell name of
        None \<Rightarrow> None
      | Some v \<Rightarrow> if av_attributes v AND ATTR_EXPORT = 0 then None else ash_value_get_scalar (av_value v))"

definition pending_names :: "ash_shell \<Rightarrow> string set" where
  "pending_names shell = av_name ` set (sh_pending_exports shell)"

text \<open>
  Outside a set of foreign names, which the shell has never bound, and the names whose publication is
  pending, a name is in the environment exactly when its visible variable is exported and set, with the
  value of that variable.
\<close>

definition environment_mirrors :: "string set \<Rightarrow> ash_shell \<Rightarrow> bool" where
  "environment_mirrors foreign shell \<longleftrightarrow>
     (\<forall>name. name \<notin> foreign \<union> pending_names shell \<longrightarrow> sh_environ shell name = exported_value shell name)"

text \<open>A step that changes the environment of the process and its locale only.\<close>

definition ambient_only :: "ash_shell \<Rightarrow> ash_shell \<Rightarrow> bool" where
  "ambient_only shell shell1 \<longleftrightarrow>
     sh_scopes shell1 = sh_scopes shell \<and> sh_pending_exports shell1 = sh_pending_exports shell \<and>
     sh_options shell1 = sh_options shell \<and> sh_policy shell1 = sh_policy shell \<and>
     sh_execution_frames shell1 = sh_execution_frames shell \<and>
     sh_forked_execution shell1 = sh_forked_execution shell \<and>
     sh_should_exit shell1 = sh_should_exit shell \<and>
     sh_requested_exit_status shell1 = sh_requested_exit_status shell \<and>
     sh_last_status shell1 = sh_last_status shell \<and> sh_control shell1 = sh_control shell"

lemma ambient_onlyD:
  assumes "ambient_only shell shell1"
  shows "sh_scopes shell1 = sh_scopes shell" "sh_pending_exports shell1 = sh_pending_exports shell"
    "sh_options shell1 = sh_options shell" "sh_control shell1 = sh_control shell"
    "sh_policy shell1 = sh_policy shell" "sh_should_exit shell1 = sh_should_exit shell"
  using assms by (simp_all add: ambient_only_def)

lemma ambient_only_trans: "ambient_only a b \<Longrightarrow> ambient_only b c \<Longrightarrow> ambient_only a c"
  by (simp add: ambient_only_def)

lemma ambient_only_refl [simp]: "ambient_only shell shell"
  by (simp add: ambient_only_def)

lemma ambient_only_updates [simp]:
  "ambient_only a (b\<lparr>sh_environ := env\<rparr>) = ambient_only a b"
  "ambient_only a (b\<lparr>sh_locale_scope := scope\<rparr>) = ambient_only a b"
  "ambient_only a (b\<lparr>sh_thread_locale := locale1\<rparr>) = ambient_only a b"
  by (simp_all add: ambient_only_def)

lemma activate_ambient:
  "ash_locale_activate os locale1 shell = (e, shell1) \<Longrightarrow> ambient_only shell shell1 \<and> sh_environ shell1 = sh_environ shell"
  by (auto simp: ash_locale_activate_def split: if_splits option.splits)

lemma locale_refresh_ambient:
  assumes "ash_locale_refresh os shell = (e, shell1)"
  shows "ambient_only shell shell1 \<and> sh_environ shell1 = sh_environ shell"
proof (cases "sh_locale_scope shell")
  case None
  with assms show ?thesis by (simp add: ash_locale_refresh_def)
next
  case (Some scope)
  obtain e2 shell2 where act: "ash_locale_activate os (ls_active scope) shell = (e2, shell2)" by fastforce
  show ?thesis
    using assms activate_ambient [OF act] act
    by (auto simp: ash_locale_refresh_def Some Let_def split: if_splits sum.splits option.splits)
qed

lemma refresh_ambient:
  "ash_vars_refresh_locale os shell = (ok, shell1) \<Longrightarrow> ambient_only shell shell1 \<and> sh_environ shell1 = sh_environ shell"
  using locale_refresh_ambient by (auto simp: ash_vars_refresh_locale_def split: prod.splits)

lemma ambient_exported: "ambient_only shell shell1 \<Longrightarrow> exported_value shell1 name = exported_value shell name"
  by (simp add: exported_value_def ambient_onlyD)

lemma publish_environment_effect:
  assumes "ash_var_publish_environment os shell name = (ok, shell1)"
  shows "ambient_only shell shell1 \<and>
    sh_environ shell1 = (if ok then (sh_environ shell)(name := exported_value shell name) else sh_environ shell)"
proof -
  define shell2 where "shell2 = (if ash_locale_variable name
    then sh_locale_scope_update (map_option (ls_dirty_update (\<lambda>_. True))) shell else shell)"
  have two: "ambient_only shell shell2" "sh_environ shell2 = sh_environ shell"
    by (auto simp: shell2_def ambient_only_def)
  have name: "av_name v = name" if "visible_var shell name = Some v" for v
    using frame_lookup_name [OF that] .
  have vis: "visible_var shell2 name = visible_var shell name"
    using ambient_onlyD(1) [OF two(1)] by simp
  show ?thesis
  proof (cases "visible_var shell name")
    case None
    with assms two vis show ?thesis
      by (auto simp: ash_var_publish_environment_def shell2_def [symmetric] exported_value_def)
  next
    case (Some v)
    with assms two vis name [OF Some] show ?thesis
      by (cases "ash_value_get_scalar (av_value v)")
        (auto simp: ash_var_publish_environment_def shell2_def [symmetric] exported_value_def split: if_splits)
  qed
qed

lemma publish_visible_effect:
  assumes "ash_var_publish_visible os shell name = (ok, shell1)"
  shows "ambient_only shell shell1 \<and>
    (sh_environ shell1 = (sh_environ shell)(name := exported_value shell name) \<or>
     \<not> ok \<and> sh_environ shell1 = sh_environ shell)"
proof -
  obtain ok2 shell2 where pub: "ash_var_publish_environment os shell name = (ok2, shell2)" by fastforce
  note effect = publish_environment_effect [OF pub]
  show ?thesis
  proof (cases ok2)
    case False
    with assms pub effect show ?thesis by (auto simp: ash_var_publish_visible_def)
  next
    case True
    then have "ash_vars_refresh_locale os shell2 = (ok, shell1)"
      using assms pub by (simp add: ash_var_publish_visible_def)
    from refresh_ambient [OF this] effect True show ?thesis by (auto intro: ambient_only_trans)
  qed
qed

section \<open>The effect of the setters\<close>

definition put_var :: "string \<Rightarrow> ash_value \<Rightarrow> u32 \<Rightarrow> ash_var list \<Rightarrow> ash_var list" where
  "put_var name scalar attributes vs =
     (case find (\<lambda>v. av_name v = name) vs of
        None \<Rightarrow> \<lparr>av_name = name, av_value = scalar, av_attributes = attributes\<rparr> # vs
      | Some _ \<Rightarrow> update_var name (\<lambda>v. v\<lparr>av_value := scalar, av_attributes := av_attributes v OR attributes\<rparr>) vs)"

lemma find_put_var_other:
  "n \<noteq> name \<Longrightarrow> find (\<lambda>v. av_name v = n) (put_var name scalar attributes vs) = find (\<lambda>v. av_name v = n) vs"
  by (auto simp: put_var_def find_update_var split: option.splits)

text \<open>
  A change of the frame \<open>i\<close> at \<open>name\<close> that is published: the environment of the process has the new
  exported value of the name, and nothing else has changed but the locale.
\<close>

definition published_change ::
  "nat \<Rightarrow> string \<Rightarrow> (ash_var list \<Rightarrow> ash_var list) \<Rightarrow> ash_shell \<Rightarrow> ash_shell \<Rightarrow> bool" where
  "published_change i name f shell shell1 \<longleftrightarrow>
     i < length (sh_scopes shell) \<and> ambient_only (update_frame i f shell) shell1 \<and>
     sh_environ shell1 = (sh_environ shell)(name := exported_value shell1 name)"

text \<open>A step that leaves variables and environment alone.\<close>

definition variables_same :: "ash_shell \<Rightarrow> ash_shell \<Rightarrow> bool" where
  "variables_same shell shell1 \<longleftrightarrow>
     sh_scopes shell1 = sh_scopes shell \<and> sh_pending_exports shell1 = sh_pending_exports shell \<and>
     sh_environ shell1 = sh_environ shell"

lemma variables_same_refl [simp]: "variables_same shell shell"
  by (simp add: variables_same_def)

lemma variables_same_trans: "variables_same a b \<Longrightarrow> variables_same b c \<Longrightarrow> variables_same a c"
  by (simp add: variables_same_def)

lemma readonly_error_same [simp]: "variables_same shell (ash_var_readonly_error shell assignment)"
  by (simp add: ash_var_readonly_error_def variables_same_def ash_control_discard_unit_def)

lemma writable_same: "ash_var_writable shell var e = (ok, shell1) \<Longrightarrow>
    variables_same shell shell1 \<and> (ok \<longrightarrow> shell1 = shell \<and> (\<forall>v. var = Some v \<longrightarrow> \<not> has_attribute v ATTR_READONLY))"
  by (auto simp: ash_var_writable_def has_attribute_def split: option.splits if_splits)

lemma update_frame_undo:
  assumes "i < length (sh_scopes shell)" "sh_scopes shell1 = sh_scopes (update_frame i f shell)"
    and "g (f (sc_variables (sh_scopes shell ! i))) = sc_variables (sh_scopes shell ! i)"
  shows "sh_scopes (update_frame i g shell1) = sh_scopes shell"
  using assms by (simp add: update_frame_def)

lemma publish_change_cases:
  assumes i: "i < length (sh_scopes shell)"
    and pub: "ash_var_publish_environment os (update_frame i f shell) name = (ok, shell1)"
    and undo: "g (f (sc_variables (sh_scopes shell ! i))) = sc_variables (sh_scopes shell ! i)"
  shows "if ok then published_change i name f shell shell1
         else variables_same shell (update_frame i g shell1)"
proof -
  note effect = publish_environment_effect [OF pub]
  show ?thesis
  proof (cases ok)
    case True
    with effect i ambient_exported [of "update_frame i f shell" shell1 name] show ?thesis
      by (simp add: published_change_def)
  next
    case False
    have "sh_scopes (update_frame i g shell1) = sh_scopes shell"
      using update_frame_undo [where f = f and g = g and i = i and shell = shell and ?shell1.0 = shell1] i undo
        ambient_onlyD(1) [OF conjunct1 [OF effect]] by blast
    with False effect ambient_onlyD(2) [OF conjunct1 [OF effect]] show ?thesis
      by (simp add: variables_same_def)
  qed
qed

lemma published_refresh:
  assumes "published_change i name f shell shell1" "ash_vars_refresh_locale os shell1 = (ok, shell2)"
  shows "published_change i name f shell shell2"
  using assms refresh_ambient [OF assms(2)] ambient_exported [of shell1 shell2 name]
  by (auto simp: published_change_def intro: ambient_only_trans)

lemma init_scalar_value: "ash_value_init_scalar avail value1 = Inr scalar \<Longrightarrow> scalar = Ash_Scalar value1"
  by (cases value1) (auto simp: ash_value_init_scalar_def ash_value_duplicate_def split: if_splits)

lemma create_effect:
  assumes create: "ash_var_create_in_scope os shell (Some i) name value1 attributes = (ok, shell1)"
    and i: "i < length (sh_scopes shell)"
    and absent: "ash_scope_find_in_frame (sh_scopes shell ! i) name = None"
  shows "published_change i name (put_var name (Ash_Scalar value1) attributes) shell shell1 \<or>
    \<not> ok \<and> variables_same shell shell1"
proof (cases "\<not> os_alloc os 64 \<or> length name = size_max \<or> \<not> os_alloc os (length name + 1) \<or>
    (\<exists>e. ash_value_init_scalar (os_alloc os) value1 = Inl e)")
  case True
  with create show ?thesis
    by (auto simp: ash_var_create_in_scope_def split: if_splits)
next
  case False
  then obtain scalar where scalar: "ash_value_init_scalar (os_alloc os) value1 = Inr scalar"
    by (cases "ash_value_init_scalar (os_alloc os) value1") auto
  define new where "new = \<lparr>av_name = name, av_value = scalar, av_attributes = attributes\<rparr>"
  obtain ok2 shell2 where pub: "ash_var_publish_environment os (update_frame i ((#) new) shell) name = (ok2, shell2)"
    by fastforce
  have rest: "(ok, shell1) = (if \<not> ok2 then (False, update_frame i tl shell2) else ash_vars_refresh_locale os shell2)"
    using create False scalar pub by (simp add: ash_var_create_in_scope_def new_def)
  have put: "update_frame i ((#) new) shell = update_frame i (put_var name (Ash_Scalar value1) attributes) shell"
    using absent init_scalar_value [OF scalar]
    by (simp add: update_frame_def put_var_def new_def ash_scope_find_in_frame_def)
  have "if ok2 then published_change i name ((#) new) shell shell2 else variables_same shell (update_frame i tl shell2)"
    by (rule publish_change_cases [OF i pub]) simp
  then show ?thesis using rest published_refresh [of i name "put_var name (Ash_Scalar value1) attributes" shell shell2 os ok shell1]
    by (auto simp: published_change_def put split: if_splits)
qed

lemma set_in_scope_effect:
  assumes set: "ash_var_set_in_scope os shell scope name value1 attributes force_export = (ok, shell1)"
    and scope: "\<And>i. scope = Some i \<Longrightarrow> i < length (sh_scopes shell)"
  shows "(\<exists>i. scope = Some i \<and>
      published_change i name (put_var name (Ash_Scalar value1)
        (if force_export \<or> sh_options shell AND OPTION_ALLEXPORT \<noteq> 0 then attributes OR ATTR_EXPORT else attributes)) shell shell1 \<and>
      (\<forall>v. visible_var shell name = Some v \<longrightarrow> \<not> has_attribute v ATTR_READONLY) \<and>
      (\<forall>v. ash_scope_find_in_frame (sh_scopes shell ! i) name = Some v \<longrightarrow> \<not> has_attribute v ATTR_READONLY)) \<or>
    \<not> ok \<and> variables_same shell shell1"
proof (cases scope)
  case None
  with set show ?thesis by (simp add: ash_var_set_in_scope_def)
next
  case (Some i)
  note i = scope [OF Some]
  obtain allowed shell2 where allowed: "ash_var_assignment_allowed shell name = (allowed, shell2)" by fastforce
  obtain writable shell3 where writable: "ash_var_writable shell2 (ash_var_find_in_scope shell i name) True = (writable, shell3)"
    by fastforce
  note a = writable_same [OF allowed [unfolded ash_var_assignment_allowed_def]]
  note w = writable_same [OF writable]
  show ?thesis
  proof (cases "allowed \<and> writable")
    case False
    then have "\<not> ok \<and> variables_same shell shell1"
      using set allowed writable a w
      by (auto simp: Some ash_var_set_in_scope_def split: if_splits intro: variables_same_trans)
    then show ?thesis ..
  next
    case True
    then have same: "shell2 = shell" "shell3 = shell" using a w by auto
    have ro: "\<forall>v. visible_var shell name = Some v \<longrightarrow> \<not> has_attribute v ATTR_READONLY"
      "\<forall>v. ash_scope_find_in_frame (sh_scopes shell ! i) name = Some v \<longrightarrow> \<not> has_attribute v ATTR_READONLY"
      using a w True by (auto simp: ash_var_find_in_scope_def)
    define attributes1 where "attributes1 = (if force_export \<or> sh_options shell AND OPTION_ALLEXPORT \<noteq> 0
      then attributes OR ATTR_EXPORT else attributes)"
    have "published_change i name (put_var name (Ash_Scalar value1) attributes1) shell shell1 \<or>
        \<not> ok \<and> variables_same shell shell1"
    proof (cases "ash_var_find_in_scope shell i name")
      case None
      then have "ash_var_create_in_scope os shell (Some i) name value1 attributes1 = (ok, shell1)"
        using set allowed writable True same by (simp add: Some ash_var_set_in_scope_def attributes1_def)
      from create_effect [OF this i] None show ?thesis by (simp add: ash_var_find_in_scope_def)
    next
      case (Some var)
      define change where "change = update_var name (\<lambda>v. v\<lparr>av_value := Ash_Scalar value1,
        av_attributes := av_attributes v OR attributes1\<rparr>)"
      define undo where "undo = update_var name (\<lambda>v. v\<lparr>av_value := av_value var, av_attributes := av_attributes var\<rparr>)"
      show ?thesis
      proof (cases "ash_value_init_scalar (os_alloc os) value1")
        case (Inl e)
        with set allowed writable True same Some show ?thesis
          by (simp add: \<open>scope = Some i\<close> ash_var_set_in_scope_def)
      next
        case (Inr scalar)
        note scalar = init_scalar_value [OF Inr]
        obtain ok2 shell4 where pub: "ash_var_publish_environment os (update_frame i change shell) name = (ok2, shell4)"
          by fastforce
        have rest: "(ok, shell1) = (if \<not> ok2 then (False, update_frame i undo shell4) else ash_vars_refresh_locale os shell4)"
          using set allowed writable True same Some Inr pub scalar
          by (simp only: \<open>scope = Some i\<close> ash_var_set_in_scope_def option.case prod.case Let_def sum.case
              change_def undo_def attributes1_def [symmetric] simp_thms if_True if_False)
        have found: "find (\<lambda>v. av_name v = name) (sc_variables (sh_scopes shell ! i)) = Some var"
          using Some by (simp add: ash_var_find_in_scope_def ash_scope_find_in_frame_def)
        have undone: "undo (change (sc_variables (sh_scopes shell ! i))) = sc_variables (sh_scopes shell ! i)"
          unfolding undo_def change_def by (rule update_var_undo [OF found]) simp_all
        have "if ok2 then published_change i name change shell shell4 else variables_same shell (update_frame i undo shell4)"
          by (rule publish_change_cases [where g = undo, OF i pub undone])
        moreover have "update_frame i change shell = update_frame i (put_var name (Ash_Scalar value1) attributes1) shell"
          using found by (simp add: update_frame_def put_var_def change_def)
        ultimately show ?thesis
          using rest published_refresh [of i name "put_var name (Ash_Scalar value1) attributes1" shell shell4 os ok shell1]
          by (auto simp: published_change_def split: if_splits)
      qed
    qed
    with ro Some show ?thesis by (auto simp: attributes1_def)
  qed
qed

section \<open>Invariants\<close>

definition shell_inv :: "string set \<Rightarrow> ash_shell \<Rightarrow> bool" where
  "shell_inv foreign shell \<longleftrightarrow> environment_mirrors foreign shell \<and> ash_scope_stack_invariants shell"

text \<open>The changes that the operations are made of.\<close>

inductive shell_change :: "ash_shell \<Rightarrow> ash_shell \<Rightarrow> bool" where
  same: "variables_same s s1 \<Longrightarrow> shell_change s s1"
| put: "published_change i name (put_var name (Ash_Scalar value1) attributes) s s1 \<Longrightarrow>
    ash_is_valid_name_span name \<Longrightarrow> attributes AND NOT 0x1F = 0 \<Longrightarrow>
    (\<And>v. ash_scope_find_in_frame (sh_scopes s ! i) name = Some v \<Longrightarrow> \<not> has_attribute v ATTR_READONLY) \<Longrightarrow>
    shell_change s s1"
| attributes: "published_change i name (update_var name (\<lambda>v. v\<lparr>av_attributes := candidate\<rparr>)) s s1 \<Longrightarrow>
    ash_scope_find_in_frame (sh_scopes s ! i) name = Some v \<Longrightarrow> ash_var_attributes_valid candidate \<Longrightarrow>
    (has_attribute v ATTR_READONLY \<Longrightarrow> candidate AND ATTR_READONLY \<noteq> 0) \<Longrightarrow> shell_change s s1"
| remove: "i < length (sh_scopes s) \<Longrightarrow> ash_scope_find_in_frame (sh_scopes s ! i) name = Some v \<Longrightarrow>
    \<not> has_attribute v ATTR_READONLY \<Longrightarrow> ambient_only (update_frame i (remove_var name) s) s2 \<Longrightarrow>
    sh_environ s2 = (sh_environ s)(name := exported_value s2 name) \<and> s1 = s2 \<or>
    (\<forall>n. n \<noteq> name \<longrightarrow> sh_environ s2 n = sh_environ s n) \<and> s1 = ash_var_defer_publication s2 v \<Longrightarrow>
    shell_change s s1"
| push: "sc_variables scope = [] \<Longrightarrow> sc_kind scope \<noteq> Scope_Global \<Longrightarrow> scope_invariants scope \<Longrightarrow> sh_scopes s \<noteq> [] \<Longrightarrow>
    s1 = s\<lparr>sh_scopes := scope # sh_scopes s\<rparr> \<Longrightarrow> shell_change s s1"
| pop: "sh_scopes s = removed # parents \<Longrightarrow> sc_kind removed \<noteq> Scope_Global \<Longrightarrow>
    pop_publish os (sc_variables removed) (s\<lparr>sh_scopes := parents\<rparr>) = (published, s1) \<Longrightarrow> shell_change s s1"
| pending: "ash_vars_publish_pending os s = (published, s1) \<Longrightarrow> shell_change s s1"
| positionals: "s1 = s\<lparr>sh_scopes := replace_positionals frame (sh_scopes s)\<rparr> \<Longrightarrow>
    pf_argv0 frame \<noteq> None \<Longrightarrow> (\<And>owned. pf_owned frame = Some owned \<Longrightarrow> length (pf_values frame) \<le> length owned) \<Longrightarrow>
    shell_change s s1"

subsection \<open>The environment\<close>

lemma mirrors_change:
  assumes "environment_mirrors foreign s"
    and "pending_names s \<subseteq> pending_names s1"
    and "\<And>n. n \<noteq> name \<Longrightarrow> exported_value s1 n = exported_value s n"
    and "\<And>n. n \<noteq> name \<Longrightarrow> sh_environ s1 n = sh_environ s n"
    and "sh_environ s1 name = exported_value s1 name \<or> name \<in> pending_names s1"
  shows "environment_mirrors foreign s1"
  unfolding environment_mirrors_def
proof (intro allI impI)
  fix n assume n: "n \<notin> foreign \<union> pending_names s1"
  show "sh_environ s1 n = exported_value s1 n"
  proof (cases "n = name")
    case True
    with assms(5) n show ?thesis by auto
  next
    case False
    with assms(1-4) n show ?thesis by (auto simp: environment_mirrors_def)
  qed
qed

lemma exported_update_frame:
  assumes "i < length (sh_scopes s)" "\<And>vs. find (\<lambda>v. av_name v = n) (f vs) = find (\<lambda>v. av_name v = n) vs"
  shows "exported_value (update_frame i f s) n = exported_value s n"
  using update_frame_visible [OF assms(1), of n f] assms(2) by (simp add: exported_value_def)

lemma mirrors_published:
  assumes "environment_mirrors foreign s" "published_change i name f s s1"
    and keeps: "\<And>n vs. n \<noteq> name \<Longrightarrow> find (\<lambda>v. av_name v = n) (f vs) = find (\<lambda>v. av_name v = n) vs"
  shows "environment_mirrors foreign s1"
proof (rule mirrors_change [OF assms(1), of _ name])
  have change: "i < length (sh_scopes s)" "ambient_only (update_frame i f s) s1"
    "sh_environ s1 = (sh_environ s)(name := exported_value s1 name)"
    using assms(2) by (simp_all add: published_change_def)
  show "pending_names s \<subseteq> pending_names s1"
    using ambient_onlyD(2) [OF change(2)] by (simp add: pending_names_def)
  show "exported_value s1 n = exported_value s n" if "n \<noteq> name" for n
    using ambient_exported [OF change(2), of n] exported_update_frame [OF change(1), of n f] keeps [OF that] by simp
  show "sh_environ s1 n = sh_environ s n" if "n \<noteq> name" for n
    using change(3) that by (metis fun_upd_other)
  show "sh_environ s1 name = exported_value s1 name \<or> name \<in> pending_names s1"
    using change(3) by (metis fun_upd_same)
qed

lemma defer_effect:
  "sh_environ (ash_var_defer_publication s v) = sh_environ s"
  "sh_scopes (ash_var_defer_publication s v) = sh_scopes s"
  "pending_names (ash_var_defer_publication s v) = insert (av_name v) (pending_names s)"
  "exported_value (ash_var_defer_publication s v) n = exported_value s n"
  by (auto simp: ash_var_defer_publication_def pending_names_def exported_value_def list_ex_iff intro: rev_image_eqI)

text \<open>The publications of a pop: each name that was in the frame ends mirrored or pending.\<close>

lemma pop_publish_effect:
  assumes "pop_publish os vars s = (published, s1)"
  shows "sh_scopes s1 = sh_scopes s \<and> pending_names s \<subseteq> pending_names s1 \<and>
    (\<forall>n. n \<notin> av_name ` set vars \<longrightarrow> sh_environ s1 n = sh_environ s n) \<and>
    (\<forall>n \<in> av_name ` set vars. sh_environ s1 n = exported_value s n \<or> n \<in> pending_names s1) \<and>
    (published \<longrightarrow> pending_names s1 = pending_names s)"
  using assms
proof (induction vars arbitrary: s published)
  case (Cons v vars)
  obtain ok s2 where pub: "ash_var_publish_visible os s (av_name v) = (ok, s2)" by fastforce
  define s3 where "s3 = (if ok then s2 else ash_var_defer_publication s2 v)"
  obtain rest where rest: "pop_publish os vars s3 = (rest, s1)" and published: "published = (ok \<and> rest)"
    using Cons.prems pub by (auto simp: s3_def split: prod.splits)
  note effect = publish_visible_effect [OF pub]
  have s3: "sh_scopes s3 = sh_scopes s" "sh_environ s3 = sh_environ s2"
    "pending_names s3 = (if ok then pending_names s else insert (av_name v) (pending_names s))"
  proof -
    have "pending_names s2 = pending_names s" "sh_scopes s2 = sh_scopes s"
      using effect ambient_onlyD(1,2) [of s s2] by (simp_all add: pending_names_def)
    then show "sh_scopes s3 = sh_scopes s" "sh_environ s3 = sh_environ s2"
      "pending_names s3 = (if ok then pending_names s else insert (av_name v) (pending_names s))"
      by (simp_all add: s3_def defer_effect)
  qed
  have exported: "exported_value s3 n = exported_value s n" for n
    using s3(1) by (simp add: exported_value_def)
  note IH = Cons.IH [OF rest]
  have "sh_environ s1 n = sh_environ s n" if "n \<notin> av_name ` set (v # vars)" for n
    using that IH effect s3(2) by (auto split: if_splits)
  moreover have "sh_environ s1 n = exported_value s n \<or> n \<in> pending_names s1" if n: "n \<in> av_name ` set (v # vars)" for n
  proof (cases "n \<in> av_name ` set vars")
    case True
    with IH exported show ?thesis by auto
  next
    case False
    then have "n = av_name v" using n by auto
    moreover have "sh_environ s1 n = sh_environ s2 n" using IH False s3(2) by simp
    ultimately show ?thesis using effect IH s3(3) by (cases ok) auto
  qed
  moreover have "pending_names s \<subseteq> pending_names s1" using IH s3(3) by (auto split: if_splits)
  moreover have "published \<longrightarrow> pending_names s1 = pending_names s" using IH s3(3) published by auto
  moreover have "sh_scopes s1 = sh_scopes s" using IH s3(1) by simp
  ultimately show ?case by simp
qed simp

lemma publish_pending_effect:
  assumes "publish_pending_loop os pending s = (published, s1)" "sh_pending_exports s = pending"
  shows "sh_scopes s1 = sh_scopes s \<and> (\<exists>done1. pending = done1 @ sh_pending_exports s1 \<and>
    (\<forall>n. n \<notin> av_name ` set pending \<longrightarrow> sh_environ s1 n = sh_environ s n) \<and>
    (\<forall>n. n \<in> av_name ` set done1 \<and> n \<notin> pending_names s1 \<longrightarrow> sh_environ s1 n = exported_value s n)) \<and>
    (published \<longrightarrow> sh_pending_exports s1 = [])"
  using assms
proof (induction os pending s arbitrary: published rule: publish_pending_loop.induct)
  case (1 os s)
  then show ?case by simp
next
  case (2 os p rest s)
  obtain ok s2 where pub: "ash_var_publish_visible os s (av_name p) = (ok, s2)" by fastforce
  note effect = publish_visible_effect [OF pub]
  have s2: "sh_scopes s2 = sh_scopes s" "sh_pending_exports s2 = sh_pending_exports s"
    using effect ambient_onlyD(1,2) [of s s2] by simp_all
  show ?case
  proof (cases ok)
    case False
    with 2(2) pub have "s1 = s2" "\<not> published" by simp_all
    with s2 effect 2(3) show ?thesis
      by (auto intro!: exI [of _ "[]"] simp: fun_upd_def)
  next
    case True
    define s3 where "s3 = s2\<lparr>sh_pending_exports := rest\<rparr>"
    have loop: "publish_pending_loop os rest s3 = (published, s1)"
      using 2(2) pub True by (simp add: s3_def)
    have exported: "exported_value s3 n = exported_value s n" for n
      using s2(1) by (simp add: s3_def exported_value_def)
    from 2(1) [OF pub [symmetric]] loop True
    have IH: "sh_scopes s1 = sh_scopes s3 \<and> (\<exists>done1. rest = done1 @ sh_pending_exports s1 \<and>
        (\<forall>n. n \<notin> av_name ` set rest \<longrightarrow> sh_environ s1 n = sh_environ s3 n) \<and>
        (\<forall>n. n \<in> av_name ` set done1 \<and> n \<notin> pending_names s1 \<longrightarrow> sh_environ s1 n = exported_value s3 n)) \<and>
        (published \<longrightarrow> sh_pending_exports s1 = [])"
      by (simp add: s3_def)
    then obtain done1 where d: "rest = done1 @ sh_pending_exports s1"
      "\<forall>n. n \<notin> av_name ` set rest \<longrightarrow> sh_environ s1 n = sh_environ s3 n"
      "\<forall>n. n \<in> av_name ` set done1 \<and> n \<notin> pending_names s1 \<longrightarrow> sh_environ s1 n = exported_value s n"
      unfolding exported by blast
    have env: "sh_environ s3 = (sh_environ s)(av_name p := exported_value s (av_name p))"
      using effect True by (simp add: s3_def)
    have "sh_environ s1 n = exported_value s n" if n: "n \<in> av_name ` set (p # done1)" "n \<notin> pending_names s1" for n
    proof (cases "n \<in> av_name ` set rest")
      case True
      then have "n \<in> av_name ` set done1" using n(2) d(1) by (auto simp: pending_names_def)
      with d(3) n(2) show ?thesis by simp
    next
      case False
      then have "n = av_name p" using n(1) d(1) by auto
      with d(2) False env show ?thesis by simp
    qed
    moreover have "sh_environ s1 n = sh_environ s n" if "n \<notin> av_name ` set (p # rest)" for n
      using that d(2) env by simp
    ultimately show ?thesis
      using IH d(1) s2(1) by (intro conjI exI [of _ "p # done1"]) (auto simp: s3_def)
  qed
qed

lemma replace_positionals_lookup [simp]: "frame_lookup (replace_positionals frame scopes) name = frame_lookup scopes name"
  by (induction frame scopes rule: replace_positionals.induct) (auto simp: ash_scope_find_in_frame_def split: option.splits)

lemma empty_frame_lookup: "sc_variables scope = [] \<Longrightarrow> frame_lookup (scope # scopes) name = frame_lookup scopes name"
  by (simp add: ash_scope_find_in_frame_def)

lemma lookup_parents:
  "name \<notin> av_name ` set (sc_variables removed) \<Longrightarrow> frame_lookup (removed # parents) name = frame_lookup parents name"
  using find_in_frame_name [of removed name]
  by (cases "ash_scope_find_in_frame removed name") auto

lemma find_attribute_other:
  "n \<noteq> name \<Longrightarrow> find (\<lambda>v. av_name v = n) (update_var name (\<lambda>v. v\<lparr>av_attributes := candidate\<rparr>) vs) =
     find (\<lambda>v. av_name v = n) vs"
  by (simp add: find_update_var)

lemma mirrors_pending:
  assumes "environment_mirrors foreign s" "ash_vars_publish_pending os s = (published, s1)"
  shows "environment_mirrors foreign s1"
  unfolding environment_mirrors_def
proof (intro allI impI)
  note effect = publish_pending_effect [OF assms(2) [unfolded ash_vars_publish_pending_def] refl]
  from effect obtain done1 where split: "sh_pending_exports s = done1 @ sh_pending_exports s1"
    and other: "\<forall>n. n \<notin> pending_names s \<longrightarrow> sh_environ s1 n = sh_environ s n"
    and here: "\<forall>n. n \<in> av_name ` set done1 \<and> n \<notin> pending_names s1 \<longrightarrow> sh_environ s1 n = exported_value s n"
    by (auto simp: pending_names_def)
  fix n assume n: "n \<notin> foreign \<union> pending_names s1"
  have "exported_value s1 n = exported_value s n" using effect by (simp add: exported_value_def)
  moreover have "sh_environ s1 n = exported_value s n"
  proof (cases "n \<in> pending_names s")
    case True
    then have "n \<in> av_name ` set done1" using n split by (auto simp: pending_names_def)
    with here n show ?thesis by simp
  next
    case False
    with other assms(1) n show ?thesis by (simp add: environment_mirrors_def)
  qed
  ultimately show "sh_environ s1 n = exported_value s1 n" by simp
qed

lemma mirrors_pop:
  assumes "environment_mirrors foreign s" "sh_scopes s = removed # parents"
    and "pop_publish os (sc_variables removed) (s\<lparr>sh_scopes := parents\<rparr>) = (published, s1)"
  shows "environment_mirrors foreign s1"
  unfolding environment_mirrors_def
proof (intro allI impI)
  note effect = pop_publish_effect [OF assms(3)]
  have s1: "exported_value s1 n = exported_value (s\<lparr>sh_scopes := parents\<rparr>) n" for n
    using effect by (simp add: exported_value_def)
  have pending: "pending_names s \<subseteq> pending_names s1" using effect by (simp add: pending_names_def)
  fix n assume n: "n \<notin> foreign \<union> pending_names s1"
  show "sh_environ s1 n = exported_value s1 n"
  proof (cases "n \<in> av_name ` set (sc_variables removed)")
    case True
    with effect n show ?thesis unfolding s1 by blast
  next
    case False
    then have "exported_value (s\<lparr>sh_scopes := parents\<rparr>) n = exported_value s n"
      using lookup_parents [OF False, of parents] assms(2) by (simp add: exported_value_def)
    moreover have "sh_environ s1 n = sh_environ s n" using effect False by simp
    moreover have "sh_environ s n = exported_value s n"
      using assms(1) n pending by (auto simp: environment_mirrors_def)
    ultimately show ?thesis unfolding s1 by simp
  qed
qed

lemma mirrors_remove:
  assumes mirrors: "environment_mirrors foreign s" and i: "i < length (sh_scopes s)"
    and found: "ash_scope_find_in_frame (sh_scopes s ! i) name = Some v"
    and step: "ambient_only (update_frame i (remove_var name) s) s2"
    and out: "sh_environ s2 = (sh_environ s)(name := exported_value s2 name) \<and> s1 = s2 \<or>
      (\<forall>n. n \<noteq> name \<longrightarrow> sh_environ s2 n = sh_environ s n) \<and> s1 = ash_var_defer_publication s2 v"
  shows "environment_mirrors foreign s1"
proof (rule mirrors_change [OF mirrors, of _ name])
  have name: "av_name v = name" using find_in_frame_name [OF found] by simp
  have p2: "pending_names s2 = pending_names s" using ambient_onlyD(2) [OF step] by (simp add: pending_names_def)
  have e2: "exported_value s2 n = exported_value s n" if "n \<noteq> name" for n
    using ambient_exported [OF step, of n] exported_update_frame [OF i, of n "remove_var name"] find_remove_var [OF that] by simp
  show "pending_names s \<subseteq> pending_names s1" using out p2 by (auto simp: defer_effect)
  show "exported_value s1 n = exported_value s n" if "n \<noteq> name" for n
    using out e2 [OF that] by (auto simp: defer_effect)
  show "sh_environ s1 n = sh_environ s n" if "n \<noteq> name" for n
    using out that by (auto simp: defer_effect)
  show "sh_environ s1 name = exported_value s1 name \<or> name \<in> pending_names s1"
    using out name by (auto simp: defer_effect)
qed

lemma mirrors_shell_change:
  assumes "shell_change s s1" "environment_mirrors foreign s"
  shows "environment_mirrors foreign s1"
  using assms
proof cases
  case same
  with assms(2) show ?thesis
    by (simp add: variables_same_def environment_mirrors_def pending_names_def exported_value_def)
next
  case (put i name value1 attributes)
  from mirrors_published [OF assms(2) put(1)] show ?thesis by (simp add: find_put_var_other)
next
  case (attributes i name candidate v)
  from mirrors_published [OF assms(2) attributes(1)] show ?thesis by (simp add: find_attribute_other)
next
  case (remove i name v s2)
  from mirrors_remove [OF assms(2) remove(1,2,4,5)] show ?thesis .
next
  case (push scope)
  with assms(2) show ?thesis
    by (simp add: environment_mirrors_def pending_names_def exported_value_def ash_scope_find_in_frame_def)
next
  case (pop removed parents os published)
  from mirrors_pop [OF assms(2) pop(1,3)] show ?thesis .
next
  case (pending os published)
  from mirrors_pending [OF assms(2) pending] show ?thesis .
next
  case (positionals frame)
  with assms(2) show ?thesis
    by (simp add: environment_mirrors_def pending_names_def exported_value_def)
qed

subsection \<open>The asserted predicates\<close>

definition var_ok :: "ash_var \<Rightarrow> bool" where
  "var_ok v \<longleftrightarrow> ash_is_valid_name_span (av_name v) \<and> ash_var_attributes_valid (av_attributes v) \<and>
     ash_value_invariants (av_value v)"

lemma list_invariants_iff:
  "ash_var_list_invariants vs \<longleftrightarrow> (\<forall>v \<in> set vs. var_ok v) \<and> distinct (map av_name vs)"
proof -
  have "sorted_wrt (\<lambda>v w. av_name v \<noteq> av_name w) vs \<longleftrightarrow> distinct (map av_name vs)"
    by (induction vs) auto
  then show ?thesis by (auto simp: ash_var_list_invariants_def var_ok_def list_all_iff)
qed

lemma scalar_invariants [simp]: "ash_value_invariants (Ash_Scalar s)"
  by (simp add: ash_value_invariants_def)

lemma attributes_or_valid:
  assumes "ash_var_attributes_valid a" "b AND NOT 0x1F = 0"
  shows "ash_var_attributes_valid (a OR b)"
proof -
  have "b AND NOT 0xFF = (b AND NOT 0x1F) AND NOT 0xFF" by (simp add: and.assoc)
  then have "b AND NOT 0xFF = 0" using assms(2) by simp
  moreover have "b AND 0xC0 = (b AND NOT 0x1F) AND 0xC0" by (simp add: and.assoc)
  then have "b AND 0xC0 = 0" using assms(2) by simp
  moreover have "(a OR b) AND 0xC0 = (a AND 0xC0) OR (b AND 0xC0)" by (rule bit.conj_disj_distrib2)
  moreover have "(a OR b) AND NOT 0xFF = (a AND NOT 0xFF) OR (b AND NOT 0xFF)" by (rule bit.conj_disj_distrib2)
  ultimately show ?thesis using assms(1) by (simp add: ash_var_attributes_valid_def)
qed

lemma flags_valid: "b AND NOT 0x1F = 0 \<Longrightarrow> ash_var_attributes_valid b"
  using attributes_or_valid [of 0 b] by (simp add: ash_var_attributes_valid_def)

lemma names_update_var: "(\<And>v. av_name (f v) = av_name v) \<Longrightarrow> map av_name (update_var name f vs) = map av_name vs"
  by (induction vs) auto

lemma set_update_var: "set (update_var name f vs) \<subseteq> set vs \<union> f ` set vs"
  by (induction vs) auto

lemma set_remove_var: "set (remove_var name vs) \<subseteq> set vs"
  by (induction vs) auto

lemma distinct_remove_var: "distinct (map av_name vs) \<Longrightarrow> distinct (map av_name (remove_var name vs))"
  using set_remove_var by (induction vs) fastforce+

lemma put_var_invariants:
  assumes "ash_var_list_invariants vs" "ash_is_valid_name_span name" "attributes AND NOT 0x1F = 0"
  shows "ash_var_list_invariants (put_var name (Ash_Scalar s) attributes vs)"
proof (cases "find (\<lambda>v. av_name v = name) vs")
  case None
  then have "put_var name (Ash_Scalar s) attributes vs =
      \<lparr>av_name = name, av_value = Ash_Scalar s, av_attributes = attributes\<rparr> # vs"
    by (simp add: put_var_def)
  moreover have "name \<notin> av_name ` set vs" using None by (auto simp: find_None_iff)
  ultimately show ?thesis using assms
    by (auto simp: list_invariants_iff var_ok_def flags_valid)
next
  case (Some w)
  define f :: "ash_var \<Rightarrow> ash_var" where
    "f = (\<lambda>v. v\<lparr>av_value := Ash_Scalar s, av_attributes := av_attributes v OR attributes\<rparr>)"
  have "var_ok (f v)" if "var_ok v" for v
    using that attributes_or_valid [OF _ assms(3)] by (simp add: var_ok_def f_def)
  then have "\<forall>v \<in> set (update_var name f vs). var_ok v"
    using assms(1) set_update_var [of name f vs] by (auto simp: list_invariants_iff)
  moreover have "distinct (map av_name (update_var name f vs))"
    using assms(1) names_update_var [of f name vs] by (simp add: list_invariants_iff f_def)
  ultimately show ?thesis using Some by (simp add: put_var_def list_invariants_iff flip: f_def)
qed

lemma attribute_invariants:
  assumes "ash_var_list_invariants vs" "ash_var_attributes_valid candidate"
  shows "ash_var_list_invariants (update_var name (\<lambda>v. v\<lparr>av_attributes := candidate\<rparr>) vs)"
proof -
  have "\<forall>v \<in> set (update_var name (\<lambda>v. v\<lparr>av_attributes := candidate\<rparr>) vs). var_ok v"
    using assms set_update_var [of name "\<lambda>v. v\<lparr>av_attributes := candidate\<rparr>" vs]
    by (auto simp: list_invariants_iff var_ok_def)
  then show ?thesis
    using assms(1) names_update_var [of "\<lambda>v. v\<lparr>av_attributes := candidate\<rparr>" name vs]
    by (simp add: list_invariants_iff)
qed

lemma remove_invariants: "ash_var_list_invariants vs \<Longrightarrow> ash_var_list_invariants (remove_var name vs)"
  using set_remove_var [of name vs] distinct_remove_var [of vs name] by (auto simp: list_invariants_iff)

definition kinds_ok :: "ash_scope_kind list \<Rightarrow> bool" where
  "kinds_ok kinds \<longleftrightarrow> Scope_Global \<notin> set (butlast kinds) \<and> length (filter (\<lambda>k. k = Scope_Global) kinds) = 1"

lemma stack_invariants_iff:
  "ash_scope_stack_invariants s \<longleftrightarrow>
     ash_var_list_invariants (sh_pending_exports s) \<and> (\<forall>scope \<in> set (sh_scopes s). scope_invariants scope) \<and>
     kinds_ok (map sc_kind (sh_scopes s))"
proof -
  have count: "length (filter (\<lambda>k. k = Scope_Global) (map sc_kind (sh_scopes s))) =
      length (filter (\<lambda>scope. sc_kind scope = Scope_Global) (sh_scopes s))"
    by (simp add: filter_map comp_def)
  have last_only: "Scope_Global \<notin> set (butlast (map sc_kind (sh_scopes s))) \<longleftrightarrow>
      list_all (\<lambda>scope. sc_kind scope \<noteq> Scope_Global) (butlast (sh_scopes s))"
    by (force simp: map_butlast [symmetric] list_all_iff)
  show ?thesis
    unfolding ash_scope_stack_invariants_def kinds_ok_def count last_only list_all_iff by (cases "sh_scopes s") auto
qed

lemma stack_invariants_transfer:
  assumes "ash_scope_stack_invariants s" "sh_scopes s1 = sh_scopes s"
    and "ash_var_list_invariants (sh_pending_exports s1)"
  shows "ash_scope_stack_invariants s1"
  using assms by (simp add: stack_invariants_iff)

lemma stack_invariants_frame:
  assumes inv: "ash_scope_stack_invariants s" and i: "i < length (sh_scopes s)"
    and frame: "ash_var_list_invariants (f (sc_variables (sh_scopes s ! i)))"
    and step: "ambient_only (update_frame i f s) s1"
  shows "ash_scope_stack_invariants s1"
proof -
  define scope where "scope = (sh_scopes s ! i)\<lparr>sc_variables := f (sc_variables (sh_scopes s ! i))\<rparr>"
  have scopes: "sh_scopes s1 = (sh_scopes s)[i := scope]"
    using ambient_onlyD(1) [OF step] by (simp add: update_frame_def scope_def)
  have "sh_scopes s ! i \<in> set (sh_scopes s)" using i by simp
  then have "scope_invariants scope"
    using inv frame by (auto simp: stack_invariants_iff scope_invariants_def scope_def Let_def)
  then have "\<forall>x \<in> set (sh_scopes s1). scope_invariants x"
    using inv set_update_subset_insert [of "sh_scopes s" i scope] unfolding scopes by (auto simp: stack_invariants_iff)
  moreover have "map sc_kind (sh_scopes s1) = map sc_kind (sh_scopes s)"
    unfolding scopes using i by (simp add: map_update scope_def list_update_same_conv)
  moreover have "sh_pending_exports s1 = sh_pending_exports s"
    using ambient_onlyD(2) [OF step] by simp
  ultimately show ?thesis using inv by (simp add: stack_invariants_iff)
qed

lemma frame_list_invariants:
  "ash_scope_stack_invariants s \<Longrightarrow> i < length (sh_scopes s) \<Longrightarrow> ash_var_list_invariants (sc_variables (sh_scopes s ! i))"
  by (auto simp: stack_invariants_iff scope_invariants_def)

lemma defer_invariants:
  assumes "ash_var_list_invariants (sh_pending_exports s)" "ash_is_valid_name_span (av_name v)"
  shows "ash_var_list_invariants (sh_pending_exports (ash_var_defer_publication s v))"
  using assms
  by (auto simp: ash_var_defer_publication_def list_invariants_iff var_ok_def list_ex_iff ash_var_attributes_valid_def)

lemma pop_publish_pending_invariants:
  assumes "pop_publish os vars s = (published, s1)" "ash_var_list_invariants (sh_pending_exports s)"
    and "\<And>v. v \<in> set vars \<Longrightarrow> ash_is_valid_name_span (av_name v)"
  shows "ash_var_list_invariants (sh_pending_exports s1)"
  using assms
proof (induction vars arbitrary: s published)
  case (Cons v vars)
  obtain ok s2 where pub: "ash_var_publish_visible os s (av_name v) = (ok, s2)" by fastforce
  define s3 where "s3 = (if ok then s2 else ash_var_defer_publication s2 v)"
  obtain rest where rest: "pop_publish os vars s3 = (rest, s1)"
    using Cons.prems(1) pub by (auto simp: s3_def split: prod.splits)
  have "sh_pending_exports s2 = sh_pending_exports s"
    using publish_visible_effect [OF pub] ambient_onlyD(2) by blast
  then have "ash_var_list_invariants (sh_pending_exports s3)"
    using Cons.prems(2,3) defer_invariants [of s2 v] by (simp add: s3_def)
  from Cons.IH [OF rest this] Cons.prems(3) show ?case by simp
qed simp

lemma replace_positionals_kinds [simp]: "map sc_kind (replace_positionals frame scopes) = map sc_kind scopes"
  by (induction frame scopes rule: replace_positionals.induct) auto

lemma replace_positionals_invariants:
  assumes "\<forall>scope \<in> set scopes. scope_invariants scope" "pf_argv0 frame \<noteq> None"
    and "\<And>owned. pf_owned frame = Some owned \<Longrightarrow> length (pf_values frame) \<le> length owned"
  shows "\<forall>scope \<in> set (replace_positionals frame scopes). scope_invariants scope"
  using assms
  by (induction frame scopes rule: replace_positionals.induct)
    (auto simp: scope_invariants_def Let_def split: option.splits)

lemma stack_invariants_change:
  assumes "shell_change s s1" "ash_scope_stack_invariants s"
  shows "ash_scope_stack_invariants s1"
  using assms
proof cases
  case same
  with assms(2) show ?thesis by (simp add: variables_same_def stack_invariants_iff)
next
  case (put i name value1 attributes)
  then have i: "i < length (sh_scopes s)"
    and step: "ambient_only (update_frame i (put_var name (Ash_Scalar value1) attributes) s) s1"
    by (simp_all add: published_change_def)
  from stack_invariants_frame [OF assms(2) i put_var_invariants step] frame_list_invariants [OF assms(2) i] put(2,3)
  show ?thesis by blast
next
  case (attributes i name candidate v)
  then have i: "i < length (sh_scopes s)"
    and step: "ambient_only (update_frame i (update_var name (\<lambda>v. v\<lparr>av_attributes := candidate\<rparr>)) s) s1"
    by (simp_all add: published_change_def)
  from stack_invariants_frame [OF assms(2) i attribute_invariants step] frame_list_invariants [OF assms(2) i] attributes(3)
  show ?thesis by blast
next
  case (remove i name v s2)
  have s2: "ash_scope_stack_invariants s2"
    using stack_invariants_frame [OF assms(2) remove(1) remove_invariants remove(4)]
      frame_list_invariants [OF assms(2) remove(1)] by blast
  have "v \<in> set (sc_variables (sh_scopes s ! i))" using find_in_frame_name [OF remove(2)] by simp
  then have "ash_is_valid_name_span (av_name v)"
    using frame_list_invariants [OF assms(2) remove(1)] by (auto simp: list_invariants_iff var_ok_def)
  then have "ash_scope_stack_invariants (ash_var_defer_publication s2 v)"
    using s2 defer_invariants [of s2 v] by (auto simp: stack_invariants_iff defer_effect)
  with s2 remove(5) show ?thesis by blast
next
  case (push scope)
  with assms(2) show ?thesis by (auto simp: stack_invariants_iff kinds_ok_def)
next
  case (pop removed parents os published)
  have valid: "ash_is_valid_name_span (av_name v)" if "v \<in> set (sc_variables removed)" for v
    using assms(2) pop(1) that by (auto simp: stack_invariants_iff scope_invariants_def list_invariants_iff var_ok_def)
  have "parents \<noteq> []" using assms(2) pop(1,2) by (auto simp: stack_invariants_iff kinds_ok_def)
  then have "kinds_ok (map sc_kind parents)"
    using assms(2) pop(1,2) by (auto simp: stack_invariants_iff kinds_ok_def)
  moreover have "ash_var_list_invariants (sh_pending_exports s1)"
    using pop_publish_pending_invariants [OF pop(3)] valid assms(2) by (simp add: stack_invariants_iff)
  moreover have "sh_scopes s1 = parents" using pop_publish_effect [OF pop(3)] by simp
  ultimately show ?thesis using assms(2) pop(1) by (simp add: stack_invariants_iff)
next
  case (pending os published)
  note effect = publish_pending_effect [OF pending [unfolded ash_vars_publish_pending_def] refl]
  then obtain done1 where "sh_pending_exports s = done1 @ sh_pending_exports s1" by blast
  then have "ash_var_list_invariants (sh_pending_exports s1)"
    using assms(2) by (simp add: stack_invariants_iff list_invariants_iff)
  with assms(2) effect show ?thesis by (simp add: stack_invariants_iff)
next
  case (positionals frame)
  have "\<forall>scope \<in> set (replace_positionals frame (sh_scopes s)). scope_invariants scope"
    by (rule replace_positionals_invariants) (use positionals assms(2) in \<open>auto simp: stack_invariants_iff\<close>)
  with assms(2) positionals(1) show ?thesis by (simp add: stack_invariants_iff)
qed

lemma shell_inv_changes:
  "shell_change\<^sup>*\<^sup>* s s1 \<Longrightarrow> shell_inv foreign s \<Longrightarrow> shell_inv foreign s1"
  by (induction rule: rtranclp_induct) (auto simp: shell_inv_def mirrors_shell_change stack_invariants_change)

section \<open>The operations as changes\<close>

lemma flag_bits:
  "(0 :: u32) AND NOT 0x1F = 0" "ATTR_EXPORT AND NOT 0x1F = (0 :: u32)" "ATTR_LOCAL AND NOT 0x1F = (0 :: u32)"
  "(ATTR_LOCAL OR ATTR_EXPORT) AND NOT 0x1F = (0 :: u32)" "ATTR_READONLY AND NOT 0x1F = (0 :: u32)"
  by simp_all

lemma set_in_scope_change:
  assumes set: "ash_var_set_in_scope os s scope name value1 attributes force_export = (ok, s1)"
    and scope: "\<And>i. scope = Some i \<Longrightarrow> i < length (sh_scopes s)"
    and "ash_is_valid_name_span name" "attributes = 0 \<or> attributes = ATTR_LOCAL"
  shows "shell_change s s1 \<and> length (sh_scopes s1) = length (sh_scopes s)"
proof -
  consider (changed) i where "scope = Some i"
      "published_change i name (put_var name (Ash_Scalar value1)
        (if force_export \<or> sh_options s AND OPTION_ALLEXPORT \<noteq> 0 then attributes OR ATTR_EXPORT else attributes)) s s1"
      "\<forall>v. ash_scope_find_in_frame (sh_scopes s ! i) name = Some v \<longrightarrow> \<not> has_attribute v ATTR_READONLY"
    | (same) "variables_same s s1"
    using set_in_scope_effect [OF set] scope by blast
  then show ?thesis
  proof cases
    case (changed i)
    have "shell_change s s1"
      by (rule shell_change.put [OF changed(2)]) (use assms(3,4) changed(3) in \<open>auto simp: flag_bits\<close>)
    moreover have "length (sh_scopes s1) = length (sh_scopes s)"
      using changed(2) ambient_onlyD(1) [of "update_frame i _ s" s1] by (auto simp: published_change_def)
    ultimately show ?thesis ..
  next
    case same
    then show ?thesis by (auto simp: variables_same_def intro: shell_change.same)
  qed
qed

text \<open>A change of variables that does not push or pop.\<close>

definition var_changes :: "ash_shell \<Rightarrow> ash_shell \<Rightarrow> bool" where
  "var_changes s s1 \<longleftrightarrow>
     (\<lambda>a b. shell_change a b \<and> length (sh_scopes b) = length (sh_scopes a))\<^sup>*\<^sup>* s s1"

lemma var_changes_one: "shell_change s s1 \<Longrightarrow> length (sh_scopes s1) = length (sh_scopes s) \<Longrightarrow> var_changes s s1"
  by (simp add: var_changes_def r_into_rtranclp)

lemma var_changes_trans: "var_changes a b \<Longrightarrow> var_changes b c \<Longrightarrow> var_changes a c"
  by (simp add: var_changes_def)

lemma var_changes_length: "var_changes s s1 \<Longrightarrow> length (sh_scopes s1) = length (sh_scopes s)"
  unfolding var_changes_def by (induction rule: rtranclp_induct) auto

lemma var_changes_shell: "var_changes s s1 \<Longrightarrow> shell_change\<^sup>*\<^sup>* s s1"
  unfolding var_changes_def by (erule rtranclp_mono [THEN predicate2D, rotated]) auto

lemma same_var_changes: "variables_same s s1 \<Longrightarrow> var_changes s s1"
  by (auto simp: variables_same_def intro!: var_changes_one shell_change.same)

lemma set_in_scope_changes:
  assumes "ash_var_set_in_scope os s scope name value1 attributes force_export = (ok, s1)"
    and "\<And>i. scope = Some i \<Longrightarrow> i < length (sh_scopes s)"
    and "ash_is_valid_name_span name" "attributes = 0 \<or> attributes = ATTR_LOCAL"
  shows "var_changes s s1"
  using set_in_scope_change [OF assms] by (auto intro: var_changes_one)

lemma set_with_export_changes:
  "ash_var_set_with_export os s name value1 force_export = (ok, s1) \<Longrightarrow> ash_is_valid_name_span name \<Longrightarrow> var_changes s s1"
  unfolding ash_var_set_with_export_def
  by (rule set_in_scope_changes) (auto intro: visible_or_global_in)

lemma set_local_changes:
  "ash_var_set_local os s name value1 force_export = (ok, s1) \<Longrightarrow> ash_is_valid_name_span name \<Longrightarrow> var_changes s s1"
  unfolding ash_var_set_local_def
  by (rule set_in_scope_changes) (auto intro: current_function_in)

lemma temporary_nonempty: "current_is_temporary s \<Longrightarrow> 0 < length (sh_scopes s)"
  by (auto simp: current_is_temporary_def split: list.splits)

lemma set_temporary_changes:
  "ash_var_set_temporary os s name value1 force_export = (ok, s1) \<Longrightarrow> ash_is_valid_name_span name \<Longrightarrow> var_changes s s1"
  using set_in_scope_changes [of os s "Some 0" name value1 0 force_export ok s1] temporary_nonempty [of s]
  by (auto simp: ash_var_set_temporary_def same_var_changes split: if_splits)

lemma set_caller_changes:
  assumes "ash_var_set_caller os s name value1 force_export = (ok, s1)" "ash_is_valid_name_span name"
  shows "var_changes s s1"
proof -
  define owner where "owner = visible_or_global s name (if current_is_temporary s then Lookup_Outer else Lookup_Visible)"
  have caller: "ash_var_set_caller os s name value1 force_export =
      (case ash_var_set_in_scope os s owner name value1 0 force_export of
         (ok, s1) \<Rightarrow> if \<not> ok then (False, s1)
           else if \<not> current_is_temporary s \<or> ash_var_find_in_scope s1 0 name = None then (True, s1)
           else ash_var_set_in_scope os s1 (Some 0) name value1 0 force_export)"
    by (simp only: ash_var_set_caller_def Let_def owner_def)
  obtain ok2 s2 where first: "ash_var_set_in_scope os s owner name value1 0 force_export = (ok2, s2)" by fastforce
  have one: "var_changes s s2"
    by (rule set_in_scope_changes [OF first]) (use assms(2) in \<open>auto simp: owner_def intro: visible_or_global_in\<close>)
  show ?thesis
  proof (cases "ok2 \<and> current_is_temporary s \<and> ash_var_find_in_scope s2 0 name \<noteq> None")
    case False
    with assms(1) first one show ?thesis unfolding caller by (auto split: if_splits)
  next
    case True
    then have "ash_var_set_in_scope os s2 (Some 0) name value1 0 force_export = (ok, s1)"
      using assms(1) first unfolding caller by (auto split: if_splits)
    moreover have "0 < length (sh_scopes s2)" using True temporary_nonempty var_changes_length [OF one] by simp
    ultimately have "var_changes s2 s1" using assms(2) by (intro set_in_scope_changes) auto
    with one show ?thesis by (rule var_changes_trans)
  qed
qed

lemma and_readonly: "x AND ATTR_READONLY = 0 \<longleftrightarrow> \<not> bit x 1"
  using and_exp_eq_0_iff_not_bit [of x 1] by simp

lemma readonly_bit_kept:
  "a AND ATTR_READONLY \<noteq> 0 \<Longrightarrow> a AND clear AND ATTR_READONLY = 0 \<Longrightarrow> ((a OR b) AND NOT clear) AND ATTR_READONLY \<noteq> 0"
  unfolding and.assoc [symmetric] and_readonly by (auto simp: bit_and_iff bit_or_iff bit_not_iff)

lemma update_attributes_changes:
  assumes "ash_var_update_attributes os s name set1 clear = (ok, s1)"
  shows "var_changes s s1"
proof (cases "ash_scope_lookup_variable_mut s name Lookup_Visible")
  case None
  with assms show ?thesis by (simp add: ash_var_update_attributes_def same_var_changes)
next
  case (Some binding)
  then obtain owner var where b: "ash_scope_lookup_raw s name Lookup_Visible = Some (owner, var)"
    by (cases binding) (simp add: lookup_mut_raw)
  note at = lookup_raw_frame [OF b]
  define candidate where "candidate = (av_attributes var OR set1) AND NOT clear"
  define change where "change = update_var name (\<lambda>v. v\<lparr>av_attributes := candidate\<rparr>)"
  define undo where "undo = update_var name (\<lambda>v. v\<lparr>av_attributes := av_attributes var\<rparr>)"
  show ?thesis
  proof (cases "set1 AND clear \<noteq> 0 \<or> (set1 OR clear) AND NOT ATTR_ALL \<noteq> 0 \<or>
      av_attributes var AND clear AND ATTR_READONLY \<noteq> 0 \<or> \<not> ash_var_attributes_valid candidate")
    case True
    with assms b show ?thesis
      by (auto simp: ash_var_update_attributes_def lookup_mut_raw candidate_def [symmetric] Let_def
          split: if_splits intro: same_var_changes)
  next
    case False
    obtain ok2 s2 where pub: "ash_var_publish_environment os (update_frame owner change s) name = (ok2, s2)" by fastforce
    have rest: "(ok, s1) = (if \<not> ok2 then (False, update_frame owner undo s2) else ash_vars_refresh_locale os s2)"
    proof -
      have checks: "\<not> (set1 AND clear \<noteq> 0 \<or> (set1 OR clear) AND NOT ATTR_ALL \<noteq> 0)"
        "\<not> (av_attributes var AND clear AND ATTR_READONLY \<noteq> 0)" "\<not> (\<not> ash_var_attributes_valid candidate)"
        using False by blast+
      have "ash_var_update_attributes os s name set1 clear =
          (case ash_var_publish_environment os (update_frame owner change s) name of
             (ok, s1) \<Rightarrow> if \<not> ok then (False, update_frame owner undo s1) else ash_vars_refresh_locale os s1)"
        unfolding ash_var_update_attributes_def lookup_mut_raw b option.case prod.case Let_def
          candidate_def [symmetric] change_def undo_def
        by (subst if_not_P [OF checks(1)], subst if_not_P [OF checks(2)], subst if_not_P [OF checks(3)]) (rule refl)
      then show ?thesis using assms pub by simp
    qed
    have "undo (change (sc_variables (sh_scopes s ! owner))) = sc_variables (sh_scopes s ! owner)"
      unfolding undo_def change_def
      by (rule update_var_undo [where var = var]) (use at in \<open>auto simp: ash_scope_find_in_frame_def\<close>)
    then have effect: "if ok2 then published_change owner name change s s2 else variables_same s (update_frame owner undo s2)"
      using at pub by (intro publish_change_cases [where g = undo]) auto
    show ?thesis
    proof (cases ok2)
      case False
      with rest effect show ?thesis by (simp add: same_var_changes)
    next
      case True
      then have change: "published_change owner name change s s1"
        using rest effect published_refresh [of owner name change s s2 os ok s1] by simp
      have "candidate AND ATTR_READONLY \<noteq> 0" if "has_attribute var ATTR_READONLY"
        using readonly_bit_kept [of "av_attributes var" clear set1] that False
        by (simp add: candidate_def has_attribute_def)
      then have "shell_change s s1"
        using change at False by (intro shell_change.attributes [where v = var]) (auto simp: change_def)
      then show ?thesis
        using change ambient_onlyD(1) [of "update_frame owner change s" s1]
        by (intro var_changes_one) (auto simp: published_change_def)
    qed
  qed
qed

lemma create_changes:
  assumes "ash_var_create_in_scope os s scope name value1 attributes = (ok, s1)"
    and "\<And>i. scope = Some i \<Longrightarrow> i < length (sh_scopes s) \<and> ash_scope_find_in_frame (sh_scopes s ! i) name = None"
    and "ash_is_valid_name_span name" "attributes AND NOT 0x1F = 0"
  shows "var_changes s s1"
proof (cases scope)
  case None
  with assms(1) show ?thesis by (simp add: ash_var_create_in_scope_def same_var_changes)
next
  case (Some i)
  note at = assms(2) [OF Some]
  from create_effect [OF assms(1) [unfolded Some]] at
  have "published_change i name (put_var name (Ash_Scalar value1) attributes) s s1 \<or> variables_same s s1" by auto
  then show ?thesis
  proof
    assume change: "published_change i name (put_var name (Ash_Scalar value1) attributes) s s1"
    have "shell_change s s1"
      by (rule shell_change.put [OF change assms(3,4)]) (simp add: at)
    then show ?thesis
      using change ambient_onlyD(1) [of "update_frame i _ s" s1]
      by (intro var_changes_one) (auto simp: published_change_def)
  qed (rule same_var_changes)
qed

lemma find_binding_none: "find_binding i scopes name = None \<Longrightarrow> j < length scopes \<Longrightarrow>
    ash_scope_find_in_frame (scopes ! j) name = None"
proof (induction i scopes name arbitrary: j rule: find_binding.induct)
  case (2 i scope scopes name)
  then show ?case by (cases j) (auto split: option.splits)
qed simp

lemma readonly_changes:
  assumes "ash_var_readonly os s name = (ok, s1)" "ash_is_valid_name_span name"
  shows "var_changes s s1"
proof (cases "ash_scope_lookup_variable_mut s name Lookup_Visible")
  case None
  then have "find_binding 0 (sh_scopes s) name = None" by (simp add: ash_scope_lookup_variable_mut_def)
  then have absent: "j < length (sh_scopes s) \<Longrightarrow> ash_scope_find_in_frame (sh_scopes s ! j) name = None" for j
    using find_binding_none by blast
  show ?thesis
  proof (rule create_changes)
    show "ash_var_create_in_scope os s (ash_scope_global s) name None ATTR_READONLY = (ok, s1)"
      using assms(1) None by (simp add: ash_var_readonly_def)
    show "i < length (sh_scopes s) \<and> ash_scope_find_in_frame (sh_scopes s ! i) name = None"
      if "ash_scope_global s = Some i" for i
      using ash_scope_global_in [OF that] absent by simp
  qed (simp_all add: assms(2))
next
  case (Some b)
  with assms(1) show ?thesis by (auto simp: ash_var_readonly_def intro: update_attributes_changes)
qed

lemma export_changes:
  assumes "ash_var_export os s name = (ok, s1)" "ash_is_valid_name_span name"
  shows "var_changes s s1"
proof (cases "ash_scope_lookup_variable_mut s name Lookup_Visible")
  case None
  with assms show ?thesis by (auto simp: ash_var_export_def intro: set_with_export_changes)
next
  case (Some b)
  with assms show ?thesis
    by (cases b) (auto simp: ash_var_export_def split: if_splits intro: set_caller_changes update_attributes_changes)
qed

lemma unset_changes:
  assumes "ash_var_unset os s name = (ok, s1)"
  shows "var_changes s s1"
proof (cases "ash_scope_lookup_variable_mut s name Lookup_Visible")
  case None
  with assms show ?thesis by (simp add: ash_var_unset_def same_var_changes)
next
  case (Some b)
  then obtain owner var where b: "ash_scope_lookup_raw s name Lookup_Visible = Some (owner, var)"
    by (cases b) (simp add: lookup_mut_raw)
  note at = lookup_raw_frame [OF b]
  show ?thesis
  proof (cases "av_attributes var AND ATTR_READONLY = 0")
    case False
    with assms b have "s1 = ash_var_readonly_error s False" by (simp add: ash_var_unset_def lookup_mut_raw)
    then show ?thesis by (simp add: same_var_changes)
  next
    case True
    obtain published s2 where pub: "ash_var_publish_visible os (update_frame owner (remove_var name) s) name = (published, s2)"
      by fastforce
    have s1: "s1 = (if published then s2 else ash_var_defer_publication s2 var)"
      using assms b True pub by (auto simp: ash_var_unset_def lookup_mut_raw)
    note effect = publish_visible_effect [OF pub]
    have env: "sh_environ s2 = (sh_environ s)(name := exported_value s2 name) \<or>
        \<not> published \<and> sh_environ s2 = sh_environ s"
      using effect ambient_exported [of "update_frame owner (remove_var name) s" s2 name] by auto
    have "shell_change s s1"
    proof (rule shell_change.remove [where i = owner and name = name and v = var and ?s2.0 = s2])
      show "sh_environ s2 = (sh_environ s)(name := exported_value s2 name) \<and> s1 = s2 \<or>
          (\<forall>n. n \<noteq> name \<longrightarrow> sh_environ s2 n = sh_environ s n) \<and> s1 = ash_var_defer_publication s2 var"
        using env s1 by (cases published) (auto simp: fun_upd_def)
    qed (use at True effect in \<open>auto simp: has_attribute_def\<close>)
    moreover have "length (sh_scopes s1) = length (sh_scopes s)"
      using effect ambient_onlyD(1) [of "update_frame owner (remove_var name) s" s2]
      by (simp add: s1 defer_effect)
    ultimately show ?thesis by (rule var_changes_one)
  qed
qed

section \<open>Histories of operations\<close>

text \<open>
  One call on the variables of the shell, with whatever the allocator and the C library do during it.
  The names given to the setters are valid, as their callers check.
\<close>

inductive shell_op :: "ash_shell \<Rightarrow> ash_shell \<Rightarrow> bool" where
  push_temporary: "ash_scope_push_temporary avail s = Some s1 \<Longrightarrow> shell_op s s1"
| push_function: "ash_scope_push_function avail s values = Some s1 \<Longrightarrow> shell_op s s1"
| set_positionals: "ash_scope_set_positionals avail s values = Some s1 \<Longrightarrow> shell_op s s1"
| pop: "ash_scope_pop os s kind = (result, s1) \<Longrightarrow> shell_op s s1"
| set_with_export: "ash_is_valid_name_span name \<Longrightarrow> ash_var_set_with_export os s name value1 force = (ok, s1) \<Longrightarrow> shell_op s s1"
| set_local: "ash_is_valid_name_span name \<Longrightarrow> ash_var_set_local os s name value1 force = (ok, s1) \<Longrightarrow> shell_op s s1"
| set_caller: "ash_is_valid_name_span name \<Longrightarrow> ash_var_set_caller os s name value1 force = (ok, s1) \<Longrightarrow> shell_op s s1"
| set_temporary: "ash_is_valid_name_span name \<Longrightarrow> ash_var_set_temporary os s name value1 force = (ok, s1) \<Longrightarrow> shell_op s s1"
| export: "ash_is_valid_name_span name \<Longrightarrow> ash_var_export os s name = (ok, s1) \<Longrightarrow> shell_op s s1"
| readonly: "ash_is_valid_name_span name \<Longrightarrow> ash_var_readonly os s name = (ok, s1) \<Longrightarrow> shell_op s s1"
| update_attributes: "ash_var_update_attributes os s name set1 clear = (ok, s1) \<Longrightarrow> shell_op s s1"
| unset: "ash_var_unset os s name = (ok, s1) \<Longrightarrow> shell_op s s1"
| publish_pending: "ash_vars_publish_pending os s = (ok, s1) \<Longrightarrow> shell_op s s1"

lemma first_positionals_in: "first_positionals scopes = Some frame \<Longrightarrow> \<exists>scope \<in> set scopes. sc_positionals scope = Some frame"
  by (induction scopes) (auto split: option.splits)

lemma positionals_ok:
  assumes "ash_scope_stack_invariants s" "ash_scope_positionals s = Some frame"
  shows "pf_argv0 frame \<noteq> None"
proof -
  obtain scope where "scope \<in> set (sh_scopes s)" "sc_positionals scope = Some frame"
    using first_positionals_in assms(2) by (auto simp: ash_scope_positionals_def)
  with assms(1) show ?thesis by (auto simp: stack_invariants_iff scope_invariants_def)
qed

lemma frame_copy_ok:
  assumes "ash_positional_frame_copy avail source = Some frame"
  shows "pf_argv0 frame = pf_argv0 source \<and> pf_values frame = pf_values source \<and> pf_argv0 frame \<noteq> None \<and>
    (\<forall>owned. pf_owned frame = Some owned \<longrightarrow> length (pf_values frame) \<le> length owned)"
  using assms by (auto simp: ash_positional_frame_copy_def split: if_splits)

lemma push_function_change:
  assumes "ash_scope_push_function avail s values = Some s1" "ash_scope_stack_invariants s"
  shows "shell_change s s1"
proof -
  obtain caller where caller: "ash_scope_positionals s = Some caller" "sh_scopes s \<noteq> []"
    using assms(1) by (auto simp: ash_scope_push_function_def split: if_splits option.splits)
  have "s1 = s\<lparr>sh_scopes := \<lparr>sc_kind = Scope_Function, sc_variables = [],
      sc_positionals = Some \<lparr>pf_argv0 = pf_argv0 caller, pf_values = values, pf_owned = None\<rparr>\<rparr> # sh_scopes s\<rparr>"
    using assms(1) caller by (auto simp: ash_scope_push_function_def split: if_splits)
  then show ?thesis
    using caller(2) positionals_ok [OF assms(2) caller(1)]
    by (intro shell_change.push) (auto simp: scope_invariants_def list_invariants_iff)
qed

lemma push_temporary_change:
  assumes "ash_scope_push_temporary avail s = Some s1"
  shows "shell_change s s1"
proof -
  have "sh_scopes s \<noteq> []" "s1 = s\<lparr>sh_scopes :=
      \<lparr>sc_kind = Scope_Temporary_Assignment, sc_variables = [], sc_positionals = None\<rparr> # sh_scopes s\<rparr>"
    using assms by (auto simp: ash_scope_push_temporary_def split: if_splits)
  then show ?thesis
    by (intro shell_change.push) (auto simp: scope_invariants_def list_invariants_iff)
qed

lemma set_positionals_change:
  assumes "ash_scope_set_positionals avail s values = Some s1"
  shows "shell_change s s1"
proof -
  obtain active where active: "ash_scope_positionals s = Some active"
    using assms by (auto simp: ash_scope_set_positionals_def split: option.splits)
  obtain frame where copy: "ash_positional_frame_copy avail
      \<lparr>pf_argv0 = pf_argv0 active, pf_values = values, pf_owned = None\<rparr> = Some frame"
    and s1: "s1 = s\<lparr>sh_scopes := replace_positionals frame (sh_scopes s)\<rparr>"
    using assms active by (auto simp: ash_scope_set_positionals_def split: option.splits)
  show ?thesis
    using frame_copy_ok [OF copy] by (intro shell_change.positionals [OF s1]) blast+
qed

lemma pop_change:
  assumes "ash_scope_pop os s kind = (result, s1)"
  shows "shell_change s s1"
proof (cases "sh_scopes s")
  case Nil
  with assms show ?thesis by (auto simp: ash_scope_pop_def intro: shell_change.same)
next
  case (Cons removed parents)
  show ?thesis
  proof (cases "sc_kind removed = Scope_Global \<or> sc_kind removed \<noteq> kind")
    case True
    with assms Cons show ?thesis by (auto simp: ash_scope_pop_def intro: shell_change.same)
  next
    case False
    obtain published s2 where pub: "pop_publish os (sc_variables removed) (s\<lparr>sh_scopes := parents\<rparr>) = (published, s2)"
      by fastforce
    then have "s2 = s1" using assms Cons False by (auto simp: ash_scope_pop_def)
    with shell_change.pop [OF Cons _ pub] False show ?thesis by blast
  qed
qed

lemma shell_op_changes:
  assumes "shell_op s s1" "ash_scope_stack_invariants s"
  shows "shell_change\<^sup>*\<^sup>* s s1"
  using assms
proof cases
  case push_temporary
  then show ?thesis by (intro r_into_rtranclp push_temporary_change)
next
  case push_function
  then show ?thesis using assms(2) by (intro r_into_rtranclp push_function_change)
next
  case set_positionals
  then show ?thesis by (intro r_into_rtranclp set_positionals_change)
next
  case pop
  then show ?thesis by (intro r_into_rtranclp pop_change)
next
  case publish_pending
  then show ?thesis by (intro r_into_rtranclp shell_change.pending)
qed (auto intro!: var_changes_shell
      intro: set_with_export_changes set_local_changes set_caller_changes set_temporary_changes
        export_changes readonly_changes update_attributes_changes unset_changes)

lemma shell_inv_op: "shell_op s s1 \<Longrightarrow> shell_inv foreign s \<Longrightarrow> shell_inv foreign s1"
  using shell_op_changes shell_inv_changes unfolding shell_inv_def by blast

lemma shell_inv_history: "shell_op\<^sup>*\<^sup>* s s1 \<Longrightarrow> shell_inv foreign s \<Longrightarrow> shell_inv foreign s1"
  by (induction rule: rtranclp_induct) (auto intro: shell_inv_op)

section \<open>Temporary assignments\<close>

text \<open>
  \<open>ash_apply_command_assignments_temporary\<close> of \<open>ash.c\<close>, from the expanded texts of the assignments: a
  frame is pushed, every assignment is made in it, and the frame is popped when one fails.
\<close>

fun assign_temporary :: "shell_os \<Rightarrow> string list \<Rightarrow> ash_shell \<Rightarrow> bool \<times> ash_shell" where
  "assign_temporary os [] shell = (True, shell)"
| "assign_temporary os (input # inputs) shell =
     (case (case ash_parse_assignment input of
              None \<Rightarrow> (False, shell)
            | Some (name, value1) \<Rightarrow> ash_var_set_temporary os shell name (Some value1) True) of
        (assigned, shell1) \<Rightarrow>
          if \<not> assigned then (False, snd (ash_scope_pop os shell1 Scope_Temporary_Assignment))
          else assign_temporary os inputs shell1)"

definition ash_apply_command_assignments_temporary :: "shell_os \<Rightarrow> ash_shell \<Rightarrow> string list \<Rightarrow> bool \<times> ash_shell" where
  "ash_apply_command_assignments_temporary os shell values =
     (if values = [] then (True, shell)
      else case ash_scope_push_temporary (os_alloc os) shell of
          None \<Rightarrow> (False, shell)
        | Some shell1 \<Rightarrow> assign_temporary os values shell1)"

text \<open>What is kept while the assignments are made: the frames below, and the top frame being temporary.\<close>

definition above :: "ash_shell \<Rightarrow> ash_shell \<Rightarrow> bool" where
  "above s s1 \<longleftrightarrow> (\<exists>scope. sc_kind scope = Scope_Temporary_Assignment \<and> sh_scopes s1 = scope # sh_scopes s) \<and>
     sh_pending_exports s1 = sh_pending_exports s"

lemma parse_assignment_valid: "ash_parse_assignment input = Some (name, value1) \<Longrightarrow> ash_is_valid_name_span name"
  by (auto simp: ash_parse_assignment_def Let_def split: if_splits)

lemma set_temporary_above:
  assumes "above s s1" "ash_var_set_temporary os s1 name value1 force = (ok, s2)"
  shows "above s s2"
proof -
  obtain scope where scope: "sc_kind scope = Scope_Temporary_Assignment" "sh_scopes s1 = scope # sh_scopes s"
    using assms(1) by (auto simp: above_def)
  then have set: "ash_var_set_in_scope os s1 (Some 0) name value1 0 force = (ok, s2)"
    using assms(2) by (simp add: ash_var_set_temporary_def current_is_temporary_def)
  have "\<And>i. Some 0 = Some i \<Longrightarrow> i < length (sh_scopes s1)" using scope by simp
  from set_in_scope_effect [OF set this]
  consider (changed) f where "published_change 0 name f s1 s2" | (same) "variables_same s1 s2" by blast
  then show ?thesis
  proof cases
    case (changed f)
    then have step: "ambient_only (update_frame 0 f s1) s2" by (simp add: published_change_def)
    show ?thesis
      using ambient_onlyD(1,2) [OF step] scope assms(1) by (simp add: above_def update_frame_def)
  next
    case same
    with assms(1) show ?thesis by (simp add: above_def variables_same_def)
  qed
qed

lemma pop_above:
  assumes "above s s1" "ash_scope_pop os s1 Scope_Temporary_Assignment = (result, s2)"
  shows "sh_scopes s2 = sh_scopes s \<and> (result = Pop_Ok \<longrightarrow> pending_names s2 = pending_names s)"
proof -
  obtain scope where scope: "sc_kind scope = Scope_Temporary_Assignment" "sh_scopes s1 = scope # sh_scopes s"
    using assms(1) by (auto simp: above_def)
  then obtain published where pop: "pop_publish os (sc_variables scope) (s1\<lparr>sh_scopes := sh_scopes s\<rparr>) = (published, s2)"
    and result: "result = (if published then Pop_Ok else Pop_Publication_Error)"
    using assms(2) by (auto simp: ash_scope_pop_def split: prod.splits)
  have "pending_names (s1\<lparr>sh_scopes := sh_scopes s\<rparr>) = pending_names s"
    using assms(1) by (simp add: above_def pending_names_def)
  with pop_publish_effect [OF pop] result show ?thesis by auto
qed

lemma assign_temporary_above:
  assumes "assign_temporary os inputs s1 = (ok, s2)" "above s s1"
  shows "shell_op\<^sup>*\<^sup>* s1 s2 \<and> (if ok then above s s2 else sh_scopes s2 = sh_scopes s)"
  using assms
proof (induction inputs arbitrary: s1)
  case (Cons input inputs)
  obtain assigned s3 where step: "(case ash_parse_assignment input of
      None \<Rightarrow> (False, s1) | Some (name, value1) \<Rightarrow> ash_var_set_temporary os s1 name (Some value1) True) = (assigned, s3)"
    by fastforce
  have s3: "above s s3 \<and> shell_op\<^sup>*\<^sup>* s1 s3"
  proof (cases "ash_parse_assignment input")
    case None
    with step Cons.prems(2) show ?thesis by simp
  next
    case (Some p)
    then obtain name value1 where p: "ash_parse_assignment input = Some (name, value1)"
      and set: "ash_var_set_temporary os s1 name (Some value1) True = (assigned, s3)"
      using step by (cases p) auto
    show ?thesis
      using set_temporary_above [OF Cons.prems(2) set] shell_op.set_temporary [OF parse_assignment_valid [OF p] set]
      by auto
  qed
  show ?case
  proof (cases assigned)
    case False
    obtain result s4 where pop: "ash_scope_pop os s3 Scope_Temporary_Assignment = (result, s4)" by fastforce
    have out: "\<not> ok" "s2 = s4" using Cons.prems(1) step False pop by simp_all
    have "shell_op\<^sup>*\<^sup>* s1 s4" using s3 shell_op.pop [OF pop] by (meson rtranclp.rtrancl_into_rtrancl)
    with out pop_above [OF conjunct1 [OF s3] pop] show ?thesis by simp
  next
    case True
    then have "assign_temporary os inputs s3 = (ok, s2)" using Cons.prems(1) step by simp
    from Cons.IH [OF this conjunct1 [OF s3]] s3 show ?thesis by auto
  qed
qed simp

section \<open>Properties\<close>

text \<open>
  C30: Through every history of operations on frames and variables, with allocations, \<open>setenv\<close> and the
  locale failing at any point, the environment of the process stays the mirror of the exported
  variables: outside the foreign names the process had before, and the names whose publication is
  pending after a failure, a name is in the environment exactly when its visible variable is exported and
  set, with that value. The predicate that the code asserts on the stack holds as well.
\<close>

theorem shell_environment_mirrored:
  assumes "ash_scope_stack_init avail s argv0 values = Some s0"
    and "\<And>name. name \<notin> foreign \<Longrightarrow> sh_environ s name = None"
    and "shell_op\<^sup>*\<^sup>* s0 s1"
  shows "ash_scope_stack_invariants s1 \<and>
    (sh_environ s1 name = exported_value s1 name \<or> name \<in> foreign \<union> pending_names s1)"
proof -
  have s0: "sh_scopes s0 = [\<lparr>sc_kind = Scope_Global, sc_variables = [],
      sc_positionals = Some \<lparr>pf_argv0 = argv0, pf_values = values, pf_owned = None\<rparr>\<rparr>]"
    "sh_pending_exports s0 = []" "argv0 \<noteq> None" "sh_environ s0 = sh_environ s"
    using assms(1) by (auto simp: ash_scope_stack_init_def split: if_splits)
  have "environment_mirrors foreign s0"
    using assms(2) s0 by (simp add: environment_mirrors_def exported_value_def ash_scope_find_in_frame_def)
  moreover have "ash_scope_stack_invariants s0"
    using s0 by (simp add: stack_invariants_iff kinds_ok_def scope_invariants_def list_invariants_iff)
  ultimately have "shell_inv foreign s1" using shell_inv_history [OF assms(3)] by (simp add: shell_inv_def)
  then show ?thesis by (auto simp: shell_inv_def environment_mirrors_def)
qed

text \<open>
  C31: Assignments before a command leave no trace: when the temporary frame is released, the stack of frames is what it
  was before, value for value, and so is the environment of the process, outside the foreign names.
  An assignment that fails has already released the frame.
\<close>

theorem temporary_assignments_undone:
  assumes "shell_inv foreign s" and "sh_pending_exports s = []" and "values \<noteq> []"
    and "ash_apply_command_assignments_temporary os s values = (True, s1)"
    and "ash_scope_pop os1 s1 Scope_Temporary_Assignment = (Pop_Ok, s2)"
    and "name \<notin> foreign"
  shows "sh_scopes s2 = sh_scopes s \<and> sh_environ s2 name = sh_environ s name"
proof -
  obtain s3 where push: "ash_scope_push_temporary (os_alloc os) s = Some s3"
    and assign: "assign_temporary os values s3 = (True, s1)"
    using assms(3,4) by (auto simp: ash_apply_command_assignments_temporary_def split: option.splits if_splits)
  have "above s s3" using push by (auto simp: ash_scope_push_temporary_def above_def split: if_splits)
  from assign_temporary_above [OF assign this] have up: "shell_op\<^sup>*\<^sup>* s3 s1" "above s s1" by simp_all
  have "shell_op\<^sup>*\<^sup>* s s2"
    using shell_op.push_temporary [OF push] up(1) shell_op.pop [OF assms(5)]
    by (meson converse_rtranclp_into_rtranclp rtranclp.rtrancl_into_rtrancl)
  from shell_inv_history [OF this assms(1)] have "environment_mirrors foreign s2" by (simp add: shell_inv_def)
  moreover have "sh_scopes s2 = sh_scopes s" "pending_names s2 = {}"
    using pop_above [OF up(2) assms(5)] assms(2) by (simp_all add: pending_names_def)
  moreover have "environment_mirrors foreign s" "pending_names s = {}"
    using assms(1,2) by (simp_all add: shell_inv_def pending_names_def)
  ultimately show ?thesis
    using assms(6) by (simp add: environment_mirrors_def exported_value_def)
qed

definition sample_os :: shell_os where
  "sample_os = \<lparr>os_alloc = (\<lambda>_. True), os_setenv = (\<lambda>_ _. True), os_duplocale = (\<lambda>l. Inr l),
     os_newlocale = (\<lambda>_ _ l. Inr l), os_uselocale = (\<lambda>_. None)\<rparr>"

definition exported_x :: ash_var where
  "exported_x = \<lparr>av_name = ''x'', av_value = Ash_Scalar (Some ''1''), av_attributes = ATTR_EXPORT\<rparr>"

definition with_global :: "ash_var list \<Rightarrow> (string \<Rightarrow> string option) \<Rightarrow> ash_shell" where
  "with_global vars env = sample_shell\<lparr>sh_scopes := [\<lparr>sc_kind = Scope_Global, sc_variables = vars,
     sc_positionals = Some \<lparr>pf_argv0 = Some ''sh'', pf_values = [], pf_owned = None\<rparr>\<rparr>], sh_environ := env\<rparr>"

lemmas shell_eval =
  sample_os_def exported_x_def with_global_def sample_shell_def ash_var_set_with_export_def
  ash_var_set_temporary_def ash_var_set_in_scope_def ash_var_create_in_scope_def ash_value_init_scalar_def
  ash_value_duplicate_def ash_var_publish_environment_def ash_vars_refresh_locale_def ash_locale_refresh_def
  ash_locale_variable_def ash_locale_categories_def update_frame_def visible_or_global_def ash_scope_global_def
  ash_scope_lookup_variable_mut_def ash_scope_find_in_frame_def ash_var_find_in_scope_def
  ash_var_assignment_allowed_def ash_var_writable_def ash_value_get_scalar_def Let_def

lemma sample_init:
  "ash_scope_stack_init (\<lambda>_. True) (sample_shell\<lparr>sh_scopes := []\<rparr>) (Some ''sh'') [] = Some (with_global [] (\<lambda>_. None))"
  by (simp add: ash_scope_stack_init_def shell_eval)

lemma sample_set:
  "ash_var_set_with_export sample_os (with_global [] (\<lambda>_. None)) ''x'' (Some ''1'') True =
     (True, with_global [exported_x] ((\<lambda>_. None)(''x'' := Some ''1'')))"
  by (simp add: shell_eval)

definition shell_with_x :: ash_shell where
  "shell_with_x = with_global [exported_x] ((\<lambda>_. None)(''x'' := Some ''1''))"

lemma shell_with_x_reached: "shell_op\<^sup>*\<^sup>* (with_global [] (\<lambda>_. None)) shell_with_x"
proof -
  have "ash_is_valid_name_span ''x''" by code_simp
  from shell_op.set_with_export [OF this sample_set] show ?thesis unfolding shell_with_x_def ..
qed

lemma shell_environment_mirrored_witness:
  "(sh_environ shell_with_x ''x'' = exported_value shell_with_x ''x'' \<or> ''x'' \<in> {} \<union> pending_names shell_with_x) \<and>
   sh_environ shell_with_x ''x'' = Some ''1''"
  using shell_environment_mirrored [OF sample_init _ shell_with_x_reached, of "{}" "''x''"]
  by (simp add: sample_shell_def) (simp add: shell_with_x_def shell_eval)

lemma shell_with_x_inv: "shell_inv {} shell_with_x"
proof -
  have "shell_inv {} (with_global [] (\<lambda>_. None))"
    by (simp add: shell_inv_def environment_mirrors_def exported_value_def stack_invariants_iff kinds_ok_def
        scope_invariants_def list_invariants_iff shell_eval)
  from shell_inv_history [OF shell_with_x_reached this] show ?thesis .
qed

definition pushed_shell :: ash_shell where
  "pushed_shell = shell_with_x\<lparr>sh_scopes :=
     \<lparr>sc_kind = Scope_Temporary_Assignment,
      sc_variables = [\<lparr>av_name = ''x'', av_value = Ash_Scalar (Some ''2''), av_attributes = ATTR_EXPORT\<rparr>],
      sc_positionals = None\<rparr> # sh_scopes shell_with_x,
     sh_environ := (\<lambda>_. None)(''x'' := Some ''2'')\<rparr>"

lemma sample_assign:
  "ash_apply_command_assignments_temporary sample_os shell_with_x [''x=2''] = (True, pushed_shell)"
proof -
  have "ash_parse_assignment ''x=2'' = Some (''x'', ''2'')" by code_simp
  then show ?thesis
    by (simp add: ash_apply_command_assignments_temporary_def ash_scope_push_temporary_def pushed_shell_def
        shell_with_x_def current_is_temporary_def shell_eval)
qed

lemma sample_pop: "ash_scope_pop sample_os pushed_shell Scope_Temporary_Assignment = (Pop_Ok, shell_with_x)"
  by (simp add: ash_scope_pop_def pushed_shell_def shell_with_x_def ash_var_publish_visible_def shell_eval)

lemma temporary_assignments_undone_witness:
  "sh_environ pushed_shell ''x'' = Some ''2'' \<and>
   (\<exists>s2. ash_scope_pop sample_os pushed_shell Scope_Temporary_Assignment = (Pop_Ok, s2) \<and>
      sh_scopes s2 = sh_scopes shell_with_x \<and> sh_environ s2 ''x'' = sh_environ shell_with_x ''x'')"
proof -
  have "sh_pending_exports shell_with_x = []" by (simp add: shell_with_x_def shell_eval)
  from temporary_assignments_undone [OF shell_with_x_inv this _ sample_assign sample_pop, of "''x''"]
  show ?thesis using sample_pop by (auto simp: pushed_shell_def)
qed

text \<open>
  Read-only variables. Frames are counted from the global one here, so that their numbers do not change when
  frames are pushed and popped.
\<close>

definition frame_var :: "ash_shell \<Rightarrow> nat \<Rightarrow> string \<Rightarrow> ash_var option" where
  "frame_var s k name =
     (if k < length (sh_scopes s) then ash_scope_find_in_frame (rev (sh_scopes s) ! k) name else None)"

definition readonly_kept :: "ash_shell \<Rightarrow> ash_shell \<Rightarrow> bool" where
  "readonly_kept s s1 \<longleftrightarrow>
     (\<forall>k name v. k < length (sh_scopes s1) \<longrightarrow> frame_var s k name = Some v \<longrightarrow> has_attribute v ATTR_READONLY \<longrightarrow>
        (\<exists>v1. frame_var s1 k name = Some v1 \<and> has_attribute v1 ATTR_READONLY \<and> av_value v1 = av_value v))"

lemma frame_var_scopes: "sh_scopes s1 = sh_scopes s \<Longrightarrow> frame_var s1 k name = frame_var s k name"
  by (simp add: frame_var_def)

lemma readonly_kept_same: "sh_scopes s1 = sh_scopes s \<Longrightarrow> readonly_kept s s1"
  unfolding readonly_kept_def using frame_var_scopes by metis

lemma readonly_kept_trans:
  assumes "readonly_kept a b" "readonly_kept b c"
    and "length (sh_scopes a) \<le> length (sh_scopes b) \<or> length (sh_scopes c) \<le> length (sh_scopes b)"
  shows "readonly_kept a c"
  unfolding readonly_kept_def
proof (intro allI impI)
  fix k name v
  assume k: "k < length (sh_scopes c)" and v: "frame_var a k name = Some v" "has_attribute v ATTR_READONLY"
  have "k < length (sh_scopes a)" using v(1) by (auto simp: frame_var_def split: if_splits)
  with assms(3) k have "k < length (sh_scopes b)" by auto
  with assms(1) v obtain v1 where "frame_var b k name = Some v1" "has_attribute v1 ATTR_READONLY" "av_value v1 = av_value v"
    unfolding readonly_kept_def by blast
  with assms(2) k show "\<exists>v1. frame_var c k name = Some v1 \<and> has_attribute v1 ATTR_READONLY \<and> av_value v1 = av_value v"
    unfolding readonly_kept_def by metis
qed

lemma frame_var_update:
  assumes i: "i < length (sh_scopes s)" and k: "k < length (sh_scopes s)"
    and step: "sh_scopes s1 = sh_scopes (update_frame i f s)"
  shows "frame_var s1 k name =
    (if k = length (sh_scopes s) - 1 - i then find (\<lambda>v. av_name v = name) (f (sc_variables (sh_scopes s ! i)))
     else frame_var s k name)"
proof -
  have "k = length (sh_scopes s) - 1 - i \<longleftrightarrow> length (sh_scopes s) - Suc k = i" using i k by auto
  then show ?thesis
    using i k by (auto simp: frame_var_def step update_frame_def rev_nth ash_scope_find_in_frame_def)
qed

lemma readonly_kept_frame:
  assumes i: "i < length (sh_scopes s)" and step: "sh_scopes s1 = sh_scopes (update_frame i f s)"
    and keeps: "\<And>name v. find (\<lambda>v. av_name v = name) (sc_variables (sh_scopes s ! i)) = Some v \<Longrightarrow>
      has_attribute v ATTR_READONLY \<Longrightarrow>
      \<exists>v1. find (\<lambda>v. av_name v = name) (f (sc_variables (sh_scopes s ! i))) = Some v1 \<and>
        has_attribute v1 ATTR_READONLY \<and> av_value v1 = av_value v"
  shows "readonly_kept s s1"
  unfolding readonly_kept_def
proof (intro allI impI)
  fix k name v
  assume "k < length (sh_scopes s1)" and v: "frame_var s k name = Some v" "has_attribute v ATTR_READONLY"
  then have k: "k < length (sh_scopes s)" by (auto simp: frame_var_def split: if_splits)
  show "\<exists>v1. frame_var s1 k name = Some v1 \<and> has_attribute v1 ATTR_READONLY \<and> av_value v1 = av_value v"
  proof (cases "k = length (sh_scopes s) - 1 - i")
    case True
    then have "rev (sh_scopes s) ! k = sh_scopes s ! i" using i by (simp add: rev_nth)
    then have "find (\<lambda>v. av_name v = name) (sc_variables (sh_scopes s ! i)) = Some v"
      using v(1) k by (simp add: frame_var_def ash_scope_find_in_frame_def)
    from keeps [OF this v(2)] show ?thesis using frame_var_update [OF i k step] True by simp
  next
    case False
    with frame_var_update [OF i k step] v show ?thesis by simp
  qed
qed

lemma readonly_kept_change:
  assumes "shell_change s s1"
  shows "readonly_kept s s1"
  using assms
proof cases
  case same
  then show ?thesis by (simp add: variables_same_def readonly_kept_same)
next
  case (put i name value1 attributes)
  then have i: "i < length (sh_scopes s)"
    and step: "sh_scopes s1 = sh_scopes (update_frame i (put_var name (Ash_Scalar value1) attributes) s)"
    using ambient_onlyD(1) by (auto simp: published_change_def)
  show ?thesis
  proof (rule readonly_kept_frame [OF i step])
    fix n v assume v: "find (\<lambda>v. av_name v = n) (sc_variables (sh_scopes s ! i)) = Some v" "has_attribute v ATTR_READONLY"
    then have "n \<noteq> name" using put(4) by (auto simp: ash_scope_find_in_frame_def)
    with v show "\<exists>v1. find (\<lambda>v. av_name v = n) (put_var name (Ash_Scalar value1) attributes (sc_variables (sh_scopes s ! i))) = Some v1 \<and>
        has_attribute v1 ATTR_READONLY \<and> av_value v1 = av_value v"
      by (simp add: find_put_var_other)
  qed
next
  case (attributes i name candidate v)
  then have i: "i < length (sh_scopes s)"
    and step: "sh_scopes s1 = sh_scopes (update_frame i (update_var name (\<lambda>v. v\<lparr>av_attributes := candidate\<rparr>)) s)"
    using ambient_onlyD(1) by (auto simp: published_change_def)
  show ?thesis
  proof (rule readonly_kept_frame [OF i step])
    fix n w assume w: "find (\<lambda>v. av_name v = n) (sc_variables (sh_scopes s ! i)) = Some w" "has_attribute w ATTR_READONLY"
    show "\<exists>v1. find (\<lambda>v. av_name v = n) (update_var name (\<lambda>v. v\<lparr>av_attributes := candidate\<rparr>) (sc_variables (sh_scopes s ! i))) = Some v1 \<and>
        has_attribute v1 ATTR_READONLY \<and> av_value v1 = av_value w"
      using w attributes(2,4) by (cases "n = name") (auto simp: find_update_var ash_scope_find_in_frame_def has_attribute_def)
  qed
next
  case (remove i name v s2)
  have step: "sh_scopes s1 = sh_scopes (update_frame i (remove_var name) s)"
    using remove(5) ambient_onlyD(1) [OF remove(4)] by (auto simp: defer_effect)
  show ?thesis
  proof (rule readonly_kept_frame [OF remove(1) step])
    fix n w assume w: "find (\<lambda>v. av_name v = n) (sc_variables (sh_scopes s ! i)) = Some w" "has_attribute w ATTR_READONLY"
    then have "n \<noteq> name" using remove(2,3) by (auto simp: ash_scope_find_in_frame_def)
    with w show "\<exists>v1. find (\<lambda>v. av_name v = n) (remove_var name (sc_variables (sh_scopes s ! i))) = Some v1 \<and>
        has_attribute v1 ATTR_READONLY \<and> av_value v1 = av_value w"
      by (simp add: find_remove_var)
  qed
next
  case (push scope)
  then show ?thesis
    by (auto simp: readonly_kept_def frame_var_def nth_append split: if_splits)
next
  case (pop removed parents os published)
  have "sh_scopes s1 = parents" using pop_publish_effect [OF pop(3)] by simp
  with pop(1) show ?thesis
    by (auto simp: readonly_kept_def frame_var_def nth_append split: if_splits)
next
  case (pending os published)
  from publish_pending_effect [OF pending [unfolded ash_vars_publish_pending_def] refl]
  show ?thesis by (simp add: readonly_kept_same)
next
  case (positionals frame)
  have vars: "map sc_variables (replace_positionals frame scopes) = map sc_variables scopes" for scopes
    by (induction frame scopes rule: replace_positionals.induct) auto
  then have len: "length (replace_positionals frame scopes) = length scopes" for scopes
    by (metis length_map)
  have "sc_variables (rev (sh_scopes s1) ! k) = sc_variables (rev (sh_scopes s) ! k)" if "k < length (sh_scopes s)" for k
    using that arg_cong [OF vars [of "sh_scopes s"], of "\<lambda>xs. rev xs ! k"] positionals(1)
    by (simp add: rev_map len)
  then have "frame_var s1 k name = frame_var s k name" for k name
    using positionals(1) by (auto simp: frame_var_def ash_scope_find_in_frame_def len)
  then show ?thesis by (auto simp: readonly_kept_def)
qed

lemma readonly_kept_var_changes: "var_changes s s1 \<Longrightarrow> readonly_kept s s1"
  unfolding var_changes_def
proof (induction rule: rtranclp_induct)
  case (step s1 s2)
  then have "length (sh_scopes s1) = length (sh_scopes s)"
    using var_changes_length [of s s1] by (simp add: var_changes_def)
  with step readonly_kept_change show ?case by (auto intro: readonly_kept_trans)
qed (simp add: readonly_kept_same)

lemma readonly_kept_op:
  assumes "shell_op s s1" "ash_scope_stack_invariants s"
  shows "readonly_kept s s1"
  using assms
proof cases
  case push_temporary
  then show ?thesis by (intro readonly_kept_change push_temporary_change)
next
  case push_function
  then show ?thesis using assms(2) by (intro readonly_kept_change push_function_change)
next
  case set_positionals
  then show ?thesis by (intro readonly_kept_change set_positionals_change)
next
  case pop
  then show ?thesis by (intro readonly_kept_change pop_change)
next
  case publish_pending
  then show ?thesis by (intro readonly_kept_change shell_change.pending)
qed (auto intro!: readonly_kept_var_changes
      intro: set_with_export_changes set_local_changes set_caller_changes set_temporary_changes
        export_changes readonly_changes update_attributes_changes unset_changes)

text \<open>
  C32: A read-only variable keeps its value and stays read-only through every operation on the shell's
  variables, in whatever frame it lives, until its frame is released: no setter writes to it, the
  removal of a variable refuses it, and the attribute cannot be cleared.
\<close>

theorem readonly_variable_kept:
  assumes "shell_op s s1" and "ash_scope_stack_invariants s"
    and "frame_var s k name = Some v" and "has_attribute v ATTR_READONLY"
    and "k < length (sh_scopes s1)"
  shows "\<exists>v1. frame_var s1 k name = Some v1 \<and> has_attribute v1 ATTR_READONLY \<and> av_value v1 = av_value v"
  using readonly_kept_op [OF assms(1,2)] assms(3-5) by (simp add: readonly_kept_def)

text \<open>The variable an assignment leaves in the frame that the lookup reaches first.\<close>

lemma find_binding_first:
  assumes "find_binding i scopes name = Some (j, v)" "m < j - i"
  shows "ash_scope_find_in_frame (scopes ! m) name = None"
  using assms
proof (induction i scopes name arbitrary: m rule: find_binding.induct)
  case (2 i scope scopes name)
  show ?case
  proof (cases "ash_scope_find_in_frame scope name")
    case None
    with 2 show ?thesis by (cases m) auto
  next
    case (Some w)
    with 2 show ?thesis by simp
  qed
qed simp

lemma frame_lookup_replaced:
  assumes "i < length scopes" "\<And>m. m < i \<Longrightarrow> ash_scope_find_in_frame (scopes ! m) name = None"
    and "ash_scope_find_in_frame scope name = Some v"
  shows "frame_lookup (scopes[i := scope]) name = Some v"
  using assms
proof (induction scopes arbitrary: i)
  case (Cons s scopes)
  show ?case
  proof (cases i)
    case 0
    with Cons.prems show ?thesis by simp
  next
    case (Suc j)
    have "frame_lookup (scopes[j := scope]) name = Some v"
    proof (rule Cons.IH)
      show "ash_scope_find_in_frame (scopes ! m) name = None" if "m < j" for m
        using Cons.prems(2) [of "Suc m"] Suc that by simp
    qed (use Cons.prems Suc in auto)
    moreover have "ash_scope_find_in_frame s name = None" using Cons.prems(2) [of 0] Suc by simp
    ultimately show ?thesis by (simp add: Suc)
  qed
qed simp

lemma visible_or_global_first:
  assumes "visible_or_global s name Lookup_Visible = Some i" "m < i"
  shows "ash_scope_find_in_frame (sh_scopes s ! m) name = None"
proof (cases "find_binding 0 (sh_scopes s) name")
  case None
  have "i < length (sh_scopes s)" using assms(1) by (rule visible_or_global_in)
  with find_binding_none [OF None] assms(2) show ?thesis by simp
next
  case (Some b)
  then have "find_binding 0 (sh_scopes s) name = Some (i, snd b)"
    using assms(1) by (cases b) (auto simp: visible_or_global_def ash_scope_lookup_variable_mut_def)
  from find_binding_first [OF this] assms(2) show ?thesis by simp
qed

lemma find_put_var:
  "\<exists>v. find (\<lambda>v. av_name v = name) (put_var name scalar attributes vs) = Some v \<and> av_value v = scalar \<and>
     (\<exists>old. av_attributes v = old OR attributes)"
proof (cases "find (\<lambda>v. av_name v = name) vs")
  case None
  then show ?thesis by (auto simp: put_var_def intro: exI [of _ "attributes"])
next
  case (Some w)
  then show ?thesis by (auto simp: put_var_def find_update_var)
qed

text \<open>
  C33: Assigning and reading agree: an assignment that reports success is what the next lookup of the name
  finds, exported when that was asked for or when all variables are, and no other visible variable and no
  other name of the environment has changed.
\<close>

theorem assigned_value_visible:
  assumes "ash_var_set_with_export os s name value1 force = (True, s1)"
  shows "\<exists>v. ash_var_find_len_const s1 name = Some v \<and> av_value v = Ash_Scalar value1 \<and>
      sh_environ s1 name \<in> (if force \<or> sh_options s AND OPTION_ALLEXPORT \<noteq> 0 then {value1} else {value1, None}) \<and>
      (ash_var_find_len_const s1)(name := None) = (ash_var_find_len_const s)(name := None) \<and>
      (sh_environ s1)(name := None) = (sh_environ s)(name := None)"
proof -
  define attributes where "attributes = (if force \<or> sh_options s AND OPTION_ALLEXPORT \<noteq> 0 then 0 OR ATTR_EXPORT else 0)"
  obtain i where i: "visible_or_global s name Lookup_Visible = Some i"
    and change: "published_change i name (put_var name (Ash_Scalar value1) attributes) s s1"
    using set_in_scope_effect [OF assms [unfolded ash_var_set_with_export_def]] visible_or_global_in
    unfolding attributes_def by blast
  define f where "f = put_var name (Ash_Scalar value1) attributes"
  have inside: "i < length (sh_scopes s)" and step: "ambient_only (update_frame i f s) s1"
    and env: "sh_environ s1 = (sh_environ s)(name := exported_value s1 name)"
    using change by (simp_all add: published_change_def f_def)
  obtain v old where v: "find (\<lambda>v. av_name v = name) (f (sc_variables (sh_scopes s ! i))) = Some v"
      "av_value v = Ash_Scalar value1" "av_attributes v = old OR attributes"
    using find_put_var [of name "Ash_Scalar value1" attributes] unfolding f_def by blast
  have "visible_var s1 name = Some v"
    using frame_lookup_replaced [OF inside visible_or_global_first [OF i]] v(1) ambient_onlyD(1) [OF step]
    by (simp add: update_frame_def ash_scope_find_in_frame_def)
  moreover have "visible_var s1 n = visible_var s n" if "n \<noteq> name" for n
    using update_frame_visible [OF inside, of n f] find_put_var_other [OF that] ambient_onlyD(1) [OF step]
    by (simp add: f_def)
  moreover have "(old OR ATTR_EXPORT) AND ATTR_EXPORT = ATTR_EXPORT"
    by (auto intro!: bit_word_eqI simp: bit_and_iff bit_or_iff)
  ultimately show ?thesis
    using v(2,3) env
    by (auto simp: fun_eq_iff exported_value_def ash_value_get_scalar_def attributes_def)
qed

definition readonly_x :: ash_var where
  "readonly_x = \<lparr>av_name = ''x'', av_value = Ash_Scalar (Some ''1''), av_attributes = ATTR_READONLY\<rparr>"

lemma sample_readonly_unset:
  "ash_var_unset sample_os (with_global [readonly_x] (\<lambda>_. None)) ''x'' = (False, with_global [readonly_x] (\<lambda>_. None))"
  by (simp add: ash_var_unset_def readonly_x_def ash_var_readonly_error_def shell_eval)

lemma readonly_variable_kept_witness:
  "\<exists>v1. frame_var (with_global [readonly_x] (\<lambda>_. None)) 0 ''x'' = Some v1 \<and> has_attribute v1 ATTR_READONLY \<and>
     av_value v1 = Ash_Scalar (Some ''1'')"
proof -
  have valid: "ash_is_valid_name_span ''x''" by code_simp
  have inv: "ash_scope_stack_invariants (with_global [readonly_x] (\<lambda>_. None))"
    by (simp add: stack_invariants_iff kinds_ok_def scope_invariants_def list_invariants_iff var_ok_def valid
        readonly_x_def ash_var_attributes_valid_def shell_eval)
  have here: "frame_var (with_global [readonly_x] (\<lambda>_. None)) 0 ''x'' = Some readonly_x"
    by (simp add: frame_var_def readonly_x_def shell_eval)
  have attr: "has_attribute readonly_x ATTR_READONLY" by (simp add: readonly_x_def has_attribute_def)
  have "0 < length (sh_scopes (with_global [readonly_x] (\<lambda>_. None)))" by (simp add: with_global_def)
  from readonly_variable_kept [OF shell_op.unset [OF sample_readonly_unset] inv here attr this]
  show ?thesis by (simp add: readonly_x_def)
qed

lemma assigned_value_visible_witness:
  "\<exists>v. ash_var_find_len_const (with_global [exported_x] ((\<lambda>_. None)(''x'' := Some ''1''))) ''x'' = Some v \<and>
     av_value v = Ash_Scalar (Some ''1'')"
  using assigned_value_visible [OF sample_set] by blast

end
