(* ===== verification/ShellArith.thy ===== *)
theory ShellArith
  imports ShellVars "HOL-Library.Signed_Division"
begin

text \<open>
  Arithmetic expansion (\<open>src/src/applets/shell/ash/arithmetic.c\<close>): an operator-precedence evaluator
  with a stack of operators and a stack of values. It evaluates while it reads: an operator is reduced
  as soon as a later one of lower precedence arrives, and a part that \<open>&&\<close>, \<open>||\<close> or \<open>?:\<close> skip is read
  with its effects suppressed.

  A \<open>long\<close> is the word of its bits, read with \<open>sint\<close>. The expression with a position is the text from that
  position on. A stack is the list of its entries from the top, with the capacity of its array. Every
  function that can reach an assignment returns the shell as well, also with an error, because the
  assignments made before the error stay.
\<close>

section \<open>Operators, entries and stacks\<close>

datatype ash_arithmetic_operator =
    Arith_Open
  | Arith_Assign | Arith_Assign_Or | Arith_Assign_Xor | Arith_Assign_And | Arith_Assign_Shl | Arith_Assign_Shr
  | Arith_Assign_Add | Arith_Assign_Sub | Arith_Assign_Mul | Arith_Assign_Div | Arith_Assign_Mod
  | Arith_Question | Arith_Conditional | Arith_Logical_Or | Arith_Logical_And | Arith_Or | Arith_Xor | Arith_And
  | Arith_Eq | Arith_Ne | Arith_Lt | Arith_Le | Arith_Gt | Arith_Ge | Arith_Shl | Arith_Shr
  | Arith_Add | Arith_Sub | Arith_Mul | Arith_Div | Arith_Mod | Arith_Pos | Arith_Neg | Arith_Not | Arith_Invert

record ash_arithmetic_entry =
  en_value :: u64
  en_name :: cstr
  en_resolved :: bool
  en_operator :: ash_arithmetic_operator
  en_suppressed :: bool

record ash_arithmetic_stack =
  sk_entries :: "ash_arithmetic_entry list"
  sk_capacity :: u64

datatype arith_message =
    Unmatched_Parenthesis | Missing_Colon | Missing_Operand | Invalid_Target | Integer_Overflow | Division_By_Zero
  | Invalid_Shift_Count | Invalid_Left_Shift | Unsupported_Operator | Assignment_Failed | Constant_Out_Of_Range
  | Invalid_Constant | Unbound_Variable | Invalid_Operand | Out_Of_Memory | Unmatched_Colon | Invalid_Expression

record ash_arithmetic_error =
  er_message :: arith_message
  er_name :: cstr
  er_reported :: bool

definition failure :: "arith_message \<Rightarrow> ash_arithmetic_error" where
  "failure message = \<lparr>er_message = message, er_name = None, er_reported = False\<rparr>"

abbreviation LONG_MAX :: u64 where "LONG_MAX \<equiv> 0x7FFFFFFFFFFFFFFF"
abbreviation LONG_MIN :: u64 where "LONG_MIN \<equiv> 0x8000000000000000"

text \<open>An entry of zero bytes, with the fields the initialisers set: an operator, and a plain value.\<close>

definition operator_entry :: "ash_arithmetic_operator \<Rightarrow> bool \<Rightarrow> ash_arithmetic_entry" where
  "operator_entry operator suppressed =
     \<lparr>en_value = 0, en_name = None, en_resolved = False, en_operator = operator, en_suppressed = suppressed\<rparr>"

definition value_entry :: "u64 \<Rightarrow> ash_arithmetic_entry" where
  "value_entry value1 =
     \<lparr>en_value = value1, en_name = None, en_resolved = False, en_operator = Arith_Open, en_suppressed = False\<rparr>"

definition name_entry :: "string \<Rightarrow> ash_arithmetic_entry" where
  "name_entry name =
     \<lparr>en_value = 0, en_name = Some name, en_resolved = False, en_operator = Arith_Open, en_suppressed = False\<rparr>"

definition ash_arithmetic_stack_init :: ash_arithmetic_stack where
  "ash_arithmetic_stack_init = \<lparr>sk_entries = [], sk_capacity = 16\<rparr>"

text \<open>\<open>sizeof (struct ash_arithmetic_entry)\<close> is 40.\<close>

definition ash_arithmetic_push ::
  "(nat \<Rightarrow> bool) \<Rightarrow> ash_arithmetic_stack \<Rightarrow> ash_arithmetic_entry \<Rightarrow> ash_arithmetic_stack option" where
  "ash_arithmetic_push avail stack entry =
     (if of_nat (length (sk_entries stack)) = sk_capacity stack then
        let capacity = sk_capacity stack * 2 in
        if capacity < sk_capacity stack \<or> capacity > SIZE_MAX div 40 then None
        else if \<not> avail (unat capacity * 40) then None
        else Some (stack\<lparr>sk_entries := entry # sk_entries stack, sk_capacity := capacity\<rparr>)
      else Some (stack\<lparr>sk_entries := entry # sk_entries stack\<rparr>))"

definition ash_arithmetic_assignment :: "ash_arithmetic_operator \<Rightarrow> bool" where
  "ash_arithmetic_assignment operator \<longleftrightarrow>
     operator \<in> {Arith_Assign, Arith_Assign_Or, Arith_Assign_Xor, Arith_Assign_And, Arith_Assign_Shl, Arith_Assign_Shr,
       Arith_Assign_Add, Arith_Assign_Sub, Arith_Assign_Mul, Arith_Assign_Div, Arith_Assign_Mod}"

definition arith_unary :: "ash_arithmetic_operator \<Rightarrow> bool" where
  "arith_unary operator \<longleftrightarrow> operator \<in> {Arith_Pos, Arith_Neg, Arith_Not, Arith_Invert}"

definition arith_logical :: "ash_arithmetic_operator \<Rightarrow> bool" where
  "arith_logical operator \<longleftrightarrow> operator = Arith_Logical_Or \<or> operator = Arith_Logical_And"

fun ash_arithmetic_precedence :: "ash_arithmetic_operator \<Rightarrow> nat" where
  "ash_arithmetic_precedence Arith_Open = 0"
| "ash_arithmetic_precedence Arith_Assign = 1"
| "ash_arithmetic_precedence Arith_Assign_Or = 1"
| "ash_arithmetic_precedence Arith_Assign_Xor = 1"
| "ash_arithmetic_precedence Arith_Assign_And = 1"
| "ash_arithmetic_precedence Arith_Assign_Shl = 1"
| "ash_arithmetic_precedence Arith_Assign_Shr = 1"
| "ash_arithmetic_precedence Arith_Assign_Add = 1"
| "ash_arithmetic_precedence Arith_Assign_Sub = 1"
| "ash_arithmetic_precedence Arith_Assign_Mul = 1"
| "ash_arithmetic_precedence Arith_Assign_Div = 1"
| "ash_arithmetic_precedence Arith_Assign_Mod = 1"
| "ash_arithmetic_precedence Arith_Question = 2"
| "ash_arithmetic_precedence Arith_Conditional = 2"
| "ash_arithmetic_precedence Arith_Logical_Or = 3"
| "ash_arithmetic_precedence Arith_Logical_And = 4"
| "ash_arithmetic_precedence Arith_Or = 5"
| "ash_arithmetic_precedence Arith_Xor = 6"
| "ash_arithmetic_precedence Arith_And = 7"
| "ash_arithmetic_precedence Arith_Eq = 8"
| "ash_arithmetic_precedence Arith_Ne = 8"
| "ash_arithmetic_precedence Arith_Lt = 9"
| "ash_arithmetic_precedence Arith_Le = 9"
| "ash_arithmetic_precedence Arith_Gt = 9"
| "ash_arithmetic_precedence Arith_Ge = 9"
| "ash_arithmetic_precedence Arith_Shl = 10"
| "ash_arithmetic_precedence Arith_Shr = 10"
| "ash_arithmetic_precedence Arith_Add = 11"
| "ash_arithmetic_precedence Arith_Sub = 11"
| "ash_arithmetic_precedence Arith_Mul = 12"
| "ash_arithmetic_precedence Arith_Div = 12"
| "ash_arithmetic_precedence Arith_Mod = 12"
| "ash_arithmetic_precedence Arith_Pos = 13"
| "ash_arithmetic_precedence Arith_Neg = 13"
| "ash_arithmetic_precedence Arith_Not = 13"
| "ash_arithmetic_precedence Arith_Invert = 13"

section \<open>Constants and variables\<close>

definition ash_arithmetic_digit :: "char \<Rightarrow> nat option" where
  "ash_arithmetic_digit character =
     (if CHR ''0'' \<le> character \<and> character \<le> CHR ''9'' then Some (of_char character - of_char (CHR ''0''))
      else if CHR ''a'' \<le> character \<and> character \<le> CHR ''f'' then Some (of_char character - of_char (CHR ''a'') + 10)
      else if CHR ''A'' \<le> character \<and> character \<le> CHR ''F'' then Some (of_char character - of_char (CHR ''A'') + 10)
      else None)"

fun arith_digits :: "nat \<Rightarrow> u64 \<Rightarrow> bool \<Rightarrow> u64 \<Rightarrow> string \<Rightarrow> arith_message + (u64 \<times> string)" where
  "arith_digits base limit evaluate value1 [] = Inr (value1, [])"
| "arith_digits base limit evaluate value1 (c # cs) =
     (case ash_arithmetic_digit c of
        None \<Rightarrow> Inr (value1, c # cs)
      | Some digit \<Rightarrow>
          if digit \<ge> base then Inr (value1, c # cs)
          else if evaluate then
            if value1 > (limit - of_nat digit) div of_nat base then Inl Constant_Out_Of_Range
            else arith_digits base limit evaluate (value1 * of_nat base + of_nat digit) cs
          else arith_digits base limit evaluate value1 cs)"

text \<open>The suffixes: an unsigned mark, a length mark of one or two equal letters, an unsigned mark.\<close>

definition skip_unsigned :: "string \<Rightarrow> bool \<times> string" where
  "skip_unsigned cs = (case cs of c # rest \<Rightarrow> if c = CHR ''u'' \<or> c = CHR ''U'' then (True, rest) else (False, cs) | [] \<Rightarrow> (False, []))"

definition skip_long :: "string \<Rightarrow> string" where
  "skip_long cs =
     (case cs of
        [] \<Rightarrow> []
      | letter # rest \<Rightarrow>
          if letter = CHR ''l'' \<or> letter = CHR ''L'' then
            (case rest of [] \<Rightarrow> [] | d # rest1 \<Rightarrow> if d = letter then rest1 else rest)
          else cs)"

definition constant_suffix :: "string \<Rightarrow> string" where
  "constant_suffix cs =
     (let (unsigned_suffix, cs1) = skip_unsigned cs; cs2 = skip_long cs1 in
      if unsigned_suffix then cs2 else snd (skip_unsigned cs2))"

definition constant_prefix :: "string \<Rightarrow> nat \<times> string" where
  "constant_prefix expression =
     (case expression of
        c # x # rest \<Rightarrow>
          if c = CHR ''0'' \<and> (x = CHR ''x'' \<or> x = CHR ''X'') then (16, rest)
          else (if c = CHR ''0'' then 8 else 10, expression)
      | c # [] \<Rightarrow> (if c = CHR ''0'' then 8 else 10, expression)
      | [] \<Rightarrow> (10, []))"

definition ash_arithmetic_constant :: "string \<Rightarrow> u64 \<Rightarrow> bool \<Rightarrow> arith_message + (u64 \<times> string)" where
  "ash_arithmetic_constant expression limit evaluate =
     (let (base, start) = constant_prefix expression in
      case arith_digits base limit evaluate 0 start of
        Inl message \<Rightarrow> Inl message
      | Inr (value1, offset) \<Rightarrow>
          if length offset = length start then Inl Invalid_Constant
          else let rest = constant_suffix offset in
            (case rest of
               [] \<Rightarrow> Inr (value1, rest)
             | c # _ \<Rightarrow> if ash_is_name_char c then Inl Invalid_Constant else Inr (value1, rest)))"

definition ash_arithmetic_variable :: "ash_shell \<Rightarrow> string \<Rightarrow> arith_message + u64" where
  "ash_arithmetic_variable shell name =
     (case ash_var_get_len shell name of
        None \<Rightarrow> if sh_options shell AND OPTION_NOUNSET \<noteq> 0 then Inl Unbound_Variable else Inr 0
      | Some [] \<Rightarrow> Inr 0
      | Some (c # cs) \<Rightarrow>
          let negative = (c = CHR ''-''); input = (if negative \<or> c = CHR ''+'' then cs else c # cs) in
          if input = [] then Inl Invalid_Constant
          else (case ash_arithmetic_constant input (LONG_MAX + (if negative then 1 else 0)) True of
             Inl message \<Rightarrow> Inl message
           | Inr (magnitude, rest) \<Rightarrow>
               if rest \<noteq> [] then Inl Invalid_Constant
               else Inr (if negative then (if magnitude = LONG_MAX + 1 then LONG_MIN else - magnitude) else magnitude)))"

definition ash_arithmetic_resolve :: "ash_shell \<Rightarrow> ash_arithmetic_entry \<Rightarrow> ash_arithmetic_error + ash_arithmetic_entry" where
  "ash_arithmetic_resolve shell entry =
     (case en_name entry of
        None \<Rightarrow> Inr entry
      | Some name \<Rightarrow>
          if en_resolved entry then Inr entry
          else (case ash_arithmetic_variable shell name of
             Inl message \<Rightarrow> Inl \<lparr>er_message = message, er_name = Some name, er_reported = False\<rparr>
           | Inr value1 \<Rightarrow> Inr (entry\<lparr>en_value := value1, en_resolved := True\<rparr>)))"

section \<open>Reduction\<close>

definition long_fits :: "int \<Rightarrow> bool" where
  "long_fits i \<longleftrightarrow> - (2 ^ 63) \<le> i \<and> i < 2 ^ 63"

text \<open>\<open>__builtin_add_overflow\<close> and its relatives.\<close>

definition checked_long :: "int \<Rightarrow> arith_message + u64" where
  "checked_long i = (if long_fits i then Inr (word_of_int i) else Inl Integer_Overflow)"

definition truth :: "bool \<Rightarrow> u64" where
  "truth b = (if b then 1 else 0)"

text \<open>The operation behind a compound assignment.\<close>

fun compound_operation :: "ash_arithmetic_operator \<Rightarrow> ash_arithmetic_operator" where
  "compound_operation Arith_Assign_Or = Arith_Or"
| "compound_operation Arith_Assign_Xor = Arith_Xor"
| "compound_operation Arith_Assign_And = Arith_And"
| "compound_operation Arith_Assign_Shl = Arith_Shl"
| "compound_operation Arith_Assign_Shr = Arith_Shr"
| "compound_operation Arith_Assign_Add = Arith_Add"
| "compound_operation Arith_Assign_Sub = Arith_Sub"
| "compound_operation Arith_Assign_Mul = Arith_Mul"
| "compound_operation Arith_Assign_Div = Arith_Div"
| "compound_operation Arith_Assign_Mod = Arith_Mod"
| "compound_operation operator = operator"

definition arith_division :: "bool \<Rightarrow> u64 \<Rightarrow> u64 \<Rightarrow> arith_message + u64" where
  "arith_division dividing left right =
     (if right = 0 then Inl Division_By_Zero
      else if left = LONG_MIN \<and> sint right = - 1 then Inl Integer_Overflow
      else Inr (if dividing then word_of_int (sint left sdiv sint right) else word_of_int (sint left smod sint right)))"

definition arith_shift :: "bool \<Rightarrow> u64 \<Rightarrow> u64 \<Rightarrow> arith_message + u64" where
  "arith_shift to_left left right =
     (if sint right < 0 \<or> right \<ge> 64 then Inl Invalid_Shift_Count
      else if to_left then
        if sint left < 0 \<or> sint left > sint (signed_drop_bit (unat right) LONG_MAX) then Inl Invalid_Left_Shift
        else Inr (push_bit (unat right) left)
      else Inr (signed_drop_bit (unat right) left))"

text \<open>The switch; \<open>condition\<close> is the value kept with the operator of a conditional.\<close>

fun arith_operation :: "ash_arithmetic_operator \<Rightarrow> u64 \<Rightarrow> u64 \<Rightarrow> u64 \<Rightarrow> arith_message + u64" where
  "arith_operation Arith_Assign condition left right = Inr right"
| "arith_operation Arith_Conditional condition left right = Inr (if condition \<noteq> 0 then left else right)"
| "arith_operation Arith_Question condition left right = Inl Missing_Colon"
| "arith_operation Arith_Logical_Or condition left right = Inr (truth (left \<noteq> 0 \<or> right \<noteq> 0))"
| "arith_operation Arith_Logical_And condition left right = Inr (truth (left \<noteq> 0 \<and> right \<noteq> 0))"
| "arith_operation Arith_Add condition left right = checked_long (sint left + sint right)"
| "arith_operation Arith_Sub condition left right = checked_long (sint left - sint right)"
| "arith_operation Arith_Mul condition left right = checked_long (sint left * sint right)"
| "arith_operation Arith_Div condition left right = arith_division True left right"
| "arith_operation Arith_Mod condition left right = arith_division False left right"
| "arith_operation Arith_Shl condition left right = arith_shift True left right"
| "arith_operation Arith_Shr condition left right = arith_shift False left right"
| "arith_operation Arith_Or condition left right = Inr (left OR right)"
| "arith_operation Arith_Xor condition left right = Inr (left XOR right)"
| "arith_operation Arith_And condition left right = Inr (left AND right)"
| "arith_operation Arith_Eq condition left right = Inr (truth (left = right))"
| "arith_operation Arith_Ne condition left right = Inr (truth (left \<noteq> right))"
| "arith_operation Arith_Lt condition left right = Inr (truth (left <s right))"
| "arith_operation Arith_Le condition left right = Inr (truth (left \<le>s right))"
| "arith_operation Arith_Gt condition left right = Inr (truth (right <s left))"
| "arith_operation Arith_Ge condition left right = Inr (truth (right \<le>s left))"
| "arith_operation Arith_Pos condition left right = Inr right"
| "arith_operation Arith_Neg condition left right = (if right = LONG_MIN then Inl Integer_Overflow else Inr (- right))"
| "arith_operation Arith_Not condition left right = Inr (truth (right = 0))"
| "arith_operation Arith_Invert condition left right = Inr (NOT right)"
| "arith_operation Arith_Open condition left right = Inl Unmatched_Parenthesis"
| "arith_operation operator condition left right = Inl Unsupported_Operator"

text \<open>\<open>snprintf\<close> with \<open>%ld\<close>.\<close>

definition long_text :: "u64 \<Rightarrow> string" where
  "long_text value1 =
     (if sint value1 < 0 then CHR ''-'' # dec_of_nat (nat (- sint value1)) else dec_of_nat (nat (sint value1)))"

text \<open>What an operator that is not suppressed does with its operands: the value, and the assignment.\<close>

definition arith_effect ::
  "shell_os \<Rightarrow> ash_arithmetic_entry \<Rightarrow> ash_arithmetic_entry \<Rightarrow> ash_arithmetic_entry \<Rightarrow> ash_shell \<Rightarrow>
     (ash_arithmetic_error + u64) \<times> ash_shell" where
  "arith_effect os entry left_entry right_entry shell =
     (let operator = en_operator entry; assignment = ash_arithmetic_assignment operator;
          use_left = (operator \<noteq> Arith_Assign \<and> \<not> arith_unary operator \<and>
            (operator \<noteq> Arith_Conditional \<or> en_value entry \<noteq> 0));
          use_right = (if operator = Arith_Logical_Or then en_value left_entry = 0
            else if operator = Arith_Logical_And then en_value left_entry \<noteq> 0
            else operator \<noteq> Arith_Conditional \<or> en_value entry = 0) in
      case (if use_left then ash_arithmetic_resolve shell left_entry else Inr left_entry) of
        Inl e \<Rightarrow> (Inl e, shell)
      | Inr left1 \<Rightarrow>
          (case (if use_right then ash_arithmetic_resolve shell right_entry else Inr right_entry) of
             Inl e \<Rightarrow> (Inl e, shell)
           | Inr right1 \<Rightarrow>
               (case arith_operation (compound_operation operator) (en_value entry) (en_value left1) (en_value right1) of
                  Inl message \<Rightarrow> (Inl (failure message), shell)
                | Inr value1 \<Rightarrow>
                    if assignment then
                      (case ash_var_set_with_export os shell (the (en_name left_entry)) (Some (long_text value1)) False of
                         (ok, shell1) \<Rightarrow>
                           if \<not> ok
                           then (Inl \<lparr>er_message = Assignment_Failed, er_name = None, er_reported = True\<rparr>, shell1)
                           else (Inr value1, shell1))
                    else (Inr value1, shell))))"

text \<open>
  A reduction, on the entries of the two stacks: it takes an operator and its operands off, and puts
  the value on. The operator stack is given without that operator.
\<close>

definition ash_arithmetic_reduce ::
  "shell_os \<Rightarrow> ash_arithmetic_entry \<Rightarrow> ash_arithmetic_entry list \<Rightarrow> bool \<Rightarrow> ash_shell \<Rightarrow>
     (ash_arithmetic_error + (ash_arithmetic_entry list \<times> bool)) \<times> ash_shell" where
  "ash_arithmetic_reduce os entry values suppressed shell =
     (let operator = en_operator entry; unary = arith_unary operator in
      if operator = Arith_Open then (Inl (failure Unmatched_Parenthesis), shell)
      else if operator = Arith_Question then (Inl (failure Missing_Colon), shell)
      else if length values < (if operator = Arith_Conditional then 3 else if unary then 1 else 2)
        then (Inl (failure Missing_Operand), shell)
      else
        let right_entry = hd values;
            left_entry = (if unary then value_entry 0 else hd (tl values));
            values1 = (if unary then tl values else if operator = Arith_Conditional then drop 3 values else drop 2 values) in
        if ash_arithmetic_assignment operator \<and> en_name left_entry = None then (Inl (failure Invalid_Target), shell)
        else
          (case (if \<not> en_suppressed entry then arith_effect os entry left_entry right_entry shell else (Inr 0, shell)) of
             (Inl e, shell1) \<Rightarrow> (Inl e, shell1)
           | (Inr value1, shell1) \<Rightarrow>
               (Inr (value_entry value1 # values1,
                  if arith_logical operator \<or> operator = Arith_Conditional then en_suppressed entry else suppressed), shell1)))"

section \<open>The evaluator\<close>

record arith_state =
  as_operators :: ash_arithmetic_stack
  as_values :: ash_arithmetic_stack
  as_operand :: bool
  as_suppressed :: bool
  as_rest :: string
  as_shell :: ash_shell

type_synonym arith_outcome = "(ash_arithmetic_error \<times> ash_shell) + arith_state"

abbreviation fail_with :: "ash_arithmetic_error \<Rightarrow> ash_shell \<Rightarrow> arith_outcome" where
  "fail_with e shell \<equiv> Inl (e, shell)"

abbreviation with_entries :: "ash_arithmetic_stack \<Rightarrow> ash_arithmetic_entry list \<Rightarrow> ash_arithmetic_stack" where
  "with_entries stack entries \<equiv> stack\<lparr>sk_entries := entries\<rparr>"

text \<open>The loops that reduce while the operator on top satisfies a condition.\<close>

fun reduce_while ::
  "shell_os \<Rightarrow> (ash_arithmetic_operator \<Rightarrow> bool) \<Rightarrow> ash_arithmetic_entry list \<Rightarrow> ash_arithmetic_entry list \<Rightarrow> bool \<Rightarrow>
     ash_shell \<Rightarrow> (ash_arithmetic_error + (ash_arithmetic_entry list \<times> ash_arithmetic_entry list \<times> bool)) \<times> ash_shell" where
  "reduce_while os while1 [] values suppressed shell = (Inr ([], values, suppressed), shell)"
| "reduce_while os while1 (entry # operators) values suppressed shell =
     (if while1 (en_operator entry) then
        (case ash_arithmetic_reduce os entry values suppressed shell of
           (Inl e, shell1) \<Rightarrow> (Inl e, shell1)
         | (Inr (values1, suppressed1), shell1) \<Rightarrow> reduce_while os while1 operators values1 suppressed1 shell1)
      else (Inr (entry # operators, values, suppressed), shell))"

text \<open>A reducing loop on the state, and what follows it.\<close>

definition reducing ::
  "shell_os \<Rightarrow> (ash_arithmetic_operator \<Rightarrow> bool) \<Rightarrow> arith_state \<Rightarrow> (arith_state \<Rightarrow> arith_outcome) \<Rightarrow> arith_outcome" where
  "reducing os while1 st continue =
     (case reduce_while os while1 (sk_entries (as_operators st)) (sk_entries (as_values st)) (as_suppressed st) (as_shell st) of
        (Inl e, shell1) \<Rightarrow> fail_with e shell1
      | (Inr (operators, values, suppressed), shell1) \<Rightarrow>
          continue (st\<lparr>as_operators := with_entries (as_operators st) operators,
            as_values := with_entries (as_values st) values, as_suppressed := suppressed, as_shell := shell1\<rparr>))"

definition push_operator :: "shell_os \<Rightarrow> arith_state \<Rightarrow> ash_arithmetic_entry \<Rightarrow> (arith_state \<Rightarrow> arith_outcome) \<Rightarrow> arith_outcome" where
  "push_operator os st entry continue =
     (case ash_arithmetic_push (os_alloc os) (as_operators st) entry of
        None \<Rightarrow> fail_with (failure Out_Of_Memory) (as_shell st)
      | Some operators \<Rightarrow> continue (st\<lparr>as_operators := operators\<rparr>))"

definition push_value :: "shell_os \<Rightarrow> arith_state \<Rightarrow> ash_arithmetic_entry \<Rightarrow> arith_outcome" where
  "push_value os st entry =
     (case ash_arithmetic_push (os_alloc os) (as_values st) entry of
        None \<Rightarrow> fail_with (failure Out_Of_Memory) (as_shell st)
      | Some values \<Rightarrow> Inr (st\<lparr>as_values := values, as_operand := False\<rparr>))"

text \<open>The value on top, read in place.\<close>

definition resolve_top :: "arith_state \<Rightarrow> (arith_state \<Rightarrow> arith_outcome) \<Rightarrow> arith_outcome" where
  "resolve_top st continue =
     (if as_suppressed st then continue st
      else case ash_arithmetic_resolve (as_shell st) (hd (sk_entries (as_values st))) of
          Inl e \<Rightarrow> fail_with e (as_shell st)
        | Inr entry \<Rightarrow>
            continue (st\<lparr>as_values := with_entries (as_values st) (entry # tl (sk_entries (as_values st)))\<rparr>))"

definition prefix_operator :: "char \<Rightarrow> ash_arithmetic_operator option" where
  "prefix_operator c =
     (if c = CHR ''('' then Some Arith_Open else if c = CHR ''+'' then Some Arith_Pos
      else if c = CHR ''-'' then Some Arith_Neg else if c = CHR ''!'' then Some Arith_Not
      else if c = CHR ''~'' then Some Arith_Invert else None)"

definition top_is_neg :: "arith_state \<Rightarrow> bool" where
  "top_is_neg st = (case sk_entries (as_operators st) of [] \<Rightarrow> False | entry # _ \<Rightarrow> en_operator entry = Arith_Neg)"

definition step_operand :: "shell_os \<Rightarrow> arith_state \<Rightarrow> char \<Rightarrow> string \<Rightarrow> arith_outcome" where
  "step_operand os st c cs =
     (case prefix_operator c of
        Some operator \<Rightarrow>
          push_operator os st (operator_entry operator (as_suppressed st)) (\<lambda>st1. Inr (st1\<lparr>as_rest := cs\<rparr>))
      | None \<Rightarrow>
          if ash_is_name_start c then
            push_value os (st\<lparr>as_rest := dropWhile ash_is_name_char cs\<rparr>) (name_entry (c # takeWhile ash_is_name_char cs))
          else if CHR ''0'' \<le> c \<and> c \<le> CHR ''9'' then
            (case ash_arithmetic_constant (c # cs) (LONG_MAX + (if top_is_neg st then 1 else 0)) (\<not> as_suppressed st) of
               Inl message \<Rightarrow> fail_with (failure message) (as_shell st)
             | Inr (magnitude, rest) \<Rightarrow>
                 if magnitude > LONG_MAX then
                   push_value os (st\<lparr>as_rest := rest, as_operators :=
                     with_entries (as_operators st) (tl (sk_entries (as_operators st)))\<rparr>) (value_entry LONG_MIN)
                 else push_value os (st\<lparr>as_rest := rest\<rparr>) (value_entry magnitude))
          else fail_with (failure Invalid_Operand) (as_shell st))"

definition step_close :: "shell_os \<Rightarrow> arith_state \<Rightarrow> string \<Rightarrow> arith_outcome" where
  "step_close os st cs =
     reducing os (\<lambda>operator. operator \<noteq> Arith_Open) st (\<lambda>st1.
       case sk_entries (as_operators st1) of
         [] \<Rightarrow> fail_with (failure Unmatched_Parenthesis) (as_shell st1)
       | _ # operators \<Rightarrow>
           Inr (st1\<lparr>as_operators := with_entries (as_operators st1) operators, as_rest := cs\<rparr>))"

definition step_colon :: "shell_os \<Rightarrow> arith_state \<Rightarrow> string \<Rightarrow> arith_outcome" where
  "step_colon os st cs =
     reducing os (\<lambda>operator. operator \<noteq> Arith_Question \<and> operator \<noteq> Arith_Open) st (\<lambda>st1.
       case sk_entries (as_operators st1) of
         [] \<Rightarrow> fail_with (failure Unmatched_Colon) (as_shell st1)
       | question # operators \<Rightarrow>
           if en_operator question \<noteq> Arith_Question then fail_with (failure Unmatched_Colon) (as_shell st1)
           else Inr (st1\<lparr>as_operators := with_entries (as_operators st1)
                    (question\<lparr>en_operator := Arith_Conditional\<rparr> # operators),
                  as_suppressed := en_suppressed question \<or> en_value question \<noteq> 0,
                  as_operand := True, as_rest := cs\<rparr>))"

definition step_question :: "shell_os \<Rightarrow> arith_state \<Rightarrow> string \<Rightarrow> arith_outcome" where
  "step_question os st cs =
     reducing os (\<lambda>operator. ash_arithmetic_precedence operator > ash_arithmetic_precedence Arith_Question) st (\<lambda>st1.
       resolve_top st1 (\<lambda>st2.
         let condition = en_value (hd (sk_entries (as_values st2))) in
         push_operator os st2 ((operator_entry Arith_Question (as_suppressed st2))\<lparr>en_value := condition\<rparr>) (\<lambda>st3.
           Inr (st3\<lparr>as_suppressed := as_suppressed st3 \<or> condition = 0, as_operand := True, as_rest := cs\<rparr>))))"

definition arith_spellings :: "(string \<times> ash_arithmetic_operator) list" where
  "arith_spellings =
    [(''<<='', Arith_Assign_Shl), (''>>='', Arith_Assign_Shr), (''+='', Arith_Assign_Add), (''-='', Arith_Assign_Sub),
     (''*='', Arith_Assign_Mul), (''/='', Arith_Assign_Div), (''%='', Arith_Assign_Mod), (''&='', Arith_Assign_And),
     (''^='', Arith_Assign_Xor), (''|='', Arith_Assign_Or), (''||'', Arith_Logical_Or), (''&&'', Arith_Logical_And),
     (''=='', Arith_Eq), (''!='', Arith_Ne), (''<='', Arith_Le), (''>='', Arith_Ge), (''<<'', Arith_Shl), (''>>'', Arith_Shr),
     (''|'', Arith_Or), (''^'', Arith_Xor), (''&'', Arith_And), (''<'', Arith_Lt), (''>'', Arith_Gt), (''+'', Arith_Add),
     (''-'', Arith_Sub), (''*'', Arith_Mul), (''/'', Arith_Div), (''%'', Arith_Mod), (''='', Arith_Assign)]"

definition ash_arithmetic_binary :: "string \<Rightarrow> (ash_arithmetic_operator \<times> string) option" where
  "ash_arithmetic_binary rest =
     (case find (\<lambda>(spelling, operator). take (length spelling) rest = spelling) arith_spellings of
        None \<Rightarrow> None
      | Some (spelling, operator) \<Rightarrow> Some (operator, drop (length spelling) rest))"

definition reduced_before :: "ash_arithmetic_operator \<Rightarrow> ash_arithmetic_operator \<Rightarrow> bool" where
  "reduced_before operator top1 \<longleftrightarrow>
     top1 \<noteq> Arith_Question \<and>
     (ash_arithmetic_precedence top1 > ash_arithmetic_precedence operator \<or>
      (\<not> ash_arithmetic_assignment operator \<and> ash_arithmetic_precedence top1 = ash_arithmetic_precedence operator))"

definition step_binary :: "shell_os \<Rightarrow> arith_state \<Rightarrow> arith_outcome" where
  "step_binary os st =
     (case ash_arithmetic_binary (as_rest st) of
        None \<Rightarrow> fail_with (failure Unsupported_Operator) (as_shell st)
      | Some (operator, rest) \<Rightarrow>
          reducing os (reduced_before operator) st (\<lambda>st1.
            (if arith_logical operator then resolve_top st1 else (\<lambda>continue. continue st1)) (\<lambda>st2.
              push_operator os st2 (operator_entry operator (as_suppressed st2)) (\<lambda>st3.
                let left = en_value (hd (sk_entries (as_values st3))) in
                Inr (st3\<lparr>as_suppressed :=
                    (if arith_logical operator
                     then as_suppressed st3 \<or> (if operator = Arith_Logical_Or then left \<noteq> 0 else left = 0)
                     else as_suppressed st3),
                  as_operand := True, as_rest := rest\<rparr>)))))"

definition arith_space :: "char \<Rightarrow> bool" where
  "arith_space c \<longleftrightarrow> c \<in> {CHR '' '', CHR 0x09, CHR 0x0A, CHR 0x0D, CHR 0x0B, CHR 0x0C}"

text \<open>One round of the loop, on a text that is not empty.\<close>

definition arith_step :: "shell_os \<Rightarrow> arith_state \<Rightarrow> arith_outcome" where
  "arith_step os st =
     (case as_rest st of
        [] \<Rightarrow> Inr st
      | c # cs \<Rightarrow>
          if arith_space c then Inr (st\<lparr>as_rest := cs\<rparr>)
          else if (c = CHR ''+'' \<or> c = CHR ''-'') \<and> (case cs of [] \<Rightarrow> False | d # _ \<Rightarrow> d = c)
            then fail_with (failure Unsupported_Operator) (as_shell st)
          else if as_operand st then step_operand os st c cs
          else if c = CHR '')'' then step_close os st cs
          else if c = CHR '':'' then step_colon os st cs
          else if c = CHR ''?'' then step_question os st cs
          else step_binary os st)"

text \<open>Every round that goes on reads at least one character, so the loop ends.\<close>

lemma reducing_cases:
  assumes "reducing os while1 st continue = Inr st2"
  obtains operators vals suppressed shell where
    "continue (st\<lparr>as_operators := with_entries (as_operators st) operators,
       as_values := with_entries (as_values st) vals, as_suppressed := suppressed, as_shell := shell\<rparr>) = Inr st2"
  using assms unfolding reducing_def by (auto split: prod.splits sum.splits)

lemma push_operator_cases:
  assumes "push_operator os st entry continue = Inr st2"
  obtains operators where "continue (st\<lparr>as_operators := operators\<rparr>) = Inr st2"
  using assms unfolding push_operator_def by (auto split: option.splits)

lemma push_value_rest: "push_value os st entry = Inr st2 \<Longrightarrow> as_rest st2 = as_rest st"
  unfolding push_value_def by (auto split: option.splits)

lemma resolve_top_cases:
  assumes "resolve_top st continue = Inr st2"
  obtains vals where "continue (st\<lparr>as_values := vals\<rparr>) = Inr st2" | "continue st = Inr st2"
  using assms unfolding resolve_top_def by (auto split: if_splits sum.splits)

lemma skip_shorter:
  "length (snd (skip_unsigned cs)) \<le> length cs" "length (skip_long cs) \<le> length cs"
  "length (constant_suffix cs) \<le> length cs"
proof -
  show u: "length (snd (skip_unsigned cs)) \<le> length cs" for cs
    unfolding skip_unsigned_def by (auto split: list.splits)
  show l: "length (skip_long cs) \<le> length cs" for cs
    unfolding skip_long_def by (auto split: list.splits)
  have "length (skip_long (snd (skip_unsigned cs))) \<le> length cs"
    using l [of "snd (skip_unsigned cs)"] u [of cs] by linarith
  moreover have "length (snd (skip_unsigned (skip_long (snd (skip_unsigned cs))))) \<le> length (skip_long (snd (skip_unsigned cs)))"
    by (rule u)
  ultimately show "length (constant_suffix cs) \<le> length cs"
    unfolding constant_suffix_def Let_def by (auto split: prod.splits)
qed

lemma arith_digits_shorter: "arith_digits base limit evaluate v cs = Inr (v1, rest) \<Longrightarrow> length rest \<le> length cs"
  by (induction base limit evaluate v cs rule: arith_digits.induct) (auto split: option.splits if_splits)

lemma constant_shorter:
  assumes "ash_arithmetic_constant text1 limit evaluate = Inr (v, rest)"
  shows "length rest < length text1"
proof -
  obtain base start where prefix: "constant_prefix text1 = (base, start)" by force
  then have start: "length start \<le> length text1"
    unfolding constant_prefix_def by (auto split: list.splits if_splits)
  from assms prefix obtain w offset where digits: "arith_digits base limit evaluate 0 start = Inr (w, offset)"
    and "length offset \<noteq> length start" and rest: "rest = constant_suffix offset"
    unfolding ash_arithmetic_constant_def Let_def by (auto split: sum.splits prod.splits if_splits list.splits)
  then have "length offset < length start" using arith_digits_shorter [OF digits] by simp
  then show ?thesis using start rest skip_shorter(3) [of offset] by simp
qed

lemma binary_shorter:
  assumes "ash_arithmetic_binary text1 = Some (operator, rest)"
  shows "length rest < length text1"
proof -
  from assms obtain spelling where "find (\<lambda>(spelling, operator). take (length spelling) text1 = spelling) arith_spellings =
      Some (spelling, operator)" and rest: "rest = drop (length spelling) text1"
    unfolding ash_arithmetic_binary_def by (auto split: option.splits)
  then have found: "(spelling, operator) \<in> set arith_spellings" and here: "take (length spelling) text1 = spelling"
    by (auto simp: find_Some_iff in_set_conv_nth)
  from found have "spelling \<noteq> []" unfolding arith_spellings_def by auto
  moreover have "length spelling \<le> length text1" using arg_cong [OF here, of length] by simp
  ultimately show ?thesis using rest by (cases spelling) auto
qed

lemma step_operand_shorter:
  assumes "step_operand os st c cs = Inr st2"
  shows "length (as_rest st2) \<le> length cs"
proof (cases "prefix_operator c")
  case (Some operator)
  then show ?thesis using assms unfolding step_operand_def by (auto elim: push_operator_cases)
next
  case None
  show ?thesis
  proof (cases "ash_is_name_start c")
    case True
    then show ?thesis using assms None length_dropWhile_le [of ash_is_name_char cs]
      unfolding step_operand_def by (auto dest: push_value_rest)
  next
    case False
    then obtain magnitude rest where "ash_arithmetic_constant (c # cs)
        (LONG_MAX + (if top_is_neg st then 1 else 0)) (\<not> as_suppressed st) = Inr (magnitude, rest)"
      and "as_rest st2 = rest"
      using assms None unfolding step_operand_def by (auto dest!: push_value_rest split: if_splits sum.splits)
    then show ?thesis using constant_shorter by fastforce
  qed
qed

lemma arith_step_shorter:
  assumes "arith_step os st = Inr st2" and "as_rest st \<noteq> []"
  shows "length (as_rest st2) < length (as_rest st)"
proof -
  from assms(2) obtain c cs where rest: "as_rest st = c # cs" by (cases "as_rest st") auto
  have close: "length (as_rest st2) \<le> length cs" if "step_close os st cs = Inr st2"
    using that unfolding step_close_def by (auto elim!: reducing_cases split: list.splits)
  have colon: "length (as_rest st2) \<le> length cs" if "step_colon os st cs = Inr st2"
    using that unfolding step_colon_def by (auto elim!: reducing_cases split: list.splits if_splits)
  have question: "length (as_rest st2) \<le> length cs" if "step_question os st cs = Inr st2"
    using that unfolding step_question_def Let_def
    by (auto elim!: reducing_cases resolve_top_cases push_operator_cases)
  have binary: "length (as_rest st2) < length (as_rest st)" if "step_binary os st = Inr st2"
  proof -
    from that obtain operator rest where "ash_arithmetic_binary (as_rest st) = Some (operator, rest)"
      and "as_rest st2 = rest"
      unfolding step_binary_def Let_def
      by (auto elim!: reducing_cases resolve_top_cases push_operator_cases split: option.splits if_splits)
    then show ?thesis using binary_shorter by blast
  qed
  have "arith_step os st = Inr (st\<lparr>as_rest := cs\<rparr>) \<or> arith_step os st = fail_with (failure Unsupported_Operator) (as_shell st)
      \<or> arith_step os st = step_operand os st c cs \<or> arith_step os st = step_close os st cs
      \<or> arith_step os st = step_colon os st cs \<or> arith_step os st = step_question os st cs
      \<or> arith_step os st = step_binary os st"
    unfolding arith_step_def rest by simp
  then show ?thesis
    using assms(1) close colon question binary step_operand_shorter [of os st c cs st2] rest by (auto simp: less_Suc_eq_le)
qed

function arith_loop :: "shell_os \<Rightarrow> arith_state \<Rightarrow> arith_outcome" where
  "arith_loop os st =
     (if as_rest st = [] then Inr st
      else case arith_step os st of Inl failed \<Rightarrow> Inl failed | Inr st1 \<Rightarrow> arith_loop os st1)"
  by pat_completeness auto
termination
  by (relation "measure (\<lambda>(os, st). length (as_rest st))") (auto intro: arith_step_shorter)

declare arith_loop.simps [simp del]

definition arith_start :: "string \<Rightarrow> ash_shell \<Rightarrow> arith_state" where
  "arith_start expression shell =
     \<lparr>as_operators = ash_arithmetic_stack_init, as_values = ash_arithmetic_stack_init, as_operand = True,
      as_suppressed = False, as_rest = expression, as_shell = shell\<rparr>"

text \<open>What is done at the end of the text.\<close>

definition arith_finish :: "shell_os \<Rightarrow> arith_state \<Rightarrow> (ash_arithmetic_error + u64) \<times> ash_shell" where
  "arith_finish os st =
     (if as_operand st then (Inl (failure Missing_Operand), as_shell st)
      else case reduce_while os (\<lambda>_. True) (sk_entries (as_operators st)) (sk_entries (as_values st)) (as_suppressed st) (as_shell st) of
          (Inl e, shell1) \<Rightarrow> (Inl e, shell1)
        | (Inr (_, values, _), shell1) \<Rightarrow>
            if length values \<noteq> 1 then (Inl (failure Invalid_Expression), shell1)
            else case ash_arithmetic_resolve shell1 (hd values) of
                Inl e \<Rightarrow> (Inl e, shell1)
              | Inr entry \<Rightarrow> (Inr (en_value entry), shell1))"

definition ash_arithmetic_evaluate :: "shell_os \<Rightarrow> ash_shell \<Rightarrow> string \<Rightarrow> (ash_arithmetic_error + u64) \<times> ash_shell" where
  "ash_arithmetic_evaluate os shell expression =
     (case arith_loop os (arith_start expression shell) of
        Inl (e, shell1) \<Rightarrow> (Inl e, shell1)
      | Inr st \<Rightarrow> arith_finish os st)"

section \<open>The operators compute on integers\<close>

text \<open>
  What the operators mean, on integers: the operands of a logical operator and of a comparison give 0
  or 1, division truncates, a shift to the left multiplies, a shift to the right rounds down.
\<close>

fun int_operation :: "ash_arithmetic_operator \<Rightarrow> int \<Rightarrow> int \<Rightarrow> arith_message + int" where
  "int_operation Arith_Add a b = Inr (a + b)"
| "int_operation Arith_Sub a b = Inr (a - b)"
| "int_operation Arith_Mul a b = Inr (a * b)"
| "int_operation Arith_Div a b = (if b = 0 then Inl Division_By_Zero else Inr (a sdiv b))"
| "int_operation Arith_Mod a b =
     (if b = 0 then Inl Division_By_Zero else if a sdiv b = 2 ^ 63 then Inl Integer_Overflow else Inr (a smod b))"
| "int_operation Arith_Shl a b =
     (if b < 0 \<or> 64 \<le> b then Inl Invalid_Shift_Count
      else if a < 0 \<or> \<not> long_fits (a * 2 ^ nat b) then Inl Invalid_Left_Shift else Inr (a * 2 ^ nat b))"
| "int_operation Arith_Shr a b = (if b < 0 \<or> 64 \<le> b then Inl Invalid_Shift_Count else Inr (a div 2 ^ nat b))"
| "int_operation Arith_Or a b = Inr (a OR b)"
| "int_operation Arith_Xor a b = Inr (a XOR b)"
| "int_operation Arith_And a b = Inr (a AND b)"
| "int_operation Arith_Logical_Or a b = Inr (of_bool (a \<noteq> 0 \<or> b \<noteq> 0))"
| "int_operation Arith_Logical_And a b = Inr (of_bool (a \<noteq> 0 \<and> b \<noteq> 0))"
| "int_operation Arith_Eq a b = Inr (of_bool (a = b))"
| "int_operation Arith_Ne a b = Inr (of_bool (a \<noteq> b))"
| "int_operation Arith_Lt a b = Inr (of_bool (a < b))"
| "int_operation Arith_Le a b = Inr (of_bool (a \<le> b))"
| "int_operation Arith_Gt a b = Inr (of_bool (a > b))"
| "int_operation Arith_Ge a b = Inr (of_bool (a \<ge> b))"
| "int_operation Arith_Pos a b = Inr b"
| "int_operation Arith_Neg a b = Inr (- b)"
| "int_operation Arith_Not a b = Inr (of_bool (b = 0))"
| "int_operation Arith_Invert a b = Inr (- b - 1)"
| "int_operation Arith_Assign a b = Inr b"
| "int_operation Arith_Open a b = Inl Unmatched_Parenthesis"
| "int_operation Arith_Question a b = Inl Missing_Colon"
| "int_operation operator a b = Inl Unsupported_Operator"

lemma sint_fits: "long_fits (sint (w :: u64))"
  using sint_range_size [of w] by (simp add: long_fits_def word_size)

lemma sint_word_of_int: "long_fits i \<Longrightarrow> sint (word_of_int i :: u64) = i"
  unfolding long_fits_def sint_sbintrunc' by (rule signed_take_bit_int_eq_self) simp_all

lemma sint_0_iff [simp]: "sint (w :: u64) = 0 \<longleftrightarrow> w = 0"
  by (metis signed_0 signed_word_eqI)

lemma sint_truth [simp]: "sint (truth b) = of_bool b"
  by (simp add: truth_def)

lemma sint_LONG_MIN [simp]: "sint LONG_MIN = - (2 ^ 63)"
  by simp

lemma sint_LONG_MAX [simp]: "sint LONG_MAX = 2 ^ 63 - 1"
  by simp

lemma checked_long_exact:
  "checked_long i = Inr v \<longleftrightarrow> long_fits i \<and> sint v = i"
  "checked_long i = Inl m \<longleftrightarrow> \<not> long_fits i \<and> m = Integer_Overflow"
  unfolding checked_long_def using sint_word_of_int [of i] sint_fits [of v]
  by (auto simp: signed_word_eqI)

lemma sdiv_fits:
  assumes "long_fits a" and "long_fits b" and "b \<noteq> 0" and "\<not> (a = - (2 ^ 63) \<and> b = - 1)"
  shows "long_fits (a sdiv b)"
proof -
  have eq: "a sdiv b = sgn a * sgn b * (\<bar>a\<bar> div \<bar>b\<bar>)" by (simp add: signed_divide_int_def sgn_mult)
  have nonneg: "0 \<le> \<bar>a\<bar> div \<bar>b\<bar>"
    using assms(3) by (simp add: pos_imp_zdiv_nonneg_iff)
  have half: "\<bar>a\<bar> div \<bar>b\<bar> \<le> \<bar>a\<bar> div 2" if "\<bar>b\<bar> \<noteq> 1"
    using that assms(3) by (intro zdiv_mono2) auto
  show ?thesis
  proof (cases "\<bar>b\<bar> = 1")
    case True
    then show ?thesis using assms eq by (auto simp: long_fits_def abs_if sgn_if split: if_splits)
  next
    case False
    then have "\<bar>a sdiv b\<bar> \<le> \<bar>a\<bar> div 2"
      using half nonneg unfolding eq by (auto simp: sgn_if)
    then show ?thesis using assms(1) by (auto simp: long_fits_def abs_if split: if_splits)
  qed
qed

lemma sdiv_overflow:
  assumes "long_fits a" and "long_fits b" and "b \<noteq> 0"
  shows "a sdiv b = 2 ^ 63 \<longleftrightarrow> a = - (2 ^ 63) \<and> b = - 1"
proof
  assume "a sdiv b = 2 ^ 63"
  then show "a = - (2 ^ 63) \<and> b = - 1" using sdiv_fits [OF assms] by (auto simp: long_fits_def)
qed (simp add: signed_divide_int_def)

lemma smod_fits: "long_fits a \<Longrightarrow> long_fits b \<Longrightarrow> b \<noteq> 0 \<Longrightarrow> long_fits (a smod b)"
  using smod_int_range [of b a] by (auto simp: long_fits_def abs_if split: if_splits)


lemma arith_division_exact:
  "(case int_operation (if dividing then Arith_Div else Arith_Mod) (sint l) (sint r) of
      Inl m \<Rightarrow> arith_division dividing l r = Inl m
    | Inr i \<Rightarrow> if long_fits i then \<exists>v. arith_division dividing l r = Inr v \<and> sint v = i
        else arith_division dividing l r = Inl Integer_Overflow)"
proof (cases "r = 0 \<or> l = LONG_MIN \<and> sint r = - 1")
  case True
  then show ?thesis
    by (auto simp: arith_division_def long_fits_def signed_divide_int_def)
next
  case False
  then have r: "sint r \<noteq> 0" and ok: "\<not> (sint l = - (2 ^ 63) \<and> sint r = - 1)"
    by (auto simp: signed_word_eqI)
  have fits: "long_fits (sint l sdiv sint r)" "long_fits (sint l smod sint r)"
    using sdiv_fits [OF sint_fits sint_fits r ok] smod_fits [OF sint_fits sint_fits r] by simp_all
  moreover have "sint l sdiv sint r \<noteq> 2 ^ 63"
    using sdiv_overflow [OF sint_fits sint_fits r] ok by simp
  ultimately show ?thesis
    using False r sint_word_of_int by (auto simp: arith_division_def)
qed

lemma shift_left_fits:
  assumes "0 \<le> a" and "n < 64"
  shows "long_fits (a * 2 ^ n) \<longleftrightarrow> a \<le> (2 ^ 63 - 1) div 2 ^ n"
proof -
  have "long_fits (a * 2 ^ n) \<longleftrightarrow> a * 2 ^ n \<le> 2 ^ 63 - 1"
    using assms(1) order_trans [of "- (2 ^ 63)" 0 "a * 2 ^ n"] by (auto simp: long_fits_def)
  also have "\<dots> \<longleftrightarrow> a \<le> (2 ^ 63 - 1) div 2 ^ n"
  proof
    assume "a * 2 ^ n \<le> 2 ^ 63 - 1"
    then have "a * 2 ^ n div 2 ^ n \<le> (2 ^ 63 - 1) div 2 ^ n" by (rule zdiv_mono1) simp
    then show "a \<le> (2 ^ 63 - 1) div 2 ^ n" by simp
  next
    assume "a \<le> (2 ^ 63 - 1) div 2 ^ n"
    then have "a * 2 ^ n \<le> (2 ^ 63 - 1) div 2 ^ n * 2 ^ n" by (rule mult_right_mono) simp
    also have "\<dots> = (2 ^ 63 - 1) - (2 ^ 63 - 1) mod 2 ^ n" by (simp only: minus_mod_eq_div_mult)
    also have "\<dots> \<le> 2 ^ 63 - 1" using pos_mod_sign [of "2 ^ n" "2 ^ 63 - 1 :: int"] by (simp del: diff_numeral_special)
    finally show "a * 2 ^ n \<le> 2 ^ 63 - 1" .
  qed
  finally show ?thesis .
qed


lemma word_count_range:
  "\<not> (sint (r :: u64) < 0 \<or> r \<ge> 64) \<longleftrightarrow> 0 \<le> sint r \<and> sint r < 64"
  "0 \<le> sint (r :: u64) \<Longrightarrow> nat (sint r) = unat r"
proof -
  have same: "sint r = uint r" if "0 \<le> sint r" for r :: u64
  proof -
    have "take_bit 64 (sint r) = sint r"
      using that sint_fits [of r] by (intro take_bit_int_eq_self) (simp_all add: long_fits_def)
    then show ?thesis by (simp add: uint_sint)
  qed
  then show "0 \<le> sint r \<Longrightarrow> nat (sint r) = unat r" by (simp add: unat_eq_nat_uint)
  show "\<not> (sint r < 0 \<or> r \<ge> 64) \<longleftrightarrow> 0 \<le> sint r \<and> sint r < 64"
    using same [of r] by (auto simp: word_le_def)
qed

lemma arith_shift_exact:
  "(case int_operation (if to_left then Arith_Shl else Arith_Shr) (sint l) (sint r) of
      Inl m \<Rightarrow> arith_shift to_left l r = Inl m
    | Inr i \<Rightarrow> if long_fits i then \<exists>v. arith_shift to_left l r = Inr v \<and> sint v = i
        else arith_shift to_left l r = Inl Integer_Overflow)"
proof (cases "0 \<le> sint r \<and> sint r < 64")
  case False
  then show ?thesis using word_count_range(1) [of r] by (auto simp: arith_shift_def)
next
  case True
  define n where "n = unat r"
  have n: "nat (sint r) = n" "n < 64" using True word_count_range(2) [of r] unfolding n_def by linarith+
  have range: "\<not> (sint r < 0 \<or> r \<ge> 64)" using True word_count_range(1) by blast
  have right: "sint (signed_drop_bit n w) = sint w div 2 ^ n" for w :: u64
    by (simp add: sint_signed_drop_bit_eq drop_bit_eq_div)
  show ?thesis
  proof (cases to_left)
    case False
    have "long_fits (sint l div 2 ^ n)"
      using sint_fits [of "signed_drop_bit n l"] by (simp only: right)
    then show ?thesis using False True range n right [of l] by (auto simp: arith_shift_def n_def)
  next
    case to_left: True
    have max: "sint (signed_drop_bit n LONG_MAX) = (2 ^ 63 - 1) div 2 ^ n" by (simp only: right sint_LONG_MAX)
    show ?thesis
    proof (cases "sint l < 0 \<or> \<not> long_fits (sint l * 2 ^ n)")
      case True
      then show ?thesis
        using to_left range n max shift_left_fits [of "sint l" n]
        by (auto simp: arith_shift_def n_def [symmetric] not_less simp del: sint_LONG_MAX)
    next
      case False
      then have ok: "0 \<le> sint l" "long_fits (sint l * 2 ^ n)" by simp_all
      have "push_bit n l = word_of_int (sint l * 2 ^ n)"
        by (simp add: push_bit_eq_mult)
      then have value1: "sint (push_bit n l) = sint l * 2 ^ n" using sint_word_of_int [OF ok(2)] by simp
      have small: "\<not> sint (signed_drop_bit (unat r) LONG_MAX) < sint l" and nonneg: "\<not> sint l < 0"
        using shift_left_fits [OF ok(1) n(2)] ok max by (simp_all only: n_def not_less)
      have "arith_shift to_left l r = Inr (push_bit n l)"
        unfolding arith_shift_def n_def by (simp only: small nonneg range to_left simp_thms if_False if_True)
      moreover have "int_operation Arith_Shl (sint l) (sint r) = Inr (sint l * 2 ^ n)"
        using True ok n(1) by simp
      ultimately show ?thesis using to_left ok(2) value1 by simp
    qed
  qed
qed


lemma LONG_MIN_iff: "sint (w :: u64) = - (2 ^ 63) \<longleftrightarrow> w = LONG_MIN"
  by (metis sint_LONG_MIN signed_word_eqI)

definition arith_computes :: "ash_arithmetic_operator \<Rightarrow> u64 \<Rightarrow> u64 \<Rightarrow> arith_message + u64 \<Rightarrow> bool" where
  "arith_computes operator l r result =
     (case int_operation operator (sint l) (sint r) of
        Inl m \<Rightarrow> result = Inl m
      | Inr i \<Rightarrow> if long_fits i then (case result of Inl _ \<Rightarrow> False | Inr v \<Rightarrow> sint v = i)
          else result = Inl Integer_Overflow)"

lemma arith_neg_exact:
  "arith_computes Arith_Neg l r (arith_operation Arith_Neg condition l r)"
proof (cases "r = LONG_MIN")
  case True
  then show ?thesis by (simp add: arith_computes_def long_fits_def)
next
  case False
  then have fits: "long_fits (- sint r)"
    using sint_fits [of r] LONG_MIN_iff [of r] by (auto simp: long_fits_def)
  have "- r = word_of_int (- sint r)" by simp
  then have "sint (- r) = - sint r" using sint_word_of_int [OF fits] by simp
  then show ?thesis using False fits by (simp add: arith_computes_def)
qed

lemma sint_bitwise:
  "sint (l OR r) = sint l OR sint r" "sint (l XOR r) = sint l XOR sint r" "sint (l AND r) = sint l AND sint r"
  for l r :: u64
  by (simp_all add: signed_or_eq signed_xor_eq signed_and_eq)

lemma sint_not: "sint (NOT r) = - sint r - 1" for r :: u64
proof -
  have fits: "long_fits (- sint r - 1)" using sint_fits [of r] by (auto simp: long_fits_def)
  have "NOT r = word_of_int (- sint r - 1)" by (simp add: not_eq_complement)
  then show ?thesis using sint_word_of_int [OF fits] by simp
qed

lemma truth_fits [simp]: "long_fits (of_bool b)"
  by (simp add: long_fits_def)

lemma arith_computes_checked:
  assumes "int_operation operator (sint l) (sint r) = Inr i"
  shows "arith_computes operator l r (checked_long i)"
  unfolding arith_computes_def checked_long_def assms using sint_word_of_int [of i]
  by (simp split: sum.splits)

lemma arith_checked_exact:
  "arith_computes Arith_Add l r (checked_long (sint l + sint r))"
  "arith_computes Arith_Sub l r (checked_long (sint l - sint r))"
  "arith_computes Arith_Mul l r (checked_long (sint l * sint r))"
  by (rule arith_computes_checked, simp)+

lemma arith_bitwise_exact:
  "arith_computes Arith_Or l r (Inr (l OR r))" "arith_computes Arith_Xor l r (Inr (l XOR r))"
  "arith_computes Arith_And l r (Inr (l AND r))" "arith_computes Arith_Invert l r (Inr (NOT r))"
  using sint_fits [of "l OR r"] sint_fits [of "l XOR r"] sint_fits [of "l AND r"] sint_fits [of "NOT r"]
  by (simp_all add: arith_computes_def sint_bitwise sint_not)

lemma arith_truth_exact:
  "arith_computes Arith_Logical_Or l r (Inr (truth (l \<noteq> 0 \<or> r \<noteq> 0)))"
  "arith_computes Arith_Logical_And l r (Inr (truth (l \<noteq> 0 \<and> r \<noteq> 0)))"
  "arith_computes Arith_Eq l r (Inr (truth (l = r)))" "arith_computes Arith_Ne l r (Inr (truth (l \<noteq> r)))"
  "arith_computes Arith_Lt l r (Inr (truth (l <s r)))" "arith_computes Arith_Le l r (Inr (truth (l \<le>s r)))"
  "arith_computes Arith_Gt l r (Inr (truth (r <s l)))" "arith_computes Arith_Ge l r (Inr (truth (r \<le>s l)))"
  "arith_computes Arith_Not l r (Inr (truth (r = 0)))"
  by (simp_all add: arith_computes_def word_sless_alt word_sle_eq signed_word_eqI [symmetric] del: of_bool_eq_iff)
    (metis signed_word_eqI)+

lemma arith_division_computes:
  "arith_computes Arith_Div l r (arith_division True l r)" "arith_computes Arith_Mod l r (arith_division False l r)"
  using arith_division_exact [of True l r] arith_division_exact [of False l r]
  unfolding arith_computes_def by (auto split: sum.splits if_splits)

lemma arith_shift_computes:
  "arith_computes Arith_Shl l r (arith_shift True l r)" "arith_computes Arith_Shr l r (arith_shift False l r)"
  using arith_shift_exact [of True l r] arith_shift_exact [of False l r]
  unfolding arith_computes_def by (auto split: sum.splits if_splits)

lemma arith_kept_exact:
  "arith_computes Arith_Pos l r (Inr r)" "arith_computes Arith_Assign l r (Inr r)"
  by (simp_all add: arith_computes_def sint_fits)




section \<open>Constants\<close>

text \<open>The value of digits in a base, and the texts that stop a number.\<close>

definition based_value :: "nat \<Rightarrow> nat \<Rightarrow> string \<Rightarrow> nat" where
  "based_value base start digits = foldl (\<lambda>v c. v * base + the (ash_arithmetic_digit c)) start digits"

definition digit_below :: "nat \<Rightarrow> char \<Rightarrow> bool" where
  "digit_below base c \<longleftrightarrow> (case ash_arithmetic_digit c of None \<Rightarrow> False | Some d \<Rightarrow> d < base)"

definition stops_digits :: "nat \<Rightarrow> string \<Rightarrow> bool" where
  "stops_digits base rest \<longleftrightarrow> (case rest of [] \<Rightarrow> True | c # _ \<Rightarrow> \<not> digit_below base c)"

lemma based_value_simps [simp]:
  "based_value base v [] = v"
  "based_value base v (c # cs) = based_value base (v * base + the (ash_arithmetic_digit c)) cs"
  by (simp_all add: based_value_def)

lemma based_value_grows: "1 \<le> base \<Longrightarrow> v \<le> based_value base v cs"
proof (induction cs arbitrary: v)
  case (Cons c cs)
  have "v \<le> v * base + the (ash_arithmetic_digit c)" using Cons.prems by (simp add: trans_le_add1)
  also have "\<dots> \<le> based_value base (v * base + the (ash_arithmetic_digit c)) cs" using Cons by simp
  finally show ?case by simp
qed simp

lemma digit_room:
  assumes "d < base" and "base \<le> 16" and "15 \<le> unat (limit :: u64)"
  shows "v > (limit - of_nat d) div of_nat base \<longleftrightarrow> unat v * base + d > unat limit"
proof -
  have d: "unat (of_nat d :: u64) = d" and b: "unat (of_nat base :: u64) = base"
    using assms by (simp_all)
  have "unat (limit - of_nat d) = unat limit - d"
    using assms d by (subst unat_sub) (simp_all add: word_le_nat_alt)
  then have "v > (limit - of_nat d) div of_nat base \<longleftrightarrow> unat v > (unat limit - d) div base"
    using b by (simp add: word_less_nat_alt unat_div)
  also have "\<dots> \<longleftrightarrow> unat v * base > unat limit - d"
    using assms(1) by (simp add: div_less_iff_less_mult)
  also have "\<dots> \<longleftrightarrow> unat v * base + d > unat limit" using assms by linarith
  finally show ?thesis .
qed

lemma arith_digits_exact:
  assumes "list_all (digit_below base) digits" and "stops_digits base rest"
    and "1 \<le> base" "base \<le> 16" "15 \<le> unat limit" "unat v \<le> unat limit"
  shows "arith_digits base limit True v (digits @ rest) =
    (if based_value base (unat v) digits \<le> unat limit then Inr (of_nat (based_value base (unat v) digits), rest)
     else Inl Constant_Out_Of_Range)"
  using assms(1,6)
proof (induction digits arbitrary: v)
  case Nil
  then show ?case using assms(2) by (cases rest) (auto simp: stops_digits_def digit_below_def split: option.splits)
next
  case (Cons c cs)
  from Cons.prems(1) obtain d where d: "ash_arithmetic_digit c = Some d" "d < base"
    by (auto simp: digit_below_def split: option.splits)
  note room = digit_room [OF d(2) assms(4,5), of v]
  show ?case
  proof (cases "unat v * base + d > unat limit")
    case True
    have "unat v * base + d \<le> based_value base (unat v * base + d) cs" using assms(3) by (rule based_value_grows)
    then show ?thesis using True room d by simp
  next
    case False
    then have fits: "unat v * base + d \<le> unat limit" by simp
    have "of_nat (unat v * base + d) = v * of_nat base + (of_nat d :: u64)" by simp
    moreover have "unat (of_nat (unat v * base + d) :: u64) = unat v * base + d"
      using fits unat_lt2p [of limit] by (intro unat_of_nat_64) simp
    ultimately have next1: "unat (v * of_nat base + of_nat d) = unat v * base + d" by metis
    then have "arith_digits base limit True (v * of_nat base + of_nat d) (cs @ rest) =
        (if based_value base (unat v * base + d) cs \<le> unat limit
         then Inr (of_nat (based_value base (unat v * base + d) cs), rest) else Inl Constant_Out_Of_Range)"
      using Cons.IH [of "v * of_nat base + of_nat d"] Cons.prems fits by simp
    then show ?thesis using False room d by simp
  qed
qed

text \<open>The spellings of a constant: its prefix, its digits, its suffix, and what may follow it.\<close>

definition constant_spelling :: "nat \<Rightarrow> string \<Rightarrow> string \<Rightarrow> bool" where
  "constant_spelling base prefix digits \<longleftrightarrow>
     digits \<noteq> [] \<and> list_all (digit_below base) digits \<and>
     (base = 10 \<and> prefix = [] \<and> hd digits \<noteq> CHR ''0'' \<or> base = 8 \<and> prefix = [] \<and> hd digits = CHR ''0'' \<or>
      base = 16 \<and> (prefix = ''0x'' \<or> prefix = ''0X''))"

definition length_suffixes :: "string list" where
  "length_suffixes = ['''', ''l'', ''L'', ''ll'', ''LL'']"

definition integer_suffixes :: "string list" where
  "integer_suffixes = length_suffixes @ concat (map (\<lambda>l. [''u'' @ l, ''U'' @ l, l @ ''u'', l @ ''U'']) length_suffixes)"

definition ends_constant :: "string \<Rightarrow> bool" where
  "ends_constant rest \<longleftrightarrow> (case rest of [] \<Rightarrow> True | c # _ \<Rightarrow> \<not> ash_is_name_char c)"

lemma suffix_letters [simp]:
  "ash_is_name_char CHR ''u''" "ash_is_name_char CHR ''U''" "ash_is_name_char CHR ''l''" "ash_is_name_char CHR ''L''"
  "ash_is_name_char CHR ''x''" "ash_is_name_char CHR ''X''"
  "ash_arithmetic_digit CHR ''u'' = None" "ash_arithmetic_digit CHR ''U'' = None"
  "ash_arithmetic_digit CHR ''l'' = None" "ash_arithmetic_digit CHR ''L'' = None"
  "ash_arithmetic_digit CHR ''x'' = None" "ash_arithmetic_digit CHR ''X'' = None"
  by code_simp+

lemma digit_is_name_char: "ash_arithmetic_digit c = Some d \<Longrightarrow> ash_is_name_char c"
proof -
  have lower: "c \<le> CHR ''z''" if "c \<le> CHR ''f''"
    using order_trans [OF that, of "CHR ''z''"] by (simp add: less_eq_char_def)
  have upper: "c \<le> CHR ''Z''" if "c \<le> CHR ''F''"
    using order_trans [OF that, of "CHR ''Z''"] by (simp add: less_eq_char_def)
  from lower upper show "ash_arithmetic_digit c = Some d \<Longrightarrow> ash_is_name_char c"
    unfolding ash_arithmetic_digit_def ash_is_name_char_def ash_is_name_start_def
    by (simp split: if_splits)
qed

lemma suffix_skipped:
  assumes "suffix \<in> set integer_suffixes" and "ends_constant rest"
  shows "constant_suffix (suffix @ rest) = rest" "stops_digits base (suffix @ rest)"
proof -
  have letters: "c \<noteq> CHR ''u'' \<and> c \<noteq> CHR ''U'' \<and> c \<noteq> CHR ''l'' \<and> c \<noteq> CHR ''L''" if "rest = c # cs" for c cs
    using assms(2) that by (auto simp: ends_constant_def)
  show "constant_suffix (suffix @ rest) = rest"
    using assms(1) letters
    by (cases rest) (auto simp: integer_suffixes_def length_suffixes_def constant_suffix_def skip_unsigned_def skip_long_def)
  show "stops_digits base (suffix @ rest)"
    using assms digit_is_name_char
    by (cases rest) (auto simp: integer_suffixes_def length_suffixes_def stops_digits_def digit_below_def ends_constant_def
        split: option.splits)
qed

lemma constant_prefix_spelling:
  assumes "constant_spelling base prefix digits" and "stops_digits base after" and "\<not> (\<exists>c cs. after = c # cs \<and> c \<in> {CHR ''x'', CHR ''X''})"
  shows "constant_prefix (prefix @ digits @ after) = (base, digits @ after)"
proof -
  from assms(1) obtain c cs where digits: "digits = c # cs" by (cases digits) (auto simp: constant_spelling_def)
  have x: "d \<noteq> CHR ''x'' \<and> d \<noteq> CHR ''X''" if "cs @ after = d # ds" for d ds
    using that assms(1,3) digits by (cases cs) (auto simp: constant_spelling_def digit_below_def)
  show ?thesis
    using assms(1) digits x by (cases "cs @ after") (auto simp: constant_spelling_def constant_prefix_def)
qed

lemma constant_of_digits:
  assumes spelled: "constant_spelling base prefix digits" and suffix: "suffix \<in> set integer_suffixes"
    and rest: "ends_constant rest"
    and digits: "arith_digits base limit evaluate 0 (digits @ suffix @ rest) =
      (case r of Inl m \<Rightarrow> Inl m | Inr v \<Rightarrow> Inr (v, suffix @ rest))"
  shows "ash_arithmetic_constant (prefix @ digits @ suffix @ rest) limit evaluate =
    (case r of Inl m \<Rightarrow> Inl m | Inr v \<Rightarrow> Inr (v, rest))"
proof -
  let ?after = "suffix @ rest"
  note skipped = suffix_skipped [OF suffix rest]
  have "\<not> (\<exists>c cs. ?after = c # cs \<and> c \<in> {CHR ''x'', CHR ''X''})"
    using suffix rest by (cases rest) (auto simp: integer_suffixes_def length_suffixes_def ends_constant_def)
  then have prefix: "constant_prefix (prefix @ digits @ ?after) = (base, digits @ ?after)"
    using spelled skipped(2) by (intro constant_prefix_spelling) auto
  have "digits \<noteq> []" using spelled by (auto simp: constant_spelling_def)
  then show ?thesis
    unfolding ash_arithmetic_constant_def prefix Let_def prod.case digits
    using rest by (cases rest) (insert skipped(1), auto simp: ends_constant_def split: sum.splits)
qed

lemma constant_spelled:
  assumes spelled: "constant_spelling base prefix digits" and suffix: "suffix \<in> set integer_suffixes"
    and rest: "ends_constant rest" and limit: "15 \<le> unat limit"
  shows "ash_arithmetic_constant (prefix @ digits @ suffix @ rest) limit True =
    (if based_value base 0 digits \<le> unat limit then Inr (of_nat (based_value base 0 digits), rest)
     else Inl Constant_Out_Of_Range)"
proof -
  let ?r = "if based_value base 0 digits \<le> unat limit then Inr (of_nat (based_value base 0 digits)) else Inl Constant_Out_Of_Range"
  have "1 \<le> base" "base \<le> 16" "list_all (digit_below base) digits"
    using spelled by (auto simp: constant_spelling_def)
  then have "arith_digits base limit True 0 (digits @ suffix @ rest) =
      (case ?r of Inl m \<Rightarrow> Inl m | Inr v \<Rightarrow> Inr (v, suffix @ rest))"
    using arith_digits_exact [of base digits "suffix @ rest" limit 0] suffix_skipped(2) [OF suffix rest] limit by simp
  from constant_of_digits [OF spelled suffix rest this] show ?thesis by simp
qed

text \<open>
  C37: an integer constant, decimal, octal or hexadecimal and with any of the suffixes of C, is read
  as its value exactly when that is within the limit, and is refused as out of range otherwise; the text
  that follows is left.
\<close>

theorem constant_value_exact:
  assumes spelled: "constant_spelling base prefix digits" and suffix: "suffix \<in> set integer_suffixes"
    and rest: "ends_constant rest" and limit: "15 \<le> unat limit"
  shows "ash_arithmetic_constant (prefix @ digits @ suffix @ rest) limit True =
    (if based_value base 0 digits \<le> unat limit then Inr (of_nat (based_value base 0 digits), rest)
     else Inl Constant_Out_Of_Range)"
  using assms by (rule constant_spelled)

lemma constant_value_exact_witness:
  "ash_arithmetic_constant ''0x1fUL)'' LONG_MAX True = Inr (31, '')'')"
  using constant_value_exact [of 16 "''0x''" "''1f''" "''UL''" "'')''" LONG_MAX]
  by (simp add: constant_spelling_def digit_below_def ash_arithmetic_digit_def integer_suffixes_def
      length_suffixes_def ends_constant_def ash_is_name_char_def ash_is_name_start_def less_eq_char_def)

text \<open>The decimal text of a number is one of its spellings.\<close>

lemma digit_value_same: "is_digit c \<Longrightarrow> ash_arithmetic_digit c = Some (digit_value c)"
  by (simp add: is_digit_def ash_arithmetic_digit_def digit_value_def)

lemma based_value_decimal:
  assumes "list_all is_digit s"
  shows "based_value 10 0 s = dec_value s"
proof -
  have "foldl (\<lambda>v c. v * 10 + the (ash_arithmetic_digit c)) v s = foldl (\<lambda>v c. v * 10 + digit_value c) v s" for v
    using assms by (induction s arbitrary: v) (simp_all add: digit_value_same)
  then show ?thesis by (simp add: based_value_def dec_value_def)
qed

lemma dec_of_nat_hd: "0 < n \<Longrightarrow> hd (dec_of_nat n) \<noteq> CHR ''0''"
proof (induction n rule: dec_of_nat.induct)
  case (1 n)
  show ?case
  proof (cases "n < 10")
    case True
    then have "n \<in> {1, 2, 3, 4, 5, 6, 7, 8, 9}" using "1.prems" by auto
    then show ?thesis using True by (subst dec_of_nat.simps) (auto simp: digit_char_literals)
  next
    case False
    then show ?thesis using 1 by (subst dec_of_nat.simps) simp
  qed
qed

lemma decimal_spelling: "constant_spelling (if n = 0 then 8 else 10) [] (dec_of_nat n)"
proof (cases "n = 0")
  case True
  then show ?thesis
    by (simp add: constant_spelling_def dec_of_nat.simps [of 0] digit_char_literals digit_below_def ash_arithmetic_digit_def)
next
  case False
  have "list_all (digit_below 10) (dec_of_nat n)"
    using dec_of_nat_digits [of n] digit_value_bound
    by (fastforce simp: list_all_iff digit_below_def digit_value_same)
  then show ?thesis using False dec_of_nat_hd [of n] by (simp add: constant_spelling_def)
qed

lemma no_suffix: "[] \<in> set integer_suffixes"
  by (simp add: integer_suffixes_def length_suffixes_def)

lemma constant_decimal:
  assumes "ends_constant rest" and "n \<le> unat limit" and "15 \<le> unat limit"
  shows "ash_arithmetic_constant (dec_of_nat n @ rest) limit True = Inr (of_nat n, rest)"
proof -
  have "based_value (if n = 0 then 8 else 10) 0 (dec_of_nat n) = n"
    using based_value_decimal [OF dec_of_nat_digits [of n]]
    by (cases "n = 0") (simp_all add: dec_of_nat.simps [of 0] digit_char_literals ash_arithmetic_digit_def)
  then show ?thesis
    using constant_spelled [OF decimal_spelling no_suffix assms(1,3)] assms(2) by simp
qed

text \<open>A constant that is not evaluated is read to the same place.\<close>

lemma arith_digits_skipped:
  assumes "list_all (digit_below base) digits" and "stops_digits base rest"
  shows "arith_digits base limit False v (digits @ rest) = Inr (v, rest)"
  using assms
proof (induction digits arbitrary: v)
  case Nil
  then show ?case by (cases rest) (auto simp: stops_digits_def digit_below_def split: option.splits)
qed (auto simp: digit_below_def split: option.splits)

lemma constant_decimal_skipped:
  assumes "ends_constant rest"
  shows "ash_arithmetic_constant (dec_of_nat n @ rest) limit False = Inr (0, rest)"
proof -
  let ?base = "if n = 0 then 8 else 10"
  have "list_all (digit_below ?base) (dec_of_nat n)" using decimal_spelling [of n] by (simp add: constant_spelling_def)
  from arith_digits_skipped [OF this suffix_skipped(2) [OF no_suffix assms], of limit 0]
  show ?thesis using constant_of_digits [OF decimal_spelling no_suffix assms, of n limit False "Inr 0"] by simp
qed

end
