(* ===== verification/ShellTree.thy ===== *)
theory ShellTree
  imports ShellArith
begin

text \<open>
  The operator-precedence evaluator of arithmetic expansion (\<open>ash_arithmetic_evaluate\<close> in
  \<open>src/src/applets/shell/ash/arithmetic.c\<close>) against the meaning of expression trees.

  A tree is an expression as the grammar of C has it, with the assignment operators, \<open>?:\<close> and
  parentheses. Its text is the text that the evaluator reads. Its meaning is defined on the tree alone: no
  stacks, no precedences, and a part that is not evaluated has no effect at all. The theorem says that
  reading the text of a well-formed tree gives its meaning, with the same assignments in the same order.
\<close>

section \<open>Expression trees and their text\<close>

datatype arith_tree =
    Tree_Number nat
  | Tree_Lowest
  | Tree_Name string
  | Tree_Paren arith_tree
  | Tree_Unary ash_arithmetic_operator arith_tree
  | Tree_Binary ash_arithmetic_operator arith_tree arith_tree
  | Tree_Conditional arith_tree arith_tree arith_tree

definition unary_letter :: "ash_arithmetic_operator \<Rightarrow> char" where
  "unary_letter operator =
     (if operator = Arith_Pos then CHR ''+'' else if operator = Arith_Neg then CHR ''-''
      else if operator = Arith_Not then CHR ''!'' else CHR ''~'')"

definition binary_spelling :: "ash_arithmetic_operator \<Rightarrow> string" where
  "binary_spelling operator = (case find (\<lambda>(spelling, operator1). operator1 = operator) arith_spellings of
     None \<Rightarrow> '''' | Some (spelling, _) \<Rightarrow> spelling)"

text \<open>Every token is followed by a blank. \<open>Tree_Lowest\<close> is the lowest long, written as a negated constant.\<close>

primrec tree_text :: "arith_tree \<Rightarrow> string" where
  "tree_text (Tree_Number n) = dec_of_nat n @ '' ''"
| "tree_text Tree_Lowest = ''- 9223372036854775808 ''"
| "tree_text (Tree_Name x) = x @ '' ''"
| "tree_text (Tree_Paren e) = ''( '' @ tree_text e @ '') ''"
| "tree_text (Tree_Unary operator e) = unary_letter operator # CHR '' '' # tree_text e"
| "tree_text (Tree_Binary operator l r) = tree_text l @ binary_spelling operator @ '' '' @ tree_text r"
| "tree_text (Tree_Conditional a b c) = tree_text a @ ''? '' @ tree_text b @ '': '' @ tree_text c"

text \<open>The level of a tree in the grammar, and the trees that the grammar allows without more parentheses.\<close>

primrec tree_level :: "arith_tree \<Rightarrow> nat" where
  "tree_level (Tree_Number n) = 14"
| "tree_level Tree_Lowest = 13"
| "tree_level (Tree_Name x) = 14"
| "tree_level (Tree_Paren e) = 14"
| "tree_level (Tree_Unary operator e) = 13"
| "tree_level (Tree_Binary operator l r) = ash_arithmetic_precedence operator"
| "tree_level (Tree_Conditional a b c) = 2"

primrec tree_wf :: "arith_tree \<Rightarrow> bool" where
  "tree_wf (Tree_Number n) \<longleftrightarrow> n < 2 ^ 63"
| "tree_wf Tree_Lowest \<longleftrightarrow> True"
| "tree_wf (Tree_Name x) \<longleftrightarrow> ash_is_valid_name_span x"
| "tree_wf (Tree_Paren e) \<longleftrightarrow> tree_wf e"
| "tree_wf (Tree_Unary operator e) \<longleftrightarrow> arith_unary operator \<and> tree_wf e \<and> 13 \<le> tree_level e"
| "tree_wf (Tree_Binary operator l r) \<longleftrightarrow>
     operator \<in> snd ` set arith_spellings \<and> tree_wf l \<and> tree_wf r \<and>
     (if ash_arithmetic_assignment operator then 1 < tree_level l
      else ash_arithmetic_precedence operator \<le> tree_level l \<and> ash_arithmetic_precedence operator < tree_level r)"
| "tree_wf (Tree_Conditional a b c) \<longleftrightarrow>
     tree_wf a \<and> tree_wf b \<and> tree_wf c \<and> 2 < tree_level a \<and> 2 \<le> tree_level c"

section \<open>Their meaning\<close>

text \<open>The name a tree stands for as the target of an assignment, and what is checked of a tree that is skipped.\<close>

primrec tree_target :: "arith_tree \<Rightarrow> string option" where
  "tree_target (Tree_Number n) = None"
| "tree_target Tree_Lowest = None"
| "tree_target (Tree_Name x) = Some x"
| "tree_target (Tree_Paren e) = tree_target e"
| "tree_target (Tree_Unary operator e) = None"
| "tree_target (Tree_Binary operator l r) = None"
| "tree_target (Tree_Conditional a b c) = None"

primrec tree_targets_ok :: "arith_tree \<Rightarrow> bool" where
  "tree_targets_ok (Tree_Number n) \<longleftrightarrow> True"
| "tree_targets_ok Tree_Lowest \<longleftrightarrow> True"
| "tree_targets_ok (Tree_Name x) \<longleftrightarrow> True"
| "tree_targets_ok (Tree_Paren e) \<longleftrightarrow> tree_targets_ok e"
| "tree_targets_ok (Tree_Unary operator e) \<longleftrightarrow> tree_targets_ok e"
| "tree_targets_ok (Tree_Binary operator l r) \<longleftrightarrow>
     tree_targets_ok l \<and> tree_targets_ok r \<and> (ash_arithmetic_assignment operator \<longrightarrow> tree_target l \<noteq> None)"
| "tree_targets_ok (Tree_Conditional a b c) \<longleftrightarrow> tree_targets_ok a \<and> tree_targets_ok b \<and> tree_targets_ok c"

text \<open>
  An operand is a number, or a name whose variable is read when the operator that needs it is applied.
  A computation gives an error or a result, and the shell with the assignments made so far.
\<close>

datatype operand = Value u64 | Name string

type_synonym 'a arith_result = "(ash_arithmetic_error + 'a) \<times> ash_shell"

definition and_then :: "'a arith_result \<Rightarrow> ('a \<Rightarrow> ash_shell \<Rightarrow> 'b arith_result) \<Rightarrow> 'b arith_result" where
  "and_then r f = (case r of (Inl e, shell) \<Rightarrow> (Inl e, shell) | (Inr x, shell) \<Rightarrow> f x shell)"

definition operand_value :: "operand \<Rightarrow> ash_shell \<Rightarrow> u64 arith_result" where
  "operand_value a shell =
     (case a of
        Value v \<Rightarrow> (Inr v, shell)
      | Name x \<Rightarrow>
          (case ash_arithmetic_variable shell x of
             Inl message \<Rightarrow> (Inl \<lparr>er_message = message, er_name = Some x, er_reported = False\<rparr>, shell)
           | Inr v \<Rightarrow> (Inr v, shell)))"

definition apply_operator :: "ash_arithmetic_operator \<Rightarrow> u64 \<Rightarrow> u64 \<Rightarrow> ash_shell \<Rightarrow> u64 arith_result" where
  "apply_operator operator l r shell =
     (case arith_operation operator 0 l r of
        Inl message \<Rightarrow> (Inl (failure message), shell)
      | Inr v \<Rightarrow> (Inr v, shell))"

definition store_value :: "shell_os \<Rightarrow> string \<Rightarrow> u64 \<Rightarrow> ash_shell \<Rightarrow> u64 arith_result" where
  "store_value os x v shell =
     (case ash_var_set_with_export os shell x (Some (long_text v)) False of
        (ok, shell1) \<Rightarrow>
          if ok then (Inr v, shell1)
          else (Inl \<lparr>er_message = Assignment_Failed, er_name = None, er_reported = True\<rparr>, shell1))"

definition skip_tree :: "arith_tree \<Rightarrow> ash_shell \<Rightarrow> unit arith_result" where
  "skip_tree e shell = (if tree_targets_ok e then Inr () else Inl (failure Invalid_Target), shell)"

definition assign_operand :: "shell_os \<Rightarrow> ash_arithmetic_operator \<Rightarrow> operand \<Rightarrow> operand \<Rightarrow> ash_shell \<Rightarrow> u64 arith_result" where
  "assign_operand os operator a b shell =
     (case a of
        Value _ \<Rightarrow> (Inl (failure Invalid_Target), shell)
      | Name x \<Rightarrow>
          and_then (if operator = Arith_Assign then (Inr 0, shell) else operand_value a shell) (\<lambda>l shell1.
            and_then (operand_value b shell1) (\<lambda>r shell2.
              and_then (apply_operator (compound_operation operator) l r shell2) (store_value os x))))"

text \<open>\<open>give\<close> makes an operand of a value.\<close>

abbreviation give :: "u64 \<Rightarrow> ash_shell \<Rightarrow> operand arith_result" where
  "give v shell \<equiv> (Inr (Value v), shell)"

primrec tree_value :: "shell_os \<Rightarrow> arith_tree \<Rightarrow> ash_shell \<Rightarrow> operand arith_result" where
  "tree_value os (Tree_Number n) = give (of_nat n)"
| "tree_value os Tree_Lowest = give LONG_MIN"
| "tree_value os (Tree_Name x) = (\<lambda>shell. (Inr (Name x), shell))"
| "tree_value os (Tree_Paren e) = tree_value os e"
| "tree_value os (Tree_Unary operator e) = (\<lambda>shell.
     and_then (tree_value os e shell) (\<lambda>a shell1.
       and_then (operand_value a shell1) (\<lambda>v shell2.
         and_then (apply_operator operator 0 v shell2) give)))"
| "tree_value os (Tree_Binary operator l r) = (\<lambda>shell.
     and_then (tree_value os l shell) (\<lambda>a shell1.
       if arith_logical operator then
         and_then (operand_value a shell1) (\<lambda>v shell2.
           if (v \<noteq> 0) = (operator = Arith_Logical_Or)
           then and_then (skip_tree r shell2) (\<lambda>_. give (truth (v \<noteq> 0)))
           else and_then (tree_value os r shell2) (\<lambda>b shell3.
             and_then (operand_value b shell3) (\<lambda>w. give (truth (w \<noteq> 0)))))
       else and_then (tree_value os r shell1) (\<lambda>b shell2.
         if ash_arithmetic_assignment operator then and_then (assign_operand os operator a b shell2) give
         else and_then (operand_value a shell2) (\<lambda>v shell3.
           and_then (operand_value b shell3) (\<lambda>w shell4.
             and_then (apply_operator operator v w shell4) give)))))"
| "tree_value os (Tree_Conditional a b c) = (\<lambda>shell.
     and_then (tree_value os a shell) (\<lambda>condition shell1.
       and_then (operand_value condition shell1) (\<lambda>v shell2.
         if v \<noteq> 0 then
           and_then (tree_value os b shell2) (\<lambda>x shell3.
             and_then (skip_tree c shell3) (\<lambda>_ shell4.
               and_then (operand_value x shell4) give))
         else
           and_then (skip_tree b shell2) (\<lambda>_ shell3.
             and_then (tree_value os c shell3) (\<lambda>y shell4.
               and_then (operand_value y shell4) give)))))"

text \<open>The value of a whole expression.\<close>

definition tree_result :: "shell_os \<Rightarrow> arith_tree \<Rightarrow> ash_shell \<Rightarrow> u64 arith_result" where
  "tree_result os e shell = and_then (tree_value os e shell) operand_value"

section \<open>Runs of the evaluator\<close>

text \<open>What a state shows: everything but the capacities of its stacks.\<close>

definition looks ::
  "arith_state \<Rightarrow> bool \<Rightarrow> bool \<Rightarrow> string \<Rightarrow> ash_arithmetic_entry list \<Rightarrow> ash_arithmetic_entry list \<Rightarrow> ash_shell \<Rightarrow> bool" where
  "looks st operand1 suppressed rest operators vals shell \<longleftrightarrow>
     as_operand st = operand1 \<and> as_suppressed st = suppressed \<and> as_rest st = rest \<and>
     sk_entries (as_operators st) = operators \<and> sk_entries (as_values st) = vals \<and> as_shell st = shell"

text \<open>\<open>reaches os Q st\<close>: the rounds from \<open>st\<close> arrive at a state, or stop with an error, that satisfies \<open>Q\<close>.\<close>

inductive reaches :: "shell_os \<Rightarrow> (arith_outcome \<Rightarrow> bool) \<Rightarrow> arith_state \<Rightarrow> bool" for os Q where
  reaches_here: "Q (Inr st) \<Longrightarrow> reaches os Q st"
| reaches_error: "as_rest st \<noteq> [] \<Longrightarrow> arith_step os st = Inl failed \<Longrightarrow> Q (Inl failed) \<Longrightarrow> reaches os Q st"
| reaches_next: "as_rest st \<noteq> [] \<Longrightarrow> arith_step os st = Inr st1 \<Longrightarrow> reaches os Q st1 \<Longrightarrow> reaches os Q st"

definition ends :: "shell_os \<Rightarrow> (arith_outcome \<Rightarrow> bool) \<Rightarrow> arith_outcome \<Rightarrow> bool" where
  "ends os Q r = (case r of Inl failed \<Rightarrow> Q (Inl failed) | Inr st \<Rightarrow> reaches os Q st)"

lemma ends_simps [simp]: "ends os Q (Inl failed) = Q (Inl failed)" "ends os Q (Inr st) = reaches os Q st"
  by (simp_all add: ends_def)

lemma reaches_step: "as_rest st \<noteq> [] \<Longrightarrow> ends os Q (arith_step os st) \<Longrightarrow> reaches os Q st"
  by (cases "arith_step os st") (auto intro: reaches_error reaches_next)

lemma reaches_bind:
  assumes "reaches os P st" and "\<And>failed. P (Inl failed) \<Longrightarrow> Q (Inl failed)"
    and "\<And>st1. P (Inr st1) \<Longrightarrow> reaches os Q st1"
  shows "reaches os Q st"
  using assms by (induction rule: reaches.induct) (auto intro: reaches_error reaches_next)

lemma reaches_loop:
  assumes "reaches os Q st"
  shows "(\<exists>failed. arith_loop os st = Inl failed \<and> Q (Inl failed)) \<or> (\<exists>st1. Q (Inr st1) \<and> arith_loop os st = arith_loop os st1)"
  using assms
proof (induction rule: reaches.induct)
  case (reaches_error st failed)
  then show ?case by (simp add: arith_loop.simps [of os st])
next
  case (reaches_next st st1)
  then show ?case by (simp add: arith_loop.simps [of os st])
qed auto

text \<open>Running out of memory is allowed for everywhere, and excluded at the end.\<close>

definition tolerant :: "(arith_outcome \<Rightarrow> bool) \<Rightarrow> bool" where
  "tolerant Q \<longleftrightarrow> (\<forall>shell. Q (Inl (failure Out_Of_Memory, shell)))"

lemma ends_push_operator:
  assumes "looks st operand1 quiet rest ops vals shell" and "tolerant Q"
    and "\<And>st1. looks st1 operand1 quiet rest (entry # ops) vals shell \<Longrightarrow> ends os Q (continue st1)"
  shows "ends os Q (push_operator os st entry continue)"
proof (cases "ash_arithmetic_push (os_alloc os) (as_operators st) entry")
  case None
  then show ?thesis using assms(2) by (simp add: push_operator_def tolerant_def)
next
  case (Some stack)
  then have "sk_entries stack = entry # ops"
    using assms(1) by (auto simp: ash_arithmetic_push_def looks_def Let_def split: if_splits)
  then have "looks (st\<lparr>as_operators := stack\<rparr>) operand1 quiet rest (entry # ops) vals shell"
    using assms(1) by (simp add: looks_def)
  then show ?thesis using Some assms(3) by (simp add: push_operator_def)
qed

lemma ends_push_value:
  assumes "looks st operand1 quiet rest ops vals shell" and "tolerant Q"
    and "\<And>st1. looks st1 False quiet rest ops (entry # vals) shell \<Longrightarrow> reaches os Q st1"
  shows "ends os Q (push_value os st entry)"
proof (cases "ash_arithmetic_push (os_alloc os) (as_values st) entry")
  case None
  then show ?thesis using assms(2) by (simp add: push_value_def tolerant_def)
next
  case (Some stack)
  then have "sk_entries stack = entry # vals"
    using assms(1) by (auto simp: ash_arithmetic_push_def looks_def Let_def split: if_splits)
  then have "looks (st\<lparr>as_values := stack, as_operand := False\<rparr>) False quiet rest ops (entry # vals) shell"
    using assms(1) by (simp add: looks_def)
  then show ?thesis using Some assms(3) by (simp add: push_value_def)
qed

lemma looks_rest: "looks st operand1 quiet rest ops vals shell \<Longrightarrow> looks (st\<lparr>as_rest := rest1\<rparr>) operand1 quiet rest1 ops vals shell"
  by (simp add: looks_def)

lemma reaches_blank:
  assumes "looks st operand1 quiet (CHR '' '' # rest) ops vals shell"
    and "\<And>st1. looks st1 operand1 quiet rest ops vals shell \<Longrightarrow> reaches os Q st1"
  shows "reaches os Q st"
proof -
  have "arith_step os st = Inr (st\<lparr>as_rest := rest\<rparr>)" "as_rest st \<noteq> []"
    using assms(1) by (simp_all add: looks_def arith_step_def arith_space_def)
  then show ?thesis using assms(2) [OF looks_rest [OF assms(1)]] by (auto intro: reaches_next)
qed

section \<open>Operators that are still pending\<close>

fun entry_of :: "operand \<Rightarrow> ash_arithmetic_entry" where
  "entry_of (Value v) = value_entry v"
| "entry_of (Name x) = name_entry x"

definition skip_operand :: "arith_tree \<Rightarrow> operand" where
  "skip_operand e = (case tree_target e of None \<Rightarrow> Value 0 | Some x \<Rightarrow> Name x)"

text \<open>What reading a tree amounts to, when it is evaluated and when it is skipped.\<close>

definition tree_outcome :: "shell_os \<Rightarrow> bool \<Rightarrow> arith_tree \<Rightarrow> ash_shell \<Rightarrow> operand arith_result" where
  "tree_outcome os quiet e shell =
     (if quiet then and_then (skip_tree e shell) (\<lambda>_ shell1. (Inr (skip_operand e), shell1)) else tree_value os e shell)"

text \<open>A reduction that gives an outcome, on top of the values \<open>vals\<close> and back in the mode \<open>quiet\<close>.\<close>

definition reduces_to ::
  "shell_os \<Rightarrow> ash_arithmetic_entry list \<Rightarrow> ash_arithmetic_entry list \<Rightarrow> bool \<Rightarrow> ash_shell \<Rightarrow>
     operand arith_result \<Rightarrow> ash_arithmetic_entry list \<Rightarrow> bool \<Rightarrow> bool" where
  "reduces_to os pend vals1 quiet1 shell1 out vals quiet \<longleftrightarrow>
     reduce_while os (\<lambda>_. True) pend vals1 quiet1 shell1 =
       (case out of (Inl e, shell) \<Rightarrow> (Inl e, shell) | (Inr a, shell) \<Rightarrow> (Inr ([], entry_of a # vals, quiet), shell))"

definition binds :: "nat \<Rightarrow> ash_arithmetic_operator \<Rightarrow> bool" where
  "binds level operator \<longleftrightarrow>
     operator \<noteq> Arith_Open \<and> operator \<noteq> Arith_Question \<and> level \<le> ash_arithmetic_precedence operator"

definition pending ::
  "shell_os \<Rightarrow> operand arith_result \<Rightarrow> nat \<Rightarrow> bool \<Rightarrow> string \<Rightarrow> ash_arithmetic_entry list \<Rightarrow> ash_arithmetic_entry list \<Rightarrow>
     arith_state \<Rightarrow> bool" where
  "pending os out level quiet rest ops vals st \<longleftrightarrow>
     (\<exists>pend quiet1 vals1 shell1.
        looks st False quiet1 rest (pend @ ops) vals1 shell1 \<and> list_all (\<lambda>entry. binds level (en_operator entry)) pend \<and>
        reduces_to os pend vals1 quiet1 shell1 out vals quiet)"

text \<open>A run that reads a text up to \<open>rest\<close> and leaves at most pending operators of the level.\<close>

definition reads ::
  "shell_os \<Rightarrow> operand arith_result \<Rightarrow> nat \<Rightarrow> bool \<Rightarrow> string \<Rightarrow> ash_arithmetic_entry list \<Rightarrow> ash_arithmetic_entry list \<Rightarrow>
     arith_outcome \<Rightarrow> bool" where
  "reads os out level quiet rest ops vals r =
     (case r of
        Inl (e, shell) \<Rightarrow> e = failure Out_Of_Memory \<or> out = (Inl e, shell)
      | Inr st \<Rightarrow> pending os out level quiet rest ops vals st)"

lemma reads_tolerant [simp]: "tolerant (reads os out level quiet rest ops vals)"
  by (simp add: tolerant_def reads_def)

lemma reads_then:
  assumes "reaches os (reads os out level quiet rest ops vals) st" and "tolerant Q"
    and "\<And>e shell. out = (Inl e, shell) \<Longrightarrow> Q (Inl (e, shell))"
    and "\<And>st1. pending os out level quiet rest ops vals st1 \<Longrightarrow> reaches os Q st1"
  shows "reaches os Q st"
proof (rule reaches_bind [OF assms(1)])
  fix failed
  assume "reads os out level quiet rest ops vals (Inl failed)"
  then show "Q (Inl failed)" using assms(2,3) by (cases failed) (auto simp: reads_def tolerant_def)
qed (use assms(4) in \<open>simp add: reads_def\<close>)

lemma reduce_while_append:
  assumes "list_all (\<lambda>entry. while1 (en_operator entry)) pend"
  shows "reduce_while os while1 (pend @ ops) vals quiet shell =
    (case reduce_while os (\<lambda>_. True) pend vals quiet shell of
       (Inl e, shell1) \<Rightarrow> (Inl e, shell1)
     | (Inr (_, vals1, quiet1), shell1) \<Rightarrow> reduce_while os while1 ops vals1 quiet1 shell1)"
  using assms by (induction pend arbitrary: vals quiet shell) (auto split: prod.splits sum.splits)

lemma reduce_while_stop:
  "(case ops of [] \<Rightarrow> True | entry # _ \<Rightarrow> \<not> while1 (en_operator entry)) \<Longrightarrow>
   reduce_while os while1 ops vals quiet shell = (Inr (ops, vals, quiet), shell)"
  by (cases ops) auto

lemma list_all_binds:
  "list_all (\<lambda>entry. binds level (en_operator entry)) pend \<Longrightarrow> (\<And>operator. binds level operator \<Longrightarrow> P operator) \<Longrightarrow>
   list_all (\<lambda>entry. P (en_operator entry)) pend"
  by (auto simp: list_all_iff)

text \<open>The reducing loop of a token applies exactly the pending operators.\<close>

lemma ends_reducing:
  assumes "pending os out level quiet rest ops vals st"
    and "\<And>operator. binds level operator \<Longrightarrow> while1 operator"
    and "case ops of [] \<Rightarrow> True | entry # _ \<Rightarrow> \<not> while1 (en_operator entry)"
    and "\<And>e shell. out = (Inl e, shell) \<Longrightarrow> Q (Inl (e, shell))"
    and "\<And>a shell st1. out = (Inr a, shell) \<Longrightarrow> looks st1 False quiet rest ops (entry_of a # vals) shell \<Longrightarrow> ends os Q (continue st1)"
  shows "ends os Q (reducing os while1 st continue)"
proof -
  from assms(1) obtain pend quiet1 vals1 shell1 where
    st: "looks st False quiet1 rest (pend @ ops) vals1 shell1"
    and all: "list_all (\<lambda>entry. binds level (en_operator entry)) pend"
    and red: "reduces_to os pend vals1 quiet1 shell1 out vals quiet"
    by (auto simp: pending_def)
  have "list_all (\<lambda>entry. while1 (en_operator entry)) pend" by (rule list_all_binds [OF all assms(2)])
  note whole = reduce_while_append [OF this, where os = os and ops = ops and vals = vals1 and quiet = quiet1 and shell = shell1]
  have run: "reduce_while os while1 (pend @ ops) vals1 quiet1 shell1 =
      (case out of (Inl e, shell) \<Rightarrow> (Inl e, shell) | (Inr a, shell) \<Rightarrow> (Inr (ops, entry_of a # vals, quiet), shell))"
    unfolding whole using red reduce_while_stop [OF assms(3)] unfolding reduces_to_def by (auto split: prod.splits sum.splits)
  obtain r shell where out: "out = (r, shell)" by force
  show ?thesis
  proof (cases r)
    case (Inl e)
    then show ?thesis using st run assms(4) out by (simp add: reducing_def looks_def)
  next
    case (Inr a)
    then show ?thesis
      using st run out assms(5) [of a shell] by (simp add: reducing_def looks_def)
  qed
qed

lemma pending_none:
  "looks st False quiet rest ops (entry_of a # vals) shell \<Longrightarrow> pending os (Inr a, shell) level quiet rest ops vals st"
  unfolding pending_def by (rule exI [of _ "[]"]) (auto simp: reduces_to_def)

text \<open>An operator whose last operand has been read is pending in turn.\<close>

lemma pending_operator:
  assumes "pending os out1 level1 quiet1 rest (entry # ops) vals1 st" and "level \<le> level1" and "binds level (en_operator entry)"
    and "\<And>e shell. out1 = (Inl e, shell) \<Longrightarrow> out = (Inl e, shell)"
    and "\<And>b shell. out1 = (Inr b, shell) \<Longrightarrow> ash_arithmetic_reduce os entry (entry_of b # vals1) quiet1 shell =
      (case out of (Inl e, shell2) \<Rightarrow> (Inl e, shell2) | (Inr a, shell2) \<Rightarrow> (Inr (entry_of a # vals, quiet), shell2))"
  shows "pending os out level quiet rest ops vals st"
proof -
  from assms(1) obtain pend quiet2 vals2 shell2 where
    st: "looks st False quiet2 rest (pend @ entry # ops) vals2 shell2"
    and all: "list_all (\<lambda>entry. binds level1 (en_operator entry)) pend"
    and red: "reduces_to os pend vals2 quiet2 shell2 out1 vals1 quiet1"
    by (auto simp: pending_def)
  have "list_all (\<lambda>entry. binds level (en_operator entry)) (pend @ [entry])"
    using all assms(2,3) by (auto simp: list_all_iff binds_def)
  moreover have "reduces_to os (pend @ [entry]) vals2 quiet2 shell2 out vals quiet"
  proof -
    have "list_all (\<lambda>entry. (\<lambda>_. True) (en_operator entry)) pend" by (simp add: list_all_iff)
    note whole = reduce_while_append [OF this, where os = os and ops = "[entry]" and vals = vals2 and quiet = quiet2 and shell = shell2]
    obtain r shell where out1: "out1 = (r, shell)" by force
    show ?thesis
      using red assms(4,5) unfolding reduces_to_def whole out1 by (cases r) (auto split: prod.splits sum.splits)
  qed
  ultimately show ?thesis using st unfolding pending_def by (intro exI [of _ "pend @ [entry]"]) auto
qed

section \<open>Reading a tree\<close>

text \<open>The operator before a tree must not bind its first operand more tightly than the tree itself.\<close>

definition fits :: "nat \<Rightarrow> ash_arithmetic_entry list \<Rightarrow> bool" where
  "fits level ops \<longleftrightarrow>
     (case ops of
        [] \<Rightarrow> True
      | entry # _ \<Rightarrow>
          en_operator entry = Arith_Open \<or> en_operator entry = Arith_Question \<or> 13 \<le> level \<or>
          ash_arithmetic_precedence (en_operator entry) < level \<or>
          ash_arithmetic_precedence (en_operator entry) = level \<and> level \<le> 2)"

lemma fits_mono: "fits level ops \<Longrightarrow> level \<le> level1 \<Longrightarrow> fits level1 ops"
  by (auto simp: fits_def split: list.splits)

definition tree_reads :: "shell_os \<Rightarrow> arith_tree \<Rightarrow> bool" where
  "tree_reads os e \<longleftrightarrow>
     (\<forall>st quiet rest ops vals shell.
        fits (tree_level e) ops \<longrightarrow> looks st True quiet (tree_text e @ rest) ops vals shell \<longrightarrow>
        reaches os (reads os (tree_outcome os quiet e shell) (tree_level e) quiet rest ops vals) st)"

lemma tree_readsD:
  "tree_reads os e \<Longrightarrow> fits (tree_level e) ops \<Longrightarrow> looks st True quiet (tree_text e @ rest) ops vals shell \<Longrightarrow>
   reaches os (reads os (tree_outcome os quiet e shell) (tree_level e) quiet rest ops vals) st"
  by (simp add: tree_reads_def)

lemma arith_step_operand:
  assumes "looks st True quiet (c # cs) ops vals shell" and "\<not> arith_space c" and "cs = d # ds" and "d \<noteq> c \<or> c \<notin> {CHR ''+'', CHR ''-''}"
  shows "arith_step os st = step_operand os st c cs" "as_rest st \<noteq> []"
  using assms by (auto simp: looks_def arith_step_def)

lemma ends_constant_blank [simp]: "ends_constant (CHR '' '' # rest)"
  by (simp add: ends_constant_def ash_is_name_char_def ash_is_name_start_def less_eq_char_def)

text \<open>A value has been pushed and the blank after it is next.\<close>

lemma reads_value:
  assumes "looks st False quiet (CHR '' '' # rest) ops (entry_of a # vals) shell"
  shows "reaches os (reads os (Inr a, shell) level quiet rest ops vals) st"
  by (rule reaches_blank [OF assms]) (auto intro!: reaches_here pending_none simp: reads_def)

lemma digit_not_operand:
  assumes "is_digit c"
  shows "prefix_operator c = None" "\<not> ash_is_name_start c" "\<not> arith_space c" "c \<notin> {CHR ''+'', CHR ''-''}"
  using assms
  by (auto simp: is_digit_def prefix_operator_def ash_is_name_start_def arith_space_def less_eq_char_def
      split: if_splits)

lemma reads_number:
  assumes n: "n < 2 ^ 63" and st: "looks st True quiet (dec_of_nat n @ CHR '' '' # rest) ops vals shell"
  shows "reaches os (reads os (Inr (Value (if quiet then 0 else of_nat n)), shell) level quiet rest ops vals) st"
proof -
  obtain c cs where dec: "dec_of_nat n = c # cs" by (cases "dec_of_nat n") auto
  then have c: "is_digit c" using dec_of_nat_digits [of n] by simp
  obtain d ds where next1: "cs @ CHR '' '' # rest = d # ds" by (cases "cs @ CHR '' '' # rest") auto
  have step: "arith_step os st = step_operand os st c (cs @ CHR '' '' # rest)" "as_rest st \<noteq> []"
    using arith_step_operand(1) [of st quiet c "cs @ CHR '' '' # rest" ops vals shell d ds os] st dec next1
      digit_not_operand [OF c] by (simp_all add: looks_def)
  define limit :: u64 where "limit = LONG_MAX + (if top_is_neg st then 1 else 0)"
  have limit: "2 ^ 63 - 1 \<le> unat limit" by (simp add: limit_def)
  have numeral: "ash_arithmetic_constant (c # cs @ CHR '' '' # rest) limit (\<not> quiet) =
      Inr (if quiet then 0 else of_nat n, CHR '' '' # rest)"
    using constant_decimal [of "CHR '' '' # rest" n limit] constant_decimal_skipped [of "CHR '' '' # rest" n limit]
      n limit dec by auto
  have small: "\<not> (if quiet then 0 else of_nat n :: u64) > LONG_MAX"
    using n by (simp add: word_less_nat_alt)
  have "step_operand os st c (cs @ CHR '' '' # rest) =
      push_value os (st\<lparr>as_rest := CHR '' '' # rest\<rparr>) (value_entry (if quiet then 0 else of_nat n))"
    using digit_not_operand [OF c] c numeral small st
    unfolding step_operand_def limit_def looks_def is_digit_def by simp
  moreover have "ends os (reads os (Inr (Value (if quiet then 0 else of_nat n)), shell) level quiet rest ops vals)
      (push_value os (st\<lparr>as_rest := CHR '' '' # rest\<rparr>) (value_entry (if quiet then 0 else of_nat n)))"
    by (rule ends_push_value [OF looks_rest [OF st]]) (auto intro!: reads_value)
  ultimately show ?thesis using step by (intro reaches_step) simp_all
qed

lemma reaches_prefix:
  assumes st: "looks st True quiet (c # CHR '' '' # rest) ops vals shell" and c: "prefix_operator c = Some operator"
    and "tolerant Q"
    and next1: "\<And>st1. looks st1 True quiet rest (operator_entry operator quiet # ops) vals shell \<Longrightarrow> reaches os Q st1"
  shows "reaches os Q st"
proof -
  have "\<not> arith_space c" "c \<noteq> CHR '' ''"
    using c by (auto simp: prefix_operator_def arith_space_def split: if_splits)
  then have step: "arith_step os st = step_operand os st c (CHR '' '' # rest)" "as_rest st \<noteq> []"
    using arith_step_operand(1) [OF st _ refl] st by (auto simp: looks_def)
  have "ends os Q (push_operator os st (operator_entry operator quiet) (\<lambda>st1. Inr (st1\<lparr>as_rest := CHR '' '' # rest\<rparr>)))"
  proof (rule ends_push_operator [OF st assms(3)])
    fix st1
    assume "looks st1 True quiet (c # CHR '' '' # rest) (operator_entry operator quiet # ops) vals shell"
    from reaches_blank [OF looks_rest [OF this] next1]
    show "ends os Q (Inr (st1\<lparr>as_rest := CHR '' '' # rest\<rparr>))" by simp
  qed
  then show ?thesis
    using step st c by (intro reaches_step) (simp_all add: step_operand_def looks_def)
qed

lemma operand_resolved:
  "operand_value b shell = (Inl e, shell1) \<Longrightarrow> shell1 = shell \<and> ash_arithmetic_resolve shell (entry_of b) = Inl e"
  "operand_value b shell = (Inr v, shell1) \<Longrightarrow>
     shell1 = shell \<and> (\<exists>entry. ash_arithmetic_resolve shell (entry_of b) = Inr entry \<and> en_value entry = v \<and>
       en_name entry = en_name (entry_of b) \<and> ash_arithmetic_resolve shell1 entry = Inr entry)"
  by (cases b; auto simp: operand_value_def ash_arithmetic_resolve_def value_entry_def name_entry_def split: sum.splits)+

lemma tree_outcome_paren: "tree_outcome os quiet (Tree_Paren e) shell = tree_outcome os quiet e shell"
  by (simp add: tree_outcome_def skip_tree_def skip_operand_def)

lemma reads_name:
  assumes x: "ash_is_valid_name_span x" and st: "looks st True quiet (x @ CHR '' '' # rest) ops vals shell"
  shows "reaches os (reads os (Inr (Name x), shell) level quiet rest ops vals) st"
proof -
  obtain c cs where cs: "x = c # cs" "ash_is_name_start c" "list_all ash_is_name_char cs"
    using x by (auto simp: ash_is_valid_name_span_def split: list.splits)
  obtain d ds where next1: "cs @ CHR '' '' # rest = d # ds" by (cases "cs @ CHR '' '' # rest") auto
  have c: "prefix_operator c = None" "\<not> arith_space c" "c \<noteq> CHR ''+'' \<and> c \<noteq> CHR ''-''"
    using cs(2) by (auto simp: prefix_operator_def arith_space_def ash_is_name_start_def less_eq_char_def split: if_splits)
  have step: "arith_step os st = step_operand os st c (cs @ CHR '' '' # rest)" "as_rest st \<noteq> []"
    using arith_step_operand(1) [of st quiet c "cs @ CHR '' '' # rest" ops vals shell d ds os] st cs next1 c
    by (simp_all add: looks_def)
  have blank: "\<not> ash_is_name_char CHR '' ''" by (simp add: ash_is_name_char_def ash_is_name_start_def less_eq_char_def)
  have span: "takeWhile ash_is_name_char (cs @ CHR '' '' # rest) = cs"
    "dropWhile ash_is_name_char (cs @ CHR '' '' # rest) = CHR '' '' # rest"
    using cs(3) blank by (simp_all add: takeWhile_append2 dropWhile_append2 list_all_iff)
  have "ends os (reads os (Inr (Name x), shell) level quiet rest ops vals)
      (push_value os (st\<lparr>as_rest := CHR '' '' # rest\<rparr>) (name_entry x))"
    by (rule ends_push_value [OF looks_rest [OF st]]) (auto intro!: reads_value)
  moreover have "step_operand os st c (cs @ CHR '' '' # rest) = push_value os (st\<lparr>as_rest := CHR '' '' # rest\<rparr>) (name_entry x)"
    unfolding step_operand_def c(1) span using cs(1,2) by simp
  ultimately show ?thesis using step by (intro reaches_step) simp_all
qed

lemma lowest_text: "dec_of_nat (2 ^ 63) = ''9223372036854775808''"
  by (simp add: dec_of_nat.simps digit_char_literals)

lemma reduce_negation:
  assumes "en_suppressed entry" "arith_unary (en_operator entry)"
  shows "ash_arithmetic_reduce os entry (v # vals) quiet shell = (Inr (value_entry 0 # vals, quiet), shell)"
  using assms by (auto simp: ash_arithmetic_reduce_def arith_unary_def ash_arithmetic_assignment_def arith_logical_def)

lemma reads_lowest:
  assumes st: "looks st True quiet (tree_text Tree_Lowest @ rest) ops vals shell"
  shows "reaches os (reads os (Inr (Value (if quiet then 0 else LONG_MIN)), shell) 13 quiet rest ops vals) st"
    (is "reaches os ?Q st")
proof (rule reaches_prefix [of st quiet "CHR ''-''" "''9223372036854775808 '' @ rest" ops vals shell Arith_Neg])
  fix st1
  let ?text = "''9223372036854775808'' @ CHR '' '' # rest"
  let ?neg = "operator_entry Arith_Neg quiet"
  assume "looks st1 True quiet (''9223372036854775808 '' @ rest) (?neg # ops) vals shell"
  then have st1: "looks st1 True quiet ?text (?neg # ops) vals shell" by simp
  have step: "arith_step os st1 = step_operand os st1 CHR ''9'' (tl ?text)" "as_rest st1 \<noteq> []"
    using st1 by (simp_all add: looks_def arith_step_def arith_space_def)
  have numeral: "ash_arithmetic_constant ?text LONG_MIN (\<not> quiet) =
      Inr (if quiet then 0 else LONG_MIN, CHR '' '' # rest)"
    using constant_decimal [of "CHR '' '' # rest" "2 ^ 63" LONG_MIN] constant_decimal_skipped [of "CHR '' '' # rest" "2 ^ 63" LONG_MIN]
    unfolding lowest_text by auto
  have neg: "top_is_neg st1" using st1 by (simp add: top_is_neg_def looks_def operator_entry_def)
  show "reaches os ?Q st1"
  proof (cases quiet)
    case True
    have "ends os ?Q (push_value os (st1\<lparr>as_rest := CHR '' '' # rest\<rparr>) (value_entry 0))"
    proof (rule ends_push_value [OF looks_rest [OF st1]])
      fix st2
      assume "looks st2 False quiet (CHR '' '' # rest) (?neg # ops) (value_entry 0 # vals) shell"
      then show "reaches os ?Q st2"
      proof (rule reaches_blank)
        fix st3
        assume "looks st3 False quiet rest (?neg # ops) (value_entry 0 # vals) shell"
        then have "pending os (Inr (Value 0), shell) 14 quiet rest (?neg # ops) vals st3" by (intro pending_none) simp
        then have "pending os (Inr (Value 0), shell) 13 quiet rest ops vals st3"
          by (rule pending_operator) (use True in \<open>auto simp: binds_def operator_entry_def reduce_negation arith_unary_def\<close>)
        then show "reaches os ?Q st3" using True by (intro reaches_here) (simp add: reads_def)
      qed
    qed simp
    then show ?thesis using step numeral neg True st1
      by (intro reaches_step) (simp_all add: step_operand_def prefix_operator_def ash_is_name_start_def less_eq_char_def looks_def)
  next
    case False
    have popped: "looks (st1\<lparr>as_rest := CHR '' '' # rest,
        as_operators := with_entries (as_operators st1) (tl (sk_entries (as_operators st1)))\<rparr>) True quiet (CHR '' '' # rest) ops vals shell"
      using st1 by (simp add: looks_def)
    have "ends os ?Q (push_value os (st1\<lparr>as_rest := CHR '' '' # rest,
        as_operators := with_entries (as_operators st1) (tl (sk_entries (as_operators st1)))\<rparr>) (value_entry LONG_MIN))"
      by (rule ends_push_value [OF popped]) (use False in \<open>auto intro!: reads_value\<close>)
    then show ?thesis using step numeral neg False st1
      by (intro reaches_step) (simp_all add: step_operand_def prefix_operator_def ash_is_name_start_def less_eq_char_def looks_def)
  qed
qed (use st in \<open>simp_all add: prefix_operator_def\<close>)

text \<open>The token after an operand.\<close>

lemma pending_looks:
  assumes "pending os out level quiet (c # cs) ops vals st" and "\<not> arith_space c" and "cs = d # ds"
    and "d \<noteq> c \<or> c \<notin> {CHR ''+'', CHR ''-''}"
  shows "as_rest st = c # cs" and "as_rest st \<noteq> []" and "arith_step os1 st =
    (if c = CHR '')'' then step_close os1 st cs else if c = CHR '':'' then step_colon os1 st cs
     else if c = CHR ''?'' then step_question os1 st cs else step_binary os1 st)"
proof -
  from assms(1) have "as_rest st = c # cs" "\<not> as_operand st" by (auto simp: pending_def looks_def)
  then show "as_rest st = c # cs" and "as_rest st \<noteq> []" and "arith_step os1 st =
    (if c = CHR '')'' then step_close os1 st cs else if c = CHR '':'' then step_colon os1 st cs
     else if c = CHR ''?'' then step_question os1 st cs else step_binary os1 st)"
    using assms(2-4) by (auto simp: arith_step_def)
qed

lemma reads_paren:
  assumes inner: "tree_reads os e" and st: "looks st True quiet (tree_text (Tree_Paren e) @ rest) ops vals shell"
  shows "reaches os (reads os (tree_outcome os quiet (Tree_Paren e) shell) 14 quiet rest ops vals) st"
    (is "reaches os ?Q st")
proof (rule reaches_prefix [of st quiet "CHR ''(''" "tree_text e @ '') '' @ rest" ops vals shell Arith_Open])
  fix st1
  let ?open = "operator_entry Arith_Open quiet"
  assume st1: "looks st1 True quiet (tree_text e @ '') '' @ rest) (?open # ops) vals shell"
  have "fits (tree_level e) (?open # ops)" by (simp add: fits_def operator_entry_def)
  from tree_readsD [OF inner this st1]
  show "reaches os ?Q st1"
  proof (rule reads_then)
    fix st2
    assume pend: "pending os (tree_outcome os quiet e shell) (tree_level e) quiet ('') '' @ rest) (?open # ops) vals st2"
    from pend have here: "pending os (tree_outcome os quiet e shell) (tree_level e) quiet
        (CHR '')'' # CHR '' '' # rest) (?open # ops) vals st2" by simp
    have step: "arith_step os st2 = step_close os st2 (CHR '' '' # rest)" "as_rest st2 \<noteq> []"
      using pending_looks(2,3) [OF here _ refl] by (simp_all add: arith_space_def)
    have "ends os ?Q (step_close os st2 (CHR '' '' # rest))"
      unfolding step_close_def
    proof (rule ends_reducing [OF pend])
      fix a shell1 st3
      assume out: "tree_outcome os quiet e shell = (Inr a, shell1)"
        and st3: "looks st3 False quiet ('') '' @ rest) (?open # ops) (entry_of a # vals) shell1"
      define st4 where "st4 = st3\<lparr>as_operators := with_entries (as_operators st3) ops, as_rest := CHR '' '' # rest\<rparr>"
      have "looks st4 False quiet (CHR '' '' # rest) ops (entry_of a # vals) shell1"
        using st3 by (simp add: looks_def st4_def)
      then have "reaches os ?Q st4" unfolding tree_outcome_paren out by (rule reads_value)
      then show "ends os ?Q (case sk_entries (as_operators st3) of
          [] \<Rightarrow> fail_with (failure Unmatched_Parenthesis) (as_shell st3)
        | _ # operators \<Rightarrow> Inr (st3\<lparr>as_operators := with_entries (as_operators st3) operators, as_rest := CHR '' '' # rest\<rparr>))"
        using st3 by (simp add: looks_def st4_def)
    qed (auto simp: binds_def operator_entry_def reads_def tree_outcome_paren)
    then show "reaches os ?Q st2" using step by (intro reaches_step) simp_all
  qed (auto simp: reads_def tree_outcome_paren)
qed (use st in \<open>simp_all add: prefix_operator_def\<close>)

text \<open>Unary operators.\<close>

lemma unary_cases: "arith_unary operator \<Longrightarrow> operator \<in> {Arith_Pos, Arith_Neg, Arith_Not, Arith_Invert}"
  by (simp add: arith_unary_def)

lemma unary_prefix: "arith_unary operator \<Longrightarrow> prefix_operator (unary_letter operator) = Some operator"
  by (drule unary_cases) (auto simp: prefix_operator_def unary_letter_def)

lemma unary_flags:
  assumes "arith_unary operator"
  shows "ash_arithmetic_precedence operator = 13" "\<not> ash_arithmetic_assignment operator" "\<not> arith_logical operator"
    "operator \<noteq> Arith_Open" "operator \<noteq> Arith_Question" "operator \<noteq> Arith_Conditional" "operator \<noteq> Arith_Logical_Or"
    "operator \<noteq> Arith_Logical_And" "operator \<noteq> Arith_Assign" "compound_operation operator = operator"
  using unary_cases [OF assms] by (auto simp: ash_arithmetic_assignment_def arith_logical_def)

lemma operator_entry_simps [simp]:
  "en_operator (operator_entry operator quiet) = operator" "en_suppressed (operator_entry operator quiet) = quiet"
  "en_value (operator_entry operator quiet) = 0"
  by (simp_all add: operator_entry_def)

lemma value_entry_simps [simp]:
  "en_name (value_entry v) = None" "en_value (value_entry v) = v" "ash_arithmetic_resolve shell (value_entry v) = Inr (value_entry v)"
  by (simp_all add: value_entry_def ash_arithmetic_resolve_def)

lemma and_then_simps [simp]:
  "and_then (Inl e, shell) f = (Inl e, shell)" "and_then (Inr x, shell) f = f x shell"
  by (simp_all add: and_then_def)

lemma reduce_unary:
  assumes "arith_unary operator"
  shows "ash_arithmetic_reduce os (operator_entry operator False) (entry_of b # vals) quiet shell =
    (case and_then (operand_value b shell) (\<lambda>v shell2. and_then (apply_operator operator 0 v shell2) give) of
       (Inl e, shell2) \<Rightarrow> (Inl e, shell2)
     | (Inr a, shell2) \<Rightarrow> (Inr (entry_of a # vals, quiet), shell2))"
proof -
  obtain r shell1 where r: "operand_value b shell = (r, shell1)" by force
  note flags = assms unary_flags [OF assms]
  show ?thesis
  proof (cases r)
    case (Inl e)
    then show ?thesis using operand_resolved(1) [of b shell e shell1] r flags
      by (simp add: ash_arithmetic_reduce_def arith_effect_def)
  next
    case (Inr v)
    then obtain entry where "shell1 = shell" "ash_arithmetic_resolve shell (entry_of b) = Inr entry" "en_value entry = v"
      using operand_resolved(2) r by blast
    then show ?thesis using r Inr flags
      by (auto simp: ash_arithmetic_reduce_def arith_effect_def apply_operator_def split: sum.splits)
  qed
qed

lemma reads_unary:
  assumes inner: "tree_reads os e" and operator: "arith_unary operator" and level: "13 \<le> tree_level e"
    and st: "looks st True quiet (tree_text (Tree_Unary operator e) @ rest) ops vals shell"
  shows "reaches os (reads os (tree_outcome os quiet (Tree_Unary operator e) shell) 13 quiet rest ops vals) st"
    (is "reaches os (reads os ?out 13 quiet rest ops vals) st")
proof (rule reaches_prefix [of st quiet "unary_letter operator" "tree_text e @ rest" ops vals shell operator])
  fix st1
  let ?entry = "operator_entry operator quiet"
  assume st1: "looks st1 True quiet (tree_text e @ rest) (?entry # ops) vals shell"
  have failed: "?out = (Inl x, shell1)" if "tree_outcome os quiet e shell = (Inl x, shell1)" for x shell1
    using that by (auto simp: tree_outcome_def skip_tree_def and_then_def split: if_splits)
  have reduced: "ash_arithmetic_reduce os ?entry (entry_of b # vals) quiet shell1 =
      (case ?out of (Inl x, shell2) \<Rightarrow> (Inl x, shell2) | (Inr a, shell2) \<Rightarrow> (Inr (entry_of a # vals, quiet), shell2))"
    if "tree_outcome os quiet e shell = (Inr b, shell1)" for b shell1
  proof (cases quiet)
    case True
    then show ?thesis using that operator
      by (auto simp: tree_outcome_def skip_tree_def skip_operand_def reduce_negation split: if_splits)
  next
    case False
    then have q: "quiet = False" by simp
    show ?thesis using that reduce_unary [OF operator] unfolding q by (simp add: tree_outcome_def)
  qed
  have "fits (tree_level e) (?entry # ops)" using level by (simp add: fits_def)
  from tree_readsD [OF inner this st1]
  show "reaches os (reads os ?out 13 quiet rest ops vals) st1"
  proof (rule reads_then)
    fix st2
    assume "pending os (tree_outcome os quiet e shell) (tree_level e) quiet rest (?entry # ops) vals st2"
    then have "pending os ?out 13 quiet rest ops vals st2"
      by (rule pending_operator) (use level unary_flags [OF operator] failed reduced in \<open>auto simp: binds_def\<close>)
    then show "reaches os (reads os ?out 13 quiet rest ops vals) st2" by (intro reaches_here) (simp add: reads_def)
  qed (use failed in \<open>auto simp: reads_def\<close>)
qed (use st unary_prefix [OF operator] in simp_all)

text \<open>Binary operators.\<close>

abbreviation arith_binary :: "ash_arithmetic_operator \<Rightarrow> bool" where
  "arith_binary operator \<equiv> operator \<in> snd ` set arith_spellings"

lemma binary_cases:
  "arith_binary operator \<Longrightarrow> operator \<in> {Arith_Assign_Shl, Arith_Assign_Shr, Arith_Assign_Add, Arith_Assign_Sub,
     Arith_Assign_Mul, Arith_Assign_Div, Arith_Assign_Mod, Arith_Assign_And, Arith_Assign_Xor, Arith_Assign_Or,
     Arith_Logical_Or, Arith_Logical_And, Arith_Eq, Arith_Ne, Arith_Le, Arith_Ge, Arith_Shl, Arith_Shr, Arith_Or, Arith_Xor,
     Arith_And, Arith_Lt, Arith_Gt, Arith_Add, Arith_Sub, Arith_Mul, Arith_Div, Arith_Mod, Arith_Assign}"
  by (simp add: arith_spellings_def)

lemma binary_spelled:
  assumes "arith_binary operator"
  shows "ash_arithmetic_binary (binary_spelling operator @ CHR '' '' # rest) = Some (operator, CHR '' '' # rest)"
  using binary_cases [OF assms]
  by (elim insertE) (simp_all add: ash_arithmetic_binary_def binary_spelling_def arith_spellings_def)

lemma binary_token:
  assumes "arith_binary operator"
  obtains c cs d ds where "binary_spelling operator @ CHR '' '' # rest = c # cs" and "cs = d # ds" and "d \<noteq> c \<or> c \<notin> {CHR ''+'', CHR ''-''}"
    and "\<not> arith_space c" and "c \<noteq> CHR '')''" and "c \<noteq> CHR '':''" and "c \<noteq> CHR ''?''"
  using binary_cases [OF assms]
  by (elim insertE) (simp_all add: binary_spelling_def arith_spellings_def arith_space_def)

lemma binary_flags:
  assumes "arith_binary operator"
  shows "operator \<noteq> Arith_Open" "operator \<noteq> Arith_Question" "operator \<noteq> Arith_Conditional" "\<not> arith_unary operator"
    "ash_arithmetic_precedence operator \<le> 12" "1 \<le> ash_arithmetic_precedence operator"
    "ash_arithmetic_precedence operator \<noteq> 2"
    "ash_arithmetic_assignment operator \<longleftrightarrow> ash_arithmetic_precedence operator = 1"
    "arith_logical operator \<Longrightarrow> \<not> ash_arithmetic_assignment operator"
    "\<not> ash_arithmetic_assignment operator \<Longrightarrow> compound_operation operator = operator"
  using binary_cases [OF assms]
  by (auto simp: arith_unary_def ash_arithmetic_assignment_def arith_logical_def)

lemma reduced_before_binds:
  assumes "tree_wf (Tree_Binary operator l r)" and "binds (tree_level l) top1"
  shows "reduced_before operator top1"
  using assms binary_flags(8) [of operator] by (auto simp: reduced_before_def binds_def split: if_splits)

lemma reduced_before_stops:
  assumes "arith_binary operator" and "fits (ash_arithmetic_precedence operator) ops"
  shows "case ops of [] \<Rightarrow> True | entry # _ \<Rightarrow> \<not> reduced_before operator (en_operator entry)"
  using assms(2) binary_flags [OF assms(1)] by (auto simp: fits_def reduced_before_def split: list.splits)

text \<open>Reading the last operand of an operator that has been pushed.\<close>

lemma reads_right:
  assumes right: "tree_reads os r" and fit: "fits (tree_level r) (entry # ops)"
    and st: "looks st True quiet1 (CHR '' '' # tree_text r @ rest) (entry # ops) vals1 shell1"
    and level: "level \<le> tree_level r" "binds level (en_operator entry)"
    and failed: "\<And>e shell2. tree_outcome os quiet1 r shell1 = (Inl e, shell2) \<Longrightarrow> out = (Inl e, shell2)"
    and reduced: "\<And>b shell2. tree_outcome os quiet1 r shell1 = (Inr b, shell2) \<Longrightarrow>
      ash_arithmetic_reduce os entry (entry_of b # vals1) quiet1 shell2 =
      (case out of (Inl e, shell3) \<Rightarrow> (Inl e, shell3) | (Inr a, shell3) \<Rightarrow> (Inr (entry_of a # vals, quiet), shell3))"
  shows "reaches os (reads os out level quiet rest ops vals) st"
proof (rule reaches_blank [OF st])
  fix st1
  assume "looks st1 True quiet1 (tree_text r @ rest) (entry # ops) vals1 shell1"
  from tree_readsD [OF right fit this]
  show "reaches os (reads os out level quiet rest ops vals) st1"
  proof (rule reads_then)
    fix st2
    assume "pending os (tree_outcome os quiet1 r shell1) (tree_level r) quiet1 rest (entry # ops) vals1 st2"
    from pending_operator [OF this level failed reduced]
    show "reaches os (reads os out level quiet rest ops vals) st2" by (intro reaches_here) (simp add: reads_def)
  qed (use failed in \<open>auto simp: reads_def\<close>)
qed

text \<open>The reductions of binary operators.\<close>

lemma entry_of_simps [simp]:
  "en_name (name_entry x) = Some x" "en_value (entry_of (skip_operand e)) = 0"
  "en_name (entry_of (skip_operand e)) = tree_target e"
  by (auto simp: name_entry_def value_entry_def skip_operand_def split: option.splits)

lemma operand_kept:
  assumes "ash_arithmetic_resolve shell (entry_of b) = Inr entry"
  shows "ash_arithmetic_resolve shell1 entry = Inr entry"
  using assms by (cases b) (auto simp: ash_arithmetic_resolve_def value_entry_def name_entry_def split: sum.splits)

lemma reduce_binary_skipped:
  assumes "arith_binary operator"
  shows "ash_arithmetic_reduce os (operator_entry operator True) (right # left # vals) quiet shell =
    (if ash_arithmetic_assignment operator \<and> en_name left = None then (Inl (failure Invalid_Target), shell)
     else (Inr (value_entry 0 # vals, arith_logical operator \<or> quiet), shell))"
  using binary_flags [OF assms] by (auto simp: ash_arithmetic_reduce_def Let_def)

lemma operand_value_cases:
  obtains e where "operand_value b shell = (Inl e, shell)" and "ash_arithmetic_resolve shell (entry_of b) = Inl e"
  | v entry where "operand_value b shell = (Inr v, shell)" and "ash_arithmetic_resolve shell (entry_of b) = Inr entry"
    and "en_value entry = v" and "en_name entry = en_name (entry_of b)"
proof (cases "operand_value b shell")
  case (Pair r shell1)
  then show ?thesis using operand_resolved [of b shell] that by (cases r) fastforce+
qed

lemma reduce_binary_plain:
  assumes "arith_binary operator" and "\<not> arith_logical operator" and "\<not> ash_arithmetic_assignment operator"
  shows "ash_arithmetic_reduce os (operator_entry operator False) (entry_of b # entry_of a # vals) quiet shell =
    (case and_then (operand_value a shell) (\<lambda>v shell2. and_then (operand_value b shell2) (\<lambda>w shell3.
        and_then (apply_operator operator v w shell3) give)) of
       (Inl e, shell2) \<Rightarrow> (Inl e, shell2)
     | (Inr x, shell2) \<Rightarrow> (Inr (entry_of x # vals, quiet), shell2))"
proof -
  have flags: "operator \<noteq> Arith_Logical_Or" "operator \<noteq> Arith_Logical_And" "operator \<noteq> Arith_Assign"
    using assms(2,3) by (auto simp: arith_logical_def ash_arithmetic_assignment_def)
  show ?thesis
    by (rule operand_value_cases [of a shell]; rule operand_value_cases [of b shell])
      (use assms(2,3) binary_flags [OF assms(1)] flags in
        \<open>auto simp: ash_arithmetic_reduce_def arith_effect_def Let_def apply_operator_def split: sum.splits\<close>)
qed

lemma reduce_binary_assign:
  assumes "arith_binary operator" and "ash_arithmetic_assignment operator"
  shows "ash_arithmetic_reduce os (operator_entry operator False) (entry_of b # entry_of a # vals) quiet shell =
    (case and_then (assign_operand os operator a b shell) give of
       (Inl e, shell2) \<Rightarrow> (Inl e, shell2)
     | (Inr x, shell2) \<Rightarrow> (Inr (entry_of x # vals, quiet), shell2))"
proof (cases a)
  case (Value v)
  then show ?thesis using assms binary_flags [OF assms(1)] by (simp add: ash_arithmetic_reduce_def assign_operand_def)
next
  case (Name x)
  have flags: "operator \<noteq> Arith_Logical_Or" "operator \<noteq> Arith_Logical_And" "\<not> arith_logical operator"
    using assms(2) by (auto simp: arith_logical_def ash_arithmetic_assignment_def)
  have plain: "arith_operation Arith_Assign c u w = arith_operation Arith_Assign c v w" for c u v w by simp
  show ?thesis
    by (rule operand_value_cases [of "Name x" shell]; rule operand_value_cases [of b shell])
      (use Name assms(2) binary_flags [OF assms(1)] flags plain in
        \<open>auto simp: ash_arithmetic_reduce_def arith_effect_def Let_def apply_operator_def assign_operand_def store_value_def
          split: sum.splits prod.splits\<close>)
qed

lemma reduce_binary_logical:
  assumes "arith_binary operator" and "arith_logical operator"
    and left: "ash_arithmetic_resolve shell1 (entry_of a) = Inr left" "en_value left = v"
  shows "(v \<noteq> 0) = (operator = Arith_Logical_Or) \<Longrightarrow>
      ash_arithmetic_reduce os (operator_entry operator False) (entry_of (skip_operand e) # left # vals) quiet shell =
        (Inr (value_entry (truth (v \<noteq> 0)) # vals, False), shell)"
    and "(v \<noteq> 0) \<noteq> (operator = Arith_Logical_Or) \<Longrightarrow>
      ash_arithmetic_reduce os (operator_entry operator False) (entry_of b # left # vals) quiet shell =
        (case and_then (operand_value b shell) (\<lambda>w. give (truth (w \<noteq> 0))) of
           (Inl e, shell2) \<Rightarrow> (Inl e, shell2)
         | (Inr x, shell2) \<Rightarrow> (Inr (entry_of x # vals, False), shell2))"
proof -
  have kept: "ash_arithmetic_resolve shell left = Inr left" using operand_kept [OF left(1)] .
  have flags: "operator = Arith_Logical_Or \<or> operator = Arith_Logical_And" "\<not> ash_arithmetic_assignment operator"
    using assms(2) by (auto simp: arith_logical_def ash_arithmetic_assignment_def)
  show "ash_arithmetic_reduce os (operator_entry operator False) (entry_of (skip_operand e) # left # vals) quiet shell =
      (Inr (value_entry (truth (v \<noteq> 0)) # vals, False), shell)" if "(v \<noteq> 0) = (operator = Arith_Logical_Or)"
    using that flags binary_flags [OF assms(1)] kept left(2) assms(2)
    by (auto simp: ash_arithmetic_reduce_def arith_effect_def Let_def)
  show "ash_arithmetic_reduce os (operator_entry operator False) (entry_of b # left # vals) quiet shell =
      (case and_then (operand_value b shell) (\<lambda>w. give (truth (w \<noteq> 0))) of
         (Inl e, shell2) \<Rightarrow> (Inl e, shell2)
       | (Inr x, shell2) \<Rightarrow> (Inr (entry_of x # vals, False), shell2))" if "(v \<noteq> 0) \<noteq> (operator = Arith_Logical_Or)"
    by (rule operand_value_cases [of b shell])
      (use that flags binary_flags [OF assms(1)] kept left(2) assms(2) in
        \<open>auto simp: ash_arithmetic_reduce_def arith_effect_def Let_def\<close>)
qed

lemma ends_resolve_top:
  assumes st: "looks st operand1 quiet rest ops (entry_of a # vals) shell"
    and "quiet \<Longrightarrow> ends os Q (continue st)"
    and "\<And>e. \<not> quiet \<Longrightarrow> operand_value a shell = (Inl e, shell) \<Longrightarrow> Q (Inl (e, shell))"
    and "\<And>v entry st1. \<not> quiet \<Longrightarrow> operand_value a shell = (Inr v, shell) \<Longrightarrow>
      ash_arithmetic_resolve shell (entry_of a) = Inr entry \<Longrightarrow> en_value entry = v \<Longrightarrow>
      looks st1 operand1 quiet rest ops (entry # vals) shell \<Longrightarrow> ends os Q (continue st1)"
  shows "ends os Q (resolve_top st continue)"
proof (cases quiet)
  case True
  then show ?thesis using st assms(2) by (simp add: resolve_top_def looks_def)
next
  case False
  show ?thesis
  proof (rule operand_value_cases [of a shell])
    fix e
    assume "operand_value a shell = (Inl e, shell)" and "ash_arithmetic_resolve shell (entry_of a) = Inl e"
    then show ?thesis using False st assms(3) by (simp add: resolve_top_def looks_def)
  next
    fix v entry
    assume value1: "operand_value a shell = (Inr v, shell)" "ash_arithmetic_resolve shell (entry_of a) = Inr entry" "en_value entry = v"
    let ?st1 = "st\<lparr>as_values := with_entries (as_values st) (entry # tl (sk_entries (as_values st)))\<rparr>"
    have "looks ?st1 operand1 quiet rest ops (entry # vals) shell" using st by (simp add: looks_def)
    then show ?thesis using False st value1 assms(4) by (simp add: resolve_top_def looks_def)
  qed
qed

text \<open>From the first operand to the operator.\<close>

lemma reads_operator:
  assumes wf: "tree_wf (Tree_Binary operator l r)" and left: "tree_reads os l"
    and fit: "fits (ash_arithmetic_precedence operator) ops"
    and st: "looks st True quiet (tree_text (Tree_Binary operator l r) @ rest) ops vals shell"
    and "tolerant Q" and failed: "\<And>e shell1. tree_outcome os quiet l shell = (Inl e, shell1) \<Longrightarrow> Q (Inl (e, shell1))"
    and next1: "\<And>a shell1 st1. tree_outcome os quiet l shell = (Inr a, shell1) \<Longrightarrow>
      looks st1 False quiet (binary_spelling operator @ CHR '' '' # tree_text r @ rest) ops (entry_of a # vals) shell1 \<Longrightarrow>
      ends os Q ((if arith_logical operator then resolve_top st1 else (\<lambda>continue. continue st1)) (\<lambda>st2.
        push_operator os st2 (operator_entry operator (as_suppressed st2)) (\<lambda>st3.
          let left = en_value (hd (sk_entries (as_values st3))) in
          Inr (st3\<lparr>as_suppressed :=
              (if arith_logical operator
               then as_suppressed st3 \<or> (if operator = Arith_Logical_Or then left \<noteq> 0 else left = 0)
               else as_suppressed st3),
            as_operand := True, as_rest := CHR '' '' # tree_text r @ rest\<rparr>))))"
  shows "reaches os Q st"
proof -
  let ?after = "binary_spelling operator @ CHR '' '' # tree_text r @ rest"
  have operator: "arith_binary operator" using wf by simp
  have "ash_arithmetic_precedence operator \<le> tree_level l"
    using wf binary_flags(8) [OF operator] by (auto split: if_splits)
  then have "fits (tree_level l) ops" using fits_mono [OF fit] by blast
  moreover have "looks st True quiet (tree_text l @ ?after) ops vals shell" using st by simp
  ultimately have "reaches os (reads os (tree_outcome os quiet l shell) (tree_level l) quiet ?after ops vals) st"
    using tree_readsD [OF left] by blast
  then show ?thesis
  proof (rule reads_then [OF _ \<open>tolerant Q\<close> failed])
    fix st1
    assume pend: "pending os (tree_outcome os quiet l shell) (tree_level l) quiet ?after ops vals st1"
    obtain c cs d ds where token: "?after = c # cs" "cs = d # ds" "d \<noteq> c \<or> c \<notin> {CHR ''+'', CHR ''-''}" "\<not> arith_space c"
      "c \<noteq> CHR '')''" "c \<noteq> CHR '':''" "c \<noteq> CHR ''?''"
      by (rule binary_token [OF operator, where rest = "tree_text r @ rest"])
    note here = pending_looks [OF pend [unfolded token(1)] token(4,2,3)]
    have step: "arith_step os st1 = step_binary os st1" "as_rest st1 = ?after" "as_rest st1 \<noteq> []"
      using here(1,2) here(3) [of os] token by simp_all
    have "ends os Q (step_binary os st1)"
      unfolding step_binary_def step(2) binary_spelled [OF operator] option.case prod.case
      by (rule ends_reducing [OF pend reduced_before_binds [OF wf] reduced_before_stops [OF operator fit]])
        (use failed next1 in auto)
    then show "reaches os Q st1" using step by (intro reaches_step) simp_all
  qed
qed

lemma outcome_skipped: "tree_outcome os True e shell = (Inr a, shell1) \<longleftrightarrow> tree_targets_ok e \<and> a = skip_operand e \<and> shell1 = shell"
  "tree_outcome os True e shell = (Inl x, shell1) \<longleftrightarrow> \<not> tree_targets_ok e \<and> x = failure Invalid_Target \<and> shell1 = shell"
  by (auto simp: tree_outcome_def skip_tree_def)

lemma outcome_skipped_value:
  "tree_target e = None \<Longrightarrow>
   tree_outcome os True e shell = (if tree_targets_ok e then Inr (Value 0) else Inl (failure Invalid_Target), shell)"
  by (simp add: tree_outcome_def skip_tree_def skip_operand_def)

lemma outcome_read: "tree_outcome os False e shell = tree_value os e shell"
  by (simp add: tree_outcome_def)

lemma level_positive: "tree_wf e \<Longrightarrow> 1 \<le> tree_level e"
  using binary_flags(6) by (cases e) auto

lemma right_fits:
  assumes "tree_wf (Tree_Binary operator l r)"
  shows "ash_arithmetic_precedence operator \<le> tree_level r" "fits (tree_level r) (operator_entry operator quiet # ops)"
proof -
  have "ash_arithmetic_precedence operator < tree_level r \<or> ash_arithmetic_precedence operator = 1 \<and> 1 \<le> tree_level r"
    using assms binary_flags(8) [of operator] level_positive [of r] by (auto split: if_splits)
  then show "ash_arithmetic_precedence operator \<le> tree_level r" "fits (tree_level r) (operator_entry operator quiet # ops)"
    by (auto simp: fits_def)
qed

lemma reads_plain:
  assumes wf: "tree_wf (Tree_Binary operator l r)" and logical: "\<not> arith_logical operator"
    and left: "tree_reads os l" and right: "tree_reads os r"
    and fit: "fits (ash_arithmetic_precedence operator) ops"
    and st: "looks st True quiet (tree_text (Tree_Binary operator l r) @ rest) ops vals shell"
  shows "reaches os (reads os (tree_outcome os quiet (Tree_Binary operator l r) shell)
    (ash_arithmetic_precedence operator) quiet rest ops vals) st" (is "reaches os (reads os ?out ?level quiet rest ops vals) st")
proof (rule reads_operator [OF wf left fit st])
  let ?Q = "reads os ?out ?level quiet rest ops vals"
  let ?entry = "operator_entry operator quiet"
  have operator: "arith_binary operator" using wf by simp
  note flags = binary_flags [OF operator]
  note level = right_fits [OF wf]
  show "tolerant ?Q" by simp
  show "?Q (Inl (e, shell1))" if "tree_outcome os quiet l shell = (Inl e, shell1)" for e shell1
    using that by (cases quiet) (auto simp: reads_def outcome_skipped outcome_read)
  fix a shell1 st1
  assume left_out: "tree_outcome os quiet l shell = (Inr a, shell1)"
    and st1: "looks st1 False quiet (binary_spelling operator @ CHR '' '' # tree_text r @ rest) ops (entry_of a # vals) shell1"
  have "ends os ?Q (push_operator os st1 ?entry (\<lambda>st3. Inr (st3\<lparr>as_operand := True, as_rest := CHR '' '' # tree_text r @ rest\<rparr>)))"
  proof (rule ends_push_operator [OF st1])
    fix st2
    assume st2: "looks st2 False quiet (binary_spelling operator @ CHR '' '' # tree_text r @ rest) (?entry # ops) (entry_of a # vals) shell1"
    let ?st3 = "st2\<lparr>as_operand := True, as_rest := CHR '' '' # tree_text r @ rest\<rparr>"
    have "looks ?st3 True quiet (CHR '' '' # tree_text r @ rest) (?entry # ops) (entry_of a # vals) shell1"
      using st2 by (simp add: looks_def)
    then have "reaches os ?Q ?st3"
    proof (rule reads_right [OF right level(2) _ level(1)])
      show "binds ?level (en_operator ?entry)" using flags by (simp add: binds_def)
      show "?out = (Inl e, shell2)" if "tree_outcome os quiet r shell1 = (Inl e, shell2)" for e shell2
        using that left_out logical by (cases quiet) (auto simp: outcome_skipped outcome_read)
      show "ash_arithmetic_reduce os ?entry (entry_of b # entry_of a # vals) quiet shell2 =
          (case ?out of (Inl e, shell3) \<Rightarrow> (Inl e, shell3) | (Inr x, shell3) \<Rightarrow> (Inr (entry_of x # vals, quiet), shell3))"
        if right_out: "tree_outcome os quiet r shell1 = (Inr b, shell2)" for b shell2
      proof (cases quiet)
        case True
        then have q: "quiet = True" by simp
        have "?out = (if tree_targets_ok (Tree_Binary operator l r) then Inr (Value 0) else Inl (failure Invalid_Target), shell)"
          unfolding q by (rule outcome_skipped_value) simp
        then show ?thesis
          using left_out right_out logical reduce_binary_skipped [OF operator] unfolding q
          by (auto simp: outcome_skipped)
      next
        case False
        then have q: "quiet = False" by simp
        show ?thesis
          using left_out right_out logical reduce_binary_plain [OF operator logical] reduce_binary_assign [OF operator]
          unfolding q outcome_read by (cases "ash_arithmetic_assignment operator") simp_all
      qed
    qed
    then show "ends os ?Q (Inr ?st3)" by simp
  qed simp
  then show "ends os ?Q ((if arith_logical operator then resolve_top st1 else (\<lambda>continue. continue st1)) (\<lambda>st2.
      push_operator os st2 (operator_entry operator (as_suppressed st2)) (\<lambda>st3.
        let left = en_value (hd (sk_entries (as_values st3))) in
        Inr (st3\<lparr>as_suppressed :=
            (if arith_logical operator
             then as_suppressed st3 \<or> (if operator = Arith_Logical_Or then left \<noteq> 0 else left = 0)
             else as_suppressed st3),
          as_operand := True, as_rest := CHR '' '' # tree_text r @ rest\<rparr>))))"
    using logical st1 by (simp add: looks_def)
qed

text \<open>A logical operator decides from its first operand whether the second one is skipped.\<close>

lemma reads_logical_right:
  assumes wf: "tree_wf (Tree_Binary operator l r)" and logical: "arith_logical operator" and right: "tree_reads os r"
    and st: "looks st False quiet rest0 ops (left # vals) shell1"
    and mode: "mode \<longleftrightarrow> quiet \<or> (if operator = Arith_Logical_Or then en_value left \<noteq> 0 else en_value left = 0)"
    and failed: "\<And>e shell2. tree_outcome os mode r shell1 = (Inl e, shell2) \<Longrightarrow> out = (Inl e, shell2)"
    and reduced: "\<And>b shell2. tree_outcome os mode r shell1 = (Inr b, shell2) \<Longrightarrow>
      ash_arithmetic_reduce os (operator_entry operator quiet) (entry_of b # left # vals) mode shell2 =
      (case out of (Inl e, shell3) \<Rightarrow> (Inl e, shell3) | (Inr a, shell3) \<Rightarrow> (Inr (entry_of a # vals, quiet), shell3))"
  shows "ends os (reads os out (ash_arithmetic_precedence operator) quiet rest ops vals)
    (push_operator os st (operator_entry operator (as_suppressed st)) (\<lambda>st3.
      let left = en_value (hd (sk_entries (as_values st3))) in
      Inr (st3\<lparr>as_suppressed :=
          (if arith_logical operator
           then as_suppressed st3 \<or> (if operator = Arith_Logical_Or then left \<noteq> 0 else left = 0)
           else as_suppressed st3),
        as_operand := True, as_rest := CHR '' '' # tree_text r @ rest\<rparr>)))"
proof -
  let ?entry = "operator_entry operator quiet"
  let ?Q = "reads os out (ash_arithmetic_precedence operator) quiet rest ops vals"
  have operator: "arith_binary operator" using wf by simp
  have binds1: "binds (ash_arithmetic_precedence operator) (en_operator ?entry)"
    using binary_flags [OF operator] by (simp add: binds_def)
  have "as_suppressed st = quiet" using st by (simp add: looks_def)
  then show ?thesis
  proof (simp only:, intro ends_push_operator [OF st])
    fix st2
    assume st2: "looks st2 False quiet rest0 (?entry # ops) (left # vals) shell1"
    let ?st3 = "st2\<lparr>as_suppressed := mode, as_operand := True, as_rest := CHR '' '' # tree_text r @ rest\<rparr>"
    have "looks ?st3 True mode (CHR '' '' # tree_text r @ rest) (?entry # ops) (left # vals) shell1"
      using st2 by (simp add: looks_def)
    from reads_right [OF right right_fits(2) [OF wf] this right_fits(1) [OF wf] binds1 failed reduced]
    have "reaches os ?Q ?st3" .
    moreover have "(if arith_logical operator
        then as_suppressed st2 \<or> (if operator = Arith_Logical_Or then en_value (hd (sk_entries (as_values st2))) \<noteq> 0
          else en_value (hd (sk_entries (as_values st2))) = 0)
        else as_suppressed st2) = mode"
      using logical st2 mode by (simp add: looks_def)
    ultimately show "ends os ?Q (let left = en_value (hd (sk_entries (as_values st2))) in
      Inr (st2\<lparr>as_suppressed :=
          (if arith_logical operator
           then as_suppressed st2 \<or> (if operator = Arith_Logical_Or then left \<noteq> 0 else left = 0)
           else as_suppressed st2),
        as_operand := True, as_rest := CHR '' '' # tree_text r @ rest\<rparr>))"
      by (simp only: Let_def ends_simps)
  qed simp
qed

lemma reads_logical:
  assumes wf: "tree_wf (Tree_Binary operator l r)" and logical: "arith_logical operator"
    and left: "tree_reads os l" and right: "tree_reads os r"
    and fit: "fits (ash_arithmetic_precedence operator) ops"
    and st: "looks st True quiet (tree_text (Tree_Binary operator l r) @ rest) ops vals shell"
  shows "reaches os (reads os (tree_outcome os quiet (Tree_Binary operator l r) shell)
    (ash_arithmetic_precedence operator) quiet rest ops vals) st" (is "reaches os (reads os ?out ?level quiet rest ops vals) st")
proof (rule reads_operator [OF wf left fit st])
  let ?Q = "reads os ?out ?level quiet rest ops vals"
  let ?entry = "operator_entry operator quiet"
  have operator: "arith_binary operator" using wf by simp
  have plain: "\<not> ash_arithmetic_assignment operator" using binary_flags(9) [OF operator logical] .
  show "tolerant ?Q" by simp
  show "?Q (Inl (e, shell1))" if "tree_outcome os quiet l shell = (Inl e, shell1)" for e shell1
    using that by (cases quiet) (auto simp: reads_def outcome_skipped outcome_read)
  fix a shell1 st1
  assume left_out: "tree_outcome os quiet l shell = (Inr a, shell1)"
    and st1: "looks st1 False quiet (binary_spelling operator @ CHR '' '' # tree_text r @ rest) ops (entry_of a # vals) shell1"
  let ?continue = "\<lambda>st2. push_operator os st2 (operator_entry operator (as_suppressed st2)) (\<lambda>st3.
        let left = en_value (hd (sk_entries (as_values st3))) in
        Inr (st3\<lparr>as_suppressed :=
            (if arith_logical operator
             then as_suppressed st3 \<or> (if operator = Arith_Logical_Or then left \<noteq> 0 else left = 0)
             else as_suppressed st3),
          as_operand := True, as_rest := CHR '' '' # tree_text r @ rest\<rparr>))"
  have "ends os ?Q (resolve_top st1 ?continue)"
  proof (rule ends_resolve_top [OF st1])
    assume quiet: quiet
    then have q: "quiet = True" by simp
    have out: "?out = (if tree_targets_ok (Tree_Binary operator l r) then Inr (Value 0) else Inl (failure Invalid_Target), shell)"
      unfolding q by (rule outcome_skipped_value) simp
    have ok: "tree_targets_ok l" "shell1 = shell" using left_out unfolding q outcome_skipped by simp_all
    show "ends os ?Q (?continue st1)"
    proof (rule reads_logical_right [OF wf logical right st1, where mode = True])
      show "?out = (Inl e, shell2)" if "tree_outcome os True r shell1 = (Inl e, shell2)" for e shell2
        using that ok out by (simp add: outcome_skipped)
      show "ash_arithmetic_reduce os ?entry (entry_of b # entry_of a # vals) True shell2 =
          (case ?out of (Inl e, shell3) \<Rightarrow> (Inl e, shell3) | (Inr x, shell3) \<Rightarrow> (Inr (entry_of x # vals, quiet), shell3))"
        if "tree_outcome os True r shell1 = (Inr b, shell2)" for b shell2
        using that ok plain unfolding out by (simp add: outcome_skipped q reduce_binary_skipped [OF operator])
    qed (use quiet in simp)
  next
    fix e
    assume quiet: "\<not> quiet" and "operand_value a shell1 = (Inl e, shell1)"
    then show "?Q (Inl (e, shell1))" using left_out logical by (simp add: reads_def tree_outcome_def)
  next
    fix v entry st2
    assume quiet: "\<not> quiet" and v: "operand_value a shell1 = (Inr v, shell1)"
      and entry: "ash_arithmetic_resolve shell1 (entry_of a) = Inr entry" "en_value entry = v"
      and st2: "looks st2 False quiet (binary_spelling operator @ CHR '' '' # tree_text r @ rest) ops (entry # vals) shell1"
    have q: "quiet = False" using quiet by simp
    note reduce = reduce_binary_logical [OF operator logical entry]
    define skips where "skips \<longleftrightarrow> (v \<noteq> 0) = (operator = Arith_Logical_Or)"
    have decide: "skips \<longleftrightarrow> quiet \<or> (if operator = Arith_Logical_Or then en_value entry \<noteq> 0 else en_value entry = 0)"
      using q entry(2) by (simp add: skips_def)
    have out: "?out = (if skips then and_then (skip_tree r shell1) (\<lambda>_. give (truth (v \<noteq> 0)))
        else and_then (tree_value os r shell1) (\<lambda>b shell3. and_then (operand_value b shell3) (\<lambda>w. give (truth (w \<noteq> 0)))))"
      using left_out logical v unfolding q outcome_read by (simp add: skips_def)
    show "ends os ?Q (?continue st2)"
    proof (rule reads_logical_right [OF wf logical right st2 decide])
      show "?out = (Inl e, shell2)" if "tree_outcome os skips r shell1 = (Inl e, shell2)" for e shell2
        using that out by (cases skips) (auto simp: outcome_skipped outcome_read skip_tree_def)
      show "ash_arithmetic_reduce os ?entry (entry_of b # entry # vals) skips shell2 =
          (case ?out of (Inl e, shell3) \<Rightarrow> (Inl e, shell3) | (Inr x, shell3) \<Rightarrow> (Inr (entry_of x # vals, quiet), shell3))"
        if "tree_outcome os skips r shell1 = (Inr b, shell2)" for b shell2
        using that reduce unfolding out unfolding q
        by (cases skips) (auto simp: outcome_skipped outcome_read skip_tree_def skips_def)
    qed
  qed
  then show "ends os ?Q ((if arith_logical operator then resolve_top st1 else (\<lambda>continue. continue st1)) ?continue)"
    using logical by simp
qed

text \<open>The conditional operator.\<close>

abbreviation question_entry :: "bool \<Rightarrow> u64 \<Rightarrow> ash_arithmetic_entry" where
  "question_entry quiet condition \<equiv> (operator_entry Arith_Question quiet)\<lparr>en_value := condition\<rparr>"

abbreviation conditional_entry :: "bool \<Rightarrow> u64 \<Rightarrow> ash_arithmetic_entry" where
  "conditional_entry quiet condition \<equiv> (question_entry quiet condition)\<lparr>en_operator := Arith_Conditional\<rparr>"

lemma reads_branches:
  assumes b: "tree_reads os b" and c: "tree_reads os c" and level: "2 \<le> tree_level c"
    and st: "looks st True (quiet \<or> condition = 0) (CHR '' '' # tree_text b @ '': '' @ tree_text c @ rest)
      (question_entry quiet condition # ops) (left # vals) shell1"
    and failed_b: "\<And>e shell2. tree_outcome os (quiet \<or> condition = 0) b shell1 = (Inl e, shell2) \<Longrightarrow> out = (Inl e, shell2)"
    and failed_c: "\<And>x shell2 e shell3. tree_outcome os (quiet \<or> condition = 0) b shell1 = (Inr x, shell2) \<Longrightarrow>
      tree_outcome os (quiet \<or> condition \<noteq> 0) c shell2 = (Inl e, shell3) \<Longrightarrow> out = (Inl e, shell3)"
    and reduced: "\<And>x shell2 y shell3. tree_outcome os (quiet \<or> condition = 0) b shell1 = (Inr x, shell2) \<Longrightarrow>
      tree_outcome os (quiet \<or> condition \<noteq> 0) c shell2 = (Inr y, shell3) \<Longrightarrow>
      ash_arithmetic_reduce os (conditional_entry quiet condition) (entry_of y # entry_of x # left # vals) (quiet \<or> condition \<noteq> 0) shell3 =
      (case out of (Inl e, shell4) \<Rightarrow> (Inl e, shell4) | (Inr z, shell4) \<Rightarrow> (Inr (entry_of z # vals, quiet), shell4))"
  shows "reaches os (reads os out 2 quiet rest ops vals) st" (is "reaches os ?Q st")
proof (rule reaches_blank [OF st])
  fix st1
  let ?question = "question_entry quiet condition"
  let ?after = "CHR '':'' # CHR '' '' # tree_text c @ rest"
  assume "looks st1 True (quiet \<or> condition = 0) (tree_text b @ '': '' @ tree_text c @ rest) (?question # ops) (left # vals) shell1"
  then have st1: "looks st1 True (quiet \<or> condition = 0) (tree_text b @ ?after) (?question # ops) (left # vals) shell1" by simp
  have "fits (tree_level b) (?question # ops)" by (simp add: fits_def)
  from tree_readsD [OF b this st1] show "reaches os ?Q st1"
  proof (rule reads_then)
    show "?Q (Inl (e, shell2))" if "tree_outcome os (quiet \<or> condition = 0) b shell1 = (Inl e, shell2)" for e shell2
      using failed_b [OF that] by (simp add: reads_def)
    fix st2
    assume pend: "pending os (tree_outcome os (quiet \<or> condition = 0) b shell1) (tree_level b) (quiet \<or> condition = 0)
      ?after (?question # ops) (left # vals) st2"
    have step: "arith_step os st2 = step_colon os st2 (CHR '' '' # tree_text c @ rest)" "as_rest st2 \<noteq> []"
      using pending_looks(2,3) [OF pend _ refl] by (simp_all add: arith_space_def)
    have "ends os ?Q (step_colon os st2 (CHR '' '' # tree_text c @ rest))"
      unfolding step_colon_def
    proof (rule ends_reducing [OF pend])
      show "?Q (Inl (e, shell2))" if "tree_outcome os (quiet \<or> condition = 0) b shell1 = (Inl e, shell2)" for e shell2
        using failed_b [OF that] by (simp add: reads_def)
      fix x shell2 st3
      assume out_b: "tree_outcome os (quiet \<or> condition = 0) b shell1 = (Inr x, shell2)"
        and st3: "looks st3 False (quiet \<or> condition = 0) ?after (?question # ops) (entry_of x # left # vals) shell2"
      let ?entry = "conditional_entry quiet condition"
      define st4 where "st4 = st3\<lparr>as_operators := with_entries (as_operators st3) (?entry # ops),
        as_suppressed := quiet \<or> condition \<noteq> 0, as_operand := True, as_rest := CHR '' '' # tree_text c @ rest\<rparr>"
      have st4: "looks st4 True (quiet \<or> condition \<noteq> 0) (CHR '' '' # tree_text c @ rest) (?entry # ops) (entry_of x # left # vals) shell2"
        using st3 by (simp add: looks_def st4_def)
      have "reaches os ?Q st4"
        by (rule reads_right [OF c _ st4 level _ failed_c [OF out_b] reduced [OF out_b]])
          (use level in \<open>auto simp: fits_def binds_def\<close>)
      then show "ends os ?Q (case sk_entries (as_operators st3) of
          [] \<Rightarrow> fail_with (failure Unmatched_Colon) (as_shell st3)
        | question # operators \<Rightarrow>
            if en_operator question \<noteq> Arith_Question then fail_with (failure Unmatched_Colon) (as_shell st3)
            else Inr (st3\<lparr>as_operators := with_entries (as_operators st3) (question\<lparr>en_operator := Arith_Conditional\<rparr> # operators),
                as_suppressed := en_suppressed question \<or> en_value question \<noteq> 0, as_operand := True,
                as_rest := CHR '' '' # tree_text c @ rest\<rparr>))"
        using st3 by (simp add: looks_def st4_def)
    qed (auto simp: binds_def)
    then show "reaches os ?Q st2" using step by (intro reaches_step) simp_all
  qed simp
qed

lemma reduce_conditional:
  "ash_arithmetic_reduce os (conditional_entry True condition) (right # left # a # vals) quiet shell =
     (Inr (value_entry 0 # vals, True), shell)"
  "condition \<noteq> 0 \<Longrightarrow>
   ash_arithmetic_reduce os (conditional_entry False condition) (right # entry_of x # a # vals) quiet shell =
     (case and_then (operand_value x shell) give of
        (Inl e, shell4) \<Rightarrow> (Inl e, shell4) | (Inr z, shell4) \<Rightarrow> (Inr (entry_of z # vals, False), shell4))"
  "ash_arithmetic_reduce os (conditional_entry False 0) (entry_of y # left # a # vals) quiet shell =
     (case and_then (operand_value y shell) give of
        (Inl e, shell4) \<Rightarrow> (Inl e, shell4) | (Inr z, shell4) \<Rightarrow> (Inr (entry_of z # vals, False), shell4))"
proof -
  have flags: "\<not> ash_arithmetic_assignment Arith_Conditional" "\<not> arith_unary Arith_Conditional" "\<not> arith_logical Arith_Conditional"
    by (simp_all add: ash_arithmetic_assignment_def arith_unary_def arith_logical_def)
  show "ash_arithmetic_reduce os (conditional_entry True condition) (right # left # a # vals) quiet shell =
     (Inr (value_entry 0 # vals, True), shell)"
    using flags by (simp add: ash_arithmetic_reduce_def)
  show "ash_arithmetic_reduce os (conditional_entry False condition) (right # entry_of x # a # vals) quiet shell =
     (case and_then (operand_value x shell) give of
        (Inl e, shell4) \<Rightarrow> (Inl e, shell4) | (Inr z, shell4) \<Rightarrow> (Inr (entry_of z # vals, False), shell4))" if "condition \<noteq> 0"
    by (rule operand_value_cases [of x shell])
      (use flags that in \<open>simp_all add: ash_arithmetic_reduce_def arith_effect_def\<close>)
  show "ash_arithmetic_reduce os (conditional_entry False 0) (entry_of y # left # a # vals) quiet shell =
     (case and_then (operand_value y shell) give of
        (Inl e, shell4) \<Rightarrow> (Inl e, shell4) | (Inr z, shell4) \<Rightarrow> (Inr (entry_of z # vals, False), shell4))"
    by (rule operand_value_cases [of y shell])
      (use flags in \<open>simp_all add: ash_arithmetic_reduce_def arith_effect_def\<close>)
qed

lemma ends_question:
  assumes st: "looks st False quiet rest0 ops (left # vals) shell1" and "tolerant Q"
    and next1: "\<And>st1. looks st1 True (quiet \<or> en_value left = 0) cs (question_entry quiet (en_value left) # ops) (left # vals) shell1 \<Longrightarrow>
      reaches os Q st1"
  shows "ends os Q (let condition = en_value (hd (sk_entries (as_values st))) in
    push_operator os st (question_entry (as_suppressed st) condition) (\<lambda>st3.
      Inr (st3\<lparr>as_suppressed := as_suppressed st3 \<or> condition = 0, as_operand := True, as_rest := cs\<rparr>)))"
proof -
  have known: "as_suppressed st = quiet" "en_value (hd (sk_entries (as_values st))) = en_value left"
    using st by (simp_all add: looks_def)
  have "ends os Q (push_operator os st (question_entry quiet (en_value left)) (\<lambda>st3.
      Inr (st3\<lparr>as_suppressed := as_suppressed st3 \<or> en_value left = 0, as_operand := True, as_rest := cs\<rparr>)))"
  proof (rule ends_push_operator [OF st \<open>tolerant Q\<close>])
    fix st1
    assume "looks st1 False quiet rest0 (question_entry quiet (en_value left) # ops) (left # vals) shell1"
    then have "looks (st1\<lparr>as_suppressed := as_suppressed st1 \<or> en_value left = 0, as_operand := True, as_rest := cs\<rparr>)
        True (quiet \<or> en_value left = 0) cs (question_entry quiet (en_value left) # ops) (left # vals) shell1"
      by (simp add: looks_def)
    from next1 [OF this]
    show "ends os Q (Inr (st1\<lparr>as_suppressed := as_suppressed st1 \<or> en_value left = 0, as_operand := True, as_rest := cs\<rparr>))"
      by simp
  qed
  then show ?thesis by (simp only: Let_def known)
qed

lemma reads_conditional:
  assumes wf: "tree_wf (Tree_Conditional a b c)" and a: "tree_reads os a" and b: "tree_reads os b" and c: "tree_reads os c"
    and fit: "fits 2 ops" and st: "looks st True quiet (tree_text (Tree_Conditional a b c) @ rest) ops vals shell"
  shows "reaches os (reads os (tree_outcome os quiet (Tree_Conditional a b c) shell) 2 quiet rest ops vals) st"
    (is "reaches os (reads os ?out 2 quiet rest ops vals) st")
proof -
  let ?Q = "reads os ?out 2 quiet rest ops vals"
  let ?branches = "CHR '' '' # tree_text b @ '': '' @ tree_text c @ rest"
  let ?after = "CHR ''?'' # ?branches"
  have level: "2 < tree_level a" "2 \<le> tree_level c" using wf by simp_all
  have "looks st True quiet (tree_text a @ ?after) ops vals shell" using st by simp
  moreover have "fits (tree_level a) ops" using fits_mono [OF fit] level by simp
  ultimately have "reaches os (reads os (tree_outcome os quiet a shell) (tree_level a) quiet ?after ops vals) st"
    using tree_readsD [OF a] by blast
  then show ?thesis
  proof (rule reads_then)
    show failed: "?Q (Inl (e, shell1))" if "tree_outcome os quiet a shell = (Inl e, shell1)" for e shell1
      using that by (cases quiet) (auto simp: reads_def outcome_skipped outcome_read)
    fix st1
    assume pend: "pending os (tree_outcome os quiet a shell) (tree_level a) quiet ?after ops vals st1"
    have step: "arith_step os st1 = step_question os st1 ?branches" "as_rest st1 \<noteq> []"
      using pending_looks(2,3) [OF pend _ refl] by (simp_all add: arith_space_def)
    have "ends os ?Q (step_question os st1 ?branches)"
      unfolding step_question_def
    proof (rule ends_reducing [OF pend])
      show "case ops of [] \<Rightarrow> True | entry # _ \<Rightarrow>
          \<not> ash_arithmetic_precedence Arith_Question < ash_arithmetic_precedence (en_operator entry)"
        using fit by (auto simp: fits_def split: list.splits)
      fix x shell1 st2
      assume out_a: "tree_outcome os quiet a shell = (Inr x, shell1)" and st2: "looks st2 False quiet ?after ops (entry_of x # vals) shell1"
      show "ends os ?Q (resolve_top st2 (\<lambda>st2. let condition = en_value (hd (sk_entries (as_values st2))) in
          push_operator os st2 (question_entry (as_suppressed st2) condition) (\<lambda>st3.
            Inr (st3\<lparr>as_suppressed := as_suppressed st3 \<or> condition = 0, as_operand := True, as_rest := ?branches\<rparr>))))"
      proof (rule ends_resolve_top [OF st2])
        assume q: quiet
        then have q: "quiet = True" by simp
        have out: "?out = (if tree_targets_ok (Tree_Conditional a b c) then Inr (Value 0) else Inl (failure Invalid_Target), shell)"
          unfolding q by (rule outcome_skipped_value) simp
        have ok: "tree_targets_ok a" "shell1 = shell" using out_a unfolding q outcome_skipped by simp_all
        show "ends os ?Q (let condition = en_value (hd (sk_entries (as_values st2))) in
            push_operator os st2 (question_entry (as_suppressed st2) condition) (\<lambda>st3.
              Inr (st3\<lparr>as_suppressed := as_suppressed st3 \<or> condition = 0, as_operand := True, as_rest := ?branches\<rparr>)))"
        proof (rule ends_question [OF st2])
          fix st3
          assume st3: "looks st3 True (quiet \<or> en_value (entry_of x) = 0) ?branches
            (question_entry quiet (en_value (entry_of x)) # ops) (entry_of x # vals) shell1"
          show "reaches os ?Q st3"
            by (rule reads_branches [OF b c level(2) st3])
              (use ok in \<open>auto simp: out out [unfolded q] q outcome_skipped reduce_conditional\<close>)
        qed simp
      next
        fix e
        assume "\<not> quiet" and "operand_value x shell1 = (Inl e, shell1)"
        then show "?Q (Inl (e, shell1))" using out_a by (simp add: reads_def tree_outcome_def)
      next
        fix v entry st3
        assume quiet: "\<not> quiet" and v: "operand_value x shell1 = (Inr v, shell1)" and entry: "en_value entry = v"
          and st3: "looks st3 False quiet ?after ops (entry # vals) shell1"
        have q: "quiet = False" using quiet by simp
        have out: "tree_value os (Tree_Conditional a b c) shell = (if v \<noteq> 0 then
            and_then (tree_value os b shell1) (\<lambda>x shell3. and_then (skip_tree c shell3) (\<lambda>_ shell4. and_then (operand_value x shell4) give))
          else and_then (skip_tree b shell1) (\<lambda>_ shell3. and_then (tree_value os c shell3) (\<lambda>y shell4. and_then (operand_value y shell4) give)))"
          using out_a v unfolding q outcome_read by simp
        show "ends os ?Q (let condition = en_value (hd (sk_entries (as_values st3))) in
            push_operator os st3 (question_entry (as_suppressed st3) condition) (\<lambda>st3.
              Inr (st3\<lparr>as_suppressed := as_suppressed st3 \<or> condition = 0, as_operand := True, as_rest := ?branches\<rparr>)))"
        proof (rule ends_question [OF st3])
          fix st4
          assume st4: "looks st4 True (quiet \<or> en_value entry = 0) ?branches
            (question_entry quiet (en_value entry) # ops) (entry # vals) shell1"
          show "reaches os ?Q st4"
            by (rule reads_branches [OF b c level(2) st4]; cases "v = 0")
              (auto simp: q outcome_skipped outcome_read out skip_tree_def reduce_conditional entry simp del: tree_value.simps split: sum.splits prod.splits)
        qed simp
      qed
    qed (use level failed in \<open>auto simp: binds_def\<close>)
    then show "reaches os ?Q st1" using step by (intro reaches_step) simp_all
  qed simp
qed

text \<open>All trees.\<close>

lemma tree_reads_wf: "tree_wf e \<Longrightarrow> tree_reads os e"
proof (induction e)
  case (Tree_Number n)
  have "tree_outcome os quiet (Tree_Number n) shell = (Inr (Value (if quiet then 0 else of_nat n)), shell)" for quiet shell
    by (simp add: tree_outcome_def skip_tree_def skip_operand_def)
  then show ?case using reads_number [of n _ _ _ _ _ _ os 14] Tree_Number by (simp add: tree_reads_def)
next
  case Tree_Lowest
  have "tree_outcome os quiet Tree_Lowest shell = (Inr (Value (if quiet then 0 else LONG_MIN)), shell)" for quiet shell
    by (simp add: tree_outcome_def skip_tree_def skip_operand_def)
  then show ?case unfolding tree_reads_def using reads_lowest by simp
next
  case (Tree_Name x)
  have "tree_outcome os quiet (Tree_Name x) shell = (Inr (Name x), shell)" for quiet shell
    by (simp add: tree_outcome_def skip_tree_def skip_operand_def)
  then show ?case using reads_name [of x _ _ _ _ _ _ os 14] Tree_Name by (simp add: tree_reads_def)
next
  case (Tree_Paren e)
  then show ?case using reads_paren [of os e] by (simp add: tree_reads_def)
next
  case (Tree_Unary operator e)
  then show ?case using reads_unary [of os e operator] by (simp add: tree_reads_def)
next
  case (Tree_Binary operator l r)
  then have "tree_reads os l" "tree_reads os r" by simp_all
  then show ?case
    unfolding tree_reads_def [of os "Tree_Binary operator l r"] tree_level.simps
    using reads_plain [OF Tree_Binary.prems] reads_logical [OF Tree_Binary.prems] by blast
next
  case (Tree_Conditional a b c)
  then have "tree_reads os a" "tree_reads os b" "tree_reads os c" by simp_all
  then show ?case using reads_conditional [OF Tree_Conditional.prems, of os] unfolding tree_reads_def by simp
qed

section \<open>Memory\<close>

text \<open>
  When every allocation succeeds, the stacks have room for any text that fits in memory: each holds at most
  one entry for each character read.
\<close>

definition room :: "nat \<Rightarrow> arith_state \<Rightarrow> bool" where
  "room n st \<longleftrightarrow>
     length (sk_entries (as_operators st)) + length (as_rest st) \<le> n \<and> length (sk_entries (as_values st)) + length (as_rest st) \<le> n"

definition steady :: "nat \<Rightarrow> arith_outcome \<Rightarrow> bool" where
  "steady n r = (case r of Inl (e, _) \<Rightarrow> er_message e \<noteq> Out_Of_Memory | Inr st \<Rightarrow> room n st)"

lemma steady_simps [simp]: "steady n (Inl (e, shell)) \<longleftrightarrow> er_message e \<noteq> Out_Of_Memory" "steady n (Inr st) \<longleftrightarrow> room n st"
  by (simp_all add: steady_def)

lemma failure_message [simp]: "er_message (failure message) = message"
  by (simp add: failure_def)

lemma operation_not_memory: "arith_operation operator condition l r \<noteq> Inl Out_Of_Memory"
  by (cases operator) (simp_all add: checked_long_def arith_division_def arith_shift_def)

lemma digits_not_memory: "arith_digits base limit evaluate v cs \<noteq> Inl Out_Of_Memory"
  by (induction base limit evaluate v cs rule: arith_digits.induct) (auto split: option.splits)

lemma constant_not_memory: "ash_arithmetic_constant text1 limit evaluate \<noteq> Inl Out_Of_Memory"
  using digits_not_memory unfolding ash_arithmetic_constant_def by (auto simp: Let_def split: prod.splits sum.splits list.splits)

lemma resolve_not_memory: "ash_arithmetic_resolve shell entry = Inl e \<Longrightarrow> er_message e \<noteq> Out_Of_Memory"
  using constant_not_memory unfolding ash_arithmetic_resolve_def ash_arithmetic_variable_def
  by (auto simp: Let_def split: option.splits if_splits sum.splits list.splits prod.splits)

lemma effect_not_memory: "arith_effect os entry left right shell = (Inl e, shell1) \<Longrightarrow> er_message e \<noteq> Out_Of_Memory"
  using operation_not_memory resolve_not_memory unfolding arith_effect_def Let_def
  by (auto split: sum.splits if_splits prod.splits)

lemma reduce_steady:
  "ash_arithmetic_reduce os entry vals quiet shell = (Inl e, shell1) \<Longrightarrow> er_message e \<noteq> Out_Of_Memory"
  "ash_arithmetic_reduce os entry vals quiet shell = (Inr (vals1, quiet1), shell1) \<Longrightarrow> length vals1 \<le> length vals"
  unfolding ash_arithmetic_reduce_def Let_def
  by (auto dest: effect_not_memory split: if_splits prod.splits sum.splits)

lemma reduce_while_steady:
  "reduce_while os while1 ops vals quiet shell = (Inl e, shell1) \<Longrightarrow> er_message e \<noteq> Out_Of_Memory"
  "reduce_while os while1 ops vals quiet shell = (Inr (ops1, vals1, quiet1), shell1) \<Longrightarrow>
     length ops1 \<le> length ops \<and> length vals1 \<le> length vals"
proof (induction ops arbitrary: vals quiet shell)
  case (Cons entry ops)
  {
    case 1
    then show ?case using Cons.IH(1) reduce_steady(1) by (auto split: if_splits prod.splits sum.splits)
  next
    case 2
    then show ?case using Cons.IH(2) reduce_steady(2) by (fastforce split: if_splits prod.splits sum.splits)
  }
qed simp_all

lemma steady_reducing:
  assumes "\<And>st1. length (sk_entries (as_operators st1)) \<le> length (sk_entries (as_operators st)) \<Longrightarrow>
      length (sk_entries (as_values st1)) \<le> length (sk_entries (as_values st)) \<Longrightarrow> as_rest st1 = as_rest st \<Longrightarrow> steady n (continue st1)"
  shows "steady n (reducing os while1 st continue)"
  using assms reduce_while_steady unfolding reducing_def by (auto split: prod.splits sum.splits)

lemma push_served:
  assumes "\<forall>n. avail n" and "length (sk_entries stack) < 2 ^ 50"
  obtains stack1 where "ash_arithmetic_push avail stack entry = Some stack1" and "sk_entries stack1 = entry # sk_entries stack"
proof -
  have "\<not> (sk_capacity stack * 2 < sk_capacity stack \<or> sk_capacity stack * 2 > SIZE_MAX div 40)"
    if "of_nat (length (sk_entries stack)) = sk_capacity stack"
  proof -
    have "unat (sk_capacity stack) < 2 ^ 50"
      using that assms(2) unat_of_nat_64 [of "length (sk_entries stack)"] by simp
    moreover have "unat (sk_capacity stack * 2) = unat (sk_capacity stack) * 2"
      using calculation by (simp add: unat_word_ariths)
    ultimately show ?thesis by (simp add: word_less_nat_alt)
  qed
  then have "\<exists>stack1. ash_arithmetic_push avail stack entry = Some stack1 \<and> sk_entries stack1 = entry # sk_entries stack"
    using assms(1) by (simp add: ash_arithmetic_push_def Let_def)
  then show ?thesis using that by blast
qed

lemma steady_push_operator:
  assumes "\<forall>n. os_alloc os n" and "length (sk_entries (as_operators st)) < 2 ^ 50"
    and "\<And>st1. length (sk_entries (as_operators st1)) = Suc (length (sk_entries (as_operators st))) \<Longrightarrow> as_values st1 = as_values st \<Longrightarrow>
      as_rest st1 = as_rest st \<Longrightarrow> steady n (continue st1)"
  shows "steady n (push_operator os st entry continue)"
proof -
  obtain stack where "ash_arithmetic_push (os_alloc os) (as_operators st) entry = Some stack"
    "sk_entries stack = entry # sk_entries (as_operators st)" by (rule push_served [OF assms(1,2)])
  then show ?thesis using assms(3) [of "st\<lparr>as_operators := stack\<rparr>"] by (simp add: push_operator_def)
qed

lemma steady_push_value:
  assumes "\<forall>n. os_alloc os n" and "length (sk_entries (as_values st)) < 2 ^ 50"
    and "length (sk_entries (as_operators st)) + length (as_rest st) \<le> n" and "length (sk_entries (as_values st)) + length (as_rest st) < n"
  shows "steady n (push_value os st entry)"
proof -
  obtain stack where "ash_arithmetic_push (os_alloc os) (as_values st) entry = Some stack"
    "sk_entries stack = entry # sk_entries (as_values st)" by (rule push_served [OF assms(1,2)])
  then show ?thesis using assms(3,4) by (simp add: push_value_def room_def)
qed

lemma steady_resolve_top:
  assumes "\<And>st1. length (sk_entries (as_values st1)) \<le> Suc (length (sk_entries (as_values st)) - 1) \<Longrightarrow>
      as_operators st1 = as_operators st \<Longrightarrow> as_rest st1 = as_rest st \<Longrightarrow> steady n (continue st1)"
  shows "steady n (resolve_top st continue)"
  using assms resolve_not_memory unfolding resolve_top_def by (auto split: sum.splits)


lemma step_operand_steady:
  assumes served: "\<forall>n. os_alloc os n" and n: "n < 2 ^ 50" and room: "room n st" and rest: "as_rest st = c # cs"
  shows "steady n (step_operand os st c cs)"
proof -
  have small: "length (sk_entries (as_operators st)) < 2 ^ 50" "length (sk_entries (as_values st)) < 2 ^ 50"
    using room n by (simp_all add: room_def)
  have operator: "steady n (push_operator os st entry (\<lambda>st1. Inr (st1\<lparr>as_rest := cs\<rparr>)))" for entry
    by (rule steady_push_operator [OF served small(1)]) (use room rest in \<open>simp add: room_def\<close>)
  have value1: "steady n (push_value os (st\<lparr>as_rest := rest1\<rparr>) entry)" if "length rest1 \<le> length cs" for entry rest1
    by (rule steady_push_value [OF served]) (use that room rest small in \<open>simp_all add: room_def\<close>)
  have lowest: "steady n (push_value os (st\<lparr>as_rest := rest1, as_operators :=
      with_entries (as_operators st) (tl (sk_entries (as_operators st)))\<rparr>) entry)" if "length rest1 \<le> length cs" for entry rest1
  proof (rule steady_push_value [OF served])
    have "length (sk_entries (as_operators st)) + length rest1 \<le> n" using that room rest by (simp add: room_def)
    then show "length (sk_entries (as_operators (st\<lparr>as_rest := rest1, as_operators :=
        with_entries (as_operators st) (tl (sk_entries (as_operators st)))\<rparr>))) +
      length (as_rest (st\<lparr>as_rest := rest1, as_operators := with_entries (as_operators st) (tl (sk_entries (as_operators st)))\<rparr>)) \<le> n"
      by simp
  qed (use that room rest small in \<open>simp_all add: room_def\<close>)
  define limit :: u64 where "limit = LONG_MAX + (if top_is_neg st then 1 else 0)"
  have digits: "steady n (case ash_arithmetic_constant (c # cs) limit (\<not> as_suppressed st) of
      Inl message \<Rightarrow> fail_with (failure message) (as_shell st)
    | Inr (magnitude, rest1) \<Rightarrow>
        if magnitude > LONG_MAX then
          push_value os (st\<lparr>as_rest := rest1, as_operators :=
            with_entries (as_operators st) (tl (sk_entries (as_operators st)))\<rparr>) (value_entry LONG_MIN)
        else push_value os (st\<lparr>as_rest := rest1\<rparr>) (value_entry magnitude))"
  proof (cases "ash_arithmetic_constant (c # cs) limit (\<not> as_suppressed st)")
    case (Inl message)
    then show ?thesis using constant_not_memory [of "c # cs" limit "\<not> as_suppressed st"] by simp
  next
    case (Inr r)
    then obtain magnitude rest1 where r: "r = (magnitude, rest1)" by (cases r)
    then have "length rest1 \<le> length cs" using constant_shorter [of "c # cs" limit _ magnitude rest1] Inr by fastforce
    then show ?thesis using value1 lowest Inr r by simp
  qed
  show ?thesis
    using operator value1 [OF length_dropWhile_le] digits
    unfolding step_operand_def limit_def [symmetric] by (simp split: option.split)
qed

lemma arith_step_steady:
  assumes served: "\<forall>n. os_alloc os n" and n: "n < 2 ^ 50" and room: "room n st" and more: "as_rest st \<noteq> []"
  shows "steady n (arith_step os st)"
proof -
  from more obtain c cs where rest: "as_rest st = c # cs" by (cases "as_rest st") auto
  have small: "length (sk_entries (as_operators st1)) < 2 ^ 50"
    if "length (sk_entries (as_operators st1)) \<le> length (sk_entries (as_operators st))" for st1 :: arith_state
    using that room n by (simp add: room_def)
  have close: "steady n (step_close os st cs)"
    unfolding step_close_def
    by (rule steady_reducing) (use room rest in \<open>auto simp: room_def split: list.splits\<close>)
  have colon: "steady n (step_colon os st cs)"
    unfolding step_colon_def
    by (rule steady_reducing) (use room rest in \<open>auto simp: room_def split: list.splits\<close>)
  have question: "steady n (step_question os st cs)"
    unfolding step_question_def
  proof (rule steady_reducing, rule steady_resolve_top, unfold Let_def, rule steady_push_operator [OF served])
    fix st1 st2 :: arith_state
    assume st1: "length (sk_entries (as_operators st1)) \<le> length (sk_entries (as_operators st))"
      "length (sk_entries (as_values st1)) \<le> length (sk_entries (as_values st))" "as_rest st1 = as_rest st"
      and st2: "length (sk_entries (as_values st2)) \<le> Suc (length (sk_entries (as_values st1)) - 1)"
      "as_operators st2 = as_operators st1" "as_rest st2 = as_rest st1"
    show "length (sk_entries (as_operators st2)) < 2 ^ 50" using small [of st1] st1 st2 by simp
    fix st3 :: arith_state
    assume st3: "length (sk_entries (as_operators st3)) = Suc (length (sk_entries (as_operators st2)))"
      "as_values st3 = as_values st2" "as_rest st3 = as_rest st2"
    then show "steady n (Inr (st3\<lparr>as_suppressed := as_suppressed st3 \<or> en_value (hd (sk_entries (as_values st2))) = 0,
        as_operand := True, as_rest := cs\<rparr>))"
      using st1 st2 room rest by (auto simp: room_def)
  qed
  have binary: "steady n (step_binary os st)"
  proof (cases "ash_arithmetic_binary (as_rest st)")
    case None
    then show ?thesis by (simp add: step_binary_def)
  next
    case (Some found)
    then obtain operator rest1 where found: "ash_arithmetic_binary (as_rest st) = Some (operator, rest1)" by (cases found) auto
    have shorter: "length rest1 < length (as_rest st)" by (rule binary_shorter [OF found])
    show ?thesis
      unfolding step_binary_def found option.case prod.case
    proof (rule steady_reducing)
      fix st1 :: arith_state
      assume st1: "length (sk_entries (as_operators st1)) \<le> length (sk_entries (as_operators st))"
        "length (sk_entries (as_values st1)) \<le> length (sk_entries (as_values st))" "as_rest st1 = as_rest st"
      let ?continue = "\<lambda>st2. push_operator os st2 (operator_entry operator (as_suppressed st2)) (\<lambda>st3.
          let left = en_value (hd (sk_entries (as_values st3))) in
          Inr (st3\<lparr>as_suppressed :=
              (if arith_logical operator
               then as_suppressed st3 \<or> (if operator = Arith_Logical_Or then left \<noteq> 0 else left = 0)
               else as_suppressed st3),
            as_operand := True, as_rest := rest1\<rparr>))"
      have next1: "steady n (?continue st2)"
        if "length (sk_entries (as_values st2)) \<le> Suc (length (sk_entries (as_values st1)))"
          "length (sk_entries (as_values st2)) \<le> Suc (length (sk_entries (as_values st1)) - 1) \<or> st2 = st1"
          "as_operators st2 = as_operators st1" "as_rest st2 = as_rest st1" for st2 :: arith_state
        by (rule steady_push_operator [OF served])
          (use small [of st1] st1 that room shorter in \<open>auto simp: room_def Let_def\<close>)
      show "steady n ((if arith_logical operator then resolve_top st1 else (\<lambda>continue. continue st1)) ?continue)"
      proof (cases "arith_logical operator")
        case True
        have "steady n (resolve_top st1 ?continue)" by (rule steady_resolve_top) (use next1 in auto)
        then show ?thesis using True by simp
      next
        case False
        then show ?thesis using next1 [of st1] by simp
      qed
    qed
  qed
  have blank: "room n (st\<lparr>as_rest := cs\<rparr>)" using room rest by (simp add: room_def)
  show ?thesis
    using step_operand_steady [OF served n room rest] close colon question binary blank rest by (simp add: arith_step_def)
qed

lemma arith_loop_steady:
  assumes "\<forall>n. os_alloc os n" and "n < 2 ^ 50" and "room n st"
  shows "steady n (arith_loop os st)"
  using assms
proof (induction os st rule: arith_loop.induct)
  case (1 os st)
  show ?case
  proof (cases "as_rest st = []")
    case True
    then show ?thesis using 1 by (simp add: arith_loop.simps [of os st])
  next
    case False
    have "steady n (arith_step os st)" using arith_step_steady 1 False by blast
    then show ?thesis using 1 False by (cases "arith_step os st") (auto simp: arith_loop.simps [of os st])
  qed
qed

section \<open>The evaluator computes the meaning\<close>

lemma evaluate_or_memory:
  assumes "tree_wf e"
  shows "ash_arithmetic_evaluate os shell (tree_text e) = tree_result os e shell \<or>
    (\<exists>shell1. arith_loop os (arith_start (tree_text e) shell) = Inl (failure Out_Of_Memory, shell1))"
proof -
  let ?start = "arith_start (tree_text e) shell"
  let ?Q = "reads os (tree_value os e shell) (tree_level e) False [] [] []"
  have "looks ?start True False (tree_text e @ []) [] [] shell"
    by (simp add: looks_def arith_start_def ash_arithmetic_stack_init_def)
  then have "reaches os ?Q ?start"
    using tree_readsD [OF tree_reads_wf [OF assms]] unfolding outcome_read [symmetric] by (simp add: fits_def)
  then consider failed where "arith_loop os ?start = Inl failed" "?Q (Inl failed)"
    | st where "?Q (Inr st)" "arith_loop os ?start = arith_loop os st"
    using reaches_loop by blast
  then show ?thesis
  proof cases
    case 1
    then show ?thesis
      by (cases failed) (auto simp: reads_def ash_arithmetic_evaluate_def tree_result_def)
  next
    case 2
    then have pend: "pending os (tree_value os e shell) (tree_level e) False [] [] [] st" by (simp add: reads_def)
    then obtain pend quiet1 vals1 shell1 where st: "looks st False quiet1 [] pend vals1 shell1"
      and red: "reduces_to os pend vals1 quiet1 shell1 (tree_value os e shell) [] False"
      by (auto simp: pending_def)
    have "arith_loop os st = Inr st" using st by (simp add: arith_loop.simps [of os st] looks_def)
    then have "ash_arithmetic_evaluate os shell (tree_text e) = arith_finish os st"
      using 2 by (simp add: ash_arithmetic_evaluate_def)
    also have "\<dots> = tree_result os e shell"
    proof -
      obtain r shell2 where out: "tree_value os e shell = (r, shell2)" by force
      show ?thesis
      proof (cases r)
        case (Inl x)
        then show ?thesis using st red out by (simp add: arith_finish_def looks_def reduces_to_def tree_result_def)
      next
        case (Inr a)
        show ?thesis
          by (rule operand_value_cases [of a shell2])
            (use st red out Inr in \<open>simp_all add: arith_finish_def looks_def reduces_to_def tree_result_def\<close>)
      qed
    qed
    finally show ?thesis by simp
  qed
qed

text \<open>
  C34: evaluating the text of any well-formed expression gives the meaning of the expression: its value or its
  error, and the same assignments in the same order; what \<open>&&\<close>, \<open>||\<close> and \<open>?:\<close> skip has no effect.
\<close>

theorem arithmetic_evaluates_tree:
  assumes wf: "tree_wf e" and served: "\<forall>n. os_alloc os n" and size1: "length (tree_text e) < 2 ^ 50"
  shows "ash_arithmetic_evaluate os shell (tree_text e) = tree_result os e shell"
proof -
  let ?start = "arith_start (tree_text e) shell"
  have "room (length (tree_text e)) ?start"
    by (simp add: room_def arith_start_def ash_arithmetic_stack_init_def)
  then have "steady (length (tree_text e)) (arith_loop os ?start)"
    by (rule arith_loop_steady [OF served size1])
  then show ?thesis using evaluate_or_memory [OF wf, of os shell] by auto
qed

lemma arithmetic_evaluates_tree_witness:
  "ash_arithmetic_evaluate sample_os (with_global [] (\<lambda>_. None)) ''( 1 + 2 ) * 3 '' = (Inr 9, with_global [] (\<lambda>_. None))"
  using arithmetic_evaluates_tree [of "Tree_Binary Arith_Mul (Tree_Paren (Tree_Binary Arith_Add (Tree_Number 1) (Tree_Number 2))) (Tree_Number 3)"
      sample_os "with_global [] (\<lambda>_. None)"]
  by (simp add: sample_os_def arith_spellings_def ash_arithmetic_assignment_def arith_logical_def binary_spelling_def
      dec_of_nat.simps digit_char_literals tree_result_def operand_value_def apply_operator_def checked_long_def long_fits_def)

text \<open>A skipped assignment, evaluated.\<close>

lemma skipped_assignment:
  "tree_result os (Tree_Binary Arith_Logical_Or (Tree_Number 1) (Tree_Paren (Tree_Binary Arith_Assign (Tree_Name x) (Tree_Number 2)))) shell =
     (Inr 1, shell)"
  by (simp add: tree_result_def arith_logical_def operand_value_def skip_tree_def truth_def)

section \<open>The operand that a token reads\<close>

text \<open>After an operand there is a value on the stack, and reductions leave one there.\<close>

definition has_operand :: "arith_state \<Rightarrow> bool" where
  "has_operand st \<longleftrightarrow> as_operand st \<or> sk_entries (as_values st) \<noteq> []"

lemma reduce_leaves_value:
  "reduce_while os while1 ops vals quiet shell = (Inr (ops1, vals1, quiet1), shell1) \<Longrightarrow> vals \<noteq> [] \<Longrightarrow> vals1 \<noteq> []"
proof (induction ops arbitrary: vals quiet shell)
  case (Cons entry ops)
  have "vals2 \<noteq> []" if "ash_arithmetic_reduce os entry vals quiet shell = (Inr (vals2, quiet2), shell2)" for vals2 quiet2 shell2
    using that unfolding ash_arithmetic_reduce_def Let_def by (auto split: if_splits prod.splits sum.splits)
  then show ?case using Cons by (fastforce split: if_splits prod.splits sum.splits)
qed simp

lemma reducing_result:
  assumes "reducing os while1 st continue = Inr st2" and "sk_entries (as_values st) \<noteq> []"
  obtains st1 where "continue st1 = Inr st2" and "sk_entries (as_values st1) \<noteq> []" and "as_operand st1 = as_operand st"
  using assms(1) reduce_leaves_value [OF _ assms(2)] unfolding reducing_def by (fastforce split: prod.splits sum.splits)

lemma arith_step_operand_kept:
  assumes step: "arith_step os st = Inr st2" and inv: "has_operand st"
  shows "has_operand st2"
proof (cases "as_rest st")
  case Nil
  then show ?thesis using step inv by (simp add: arith_step_def)
next
  case (Cons c cs)
  have pushed: "has_operand st2" if "push_value os st1 entry = Inr st2" for st1 entry
    using that by (auto simp: push_value_def has_operand_def ash_arithmetic_push_def Let_def split: option.splits if_splits)
  show ?thesis
  proof (cases "as_operand st")
    case True
    have "has_operand st2" if "step_operand os st c cs = Inr st2"
      using that pushed True unfolding step_operand_def
      by (auto simp: push_operator_def has_operand_def split: option.splits if_splits sum.splits)
    then show ?thesis using step inv Cons True by (auto simp: arith_step_def has_operand_def split: if_splits)
  next
    case False
    then have vals: "sk_entries (as_values st) \<noteq> []" using inv by (simp add: has_operand_def)
    have close: "has_operand st2" if "step_close os st cs = Inr st2"
      using that unfolding step_close_def
      by (auto elim!: reducing_result [OF _ vals] simp: has_operand_def split: list.splits)
    have colon: "has_operand st2" if "step_colon os st cs = Inr st2"
      using that unfolding step_colon_def
      by (auto elim!: reducing_result [OF _ vals] simp: has_operand_def split: list.splits if_splits)
    have question: "has_operand st2" if "step_question os st cs = Inr st2"
      using that unfolding step_question_def Let_def
      by (auto elim!: reducing_result [OF _ vals] resolve_top_cases push_operator_cases simp: has_operand_def)
    have binary: "has_operand st2" if "step_binary os st = Inr st2"
      using that unfolding step_binary_def Let_def
      by (auto elim!: reducing_result [OF _ vals] resolve_top_cases push_operator_cases simp: has_operand_def
          split: option.splits if_splits)
    have blank: "has_operand (st\<lparr>as_rest := cs\<rparr>)" using inv by (simp add: has_operand_def)
    have "arith_step os st \<in> {Inr (st\<lparr>as_rest := cs\<rparr>), fail_with (failure Unsupported_Operator) (as_shell st),
        step_close os st cs, step_colon os st cs, step_question os st cs, step_binary os st}"
      using Cons False by (simp add: arith_step_def)
    then show ?thesis using step close colon question binary blank by auto
  qed
qed

text \<open>
  C35: on every text, also a malformed one, the evaluator looks at the value on top of its stack only when
  there is one: after an operand the stack of values is not empty, and the reductions that a token starts
  leave it so.
\<close>

theorem arith_value_present:
  assumes reached: "(\<lambda>st1 st2. arith_step os st1 = Inr st2)\<^sup>*\<^sup>* (arith_start expression shell) st" and operand: "\<not> as_operand st"
  shows "sk_entries (as_values st) \<noteq> [] \<and>
    reduce_while os while1 (sk_entries (as_operators st)) (sk_entries (as_values st)) (as_suppressed st) (as_shell st) \<noteq>
      (Inr (operators, [], suppressed), shell1)"
proof -
  have "has_operand st"
    using reached
  proof (induction rule: rtranclp_induct)
    case base
    then show ?case by (simp add: has_operand_def arith_start_def)
  qed (blast intro: arith_step_operand_kept)
  then have vals: "sk_entries (as_values st) \<noteq> []" using operand by (simp add: has_operand_def)
  then show ?thesis using reduce_leaves_value [OF _ vals] by blast
qed

lemma arith_value_present_witness:
  "sk_entries (as_values (arith_start '''' shell_with_x)) = [] \<and>
   (case arith_step sample_os (arith_start ''7'' shell_with_x) of Inl _ \<Rightarrow> False | Inr st \<Rightarrow> sk_entries (as_values st) \<noteq> [])"
proof -
  have step: "\<exists>st. arith_step sample_os (arith_start ''7'' shell_with_x) = Inr st \<and> \<not> as_operand st"
    by (simp add: arith_step_def arith_start_def arith_space_def step_operand_def prefix_operator_def ash_is_name_start_def
        less_eq_char_def top_is_neg_def ash_arithmetic_stack_init_def ash_arithmetic_constant_def constant_prefix_def
        ash_arithmetic_digit_def constant_suffix_def skip_unsigned_def skip_long_def push_value_def ash_arithmetic_push_def value_entry_def)
  then obtain st where st: "arith_step sample_os (arith_start ''7'' shell_with_x) = Inr st" "\<not> as_operand st" by blast
  have "(\<lambda>st1 st2. arith_step sample_os st1 = Inr st2)\<^sup>*\<^sup>* (arith_start ''7'' shell_with_x) st" using st(1) by blast
  from arith_value_present [OF this st(2)] show ?thesis
    using st(1) by (simp add: arith_start_def ash_arithmetic_stack_init_def)
qed

end
