(* ===== verification/ShellPattern.thy ===== *)
theory ShellPattern
  imports CLocale
begin

text \<open>
  Shell patterns (\<open>src/src/applets/shell/ash/pattern.c\<close>): a pattern is compiled into a list of terms, and
  the matcher goes over the terms and the bytes of a text with one place to go back to, the last \<open>*\<close>.

  The model is that of a locale whose characters are single bytes (\<open>MB_CUR_MAX\<close> is 1), with the letters of
  the C locale; a conversion then never fails. What \<open>fnmatch\<close> says of a bracket expression and one byte is a
  parameter, and so is the allocator. A position in the source text is the text that is left there; a
  position in the matched text is an index.
\<close>

unbundle bit_operations_syntax

section \<open>Options, terms and patterns\<close>

datatype ash_pattern_purpose =
    Pattern_Case | Pattern_Pathname_Expansion | Pattern_Parameter_Remove | Pattern_Parameter_Substitute
  | Pattern_Conditional | Pattern_Globignore | Pattern_Completion

datatype ash_pattern_domain = Pattern_String | Pattern_Pathname

abbreviation PATTERN_EXTGLOB :: u32 where "PATTERN_EXTGLOB \<equiv> 1"
abbreviation PATTERN_GLOBSTAR :: u32 where "PATTERN_GLOBSTAR \<equiv> 2"
abbreviation PATTERN_CASE_INSENSITIVE :: u32 where "PATTERN_CASE_INSENSITIVE \<equiv> 4"
abbreviation PATTERN_MATCH_DOTFILES :: u32 where "PATTERN_MATCH_DOTFILES \<equiv> 8"
abbreviation PATTERN_ASCII_RANGES :: u32 where "PATTERN_ASCII_RANGES \<equiv> 16"
abbreviation PATTERN_FLAG_ALL :: u32 where "PATTERN_FLAG_ALL \<equiv> 31"

abbreviation REQUIRES_EXTGLOB :: u32 where "REQUIRES_EXTGLOB \<equiv> 1"
abbreviation REQUIRES_GLOBSTAR :: u32 where "REQUIRES_GLOBSTAR \<equiv> 2"
abbreviation REQUIRES_ASCII_RANGES :: u32 where "REQUIRES_ASCII_RANGES \<equiv> 4"

definition PATTERN_MAX_NESTING :: nat where "PATTERN_MAX_NESTING = 64"

record ash_pattern_options =
  po_purpose :: ash_pattern_purpose
  po_domain :: ash_pattern_domain
  po_flags :: u32

datatype ash_extglob_operator =
    Extglob_Zero_Or_One | Extglob_Zero_Or_More | Extglob_One_Or_More | Extglob_One_Of | Extglob_None_Of

text \<open>Each term has the offset of its source; the expression of an extended term is its list of alternatives.\<close>

datatype ash_pattern_term =
    Pattern_Literal nat string
  | Pattern_Any_String nat
  | Pattern_Any_Character nat
  | Pattern_Bracket nat string
  | Pattern_Path_Separator nat
  | Pattern_Globstar_Term nat
  | Pattern_Extglob_Term nat ash_extglob_operator "ash_pattern_term list list"

record ash_pattern =
  pa_options :: ash_pattern_options
  pa_root :: "ash_pattern_term list"
  pa_source :: string
  pa_required_features :: u32

datatype ash_pattern_compile_result = Compile_Ok | Compile_Invalid | Compile_Limit | Compile_No_Memory

datatype ash_pattern_match_result = Pattern_Match | Pattern_No_Match | Pattern_Match_Unsupported | Pattern_Match_Error

definition has_flag :: "ash_pattern_options \<Rightarrow> u32 \<Rightarrow> bool" where
  "has_flag options flag \<longleftrightarrow> po_flags options AND flag \<noteq> 0"

definition ash_pattern_options_valid :: "ash_pattern_options \<Rightarrow> bool" where
  "ash_pattern_options_valid options \<longleftrightarrow>
     po_flags options AND NOT PATTERN_FLAG_ALL = 0 \<and>
     (po_purpose options \<in> {Pattern_Pathname_Expansion, Pattern_Globignore} \<longrightarrow> po_domain options = Pattern_Pathname) \<and>
     (po_purpose options \<in> {Pattern_Case, Pattern_Parameter_Remove, Pattern_Parameter_Substitute, Pattern_Conditional} \<longrightarrow>
       po_domain options = Pattern_String) \<and>
     (has_flag options (PATTERN_GLOBSTAR OR PATTERN_MATCH_DOTFILES) \<longrightarrow> po_domain options = Pattern_Pathname)"

section \<open>Compilation\<close>

text \<open>The reasons for a failure, by the error number that tells them apart.\<close>

datatype pattern_failure = Pattern_ELOOP | Pattern_EINVAL | Pattern_ENOMEM

definition ash_pattern_compile_failure :: "pattern_failure \<Rightarrow> ash_pattern_compile_result" where
  "ash_pattern_compile_failure failed =
     (if failed = Pattern_ELOOP then Compile_Limit
      else if failed = Pattern_ENOMEM then Compile_No_Memory else Compile_Invalid)"

function pattern_grown :: "nat \<Rightarrow> nat \<Rightarrow> nat" where
  "pattern_grown grown needed =
     (if grown \<ge> needed \<or> grown = 0 then grown
      else if grown > size_max div 2 then needed
      else pattern_grown (grown * 2) needed)"
  by pat_completeness auto
termination by (relation "measure (\<lambda>(grown, needed). needed - grown)") auto

declare pattern_grown.simps [simp del]

text \<open>The new capacity; \<open>None\<close> when memory is short.\<close>

definition ash_pattern_grow :: "(nat \<Rightarrow> bool) \<Rightarrow> nat \<Rightarrow> nat \<Rightarrow> nat \<Rightarrow> nat option" where
  "ash_pattern_grow avail capacity needed item_size =
     (if capacity \<ge> needed then Some capacity
      else
        let grown = pattern_grown (if capacity = 0 then 4 else capacity) needed in
        if item_size \<noteq> 0 \<and> grown > size_max div item_size then None
        else if avail (grown * item_size) then Some grown
        else None)"

text \<open>
  A sequence that is being compiled: its terms and the capacity of their array. The sizes of a term, a
  sequence and an expression are 32, 24 and 24 bytes.
\<close>

type_synonym pattern_sequence = "ash_pattern_term list \<times> nat"

definition ash_pattern_sequence_take_term :: "(nat \<Rightarrow> bool) \<Rightarrow> pattern_sequence \<Rightarrow> ash_pattern_term \<Rightarrow> pattern_sequence option" where
  "ash_pattern_sequence_take_term avail sequence term1 =
     (case sequence of
        (terms, capacity) \<Rightarrow>
          (case ash_pattern_grow avail capacity (length terms + 1) 32 of
             None \<Rightarrow> None
           | Some capacity1 \<Rightarrow> Some (terms @ [term1], capacity1)))"

definition ends_in_literal :: "ash_pattern_term list \<Rightarrow> bool" where
  "ends_in_literal terms \<longleftrightarrow> terms \<noteq> [] \<and> (case last terms of Pattern_Literal _ _ \<Rightarrow> True | _ \<Rightarrow> False)"

definition extend_literal :: "(nat \<Rightarrow> bool) \<Rightarrow> string \<Rightarrow> pattern_sequence \<Rightarrow> pattern_sequence option" where
  "extend_literal avail text1 sequence =
     (case sequence of
        (terms, capacity) \<Rightarrow>
          (case last terms of
             Pattern_Literal offset text0 \<Rightarrow>
               if length text1 > size_max - length text0 - 1 then None
               else if \<not> avail (length text0 + length text1 + 1) then None
               else Some (butlast terms @ [Pattern_Literal offset (text0 @ text1)], capacity)
           | _ \<Rightarrow> Some sequence))"

definition ash_pattern_append_literal :: "(nat \<Rightarrow> bool) \<Rightarrow> pattern_sequence \<Rightarrow> nat \<Rightarrow> string \<Rightarrow> pattern_sequence option" where
  "ash_pattern_append_literal avail sequence source_offset text1 =
     (if ends_in_literal (fst sequence) then extend_literal avail text1 sequence
      else case ash_pattern_sequence_take_term avail sequence (Pattern_Literal source_offset []) of
          None \<Rightarrow> None
        | Some sequence1 \<Rightarrow> extend_literal avail text1 sequence1)"

definition ash_pattern_copy_span :: "(nat \<Rightarrow> bool) \<Rightarrow> string \<Rightarrow> string option" where
  "ash_pattern_copy_span avail text1 =
     (if length text1 = size_max then None else if avail (length text1 + 1) then Some text1 else None)"

definition ash_pattern_extglob_operator :: "char \<Rightarrow> ash_extglob_operator option" where
  "ash_pattern_extglob_operator character =
     (if character = CHR ''?'' then Some Extglob_Zero_Or_One
      else if character = CHR ''*'' then Some Extglob_Zero_Or_More
      else if character = CHR ''+'' then Some Extglob_One_Or_More
      else if character = CHR ''@'' then Some Extglob_One_Of
      else if character = CHR ''!'' then Some Extglob_None_Of
      else None)"

abbreviation BACKSLASH :: char where "BACKSLASH \<equiv> CHR 0x5C"

text \<open>
  The text after the end of a notation such as \<open>[:alpha:]\<close>; the argument is the text after its \<open>[:\<close>.
\<close>

fun notation_end :: "char \<Rightarrow> string \<Rightarrow> string option" where
  "notation_end kind (c # d # cs) =
     (if c = BACKSLASH then notation_end kind cs
      else if c = kind \<and> d = CHR '']'' then Some cs
      else notation_end kind (d # cs))"
| "notation_end kind cs = None"

definition ash_pattern_notation_end :: "string \<Rightarrow> string option" where
  "ash_pattern_notation_end text1 = (case text1 of _ # kind # cs \<Rightarrow> notation_end kind cs | _ \<Rightarrow> None)"

definition opens_notation :: "string \<Rightarrow> bool" where
  "opens_notation text1 \<longleftrightarrow>
     (case text1 of c # kind # cs \<Rightarrow> c = CHR ''['' \<and> kind \<in> {CHR ''.'', CHR ''='', CHR '':''} | _ \<Rightarrow> False)"

lemma notation_end_shorter: "notation_end kind cs = Some rest \<Longrightarrow> length rest < length cs"
  by (induction kind cs rule: notation_end.induct) (auto split: if_splits)

lemma ash_pattern_notation_end_shorter: "ash_pattern_notation_end cs = Some rest \<Longrightarrow> length rest < length cs"
  by (auto simp: ash_pattern_notation_end_def dest: notation_end_shorter split: list.splits)

text \<open>The search for the \<open>]\<close> of a bracket expression; \<open>None\<close> when there is none.\<close>

function bracket_end_loop :: "string \<Rightarrow> string option" where
  "bracket_end_loop [] = None"
| "bracket_end_loop (c # cs) =
     (if c = BACKSLASH \<and> cs \<noteq> [] then bracket_end_loop (tl cs)
      else case (if opens_notation (c # cs) then ash_pattern_notation_end (c # cs) else None) of
          Some rest \<Rightarrow> bracket_end_loop rest
        | None \<Rightarrow> if c = CHR '']'' then Some cs else bracket_end_loop cs)"
  by pat_completeness auto
termination
  by (relation "measure length") (auto dest: ash_pattern_notation_end_shorter split: if_splits)

definition skip_first :: "(char \<Rightarrow> bool) \<Rightarrow> string \<Rightarrow> string" where
  "skip_first P cs = (case cs of c # rest \<Rightarrow> if P c then rest else cs | [] \<Rightarrow> [])"

text \<open>The argument is the text after the \<open>[\<close>.\<close>

definition ash_pattern_bracket_end :: "string \<Rightarrow> string option" where
  "ash_pattern_bracket_end cs =
     bracket_end_loop (skip_first (\<lambda>c. c = CHR '']'') (skip_first (\<lambda>c. c = CHR ''!'' \<or> c = CHR ''^'') cs))"

lemma bracket_end_loop_shorter: "bracket_end_loop cs = Some rest \<Longrightarrow> length rest < length cs"
proof (induction cs rule: bracket_end_loop.induct)
  case (2 c cs)
  then show ?case
    using ash_pattern_notation_end_shorter [of "c # cs"]
    by (cases cs) (fastforce split: if_splits option.splits)+
qed simp

text \<open>What a part of the compiler gives: a failure, or the sequence, the required features and the text left.\<close>

type_synonym 'a pattern_parse = "pattern_failure + ('a \<times> u32 \<times> string)"

definition parsed :: "'a option \<Rightarrow> u32 \<Rightarrow> string \<Rightarrow> 'a pattern_parse" where
  "parsed result features rest = (case result of None \<Rightarrow> Inl Pattern_ENOMEM | Some x \<Rightarrow> Inr (x, features, rest))"

definition escaped_char :: "string \<Rightarrow> char \<times> string" where
  "escaped_char cs = (case cs of [] \<Rightarrow> (BACKSLASH, []) | d # ds \<Rightarrow> (d, ds))"

text \<open>A round of the loop on a character that does not begin an extended pattern.\<close>

definition compile_character ::
  "(nat \<Rightarrow> bool) \<Rightarrow> ash_pattern_options \<Rightarrow> nat \<Rightarrow> char \<Rightarrow> string \<Rightarrow> pattern_sequence \<Rightarrow> u32 \<Rightarrow> pattern_sequence pattern_parse" where
  "compile_character avail options source_offset c cs sequence features =
     (if c = BACKSLASH then
        (case escaped_char cs of
           (character, rest) \<Rightarrow> parsed (ash_pattern_append_literal avail sequence source_offset [character]) features rest)
      else if c = CHR ''*'' then
        let stars = takeWhile (\<lambda>d. d = CHR ''*'') cs; rest = dropWhile (\<lambda>d. d = CHR ''*'') cs in
        if stars \<noteq> [] \<and> po_domain options = Pattern_Pathname \<and> has_flag options PATTERN_GLOBSTAR
        then parsed (ash_pattern_sequence_take_term avail sequence (Pattern_Globstar_Term source_offset))
               (features OR REQUIRES_GLOBSTAR) rest
        else parsed (ash_pattern_sequence_take_term avail sequence (Pattern_Any_String source_offset)) features rest
      else if c = CHR ''?'' then
        parsed (ash_pattern_sequence_take_term avail sequence (Pattern_Any_Character source_offset)) features cs
      else
        case (if c = CHR ''['' then ash_pattern_bracket_end cs else None) of
          Some rest \<Rightarrow>
            (case ash_pattern_copy_span avail (take (length (c # cs) - length rest) (c # cs)) of
               None \<Rightarrow> Inl Pattern_ENOMEM
             | Some span \<Rightarrow>
                 parsed (ash_pattern_sequence_take_term avail sequence (Pattern_Bracket source_offset span))
                   (if has_flag options PATTERN_ASCII_RANGES then features OR REQUIRES_ASCII_RANGES else features) rest)
        | None \<Rightarrow>
            if c = CHR ''/'' \<and> po_domain options = Pattern_Pathname then
              parsed (ash_pattern_sequence_take_term avail sequence (Pattern_Path_Separator source_offset)) features cs
            else parsed (ash_pattern_append_literal avail sequence source_offset [c]) features cs)"

lemma escaped_char_shorter: "escaped_char cs = (d, rest) \<Longrightarrow> length rest \<le> length cs"
  by (auto simp: escaped_char_def split: list.splits)

lemma skip_first_shorter: "length (skip_first P cs) \<le> length cs"
  by (auto simp: skip_first_def split: list.splits)

lemma ash_pattern_bracket_end_shorter: "ash_pattern_bracket_end cs = Some rest \<Longrightarrow> length rest < length cs"
proof -
  let ?skipped = "skip_first (\<lambda>c. c = CHR ''!'' \<or> c = CHR ''^'') cs"
  assume "ash_pattern_bracket_end cs = Some rest"
  then have "length rest < length (skip_first (\<lambda>c. c = CHR '']'') ?skipped)"
    unfolding ash_pattern_bracket_end_def by (rule bracket_end_loop_shorter)
  also have "\<dots> \<le> length ?skipped" by (rule skip_first_shorter)
  also have "\<dots> \<le> length cs" by (rule skip_first_shorter)
  finally show "length rest < length cs" .
qed

lemma parsed_Inr: "parsed result features rest = Inr (x, features1, rest1) \<longleftrightarrow> result = Some x \<and> features1 = features \<and> rest1 = rest"
  by (auto simp: parsed_def split: option.splits)

lemma compile_character_shorter:
  assumes "compile_character avail options offset c cs sequence features = Inr (sequence1, features1, rest)"
  shows "length rest \<le> length cs"
  using assms unfolding compile_character_def Let_def
  by (auto simp: parsed_Inr length_dropWhile_le dest: escaped_char_shorter ash_pattern_bracket_end_shorter
      split: if_splits option.splits prod.splits)

text \<open>Whether an extended pattern begins here.\<close>

definition begins_extglob :: "ash_pattern_options \<Rightarrow> string \<Rightarrow> ash_extglob_operator option" where
  "begins_extglob options text1 =
     (case text1 of
        c # d # _ \<Rightarrow> if has_flag options PATTERN_EXTGLOB \<and> d = CHR ''('' then ash_pattern_extglob_operator c else None
      | _ \<Rightarrow> None)"

text \<open>
  \<open>compile_alternatives\<close> is the loop of \<open>ash_pattern_compile_extglob\<close>, from the text after the parenthesis.
  \<open>extent\<close> is the length of the source.
\<close>

function ash_pattern_compile_sequence ::
    "(nat \<Rightarrow> bool) \<Rightarrow> ash_pattern_options \<Rightarrow> nat \<Rightarrow> bool \<Rightarrow> nat \<Rightarrow> string \<Rightarrow> pattern_sequence \<Rightarrow> u32 \<Rightarrow> pattern_sequence pattern_parse"
  and compile_alternatives ::
    "(nat \<Rightarrow> bool) \<Rightarrow> ash_pattern_options \<Rightarrow> nat \<Rightarrow> nat \<Rightarrow> string \<Rightarrow> ash_pattern_term list list \<Rightarrow> nat \<Rightarrow> u32 \<Rightarrow>
       (ash_pattern_term list list) pattern_parse" where
  "ash_pattern_compile_sequence avail options extent alternative nesting [] sequence features = Inr (sequence, features, [])"
| "ash_pattern_compile_sequence avail options extent alternative nesting (c # cs) sequence features =
     (if alternative \<and> (c = CHR ''|'' \<or> c = CHR '')'') then Inr (sequence, features, c # cs)
      else
        let source_offset = extent - length (c # cs) in
        case begins_extglob options (c # cs) of
          Some operator \<Rightarrow>
            if nesting \<ge> PATTERN_MAX_NESTING then Inl Pattern_ELOOP
            else if \<not> avail 24 then Inl Pattern_ENOMEM
            else (case compile_alternatives avail options extent (nesting + 1) (tl cs) [] 0 features of
                Inl failed \<Rightarrow> Inl failed
              | Inr (alternatives, features1, rest) \<Rightarrow>
                  (case ash_pattern_sequence_take_term avail sequence (Pattern_Extglob_Term source_offset operator alternatives) of
                     None \<Rightarrow> Inl Pattern_ENOMEM
                   | Some sequence1 \<Rightarrow>
                       ash_pattern_compile_sequence avail options extent alternative nesting rest sequence1
                         (features1 OR REQUIRES_EXTGLOB)))
        | None \<Rightarrow>
            (case compile_character avail options source_offset c cs sequence features of
               Inl failed \<Rightarrow> Inl failed
             | Inr (sequence1, features1, rest) \<Rightarrow>
                 ash_pattern_compile_sequence avail options extent alternative nesting rest sequence1 features1))"
| "compile_alternatives avail options extent nesting text1 alternatives capacity features =
     (case ash_pattern_compile_sequence avail options extent True nesting text1 ([], 0) features of
        Inl failed \<Rightarrow> Inl failed
      | Inr ((terms, _), features1, rest) \<Rightarrow>
          (case ash_pattern_grow avail capacity (length alternatives + 1) 24 of
             None \<Rightarrow> Inl Pattern_ENOMEM
           | Some capacity1 \<Rightarrow>
               (case rest of
                  [] \<Rightarrow> Inl Pattern_EINVAL
                | delimiter # rest1 \<Rightarrow>
                    if delimiter = CHR '')'' then Inr (alternatives @ [terms], features1, rest1)
                    else compile_alternatives avail options extent nesting rest1 (alternatives @ [terms]) capacity1 features1)))"
  by pat_completeness auto

lemma compile_shorter:
  "ash_pattern_compile_sequence_compile_alternatives_dom (Inl (avail, options, extent, alternative, nesting, text1, sequence, features)) \<Longrightarrow>
   ash_pattern_compile_sequence avail options extent alternative nesting text1 sequence features = Inr (sequence1, features1, rest) \<Longrightarrow>
   length rest \<le> length text1"
  "ash_pattern_compile_sequence_compile_alternatives_dom (Inr (avail, options, extent, nesting, text1, alternatives, capacity, features)) \<Longrightarrow>
   compile_alternatives avail options extent nesting text1 alternatives capacity features = Inr (alternatives1, features1, rest) \<Longrightarrow>
   length rest < length text1"
proof (induction avail options extent alternative nesting text1 sequence features
      and avail options extent nesting text1 alternatives capacity features
      arbitrary: sequence1 features1 rest and alternatives1 features1 rest
      rule: ash_pattern_compile_sequence_compile_alternatives.pinduct)
  case (1 avail options extent alternative nesting sequence features)
  then show ?case by (simp add: ash_pattern_compile_sequence.psimps)
next
  case (2 avail options extent alternative nesting c cs sequence features)
  show ?case
  proof (cases "alternative \<and> (c = CHR ''|'' \<or> c = CHR '')'')")
    case True
    then show ?thesis using "2.prems" "2.hyps" by (simp add: ash_pattern_compile_sequence.psimps)
  next
    case False
    note unfolded = "2.prems" [unfolded ash_pattern_compile_sequence.psimps(2) [OF "2.hyps"] if_not_P [OF False] Let_def]
    show ?thesis
    proof (cases "begins_extglob options (c # cs)")
      case None
      from unfolded obtain sequence2 features2 rest2 where
        step: "compile_character avail options (extent - length (c # cs)) c cs sequence features = Inr (sequence2, features2, rest2)"
        and next1: "ash_pattern_compile_sequence avail options extent alternative nesting rest2 sequence2 features2 = Inr (sequence1, features1, rest)"
        unfolding None by (auto split: sum.splits)
      have "length rest \<le> length rest2" using "2.IH"(1) [OF False refl None step refl refl] next1 by blast
      then show ?thesis using compile_character_shorter [OF step] by simp
    next
      case (Some operator)
      from unfolded obtain alternatives features2 rest2 sequence2 where
        inner: "compile_alternatives avail options extent (nesting + 1) (tl cs) [] 0 features = Inr (alternatives, features2, rest2)"
        and guard: "\<not> nesting \<ge> PATTERN_MAX_NESTING" "\<not> \<not> avail 24"
        and taken: "ash_pattern_sequence_take_term avail sequence
          (Pattern_Extglob_Term (extent - length (c # cs)) operator alternatives) = Some sequence2"
        and next1: "ash_pattern_compile_sequence avail options extent alternative nesting rest2 sequence2
          (features2 OR REQUIRES_EXTGLOB) = Inr (sequence1, features1, rest)"
        unfolding Some by (auto split: if_splits sum.splits option.splits)
      have "length rest2 < length (tl cs)" using "2.IH"(2) [OF False refl Some guard] inner by blast
      moreover have "length rest \<le> length rest2"
        using "2.IH"(3) [OF False refl Some guard inner refl refl taken] next1 by blast
      ultimately show ?thesis by simp
    qed
  qed
next
  case (3 avail options extent nesting text1 alternatives capacity features)
  from "3.prems" [unfolded ash_pattern_compile_sequence.psimps compile_alternatives.psimps [OF "3.hyps"]]
  obtain terms cap features2 rest2 capacity1 delimiter rest3 where
    inner: "ash_pattern_compile_sequence avail options extent True nesting text1 ([], 0) features = Inr ((terms, cap), features2, rest2)"
    and grown: "ash_pattern_grow avail capacity (length alternatives + 1) 24 = Some capacity1" and rest2: "rest2 = delimiter # rest3"
    and next1: "(if delimiter = CHR '')'' then Inr (alternatives @ [terms], features2, rest3)
      else compile_alternatives avail options extent nesting rest3 (alternatives @ [terms]) capacity1 features2) =
      Inr (alternatives1, features1, rest)"
    by (auto split: sum.splits option.splits list.splits)
  have shorter: "length rest2 \<le> length text1" using "3.IH"(1) inner by blast
  show ?case
  proof (cases "delimiter = CHR '')''")
    case True
    then show ?thesis using next1 shorter rest2 by simp
  next
    case False
    then have "length rest < length rest3"
      using "3.IH"(2) [OF inner refl refl refl grown rest2 False] next1 by simp
    then show ?thesis using shorter rest2 by simp
  qed
qed

termination ash_pattern_compile_sequence
proof (relation "measure (\<lambda>x. case x of Inl (avail, options, extent, alternative, nesting, text1, sequence, features) \<Rightarrow> 2 * length text1
    | Inr (avail, options, extent, nesting, text1, alternatives, capacity, features) \<Rightarrow> 2 * length text1 + 1)", goal_cases)
qed (auto dest: compile_shorter compile_character_shorter)

declare ash_pattern_compile_sequence.simps [simp del] compile_alternatives.simps [simp del]

text \<open>
  The extended pattern at the head of the text, as a function of its own: what the sequence becomes, with the
  text after the closing parenthesis.
\<close>

definition ash_pattern_compile_extglob ::
  "(nat \<Rightarrow> bool) \<Rightarrow> ash_pattern_options \<Rightarrow> nat \<Rightarrow> ash_extglob_operator \<Rightarrow> nat \<Rightarrow> string \<Rightarrow> pattern_sequence \<Rightarrow> u32 \<Rightarrow>
     pattern_sequence pattern_parse" where
  "ash_pattern_compile_extglob avail options extent operator nesting text1 sequence features =
     (if nesting \<ge> PATTERN_MAX_NESTING then Inl Pattern_ELOOP
      else if \<not> avail 24 then Inl Pattern_ENOMEM
      else (case compile_alternatives avail options extent (nesting + 1) (drop 2 text1) [] 0 features of
          Inl failed \<Rightarrow> Inl failed
        | Inr (alternatives, features1, rest) \<Rightarrow>
            parsed (ash_pattern_sequence_take_term avail sequence
                (Pattern_Extglob_Term (extent - length text1) operator alternatives))
              (features1 OR REQUIRES_EXTGLOB) rest))"

lemma compile_sequence_round:
  "ash_pattern_compile_sequence avail options extent alternative nesting (c # cs) sequence features =
     (if alternative \<and> (c = CHR ''|'' \<or> c = CHR '')'') then Inr (sequence, features, c # cs)
      else case (case begins_extglob options (c # cs) of
              Some operator \<Rightarrow> ash_pattern_compile_extglob avail options extent operator nesting (c # cs) sequence features
            | None \<Rightarrow> compile_character avail options (extent - length (c # cs)) c cs sequence features) of
          Inl failed \<Rightarrow> Inl failed
        | Inr (sequence1, features1, rest) \<Rightarrow>
            ash_pattern_compile_sequence avail options extent alternative nesting rest sequence1 features1)"
proof -
  have two: "drop 2 (c # cs) = tl cs" by (cases cs) simp_all
  show ?thesis
  proof (cases "begins_extglob options (c # cs)")
    case None
    then show ?thesis unfolding ash_pattern_compile_sequence.simps(2) Let_def by (cases alternative) simp_all
  next
    case (Some operator)
    have "(case ash_pattern_compile_extglob avail options extent operator nesting (c # cs) sequence features of
          Inl failed \<Rightarrow> Inl failed
        | Inr (sequence1, features1, rest) \<Rightarrow>
            ash_pattern_compile_sequence avail options extent alternative nesting rest sequence1 features1) =
      (if nesting \<ge> PATTERN_MAX_NESTING then Inl Pattern_ELOOP
       else if \<not> avail 24 then Inl Pattern_ENOMEM
       else (case compile_alternatives avail options extent (nesting + 1) (tl cs) [] 0 features of
           Inl failed \<Rightarrow> Inl failed
         | Inr (alternatives, features1, rest) \<Rightarrow>
             (case ash_pattern_sequence_take_term avail sequence
                 (Pattern_Extglob_Term (extent - length (c # cs)) operator alternatives) of
                None \<Rightarrow> Inl Pattern_ENOMEM
              | Some sequence1 \<Rightarrow>
                  ash_pattern_compile_sequence avail options extent alternative nesting rest sequence1
                    (features1 OR REQUIRES_EXTGLOB))))"
      unfolding ash_pattern_compile_extglob_def two
      by (simp add: parsed_def split: option.split sum.split prod.split)
    then show ?thesis unfolding ash_pattern_compile_sequence.simps(2) Let_def Some by (cases alternative) simp_all
  qed
qed

text \<open>A source is a C string; the result for a length of \<open>SIZE_MAX\<close> is left out with such lengths.\<close>

definition ash_pattern_compile ::
  "(nat \<Rightarrow> bool) \<Rightarrow> string \<Rightarrow> ash_pattern_options \<Rightarrow> ash_pattern_compile_result + ash_pattern" where
  "ash_pattern_compile avail expanded_pattern options =
     (if \<not> ash_pattern_options_valid options \<or> length expanded_pattern = size_max \<or> \<not> c_string expanded_pattern
      then Inl (if length expanded_pattern = size_max then Compile_No_Memory else Compile_Invalid)
      else
        case ash_pattern_compile_sequence avail options (length expanded_pattern) False 0 expanded_pattern ([], 0) 0 of
          Inl failed \<Rightarrow> Inl (ash_pattern_compile_failure failed)
        | Inr ((root, _), features, rest) \<Rightarrow>
            if rest \<noteq> [] then Inl Compile_Invalid
            else if \<not> avail (length expanded_pattern + 1) then Inl Compile_No_Memory
            else Inr \<lparr>pa_options = options, pa_root = root, pa_source = expanded_pattern, pa_required_features = features\<rparr>)"

section \<open>Bracket expressions\<close>

text \<open>
  What \<open>fnmatch\<close> reports; its arguments are the expression, the text, and whether case is ignored.
\<close>

datatype fnmatch_result = Fnmatch_Match | Fnmatch_Nomatch | Fnmatch_Error

type_synonym c_fnmatch_call = "string \<Rightarrow> string \<Rightarrow> bool \<Rightarrow> fnmatch_result"

definition ash_pattern_classify :: "c_fnmatch_call \<Rightarrow> string \<Rightarrow> string \<Rightarrow> bool \<Rightarrow> ash_pattern_match_result" where
  "ash_pattern_classify fnm bracket1 single flags =
     (case fnm bracket1 single flags of
        Fnmatch_Match \<Rightarrow> Pattern_Match
      | Fnmatch_Nomatch \<Rightarrow> Pattern_No_Match
      | Fnmatch_Error \<Rightarrow> Pattern_Match_Error)"

text \<open>An atom, with the text after it; \<open>ba_literal\<close> is its byte when it stands for one.\<close>

record ash_bracket_atom =
  ba_end :: string
  ba_literal :: "char option"
  ba_notation :: char

definition literal_atom :: "char \<Rightarrow> string \<Rightarrow> ash_bracket_atom" where
  "literal_atom c rest = \<lparr>ba_end = rest, ba_literal = Some c, ba_notation = CHR 0x00\<rparr>"

text \<open>The byte that a notation such as \<open>[.-.]\<close> names, from the text between its marks.\<close>

definition notation_literal :: "string \<Rightarrow> char option" where
  "notation_literal inner =
     (case inner of
        [c] \<Rightarrow> Some c
      | [c, d] \<Rightarrow> if c = BACKSLASH then Some d else None
      | _ \<Rightarrow> None)"

definition ash_pattern_bracket_atom :: "string \<Rightarrow> ash_bracket_atom" where
  "ash_pattern_bracket_atom text1 =
     (case text1 of
        [] \<Rightarrow> literal_atom (CHR 0x00) []
      | c # cs \<Rightarrow>
          if c = BACKSLASH \<and> cs \<noteq> [] then literal_atom (hd cs) (tl cs)
          else case (if opens_notation text1 then ash_pattern_notation_end text1 else None) of
              None \<Rightarrow> literal_atom c cs
            | Some close \<Rightarrow>
                \<lparr>ba_end = close,
                 ba_literal =
                   (if hd cs \<noteq> CHR '':''
                    then notation_literal (take (length (tl cs) - length close - 2) (tl cs)) else None),
                 ba_notation = hd cs\<rparr>)"

definition ash_pattern_range_literal :: "ash_bracket_atom \<Rightarrow> bool" where
  "ash_pattern_range_literal atom \<longleftrightarrow>
     (case ba_literal atom of
        None \<Rightarrow> False
      | Some c \<Rightarrow> ba_notation atom \<noteq> CHR ''='' \<and>
          c \<notin> {CHR ''['', CHR '']'', CHR ''!'', CHR ''^'', CHR ''-'', BACKSLASH})"

definition collation_attempt :: "char \<Rightarrow> char \<Rightarrow> char \<Rightarrow> bool" where
  "collation_attempt first1 last1 candidate \<longleftrightarrow> c_strcmp [first1] [candidate] \<le> 0 \<and> c_strcmp [candidate] [last1] \<le> 0"

definition ash_pattern_collation_range :: "char \<Rightarrow> char \<Rightarrow> char \<Rightarrow> bool \<Rightarrow> ash_pattern_match_result" where
  "ash_pattern_collation_range left right character fold1 =
     (if collation_attempt left right character then Pattern_Match
      else if \<not> fold1 then Pattern_No_Match
      else
        let alternate = (if c_toupper character = character then c_tolower character else c_toupper character) in
        if alternate = character then Pattern_No_Match
        else if collation_attempt left right alternate then Pattern_Match
        else Pattern_No_Match)"

definition ash_pattern_symbol_range :: "c_fnmatch_call \<Rightarrow> char \<Rightarrow> char \<Rightarrow> char \<Rightarrow> bool \<Rightarrow> ash_pattern_match_result" where
  "ash_pattern_symbol_range fnm left right character fold1 =
     (let result = ash_pattern_classify fnm ''[[.a.]]'' ''a'' False in
      if result = Pattern_No_Match then ash_pattern_collation_range left right character fold1
      else if result \<noteq> Pattern_Match then result
      else ash_pattern_classify fnm (''[[.'' @ [left] @ ''.]-[.'' @ [right] @ ''.]]'') [character] fold1)"

text \<open>The text of one member as an expression of its own; \<open>copied\<close> is its source.\<close>

definition member_text :: "bool \<Rightarrow> char \<Rightarrow> char \<Rightarrow> string \<Rightarrow> string" where
  "member_text normal left right copied =
     CHR ''['' #
     (if normal then [left, CHR ''-'', right]
      else (if copied \<noteq> [] \<and> (hd copied = CHR ''!'' \<or> hd copied = CHR ''^'') then BACKSLASH # copied else copied))
     @ '']''"

text \<open>One round of the loop: whether the member matches, and the text after it.\<close>

definition bracket_member ::
  "c_fnmatch_call \<Rightarrow> (nat \<Rightarrow> bool) \<Rightarrow> nat \<Rightarrow> char \<Rightarrow> bool \<Rightarrow> string \<Rightarrow> ash_pattern_match_result \<times> string" where
  "bracket_member fnm avail span_length character fold1 text1 =
     (let left = ash_pattern_bracket_atom text1; after_left = ba_end left;
          ranged = (length after_left > 1 \<and> hd after_left = CHR ''-'');
          right = ash_pattern_bracket_atom (tl after_left);
          cursor = (if ranged then ba_end right else after_left);
          literal_range = (ranged \<and> ba_literal left \<noteq> None \<and> ba_literal right \<noteq> None \<and>
            ba_notation left \<noteq> CHR ''='' \<and> ba_notation right \<noteq> CHR ''='');
          normalize_range = (literal_range \<and> ash_pattern_range_literal left \<and> ash_pattern_range_literal right);
          classify = (ranged \<or> ba_literal left = None \<or> ba_notation left = CHR ''='');
          same = (\<not> ranged \<and> (case ba_literal left of None \<Rightarrow> False | Some c \<Rightarrow> char_matches fold1 c character));
          result =
            (if \<not> classify then Pattern_No_Match
             else if literal_range \<and> \<not> normalize_range
             then ash_pattern_symbol_range fnm (the (ba_literal left)) (the (ba_literal right)) character fold1
             else if span_length > size_max - 2 \<or> \<not> avail (span_length + 2) then Pattern_Match_Error
             else ash_pattern_classify fnm
               (member_text normalize_range (the (ba_literal left)) (the (ba_literal right))
                  (take (length text1 - length cursor) text1)) [character] fold1) in
      (if result = Pattern_Match_Error then Pattern_Match_Error
       else if same \<or> result = Pattern_Match then Pattern_Match else Pattern_No_Match, cursor))"

lemma bracket_atom_shorter: "text1 \<noteq> [] \<Longrightarrow> length (ba_end (ash_pattern_bracket_atom text1)) < length text1"
  using ash_pattern_notation_end_shorter [of text1]
  by (cases text1) (auto simp: ash_pattern_bracket_atom_def literal_atom_def split: option.splits)

lemma bracket_member_shorter:
  assumes "text1 \<noteq> []" and "bracket_member fnm avail n character fold1 text1 = (result, cursor)"
  shows "length cursor < length text1"
proof -
  let ?left = "ash_pattern_bracket_atom text1"
  have left: "length (ba_end ?left) < length text1" using assms(1) by (rule bracket_atom_shorter)
  have "length (ba_end (ash_pattern_bracket_atom (tl (ba_end ?left)))) < length (ba_end ?left)" if "length (ba_end ?left) > 1"
    using bracket_atom_shorter [of "tl (ba_end ?left)"] that by (cases "ba_end ?left") auto
  then show ?thesis using assms(2) left by (auto simp: bracket_member_def Let_def split: if_splits)
qed

function bracket_loop ::
  "c_fnmatch_call \<Rightarrow> (nat \<Rightarrow> bool) \<Rightarrow> nat \<Rightarrow> char \<Rightarrow> bool \<Rightarrow> string \<Rightarrow> bool \<Rightarrow> bool option" where
  "bracket_loop fnm avail n character fold1 text1 matched =
     (if text1 = [] then Some matched
      else case bracket_member fnm avail n character fold1 text1 of
          (result, cursor) \<Rightarrow>
            if result = Pattern_Match_Error then None
            else bracket_loop fnm avail n character fold1 cursor (matched \<or> result = Pattern_Match))"
  by pat_completeness auto
termination
  by (relation "measure (\<lambda>(fnm, avail, n, character, fold1, text1, matched). length text1)")
    (auto intro: bracket_member_shorter [OF _ sym])

declare bracket_loop.simps [simp del]

fun has_notation :: "string \<Rightarrow> bool" where
  "has_notation (c # d # cs) \<longleftrightarrow> (c = CHR ''['' \<and> (d = CHR ''.'' \<or> d = CHR ''='')) \<or> has_notation (d # cs)"
| "has_notation cs \<longleftrightarrow> False"

text \<open>The text of the span begins with \<open>[\<close> and ends with \<open>]\<close>.\<close>

definition ash_pattern_bracket ::
  "c_fnmatch_call \<Rightarrow> (nat \<Rightarrow> bool) \<Rightarrow> string \<Rightarrow> char \<Rightarrow> bool \<Rightarrow> ash_pattern_match_result" where
  "ash_pattern_bracket fnm avail span character fold1 =
     (if BACKSLASH \<notin> set span \<and> \<not> has_notation span then ash_pattern_classify fnm span [character] fold1
      else
        let inner = butlast (tl span);
            negate = (inner \<noteq> [] \<and> (hd inner = CHR ''!'' \<or> hd inner = CHR ''^'')) in
        case bracket_loop fnm avail (length span) character fold1 (if negate then tl inner else inner) False of
          None \<Rightarrow> Pattern_Match_Error
        | Some matched \<Rightarrow> if matched \<noteq> negate then Pattern_Match else Pattern_No_Match)"

section \<open>Matching\<close>

fun literal_folded :: "string \<Rightarrow> string \<Rightarrow> nat \<Rightarrow> nat option" where
  "literal_folded [] s i = Some i"
| "literal_folded (l # ls) s i =
     (if c_char s i = CHR 0x00 then None
      else if c_tolower l \<noteq> c_tolower (c_char s i) then None
      else literal_folded ls s (i + 1))"

definition ash_pattern_literal :: "string \<Rightarrow> string \<Rightarrow> nat \<Rightarrow> bool \<Rightarrow> nat option" where
  "ash_pattern_literal literal s i fold1 =
     (if \<not> fold1 then (if take (length literal) (drop i s) = literal then Some (i + length literal) else None)
      else literal_folded literal s i)"

definition ash_pattern_wildcard_allowed :: "ash_pattern_options \<Rightarrow> string \<Rightarrow> nat \<Rightarrow> bool" where
  "ash_pattern_wildcard_allowed options s i \<longleftrightarrow>
     po_domain options \<noteq> Pattern_Pathname \<or>
     (c_char s i \<noteq> CHR ''/'' \<and>
      \<not> (c_char s i = CHR ''.'' \<and> (i = 0 \<or> c_char s (i - 1) = CHR ''/'') \<and> \<not> has_flag options PATTERN_MATCH_DOTFILES))"

text \<open>The matcher goes on with the terms, at an index, with a place to go back to; or it is finished.\<close>

type_synonym pattern_retry = "(nat \<times> ash_pattern_term list) option"

datatype round_result =
    Round_Done | Round_Error | Round_Failed
  | Round_Next "ash_pattern_term list" nat pattern_retry

definition pattern_round :: "c_fnmatch_call \<Rightarrow> (nat \<Rightarrow> bool) \<Rightarrow> ash_pattern_options \<Rightarrow> string \<Rightarrow> ash_pattern_term list \<Rightarrow> nat \<Rightarrow>
    pattern_retry \<Rightarrow> round_result" where
  "pattern_round fnm avail options s terms i retry =
     (let fold1 = has_flag options PATTERN_CASE_INSENSITIVE; allowed = ash_pattern_wildcard_allowed options s i in
      case terms of
        [] \<Rightarrow> if c_char s i = CHR 0x00 then Round_Done else Round_Failed
      | term1 # rest \<Rightarrow>
          (case term1 of
             Pattern_Literal _ literal \<Rightarrow>
               (case ash_pattern_literal literal s i fold1 of None \<Rightarrow> Round_Failed | Some j \<Rightarrow> Round_Next rest j retry)
           | Pattern_Path_Separator _ \<Rightarrow>
               if c_char s i = CHR ''/'' then Round_Next rest (i + 1) None else Round_Failed
           | Pattern_Any_String _ \<Rightarrow>
               if allowed \<or> c_char s i = CHR ''/'' then Round_Next rest i (Some (i, rest)) else Round_Failed
           | Pattern_Any_Character _ \<Rightarrow>
               if allowed \<and> c_char s i \<noteq> CHR 0x00 then Round_Next rest (i + 1) retry else Round_Failed
           | Pattern_Bracket _ span \<Rightarrow>
               if allowed \<and> c_char s i \<noteq> CHR 0x00 then
                 (case ash_pattern_bracket fnm avail span (c_char s i) fold1 of
                    Pattern_Match_Error \<Rightarrow> Round_Error
                  | Pattern_Match \<Rightarrow> Round_Next rest (i + 1) retry
                  | _ \<Rightarrow> Round_Failed)
               else Round_Failed
           | _ \<Rightarrow> Round_Failed))"

text \<open>The terms that the search can still come back to; every \<open>*\<close> and every separator makes them fewer.\<close>

fun terms_ahead :: "ash_pattern_term list \<Rightarrow> pattern_retry \<Rightarrow> nat" where
  "terms_ahead terms None = length terms"
| "terms_ahead terms (Some (r, after_star)) = max (length terms) (length after_star)"

fun bytes_ahead :: "string \<Rightarrow> pattern_retry \<Rightarrow> nat" where
  "bytes_ahead s None = 0"
| "bytes_ahead s (Some (r, after_star)) = length s - r"

lemma round_next_measure:
  assumes "pattern_round fnm avail options s terms i retry = Round_Next terms1 j retry1"
  shows "terms_ahead terms1 retry1 < terms_ahead terms retry \<or>
    terms_ahead terms1 retry1 \<le> terms_ahead terms retry \<and> retry1 = retry \<and> length terms1 < length terms"
  using assms unfolding pattern_round_def Let_def
  by (cases retry) (auto split: list.splits ash_pattern_term.splits option.splits if_splits ash_pattern_match_result.splits)

lemma c_char_inside: "c_char s i \<noteq> CHR 0x00 \<Longrightarrow> i < length s"
  by (simp add: c_char_def split: if_splits)

function pattern_loop :: "c_fnmatch_call \<Rightarrow> (nat \<Rightarrow> bool) \<Rightarrow> ash_pattern_options \<Rightarrow> string \<Rightarrow> ash_pattern_term list \<Rightarrow> nat \<Rightarrow>
    pattern_retry \<Rightarrow> ash_pattern_match_result" where
  "pattern_loop fnm avail options s terms i retry =
     (case pattern_round fnm avail options s terms i retry of
        Round_Done \<Rightarrow> Pattern_Match
      | Round_Error \<Rightarrow> Pattern_Match_Error
      | Round_Next terms1 j retry1 \<Rightarrow> pattern_loop fnm avail options s terms1 j retry1
      | Round_Failed \<Rightarrow>
          (case retry of
             None \<Rightarrow> Pattern_No_Match
           | Some (r, after_star) \<Rightarrow>
               if c_char s r = CHR 0x00 \<or> \<not> ash_pattern_wildcard_allowed options s r then Pattern_No_Match
               else pattern_loop fnm avail options s after_star (r + 1) (Some (r + 1, after_star))))"
  by pat_completeness auto
termination
proof (relation "measures [\<lambda>(fnm, avail, options, s, terms, i, retry). terms_ahead terms retry,
    \<lambda>(fnm, avail, options, s, terms, i, retry). bytes_ahead s retry,
    \<lambda>(fnm, avail, options, s, terms, i, retry). length terms]", goal_cases)
  case (2 fnm avail options s terms i retry after r)
  then show ?case using c_char_inside [of s r] by auto
next
  case (3 fnm avail options s terms i retry terms1 j retry1)
  then show ?case using round_next_measure [of fnm avail options s terms i retry terms1 j retry1] by auto
qed simp

declare pattern_loop.simps [simp del]

definition trailing_backslashes :: "string \<Rightarrow> nat" where
  "trailing_backslashes source = length (takeWhile (\<lambda>c. c = BACKSLASH) (rev source))"

definition ash_pattern_match ::
  "c_fnmatch_call \<Rightarrow> (nat \<Rightarrow> bool) \<Rightarrow> ash_pattern \<Rightarrow> string \<Rightarrow> ash_pattern_match_result" where
  "ash_pattern_match fnm avail pattern value1 =
     (if \<not> ash_pattern_options_valid (pa_options pattern) then Pattern_Match_Error
      else if pa_required_features pattern AND (REQUIRES_EXTGLOB OR REQUIRES_GLOBSTAR OR REQUIRES_ASCII_RANGES) \<noteq> 0
      then Pattern_Match_Unsupported
      else if trailing_backslashes (pa_source pattern) mod 2 \<noteq> 0 then Pattern_No_Match
      else pattern_loop fnm avail (pa_options pattern) value1 (pa_root pattern) 0 None)"

section \<open>What a pattern stands for\<close>

text \<open>
  A text matches when it can be cut into pieces, one for each term. \<open>piece\<close> says which bytes, from an
  index up to another, are a piece for a term; \<open>pattern_accepts\<close> cuts the rest of the text.
\<close>

definition piece :: "(string \<Rightarrow> char \<Rightarrow> bool) \<Rightarrow> ash_pattern_options \<Rightarrow> string \<Rightarrow> ash_pattern_term \<Rightarrow> nat \<Rightarrow> nat \<Rightarrow> bool" where
  "piece member1 options s term1 i j \<longleftrightarrow>
     (case term1 of
        Pattern_Literal _ literal \<Rightarrow>
          j = i + length literal \<and> j \<le> length s \<and>
          fold_case (has_flag options PATTERN_CASE_INSENSITIVE) (take (length literal) (drop i s)) =
            fold_case (has_flag options PATTERN_CASE_INSENSITIVE) literal
      | Pattern_Path_Separator _ \<Rightarrow> j = i + 1 \<and> i < length s \<and> s ! i = CHR ''/''
      | Pattern_Any_Character _ \<Rightarrow> j = i + 1 \<and> i < length s \<and> ash_pattern_wildcard_allowed options s i
      | Pattern_Bracket _ span \<Rightarrow>
          j = i + 1 \<and> i < length s \<and> ash_pattern_wildcard_allowed options s i \<and> member1 span (s ! i)
      | Pattern_Any_String _ \<Rightarrow>
          i \<le> j \<and> j \<le> length s \<and> (ash_pattern_wildcard_allowed options s i \<or> c_char s i = CHR ''/'') \<and>
          list_all (ash_pattern_wildcard_allowed options s) [i..<j]
      | _ \<Rightarrow> False)"

fun pattern_accepts :: "(string \<Rightarrow> char \<Rightarrow> bool) \<Rightarrow> ash_pattern_options \<Rightarrow> string \<Rightarrow> ash_pattern_term list \<Rightarrow> nat \<Rightarrow> bool" where
  "pattern_accepts member1 options s [] i \<longleftrightarrow> i = length s"
| "pattern_accepts member1 options s (term1 # terms) i \<longleftrightarrow>
     (\<exists>j\<in>set [i..<Suc (length s)]. piece member1 options s term1 i j \<and> pattern_accepts member1 options s terms j)"

text \<open>Which bytes a bracket expression stands for is what the code finds; it finds it for every byte of the text.\<close>

definition bracket_has :: "c_fnmatch_call \<Rightarrow> (nat \<Rightarrow> bool) \<Rightarrow> ash_pattern_options \<Rightarrow> string \<Rightarrow> char \<Rightarrow> bool" where
  "bracket_has fnm avail options span c \<longleftrightarrow>
     ash_pattern_bracket fnm avail span c (has_flag options PATTERN_CASE_INSENSITIVE) = Pattern_Match"

definition brackets_decided ::
  "c_fnmatch_call \<Rightarrow> (nat \<Rightarrow> bool) \<Rightarrow> ash_pattern_options \<Rightarrow> ash_pattern_term list \<Rightarrow> string \<Rightarrow> bool" where
  "brackets_decided fnm avail options terms s \<longleftrightarrow>
     list_all (\<lambda>term1. case term1 of
         Pattern_Bracket _ span \<Rightarrow>
           list_all (\<lambda>c. ash_pattern_bracket fnm avail span c (has_flag options PATTERN_CASE_INSENSITIVE) \<noteq> Pattern_Match_Error) s
       | _ \<Rightarrow> True) terms"

lemma bracket_unsupported: "ash_pattern_bracket fnm avail span c fold1 \<noteq> Pattern_Match_Unsupported"
  by (auto simp: ash_pattern_bracket_def ash_pattern_classify_def Let_def split: fnmatch_result.splits option.splits)

lemma literal_folded_iff:
  "c_string s \<Longrightarrow> literal_folded literal s i =
     (if i + length literal \<le> length s \<and> map c_tolower (take (length literal) (drop i s)) = map c_tolower literal
      then Some (i + length literal) else if literal = [] then Some i else None)"
proof (induction literal arbitrary: i)
  case (Cons l ls)
  show ?case
  proof (cases "i < length s")
    case True
    then have "s ! i \<in> set s" by simp
    then have "c_char s i \<noteq> CHR 0x00" using Cons.prems True unfolding c_char_def c_string_def by metis
    moreover have "drop i s = s ! i # drop (Suc i) s" using True by (simp add: Cons_nth_drop_Suc)
    ultimately show ?thesis using Cons True by (auto simp: c_char_def)
  next
    case False
    then show ?thesis by (simp add: c_char_def)
  qed
qed simp

lemma take_drop_eq:
  "take (length literal) (drop i s) = literal \<longleftrightarrow>
     literal = [] \<or> i + length literal \<le> length s \<and> take (length literal) (drop i s) = literal"
proof
  assume eq: "take (length literal) (drop i s) = literal"
  have "length literal \<le> length s - i" using arg_cong [OF eq, of length] by simp
  then show "literal = [] \<or> i + length literal \<le> length s \<and> take (length literal) (drop i s) = literal"
    using eq by (cases literal) auto
qed auto

lemma literal_piece:
  assumes "c_string s" and "i \<le> length s"
  shows "ash_pattern_literal literal s i (has_flag options PATTERN_CASE_INSENSITIVE) =
    (if piece member1 options s (Pattern_Literal offset literal) i (i + length literal) then Some (i + length literal) else None)"
  using assms take_drop_eq [of literal i s]
  by (auto simp: ash_pattern_literal_def piece_def fold_case_def literal_folded_iff)

section \<open>Terms of a fixed width\<close>

definition fixed_width :: "ash_pattern_term \<Rightarrow> nat option" where
  "fixed_width term1 =
     (case term1 of
        Pattern_Literal _ literal \<Rightarrow> Some (length literal)
      | Pattern_Any_Character _ \<Rightarrow> Some 1
      | Pattern_Bracket _ _ \<Rightarrow> Some 1
      | _ \<Rightarrow> None)"

text \<open>A run over terms of a fixed width, from an index to another.\<close>

fun fixed_run :: "(string \<Rightarrow> char \<Rightarrow> bool) \<Rightarrow> ash_pattern_options \<Rightarrow> string \<Rightarrow> ash_pattern_term list \<Rightarrow> nat \<Rightarrow> nat \<Rightarrow> bool" where
  "fixed_run member1 options s [] i j \<longleftrightarrow> i = j"
| "fixed_run member1 options s (term1 # terms) i j \<longleftrightarrow>
     (case fixed_width term1 of
        None \<Rightarrow> False
      | Some w \<Rightarrow> piece member1 options s term1 i (i + w) \<and> fixed_run member1 options s terms (i + w) j)"

lemma fixed_run_append:
  "fixed_run member1 options s (terms @ [term1]) i j \<longleftrightarrow>
     (\<exists>k w. fixed_run member1 options s terms i k \<and> fixed_width term1 = Some w \<and> piece member1 options s term1 k j \<and> j = k + w)"
  by (induction terms arbitrary: i) (auto split: option.splits)

fun run_width :: "ash_pattern_term list \<Rightarrow> nat" where
  "run_width [] = 0"
| "run_width (term1 # terms) = (case fixed_width term1 of None \<Rightarrow> 0 | Some w \<Rightarrow> w) + run_width terms"

lemma fixed_run_width: "fixed_run member1 options s terms i j \<Longrightarrow> j = i + run_width terms"
  by (induction terms arbitrary: i) (fastforce simp: add.assoc split: option.splits)+

lemma piece_bound: "piece member1 options s term1 i j \<Longrightarrow> fixed_width term1 = Some w \<Longrightarrow> j = i + w \<and> j \<le> length s"
  by (auto simp: piece_def fixed_width_def split: ash_pattern_term.splits)

lemma fixed_run_bound: "fixed_run member1 options s terms i j \<Longrightarrow> i \<le> length s \<Longrightarrow> j \<le> length s"
  by (induction terms arbitrary: i) (auto dest: piece_bound split: option.splits)

lemma accepts_fixed:
  assumes "fixed_width term1 = Some w"
  shows "pattern_accepts member1 options s (term1 # terms) i \<longleftrightarrow>
    piece member1 options s term1 i (i + w) \<and> pattern_accepts member1 options s terms (i + w)"
proof
  assume "pattern_accepts member1 options s (term1 # terms) i"
  then obtain j where "piece member1 options s term1 i j" "pattern_accepts member1 options s terms j" by auto
  then show "piece member1 options s term1 i (i + w) \<and> pattern_accepts member1 options s terms (i + w)"
    using piece_bound [OF _ assms] by blast
next
  assume "piece member1 options s term1 i (i + w) \<and> pattern_accepts member1 options s terms (i + w)"
  then have first1: "piece member1 options s term1 i (i + w)" and rest: "pattern_accepts member1 options s terms (i + w)"
    by simp_all
  from piece_bound [OF first1 assms] have "i + w \<in> set [i..<Suc (length s)]" by auto
  then show "pattern_accepts member1 options s (term1 # terms) i"
    unfolding pattern_accepts.simps using first1 rest by (intro bexI [of _ "i + w"] conjI)
qed

lemma accepts_run:
  assumes "list_all (\<lambda>term1. fixed_width term1 \<noteq> None) run"
  shows "pattern_accepts member1 options s (run @ terms) i \<longleftrightarrow>
    fixed_run member1 options s run i (i + run_width run) \<and> pattern_accepts member1 options s terms (i + run_width run)"
  using assms
proof (induction run arbitrary: i)
  case (Cons term1 run)
  then obtain w where w: "fixed_width term1 = Some w" by auto
  show ?case
    using Cons.IH [of "i + w"] Cons.prems w accepts_fixed [OF w, of member1 options s "run @ terms" i]
    by (simp add: add.assoc del: pattern_accepts.simps)
qed simp

lemma fixed_run_fixed: "fixed_run member1 options s terms i j \<Longrightarrow> list_all (\<lambda>term1. fixed_width term1 \<noteq> None) terms"
  by (induction terms arbitrary: i) (auto split: option.splits)

text \<open>A slash in a path name is only matched by a slash, so two runs of the same terms see it at the same place.\<close>

lemma c_tolower_slash: "c_tolower c = CHR ''/'' \<longleftrightarrow> c = CHR ''/''"
proof (cases "65 \<le> (of_char c :: nat) \<and> (of_char c :: nat) \<le> 90")
  case True
  then have code: "(of_char (c_tolower c) :: nat) = of_char c + 32" by (simp add: c_tolower_def)
  have slash: "(of_char CHR ''/'' :: nat) = 47" by simp
  have "c_tolower c \<noteq> CHR ''/''"
  proof
    assume "c_tolower c = CHR ''/''"
    then have "(of_char (c_tolower c) :: nat) = 47" using slash by simp
    then show False using True code by linarith
  qed
  moreover have "c \<noteq> CHR ''/''"
  proof
    assume "c = CHR ''/''"
    then have "(of_char c :: nat) = 47" using slash by simp
    then show False using True by linarith
  qed
  ultimately show ?thesis by simp
next
  case False
  then show ?thesis by (auto simp: c_tolower_def Let_def)
qed

lemma literal_same_char:
  assumes "fold_case fold1 (take n (drop i s)) = fold_case fold1 literal" and "n = length literal" and "i + n \<le> length s" and "k < n"
  shows "(if fold1 then c_tolower (s ! (i + k)) = c_tolower (literal ! k) else s ! (i + k) = literal ! k)"
proof -
  have "fold_case fold1 (take n (drop i s)) ! k = fold_case fold1 literal ! k" using assms(1) by simp
  then show ?thesis using assms(2-4) by (cases fold1) (simp_all add: fold_case_def)
qed

lemma piece_slash:
  assumes path: "po_domain options = Pattern_Pathname"
    and first1: "piece member1 options s term1 i (i + w)" and second1: "piece member1 options s term1 j (j + w)"
    and w: "fixed_width term1 = Some w" and k: "k < w" and slash: "s ! (j + k) = CHR ''/''"
  shows "s ! (i + k) = CHR ''/''"
proof (cases term1)
  case (Pattern_Literal offset literal)
  let ?fold = "has_flag options PATTERN_CASE_INSENSITIVE"
  have w1: "w = length literal" using w Pattern_Literal by (simp add: fixed_width_def)
  have one: "if ?fold then c_tolower (s ! (i + k)) = c_tolower (literal ! k) else s ! (i + k) = literal ! k"
    by (rule literal_same_char [of _ w]) (use first1 Pattern_Literal w1 k in \<open>simp_all add: piece_def\<close>)
  have two: "if ?fold then c_tolower (s ! (j + k)) = c_tolower (literal ! k) else s ! (j + k) = literal ! k"
    by (rule literal_same_char [of _ w]) (use second1 Pattern_Literal w1 k in \<open>simp_all add: piece_def\<close>)
  show ?thesis using one two slash c_tolower_slash [of "s ! (i + k)"] c_tolower_slash [of "s ! (j + k)"] by (auto split: if_splits)
next
  case (Pattern_Any_Character offset)
  then show ?thesis using second1 slash path w k
    by (auto simp: piece_def fixed_width_def ash_pattern_wildcard_allowed_def c_char_def)
next
  case (Pattern_Bracket offset span)
  then show ?thesis using second1 slash path w k
    by (auto simp: piece_def fixed_width_def ash_pattern_wildcard_allowed_def c_char_def)
qed (use w in \<open>simp_all add: fixed_width_def\<close>)

lemma run_slash:
  assumes path: "po_domain options = Pattern_Pathname"
  shows "fixed_run member1 options s run i i1 \<Longrightarrow> fixed_run member1 options s run j j1 \<Longrightarrow> k < run_width run \<Longrightarrow>
    s ! (j + k) = CHR ''/'' \<Longrightarrow> s ! (i + k) = CHR ''/''"
proof (induction run arbitrary: i j k)
  case (Cons term1 run)
  then obtain w where w: "fixed_width term1 = Some w" by (auto split: option.splits)
  show ?case
  proof (cases "k < w")
    case True
    have "piece member1 options s term1 i (i + w)" "piece member1 options s term1 j (j + w)"
      using Cons.prems(1,2) w by simp_all
    then show ?thesis using piece_slash [OF path _ _ w True Cons.prems(4)] by blast
  next
    case False
    then show ?thesis using Cons.IH [of "i + w" "j + w" "k - w"] Cons.prems w by (simp add: add.assoc)
  qed
qed simp

text \<open>
  The reason why one place to go back to is enough: when the terms after a \<open>*\<close> match in two places, the
  \<open>*\<close> that follows them can take what lies between the two ends.
\<close>

lemma shifted_run_allowed:
  assumes one: "fixed_run member1 options s run r i" and two: "fixed_run member1 options s run j i1" and "r < j"
    and star: "list_all (ash_pattern_wildcard_allowed options s) [r..<j]" and bound: "i1 \<le> length s"
  shows "list_all (ash_pattern_wildcard_allowed options s) [r..<i1]"
proof (cases "po_domain options = Pattern_Pathname")
  case False
  then show ?thesis by (simp add: list_all_iff ash_pattern_wildcard_allowed_def)
next
  case path: True
  have widths: "i = r + run_width run" "i1 = j + run_width run" using fixed_run_width one two by blast+
  have visible: "ash_pattern_wildcard_allowed options s k" if "r \<le> k" "k < j" for k
    using star that by (simp add: list_all_iff)
  have clear: "s ! k \<noteq> CHR ''/''" if "r \<le> k" "k < i1" for k
    using that
  proof (induction k rule: less_induct)
    case (less k)
    show ?case
    proof (cases "k < j")
      case True
      then show ?thesis using visible [of k] less.prems path bound by (simp add: ash_pattern_wildcard_allowed_def c_char_def)
    next
      case False
      then have k: "k - j < run_width run" "j + (k - j) = k" using less.prems widths by simp_all
      have "r + (k - j) < k" "r \<le> r + (k - j)" using \<open>r < j\<close> False by simp_all
      then have "s ! (r + (k - j)) \<noteq> CHR ''/''" using less by simp
      then show ?thesis using run_slash [OF path one two k(1)] k(2) by auto
    qed
  qed
  have "ash_pattern_wildcard_allowed options s k" if "r \<le> k" "k < i1" for k
  proof (cases "k < j")
    case True
    then show ?thesis using visible that by simp
  next
    case False
    then have "k \<noteq> 0" "s ! (k - 1) \<noteq> CHR ''/''" "k - 1 < length s"
      using clear [of "k - 1"] that \<open>r < j\<close> bound by simp_all
    then show ?thesis using clear [OF that] bound that by (simp add: ash_pattern_wildcard_allowed_def c_char_def)
  qed
  then show ?thesis by (simp add: list_all_iff)
qed

text \<open>What going back can still find.\<close>

definition retry_accepts :: "(string \<Rightarrow> char \<Rightarrow> bool) \<Rightarrow> ash_pattern_options \<Rightarrow> string \<Rightarrow> pattern_retry \<Rightarrow> bool" where
  "retry_accepts member1 options s retry \<longleftrightarrow>
     (case retry of
        None \<Rightarrow> False
      | Some (r, after_star) \<Rightarrow>
          \<exists>j>r. j \<le> length s \<and> list_all (ash_pattern_wildcard_allowed options s) [r..<j] \<and>
            pattern_accepts member1 options s after_star j)"

text \<open>The terms after the last \<open>*\<close> have matched from the place to go back to up to the current index.\<close>

definition retry_inv :: "(string \<Rightarrow> char \<Rightarrow> bool) \<Rightarrow> ash_pattern_options \<Rightarrow> string \<Rightarrow> ash_pattern_term list \<Rightarrow> nat \<Rightarrow> pattern_retry \<Rightarrow> bool" where
  "retry_inv member1 options s terms i retry \<longleftrightarrow>
     i \<le> length s \<and>
     (case retry of
        None \<Rightarrow> True
      | Some (r, after_star) \<Rightarrow> r \<le> length s \<and> (\<exists>run. after_star = run @ terms \<and> fixed_run member1 options s run r i))"

lemma retry_inv_fixed:
  assumes "retry_inv member1 options s (term1 # terms) i retry" and "fixed_width term1 = Some w" and "piece member1 options s term1 i (i + w)"
  shows "retry_inv member1 options s terms (i + w) retry"
proof (cases retry)
  case None
  then show ?thesis using assms(1) piece_bound [OF assms(3,2)] by (simp add: retry_inv_def)
next
  case (Some a)
  then obtain r after_star run where retry: "retry = Some (r, after_star)" "r \<le> length s" "after_star = run @ term1 # terms"
    and run: "fixed_run member1 options s run r i"
    using assms(1) by (cases a) (auto simp: retry_inv_def)
  have "fixed_run member1 options s (run @ [term1]) r (i + w)"
    using run assms(2,3) by (auto simp: fixed_run_append)
  then show ?thesis using retry piece_bound [OF assms(3,2)]
    unfolding retry_inv_def by (auto intro!: exI [of _ "run @ [term1]"])
qed

lemma retry_step:
  assumes "r < length s" and "ash_pattern_wildcard_allowed options s r"
  shows "retry_accepts member1 options s (Some (r, after_star)) \<longleftrightarrow>
    pattern_accepts member1 options s after_star (r + 1) \<or> retry_accepts member1 options s (Some (r + 1, after_star))"
proof
  assume "retry_accepts member1 options s (Some (r, after_star))"
  then obtain j where j: "r < j" "j \<le> length s" "list_all (ash_pattern_wildcard_allowed options s) [r..<j]"
    "pattern_accepts member1 options s after_star j" by (auto simp: retry_accepts_def)
  show "pattern_accepts member1 options s after_star (r + 1) \<or> retry_accepts member1 options s (Some (r + 1, after_star))"
  proof (cases "j = r + 1")
    case False
    then show ?thesis using j by (auto simp: retry_accepts_def list_all_iff intro!: exI [of _ j])
  qed (use j in simp)
next
  assume "pattern_accepts member1 options s after_star (r + 1) \<or> retry_accepts member1 options s (Some (r + 1, after_star))"
  then show "retry_accepts member1 options s (Some (r, after_star))"
  proof
    assume "pattern_accepts member1 options s after_star (r + 1)"
    then show ?thesis using assms by (auto simp: retry_accepts_def intro!: exI [of _ "r + 1"])
  next
    assume "retry_accepts member1 options s (Some (r + 1, after_star))"
    then obtain j where j: "r + 1 < j" "j \<le> length s" "list_all (ash_pattern_wildcard_allowed options s) [r + 1..<j]"
      "pattern_accepts member1 options s after_star j" by (auto simp: retry_accepts_def)
    have "[r..<j] = r # [r + 1..<j]" using j(1) by (simp add: upt_conv_Cons)
    then show ?thesis using j assms(2) by (auto simp: retry_accepts_def intro!: exI [of _ j])
  qed
qed

lemma retry_end:
  assumes "r \<ge> length s \<or> \<not> ash_pattern_wildcard_allowed options s r"
  shows "\<not> retry_accepts member1 options s (Some (r, after_star))"
  using assms by (auto simp: retry_accepts_def list_all_iff)


text \<open>Separators are terms only in patterns of path names.\<close>

definition separators_ok :: "ash_pattern_options \<Rightarrow> ash_pattern_term list \<Rightarrow> bool" where
  "separators_ok options terms \<longleftrightarrow>
     list_all (\<lambda>term1. case term1 of Pattern_Path_Separator _ \<Rightarrow> po_domain options = Pattern_Pathname | _ \<Rightarrow> True) terms"

lemma separators_ok_simps [simp]:
  "separators_ok options []"
  "separators_ok options (terms1 @ terms2) \<longleftrightarrow> separators_ok options terms1 \<and> separators_ok options terms2"
  "separators_ok options (term1 # terms) \<longleftrightarrow>
     (case term1 of Pattern_Path_Separator _ \<Rightarrow> po_domain options = Pattern_Pathname | _ \<Rightarrow> True) \<and> separators_ok options terms"
  by (auto simp: separators_ok_def)

lemma fixed_separators_ok: "list_all (\<lambda>term1. fixed_width term1 \<noteq> None) run \<Longrightarrow> separators_ok options run"
  by (auto simp: separators_ok_def list_all_iff fixed_width_def split: ash_pattern_term.splits)

lemma c_char_end: "c_string s \<Longrightarrow> c_char s i = CHR 0x00 \<longleftrightarrow> length s \<le> i"
  unfolding c_char_def c_string_def by (metis not_le nth_mem)

lemma upt_split: "i \<le> j \<Longrightarrow> j \<le> k \<Longrightarrow> [i..<k] = [i..<j] @ [j..<k]" for i j k :: nat
  by (metis le_add_diff_inverse upt_add_eq_append)

lemma star_accepts:
  "pattern_accepts member1 options s (Pattern_Any_String offset # terms) i \<longleftrightarrow>
     (ash_pattern_wildcard_allowed options s i \<or> c_char s i = CHR ''/'') \<and>
     (\<exists>j\<ge>i. j \<le> length s \<and> list_all (ash_pattern_wildcard_allowed options s) [i..<j] \<and> pattern_accepts member1 options s terms j)"
  by (auto simp: piece_def less_Suc_eq_le)

lemma star_retry:
  assumes "ash_pattern_wildcard_allowed options s i \<or> c_char s i = CHR ''/''" and "i \<le> length s"
  shows "pattern_accepts member1 options s (Pattern_Any_String offset # terms) i \<longleftrightarrow>
    pattern_accepts member1 options s terms i \<or> retry_accepts member1 options s (Some (i, terms))"
proof -
  have "(\<exists>j\<ge>i. j \<le> length s \<and> list_all (ash_pattern_wildcard_allowed options s) [i..<j] \<and> pattern_accepts member1 options s terms j) \<longleftrightarrow>
    pattern_accepts member1 options s terms i \<or> retry_accepts member1 options s (Some (i, terms))"
    using assms(2) by (auto simp: retry_accepts_def le_less)
  then show ?thesis using assms(1) unfolding star_accepts by blast
qed

text \<open>What going back could find lies beyond the current index, and everything up to there is allowed.\<close>

lemma retry_beyond:
  assumes "retry_inv member1 options s terms i retry" and "retry_accepts member1 options s retry"
  obtains i1 where "i < i1" and "i1 \<le> length s" and "list_all (ash_pattern_wildcard_allowed options s) [i..<i1]"
    and "pattern_accepts member1 options s terms i1"
proof -
  from assms obtain r run j where run: "fixed_run member1 options s run r i" and "r < j" and "j \<le> length s"
    and star: "list_all (ash_pattern_wildcard_allowed options s) [r..<j]" and found: "pattern_accepts member1 options s (run @ terms) j"
    by (auto simp: retry_inv_def retry_accepts_def split: option.splits prod.splits)
  from found have two: "fixed_run member1 options s run j (j + run_width run)" and rest: "pattern_accepts member1 options s terms (j + run_width run)"
    unfolding accepts_run [OF fixed_run_fixed [OF run]] by simp_all
  have bound: "j + run_width run \<le> length s" using fixed_run_bound [OF two] \<open>j \<le> length s\<close> .
  have i: "i = r + run_width run" by (rule fixed_run_width [OF run])
  have "list_all (ash_pattern_wildcard_allowed options s) [r..<j + run_width run]"
    by (rule shifted_run_allowed [OF run two \<open>r < j\<close> star bound])
  then have "list_all (ash_pattern_wildcard_allowed options s) [i..<j + run_width run]"
    using i by (simp add: list_all_iff)
  then show ?thesis using that [of "j + run_width run"] i \<open>r < j\<close> bound rest by simp
qed

lemma retry_star:
  assumes "retry_inv member1 options s (Pattern_Any_String offset # terms) i retry" and "retry_accepts member1 options s retry"
    and "ash_pattern_wildcard_allowed options s i \<or> c_char s i = CHR ''/''"
  shows "pattern_accepts member1 options s (Pattern_Any_String offset # terms) i"
proof -
  obtain i1 where i1: "i < i1" "list_all (ash_pattern_wildcard_allowed options s) [i..<i1]"
    "pattern_accepts member1 options s (Pattern_Any_String offset # terms) i1"
    using retry_beyond [OF assms(1,2)] by blast
  then obtain j where j: "i1 \<le> j" "j \<le> length s" "list_all (ash_pattern_wildcard_allowed options s) [i1..<j]"
    "pattern_accepts member1 options s terms j" unfolding star_accepts by blast
  have "list_all (ash_pattern_wildcard_allowed options s) [i..<j]"
    using i1 j upt_split [of i i1 j] by simp
  then show ?thesis unfolding star_accepts using assms(3) i1(1) j by (meson le_trans less_imp_le)
qed

section \<open>The matcher finds what the pattern stands for\<close>

definition terms_ok :: "c_fnmatch_call \<Rightarrow> (nat \<Rightarrow> bool) \<Rightarrow> ash_pattern_options \<Rightarrow> ash_pattern_term list \<Rightarrow> string \<Rightarrow> bool" where
  "terms_ok fnm avail options terms s \<longleftrightarrow> separators_ok options terms \<and> brackets_decided fnm avail options terms s"

lemma terms_ok_simps [simp]:
  "terms_ok fnm avail options (terms1 @ terms2) s \<longleftrightarrow> terms_ok fnm avail options terms1 s \<and> terms_ok fnm avail options terms2 s"
  "terms_ok fnm avail options (term1 # terms) s \<longleftrightarrow> terms_ok fnm avail options [term1] s \<and> terms_ok fnm avail options terms s"
  by (auto simp: terms_ok_def brackets_decided_def)

text \<open>What one round does to the set of matches that are left.\<close>

definition round_right :: "(string \<Rightarrow> char \<Rightarrow> bool) \<Rightarrow> ash_pattern_options \<Rightarrow> string \<Rightarrow> ash_pattern_term list \<Rightarrow> nat \<Rightarrow>
    pattern_retry \<Rightarrow> round_result \<Rightarrow> bool" where
  "round_right member1 options s terms i retry round1 \<longleftrightarrow>
     (case round1 of
        Round_Done \<Rightarrow> pattern_accepts member1 options s terms i
      | Round_Error \<Rightarrow> False
      | Round_Failed \<Rightarrow> \<not> pattern_accepts member1 options s terms i
      | Round_Next terms1 j retry1 \<Rightarrow>
          retry_inv member1 options s terms1 j retry1 \<and> (\<exists>before. terms = before @ terms1) \<and>
          (retry1 = None \<or> retry1 = retry \<or> retry1 = Some (j, terms1)) \<and>
          (pattern_accepts member1 options s terms1 j \<or> retry_accepts member1 options s retry1 \<longleftrightarrow>
           pattern_accepts member1 options s terms i \<or> retry_accepts member1 options s retry))"

lemma round_right_fixed:
  assumes "retry_inv member1 options s (term1 # terms) i retry" and "fixed_width term1 = Some w"
  shows "piece member1 options s term1 i (i + w) \<Longrightarrow> round_right member1 options s (term1 # terms) i retry (Round_Next terms (i + w) retry)"
    and "\<not> piece member1 options s term1 i (i + w) \<Longrightarrow> round_right member1 options s (term1 # terms) i retry Round_Failed"
  using retry_inv_fixed [OF assms] accepts_fixed [OF assms(2)] by (auto simp: round_right_def simp del: pattern_accepts.simps)

lemma round_right_star:
  assumes inv: "retry_inv member1 options s (Pattern_Any_String offset # terms) i retry"
    and entry: "ash_pattern_wildcard_allowed options s i \<or> c_char s i = CHR ''/''"
  shows "round_right member1 options s (Pattern_Any_String offset # terms) i retry (Round_Next terms i (Some (i, terms)))"
proof -
  have bound: "i \<le> length s" using inv by (simp add: retry_inv_def)
  have "retry_inv member1 options s terms i (Some (i, terms))"
    using bound unfolding retry_inv_def by (auto intro!: exI [of _ "[]"])
  then show ?thesis
    using star_retry [OF entry bound] retry_star [OF inv _ entry] by (auto simp: round_right_def simp del: pattern_accepts.simps)
qed

lemma round_right_separator:
  assumes inv: "retry_inv member1 options s (Pattern_Path_Separator offset # terms) i retry"
    and path: "po_domain options = Pattern_Pathname" and slash: "c_char s i = CHR ''/''"
  shows "round_right member1 options s (Pattern_Path_Separator offset # terms) i retry (Round_Next terms (i + 1) None)"
proof -
  have "c_char s i \<noteq> CHR 0x00" using slash by simp
  then have "i < length s" by (rule c_char_inside)
  then have here: "i < length s" "s ! i = CHR ''/''" using slash by (simp_all add: c_char_def)
  have "\<not> retry_accepts member1 options s retry"
  proof
    assume "retry_accepts member1 options s retry"
    then obtain i1 where "i < i1" "list_all (ash_pattern_wildcard_allowed options s) [i..<i1]"
      using retry_beyond [OF inv] by blast
    then have "ash_pattern_wildcard_allowed options s i" by (simp add: list_all_iff)
    then show False using path slash by (simp add: ash_pattern_wildcard_allowed_def)
  qed
  moreover have "pattern_accepts member1 options s (Pattern_Path_Separator offset # terms) i \<longleftrightarrow>
      pattern_accepts member1 options s terms (i + 1)"
  proof
    assume "pattern_accepts member1 options s (Pattern_Path_Separator offset # terms) i"
    then show "pattern_accepts member1 options s terms (i + 1)" by (auto simp: piece_def)
  next
    assume "pattern_accepts member1 options s terms (i + 1)"
    then show "pattern_accepts member1 options s (Pattern_Path_Separator offset # terms) i"
      unfolding pattern_accepts.simps using here by (intro bexI [of _ "i + 1"]) (auto simp: piece_def)
  qed
  ultimately show ?thesis using here by (auto simp: round_right_def retry_inv_def retry_accepts_def simp del: pattern_accepts.simps)
qed

lemma pattern_round_right:
  assumes s: "c_string s" and inv: "retry_inv (bracket_has fnm avail options) options s terms i retry"
    and ok: "terms_ok fnm avail options terms s"
  shows "round_right (bracket_has fnm avail options) options s terms i retry (pattern_round fnm avail options s terms i retry)"
proof (cases terms)
  case Nil
  have "i \<le> length s" using inv by (simp add: retry_inv_def)
  then show ?thesis using Nil c_char_end [OF s, of i] by (auto simp: pattern_round_def round_right_def)
next
  case (Cons term1 rest)
  note inv1 = inv [unfolded Cons]
  have bound: "i \<le> length s" using inv by (simp add: retry_inv_def)
  let ?member = "bracket_has fnm avail options"
  show ?thesis
  proof (cases term1)
    case (Pattern_Literal offset literal)
    then have width: "fixed_width term1 = Some (length literal)" by (simp add: fixed_width_def)
    show ?thesis
      using round_right_fixed [OF inv1 width] literal_piece [OF s bound, of literal options ?member offset]
      unfolding Cons Pattern_Literal by (simp add: pattern_round_def split: if_splits)
  next
    case (Pattern_Any_String offset)
    then show ?thesis
      using round_right_star [OF inv1 [unfolded Pattern_Any_String]] unfolding Cons Pattern_Any_String
      by (auto simp: pattern_round_def round_right_def star_accepts simp del: pattern_accepts.simps)
  next
    case (Pattern_Any_Character offset)
    then have width: "fixed_width term1 = Some 1" by (simp add: fixed_width_def)
    show ?thesis
      using round_right_fixed [OF inv1 width] c_char_end [OF s, of i]
      unfolding Cons Pattern_Any_Character by (auto simp: pattern_round_def piece_def)
  next
    case (Pattern_Bracket offset span)
    then have width: "fixed_width term1 = Some 1" by (simp add: fixed_width_def)
    let ?result = "ash_pattern_bracket fnm avail span (c_char s i) (has_flag options PATTERN_CASE_INSENSITIVE)"
    have "?result \<noteq> Pattern_Match_Error" if "i < length s"
      using ok that unfolding Cons Pattern_Bracket
      by (simp add: terms_ok_def brackets_decided_def list_all_iff c_char_def)
    then have "?result \<noteq> Pattern_Match_Error" "?result \<noteq> Pattern_Match_Unsupported" if "i < length s"
      using that bracket_unsupported by simp_all
    moreover have "?member span (s ! i) \<longleftrightarrow> ?result = Pattern_Match" if "i < length s"
      using that by (simp add: bracket_has_def c_char_def)
    ultimately show ?thesis
      using round_right_fixed [OF inv1 width] c_char_end [OF s, of i]
      unfolding Cons Pattern_Bracket
      by (cases ?result) (auto simp: pattern_round_def piece_def)
  next
    case (Pattern_Path_Separator offset)
    have path: "po_domain options = Pattern_Pathname" using ok unfolding Cons Pattern_Path_Separator by (simp add: terms_ok_def)
    show ?thesis
      using round_right_separator [OF inv1 [unfolded Pattern_Path_Separator] path]
      unfolding Cons Pattern_Path_Separator
      by (auto simp: pattern_round_def round_right_def piece_def c_char_def)
  next
    case (Pattern_Globstar_Term offset)
    then show ?thesis unfolding Cons by (simp add: pattern_round_def round_right_def piece_def)
  next
    case (Pattern_Extglob_Term offset operator alternatives)
    then show ?thesis unfolding Cons by (simp add: pattern_round_def round_right_def piece_def)
  qed
qed

lemma pattern_loop_right:
  assumes "c_string s" and "retry_inv (bracket_has fnm avail options) options s terms i retry"
    and "terms_ok fnm avail options terms s"
    and "case retry of None \<Rightarrow> True | Some (r, after_star) \<Rightarrow> terms_ok fnm avail options after_star s"
  shows "pattern_loop fnm avail options s terms i retry =
    (if pattern_accepts (bracket_has fnm avail options) options s terms i \<or> retry_accepts (bracket_has fnm avail options) options s retry
     then Pattern_Match else Pattern_No_Match)"
  using assms
proof (induction fnm avail options s terms i retry rule: pattern_loop.induct)
  case (1 fnm avail options s terms i retry)
  let ?member = "bracket_has fnm avail options"
  note right = pattern_round_right [OF "1.prems"(1-3)]
  show ?case
  proof (cases "pattern_round fnm avail options s terms i retry")
    case Round_Done
    then show ?thesis using right by (simp add: pattern_loop.simps [of fnm avail options s terms i retry] round_right_def)
  next
    case Round_Error
    then show ?thesis using right by (simp add: round_right_def)
  next
    case (Round_Next terms1 j retry1)
    note step = right [unfolded Round_Next round_right_def round_result.case]
    obtain before where before: "terms = before @ terms1" using step by blast
    have ok1: "terms_ok fnm avail options terms1 s" using "1.prems"(3) unfolding before by simp
    have "case retry1 of None \<Rightarrow> True | Some (r, after_star) \<Rightarrow> terms_ok fnm avail options after_star s"
      using step "1.prems"(4) ok1 by (auto split: option.splits)
    then show ?thesis
      using "1.IH"(2) [OF Round_Next "1.prems"(1)] step ok1 Round_Next
      by (simp add: pattern_loop.simps [of fnm avail options s terms i retry])
  next
    case Round_Failed
    then have no: "\<not> pattern_accepts ?member options s terms i" using right by (simp add: round_right_def)
    show ?thesis
    proof (cases retry)
      case None
      then show ?thesis using Round_Failed no
        by (simp add: pattern_loop.simps [of fnm avail options s terms i None] retry_accepts_def)
    next
      case (Some a)
      then obtain r after_star where retry: "retry = Some (r, after_star)" by (cases a) auto
      show ?thesis
      proof (cases "c_char s r = CHR 0x00 \<or> \<not> ash_pattern_wildcard_allowed options s r")
        case True
        have "\<not> retry_accepts ?member options s (Some (r, after_star))"
          by (rule retry_end) (use True c_char_end [OF "1.prems"(1), of r] in auto)
        then show ?thesis using Round_Failed no True unfolding retry
          by (simp add: pattern_loop.simps [of fnm avail options s terms i "Some (r, after_star)"])
      next
        case False
        then have r: "r < length s" "ash_pattern_wildcard_allowed options s r" using c_char_inside [of s r] by simp_all
        have inv: "retry_inv ?member options s after_star (r + 1) (Some (r + 1, after_star))"
          using r unfolding retry_inv_def by (auto intro!: exI [of _ "[]"])
        show ?thesis
          using "1.IH"(1) [OF Round_Failed retry refl False "1.prems"(1) inv] "1.prems"(4) Round_Failed no False
            retry_step [OF r, of ?member after_star]
          unfolding retry by (simp add: pattern_loop.simps [of fnm avail options s terms i "Some (r, after_star)"])
      qed
    qed
  qed
qed

section \<open>What the compiler makes\<close>

lemma extend_literal_separators:
  "separators_ok options (fst sequence) \<Longrightarrow> extend_literal avail text1 sequence = Some sequence1 \<Longrightarrow> fst sequence \<noteq> [] \<Longrightarrow>
   separators_ok options (fst sequence1)"
  by (cases "fst sequence" rule: rev_cases)
    (auto simp: extend_literal_def split: prod.splits ash_pattern_term.splits if_splits)

lemma take_term_terms:
  "ash_pattern_sequence_take_term avail sequence term1 = Some sequence1 \<Longrightarrow> fst sequence1 = fst sequence @ [term1]"
  by (auto simp: ash_pattern_sequence_take_term_def split: prod.splits option.splits)

lemma append_literal_separators:
  assumes "separators_ok options (fst sequence)" and "ash_pattern_append_literal avail sequence offset text1 = Some sequence1"
  shows "separators_ok options (fst sequence1)"
proof (cases "ends_in_literal (fst sequence)")
  case True
  then show ?thesis using assms extend_literal_separators by (auto simp: ash_pattern_append_literal_def ends_in_literal_def)
next
  case False
  then obtain sequence2 where "ash_pattern_sequence_take_term avail sequence (Pattern_Literal offset []) = Some sequence2"
    and next1: "extend_literal avail text1 sequence2 = Some sequence1"
    using assms(2) by (auto simp: ash_pattern_append_literal_def split: option.splits)
  then have "separators_ok options (fst sequence2) \<and> fst sequence2 \<noteq> []" using assms(1) by (auto dest: take_term_terms)
  then show ?thesis using extend_literal_separators [OF _ next1] by blast
qed

lemma compile_character_separators:
  "separators_ok options (fst sequence) \<Longrightarrow>
   compile_character avail options offset c cs sequence features = Inr (sequence1, features1, rest) \<Longrightarrow>
   separators_ok options (fst sequence1)"
  unfolding compile_character_def Let_def
  by (auto simp: parsed_Inr dest: append_literal_separators take_term_terms split: if_splits option.splits prod.splits)

lemma compile_separators:
  "ash_pattern_compile_sequence avail options extent alternative nesting text1 sequence features = Inr (sequence1, features1, rest) \<Longrightarrow>
   separators_ok options (fst sequence) \<Longrightarrow> separators_ok options (fst sequence1)"
  "compile_alternatives avail options extent nesting text1 alternatives capacity features = r \<Longrightarrow> True"
proof (induction avail options extent alternative nesting text1 sequence features
      and avail options extent nesting text1 alternatives capacity features
      arbitrary: sequence1 features1 rest and r
      rule: ash_pattern_compile_sequence_compile_alternatives.induct)
  case (1 avail options extent alternative nesting sequence features)
  then show ?case by (simp add: ash_pattern_compile_sequence.simps)
next
  case (2 avail options extent alternative nesting c cs sequence features)
  show ?case
  proof (cases "alternative \<and> (c = CHR ''|'' \<or> c = CHR '')'')")
    case True
    then show ?thesis using "2.prems" by (simp add: ash_pattern_compile_sequence.simps)
  next
    case False
    note unfolded = "2.prems"(1) [unfolded ash_pattern_compile_sequence.simps(2) if_not_P [OF False] Let_def]
    show ?thesis
    proof (cases "begins_extglob options (c # cs)")
      case None
      from unfolded obtain sequence2 features2 rest2 where
        step: "compile_character avail options (extent - length (c # cs)) c cs sequence features = Inr (sequence2, features2, rest2)"
        and next1: "ash_pattern_compile_sequence avail options extent alternative nesting rest2 sequence2 features2 = Inr (sequence1, features1, rest)"
        unfolding None by (auto split: sum.splits)
      show ?thesis
        using "2.IH"(1) [OF False refl None step refl refl next1] compile_character_separators [OF "2.prems"(2) step] by blast
    next
      case (Some operator)
      from unfolded obtain alternatives features2 rest2 sequence2 where
        inner: "compile_alternatives avail options extent (nesting + 1) (tl cs) [] 0 features = Inr (alternatives, features2, rest2)"
        and guard: "\<not> nesting \<ge> PATTERN_MAX_NESTING" "\<not> \<not> avail 24"
        and taken: "ash_pattern_sequence_take_term avail sequence
          (Pattern_Extglob_Term (extent - length (c # cs)) operator alternatives) = Some sequence2"
        and next1: "ash_pattern_compile_sequence avail options extent alternative nesting rest2 sequence2
          (features2 OR REQUIRES_EXTGLOB) = Inr (sequence1, features1, rest)"
        unfolding Some by (auto split: if_splits sum.splits option.splits)
      show ?thesis
        using "2.IH"(3) [OF False refl Some guard inner refl refl taken next1] "2.prems"(2) take_term_terms [OF taken] by simp
    qed
  qed
qed simp

text \<open>
  C38: a compiled pattern matches exactly the texts that can be cut into pieces for its terms, although the
  matcher never goes back beyond the last \<open>*\<close>; the rules for slashes and leading dots of path names hold.
\<close>

theorem pattern_match_exact:
  assumes compiled: "ash_pattern_compile avail source options = Inr pattern" and value1: "c_string value1"
    and plain: "pa_required_features pattern = 0" and decided: "brackets_decided fnm avail options (pa_root pattern) value1"
  shows "ash_pattern_match fnm avail pattern value1 =
    (if even (trailing_backslashes source) \<and> pattern_accepts (bracket_has fnm avail options) options value1 (pa_root pattern) 0
     then Pattern_Match else Pattern_No_Match)"
proof -
  from compiled obtain cap features where valid: "ash_pattern_options_valid options" and same: "pa_options pattern = options" "pa_source pattern = source"
    and run: "ash_pattern_compile_sequence avail options (length source) False 0 source ([], 0) 0 = Inr ((pa_root pattern, cap), features, [])"
    by (auto simp: ash_pattern_compile_def split: if_splits sum.splits prod.splits)
  have "terms_ok fnm avail options (pa_root pattern) value1"
    using compile_separators(1) [OF run] decided by (simp add: terms_ok_def)
  then have "pattern_loop fnm avail options value1 (pa_root pattern) 0 None =
      (if pattern_accepts (bracket_has fnm avail options) options value1 (pa_root pattern) 0 then Pattern_Match else Pattern_No_Match)"
    using pattern_loop_right [OF value1, of fnm avail options "pa_root pattern" 0 None] by (simp add: retry_inv_def retry_accepts_def)
  then show ?thesis
    using valid same plain by (auto simp: ash_pattern_match_def odd_iff_mod_2_eq_one)
qed

definition case_options :: ash_pattern_options where
  "case_options = \<lparr>po_purpose = Pattern_Case, po_domain = Pattern_String, po_flags = 0\<rparr>"

definition star_b_pattern :: ash_pattern where
  "star_b_pattern = \<lparr>pa_options = case_options, pa_root = [Pattern_Any_String 0, Pattern_Literal 1 ''b''],
     pa_source = ''*b'', pa_required_features = 0\<rparr>"

lemma star_b_compiled: "ash_pattern_compile (\<lambda>_. True) ''*b'' case_options = Inr star_b_pattern"
  by (simp add: ash_pattern_compile_def ash_pattern_options_valid_def case_options_def has_flag_def star_b_pattern_def
      ash_pattern_compile_sequence.simps begins_extglob_def compile_character_def parsed_def ash_pattern_sequence_take_term_def
      ash_pattern_grow_def pattern_grown.simps ash_pattern_append_literal_def ends_in_literal_def extend_literal_def)

lemma pattern_match_exact_witness:
  "ash_pattern_match (\<lambda>_ _ _. Fnmatch_Error) (\<lambda>_. True) star_b_pattern ''abb'' = Pattern_Match"
proof -
  have "pattern_accepts (bracket_has (\<lambda>_ _ _. Fnmatch_Error) (\<lambda>_. True) case_options) case_options ''abb'' (pa_root star_b_pattern) 0"
    unfolding star_b_pattern_def by (simp add: piece_def case_options_def ash_pattern_wildcard_allowed_def fold_case_def has_flag_def)
  then show ?thesis
    using pattern_match_exact [OF star_b_compiled, of "''abb''" "\<lambda>_ _ _. Fnmatch_Error"]
    by (simp add: star_b_pattern_def brackets_decided_def trailing_backslashes_def)
qed

section \<open>Quoted text\<close>

text \<open>The pattern of a quoted text: a backslash before every byte.\<close>

definition quoted_text :: "string \<Rightarrow> string" where
  "quoted_text s = concat (map (\<lambda>c. [BACKSLASH, c]) s)"

lemma quoted_text_simps [simp]:
  "quoted_text [] = []" "quoted_text (c # s) = BACKSLASH # c # quoted_text s" "quoted_text (s @ t) = quoted_text s @ quoted_text t"
  by (simp_all add: quoted_text_def)

lemma compile_quoted_char:
  "ash_pattern_compile_sequence avail options extent False nesting (BACKSLASH # c # rest) sequence features =
     (case ash_pattern_append_literal avail sequence (extent - length (BACKSLASH # c # rest)) [c] of
        None \<Rightarrow> Inl Pattern_ENOMEM
      | Some sequence1 \<Rightarrow> ash_pattern_compile_sequence avail options extent False nesting rest sequence1 features)"
proof -
  have "begins_extglob options (BACKSLASH # c # rest) = None"
    by (simp add: begins_extglob_def ash_pattern_extglob_operator_def)
  then show ?thesis
    by (simp add: ash_pattern_compile_sequence.simps(2) compile_character_def escaped_char_def parsed_def split: option.splits)
qed

lemma append_to_literal:
  "ash_pattern_append_literal avail ([Pattern_Literal offset t], capacity) offset1 u =
     (if length u > size_max - length t - 1 \<or> \<not> avail (length t + length u + 1) then None
      else Some ([Pattern_Literal offset (t @ u)], capacity))"
  by (simp add: ash_pattern_append_literal_def ends_in_literal_def extend_literal_def)

lemma compile_quoted_from:
  "ash_pattern_compile_sequence avail options extent False nesting (quoted_text s) ([Pattern_Literal offset t], capacity) features =
     Inr (sequence1, features1, rest) \<Longrightarrow>
   fst sequence1 = [Pattern_Literal offset (t @ s)] \<and> features1 = features \<and> rest = []"
proof (induction s arbitrary: t)
  case Nil
  then show ?case by (auto simp: ash_pattern_compile_sequence.simps(1))
next
  case (Cons c s)
  then show ?case
    using Cons.IH [of "t @ [c]"] by (auto simp: compile_quoted_char append_to_literal split: if_splits)
qed

lemma compile_quoted:
  assumes "ash_pattern_compile avail (quoted_text s) options = Inr pattern"
  shows "pa_options pattern = options \<and> pa_source pattern = quoted_text s \<and> pa_required_features pattern = 0 \<and>
    pa_root pattern = (if s = [] then [] else [Pattern_Literal 0 s])"
proof -
  from assms obtain cap where same: "pa_options pattern = options" "pa_source pattern = quoted_text s"
    and run: "ash_pattern_compile_sequence avail options (length (quoted_text s)) False 0 (quoted_text s) ([], 0) 0 =
      Inr ((pa_root pattern, cap), pa_required_features pattern, [])"
    by (auto simp: ash_pattern_compile_def split: if_splits sum.splits prod.splits)
  show ?thesis
  proof (cases s)
    case Nil
    then show ?thesis using run same by (simp add: ash_pattern_compile_sequence.simps(1))
  next
    case (Cons c t)
    from run obtain capacity where "ash_pattern_compile_sequence avail options (length (quoted_text s)) False 0 (quoted_text t)
        ([Pattern_Literal 0 [c]], capacity) 0 = Inr ((pa_root pattern, cap), pa_required_features pattern, [])"
      unfolding Cons
      by (auto simp: compile_quoted_char ash_pattern_append_literal_def ends_in_literal_def ash_pattern_sequence_take_term_def
          extend_literal_def split: option.splits if_splits)
    from compile_quoted_from [OF this] show ?thesis using same Cons by simp
  qed
qed

lemma quoted_trailing: "even (trailing_backslashes (quoted_text s))"
proof (induction s rule: rev_induct)
  case (snoc c s)
  show ?case
  proof (cases "c = BACKSLASH")
    case True
    then show ?thesis using snoc by (simp add: trailing_backslashes_def)
  next
    case False
    then show ?thesis by (simp add: trailing_backslashes_def)
  qed
qed (simp add: trailing_backslashes_def)

lemma quoted_accepts:
  "pattern_accepts member1 options value1 (if s = [] then [] else [Pattern_Literal 0 s]) 0 \<longleftrightarrow>
     fold_case (has_flag options PATTERN_CASE_INSENSITIVE) value1 = fold_case (has_flag options PATTERN_CASE_INSENSITIVE) s"
proof (cases "s = []")
  case True
  then show ?thesis by (auto simp: fold_case_def)
next
  case False
  have width: "fixed_width (Pattern_Literal 0 s) = Some (length s)" by (simp add: fixed_width_def)
  have "length (fold_case b x) = length x" for b x by (simp add: fold_case_def)
  then have same: "length value1 = length s"
    if "fold_case (has_flag options PATTERN_CASE_INSENSITIVE) value1 = fold_case (has_flag options PATTERN_CASE_INSENSITIVE) s"
    using arg_cong [OF that, of length] by simp
  show ?thesis
    using False same unfolding if_not_P [OF False] accepts_fixed [OF width] by (auto simp: piece_def)
qed

text \<open>
  C40: a pattern whose bytes are all quoted matches exactly the text itself (up to case when case is
  ignored), whatever the text contains.
\<close>

theorem pattern_quoted_itself:
  assumes "ash_pattern_compile avail (quoted_text s) options = Inr pattern" and "c_string value1"
  shows "ash_pattern_match fnm avail pattern value1 =
    (if fold_case (has_flag options PATTERN_CASE_INSENSITIVE) value1 = fold_case (has_flag options PATTERN_CASE_INSENSITIVE) s
     then Pattern_Match else Pattern_No_Match)"
proof -
  note made = compile_quoted [OF assms(1)]
  have valid: "ash_pattern_options_valid options" using assms(1) by (auto simp: ash_pattern_compile_def split: if_splits)
  have "terms_ok fnm avail options (if s = [] then [] else [Pattern_Literal 0 s]) value1"
    by (simp add: terms_ok_def brackets_decided_def)
  then have "pattern_loop fnm avail options value1 (if s = [] then [] else [Pattern_Literal 0 s]) 0 None =
      (if pattern_accepts (bracket_has fnm avail options) options value1 (if s = [] then [] else [Pattern_Literal 0 s]) 0
       then Pattern_Match else Pattern_No_Match)"
    using pattern_loop_right [OF assms(2), of fnm avail options _ 0 None] by (simp add: retry_inv_def retry_accepts_def)
  then show ?thesis
    using made valid quoted_trailing [of s] quoted_accepts [of "bracket_has fnm avail options" options value1 s]
    by (simp add: ash_pattern_match_def even_iff_mod_2_eq_zero)
qed

lemma pattern_quoted_itself_witness:
  "\<exists>pattern. ash_pattern_compile (\<lambda>_. True) (quoted_text ''*'') case_options = Inr pattern \<and>
     ash_pattern_match (\<lambda>_ _ _. Fnmatch_Error) (\<lambda>_. True) pattern ''a'' = Pattern_No_Match"
proof -
  have "ash_pattern_compile (\<lambda>_. True) (quoted_text ''*'') case_options =
      Inr \<lparr>pa_options = case_options, pa_root = [Pattern_Literal 0 ''*''], pa_source = [BACKSLASH, CHR ''*''], pa_required_features = 0\<rparr>"
    by (simp add: ash_pattern_compile_def ash_pattern_options_valid_def case_options_def has_flag_def
        ash_pattern_compile_sequence.simps begins_extglob_def compile_character_def parsed_def ash_pattern_sequence_take_term_def
        ash_pattern_grow_def pattern_grown.simps ash_pattern_append_literal_def ends_in_literal_def extend_literal_def escaped_char_def)
  then show ?thesis
    using pattern_quoted_itself [of "\<lambda>_. True" "''*''" case_options _ "''a''" "\<lambda>_ _ _. Fnmatch_Error"]
    by (simp add: fold_case_def case_options_def has_flag_def)
qed

section \<open>Escaped members of a bracket expression\<close>

lemma escaped_member:
  "bracket_member fnm avail n character fold1 (BACKSLASH # c # quoted_text cs) =
    (if char_matches fold1 c character then Pattern_Match else Pattern_No_Match, quoted_text cs)"
proof -
  have "\<not> (length (quoted_text cs) > 1 \<and> hd (quoted_text cs) = CHR ''-'')" by (cases cs) simp_all
  then show ?thesis by (auto simp: bracket_member_def ash_pattern_bracket_atom_def literal_atom_def Let_def)
qed

lemma bracket_loop_escaped:
  "bracket_loop fnm avail n character fold1 (quoted_text cs) matched =
     Some (matched \<or> list_ex (\<lambda>c. char_matches fold1 c character) cs)"
proof (induction cs arbitrary: matched)
  case Nil
  then show ?case by (simp add: bracket_loop.simps)
next
  case (Cons c cs)
  then show ?case by (subst bracket_loop.simps) (simp add: escaped_member)
qed

text \<open>
  A bracket expression of quoted bytes stands for exactly those bytes, or for all others after \<open>!\<close> or
  \<open>^\<close>; \<open>fnmatch\<close> and the allocator have no say in it.
\<close>

lemma bracket_escaped_members:
  assumes "members \<noteq> []" and "mark \<in> {'''', ''!'', ''^''}"
  shows "ash_pattern_bracket fnm avail (CHR ''['' # mark @ quoted_text members @ '']'') character fold1 =
    (if list_ex (\<lambda>c. char_matches fold1 c character) members \<longleftrightarrow> mark = '''' then Pattern_Match else Pattern_No_Match)"
proof -
  obtain c cs where members: "members = c # cs" using assms(1) by (cases members) auto
  have escaped: "BACKSLASH \<in> set (CHR ''['' # mark @ quoted_text members @ '']'')" by (simp add: members)
  have inner: "butlast (tl (CHR ''['' # mark @ quoted_text members @ '']'')) = mark @ quoted_text members"
    by (simp add: butlast_append)
  have loop: "bracket_loop fnm avail n character fold1 (quoted_text members) False =
      Some (list_ex (\<lambda>c. char_matches fold1 c character) members)" for n
    by (simp add: bracket_loop_escaped)
  consider "mark = ''''" | "mark = ''!''" | "mark = ''^''" using assms(2) by auto
  then show ?thesis
  proof cases
    case 1
    then show ?thesis using escaped inner loop unfolding ash_pattern_bracket_def by (simp add: members)
  next
    case 2
    then show ?thesis using escaped inner loop unfolding ash_pattern_bracket_def by simp
  next
    case 3
    then show ?thesis using escaped inner loop unfolding ash_pattern_bracket_def by simp
  qed
qed

lemma bracket_escaped_members_witness:
  "ash_pattern_bracket (\<lambda>_ _ _. Fnmatch_Error) (\<lambda>_. False) (CHR ''['' # ''!'' @ quoted_text ''-]'' @ '']'') CHR ''a'' False = Pattern_Match"
  using bracket_escaped_members [of "''-]''" "''!''" "\<lambda>_ _ _. Fnmatch_Error" "\<lambda>_. False" "CHR ''a''" False]
  by (simp add: char_matches_def)

section \<open>Compilation without extensions\<close>

text \<open>
  What a compiler that has read \<open>k\<close> bytes can have made: at most \<open>k\<close> terms, and a last literal of at most
  \<open>k\<close> bytes. While \<open>k\<close> is below \<open>2 ^ 50\<close> no size that it computes is too large.
\<close>

definition within_read :: "nat \<Rightarrow> pattern_sequence \<Rightarrow> bool" where
  "within_read k sequence \<longleftrightarrow>
     length (fst sequence) \<le> k \<and>
     (ends_in_literal (fst sequence) \<longrightarrow> (case last (fst sequence) of Pattern_Literal _ t \<Rightarrow> length t \<le> k | _ \<Rightarrow> True))"

lemma pattern_grown_bound: "pattern_grown grown needed \<le> max grown (2 * needed)"
proof (induction grown needed rule: pattern_grown.induct)
  case (1 grown needed)
  then show ?case by (subst pattern_grown.simps) auto
qed

lemma grow_succeeds:
  assumes "needed \<le> 2 ^ 50" and "width1 = 32 \<or> width1 = 24"
  shows "\<exists>capacity1. ash_pattern_grow (\<lambda>_. True) capacity needed width1 = Some capacity1"
proof (cases "capacity \<ge> needed")
  case False
  have "pattern_grown (if capacity = 0 then 4 else capacity) needed \<le> 2 ^ 51 + 4"
    using pattern_grown_bound [of "if capacity = 0 then 4 else capacity" needed] assms(1) False by (simp split: if_splits)
  then show ?thesis using False assms(2) by (auto simp: ash_pattern_grow_def Let_def)
qed (simp add: ash_pattern_grow_def)

lemma take_term_within:
  assumes "within_read k sequence" and "k < 2 ^ 50" and "k < k1" and "case term1 of Pattern_Literal _ t \<Rightarrow> t = [] | _ \<Rightarrow> True"
  obtains sequence1 where "ash_pattern_sequence_take_term (\<lambda>_. True) sequence term1 = Some sequence1" "within_read k1 sequence1"
    "fst sequence1 = fst sequence @ [term1]"
proof -
  obtain terms capacity where s: "sequence = (terms, capacity)" by (cases sequence)
  have "length terms + 1 \<le> 2 ^ 50" using assms(1,2) by (simp add: within_read_def s)
  from grow_succeeds [OF this, of 32 capacity] obtain capacity1 where
    "ash_pattern_grow (\<lambda>_. True) capacity (length terms + 1) 32 = Some capacity1" by auto
  then have "ash_pattern_sequence_take_term (\<lambda>_. True) sequence term1 = Some (terms @ [term1], capacity1)"
    by (simp add: ash_pattern_sequence_take_term_def s)
  moreover have "within_read k1 (terms @ [term1], capacity1)"
    using assms by (auto simp: within_read_def s split: ash_pattern_term.splits)
  ultimately show ?thesis using that by (simp add: s)
qed

lemma extend_literal_within:
  assumes "ends_in_literal (fst sequence)" and "length (fst sequence) \<le> k1" and "k < 2 ^ 50" and "k < k1"
    and "case last (fst sequence) of Pattern_Literal _ t \<Rightarrow> length t \<le> k | _ \<Rightarrow> True"
  shows "\<exists>sequence1. extend_literal (\<lambda>_. True) [c] sequence = Some sequence1 \<and> within_read k1 sequence1"
proof -
  obtain terms capacity where s: "sequence = (terms, capacity)" by (cases sequence)
  from assms(1) obtain offset t where l: "last terms = Pattern_Literal offset t" and "terms \<noteq> []"
    by (auto simp: ends_in_literal_def s split: ash_pattern_term.splits)
  then show ?thesis using assms
    by (auto simp: extend_literal_def within_read_def s)
qed

lemma append_literal_within:
  assumes "within_read k sequence" and "k < 2 ^ 50" and "k < k1"
  shows "\<exists>sequence1. ash_pattern_append_literal (\<lambda>_. True) sequence offset [c] = Some sequence1 \<and> within_read k1 sequence1"
proof (cases "ends_in_literal (fst sequence)")
  case True
  then show ?thesis
    using extend_literal_within [OF True, of k1 k c] assms by (simp add: ash_pattern_append_literal_def within_read_def)
next
  case False
  obtain sequence1 where taken: "ash_pattern_sequence_take_term (\<lambda>_. True) sequence (Pattern_Literal offset []) = Some sequence1"
    and within: "within_read k1 sequence1" and fst1: "fst sequence1 = fst sequence @ [Pattern_Literal offset []]"
    by (rule take_term_within [OF assms, of "Pattern_Literal offset []"]) simp_all
  have "ends_in_literal (fst sequence1)" by (simp add: ends_in_literal_def fst1)
  from extend_literal_within [OF this _ assms(2,3), of c] within show ?thesis
    using False taken by (simp add: ash_pattern_append_literal_def within_read_def fst1)
qed

definition no_extensions :: "ash_pattern_options \<Rightarrow> bool" where
  "no_extensions options \<longleftrightarrow>
     \<not> has_flag options PATTERN_EXTGLOB \<and> \<not> has_flag options PATTERN_GLOBSTAR \<and> \<not> has_flag options PATTERN_ASCII_RANGES"

lemma compile_character_within:
  assumes "no_extensions options" and "within_read k sequence" and "k + length (c # cs) \<le> 2 ^ 50"
  shows "\<exists>sequence1 rest. compile_character (\<lambda>_. True) options offset c cs sequence features = Inr (sequence1, features, rest) \<and>
    length rest \<le> length cs \<and> within_read (k + length (c # cs) - length rest) sequence1"
proof -
  have flags: "\<not> has_flag options PATTERN_GLOBSTAR" "\<not> has_flag options PATTERN_ASCII_RANGES"
    using assms(1) by (simp_all add: no_extensions_def)
  have room: "k < 2 ^ 50" "k < k + length (c # cs) - length rest" if "length rest \<le> length cs" for rest
    using assms(3) that by simp_all
  have taken: "\<exists>sequence1. ash_pattern_sequence_take_term (\<lambda>_. True) sequence term1 = Some sequence1 \<and>
      within_read (k + length (c # cs) - length rest) sequence1"
    if "length rest \<le> length cs" "case term1 of Pattern_Literal _ t \<Rightarrow> t = [] | _ \<Rightarrow> True" for term1 rest
    by (rule take_term_within [OF assms(2) room [OF that(1)] that(2)]) blast
  have appended: "\<exists>sequence1. ash_pattern_append_literal (\<lambda>_. True) sequence offset [d] = Some sequence1 \<and>
      within_read (k + length (c # cs) - length rest) sequence1" if "length rest \<le> length cs" for d rest
    by (rule append_literal_within [OF assms(2) room [OF that]])
  consider "c = BACKSLASH" | "c = CHR ''*''" | "c = CHR ''?''" | rest where "c = CHR ''[''" "ash_pattern_bracket_end cs = Some rest"
    | "c \<noteq> BACKSLASH" "c \<noteq> CHR ''*''" "c \<noteq> CHR ''?''" "c = CHR ''['' \<longrightarrow> ash_pattern_bracket_end cs = None"
    by (cases "ash_pattern_bracket_end cs") blast+
  then show ?thesis
  proof cases
    case 1
    obtain d rest where e: "escaped_char cs = (d, rest)" by (cases "escaped_char cs")
    note l = escaped_char_shorter [OF e]
    show ?thesis using appended [OF l, of d] l by (auto simp: compile_character_def 1 e parsed_def)
  next
    case 2
    have l: "length (dropWhile (\<lambda>d. d = CHR ''*'') cs) \<le> length cs" by (rule length_dropWhile_le)
    show ?thesis using taken [OF l, of "Pattern_Any_String offset"] l flags
      by (auto simp: compile_character_def 2 parsed_def Let_def)
  next
    case 3
    show ?thesis using taken [of cs "Pattern_Any_Character offset"] by (auto simp: compile_character_def 3 parsed_def)
  next
    case (4 rest)
    have l: "length rest \<le> length cs" using ash_pattern_bracket_end_shorter [OF 4(2)] by simp
    have size1: "length (take (length (c # cs) - length rest) (c # cs)) < 2 ^ 51" using assms(3) by simp
    then have "ash_pattern_copy_span (\<lambda>_. True) (take (length (c # cs) - length rest) (c # cs)) =
        Some (take (length (c # cs) - length rest) (c # cs))"
      unfolding ash_pattern_copy_span_def by simp
    then show ?thesis using taken [OF l, of "Pattern_Bracket offset (take (length (c # cs) - length rest) (c # cs))"] l flags 4
      by (auto simp: compile_character_def parsed_def)
  next
    case 5
    show ?thesis using 5 taken [of cs "Pattern_Path_Separator offset"] appended [of cs c]
      by (auto simp: compile_character_def parsed_def)
  qed
qed

lemma compile_sequence_plain:
  assumes "no_extensions options" and "within_read k sequence" and "k + length text1 \<le> 2 ^ 50"
  shows "\<exists>sequence1. ash_pattern_compile_sequence (\<lambda>_. True) options extent False nesting text1 sequence features = Inr (sequence1, features, [])"
  using assms(2,3)
proof (induction "length text1" arbitrary: text1 sequence k rule: less_induct)
  case less
  show ?case
  proof (cases text1)
    case Nil
    then show ?thesis by (simp add: ash_pattern_compile_sequence.simps(1))
  next
    case (Cons c cs)
    have none: "begins_extglob options (c # cs) = None"
      using assms(1) by (auto simp: begins_extglob_def no_extensions_def split: list.splits)
    from compile_character_within [OF assms(1) less.prems(1), of c cs "extent - length (c # cs)" features] less.prems(2)
    obtain sequence1 rest where step: "compile_character (\<lambda>_. True) options (extent - length (c # cs)) c cs sequence features =
        Inr (sequence1, features, rest)"
      and shorter: "length rest \<le> length cs" and within: "within_read (k + length (c # cs) - length rest) sequence1"
      by (auto simp: Cons)
    have "\<exists>sequence2. ash_pattern_compile_sequence (\<lambda>_. True) options extent False nesting rest sequence1 features = Inr (sequence2, features, [])"
      by (rule less.hyps [OF _ within]) (use shorter less.prems(2) Cons in simp_all)
    then show ?thesis
      using step unfolding Cons by (auto simp: ash_pattern_compile_sequence.simps(2) none)
  qed
qed

text \<open>
  C39: without the extensions every pattern compiles when memory is not short, whatever its brackets,
  backslashes and parentheses are, and the matcher supports the result.
\<close>

theorem plain_pattern_compiles:
  assumes "ash_pattern_options_valid options" and "no_extensions options" and "c_string source" and "length source < 2 ^ 50"
  shows "\<exists>root. ash_pattern_compile (\<lambda>_. True) source options =
    Inr \<lparr>pa_options = options, pa_root = root, pa_source = source, pa_required_features = 0\<rparr>"
proof -
  have "\<exists>sequence1. ash_pattern_compile_sequence (\<lambda>_. True) options (length source) False 0 source ([], 0) 0 = Inr (sequence1, 0, [])"
    by (rule compile_sequence_plain [OF assms(2), of 0]) (use assms(4) in \<open>simp_all add: within_read_def ends_in_literal_def\<close>)
  then show ?thesis using assms by (auto simp: ash_pattern_compile_def)
qed

lemma plain_pattern_compiles_witness:
  "\<exists>root. ash_pattern_compile (\<lambda>_. True) ''+([*'' case_options =
    Inr \<lparr>pa_options = case_options, pa_root = root, pa_source = ''+([*'', pa_required_features = 0\<rparr>"
  by (rule plain_pattern_compiles)
    (simp_all add: ash_pattern_options_valid_def case_options_def no_extensions_def has_flag_def)

end
