(* ===== verification/Spec2Isabelle.thy ===== *)
theory Spec2Isabelle
  imports SizeParse Base64 Md5 Sha1 Sha256 Sha512 Crc32b DigestUtil ContextRoll InodeLedger OrderedPublication OutputSink FdRefinement ModeParse ArgvPacker RecordStream WalkFilter ShellTree ShellPattern
begin

text \<open>
  bx is a multi-call binary in C: one program that holds a few hundred command line applets (the
  base utilities, a shell, a search tool, network and archive tools, some of them large imported
  programs) on top of its own libraries. This development models the libraries, where the program's
  own core logic is, and states what makes each part correct. The build is for LP64 targets:
  \<open>size_t\<close> and \<open>uintmax_t\<close> have 64 bits, \<open>mode_t\<close> and \<open>unsigned\<close> 32.

  How the parts fit together. The applets parse their operands with SizeParse, ModeParse and
  CheckedMath, print names with OutputQuote, build command lines with ArgvPacker, and hash or
  encode data with the digests (BlockDigest and its instances, DigestUtil), Crc32b and Base64. The
  traversal code counts files once with InodeLedger. The search tool keeps the lines before a match
  in ContextRoll, reads files with RecordStream, leaves out what WalkFilter decides on the programs of
  IgnoreProgram along the chains of IgnoreState, and its workers hand their results to OrderedPublication and OutputSink, which
  take their bounds from Backpressure and report failures through CancelState. The shell saves and
  restores descriptors with FdTransaction; its state (ShellState) holds frames of variables (ShellScope,
  ShellVars) whose values are those of ShellValue, and its arithmetic (ShellArith) reads and assigns them.
  Words are compared with patterns by ShellPattern.

  Conventions. A C function that returns a flag and writes through an out pointer is a function into
  \<open>option\<close>. Errors are values, and every early return of the code is a branch. Words keep their
  width where wrapping matters; elsewhere \<open>size_t\<close> is \<open>nat\<close> and the overflow guards of the code are
  written out against \<open>size_max\<close>. Memory comes from an oracle \<open>avail\<close> that says which requests
  succeed, so a theorem that leaves it open covers every pattern of allocation failures. Recursive
  definitions follow the loops of the code and have a termination proof by a measure; the only fuel is
  in \<open>read_all\<close>, a client of RecordStream that reads until the end, where one more than the number of
  bytes is shown to be enough. Code with threads is a step relation whose steps are the locked sections. What a
  theorem says of the environment (a reader, the kernel, a callback of the caller) is a parameter.

  The theories.

  Prelude: types, C strings, decimal text, word and list lemmas, the allocator.

  CheckedMath (\<open>lib/checked_math.h\<close>): the checked additions, products and roundings, each of them exact:
  it gives the mathematical result, and refuses exactly when that does not fit.

  SizeParse (\<open>lib/size_parse.c\<close>): decimal counts, signed counts, suffixed sizes, the operands of \<open>dd\<close>,
  block counts and human sizes. Each parser is characterised exactly: which texts it accepts, with
  which value. The human printer is the reference rounding except where its tenths saturate.

  Base64 (\<open>lib/base64.c\<close>): the codec with the portable stubs of its vector entry points; round trip,
  announced size, strictness of the decoder.

  BlockDigest, Md5, Sha1, Sha256, Sha512 (\<open>crypto/\<close>): a digest that collects its input into blocks is
  a locale-free scheme in BlockDigest (\<open>stream_update\<close> and the padding), and each algorithm is the
  code's transform with its schedule and rounds; the results equal the digest of the padded message
  whatever way the data is cut into updates. Crc32b: the table-driven update equals the bitwise one.
  DigestUtil: hashing a descriptor over every pattern of short and interrupted reads, and the lines of
  checksum files.

  ContextRoll (\<open>search/context_roll.c\<close>): a byte array and an entry array with compaction and growth;
  the locale \<open>bounded_window\<close> states what a window of the last records is, the buffer interprets it,
  and after any number of pushes it holds exactly the last records.

  InodeLedger (\<open>lib/inode_ledger.c\<close>): an open-addressing table with linear probing and rehashing; the
  locale \<open>identity_map\<close> states the map it stands for, and the table interprets it.

  CancelState, OrderedPublication, Backpressure, OutputSink (\<open>lib/\<close>): the phases of a cancellation as
  one atomic word; packets published in the order of their numbers under every interleaving of
  workers and owner; the table of limits; the bounded, optionally ordered sink with its emitter
  thread. The states are records of the C structures, the steps are the locked sections, and the
  theorems are invariants by induction over the reachable states, with progress stated as such.

  FdTransaction, FdRefinement (\<open>lib/fd_transaction.c\<close>): the stack of descriptor transactions over an
  explicit kernel table. FdTransaction has the operations, the check the code asserts, and an
  invariant that implies it; FdRefinement has the abstract transactions (a table without backups, and
  for each transaction the numbers it may save and the values saved), shows that every call
  implements them, and concludes that a rollback undoes whatever was done.

  ModeParse (\<open>lib/mode_parse.c\<close>): octal and symbolic modes; the language accepted and the meaning of
  each clause, permission by permission.

  OutputQuote (\<open>lib/output_quote.c\<close>): the quoting styles. The specification is a reader: of C texts and
  of shell words. The round trips say that readers get the name back; the bounds that every buffer
  is large enough.

  ArgvPacker (\<open>lib/argv_packer.c\<close>): sizes of argument vectors, the choice of a batch, expansion of
  markers, splitting of command lines; it relies on the quoted writing of OutputQuote.

  RecordStream (\<open>search/record_stream.c\<close>): the records of a file, read in chunks through a pending
  buffer. What the stream and the file still hold is one text, and every read takes the next record
  off that text; the byte-wise reader and the chunked one agree.

  CLocale: what the search code uses of the C library: \<open>strcmp\<close> and \<open>strcasecmp\<close>, \<open>qsort\<close>, and POSIX
  \<open>fnmatch\<close>, in the C locale. IgnoreProgram (\<open>search/ignore_program.c\<close>): the rules of ignore files
  compiled into sorted tables that are searched in stages; the reference is the last rule that matches,
  and the staged search finds it. IgnoreState (\<open>search/ignore.c\<close>): the chain of programs from a directory
  outwards, its copies for other workers and for subtrees, and the cache of programs with its two locked
  sections. WalkFilter (\<open>search/filter.c\<close>, \<open>search/metadata.c\<close>): the decision of the walk on an entry, from
  the hidden-file policy, the type, the ignore rules and the exclude patterns.

  ShellValue (\<open>applets/shell/ash/variable_value.c\<close>): scalars, arrays indexed by number (a sorted array
  searched by bisection) and by text (a hash table of chains that doubles). The locale \<open>element_store\<close>
  states the finite map an array stands for, and both kinds interpret it, through collisions, growth and
  failed stores. ShellState (\<open>shell_policy.c\<close>, \<open>shell_options.c\<close>, \<open>control.c\<close>): the record of the
  shell, its options and personalities, and the transfers of control, which reach the loop they ask for.

  ShellScope (\<open>scope.c\<close>): the frames of variables, lookup through them, and name references, which end
  or are reported as a cycle. ShellVars (\<open>variables.c\<close>, \<open>locale_state.c\<close>, the temporary assignments of
  \<open>ash.c\<close>): every setter, with the process environment as part of the state. The steps of a history are the
  operations with every outcome the system allows; the environment mirrors the visible exported
  variables throughout, temporary assignments leave no trace, and read-only variables stay.

  ShellArith (\<open>arithmetic.c\<close>): arithmetic expansion, an operator-precedence evaluator with two stacks that
  evaluates while it reads; its operators are exact on integers, its constants are read exactly, and its
  loop ends because every round reads a character. ShellTree: the meaning of expression trees, defined
  without stacks and precedences, and the proof that the evaluator computes it on the text of every
  well-formed tree, with the same assignments in the same order. The stacks are bounded by the
  text, so that only texts of 2^50 characters and more, or a failed allocation, run out of memory.

  ShellPattern (\<open>pattern.c\<close>): shell patterns compiled into terms, and the matcher, for a locale of single
  bytes; \<open>fnmatch\<close> on one bracket expression is a parameter. The reference cuts the text into pieces, one for
  each term, and tries all ways; the matcher only ever goes back to the last star, or nowhere past a
  slash, and is shown to lose nothing. Its loop ends because every round has fewer terms ahead, or fewer
  bytes behind the star. Compilation is shown never to fail without the extensions, and quoted text to match itself.

  What the lemma groups show. In each theory: the invariant and its preservation by every operation,
  the behaviour of each operation on each branch, then the theorems that compose them. Where the
  code has a contract (window, map, transactions, readers) it is stated as a locale or as an abstract
  operation, and the code's definitions are shown to implement it.

  Not modelled, and why. The floating-point half of \<open>size_parse.c\<close> (it needs a model of the C library's
  decimal conversion of doubles). The vector variants of the digests and of base64 (intrinsics). The
  applets and the imported programs (the editor, the calculator, the terminal multiplexer, the
  relay tools, the archivers, the manual formatter, the JSON processor): most of
  their lines are third-party code, option handling or I/O. The shell's parser, expansion and executor, the
  import of the initial environment and the frames of locale changes. The traversal, copying, removal and
  process-spawning libraries, which are sequences of system calls whose results the model would have to
  invent; the search matchers around PCRE2; the profiling counters. PROJECT.json lists all of them.
\<close>

end
